(* ===== verification/Prelude.thy ===== *)
theory Prelude
  imports Main "HOL-Library.Word"
begin

text \<open>
  What every component shares: the byte type, ASCII literals as bytes, the decimal
  spelling of a number, lemmas on reading a list at an index as C reads an array, and the
  named collections the component proofs are driven by.

  Conventions of the whole development.  A byte is an \<^typ>\<open>8 word\<close>.  A C range
  \<open>data[0, len)\<close> is a \<^typ>\<open>8 word list\<close>; its length is the list's.  A C index that
  the code keeps non-negative is a \<^typ>\<open>nat\<close>.  An allocator is a predicate on the size
  asked for, \<open>grant\<close>: growth sizes within one buffer strictly increase, so a predicate
  on the size describes every sequence of answers one operation can meet.
\<close>

unbundle bit_operations_syntax

type_synonym byte = "8 word"

named_theorems model_defs \<open>definitions that a component proof unfolds\<close>
named_theorems reads \<open>what the character at the cursor says of the rest of the text\<close>

subsection \<open>ASCII\<close>

definition asc :: "string \<Rightarrow> byte list" where
  "asc s = map of_char s"

abbreviation chr8 :: "char \<Rightarrow> byte" where
  "chr8 c \<equiv> of_char c"

lemma asc_Nil [simp]: "asc [] = []"
  by (simp add: asc_def)

lemma asc_Cons [simp]: "asc (c # s) = of_char c # asc s"
  by (simp add: asc_def)

lemma asc_append [simp]: "asc (s @ t) = asc s @ asc t"
  by (simp add: asc_def)

lemma length_asc [simp]: "length (asc s) = length s"
  by (simp add: asc_def)

text \<open>The largest \<open>size_t\<close> of a 64-bit target.\<close>

definition SIZE_MAX :: nat where
  "SIZE_MAX = 2 ^ 64 - 1"

subsection \<open>Byte intervals\<close>

lemma unat_byte_less [simp]: "unat (c :: byte) < 256"
proof -
  have "unat c < 2 ^ LENGTH(8)" by (rule unsigned_less)
  then show ?thesis by simp
qed

definition between :: "byte \<Rightarrow> byte \<Rightarrow> byte \<Rightarrow> bool" where
  "between lo hi b \<longleftrightarrow> lo \<le> b \<and> b \<le> hi"

lemma between_unat: "between lo hi b \<longleftrightarrow> unat lo \<le> unat b \<and> unat b \<le> unat hi"
  by (simp add: between_def word_le_nat_alt)

subsection \<open>Reading a list at an index\<close>

lemma drop_Cons_nth:
  assumes "drop i xs = x # ys"
  shows "i < length xs" and "xs ! i = x" and "drop (Suc i) xs = ys"
proof -
  show i: "i < length xs" using assms by (metis drop_eq_Nil2 linorder_not_less list.distinct(1))
  show "xs ! i = x" using assms i by (metis Cons_nth_drop_Suc list.inject)
  show "drop (Suc i) xs = ys" using assms i by (metis Cons_nth_drop_Suc list.inject)
qed

lemma drop_append_plus:
  assumes "drop i xs = ys @ zs"
  shows "drop (i + length ys) xs = zs"
  using assms by (metis append_eq_conv_conj drop_drop add.commute)

lemma drop_append_le:
  assumes "drop i xs = ys @ zs" and "i \<le> length xs"
  shows "i + length ys \<le> length xs"
  using arg_cong [OF assms(1), of length] assms(2) by simp

lemma takeWhile_append_stop:
  assumes "\<forall>x \<in> set xs. P x" and "ys = [] \<or> \<not> P (hd ys)"
  shows "takeWhile P (xs @ ys) = xs"
  using assms by (cases ys) (simp_all add: takeWhile_append)

lemma dropWhile_append_stop:
  assumes "\<forall>x \<in> set xs. P x" and "ys = [] \<or> \<not> P (hd ys)"
  shows "dropWhile P (xs @ ys) = ys"
  using assms by (cases ys) (simp_all add: dropWhile_append)

lemma hd_dropWhile_or_Nil: "dropWhile P xs = [] \<or> \<not> P (hd (dropWhile P xs))"
  by (metis hd_dropWhile)

text \<open>The cursor loop \<open>while (at < size && p(text[at])) at++\<close>.\<close>

function skip_while :: "('a \<Rightarrow> bool) \<Rightarrow> 'a list \<Rightarrow> nat \<Rightarrow> nat" where
  "skip_while p src at = (if at < length src \<and> p (src ! at) then skip_while p src (at + 1) else at)"
  by pat_completeness auto
termination
  by (relation "measure (\<lambda>(p, src, at). length src - at)") auto

declare skip_while.simps [simp del]

lemma skip_while_takeWhile: "skip_while p src at = at + length (takeWhile p (drop at src))"
proof (induction p src at rule: skip_while.induct)
  case (1 p src at)
  show ?case
  proof (cases "at < length src")
    case True
    then have "drop at src = src ! at # drop (Suc at) src" by (simp add: Cons_nth_drop_Suc)
    then show ?thesis using 1 True by (subst skip_while.simps) simp
  qed (subst skip_while.simps, simp)
qed

lemma skip_while_ge: "at \<le> skip_while p src at"
  by (simp add: skip_while_takeWhile)

lemma skip_while_le: "at \<le> length src \<Longrightarrow> skip_while p src at \<le> length src"
  using length_takeWhile_le [of p "drop at src"] by (simp add: skip_while_takeWhile)

lemma skip_while_stop: "skip_while p src at < length src \<Longrightarrow> \<not> p (src ! skip_while p src at)"
proof (induction p src at rule: skip_while.induct)
  case (1 p src at)
  then show ?case by (cases "at < length src \<and> p (src ! at)") (simp_all add: skip_while.simps [of p src at])
qed

text \<open>Over a text that reads \<open>xs\<close> and then stops, the cursor passes \<open>xs\<close>.\<close>

lemma skip_while_run:
  assumes "drop at src = xs @ ys" and "\<forall>x \<in> set xs. p x" and "ys = [] \<or> \<not> p (hd ys)"
  shows "skip_while p src at = at + length xs"
  using takeWhile_append_stop [OF assms(2,3)] assms(1) by (simp add: skip_while_takeWhile)

subsection \<open>A range of a text\<close>

definition slice :: "'a list \<Rightarrow> nat \<Rightarrow> nat \<Rightarrow> 'a list" where
  "slice src a b = take (b - a) (drop a src)"

lemma slice_same [simp]: "slice src a a = []"
  by (simp add: slice_def)

lemma length_slice: "b \<le> length src \<Longrightarrow> length (slice src a b) = b - a"
  by (simp add: slice_def)

lemma slice_one: "a < length src \<Longrightarrow> slice src a (Suc a) = [src ! a]"
  by (simp add: slice_def take_Suc_conv_app_nth)

lemma slice_append:
  assumes "a \<le> b" and "b \<le> c"
  shows "slice src a b @ slice src b c = slice src a c"
proof -
  have "take (b - a) (drop a src) @ take (c - b) (drop (b - a) (drop a src)) = take (b - a + (c - b)) (drop a src)"
    by (simp only: take_add)
  then show ?thesis using assms by (simp add: slice_def)
qed

lemma slice_all: "a \<le> length src \<Longrightarrow> slice src a (length src) = drop a src"
  by (simp add: slice_def)

lemma drop_slice: "a \<le> b \<Longrightarrow> drop a src = slice src a b @ drop b src"
  by (metis append_take_drop_id drop_drop le_add_diff_inverse2 slice_def)

lemma slice_skip_while: "slice src at (skip_while p src at) = takeWhile p (drop at src)"
proof -
  have "take (length (takeWhile p xs)) xs = takeWhile p xs" for xs :: "'a list"
    by (induction xs) simp_all
  then show ?thesis by (simp add: slice_def skip_while_takeWhile)
qed

lemma set_slice_skip_while: "x \<in> set (slice src at (skip_while p src at)) \<Longrightarrow> p x"
  unfolding slice_skip_while by (drule set_takeWhileD) blast

subsection \<open>Codecs\<close>

text \<open>
  A decoder that takes one value off the front of a byte string and answers the value and
  the rest, and an encoder it inverts whatever follows: the UTF-8 encoding of a scalar and
  the message framing of the language server are such pairs.
\<close>

fun decode_many :: "(byte list \<Rightarrow> ('a \<times> byte list) option) \<Rightarrow> nat \<Rightarrow> byte list \<Rightarrow> ('a list \<times> byte list) option"
where
  "decode_many dec 0 bs = Some ([], bs)"
| "decode_many dec (Suc n) bs =
     (case dec bs of
        None \<Rightarrow> None
      | Some (x, rest) \<Rightarrow> map_option (\<lambda>(xs, left). (x # xs, left)) (decode_many dec n rest))"

locale prefix_codec =
  fixes enc :: "'a \<Rightarrow> byte list"
    and dec :: "byte list \<Rightarrow> ('a \<times> byte list) option"
    and valid :: "'a \<Rightarrow> bool"
  assumes dec_enc: "valid x \<Longrightarrow> dec (enc x @ rest) = Some (x, rest)"
begin

lemma enc_prefix_free:
  assumes "valid x" and "valid y" and "enc x @ r = enc y @ s"
  shows "x = y \<and> r = s"
  using dec_enc [OF assms(1), of r] dec_enc [OF assms(2), of s] assms(3)
  by (metis option.inject prod.inject)

lemma enc_inj: "valid x \<Longrightarrow> valid y \<Longrightarrow> enc x = enc y \<Longrightarrow> x = y"
  using enc_prefix_free [of x y "[]" "[]"] by simp

lemma decode_many_concat:
  "list_all valid xs \<Longrightarrow> decode_many dec (length xs) (concat (map enc xs) @ rest) = Some (xs, rest)"
  by (induction xs) (simp_all add: dec_enc)

lemma concat_enc_inj:
  assumes "list_all valid xs" and "list_all valid ys" and "length xs = length ys"
    and "concat (map enc xs) = concat (map enc ys)"
  shows "xs = ys"
  using decode_many_concat [OF assms(1), of "[]"] decode_many_concat [OF assms(2), of "[]"] assms(3,4)
  by simp

end

subsection \<open>Append-only outputs\<close>

text \<open>
  What a writer relies on of the text it writes into: an append either happens whole or is
  lost and says so for good.  The parser's buffer and the language server's JSON output are
  such outputs.
\<close>

locale sink =
  fixes put :: "'s \<Rightarrow> byte list \<Rightarrow> 's"
    and content :: "'s \<Rightarrow> byte list"
    and lost :: "'s \<Rightarrow> bool"
    and inv :: "'s \<Rightarrow> bool"
  assumes put_inv: "inv s \<Longrightarrow> inv (put s d)"
    and put_content: "\<not> lost (put s d) \<Longrightarrow> content (put s d) = content s @ d"
    and put_keeps: "lost (put s d) \<Longrightarrow> content (put s d) = content s"
    and put_lost: "lost s \<Longrightarrow> lost (put s d)"
begin

lemma puts_inv: "inv s \<Longrightarrow> inv (foldl put s ds)"
  by (induction ds arbitrary: s) (simp_all add: put_inv)

lemma puts_lost: "lost s \<Longrightarrow> lost (foldl put s ds)"
  by (induction ds arbitrary: s) (simp_all add: put_lost)

lemma puts_content: "\<not> lost (foldl put s ds) \<Longrightarrow> content (foldl put s ds) = content s @ concat ds"
proof (induction ds arbitrary: s)
  case (Cons d ds)
  then have "\<not> lost (put s d)" using puts_lost [of "put s d" ds] by auto
  with Cons show ?case by (simp add: put_content)
qed simp

lemma puts_after_loss: "lost s \<Longrightarrow> content (foldl put s ds) = content s"
  by (induction ds arbitrary: s) (simp_all add: put_lost put_keeps)

text \<open>Whatever is lost, what was written before stays: whole pieces, in order.\<close>

lemma puts_prefix: "\<exists>n \<le> length ds. content (foldl put s ds) = content s @ concat (take n ds)"
proof (induction ds arbitrary: s)
  case (Cons d ds)
  show ?case
  proof (cases "lost (put s d)")
    case True
    then show ?thesis by (intro exI [of _ 0]) (simp add: puts_after_loss put_keeps)
  next
    case False
    obtain n where n: "n \<le> length ds"
      "content (foldl put (put s d) ds) = content (put s d) @ concat (take n ds)"
      using Cons.IH by blast
    then show ?thesis
      using put_content [OF False] by (intro exI [of _ "Suc n"]) simp
  qed
qed simp

end

end
