(* ===== verification/Ctype.thy ===== *)
theory Ctype
  imports Prelude
begin

text \<open>
  core/markdown_core_ctype.c and core/markdown_core_ctype.h: the locale-independent byte
  classes, the whitespace classes and the scanners over them.  A range
  \<open>data[at, end)\<close> is passed as the list of its bytes and a scanner answers how many of
  them it passes, so that the C result is \<open>at\<close> plus the answer.
\<close>

text \<open>The class table: 1 punctuation, 2 digit, 3 letter, 0 other.\<close>

definition ctype_class :: "nat list" where
  "ctype_class =
     replicate 33 0 @ replicate 15 1 @ replicate 10 2 @ replicate 7 1 @ replicate 26 3 @
     replicate 6 1 @ replicate 26 3 @ replicate 4 1 @ replicate 129 0"

definition ispunct :: "byte \<Rightarrow> bool" where
  "ispunct c \<longleftrightarrow> ctype_class ! unat c = 1"

definition isdigit :: "byte \<Rightarrow> bool" where
  "isdigit c \<longleftrightarrow> ctype_class ! unat c = 2"

definition isalpha :: "byte \<Rightarrow> bool" where
  "isalpha c \<longleftrightarrow> ctype_class ! unat c = 3"

definition isalnum :: "byte \<Rightarrow> bool" where
  "isalnum c \<longleftrightarrow> ctype_class ! unat c = 2 \<or> ctype_class ! unat c = 3"

definition is_space_or_tab :: "byte \<Rightarrow> bool" where
  "is_space_or_tab c \<longleftrightarrow> c = 0x20 \<or> c = 0x09"

definition is_line_end :: "byte \<Rightarrow> bool" where
  "is_line_end c \<longleftrightarrow> c = 0x0A \<or> c = 0x0D"

definition is_whitespace :: "byte \<Rightarrow> bool" where
  "is_whitespace c \<longleftrightarrow> is_space_or_tab c \<or> is_line_end c"

lemmas whitespace_defs = is_whitespace_def is_space_or_tab_def is_line_end_def

fun is_blank_to_line_end :: "byte list \<Rightarrow> bool" where
  "is_blank_to_line_end [] = True"
| "is_blank_to_line_end (b # bs) =
     (if \<not> is_space_or_tab b then is_line_end b else is_blank_to_line_end bs)"

text \<open>Past the spaces, tabs and at most one line ending.\<close>

definition skip_spaces_and_line_end :: "byte list \<Rightarrow> nat" where
  "skip_spaces_and_line_end d =
     (let at = length (takeWhile is_space_or_tab d);
          after = (if at < length d \<and> d ! at = 0x0D then at + 1 else at);
          after = (if after < length d \<and> d ! after = 0x0A then after + 1 else after)
      in if after = at then at
         else after + length (takeWhile is_space_or_tab (drop after d)))"

text \<open>
  The scan that is unrolled eight times.  The outer loop keeps eight bytes in hand; the
  eight tests of one turn are the eight conditionals below, in the order of the code.
\<close>

function scan_to_class :: "(byte \<Rightarrow> byte) \<Rightarrow> byte \<Rightarrow> byte list \<Rightarrow> nat \<Rightarrow> nat" where
  "scan_to_class classes stops data at =
     (if length data - at \<ge> 8 then
        if classes (data ! at) AND stops \<noteq> 0 then at
        else if classes (data ! (at + 1)) AND stops \<noteq> 0 then at + 1
        else if classes (data ! (at + 2)) AND stops \<noteq> 0 then at + 2
        else if classes (data ! (at + 3)) AND stops \<noteq> 0 then at + 3
        else if classes (data ! (at + 4)) AND stops \<noteq> 0 then at + 4
        else if classes (data ! (at + 5)) AND stops \<noteq> 0 then at + 5
        else if classes (data ! (at + 6)) AND stops \<noteq> 0 then at + 6
        else if classes (data ! (at + 7)) AND stops \<noteq> 0 then at + 7
        else scan_to_class classes stops data (at + 8)
      else if at < length data \<and> \<not> (classes (data ! at) AND stops \<noteq> 0)
      then scan_to_class classes stops data (at + 1)
      else at)"
  by pat_completeness auto
termination
  by (relation "measure (\<lambda>(classes, stops, data, at). length data - at)") auto

declare scan_to_class.simps [simp del]

subsection \<open>The table is the classes it is meant to be\<close>

lemma length_ctype_class [simp]: "length ctype_class = 256"
  by (simp add: ctype_class_def)

lemma ctype_class_map:
  "ctype_class =
     map (\<lambda>n. if 33 \<le> n \<and> n < 48 \<or> 58 \<le> n \<and> n < 65 \<or> 91 \<le> n \<and> n < 97 \<or> 123 \<le> n \<and> n < 127
              then 1
              else if 48 \<le> n \<and> n < 58 then 2
              else if 65 \<le> n \<and> n < 91 \<or> 97 \<le> n \<and> n < 123 then 3 else 0) [0..<256]"
  by code_simp

lemma ctype_class_nth:
  "ctype_class ! unat (c :: byte) =
     (if 33 \<le> unat c \<and> unat c < 48 \<or> 58 \<le> unat c \<and> unat c < 65 \<or>
         91 \<le> unat c \<and> unat c < 97 \<or> 123 \<le> unat c \<and> unat c < 127 then 1
      else if 48 \<le> unat c \<and> unat c < 58 then 2
      else if 65 \<le> unat c \<and> unat c < 91 \<or> 97 \<le> unat c \<and> unat c < 123 then 3 else 0)"
  unfolding ctype_class_map by simp

lemma ispunct_interval:
  "ispunct c \<longleftrightarrow> 33 \<le> unat c \<and> unat c < 48 \<or> 58 \<le> unat c \<and> unat c < 65 \<or>
     91 \<le> unat c \<and> unat c < 97 \<or> 123 \<le> unat c \<and> unat c < 127"
  by (simp add: ispunct_def ctype_class_nth)

lemma isdigit_interval: "isdigit c \<longleftrightarrow> 48 \<le> unat c \<and> unat c < 58"
  by (simp add: isdigit_def ctype_class_nth)

lemma isalpha_interval:
  "isalpha c \<longleftrightarrow> 65 \<le> unat c \<and> unat c < 91 \<or> 97 \<le> unat c \<and> unat c < 123"
  by (simp add: isalpha_def ctype_class_nth)

lemma isalnum_iff: "isalnum c \<longleftrightarrow> isdigit c \<or> isalpha c"
  by (simp add: isalnum_def isdigit_def isalpha_def)

lemma is_whitespace_unat:
  "is_whitespace c \<longleftrightarrow> unat c = 32 \<or> unat c = 9 \<or> unat c = 10 \<or> unat c = 13"
  by (simp add: whitespace_defs word_unat_eq_iff)

lemma whitespace_not_punct: "is_whitespace c \<Longrightarrow> \<not> ispunct c"
  by (auto simp: ispunct_interval is_whitespace_unat)

subsection \<open>The scanners\<close>

text \<open>The unrolled scan answers the first byte of the class, as one loop would.\<close>

lemma scan_to_class_skip: "scan_to_class classes stops data at = skip_while (\<lambda>b. classes b AND stops = 0) data at"
proof (induction classes stops data at rule: scan_to_class.induct)
  case (1 classes stops data at)
  let ?q = "\<lambda>b. classes b AND stops = 0"
  have u: "skip_while ?q data i = (if classes (data ! i) AND stops = 0 then skip_while ?q data j else i)"
    if "i < length data" "j = i + 1" for i j using that by (subst skip_while.simps) simp
  show ?case
  proof (cases "length data - at \<ge> 8")
    case True
    have us: "skip_while ?q data (at + k) = (if classes (data ! (at + k)) AND stops = 0 then skip_while ?q data (at + Suc k) else at + k)"
      if "k < 8" for k using True that by (intro u) simp_all
    note us = us [of 0, simplified] us [of 1, simplified] us [of 2, simplified] us [of 3, simplified]
      us [of 4, simplified] us [of 5, simplified] us [of 6, simplified] us [of 7, simplified]
    have "classes (data ! at) AND stops = 0 \<Longrightarrow> classes (data ! (at + 1)) AND stops = 0 \<Longrightarrow> classes (data ! (at + 2)) AND stops = 0 \<Longrightarrow>
      classes (data ! (at + 3)) AND stops = 0 \<Longrightarrow> classes (data ! (at + 4)) AND stops = 0 \<Longrightarrow> classes (data ! (at + 5)) AND stops = 0 \<Longrightarrow>
      classes (data ! (at + 6)) AND stops = 0 \<Longrightarrow> classes (data ! (at + 7)) AND stops = 0 \<Longrightarrow>
      scan_to_class classes stops data (at + 8) = skip_while ?q data (at + 8)"
      using 1(1) True by simp
    then show ?thesis using True by (subst scan_to_class.simps) (simp add: us)
  next
    case False
    then show ?thesis using 1(2) by (subst scan_to_class.simps, subst skip_while.simps) simp
  qed
qed

end
