(* ===== verification/Utf8.thy ===== *)
theory Utf8
  imports Ctype
begin

text \<open>
  core/utf8.h and core/utf8.c: the decoder, the width table and the encoder.  A scalar is a
  \<^typ>\<open>nat\<close>: the C arithmetic is on \<open>uint32_t\<close> values below \<open>2 ^ 26\<close>, which
  \<open>decode_scalar_less\<close> below shows, so nothing wraps.  The character at \<open>str\<close> of a
  range of at least one byte is passed as its first byte and the rest of the range, which is
  the \<open>assert(len > 0)\<close> of the code.  The generated Unicode class table
  (core/unicode_categories.inc) is an argument, \<open>pages\<close> and \<open>blocks\<close>.
\<close>

definition NO_SCALAR :: nat where
  "NO_SCALAR = 0x110000"

text \<open>The width and the scalar of the character that begins at \<open>lead\<close>.\<close>

definition utf8proc_decode :: "byte \<Rightarrow> byte list \<Rightarrow> nat \<times> nat" where
  "utf8proc_decode lead more =
     (let l = unat lead; len = 1 + length more
      in if l < 0x80 then (1, l)
         else if l < 0xC0 then (1, NO_SCALAR)
         else if l < 0xE0 then
           if len \<ge> 2 then (2, push_bit 6 l XOR unat (more ! 0) XOR 0x3080)
           else (len, NO_SCALAR)
         else if l < 0xF0 then
           if len \<ge> 3
           then (3, push_bit 12 l XOR push_bit 6 (unat (more ! 0)) XOR unat (more ! 1) XOR 0xE2080)
           else (len, NO_SCALAR)
         else if len \<ge> 4
         then (4, push_bit 18 l XOR push_bit 12 (unat (more ! 0)) XOR
                  push_bit 6 (unat (more ! 1)) XOR unat (more ! 2) XOR 0x3C82080)
         else (len, NO_SCALAR))"

definition utf8proc_width :: "byte \<Rightarrow> nat" where
  "utf8proc_width lead = [1, 1, 1, 1, 1, 1, 1, 1, 1, 1, 1, 1, 2, 2, 3, 4] ! drop_bit 4 (unat lead)"

definition scalar_width :: "nat \<Rightarrow> nat" where
  "scalar_width uc = (if uc < 0x80 then 1 else if uc < 0x800 then 2 else if uc < 0x10000 then 3 else 4)"

definition encode_scalar :: "nat \<Rightarrow> nat \<Rightarrow> byte list" where
  "encode_scalar uc width =
     (if width = 1 then [of_nat uc]
      else if width = 2 then
        [of_nat (0xC0 + drop_bit 6 uc), of_nat (0x80 + (uc AND 0x3F))]
      else if width = 3 then
        [of_nat (0xE0 + drop_bit 12 uc), of_nat (0x80 + (drop_bit 6 uc AND 0x3F)),
         of_nat (0x80 + (uc AND 0x3F))]
      else
        [of_nat (0xF0 + drop_bit 18 uc), of_nat (0x80 + (drop_bit 12 uc AND 0x3F)),
         of_nat (0x80 + (drop_bit 6 uc AND 0x3F)), of_nat (0x80 + (uc AND 0x3F))])"

definition encode_unknown :: "byte list" where
  "encode_unknown = [239, 191, 189]"

text \<open>The bytes \<open>markdown_core_utf8proc_encode_char\<close> appends.\<close>

definition encode_char :: "nat \<Rightarrow> byte list" where
  "encode_char uc = (if uc \<ge> 0x110000 then encode_unknown else encode_scalar uc (scalar_width uc))"

text \<open>A scalar's classes, from the staged table.\<close>

definition utf8proc_classes :: "nat list \<Rightarrow> byte list \<Rightarrow> nat \<Rightarrow> byte" where
  "utf8proc_classes pages blocks scalar =
     (if scalar < 0x100 then blocks ! scalar
      else if scalar \<ge> 0x110000 then 0
      else blocks ! (pages ! drop_bit 8 scalar + (scalar AND 255)))"

definition UNICODE_WHITESPACE :: byte where "UNICODE_WHITESPACE = 1"
definition UNICODE_PUNCTUATION :: byte where "UNICODE_PUNCTUATION = 2"
definition UNICODE_SYMBOL :: byte where "UNICODE_SYMBOL = 4"
definition UNICODE_LETTER :: byte where "UNICODE_LETTER = 8"
definition UNICODE_NUMBER :: byte where "UNICODE_NUMBER = 16"

definition UNICODE_PUNCTUATION_OR_SYMBOL :: byte where
  "UNICODE_PUNCTUATION_OR_SYMBOL = UNICODE_PUNCTUATION OR UNICODE_SYMBOL"

text \<open>The width of an alphanumeric character at the start of the range, or 0.\<close>

definition alnum_width :: "(nat \<Rightarrow> byte) \<Rightarrow> byte list \<Rightarrow> nat" where
  "alnum_width classes str =
     (case str of
        [] \<Rightarrow> 0
      | lead # more \<Rightarrow>
          (let (width, scalar) = utf8proc_decode lead more
           in if classes scalar AND (UNICODE_LETTER OR UNICODE_NUMBER) \<noteq> 0 then width else 0))"

text \<open>The walk over a range, character by character, as its callers make it.\<close>

function decode_walk :: "byte list \<Rightarrow> nat list" where
  "decode_walk [] = []"
| "decode_walk (lead # more) =
     snd (utf8proc_decode lead more) #
     decode_walk (drop (fst (utf8proc_decode lead more) - 1) more)"
  by pat_completeness auto
termination
  by (relation "measure length") auto

declare decode_walk.simps(2) [simp del]

subsection \<open>What holds on any bytes\<close>

lemma decode_width_pos: "1 \<le> fst (utf8proc_decode lead more)"
  by (auto simp: utf8proc_decode_def Let_def)

lemma decode_width_le: "fst (utf8proc_decode lead more) \<le> Suc (length more)"
  by (auto simp: utf8proc_decode_def Let_def)

lemma width_cases:
  "utf8proc_width lead =
     (if unat lead < 0xC0 then 1 else if unat lead < 0xE0 then 2 else if unat lead < 0xF0 then 3 else 4)"
proof -
  have "\<forall>n < 256. [1, 1, 1, 1, 1, 1, 1, 1, 1, 1, 1, 1, 2, 2, 3, 4 :: nat] ! drop_bit 4 n =
     (if n < 0xC0 then 1 else if n < 0xE0 then 2 else if n < 0xF0 then 3 else 4)"
    by code_simp
  then show ?thesis
    by (simp add: utf8proc_width_def)
qed

lemma xor_less:
  fixes a b :: nat
  assumes "a < 2 ^ n" and "b < 2 ^ n"
  shows "a XOR b < 2 ^ n"
proof -
  have "take_bit n (a XOR b) = a XOR b"
    using assms by (simp add: take_bit_xor take_bit_nat_eq_self)
  then show ?thesis by (metis take_bit_nat_less_exp)
qed

lemma push_bit_xor_low:
  fixes a b :: nat
  assumes "b < 2 ^ n"
  shows "push_bit n a XOR b = push_bit n a + b"
proof -
  have b: "take_bit n b = b" using assms by (simp add: take_bit_nat_eq_self)
  have "\<not> bit b k" if "n \<le> k" for k
    using b that by (metis bit_take_bit_iff linorder_not_le)
  then have "push_bit n a AND b = 0"
    by (auto simp: bit_eq_iff bit_simps)
  then show ?thesis by (simp add: disjunctive_add_eq_xor)
qed

text \<open>The tag bits of a lead byte and of a continuation byte, taken apart.\<close>

lemma lead_tags:
  fixes a :: nat
  shows "a < 64 \<Longrightarrow> 0x80 + a = 0x80 XOR a" and "a < 64 \<Longrightarrow> 0xC0 + a = 0xC0 XOR a"
    and "a < 32 \<Longrightarrow> 0xE0 + a = 0xE0 XOR a" and "a < 16 \<Longrightarrow> 0xF0 + a = 0xF0 XOR a"
  using push_bit_xor_low [of a 6 2] push_bit_xor_low [of a 6 3] push_bit_xor_low [of a 5 7]
    push_bit_xor_low [of a 4 15] by simp_all

lemma low_sums:
  fixes a b c d :: nat
  assumes "b < 64" and "c < 64" and "d < 64"
  shows "push_bit 6 a XOR b = 64 * a + b"
    and "push_bit 12 a XOR (push_bit 6 b XOR c) = 4096 * a + (64 * b + c)"
    and "push_bit 18 a XOR (push_bit 12 b XOR (push_bit 6 c XOR d)) =
         262144 * a + (4096 * b + (64 * c + d))"
proof -
  have six: "push_bit 6 x XOR y = 64 * x + y" if "y < 64" for x y :: nat
    using push_bit_xor_low [of y 6 x] that by (simp add: push_bit_eq_mult)
  have twelve: "push_bit 12 x XOR y = 4096 * x + y" if "y < 4096" for x y :: nat
    using push_bit_xor_low [of y 12 x] that by (simp add: push_bit_eq_mult)
  have eighteen: "push_bit 18 x XOR y = 262144 * x + y" if "y < 262144" for x y :: nat
    using push_bit_xor_low [of y 18 x] that by (simp add: push_bit_eq_mult)
  show "push_bit 6 a XOR b = 64 * a + b" using assms by (simp only: six)
  show "push_bit 12 a XOR (push_bit 6 b XOR c) = 4096 * a + (64 * b + c)"
    using assms by (subst six; simp add: twelve)
  show "push_bit 18 a XOR (push_bit 12 b XOR (push_bit 6 c XOR d)) =
      262144 * a + (4096 * b + (64 * c + d))"
    using assms by (subst six; simp add: twelve eighteen)
qed

text \<open>The tag bits cancel against the constant of each width.\<close>

lemma decode_sums:
  fixes a b c d :: nat
  assumes "b < 64" and "c < 64" and "d < 64"
  shows "a < 64 \<Longrightarrow> push_bit 6 (0xC0 + a) XOR (0x80 + b) XOR 0x3080 = 64 * a + b"
    and "a < 32 \<Longrightarrow> push_bit 12 (0xE0 + a) XOR push_bit 6 (0x80 + b) XOR (0x80 + c) XOR 0xE2080
         = 4096 * a + (64 * b + c)"
    and "a < 16 \<Longrightarrow> push_bit 18 (0xF0 + a) XOR push_bit 12 (0x80 + b) XOR push_bit 6 (0x80 + c)
           XOR (0x80 + d) XOR 0x3C82080
         = 262144 * a + (4096 * b + (64 * c + d))"
proof -
  have k2: "(0x3080 :: nat) = push_bit 6 0xC0 XOR 0x80" by simp
  have k3: "(0xE2080 :: nat) = push_bit 12 0xE0 XOR (push_bit 6 0x80 XOR 0x80)" by simp
  have k4: "(0x3C82080 :: nat) = push_bit 18 0xF0 XOR (push_bit 12 0x80 XOR (push_bit 6 0x80 XOR 0x80))"
    by simp
  note tags = lead_tags(1) [OF assms(1)] lead_tags(1) [OF assms(2)] lead_tags(1) [OF assms(3)]
  show "push_bit 6 (0xC0 + a) XOR (0x80 + b) XOR 0x3080 = 64 * a + b" if "a < 64"
    unfolding tags lead_tags(2) [OF that] k2 push_bit_xor low_sums(1) [OF assms, symmetric]
    by (rule bit_eqI) (simp only: bit_xor_iff, blast)
  show "push_bit 12 (0xE0 + a) XOR push_bit 6 (0x80 + b) XOR (0x80 + c) XOR 0xE2080
         = 4096 * a + (64 * b + c)" if "a < 32"
    unfolding tags lead_tags(3) [OF that] k3 push_bit_xor low_sums(2) [OF assms, symmetric]
    by (rule bit_eqI) (simp only: bit_xor_iff, blast)
  show "push_bit 18 (0xF0 + a) XOR push_bit 12 (0x80 + b) XOR push_bit 6 (0x80 + c)
           XOR (0x80 + d) XOR 0x3C82080
         = 262144 * a + (4096 * b + (64 * c + d))" if "a < 16"
    unfolding tags lead_tags(4) [OF that] k4 push_bit_xor low_sums(3) [OF assms, symmetric]
    by (rule bit_eqI) (simp only: bit_xor_iff, blast)
qed

subsection \<open>The scalar is bounded on any bytes\<close>

lemma unat_byte_less_exp: "unat (b :: byte) < 2 ^ (8 + n)"
proof -
  have "unat b < 2 ^ 8" using unat_byte_less [of b] by simp
  also have "\<dots> \<le> 2 ^ (8 + n)" by (rule power_increasing) simp_all
  finally show ?thesis .
qed

lemma push_unat_less: "m \<le> 14 \<Longrightarrow> push_bit m (unat (b :: byte)) < 2 ^ 22"
proof -
  assume m: "m \<le> 14"
  have "push_bit m (unat b) = 2 ^ m * unat b" by (simp add: push_bit_eq_mult mult.commute)
  also have "\<dots> < 2 ^ m * 2 ^ 8" using unat_byte_less [of b] by simp
  also have "\<dots> = 2 ^ (m + 8)" by (simp add: power_add)
  also have "\<dots> \<le> 2 ^ 22" using m by (intro power_increasing) simp_all
  finally show ?thesis .
qed

lemma xor_lead:
  fixes l k :: nat
  assumes "l < 2 ^ 8" and "240 \<le> l"
  shows "push_bit 18 l XOR 0x3C82080 < 2 ^ 22"
proof -
  have a: "l - 240 < 16" using assms by simp
  have "l = 240 + (l - 240)" using assms by simp
  then have l: "l = 240 XOR (l - 240)" using lead_tags(4) [OF a] by simp
  have k: "(0x3C82080 :: nat) = push_bit 18 240 XOR 0x82080" by simp
  have "push_bit 18 (240 XOR (l - 240)) XOR 0x3C82080 = push_bit 18 (l - 240) XOR 0x82080"
    unfolding k push_bit_xor by (rule bit_eqI) (simp only: bit_xor_iff, blast)
  then have "push_bit 18 l XOR 0x3C82080 = push_bit 18 (l - 240) XOR 0x82080"
    using l by simp
  moreover have "push_bit 18 (l - 240) < 2 ^ 22"
    using a by (simp add: push_bit_eq_mult)
  ultimately show ?thesis using xor_less [where a = "push_bit 18 (l - 240)" and n = 22 and b = "0x82080"] by simp
qed

text \<open>
  The width of a decode is the tabulated width cut to the range, so a walk moves forward and
  never past its range, and the scalar is below \<open>0x400000\<close>, whatever the bytes.
\<close>

lemma decode_width: "fst (utf8proc_decode lead more) = min (utf8proc_width lead) (Suc (length more))"
  by (simp add: utf8proc_decode_def width_cases Let_def min_def)

lemma decode_scalar_less: "snd (utf8proc_decode lead more) < 0x400000"
proof -
  have b: "unat x < 2 ^ 22" for x :: byte
    using push_unat_less [of 0 x] by simp
  have p: "push_bit 6 (unat x) < 2 ^ 22" "push_bit 12 (unat x) < 2 ^ 22" for x :: byte
    by (simp_all only: push_unat_less)
  have two: "push_bit 6 l XOR x XOR 0x3080 < 2 ^ 22"
    if "l < 2 ^ 8" "x < 2 ^ 22" for l x :: nat
    using that by (intro xor_less) (simp_all add: push_bit_eq_mult)
  have three: "push_bit 12 l XOR x XOR y XOR 0xE2080 < 2 ^ 22"
    if "l < 2 ^ 8" "x < 2 ^ 22" "y < 2 ^ 22" for l x y :: nat
    using that by (intro xor_less) (simp_all add: push_bit_eq_mult)
  have four: "push_bit 18 l XOR x XOR y XOR z XOR 0x3C82080 < 2 ^ 22"
    if "l < 2 ^ 8" "240 \<le> l" "x < 2 ^ 22" "y < 2 ^ 22" "z < 2 ^ 22" for l x y z :: nat
  proof -
    have "push_bit 18 l XOR x XOR y XOR z XOR 0x3C82080
        = (push_bit 18 l XOR 0x3C82080) XOR (x XOR (y XOR z))"
      by (rule bit_eqI) (simp only: bit_xor_iff, blast)
    then show ?thesis using that by (simp only: xor_less xor_lead)
  qed
  show ?thesis
    using unat_byte_less [of lead] two three four b p
    by (simp add: utf8proc_decode_def NO_SCALAR_def Let_def)
qed

subsection \<open>Decoding an encoding\<close>

lemma unat_of_nat_byte: "n < 256 \<Longrightarrow> unat (of_nat n :: byte) = n"
  by (simp add: unat_of_nat)

lemma unat_tagged:
  "n < 64 \<Longrightarrow> unat (128 + of_nat n :: byte) = 128 + n"
  "n < 64 \<Longrightarrow> unat (192 + of_nat n :: byte) = 192 + n"
  "n < 32 \<Longrightarrow> unat (224 + of_nat n :: byte) = 224 + n"
  "n < 16 \<Longrightarrow> unat (240 + of_nat n :: byte) = 240 + n"
  using unat_of_nat_byte [of "128 + n"] unat_of_nat_byte [of "192 + n"]
    unat_of_nat_byte [of "224 + n"] unat_of_nat_byte [of "240 + n"] by simp_all

lemma and_3F: "(n :: nat) AND 0x3F = n mod 64"
proof -
  have "take_bit 6 n = n AND mask 6" by (simp only: take_bit_eq_mask)
  then show ?thesis by (simp add: take_bit_eq_mod mask_eq_exp_minus_1)
qed

lemma encode_bounds:
  fixes uc :: nat
  shows "uc < 0x800 \<Longrightarrow> uc div 64 < 32" and "uc < 0x10000 \<Longrightarrow> uc div 4096 < 16"
    and "uc < 0x110000 \<Longrightarrow> uc div 262144 < 5"
  by simp_all

lemma decode_encode_scalar:
  assumes "uc < 0x110000" and "encode_scalar uc (scalar_width uc) @ rest = lead # more"
  shows "utf8proc_decode lead more = (scalar_width uc, uc)"
proof -
  note enc = encode_scalar_def scalar_width_def drop_bit_eq_div and_3F
  consider "uc < 0x80" | "0x80 \<le> uc" "uc < 0x800" | "0x800 \<le> uc" "uc < 0x10000"
    | "0x10000 \<le> uc" "uc < 0x110000"
    using assms(1) by linarith
  then show ?thesis
  proof cases
    case 1
    then show ?thesis
      using assms(2) by (auto simp: enc utf8proc_decode_def unat_of_nat_byte unat_tagged Let_def)
  next
    case 2
    have "64 * (uc div 64) + uc mod 64 = uc" by simp
    then have "push_bit 6 (192 + uc div 64) XOR (128 + uc mod 64) XOR 0x3080 = uc"
      using encode_bounds(1) [OF 2(2)] decode_sums(1) [of "uc mod 64" 0 0 "uc div 64"] by simp
    then show ?thesis
      using assms(2) 2 encode_bounds(1) [OF 2(2)]
      by (auto simp: enc utf8proc_decode_def unat_tagged Let_def)
  next
    case 3
    have "4096 * (uc div 4096) + (64 * (uc div 64 mod 64) + uc mod 64) = uc"
      using mod_mult2_eq [of uc 64 64] mult_div_mod_eq [of 4096 uc] by simp
    then have "push_bit 12 (224 + uc div 4096) XOR push_bit 6 (128 + uc div 64 mod 64) XOR
        (128 + uc mod 64) XOR 0xE2080 = uc"
      using encode_bounds(2) [OF 3(2)]
        decode_sums(2) [of "uc div 64 mod 64" "uc mod 64" 0 "uc div 4096"] by simp
    then show ?thesis
      using assms(2) 3 encode_bounds(2) [OF 3(2)]
      by (auto simp: enc utf8proc_decode_def unat_tagged Let_def)
  next
    case 4
    have "262144 * (uc div 262144) +
        (4096 * (uc div 4096 mod 64) + (64 * (uc div 64 mod 64) + uc mod 64)) = uc"
      using mod_mult2_eq [of uc 4096 64] mod_mult2_eq [of uc 64 64] mult_div_mod_eq [of 262144 uc]
      by simp
    then have "push_bit 18 (240 + uc div 262144) XOR push_bit 12 (128 + uc div 4096 mod 64) XOR
        push_bit 6 (128 + uc div 64 mod 64) XOR (128 + uc mod 64) XOR 0x3C82080 = uc"
      using encode_bounds(3) [OF 4(2)]
        decode_sums(3) [of "uc div 4096 mod 64" "uc div 64 mod 64" "uc mod 64" "uc div 262144"]
      by simp
    then show ?thesis
      using assms(2) 4 encode_bounds(3) [OF 4(2)]
      by (auto simp: enc utf8proc_decode_def unat_tagged Let_def)
  qed
qed

text \<open>The decoder as a step of a walk, which is what the codec interface asks for.\<close>

definition utf8_step :: "byte list \<Rightarrow> (nat \<times> byte list) option" where
  "utf8_step str =
     (case str of
        [] \<Rightarrow> None
      | lead # more \<Rightarrow>
          (let (width, scalar) = utf8proc_decode lead more in Some (scalar, drop width str)))"

lemma length_encode_scalar: "length (encode_scalar uc (scalar_width uc)) = scalar_width uc"
  by (simp add: encode_scalar_def scalar_width_def)

lemma encode_char_scalar: "uc < 0x110000 \<Longrightarrow> encode_char uc = encode_scalar uc (scalar_width uc)"
  by (simp add: encode_char_def)

lemma scalar_width_pos: "0 < scalar_width uc"
  by (simp add: scalar_width_def)

interpretation utf8: prefix_codec encode_char utf8_step "\<lambda>uc. uc < 0x110000"
proof unfold_locales
  fix uc :: nat and rest :: "byte list"
  assume uc: "uc < 0x110000"
  let ?e = "encode_scalar uc (scalar_width uc)"
  have "?e @ rest \<noteq> []" using length_encode_scalar [of uc] scalar_width_pos [of uc] by auto
  then obtain lead more where e: "?e @ rest = lead # more" by (cases "?e @ rest") auto
  have "drop (scalar_width uc) (?e @ rest) = rest" by (simp add: length_encode_scalar)
  then show "utf8_step (encode_char uc @ rest) = Some (uc, rest)"
    using decode_encode_scalar [OF uc e] by (simp add: utf8_step_def encode_char_scalar [OF uc] e)
qed

lemma decode_walk_step:
  assumes "utf8_step str = Some (s, rest)"
  shows "decode_walk str = s # decode_walk rest"
proof (cases str)
  case (Cons lead more)
  obtain n where "fst (utf8proc_decode lead more) = Suc n"
    using decode_width_pos [of lead more] by (cases "fst (utf8proc_decode lead more)") auto
  then show ?thesis
    using assms Cons by (auto simp: utf8_step_def decode_walk.simps split: prod.splits)
qed (use assms in \<open>simp add: utf8_step_def\<close>)

subsection \<open>Properties\<close>

text \<open>
  C28: The decoder inverts the encoder.  Encode any sequence of scalars below U+110000, one
  after the other, and walk the bytes with the decoder, moving by the width it answers: the
  walk reads exactly those scalars, one per step.
\<close>

theorem utf8_walk_reads_what_was_encoded:
  assumes "list_all (\<lambda>uc. uc < 0x110000) cs"
  shows "decode_walk (concat (map encode_char cs)) = cs"
  using assms by (induction cs) (simp_all add: decode_walk_step [OF utf8.dec_enc])

theorem utf8_walk_reads_what_was_encoded_witness:
  "decode_walk (concat (map encode_char [0x41, 0xE9, 0x20AC, 0x1F600])) = [0x41, 0xE9, 0x20AC, 0x1F600]"
  by (rule utf8_walk_reads_what_was_encoded) simp

text \<open>
  C37: The decoder is safe on any bytes, well formed or not.  The width it answers is the
  tabulated width of the lead byte cut to the range, so it is at least one and never reaches
  past the range, and the scalar stays below \<open>0x400000\<close>, inside \<open>uint32_t\<close>.
\<close>

theorem utf8_decode_bounded_on_any_bytes:
  "fst (utf8proc_decode lead more) = min (utf8proc_width lead) (Suc (length more)) \<and>
   1 \<le> fst (utf8proc_decode lead more) \<and> fst (utf8proc_decode lead more) \<le> Suc (length more) \<and>
   snd (utf8proc_decode lead more) < 0x400000"
  using decode_width decode_width_pos decode_width_le decode_scalar_less by blast

end
