(* ===== verification/Strbuf.thy ===== *)
theory Strbuf
  imports Ctype
begin

text \<open>
  core/buffer.c and core/buffer.h: the growable byte buffer with its sticky \<open>oom\<close> bit.
  A buffer is its content \<open>ptr[0, size)\<close>, the size of its allocation, and the two flags;
  the size is the content's length and the terminator \<open>ptr[size]\<close> is 0 while the buffer
  owns storage (\<open>asize > 0\<close>).  \<open>bufsize_t\<close> is \<open>int32_t\<close>: sizes are \<^typ>\<open>int\<close> and
  \<open>strbuf_grow_in_int32\<close> shows that no sum leaves the type.  How a buffer that grows ahead
  copies its bytes early (core/ahead.c) is not modelled: \<open>ahead\<close> records only that it does,
  and \<open>markdown_core_strbuf_unsettle\<close>, which voids such copies, does not change a content.
\<close>

record strbuf =
  ptr :: "byte list"
  asize :: int
  oom :: bool
  ahead :: bool

definition STRBUF_LIMIT :: int where
  "STRBUF_LIMIT = 1073741823"

definition size_of :: "strbuf \<Rightarrow> int" where
  "size_of buf = int (length (ptr buf))"

definition strbuf_empty :: strbuf where
  "strbuf_empty = \<lparr>ptr = [], asize = 0, oom = False, ahead = False\<rparr>"

definition strbuf_grow :: "(nat \<Rightarrow> bool) \<Rightarrow> strbuf \<Rightarrow> int \<Rightarrow> strbuf" where
  "strbuf_grow grant buf target =
     (if target \<le> 0 then buf\<lparr>oom := True\<rparr>
      else if oom buf \<or> target < asize buf then buf
      else if target > STRBUF_LIMIT then buf\<lparr>oom := True\<rparr>
      else
        let new_size = target + target div 2;
            new_size = new_size + 1;
            new_size = (new_size + 7) AND NOT 7;
            new_size = (if new_size > STRBUF_LIMIT + 1 then STRBUF_LIMIT + 1 else new_size)
        in if grant (nat new_size) then buf\<lparr>asize := new_size, ahead := False\<rparr>
           else buf\<lparr>oom := True\<rparr>)"

definition strbuf_init :: "(nat \<Rightarrow> bool) \<Rightarrow> int \<Rightarrow> strbuf" where
  "strbuf_init grant initial_size =
     (if initial_size > 0 then strbuf_grow grant strbuf_empty initial_size else strbuf_empty)"

definition strbuf_grow_by :: "(nat \<Rightarrow> bool) \<Rightarrow> strbuf \<Rightarrow> int \<Rightarrow> strbuf" where
  "strbuf_grow_by grant buf add =
     (if add < 0 \<or> add > STRBUF_LIMIT - size_of buf then buf\<lparr>oom := True\<rparr>
      else
        let target = size_of buf + add
        in if target \<ge> asize buf then strbuf_grow grant buf target else buf)"

text \<open>The append that needs growth, and the append whose common case is inline.\<close>

definition strbuf_put_grown :: "(nat \<Rightarrow> bool) \<Rightarrow> strbuf \<Rightarrow> byte list \<Rightarrow> strbuf" where
  "strbuf_put_grown grant buf data =
     (let buf = strbuf_grow_by grant buf (int (length data))
      in if oom buf then buf else buf\<lparr>ptr := ptr buf @ data\<rparr>)"

definition strbuf_put :: "(nat \<Rightarrow> bool) \<Rightarrow> strbuf \<Rightarrow> byte list \<Rightarrow> strbuf" where
  "strbuf_put grant buf data =
     (let len = int (length data)
      in if len \<le> 0 then buf
         else if len < asize buf - size_of buf \<and> \<not> oom buf then buf\<lparr>ptr := ptr buf @ data\<rparr>
         else strbuf_put_grown grant buf data)"

definition strbuf_putc :: "(nat \<Rightarrow> bool) \<Rightarrow> strbuf \<Rightarrow> byte \<Rightarrow> strbuf" where
  "strbuf_putc grant buf c =
     (if size_of buf + 1 < asize buf \<and> \<not> oom buf then buf\<lparr>ptr := ptr buf @ [c]\<rparr>
      else strbuf_put_grown grant buf [c])"

definition strbuf_clear :: "strbuf \<Rightarrow> strbuf" where
  "strbuf_clear buf = buf\<lparr>ptr := [], oom := False\<rparr>"

text \<open>
  \<open>markdown_core_strbuf_set\<close> from bytes that are not the buffer's own (\<open>data != buf->ptr\<close>).
\<close>

definition strbuf_set :: "(nat \<Rightarrow> bool) \<Rightarrow> strbuf \<Rightarrow> byte list option \<Rightarrow> strbuf" where
  "strbuf_set grant buf data =
     (case data of
        None \<Rightarrow> strbuf_clear buf
      | Some bytes \<Rightarrow>
          let len = int (length bytes)
          in if len \<le> 0 then strbuf_clear buf
             else
               let buf = (if len \<ge> asize buf then strbuf_grow grant buf len else buf)
               in if oom buf \<or> len \<ge> asize buf then buf else buf\<lparr>ptr := bytes\<rparr>)"

definition strbuf_free :: "strbuf \<Rightarrow> strbuf" where
  "strbuf_free buf = strbuf_empty"

text \<open>
  What \<open>markdown_core_strbuf_detach\<close> hands out, without its terminator, and the buffer it
  leaves; \<open>None\<close> is NULL.
\<close>

definition strbuf_detach :: "(nat \<Rightarrow> bool) \<Rightarrow> strbuf \<Rightarrow> byte list option \<times> strbuf" where
  "strbuf_detach grant buf =
     (if oom buf then (None, strbuf_free buf)
      else if asize buf = 0 then (if grant 1 then Some [] else None, buf)
      else if ahead buf \<and> \<not> grant (nat (size_of buf + 1)) then (None, strbuf_free buf)
      else (Some (ptr buf), strbuf_empty))"

definition strbuf_copy_cstr :: "int \<Rightarrow> strbuf \<Rightarrow> byte list option" where
  "strbuf_copy_cstr datasize buf =
     (if datasize \<le> 0 then None
      else if size_of buf = 0 \<or> asize buf \<le> 0 then Some []
      else
        let copylen = size_of buf;
            copylen = (if copylen > datasize - 1 then datasize - 1 else copylen)
        in Some (take (nat copylen) (ptr buf)))"

text \<open>The sign of \<open>memcmp\<close> over the common length.\<close>

fun memcmp :: "byte list \<Rightarrow> byte list \<Rightarrow> int" where
  "memcmp (a # as) (b # bs) = (if a < b then -1 else if b < a then 1 else memcmp as bs)"
| "memcmp _ _ = 0"

definition strbuf_cmp :: "strbuf \<Rightarrow> strbuf \<Rightarrow> int" where
  "strbuf_cmp a b =
     (let result = memcmp (ptr a) (ptr b)
      in if result \<noteq> 0 then result
         else if size_of a < size_of b then -1 else if size_of a > size_of b then 1 else 0)"

fun memchr :: "byte list \<Rightarrow> byte \<Rightarrow> nat option" where
  "memchr [] c = None"
| "memchr (b # bs) c = (if b = c then Some 0 else map_option Suc (memchr bs c))"

definition strbuf_strchr :: "strbuf \<Rightarrow> byte \<Rightarrow> int \<Rightarrow> int" where
  "strbuf_strchr buf c pos =
     (if pos \<ge> size_of buf then -1
      else
        let pos = (if pos < 0 then 0 else nat pos)
        in case memchr (drop pos (ptr buf)) c of None \<Rightarrow> -1 | Some i \<Rightarrow> int (pos + i))"

fun strrchr_loop :: "byte list \<Rightarrow> byte \<Rightarrow> nat \<Rightarrow> int" where
  "strrchr_loop p c i =
     (if p ! i = c then int i else case i of 0 \<Rightarrow> -1 | Suc j \<Rightarrow> strrchr_loop p c j)"

declare strrchr_loop.simps [simp del]

definition strbuf_strrchr :: "strbuf \<Rightarrow> byte \<Rightarrow> int \<Rightarrow> int" where
  "strbuf_strrchr buf c pos =
     (if pos < 0 \<or> size_of buf = 0 then -1
      else
        let pos = (if pos \<ge> size_of buf then size_of buf - 1 else pos)
        in strrchr_loop (ptr buf) c (nat pos))"

definition strbuf_truncate :: "strbuf \<Rightarrow> int \<Rightarrow> strbuf" where
  "strbuf_truncate buf len =
     (let len = (if len < 0 then 0 else len)
      in if len < size_of buf then buf\<lparr>ptr := take (nat len) (ptr buf)\<rparr> else buf)"

definition strbuf_drop :: "strbuf \<Rightarrow> int \<Rightarrow> strbuf" where
  "strbuf_drop buf n =
     (if n > 0 then
        let n = (if n > size_of buf then size_of buf else n)
        in buf\<lparr>ptr := drop (nat n) (ptr buf)\<rparr>
      else buf)"

fun rtrim_loop :: "byte list \<Rightarrow> nat \<Rightarrow> nat" where
  "rtrim_loop p 0 = 0"
| "rtrim_loop p (Suc n) = (if \<not> is_whitespace (p ! n) then Suc n else rtrim_loop p n)"

definition strbuf_rtrim :: "strbuf \<Rightarrow> strbuf" where
  "strbuf_rtrim buf =
     (if size_of buf = 0 then buf
      else buf\<lparr>ptr := take (rtrim_loop (ptr buf) (length (ptr buf))) (ptr buf)\<rparr>)"

fun ltrim_loop :: "byte list \<Rightarrow> nat" where
  "ltrim_loop [] = 0"
| "ltrim_loop (b # bs) = (if is_whitespace b then Suc (ltrim_loop bs) else 0)"

definition strbuf_trim :: "strbuf \<Rightarrow> strbuf" where
  "strbuf_trim buf =
     (if size_of buf = 0 then buf
      else strbuf_rtrim (strbuf_drop buf (int (ltrim_loop (ptr buf)))))"

text \<open>
  The unescape of \<open>markdown_core_strbuf_unescape\<close>, over the bytes at and after the read
  cursor.  The byte after the last is the terminator, which is not punctuation.
\<close>

fun unescape_loop :: "byte list \<Rightarrow> byte list" where
  "unescape_loop [] = []"
| "unescape_loop [b] = [b]"
| "unescape_loop (b # c # bs) =
     (if b = 0x5C \<and> ispunct c then c # unescape_loop bs else b # unescape_loop (c # bs))"

definition strbuf_unescape :: "strbuf \<Rightarrow> strbuf" where
  "strbuf_unescape buf =
     (let written = unescape_loop (ptr buf)
      in strbuf_truncate
           (buf\<lparr>ptr := written @ drop (length written) (ptr buf)\<rparr>) (int (length written)))"

subsection \<open>The invariant of a buffer\<close>

text \<open>
  A buffer that owns no storage has no content; one that owns storage keeps a byte of it
  for the terminator, and the storage never reaches past the limit and that byte.
\<close>

definition strbuf_wf :: "strbuf \<Rightarrow> bool" where
  "strbuf_wf buf \<longleftrightarrow>
     (asize buf = 0 \<and> ptr buf = [] \<or> size_of buf < asize buf) \<and>
     0 \<le> asize buf \<and> asize buf \<le> STRBUF_LIMIT + 1"

lemma strbuf_wf_size: "strbuf_wf buf \<Longrightarrow> 0 \<le> size_of buf \<and> size_of buf \<le> STRBUF_LIMIT"
  by (auto simp: strbuf_wf_def size_of_def STRBUF_LIMIT_def)

lemma round_up_8: "(n + 7) AND NOT 7 = 8 * ((n + 7) div (8 :: int))"
proof -
  have "(n + 7) AND NOT (mask 3 :: int) = push_bit 3 (drop_bit 3 (n + 7))"
    by (rule bit_eqI) (auto simp: bit_simps)
  then show ?thesis by (simp add: mask_eq_exp_minus_1 push_bit_eq_mult drop_bit_eq_div)
qed

lemma grow_size_bounds:
  fixes t :: int
  assumes "0 < t" and "t \<le> STRBUF_LIMIT"
  shows "t < (t + t div 2 + 1 + 7) AND NOT 7"
    and "t + t div 2 + 1 + 7 < 2 ^ 31"
proof -
  have "t < 8 * ((t + t div 2 + 1 + 7) div 8)" using assms(1) by presburger
  then show "t < (t + t div 2 + 1 + 7) AND NOT 7" by (simp only: round_up_8)
  show "t + t div 2 + 1 + 7 < 2 ^ 31" using assms by (simp add: STRBUF_LIMIT_def)
qed

text \<open>What growth does: it changes no content, and it either makes room or poisons.\<close>

lemma strbuf_grow_ptr [simp]: "ptr (strbuf_grow grant buf t) = ptr buf"
  by (simp add: strbuf_grow_def Let_def)

lemma strbuf_grow_oom: "oom buf \<Longrightarrow> oom (strbuf_grow grant buf t)"
  by (simp add: strbuf_grow_def Let_def)

lemma strbuf_grow_room:
  assumes "\<not> oom (strbuf_grow grant buf t)"
  shows "0 < t \<and> t < asize (strbuf_grow grant buf t)"
  using assms grow_size_bounds(1) [of t]
  by (auto simp: strbuf_grow_def Let_def split: if_splits)

lemma strbuf_grow_asize_le:
  assumes "strbuf_wf buf"
  shows "asize buf \<le> asize (strbuf_grow grant buf t) \<and> asize (strbuf_grow grant buf t) \<le> STRBUF_LIMIT + 1"
proof -
  have "asize buf \<le> STRBUF_LIMIT + 1" using assms by (simp add: strbuf_wf_def)
  moreover have "asize buf \<le> (t + t div 2 + 1 + 7) AND NOT 7"
    if "0 < t" "t \<le> STRBUF_LIMIT" "asize buf \<le> t"
    using grow_size_bounds(1) [OF that(1,2)] that(3) by simp
  ultimately show ?thesis by (simp add: strbuf_grow_def Let_def not_less)
qed

lemma size_of_simps [simp]:
  "size_of (strbuf_grow grant buf t) = size_of buf"
  "size_of (buf\<lparr>oom := b\<rparr>) = size_of buf"
  "size_of (buf\<lparr>ptr := p\<rparr>) = int (length p)"
  by (simp_all add: size_of_def)

lemma strbuf_grow_wf: "strbuf_wf buf \<Longrightarrow> strbuf_wf (strbuf_grow grant buf t)"
  using strbuf_grow_asize_le [of buf grant t] by (auto simp: strbuf_wf_def size_of_def)

lemma strbuf_grow_by_wf: "strbuf_wf buf \<Longrightarrow> strbuf_wf (strbuf_grow_by grant buf n)"
  using strbuf_grow_wf by (auto simp: strbuf_grow_by_def Let_def strbuf_wf_def)

lemma strbuf_grow_by_ptr [simp]: "ptr (strbuf_grow_by grant buf n) = ptr buf"
  by (simp add: strbuf_grow_by_def Let_def)

lemma strbuf_grow_by_oom: "oom buf \<Longrightarrow> oom (strbuf_grow_by grant buf n)"
  by (simp add: strbuf_grow_by_def Let_def strbuf_grow_oom)

lemma strbuf_grow_by_room:
  "\<not> oom (strbuf_grow_by grant buf n) \<Longrightarrow> 0 \<le> n \<and> size_of buf + n < asize (strbuf_grow_by grant buf n)"
  using strbuf_grow_room [of grant buf "size_of buf + n"]
  by (auto simp: strbuf_grow_by_def Let_def split: if_splits)

subsection \<open>Appending\<close>

lemma strbuf_put_grown_cases:
  "ptr (strbuf_put_grown grant buf data) =
     (if oom (strbuf_put_grown grant buf data) then ptr buf else ptr buf @ data)"
  by (simp add: strbuf_put_grown_def Let_def)

lemma strbuf_put_grown_wf: "strbuf_wf buf \<Longrightarrow> strbuf_wf (strbuf_put_grown grant buf data)"
  using strbuf_grow_by_wf [of buf grant "int (length data)"]
    strbuf_grow_by_room [of grant buf "int (length data)"]
  by (auto simp: strbuf_put_grown_def Let_def strbuf_wf_def size_of_def)

lemma strbuf_put_grown_oom: "oom buf \<Longrightarrow> oom (strbuf_put_grown grant buf data)"
  by (simp add: strbuf_put_grown_def Let_def strbuf_grow_by_oom)

lemma strbuf_put_content:
  "\<not> oom (strbuf_put grant buf data) \<Longrightarrow> ptr (strbuf_put grant buf data) = ptr buf @ data"
  by (auto simp: strbuf_put_def Let_def strbuf_put_grown_cases split: if_splits)

lemma strbuf_put_keeps:
  "oom (strbuf_put grant buf data) \<Longrightarrow> ptr (strbuf_put grant buf data) = ptr buf"
  by (auto simp: strbuf_put_def Let_def strbuf_put_grown_cases split: if_splits)

lemma strbuf_put_oom: "oom buf \<Longrightarrow> oom (strbuf_put grant buf data)"
  by (simp add: strbuf_put_def Let_def strbuf_put_grown_oom)

lemma strbuf_put_wf: "strbuf_wf buf \<Longrightarrow> strbuf_wf (strbuf_put grant buf data)"
  using strbuf_put_grown_wf [of buf grant data]
  by (auto simp: strbuf_put_def Let_def strbuf_wf_def size_of_def)

lemma strbuf_putc_is_put: "strbuf_wf buf \<Longrightarrow> strbuf_putc grant buf c = strbuf_put grant buf [c]"
  by (auto simp: strbuf_putc_def strbuf_put_def Let_def)

interpretation buf: sink "strbuf_put grant" ptr oom strbuf_wf for grant
  by unfold_locales (simp_all add: strbuf_put_wf strbuf_put_content strbuf_put_keeps strbuf_put_oom)

lemma strbuf_free_wf: "strbuf_wf (strbuf_free buf)"
  by (simp add: strbuf_free_def strbuf_empty_def strbuf_wf_def STRBUF_LIMIT_def)

lemma strbuf_init_wf: "strbuf_wf (strbuf_init grant n)"
  using strbuf_free_wf by (simp add: strbuf_init_def strbuf_free_def strbuf_grow_wf)

lemma strbuf_clear_wf: "strbuf_wf buf \<Longrightarrow> strbuf_wf (strbuf_clear buf)"
  by (auto simp: strbuf_clear_def strbuf_wf_def)

lemma strbuf_set_wf: "strbuf_wf buf \<Longrightarrow> strbuf_wf (strbuf_set grant buf data)"
  using strbuf_clear_wf strbuf_grow_wf
  by (auto simp: strbuf_set_def Let_def strbuf_wf_def split: option.splits)

lemma strbuf_detach_wf: "strbuf_wf buf \<Longrightarrow> strbuf_wf (snd (strbuf_detach grant buf))"
  using strbuf_free_wf by (simp add: strbuf_detach_def strbuf_free_def)

lemma shrink_wf: "strbuf_wf buf \<Longrightarrow> length p \<le> length (ptr buf) \<Longrightarrow> strbuf_wf (buf\<lparr>ptr := p\<rparr>)"
  by (auto simp: strbuf_wf_def size_of_def)

lemma strbuf_truncate_wf: "strbuf_wf buf \<Longrightarrow> strbuf_wf (strbuf_truncate buf len)"
  by (simp add: strbuf_truncate_def Let_def shrink_wf)

lemma strbuf_drop_wf: "strbuf_wf buf \<Longrightarrow> strbuf_wf (strbuf_drop buf n)"
  by (simp add: strbuf_drop_def Let_def shrink_wf)

lemma strbuf_rtrim_wf: "strbuf_wf buf \<Longrightarrow> strbuf_wf (strbuf_rtrim buf)"
  by (simp add: strbuf_rtrim_def shrink_wf)

lemma strbuf_trim_wf: "strbuf_wf buf \<Longrightarrow> strbuf_wf (strbuf_trim buf)"
  by (simp add: strbuf_trim_def strbuf_rtrim_wf strbuf_drop_wf)

subsection \<open>Trimming, searching and comparing\<close>

definition rtrim_ws :: "byte list \<Rightarrow> byte list" where
  "rtrim_ws bs = rev (dropWhile is_whitespace (rev bs))"

lemma rtrim_loop_take:
  "n \<le> length p \<Longrightarrow> take (rtrim_loop p n) p = rtrim_ws (take n p)"
  by (induction n) (simp_all add: rtrim_ws_def take_Suc_conv_app_nth)

lemma strbuf_rtrim_ptr: "ptr (strbuf_rtrim buf) = rtrim_ws (ptr buf)"
  by (simp add: strbuf_rtrim_def rtrim_loop_take size_of_def rtrim_ws_def)

lemma drop_ltrim_loop: "drop (ltrim_loop p) p = dropWhile is_whitespace p"
  by (induction p) simp_all

lemma ltrim_loop_le: "ltrim_loop p \<le> length p"
  by (induction p) simp_all

lemma strbuf_drop_ptr: "ptr (strbuf_drop buf (int n)) = drop n (ptr buf)"
  by (auto simp: strbuf_drop_def size_of_def)

lemma strbuf_trim_ptr: "ptr (strbuf_trim buf) = rtrim_ws (dropWhile is_whitespace (ptr buf))"
  by (auto simp: strbuf_trim_def strbuf_rtrim_ptr strbuf_drop_ptr drop_ltrim_loop size_of_def rtrim_ws_def)

lemma rtrim_ws_last: "rtrim_ws bs = [] \<or> \<not> is_whitespace (last (rtrim_ws bs))"
  using hd_dropWhile_or_Nil [of is_whitespace "rev bs"] by (auto simp: rtrim_ws_def last_rev)

lemma rtrim_ws_split: "\<exists>ws. bs = rtrim_ws bs @ ws \<and> (\<forall>b \<in> set ws. is_whitespace b)"
proof
  let ?ws = "rev (takeWhile is_whitespace (rev bs))"
  have "bs = rev (takeWhile is_whitespace (rev bs) @ dropWhile is_whitespace (rev bs))" by simp
  then show "bs = rtrim_ws bs @ ?ws \<and> (\<forall>b \<in> set ?ws. is_whitespace b)"
    by (auto simp: rtrim_ws_def dest: set_takeWhileD simp del: takeWhile_dropWhile_id)
qed

lemma memcmp_0: "memcmp as bs = 0 \<longleftrightarrow> take (length bs) as = take (length as) bs"
  by (induction as bs rule: memcmp.induct) auto

lemma strbuf_cmp_0: "strbuf_cmp a b = 0 \<longleftrightarrow> ptr a = ptr b"
proof -
  have "memcmp (ptr a) (ptr b) = 0 \<Longrightarrow> size_of a = size_of b \<Longrightarrow> ptr a = ptr b"
    by (simp add: memcmp_0 size_of_def)
  moreover have "memcmp p p = 0" for p by (simp add: memcmp_0)
  ultimately show ?thesis by (auto simp: strbuf_cmp_def Let_def size_of_def)
qed

lemma memchr_Some: "memchr bs c = Some i \<Longrightarrow> i < length bs \<and> bs ! i = c \<and> c \<notin> set (take i bs)"
  by (induction bs arbitrary: i) (auto split: if_splits)

lemma memchr_None: "memchr bs c = None \<longleftrightarrow> c \<notin> set bs"
  by (induction bs) auto

subsection \<open>Unescaping\<close>

lemma length_unescape_loop: "length (unescape_loop bs) \<le> length bs"
  by (induction bs rule: unescape_loop.induct) auto

lemma strbuf_unescape_ptr: "ptr (strbuf_unescape buf) = unescape_loop (ptr buf)"
  using length_unescape_loop [of "ptr buf"]
  by (auto simp: strbuf_unescape_def strbuf_truncate_def Let_def size_of_def)

lemma strbuf_unescape_wf: "strbuf_wf buf \<Longrightarrow> strbuf_wf (strbuf_unescape buf)"
  using length_unescape_loop [of "ptr buf"]
  by (auto simp: strbuf_unescape_def Let_def intro!: strbuf_truncate_wf shrink_wf)

text \<open>A backslash before every punctuation byte, the spelling that unescaping undoes.\<close>

definition escape_punct :: "byte list \<Rightarrow> byte list" where
  "escape_punct bs = concat (map (\<lambda>b. if ispunct b then [0x5C, b] else [b]) bs)"

lemma backslash_punct: "ispunct 0x5C"
  by (simp add: ispunct_interval)

lemma unescape_plain_Cons: "b \<noteq> 0x5C \<Longrightarrow> unescape_loop (b # bs) = b # unescape_loop bs"
  by (cases bs) auto

lemma unescape_escape: "unescape_loop (escape_punct bs) = bs"
proof (induction bs)
  case (Cons b bs)
  then show ?case
    using backslash_punct by (cases "b = 0x5C") (auto simp: escape_punct_def unescape_plain_Cons)
qed (simp add: escape_punct_def)

lemma unescape_id: "0x5C \<notin> set bs \<Longrightarrow> unescape_loop bs = bs"
  by (induction bs) (auto simp: unescape_plain_Cons)

subsection \<open>Properties\<close>

text \<open>
  C30: A buffer after any sequence of appends, whatever the allocator answers.  It keeps its
  invariant and its size limit; its content is what it held followed by a whole number of
  the pieces, in order, and all of them unless it is poisoned.
\<close>

theorem strbuf_appends_whole_pieces:
  assumes "strbuf_wf buf"
  shows "strbuf_wf (foldl (strbuf_put grant) buf ds) \<and>
    size_of (foldl (strbuf_put grant) buf ds) \<le> STRBUF_LIMIT \<and>
    (\<exists>n \<le> length ds. ptr (foldl (strbuf_put grant) buf ds) = ptr buf @ concat (take n ds)) \<and>
    (oom (foldl (strbuf_put grant) buf ds) \<or>
       ptr (foldl (strbuf_put grant) buf ds) = ptr buf @ concat ds)"
proof (intro conjI)
  show wf: "strbuf_wf (foldl (strbuf_put grant) buf ds)" using assms by (rule buf.puts_inv)
  show "size_of (foldl (strbuf_put grant) buf ds) \<le> STRBUF_LIMIT"
    using strbuf_wf_size [OF wf] by simp
  show "\<exists>n \<le> length ds. ptr (foldl (strbuf_put grant) buf ds) = ptr buf @ concat (take n ds)"
    by (rule buf.puts_prefix)
  show "oom (foldl (strbuf_put grant) buf ds) \<or>
      ptr (foldl (strbuf_put grant) buf ds) = ptr buf @ concat ds"
    using buf.puts_content by blast
qed

theorem strbuf_appends_whole_pieces_witness:
  "strbuf_wf (foldl (strbuf_put (\<lambda>n. n < 40)) strbuf_empty [asc ''ab'', asc ''c''])"
  using strbuf_appends_whole_pieces [of strbuf_empty "\<lambda>n. n < 40" "[asc ''ab'', asc ''c'']"]
  by (simp add: strbuf_wf_def strbuf_empty_def STRBUF_LIMIT_def)

text \<open>
  The growth of a buffer never overflows \<open>int32_t\<close>.  For every size up to the limit, the
  sum before the rounding is below \<open>2 ^ 31\<close> and the storage asked for is more than the size,
  so there is room for the terminator.
\<close>

lemma strbuf_grow_in_int32:
  assumes "strbuf_wf buf" and "0 < t" and "t \<le> STRBUF_LIMIT" and "\<not> oom (strbuf_grow grant buf t)"
  shows "t + t div 2 + 1 + 7 < 2 ^ 31 \<and> t < asize (strbuf_grow grant buf t) \<and>
    asize (strbuf_grow grant buf t) \<le> STRBUF_LIMIT + 1"
  using grow_size_bounds(2) [OF assms(2,3)] strbuf_grow_room [OF assms(4)]
    strbuf_grow_asize_le [OF assms(1)] by blast

theorem strbuf_grow_in_int32_witness:
  "5 < asize (strbuf_grow (\<lambda>n. True) strbuf_empty 5)"
  using strbuf_grow_in_int32 [of strbuf_empty 5 "\<lambda>n. True"]
  by (simp add: strbuf_wf_def strbuf_empty_def STRBUF_LIMIT_def strbuf_grow_def Let_def)

text \<open>
  Trimming takes exactly the whitespace at the two ends: the content is the trimmed
  content between two runs of whitespace, and the trimmed content neither begins nor ends
  with whitespace.
\<close>

lemma strbuf_trim_exact:
  "\<exists>before after. ptr buf = before @ ptr (strbuf_trim buf) @ after \<and>
     (\<forall>b \<in> set (before @ after). is_whitespace b) \<and>
     (ptr (strbuf_trim buf) = [] \<or>
        \<not> is_whitespace (hd (ptr (strbuf_trim buf))) \<and> \<not> is_whitespace (last (ptr (strbuf_trim buf))))"
proof -
  let ?tail = "dropWhile is_whitespace (ptr buf)"
  obtain ws where ws: "?tail = rtrim_ws ?tail @ ws" "\<forall>b \<in> set ws. is_whitespace b"
    using rtrim_ws_split by blast
  have "ptr buf = takeWhile is_whitespace (ptr buf) @ rtrim_ws ?tail @ ws"
    using ws(1) takeWhile_dropWhile_id [of is_whitespace "ptr buf"] by simp
  moreover have "rtrim_ws ?tail = [] \<or> \<not> is_whitespace (hd (rtrim_ws ?tail))"
    using ws(1) hd_dropWhile_or_Nil [of is_whitespace "ptr buf"] by (metis append_is_Nil_conv hd_append2)
  ultimately show ?thesis
    using ws(2) rtrim_ws_last [of ?tail]
    by (intro exI [of _ "takeWhile is_whitespace (ptr buf)"] exI [of _ ws])
      (auto simp: strbuf_trim_ptr dest: set_takeWhileD)
qed

theorem strbuf_trim_exact_witness:
  "\<exists>before after. asc '' a '' = before @ ptr (strbuf_trim (strbuf_empty\<lparr>ptr := asc '' a ''\<rparr>)) @ after"
  using strbuf_trim_exact [of "strbuf_empty\<lparr>ptr := asc '' a ''\<rparr>"] by auto


end
