(* ===== verification/Decimal.thy ===== *)
theory Decimal
  imports Prelude
begin

text \<open>
  The decimal spelling of a number, as \<open>printf\<close> writes it with \<open>%llu\<close>, and the value of a
  run of ASCII digits.  The character references, the message header and the JSON numbers
  read and write it.
\<close>

definition digit_byte :: "byte \<Rightarrow> bool" where
  "digit_byte b \<longleftrightarrow> 0x30 \<le> b \<and> b \<le> 0x39"

definition digit_value :: "byte \<Rightarrow> nat" where
  "digit_value b = unat b - 0x30"

fun decimal :: "nat \<Rightarrow> byte list" where
  "decimal n = (if n < 10 then [of_nat (0x30 + n)] else decimal (n div 10) @ [of_nat (0x30 + n mod 10)])"

declare decimal.simps [simp del]

text \<open>The value of more digits after a value \<open>v\<close>.\<close>

fun digits_from :: "nat \<Rightarrow> byte list \<Rightarrow> nat" where
  "digits_from v [] = v"
| "digits_from v (b # bs) = digits_from (v * 10 + digit_value b) bs"

lemma digits_from_append [simp]: "digits_from v (as @ bs) = digits_from (digits_from v as) bs"
  by (induction v as rule: digits_from.induct) simp_all

lemma digits_from_ge: "v \<le> digits_from v bs"
proof (induction v bs rule: digits_from.induct)
  case (2 v b bs)
  have "v \<le> v * 10 + digit_value b" by simp
  also have "\<dots> \<le> digits_from (v * 10 + digit_value b) bs" by (rule 2)
  finally show ?case by simp
qed simp

lemma digits_from_mono: "v \<le> w \<Longrightarrow> digits_from v bs \<le> digits_from w bs"
  by (induction bs arbitrary: v w) simp_all

lemma digit_of_nat:
  assumes "n < 10"
  shows "digit_byte (of_nat (0x30 + n))" and "digit_value (of_nat (0x30 + n)) = n"
proof -
  have u: "unat (of_nat (0x30 + n) :: byte) = 0x30 + n"
    using assms by (simp only: unat_of_nat) simp
  show "digit_value (of_nat (0x30 + n)) = n" using u by (simp only: digit_value_def)
  show "digit_byte (of_nat (0x30 + n))" using u assms by (simp only: digit_byte_def word_le_nat_alt) simp
qed

lemma digit_byte_unat: "digit_byte b \<longleftrightarrow> 48 \<le> unat b \<and> unat b \<le> 57"
  by (simp add: digit_byte_def word_le_nat_alt)

lemma digit_value_less: "digit_byte b \<Longrightarrow> digit_value b < 10"
  by (auto simp: digit_byte_unat digit_value_def)

lemma decimal_digits: "b \<in> set (decimal n) \<Longrightarrow> digit_byte b"
proof (induction n rule: decimal.induct)
  case (1 n)
  then show ?case
    using digit_of_nat(1) [of n] digit_of_nat(1) [of "n mod 10"]
    by (subst (asm) (2) decimal.simps) (auto split: if_splits)
qed

lemma decimal_value: "digits_from 0 (decimal n) = n"
proof (induction n rule: decimal.induct)
  case (1 n)
  then show ?case
    using digit_of_nat(2) [of n] digit_of_nat(2) [of "n mod 10"]
    by (subst decimal.simps) simp
qed

lemma decimal_not_Nil: "decimal n \<noteq> []"
  by (subst decimal.simps) simp

lemma length_decimal: "n < 10 ^ Suc k \<Longrightarrow> length (decimal n) \<le> Suc k"
proof (induction k arbitrary: n)
  case 0
  then show ?case by (subst decimal.simps) simp
next
  case (Suc k)
  have "n div 10 < 10 ^ Suc k" using Suc.prems by (simp add: less_mult_imp_div_less mult.commute)
  then show ?case using Suc.IH [of "n div 10"] by (subst decimal.simps) simp
qed

text \<open>No leading zero but in zero itself.\<close>

lemma hd_decimal: "0 < n \<Longrightarrow> hd (decimal n) \<noteq> 0x30"
proof (induction n rule: decimal.induct)
  case (1 n)
  show ?case
  proof (cases "n < 10")
    case True
    then have "digit_value (of_nat (0x30 + n)) = n" by (rule digit_of_nat)
    then show ?thesis using True 1(2) by (subst decimal.simps) (auto simp: digit_value_def)
  next
    case False
    then show ?thesis using 1 decimal_not_Nil [of "n div 10"] by (subst decimal.simps) simp
  qed
qed

end
