(* ===== verification/Houdini.thy ===== *)
theory Houdini
  imports Utf8 Strbuf Decimal
begin

text \<open>
  core/houdini_html_u.c: character references.  The entity table (core/entities.inc, generated)
  is an argument, the list of its names with their replacement bytes in the table's order; what
  is proved of the binary search asks that the names are strictly sorted.  The output goes
  through the buffer's append.
\<close>

definition utf8proc_encode_char :: "(nat \<Rightarrow> bool) \<Rightarrow> nat \<Rightarrow> strbuf \<Rightarrow> strbuf" where
  "utf8proc_encode_char grant uc buf = strbuf_put grant buf (encode_char uc)"

type_synonym entity_table = "(byte list \<times> byte list) list"

text \<open>\<open>strncmp\<close> over the shorter length (no name holds a NUL), then the lengths.\<close>

definition ent_cmp :: "byte list \<Rightarrow> byte list \<Rightarrow> int" where
  "ent_cmp s name =
     (let cmp = memcmp s name
      in if cmp = 0 then int (length s) - int (length name) else cmp)"

text \<open>The two probes of the search lie strictly between the middle and the end they move to.\<close>

definition probe_left :: "nat \<Rightarrow> nat \<Rightarrow> nat" where
  "probe_left i low = (let j = i - (i - low) div 2 in if j = i then j - 1 else j)"

definition probe_right :: "nat \<Rightarrow> nat \<Rightarrow> nat" where
  "probe_right i hi = (let j = i + (hi - i) div 2 in if j = i then j + 1 else j)"

lemma probe_left_bounds: "low < i \<Longrightarrow> low \<le> probe_left i low \<and> probe_left i low \<le> i - 1"
  by (auto simp: probe_left_def Let_def)

lemma probe_right_bounds: "i < hi \<Longrightarrow> i + 1 \<le> probe_right i hi \<and> probe_right i hi \<le> hi"
  by (auto simp: probe_right_def Let_def)

function S_lookup :: "entity_table \<Rightarrow> byte list \<Rightarrow> nat \<Rightarrow> nat \<Rightarrow> nat \<Rightarrow> byte list option" where
  "S_lookup ents s i low hi =
     (let cmp = ent_cmp s (fst (ents ! i))
      in if cmp = 0 then Some (snd (ents ! i))
         else if cmp \<le> 0 \<and> i > low then S_lookup ents s (probe_left i low) low (i - 1)
         else if cmp > 0 \<and> i < hi then S_lookup ents s (probe_right i hi) (i + 1) hi
         else None)"
  by pat_completeness auto
termination
proof (relation "measure (\<lambda>(ents, s, i, low, hi). max i hi - min low i)", goal_cases)
  case (2 ents s i low hi cmp)
  then have "low < i" by simp
  then show ?case using probe_left_bounds [of low i] by (simp add: max_def min_def) arith
next
  case (3 ents s i low hi cmp)
  then have "i < hi" by simp
  then show ?case using probe_right_bounds [of i hi] by (simp add: max_def min_def) arith
qed simp

declare S_lookup.simps [simp del]

definition S_lookup_entity :: "entity_table \<Rightarrow> byte list \<Rightarrow> byte list option" where
  "S_lookup_entity ents s = S_lookup ents s (length ents div 2) 0 (length ents - 1)"

text \<open>
  The digit classes of houdini.h.  \<open>_isxdigit\<close> is \<open>strchr(digits, c) != NULL\<close>, which also
  finds the string's terminator: a NUL byte counts as a digit.
\<close>

definition hou_isdigit :: "byte \<Rightarrow> bool" where
  "hou_isdigit c \<longleftrightarrow> 0x30 \<le> c \<and> c \<le> 0x39"

definition hou_isxdigit :: "byte \<Rightarrow> bool" where
  "hou_isxdigit c \<longleftrightarrow> c = 0 \<or> c \<in> set (asc ''0123456789ABCDEFabcdef'')"

definition clamp_codepoint :: "nat \<Rightarrow> nat" where
  "clamp_codepoint cp = (if cp \<ge> 0x110000 then 0x110000 else cp)"

text \<open>The two digit loops: the clamped code point and the number of digits.\<close>

fun dec_loop :: "byte list \<Rightarrow> nat \<Rightarrow> nat \<times> nat" where
  "dec_loop [] cp = (cp, 0)"
| "dec_loop (b # bs) cp =
     (if hou_isdigit b then
        let (c, n) = dec_loop bs (clamp_codepoint (cp * 10 + (unat b - 0x30))) in (c, Suc n)
      else (cp, 0))"

fun hex_loop :: "byte list \<Rightarrow> nat \<Rightarrow> nat \<times> nat" where
  "hex_loop [] cp = (cp, 0)"
| "hex_loop (b # bs) cp =
     (if hou_isxdigit b then
        let (c, n) = hex_loop bs (clamp_codepoint (cp * 16 + ((unat b OR 32) mod 39 - 9)))
        in (c, Suc n)
      else (cp, 0))"

text \<open>The code point, its digits, the most digits and the index after them.\<close>

definition numeric_ref :: "byte list \<Rightarrow> nat \<times> nat \<times> nat \<times> nat" where
  "numeric_ref src =
     (if hou_isdigit (src ! 1) then
        let (cp, n) = dec_loop (drop 1 src) 0 in (cp, n, 7, 1 + n)
      else if src ! 1 = 0x78 \<or> src ! 1 = 0x58 then
        let (cp, n) = hex_loop (drop 2 src) 0 in (cp, n, 6, 2 + n)
      else (0, 0, 7, 0))"

definition safe_codepoint :: "nat \<Rightarrow> nat" where
  "safe_codepoint cp =
     (if cp = 0 \<or> cp \<ge> 0xD800 \<and> cp < 0xE000 \<or> cp \<ge> 0x110000 then 0xFFFD else cp)"

text \<open>The scan for a named reference: what it consumes and what it writes.\<close>

function named_ref :: "entity_table \<Rightarrow> byte list \<Rightarrow> nat \<Rightarrow> nat \<Rightarrow> (nat \<times> byte list) option" where
  "named_ref ents src sz i =
     (if i < sz then
        if src ! i = 0x20 then None
        else if src ! i = 0x3B then
          map_option (\<lambda>repl. (i + 1, repl)) (S_lookup_entity ents (take i src))
        else named_ref ents src sz (i + 1)
      else None)"
  by pat_completeness auto
termination
  by (relation "measure (\<lambda>(ents, src, sz, i). sz - i)") auto

declare named_ref.simps [simp del]

definition unescape_ent :: "entity_table \<Rightarrow> (nat \<Rightarrow> bool) \<Rightarrow> strbuf \<Rightarrow> byte list \<Rightarrow> nat \<times> strbuf" where
  "unescape_ent ents grant ob src =
     (if length src \<ge> 3 \<and> src ! 0 = 0x23 then
        let (codepoint, num_digits, max_digits, i) = numeric_ref src
        in if num_digits \<ge> 1 \<and> num_digits \<le> max_digits \<and> i < length src \<and> src ! i = 0x3B
           then (i + 1, utf8proc_encode_char grant (safe_codepoint codepoint) ob)
           else (0, ob)
      else
        case named_ref ents src (if length src > 32 then 32 else length src) 2 of
          None \<Rightarrow> (0, ob)
        | Some (used, repl) \<Rightarrow> (used, strbuf_put grant ob repl))"

text \<open>
  The loop of \<open>houdini_unescape_html\<close> at offset \<open>org\<close>, over the bytes from there on: the
  answer is False when the whole source holds no ampersand, and then nothing was written.
\<close>

function unescape_html_loop ::
  "entity_table \<Rightarrow> (nat \<Rightarrow> bool) \<Rightarrow> nat \<Rightarrow> strbuf \<Rightarrow> nat \<Rightarrow> byte list \<Rightarrow> bool \<times> strbuf" where
  "unescape_html_loop ents grant sz ob org rest =
     (if rest = [] then (True, ob)
      else
        let run = takeWhile (\<lambda>b. b \<noteq> 0x26) rest;
            tail = dropWhile (\<lambda>b. b \<noteq> 0x26) rest
        in if run \<noteq> [] \<and> org = 0 \<and> tail = [] then (False, ob)
           else
             let ob = (if run \<noteq> [] \<and> org = 0 then strbuf_grow grant ob (int sz) else ob);
                 ob = (if run \<noteq> [] then strbuf_put grant ob run else ob)
             in if tail = [] then (True, ob)
                else
                  let (ent, ob) = unescape_ent ents grant ob (tl tail);
                      ob = (if ent = 0 then strbuf_putc grant ob 0x26 else ob)
                  in unescape_html_loop ents grant sz ob (org + length run + 1 + ent)
                       (drop ent (tl tail)))"
  by pat_completeness auto
termination
proof (relation "measure (\<lambda>(ents, grant, sz, ob, org, rest). length rest)", goal_cases)
  case (2 ents grant sz ob org rest run tail)
  have "length tail \<le> length rest" using 2 by (simp add: length_dropWhile_le)
  moreover have "tail \<noteq> []" using 2 by blast
  ultimately show ?case by (cases tail) auto
qed simp

declare unescape_html_loop.simps [simp del]

definition unescape_html :: "entity_table \<Rightarrow> (nat \<Rightarrow> bool) \<Rightarrow> strbuf \<Rightarrow> byte list \<Rightarrow> bool \<times> strbuf" where
  "unescape_html ents grant ob src = unescape_html_loop ents grant (length src) ob 0 src"

definition unescape_html_f :: "entity_table \<Rightarrow> (nat \<Rightarrow> bool) \<Rightarrow> strbuf \<Rightarrow> byte list \<Rightarrow> strbuf" where
  "unescape_html_f ents grant ob src =
     (let (changed, out) = unescape_html ents grant ob src
      in if \<not> changed then strbuf_put grant out src else out)"

subsection \<open>The binary search finds exactly the names of the table\<close>

definition ents_sorted :: "entity_table \<Rightarrow> bool" where
  "ents_sorted ents \<longleftrightarrow> sorted_wrt (\<lambda>a b. ent_cmp (fst a) (fst b) < 0) ents"

lemma memcmp_refl [simp]: "memcmp as as = 0"
  by (simp add: memcmp_0)

lemma memcmp_swap: "memcmp bs as = - memcmp as bs"
  by (induction as bs rule: memcmp.induct) auto

lemma ent_cmp_0: "ent_cmp s n = 0 \<longleftrightarrow> s = n"
  by (auto simp: ent_cmp_def Let_def memcmp_0)

lemma ent_cmp_swap: "ent_cmp n s = - ent_cmp s n"
  by (simp add: ent_cmp_def Let_def memcmp_swap [of n s])

lemma S_lookup_steps:
  "ent_cmp s (fst (ents ! i)) = 0 \<Longrightarrow> S_lookup ents s i low hi = Some (snd (ents ! i))"
  "ent_cmp s (fst (ents ! i)) < 0 \<Longrightarrow> low < i \<Longrightarrow>
     S_lookup ents s i low hi = S_lookup ents s (probe_left i low) low (i - 1)"
  "ent_cmp s (fst (ents ! i)) > 0 \<Longrightarrow> i < hi \<Longrightarrow>
     S_lookup ents s i low hi = S_lookup ents s (probe_right i hi) (i + 1) hi"
  by (subst S_lookup.simps, simp add: Let_def)+

lemma S_lookup_sound:
  "S_lookup ents s i low hi = Some r \<Longrightarrow> low \<le> i \<Longrightarrow> i \<le> hi \<Longrightarrow> hi < length ents \<Longrightarrow>
   \<exists>k \<le> hi. ents ! k = (s, r)"
proof (induction ents s i low hi rule: S_lookup.induct)
  case (1 ents s i low hi)
  let ?c = "ent_cmp s (fst (ents ! i))"
  consider "?c = 0" | "?c < 0" "low < i" | "?c > 0" "i < hi"
    using "1.prems"(1) by (subst (asm) S_lookup.simps) (auto simp: Let_def split: if_splits)
  then show ?case
  proof cases
    case 1
    then show ?thesis using "1.prems" S_lookup_steps(1) [OF 1]
      by (auto simp: ent_cmp_0 prod_eq_iff intro!: exI [of _ i])
  next
    case 2
    have "i - 1 < length ents" using "1.prems" by simp
    then obtain k where "k \<le> i - 1" "ents ! k = (s, r)"
      using "1.IH"(1) [OF refl] "1.prems" 2 probe_left_bounds [of low i] S_lookup_steps(2) [OF 2]
      by auto
    then show ?thesis using "1.prems"(3) by (intro exI [of _ k]) auto
  next
    case 3
    then show ?thesis
      using "1.IH"(2) [OF refl] "1.prems" probe_right_bounds [of i hi] S_lookup_steps(3) [OF 3]
      by auto
  qed
qed

lemma S_lookup_complete:
  "ents_sorted ents \<Longrightarrow> low \<le> i \<Longrightarrow> i \<le> hi \<Longrightarrow> hi < length ents \<Longrightarrow> low \<le> k \<Longrightarrow> k \<le> hi \<Longrightarrow>
   ents ! k = (s, r) \<Longrightarrow> S_lookup ents s i low hi = Some r"
proof (induction ents s i low hi rule: S_lookup.induct)
  case (1 ents s i low hi)
  let ?c = "ent_cmp s (fst (ents ! i))"
  have less: "ent_cmp (fst (ents ! a)) (fst (ents ! b)) < 0" if "a < b" "b < length ents" for a b
    using "1.prems"(1) that by (simp add: ents_sorted_def sorted_wrt_iff_nth_less)
  have c: "?c = 0 \<longleftrightarrow> k = i" "?c < 0 \<longleftrightarrow> k < i"
    using less [of k i] less [of i k] "1.prems"(3,4,6,7) ent_cmp_swap [of "fst (ents ! i)" s]
      ent_cmp_0 [of s "fst (ents ! i)"]
    by (cases k i rule: linorder_cases; force)+
  consider "k = i" | "k < i" | "i < k" by linarith
  then show ?case
  proof cases
    case 1
    then show ?thesis using c "1.prems"(7) by (simp add: S_lookup_steps)
  next
    case 2
    then show ?thesis
      using c "1.IH"(1) [OF refl] "1.prems" probe_left_bounds [of low i] S_lookup_steps(2) [of s ents i low hi]
      by auto
  next
    case 3
    then show ?thesis
      using c "1.IH"(2) [OF refl] "1.prems" probe_right_bounds [of i hi] S_lookup_steps(3) [of s ents i hi low]
      by auto
  qed
qed

lemma ents_sorted_distinct: "ents_sorted ents \<Longrightarrow> distinct (map fst ents)"
  unfolding ents_sorted_def
proof (induction ents)
  case (Cons e ents)
  then show ?case using ent_cmp_0 [of "fst e" "fst e"] by (fastforce simp: image_iff)
qed simp

lemma S_lookup_entity_map_of:
  assumes "ents_sorted ents" and "ents \<noteq> []"
  shows "S_lookup_entity ents s = map_of ents s"
proof (cases "S_lookup_entity ents s")
  case None
  have "map_of ents s = None"
  proof (rule ccontr)
    assume "map_of ents s \<noteq> None"
    then obtain r where "(s, r) \<in> set ents" by (auto dest: map_of_SomeD)
    then obtain k where "k < length ents" "ents ! k = (s, r)" by (auto simp: in_set_conv_nth)
    then have "S_lookup_entity ents s = Some r"
      using assms unfolding S_lookup_entity_def by (intro S_lookup_complete) auto
    then show False using None by simp
  qed
  then show ?thesis using None by simp
next
  case (Some r)
  have n: "0 < length ents" using assms(2) by simp
  then have "length ents div 2 \<le> length ents - 1" "length ents - 1 < length ents" by arith+
  with Some obtain k where "k \<le> length ents - 1" "ents ! k = (s, r)"
    using S_lookup_sound [of ents s "length ents div 2" 0 "length ents - 1" r]
    unfolding S_lookup_entity_def by blast
  moreover have "k < length ents" using calculation(1) assms(2) by (cases ents) auto
  ultimately have "(s, r) \<in> set ents" by (metis nth_mem)
  then show ?thesis using Some ents_sorted_distinct [OF assms(1)] by simp
qed

subsection \<open>What unescaping writes\<close>

text \<open>The bytes a reference stands for and how many it consumes, or None.\<close>

definition reference_image :: "entity_table \<Rightarrow> byte list \<Rightarrow> (nat \<times> byte list) option" where
  "reference_image ents src =
     (if length src \<ge> 3 \<and> src ! 0 = 0x23 then
        let (codepoint, num_digits, max_digits, i) = numeric_ref src
        in if num_digits \<ge> 1 \<and> num_digits \<le> max_digits \<and> i < length src \<and> src ! i = 0x3B
           then Some (i + 1, encode_char (safe_codepoint codepoint)) else None
      else named_ref ents src (if length src > 32 then 32 else length src) 2)"

lemma named_ref_pos: "named_ref ents src sz i = Some (n, w) \<Longrightarrow> 0 < n"
proof (induction ents src sz i rule: named_ref.induct)
  case (1 ents src sz i)
  then show ?case by (subst (asm) (2) named_ref.simps) (auto split: if_splits)
qed

lemma reference_image_pos: "reference_image ents src = Some (n, w) \<Longrightarrow> 0 < n"
  using named_ref_pos by (auto simp: reference_image_def split: if_splits prod.splits)

lemma unescape_ent_image:
  "unescape_ent ents grant ob src =
     (case reference_image ents src of None \<Rightarrow> (0, ob) | Some (n, w) \<Rightarrow> (n, strbuf_put grant ob w))"
  by (auto simp: unescape_ent_def reference_image_def utf8proc_encode_char_def
      split: option.splits prod.splits)

text \<open>The specification: every ampersand that begins a reference gives way to its image.\<close>

function html_image :: "entity_table \<Rightarrow> byte list \<Rightarrow> byte list" where
  "html_image ents [] = []"
| "html_image ents (b # bs) =
     (if b \<noteq> 0x26 then b # html_image ents bs
      else case reference_image ents bs of
             None \<Rightarrow> 0x26 # html_image ents bs
           | Some (n, w) \<Rightarrow> w @ html_image ents (drop n bs))"
  by pat_completeness auto
termination
  by (relation "measure (\<lambda>(ents, bs). length bs)") auto

declare html_image.simps(2) [simp del]

lemma html_image_plain: "\<forall>b \<in> set run. b \<noteq> 0x26 \<Longrightarrow> html_image ents (run @ tail) = run @ html_image ents tail"
  by (induction run) (simp_all add: html_image.simps)

lemma html_image_id: "0x26 \<notin> set src \<Longrightarrow> html_image ents src = src"
  using html_image_plain [of src ents "[]"] by auto

lemma html_image_amp:
  "html_image ents (0x26 # bs) =
     (case reference_image ents bs of
        None \<Rightarrow> 0x26 # html_image ents bs
      | Some (n, w) \<Rightarrow> w @ html_image ents (drop n bs))"
  by (simp add: html_image.simps)

text \<open>
  One turn of the loop: a run without ampersands is appended, then the reference's image or
  the ampersand itself.  \<open>after_ref\<close> is the buffer and the rest after the ampersand.
\<close>

definition after_ref :: "entity_table \<Rightarrow> (nat \<Rightarrow> bool) \<Rightarrow> strbuf \<Rightarrow> byte list \<Rightarrow> strbuf \<times> nat" where
  "after_ref ents grant ob bs =
     (case reference_image ents bs of
        None \<Rightarrow> (strbuf_putc grant ob 0x26, 0)
      | Some (n, w) \<Rightarrow> (strbuf_put grant ob w, n))"

lemma after_ref_wf: "strbuf_wf ob \<Longrightarrow> strbuf_wf (fst (after_ref ents grant ob bs))"
  by (auto simp: after_ref_def strbuf_putc_is_put strbuf_put_wf split: option.splits)

lemma after_ref_oom: "strbuf_wf ob \<Longrightarrow> oom ob \<Longrightarrow> oom (fst (after_ref ents grant ob bs))"
  by (auto simp: after_ref_def strbuf_putc_is_put strbuf_put_oom split: option.splits)

lemma after_ref_image:
  assumes "strbuf_wf ob" and "\<not> oom (fst (after_ref ents grant ob bs))"
  shows "ptr (fst (after_ref ents grant ob bs)) @ html_image ents (drop (snd (after_ref ents grant ob bs)) bs)
       = ptr ob @ html_image ents (0x26 # bs)"
  using assms
  by (auto simp: after_ref_def html_image_amp strbuf_putc_is_put strbuf_put_content split: option.splits)

definition before_ref :: "(nat \<Rightarrow> bool) \<Rightarrow> nat \<Rightarrow> strbuf \<Rightarrow> nat \<Rightarrow> byte list \<Rightarrow> strbuf" where
  "before_ref grant sz ob org run =
     (let ob = (if run \<noteq> [] \<and> org = 0 then strbuf_grow grant ob (int sz) else ob)
      in if run \<noteq> [] then strbuf_put grant ob run else ob)"

lemma before_ref_wf: "strbuf_wf ob \<Longrightarrow> strbuf_wf (before_ref grant sz ob org run)"
  by (simp add: before_ref_def Let_def strbuf_put_wf strbuf_grow_wf)

lemma before_ref_oom: "oom ob \<Longrightarrow> oom (before_ref grant sz ob org run)"
  by (simp add: before_ref_def Let_def strbuf_put_oom strbuf_grow_oom)

lemma before_ref_ptr:
  "\<not> oom (before_ref grant sz ob org run) \<Longrightarrow> ptr (before_ref grant sz ob org run) = ptr ob @ run"
  by (auto simp: before_ref_def Let_def strbuf_put_content split: if_splits)

lemma unescape_html_loop_Nil: "unescape_html_loop ents grant sz ob org [] = (True, ob)"
  by (subst unescape_html_loop.simps) simp

lemma unescape_html_loop_last:
  assumes "rest \<noteq> []" and "0x26 \<notin> set rest"
  shows "unescape_html_loop ents grant sz ob org rest =
     (if org = 0 then (False, ob) else (True, before_ref grant sz ob org rest))"
proof -
  have na: "\<forall>b \<in> set rest. b \<noteq> 0x26" using assms(2) by blast
  have t: "takeWhile (\<lambda>b. b \<noteq> 0x26) rest = rest" and d: "dropWhile (\<lambda>b. b \<noteq> 0x26) rest = []"
    using takeWhile_append_stop [OF na, of "[]"] dropWhile_append_stop [OF na, of "[]"] by simp_all
  then show ?thesis
    using assms(1) by (subst unescape_html_loop.simps, unfold t d) (simp add: Let_def before_ref_def)
qed

lemma unescape_html_loop_amp:
  assumes "0x26 \<notin> set run"
  shows "unescape_html_loop ents grant sz ob org (run @ 0x26 # bs) =
     (let ob = before_ref grant sz ob org run;
          (ob, n) = after_ref ents grant ob bs
      in unescape_html_loop ents grant sz ob (org + length run + 1 + n) (drop n bs))"
proof -
  have na: "\<forall>b \<in> set run. b \<noteq> 0x26" using assms by blast
  have t: "takeWhile (\<lambda>b. b \<noteq> 0x26) (run @ 0x26 # bs) = run"
    and d: "dropWhile (\<lambda>b. b \<noteq> 0x26) (run @ 0x26 # bs) = 0x26 # bs"
    using takeWhile_append_stop [OF na, of "0x26 # bs"] dropWhile_append_stop [OF na, of "0x26 # bs"]
    by simp_all
  show ?thesis
  proof (cases "reference_image ents bs")
    case None
    then show ?thesis
      by (subst unescape_html_loop.simps, unfold t d)
        (simp add: Let_def after_ref_def before_ref_def unescape_ent_image)
  next
    case (Some p)
    then obtain n w where p: "reference_image ents bs = Some (n, w)" by (cases p) simp
    have "n \<noteq> 0" using reference_image_pos [OF p] by simp
    then show ?thesis
      by (subst unescape_html_loop.simps, unfold t d)
        (simp add: Let_def after_ref_def before_ref_def unescape_ent_image p)
  qed
qed

lemma split_at_amp:
  obtains "0x26 \<notin> set rest" | run bs where "rest = run @ 0x26 # bs" and "0x26 \<notin> set (run :: byte list)"
  by (metis split_list_first)

text \<open>The loop keeps the invariant, keeps a loss, and writes the image.\<close>

lemma unescape_html_loop_oom:
  "strbuf_wf ob \<Longrightarrow> oom ob \<Longrightarrow> oom (snd (unescape_html_loop ents grant sz ob org rest))"
proof (induction "length rest" arbitrary: ob org rest rule: less_induct)
  case less
  show ?case
  proof (cases rest rule: split_at_amp)
    case 1
    then show ?thesis
      using less.prems by (cases "rest = []")
        (simp_all add: unescape_html_loop_Nil unescape_html_loop_last before_ref_oom)
  next
    case (2 run bs)
    then show ?thesis
      using less.prems less.hyps
      by (simp add: unescape_html_loop_amp Let_def split_beta after_ref_wf after_ref_oom
          before_ref_wf before_ref_oom)
  qed
qed

lemma unescape_html_loop_wf:
  "strbuf_wf ob \<Longrightarrow> strbuf_wf (snd (unescape_html_loop ents grant sz ob org rest))"
proof (induction "length rest" arbitrary: ob org rest rule: less_induct)
  case less
  show ?case
  proof (cases rest rule: split_at_amp)
    case 1
    then show ?thesis
      using less.prems by (cases "rest = []")
        (simp_all add: unescape_html_loop_Nil unescape_html_loop_last before_ref_wf)
  next
    case (2 run bs)
    then show ?thesis
      using less.prems less.hyps
      by (simp add: unescape_html_loop_amp Let_def split_beta after_ref_wf before_ref_wf)
  qed
qed

lemma unescape_html_loop_image:
  "strbuf_wf ob \<Longrightarrow> \<not> oom (snd (unescape_html_loop ents grant sz ob org rest)) \<Longrightarrow>
   (fst (unescape_html_loop ents grant sz ob org rest) \<longrightarrow>
      ptr (snd (unescape_html_loop ents grant sz ob org rest)) = ptr ob @ html_image ents rest) \<and>
   (\<not> fst (unescape_html_loop ents grant sz ob org rest) \<longrightarrow>
      snd (unescape_html_loop ents grant sz ob org rest) = ob \<and> org = 0 \<and> 0x26 \<notin> set rest)"
proof (induction "length rest" arbitrary: ob org rest rule: less_induct)
  case less
  show ?case
  proof (cases rest rule: split_at_amp)
    case 1
    then show ?thesis
      using less.prems by (cases "rest = []")
        (auto simp: unescape_html_loop_Nil unescape_html_loop_last before_ref_ptr html_image_id)
  next
    case (2 run bs)
    define ob1 where "ob1 = before_ref grant sz ob org run"
    define ob2 where "ob2 = fst (after_ref ents grant ob1 bs)"
    define n where "n = snd (after_ref ents grant ob1 bs)"
    have loop: "unescape_html_loop ents grant sz ob org rest =
        unescape_html_loop ents grant sz ob2 (org + length run + 1 + n) (drop n bs)"
      using 2 by (simp add: unescape_html_loop_amp Let_def split_beta ob1_def ob2_def n_def)
    have wf: "strbuf_wf ob1" "strbuf_wf ob2"
      using less.prems(1) by (simp_all add: ob1_def ob2_def before_ref_wf after_ref_wf)
    have ok2: "\<not> oom ob2" using less.prems(2) wf(2) unescape_html_loop_oom unfolding loop by blast
    then have ok1: "\<not> oom ob1" using wf(1) after_ref_oom unfolding ob2_def by blast
    have "\<forall>b \<in> set run. b \<noteq> 0x26" using 2 by blast
    then have "ptr ob2 @ html_image ents (drop n bs) = ptr ob @ html_image ents rest"
      using after_ref_image [OF wf(1), of ents grant bs] ok1 ok2 before_ref_ptr [of grant sz ob org run] 2
        html_image_plain [of run ents "0x26 # bs"]
      by (simp add: ob2_def n_def ob1_def)
    moreover have "length (drop n bs) < length rest" using 2 by simp
    ultimately show ?thesis
      using less.hyps [of "drop n bs" ob2 "org + length run + 1 + n"] wf(2) less.prems(2)
      unfolding loop by simp
  qed
qed

lemma unescape_html_f_image:
  assumes "strbuf_wf ob" and "\<not> oom (unescape_html_f ents grant ob src)"
  shows "ptr (unescape_html_f ents grant ob src) = ptr ob @ html_image ents src"
  using unescape_html_loop_image [OF assms(1), of ents grant "length src" 0 src] assms(2)
  by (cases "oom (snd (unescape_html_loop ents grant (length src) ob 0 src))")
    (auto simp: unescape_html_f_def unescape_html_def Let_def split_beta html_image_id
      strbuf_put_content strbuf_put_oom split: if_splits)

lemma unescape_html_f_wf: "strbuf_wf ob \<Longrightarrow> strbuf_wf (unescape_html_f ents grant ob src)"
  by (simp add: unescape_html_f_def unescape_html_def Let_def split_beta unescape_html_loop_wf strbuf_put_wf)

subsection \<open>Numeric references\<close>

lemma hou_isdigit_digit: "hou_isdigit = digit_byte"
  by (simp add: fun_eq_iff hou_isdigit_def digit_byte_def)

lemma dec_loop_digits:
  assumes "\<forall>b \<in> set ds. digit_byte b" and "rest = [] \<or> \<not> digit_byte (hd rest)"
    and "digits_from cp ds < 0x110000"
  shows "dec_loop (ds @ rest) cp = (digits_from cp ds, length ds)"
  using assms(1,3)
proof (induction ds arbitrary: cp)
  case Nil
  then show ?case using assms(2) by (cases rest) (simp_all add: hou_isdigit_digit)
next
  case (Cons b ds)
  have "cp * 10 + digit_value b < 0x110000"
    using Cons.prems(2) digits_from_ge [of "cp * 10 + digit_value b" ds] by simp
  then have "clamp_codepoint (cp * 10 + (unat b - 48)) = cp * 10 + digit_value b"
    by (simp add: clamp_codepoint_def digit_value_def)
  then show ?case using Cons by (simp add: hou_isdigit_digit)
qed

lemma safe_codepoint_range:
  "0 < safe_codepoint cp \<and> safe_codepoint cp < 0x110000 \<and>
   \<not> (0xD800 \<le> safe_codepoint cp \<and> safe_codepoint cp < 0xE000)"
  by (auto simp: safe_codepoint_def)

lemma numeric_ref_decimal:
  assumes "c < 0x110000"
  shows "numeric_ref (0x23 # decimal c @ 0x3B # rest) = (c, length (decimal c), 7, 1 + length (decimal c))"
proof -
  have "\<not> digit_byte 0x3B" by (simp add: digit_byte_def)
  then have loop: "dec_loop (decimal c @ 0x3B # rest) 0 = (c, length (decimal c))"
    using dec_loop_digits [of "decimal c" "0x3B # rest" 0] decimal_digits [of _ c] assms
    by (simp add: decimal_value)
  obtain d ds where d: "decimal c = d # ds" using decimal_not_Nil [of c] by (cases "decimal c") auto
  then have "hou_isdigit d" using decimal_digits [of d c] by (simp add: hou_isdigit_digit)
  then show ?thesis using loop d by (simp add: numeric_ref_def)
qed

lemma unescape_ent_decimal:
  assumes "0 < c" and "c < 0x110000" and "\<not> (0xD800 \<le> c \<and> c < 0xE000)"
  shows "unescape_ent ents grant ob (0x23 # decimal c @ 0x3B # rest) =
    (length (decimal c) + 2, strbuf_put grant ob (encode_char c))"
proof -
  have "length (decimal c) \<le> 7" using length_decimal [of c 6] assms(2) by simp
  moreover have "0 < length (decimal c)" using decimal_not_Nil by simp
  moreover have "safe_codepoint c = c" using assms by (simp add: safe_codepoint_def)
  ultimately show ?thesis
    using numeric_ref_decimal [OF assms(2), of rest]
    by (simp add: unescape_ent_def utf8proc_encode_char_def nth_append Suc_le_eq)
qed

subsection \<open>Properties\<close>

text \<open>
  C40: The binary search of the entity table is the table's lookup: on a table whose names
  are strictly sorted, it answers the replacement of exactly the names the table holds.
\<close>

theorem entity_search_is_lookup:
  assumes "ents_sorted ents" and "ents \<noteq> []"
  shows "S_lookup_entity ents s = map_of ents s"
  using assms by (rule S_lookup_entity_map_of)

theorem entity_search_is_lookup_witness:
  "S_lookup_entity [(asc ''amp'', asc ''&''), (asc ''gt'', asc ''>''), (asc ''lt'', asc ''<'')] (asc ''lt'')
   = Some (asc ''<'')"
  using entity_search_is_lookup
    [of "[(asc ''amp'', asc ''&''), (asc ''gt'', asc ''>''), (asc ''lt'', asc ''<'')]" "asc ''lt''"]
  by (simp add: ents_sorted_def ent_cmp_def)



text \<open>
  A decimal character reference to any scalar value, surrogates and zero apart, decodes to
  the encoding of that scalar and consumes the reference exactly.
\<close>

lemma decimal_reference_decodes:
  assumes "0 < c" and "c < 0x110000" and "\<not> (0xD800 \<le> c \<and> c < 0xE000)"
  shows "unescape_ent ents grant ob (0x23 # decimal c @ 0x3B # rest) =
    (length (decimal c) + 2, strbuf_put grant ob (encode_char c))"
  using assms by (rule unescape_ent_decimal)

theorem decimal_reference_decodes_witness:
  "unescape_ent [] (\<lambda>n. True) strbuf_empty (0x23 # decimal 0x20AC @ [0x3B]) =
    (length (decimal 0x20AC) + 2, strbuf_put (\<lambda>n. True) strbuf_empty (encode_char 0x20AC))"
  by (rule decimal_reference_decodes) simp_all

end
