(* ===== verification/Frame.thy ===== *)
theory Frame
  imports Decimal
begin

text \<open>
  lsp/frame.c and lsp/frame.h: the protocol's base framing.  An input stream is the bytes not
  read yet, and every read answers what it leaves of them; \<open>fgetc\<close> takes the first and
  \<open>fread\<close> as many as there are.  A frame is the storage of its body, whose first \<open>fr_size\<close>
  bytes are the message, and the storage's capacity.
\<close>

record frame =
  fr_body :: "byte list"
  fr_size :: nat
  fr_capacity :: nat

datatype frame_status = FRAME_OK | FRAME_END | FRAME_BROKEN

definition FRAME_LINE :: nat where
  "FRAME_LINE = 1024"

definition FRAME_BODY :: nat where
  "FRAME_BODY = 6 * 2 ^ 30"

text \<open>A header line without its line ending, or the two ways there is none (-1 and -2).\<close>

datatype line_read = Line "byte list" | LineEnd | LineBroken

fun read_line :: "byte list \<Rightarrow> byte list \<Rightarrow> line_read \<times> byte list" where
  "read_line line [] = ((if line = [] then LineEnd else LineBroken), [])"
| "read_line line (b # inp) =
     (if b = 0x0A then
        (if line \<noteq> [] \<and> last line = 0x0D then Line (butlast line) else LineBroken, inp)
      else if length line = FRAME_LINE then (LineBroken, inp)
      else read_line (line @ [b]) inp)"

definition lower_ascii :: "byte \<Rightarrow> byte" where
  "lower_ascii b = (if between 0x41 0x5A b then b - 0x41 + 0x61 else b)"

text \<open>Whether the line begins with the name, in any case, and a colon.\<close>

definition named :: "byte list \<Rightarrow> byte list \<Rightarrow> bool" where
  "named line name \<longleftrightarrow>
     length name + 1 \<le> length line \<and> line ! length name = 0x3A \<and>
     map lower_ascii (take (length name) line) = name"

fun length_loop :: "nat \<Rightarrow> byte list \<Rightarrow> nat option" where
  "length_loop n [] = Some n"
| "length_loop n (b # bs) =
     (if \<not> digit_byte b \<or> n > FRAME_BODY then None else length_loop (n * 10 + digit_value b) bs)"

text \<open>The value of a Content-Length line; \<open>None\<close> is a malformed one.\<close>

definition content_length :: "byte list \<Rightarrow> nat option" where
  "content_length line =
     (let at = dropWhile (\<lambda>b. b = 0x20) (drop (length ''content-length'' + 1) line)
      in if at = [] then None else length_loop 0 at)"

text \<open>The header: the status it ends the read with, or the length it names, if any.\<close>

lemma read_line_shorter: "read_line line inp = (Line l, rest) \<Longrightarrow> length rest < length inp"
  by (induction line inp rule: read_line.induct) (auto split: if_splits)

function read_header :: "bool \<Rightarrow> nat option \<Rightarrow> byte list \<Rightarrow> (frame_status + nat option) \<times> byte list" where
  "read_header first sz inp =
     (case read_line [] inp of
        (LineEnd, rest) \<Rightarrow> (Inl (if first then FRAME_END else FRAME_BROKEN), rest)
      | (LineBroken, rest) \<Rightarrow> (Inl FRAME_BROKEN, rest)
      | (Line line, rest) \<Rightarrow>
          if line = [] then (Inr sz, rest)
          else if named line (asc ''content-length'') then
            (case content_length line of
               None \<Rightarrow> (Inl FRAME_BROKEN, rest)
             | Some n \<Rightarrow> read_header False (Some n) rest)
          else read_header False sz rest)"
  by pat_completeness auto
termination
  by (relation "measure (\<lambda>(first, sz, inp). length inp)") (auto dest: read_line_shorter [OF sym])

declare read_header.simps [simp del]

definition frame_read :: "(nat \<Rightarrow> bool) \<Rightarrow> byte list \<Rightarrow> frame \<Rightarrow> frame_status \<times> frame \<times> byte list" where
  "frame_read grant inp message =
     (case read_header True None inp of
        (Inl status, rest) \<Rightarrow> (status, message, rest)
      | (Inr None, rest) \<Rightarrow> (FRAME_BROKEN, message, rest)
      | (Inr (Some sz), rest) \<Rightarrow>
          if sz > FRAME_BODY \<or> sz > SIZE_MAX then (FRAME_BROKEN, message, rest)
          else if sz > fr_capacity message \<and> \<not> grant sz then (FRAME_BROKEN, message, rest)
          else
            let message = (if sz > fr_capacity message then message\<lparr>fr_capacity := sz\<rparr> else message);
                got = take sz rest;
                message = message\<lparr>fr_body := got @ drop (length got) (fr_body message)\<rparr>
            in if length got \<noteq> sz then (FRAME_BROKEN, message, drop sz rest)
               else (FRAME_OK, message\<lparr>fr_size := sz\<rparr>, drop sz rest))"

text \<open>The bytes of one message on the stream.\<close>

definition frame_bytes :: "byte list \<Rightarrow> byte list" where
  "frame_bytes body = asc ''Content-Length: '' @ decimal (length body) @ [0x0D, 0x0A, 0x0D, 0x0A] @ body"

text \<open>
  Writing a message: \<open>accepts\<close> says of each of the three calls whether it succeeds.  What a
  call that fails leaves in the stream is the library's; the model leaves nothing of it.
\<close>

definition frame_write :: "(nat \<Rightarrow> bool) \<Rightarrow> byte list \<Rightarrow> byte list \<Rightarrow> bool \<times> byte list" where
  "frame_write accepts out body =
     (if \<not> accepts 0 then (False, out)
      else
        let out = out @ asc ''Content-Length: '' @ decimal (length body) @ [0x0D, 0x0A, 0x0D, 0x0A]
        in if body \<noteq> [] \<and> \<not> accepts 1 then (False, out)
           else (accepts 2, out @ body))"

definition frame_release :: "frame \<Rightarrow> frame" where
  "frame_release message = \<lparr>fr_body = [], fr_size = 0, fr_capacity = 0\<rparr>"

subsection \<open>What a read leaves\<close>

text \<open>A frame's message lies within its storage.\<close>

definition frame_wf :: "frame \<Rightarrow> bool" where
  "frame_wf m \<longleftrightarrow> fr_size m \<le> length (fr_body m) \<and> length (fr_body m) \<le> fr_capacity m"

lemma read_line_suffix: "\<exists>taken. inp = taken @ snd (read_line line inp)"
proof (induction line inp rule: read_line.induct)
  case (2 line b inp)
  then show ?case
    by (cases "b = 0x0A \<or> length line = FRAME_LINE") (auto intro: exI [of _ "[b]"] exI [of _ "b # _"])
qed simp

lemma read_header_suffix: "\<exists>taken. inp = taken @ snd (read_header first sz inp)"
proof (induction first sz inp rule: read_header.induct)
  case (1 first sz inp)
  obtain l rest where l: "read_line [] inp = (l, rest)" by fastforce
  obtain t1 where t1: "inp = t1 @ rest" using read_line_suffix [of inp "[]"] l by auto
  have step: "\<exists>taken. inp = taken @ snd (read_header False n rest)"
    if "\<exists>taken. rest = taken @ snd (read_header False n rest)" for n
    using that t1 by (metis append_assoc)
  show ?case
    using l t1 "1.IH" step by (subst read_header.simps) (auto split: line_read.splits option.splits)
qed

lemma read_header_not_ok: "fst (read_header first sz inp) \<noteq> Inl FRAME_OK"
proof (induction first sz inp rule: read_header.induct)
  case (1 first sz inp)
  then show ?case
    by (subst read_header.simps) (auto split: line_read.splits option.splits prod.splits)
qed

text \<open>The end of the input is told only where no byte of a message was there.\<close>

lemma read_header_end: "fst (read_header first sz inp) = Inl FRAME_END \<Longrightarrow> first \<and> inp = []"
proof (induction first sz inp rule: read_header.induct)
  case (1 first sz inp)
  have "read_line [] inp = (LineEnd, rest) \<Longrightarrow> inp = []" for rest
  proof -
    have "fst (read_line line inp) = LineEnd \<Longrightarrow> line = [] \<and> inp = []" for line
      by (induction line inp rule: read_line.induct) (auto split: if_splits)
    then show "read_line [] inp = (LineEnd, rest) \<Longrightarrow> inp = []" by (metis fst_conv)
  qed
  then show ?case
    using 1 by (subst (asm) (3) read_header.simps)
      (auto split: line_read.splits option.splits prod.splits if_splits)
qed

subsection \<open>Reading what was written\<close>

lemma read_line_reads:
  "0x0A \<notin> set bs \<Longrightarrow> length line + length bs < FRAME_LINE \<Longrightarrow>
   read_line line (bs @ 0x0D # 0x0A # rest) = (Line (line @ bs), rest)"
  by (induction bs arbitrary: line) (simp_all add: FRAME_LINE_def)

lemma length_loop_digits:
  "\<forall>b \<in> set bs. digit_byte b \<Longrightarrow> digits_from n bs \<le> FRAME_BODY \<Longrightarrow> length_loop n bs = Some (digits_from n bs)"
proof (induction bs arbitrary: n)
  case (Cons b bs)
  have "n \<le> digits_from n (b # bs)" by (rule digits_from_ge)
  then show ?case using Cons by simp
qed simp

lemma digit_bytes_no: "digit_byte b \<Longrightarrow> b \<noteq> 0x20 \<and> b \<noteq> 0x0A \<and> b \<noteq> 0x0D"
  by (auto simp: digit_byte_def)

lemma dropWhile_decimal: "dropWhile (\<lambda>b. b = 0x20) (decimal n) = decimal n"
  using decimal_digits [of "hd (decimal n)" n] decimal_not_Nil [of n] digit_bytes_no [of "hd (decimal n)"]
  by (cases "decimal n") auto

lemma content_length_decimal:
  assumes "n \<le> FRAME_BODY"
  shows "content_length (asc ''Content-Length: '' @ decimal n) = Some n"
  using length_loop_digits [of "decimal n" 0] decimal_digits decimal_not_Nil [of n] assms
  by (simp add: content_length_def Let_def dropWhile_decimal decimal_value)

lemma named_content_length: "named (asc ''Content-Length: '' @ rest) (asc ''content-length'')"
  by (simp add: named_def lower_ascii_def between_def)

lemma frame_read_bytes:
  assumes "length body \<le> FRAME_BODY" and "\<forall>n. n \<le> length body \<longrightarrow> grant n"
  shows "fst (frame_read grant (frame_bytes body @ rest) message) = FRAME_OK"
    and "m = fst (snd (frame_read grant (frame_bytes body @ rest) message)) \<Longrightarrow> take (fr_size m) (fr_body m) = body"
    and "snd (snd (frame_read grant (frame_bytes body @ rest) message)) = rest"
proof -
  let ?line = "asc ''Content-Length: '' @ decimal (length body)"
  have nl: "0x0A \<notin> set ?line" using decimal_digits [of "0x0A" "length body"] by (auto simp: digit_byte_def)
  have "length (decimal (length body)) \<le> 12"
    using length_decimal [of "length body" 11] assms(1) by (simp add: FRAME_BODY_def)
  then have short: "length [] + length ?line < FRAME_LINE" by (simp add: FRAME_LINE_def)
  have l1: "read_line [] (?line @ 0x0D # 0x0A # 0x0D # 0x0A # body @ rest) = (Line ?line, 0x0D # 0x0A # body @ rest)"
    using read_line_reads [OF nl short] by simp
  have z: "FRAME_LINE \<noteq> 0" by (simp add: FRAME_LINE_def)
  have l2: "read_line [] (0x0D # 0x0A # body @ rest) = (Line [], body @ rest)"
    using z by simp
  have h2: "read_header False (Some (length body)) (0x0D # 0x0A # body @ rest) = (Inr (Some (length body)), body @ rest)"
    using l2 by (subst read_header.simps) (simp add: FRAME_LINE_def)
  have h1: "read_header True None (?line @ 0x0D # 0x0A # 0x0D # 0x0A # body @ rest) =
      (Inr (Some (length body)), body @ rest)"
    using l1 named_content_length content_length_decimal [OF assms(1)] h2
    by (subst read_header.simps) simp
  have b: "frame_bytes body @ rest = ?line @ 0x0D # 0x0A # 0x0D # 0x0A # body @ rest" by (simp add: frame_bytes_def)
  have s: "\<not> length body > SIZE_MAX" using assms(1) by (simp add: FRAME_BODY_def SIZE_MAX_def)
  note read = frame_read_def [of grant "frame_bytes body @ rest" message, unfolded b h1]
  show "fst (frame_read grant (frame_bytes body @ rest) message) = FRAME_OK"
    unfolding b using assms s h1 by (simp add: frame_read_def Let_def)
  show "snd (snd (frame_read grant (frame_bytes body @ rest) message)) = rest"
    unfolding b using assms s h1 by (simp add: frame_read_def Let_def)
  show "take (fr_size m) (fr_body m) = body"
    if "m = fst (snd (frame_read grant (frame_bytes body @ rest) message))"
    using that assms s h1 unfolding b by (simp add: frame_read_def Let_def)
qed

text \<open>One message off the stream, into an empty frame and with storage granted.\<close>

definition frame_step :: "byte list \<Rightarrow> (byte list \<times> byte list) option" where
  "frame_step inp =
     (case frame_read (\<lambda>n. True) inp \<lparr>fr_body = [], fr_size = 0, fr_capacity = 0\<rparr> of
        (FRAME_OK, message, rest) \<Rightarrow> Some (take (fr_size message) (fr_body message), rest)
      | _ \<Rightarrow> None)"

interpretation framing: prefix_codec frame_bytes frame_step "\<lambda>body. length body \<le> FRAME_BODY"
proof unfold_locales
  fix body rest :: "byte list"
  assume body: "length body \<le> FRAME_BODY"
  let ?res = "frame_read (\<lambda>n. True) (frame_bytes body @ rest) \<lparr>fr_body = [], fr_size = 0, fr_capacity = 0\<rparr>"
  obtain m where "?res = (FRAME_OK, m, rest)"
    using frame_read_bytes(1,3) [OF body, of "\<lambda>n. True" rest] by (metis prod.collapse)
  then show "frame_step (frame_bytes body @ rest) = Some (body, rest)"
    using frame_read_bytes(2) [OF body, of "\<lambda>n. True" m rest "\<lparr>fr_body = [], fr_size = 0, fr_capacity = 0\<rparr>"] by (simp add: frame_step_def)
qed

lemma frame_write_all:
  "foldl (\<lambda>out body. snd (frame_write (\<lambda>call. True) out body)) out bodies = out @ concat (map frame_bytes bodies)"
  by (induction bodies arbitrary: out) (simp_all add: frame_write_def frame_bytes_def)

subsection \<open>Properties\<close>

text \<open>
  C19: A stream of messages is read back message by message.  Write any sequence of bodies within
  the limit with \<open>frame_write\<close>, and read as many messages with \<open>frame_read\<close>: each read answers
  the body written, and whatever was on the stream after them is left there.
\<close>

theorem frames_read_back:
  assumes "list_all (\<lambda>body. length body \<le> FRAME_BODY) bodies"
  shows "decode_many frame_step (length bodies)
      (foldl (\<lambda>out body. snd (frame_write (\<lambda>call. True) out body)) [] bodies @ rest) = Some (bodies, rest)"
  using framing.decode_many_concat [OF assms] by (simp only: frame_write_all append_Nil)

theorem frames_read_back_witness:
  "decode_many frame_step (length [asc ''{}'', []])
      (foldl (\<lambda>out body. snd (frame_write (\<lambda>call. True) out body)) [] [asc ''{}'', []] @ asc ''x'') =
    Some ([asc ''{}'', []], asc ''x'')"
  by (rule frames_read_back) (simp add: FRAME_BODY_def)

text \<open>
  C35: A read is safe on every stream.  It takes a prefix of the stream, keeps the frame's message
  within its storage and never shrinks that storage; a message it answers is the bytes just
  before what it leaves and no longer than the limit; and it tells the end of the input only
  where no byte was left.
\<close>

theorem frame_read_safe:
  assumes "frame_wf message" and "frame_read grant inp message = (status, m, rest)"
  shows "frame_wf m \<and> fr_capacity message \<le> fr_capacity m \<and> (\<exists>taken. inp = taken @ rest) \<and>
    (status = FRAME_OK \<longrightarrow> fr_size m \<le> FRAME_BODY \<and>
       (\<exists>header. inp = header @ take (fr_size m) (fr_body m) @ rest)) \<and>
    (status = FRAME_END \<longrightarrow> inp = [])"
proof -
  obtain h after where h: "read_header True None inp = (h, after)" by fastforce
  obtain taken where taken: "inp = taken @ after" using read_header_suffix [of inp True None] h by auto
  show ?thesis
  proof (cases h)
    case (Inl st)
    then have "status = st" "m = message" "rest = after" using assms(2) h by (simp_all add: frame_read_def)
    moreover have "st = FRAME_OK \<Longrightarrow> False" using read_header_not_ok [of True None inp] h Inl by simp
    ultimately show ?thesis using assms(1) taken Inl h read_header_end [of True None inp] by auto
  next
    case (Inr n)
    show ?thesis
    proof (cases n)
      case None
      then show ?thesis using assms h Inr taken by (auto simp: frame_read_def)
    next
      case (Some sz)
      then show ?thesis using assms h Inr taken
        by (auto simp: frame_read_def Let_def frame_wf_def min_def split: if_splits
            intro: exI [of _ "taken @ take sz after"] exI [of _ taken])
    qed
  qed
qed

theorem frame_read_safe_witness:
  "\<exists>status m rest. frame_read (\<lambda>n. n < 8) (frame_bytes (asc ''abc'')) \<lparr>fr_body = [], fr_size = 0, fr_capacity = 0\<rparr>
      = (status, m, rest) \<and> frame_wf m"
  using frame_read_safe [of "\<lparr>fr_body = [], fr_size = 0, fr_capacity = 0\<rparr>" "\<lambda>n. n < 8" "frame_bytes (asc ''abc'')"]
  by (cases "frame_read (\<lambda>n. n < 8) (frame_bytes (asc ''abc'')) \<lparr>fr_body = [], fr_size = 0, fr_capacity = 0\<rparr>")
    (auto simp: frame_wf_def)

end
