(* ===== verification/TextLocate.thy ===== *)
theory TextLocate
  imports Utf8
begin

text \<open>
  lsp/text.c: where a protocol position stands in a session's text.  What it asks of the
  session (elements/session.c) is an argument: the flushed source and the ranges of its lines,
  of which there is at least one.  Offsets and columns are \<^typ>\<open>nat\<close>; the source is at most
  \<open>INT32_MAX\<close> bytes, so the casts to \<open>int32_t\<close> keep every value.
\<close>

datatype text_unit = TEXT_UNIT_UTF8 | TEXT_UNIT_UTF16

record session_view =
  sv_source :: "byte list"
  sv_lines :: "(nat \<times> nat) list"

text \<open>A position of the protocol (\<open>line\<close>, \<open>character\<close>), and one of the parser.\<close>

type_synonym lsp_position = "nat \<times> nat"
type_synonym core_position = "nat \<times> nat"

definition is_continuation :: "byte \<Rightarrow> bool" where
  "is_continuation b \<longleftrightarrow> b AND 0xC0 = 0x80"

text \<open>The columns the bytes count.\<close>

fun columns_utf16 :: "byte list \<Rightarrow> nat" where
  "columns_utf16 [] = 0"
| "columns_utf16 (b # bs) = (if is_continuation b then 0 else if b \<ge> 0xF0 then 2 else 1) + columns_utf16 bs"

definition columns :: "byte list \<Rightarrow> text_unit \<Rightarrow> nat" where
  "columns bytes unit = (if unit = TEXT_UNIT_UTF8 then length bytes else columns_utf16 bytes)"

text \<open>The loop over whole scalars: the units stepped over and the offset in the line.\<close>

function locate_loop :: "byte list \<Rightarrow> text_unit \<Rightarrow> nat \<Rightarrow> nat \<Rightarrow> nat \<Rightarrow> nat \<times> nat" where
  "locate_loop bytes unit character units at =
     (if at < length bytes \<and> units < character then
        let nxt = skip_while is_continuation bytes (at + 1);
            width = columns (slice bytes at nxt) unit
        in if units + width > character then (units, at)
           else locate_loop bytes unit character (units + width) nxt
      else (units, at))"
  by pat_completeness auto
termination
  by (relation "measure (\<lambda>(bytes, unit, character, units, at). length bytes - at)")
    (auto intro!: diff_less_mono2 Suc_le_lessD [OF skip_while_ge])

declare locate_loop.simps [simp del]

definition lsp_text_locate :: "session_view \<Rightarrow> lsp_position \<Rightarrow> text_unit \<Rightarrow> nat \<times> core_position" where
  "lsp_text_locate view position unit =
     (let lines = length (sv_lines view);
          past = (fst position \<ge> lines);
          line = (if past then lines - 1 else fst position);
          (start, stop) = sv_lines view ! line;
          bytes = slice (sv_source view) start stop
      in if past then (length (sv_source view), line + 1, columns bytes unit + 1)
         else
           let (units, at) = locate_loop bytes unit (snd position) 0 0
           in (start + at, line + 1, units + 1))"

subsection \<open>What a scalar counts\<close>

lemma and_C0: "(n :: nat) AND 192 = 64 * (n div 64 mod 4)"
proof -
  have "n AND push_bit 6 (mask 2) = push_bit 6 (take_bit 2 (drop_bit 6 n))"
    by (rule bit_eqI) (auto simp: bit_simps)
  then show ?thesis by (simp add: mask_eq_exp_minus_1 push_bit_eq_mult drop_bit_eq_div take_bit_eq_mod)
qed

lemma is_continuation_unat: "is_continuation b \<longleftrightarrow> 128 \<le> unat b \<and> unat b < 192"
proof -
  have quarter: "64 * (n div 64 mod 4) = 128 \<longleftrightarrow> 128 \<le> n \<and> n < 192" if "n < 256" for n :: nat
  proof -
    have "n div 64 < 4" using that by simp
    then have "64 * (n div 64 mod 4) = 128 \<longleftrightarrow> n div 64 = 2" by simp
    then show ?thesis by auto
  qed
  have "is_continuation b \<longleftrightarrow> unat (b AND 0xC0) = unat (0x80 :: byte)"
    unfolding is_continuation_def by (simp only: word_unat_eq_iff)
  also have "unat (b AND 0xC0) = unat b AND unat (0xC0 :: byte)" by (rule unsigned_and_eq)
  finally have "is_continuation b \<longleftrightarrow> 64 * (unat b div 64 mod 4) = 128" by (simp add: and_C0)
  then show ?thesis using quarter [OF unat_byte_less] by simp
qed

definition scalar_units :: "text_unit \<Rightarrow> nat \<Rightarrow> nat" where
  "scalar_units unit uc =
     (if unit = TEXT_UNIT_UTF8 then scalar_width uc else if uc < 0x10000 then 1 else 2)"

text \<open>An encoding is a lead byte, which counts the scalar's units, and continuation bytes.\<close>

lemma encode_char_shape:
  assumes "uc < 0x110000"
  obtains lead more where "encode_char uc = lead # more" and "\<not> is_continuation lead"
    and "\<forall>b \<in> set more. is_continuation b"
    and "(if lead \<ge> 0xF0 then 2 else 1) = (if uc < 0x10000 then 1 else 2 :: nat)"
proof -
  note enc = encode_char_def encode_scalar_def scalar_width_def drop_bit_eq_div and_3F
  note word = is_continuation_unat word_le_nat_alt unat_tagged unat_of_nat_byte
  consider "uc < 0x80" | "0x80 \<le> uc" "uc < 0x800" | "0x800 \<le> uc" "uc < 0x10000" | "0x10000 \<le> uc"
    by linarith
  then show thesis
  proof cases
    case 1
    then show thesis by (intro that [of "of_nat uc" "[]"]) (simp_all add: enc word)
  next
    case 2
    then show thesis using encode_bounds(1) [OF 2(2)]
      by (intro that [of "of_nat (0xC0 + uc div 64)" "[of_nat (0x80 + uc mod 64)]"]) (simp_all add: enc word)
  next
    case 3
    then show thesis using encode_bounds(2) [OF 3(2)]
      by (intro that [of "of_nat (0xE0 + uc div 4096)"
            "[of_nat (0x80 + uc div 64 mod 64), of_nat (0x80 + uc mod 64)]"]) (simp_all add: enc word)
  next
    case 4
    then show thesis using encode_bounds(3) [OF assms] assms
      by (intro that [of "of_nat (0xF0 + uc div 262144)"
            "[of_nat (0x80 + uc div 4096 mod 64), of_nat (0x80 + uc div 64 mod 64), of_nat (0x80 + uc mod 64)]"])
        (simp_all add: enc word)
  qed
qed

lemma columns_utf16_append: "columns_utf16 (as @ bs) = columns_utf16 as + columns_utf16 bs"
  by (induction as) simp_all

lemma columns_append: "columns (as @ bs) unit = columns as unit + columns bs unit"
  by (simp add: columns_def columns_utf16_append)

lemma columns_continuations: "\<forall>b \<in> set bs. is_continuation b \<Longrightarrow> columns_utf16 bs = 0"
  by (induction bs) simp_all

lemma length_encode_char: "uc < 0x110000 \<Longrightarrow> length (encode_char uc) = scalar_width uc"
  by (simp add: encode_char_def length_encode_scalar)

lemma columns_encode_char:
  assumes "uc < 0x110000"
  shows "columns (encode_char uc) unit = scalar_units unit uc"
proof -
  obtain lead more where e: "encode_char uc = lead # more" "\<not> is_continuation lead"
    "\<forall>b \<in> set more. is_continuation b" "(if lead \<ge> 0xF0 then 2 else 1) = (if uc < 0x10000 then 1 else 2 :: nat)"
    using encode_char_shape [OF assms] by blast
  have "columns_utf16 (encode_char uc) = (if uc < 0x10000 then 1 else 2)"
    using e(2-4) columns_continuations [OF e(3)] unfolding e(1) by simp
  then show ?thesis using length_encode_char [OF assms] by (simp add: columns_def scalar_units_def)
qed

subsection \<open>The position located\<close>

text \<open>The longest run of scalars that fits in the units.\<close>

fun fitting :: "text_unit \<Rightarrow> nat \<Rightarrow> nat list \<Rightarrow> nat list" where
  "fitting unit k [] = []"
| "fitting unit k (c # cs) = (if scalar_units unit c \<le> k then c # fitting unit (k - scalar_units unit c) cs else [])"

lemma scalar_units_pos: "0 < scalar_units unit c"
  by (simp add: scalar_units_def scalar_width_pos)

lemma next_scalar:
  assumes "drop at bytes = encode_char c @ concat (map encode_char cs)" and "c < 0x110000"
    and "list_all (\<lambda>uc. uc < 0x110000) cs"
  shows "skip_while is_continuation bytes (at + 1) = at + length (encode_char c)"
proof -
  obtain lead more where e: "encode_char c = lead # more" "\<forall>b \<in> set more. is_continuation b"
    using encode_char_shape [OF assms(2)] by metis
  have d: "drop (at + 1) bytes = more @ concat (map encode_char cs)"
    using drop_Cons_nth(3) [of at bytes lead] assms(1) e(1) by simp
  have "concat (map encode_char cs) = [] \<or> \<not> is_continuation (hd (concat (map encode_char cs)))"
  proof (cases cs)
    case (Cons c' cs')
    then obtain lead' more' where "encode_char c' = lead' # more'" "\<not> is_continuation lead'"
      using encode_char_shape [of c'] assms(3) by (metis list.pred_inject(2))
    then show ?thesis using Cons by simp
  qed simp
  then show ?thesis using skip_while_run [OF d e(2)] e(1) by simp
qed

lemma locate_loop_fits:
  "drop at bytes = concat (map encode_char cs) \<Longrightarrow> list_all (\<lambda>uc. uc < 0x110000) cs \<Longrightarrow> units \<le> k \<Longrightarrow>
   locate_loop bytes unit k units at =
     (units + sum_list (map (scalar_units unit) (fitting unit (k - units) cs)),
      at + length (concat (map encode_char (fitting unit (k - units) cs))))"
proof (induction cs arbitrary: at units)
  case Nil
  then show ?case by (subst locate_loop.simps) simp
next
  case (Cons c cs)
  have c: "c < 0x110000" "list_all (\<lambda>uc. uc < 0x110000) cs" using Cons.prems(2) by simp_all
  have d: "drop at bytes = encode_char c @ concat (map encode_char cs)" using Cons.prems(1) by simp
  have len: "length (encode_char c) = scalar_width c" using length_encode_char [OF c(1)] .
  have lt: "at < length bytes" using d len scalar_width_pos [of c] by (cases "at < length bytes") auto
  have nxt: "skip_while is_continuation bytes (at + 1) = at + length (encode_char c)"
    by (rule next_scalar [OF d c])
  have w: "columns (slice bytes at (at + length (encode_char c))) unit = scalar_units unit c"
    using columns_encode_char [OF c(1)] d by (simp add: slice_def)
  have d': "drop (at + length (encode_char c)) bytes = concat (map encode_char cs)"
    using drop_append_plus [OF d] .
  show ?case
  proof (cases "units + scalar_units unit c \<le> k")
    case True
    then have "units < k" using scalar_units_pos [of unit c] by linarith
    then have "locate_loop bytes unit k units at =
        locate_loop bytes unit k (units + scalar_units unit c) (at + length (encode_char c))"
      using lt nxt w True by (subst locate_loop.simps) (simp add: Let_def)
    then show ?thesis using Cons.IH [OF d' c(2), of "units + scalar_units unit c"] True by simp
  next
    case False
    then have "locate_loop bytes unit k units at = (units, at)"
      using lt nxt w by (subst locate_loop.simps) (simp add: Let_def)
    moreover have "\<not> scalar_units unit c \<le> k - units" using False Cons.prems(3) by linarith
    ultimately show ?thesis by simp
  qed
qed

lemma fitting_prefix: "\<exists>rest. cs = fitting unit k cs @ rest \<and>
   (rest = [] \<or> k < sum_list (map (scalar_units unit) (fitting unit k cs)) + scalar_units unit (hd rest))"
  by (induction unit k cs rule: fitting.induct) fastforce+

lemma fitting_le: "sum_list (map (scalar_units unit) (fitting unit k cs)) \<le> k"
  by (induction unit k cs rule: fitting.induct) auto

subsection \<open>Properties\<close>

text \<open>
  C36: A position of the protocol is located at a scalar boundary, as far as its units reach and
  no further.  On a line that encodes the scalars \<open>cs\<close>, the offset \<open>lsp_text_locate\<close> answers is
  after the longest run of them whose UTF-8 bytes or UTF-16 units fit the character asked for,
  and its column is one more than the units of that run.
\<close>

theorem locate_stops_at_scalar:
  assumes "line < length (sv_lines view)" and "sv_lines view ! line = (start, stop)"
    and "slice (sv_source view) start stop = concat (map encode_char cs)"
    and "list_all (\<lambda>uc. uc < 0x110000) cs"
  shows "\<exists>run rest. cs = run @ rest \<and>
    lsp_text_locate view (line, character) unit =
      (start + length (concat (map encode_char run)), line + 1, sum_list (map (scalar_units unit) run) + 1) \<and>
    sum_list (map (scalar_units unit) run) \<le> character \<and>
    (rest = [] \<or> character < sum_list (map (scalar_units unit) run) + scalar_units unit (hd rest))"
proof -
  obtain rest where rest: "cs = fitting unit character cs @ rest"
    "rest = [] \<or> character < sum_list (map (scalar_units unit) (fitting unit character cs)) + scalar_units unit (hd rest)"
    using fitting_prefix by blast
  have "locate_loop (slice (sv_source view) start stop) unit character 0 0 =
      (sum_list (map (scalar_units unit) (fitting unit character cs)),
       length (concat (map encode_char (fitting unit character cs))))"
    using locate_loop_fits [of 0 "slice (sv_source view) start stop" cs 0 character unit] assms(3,4) by simp
  then have "lsp_text_locate view (line, character) unit =
      (start + length (concat (map encode_char (fitting unit character cs))), line + 1,
       sum_list (map (scalar_units unit) (fitting unit character cs)) + 1)"
    using assms(1,2) by (simp add: lsp_text_locate_def Let_def)
  then show ?thesis using rest fitting_le by blast
qed

theorem locate_stops_at_scalar_witness:
  "\<exists>run rest. [0x61, 0x1F600, 0x62] = run @ rest \<and>
    lsp_text_locate \<lparr>sv_source = concat (map encode_char [0x61, 0x1F600, 0x62]), sv_lines = [(0, 6)]\<rparr> (0, 2) TEXT_UNIT_UTF16
      = (0 + length (concat (map encode_char run)), 0 + 1, sum_list (map (scalar_units TEXT_UNIT_UTF16) run) + 1)"
  using locate_stops_at_scalar
    [of 0 "\<lparr>sv_source = concat (map encode_char [0x61, 0x1F600, 0x62]), sv_lines = [(0, 6)]\<rparr>" 0 6 "[0x61, 0x1F600, 0x62]" 2 TEXT_UNIT_UTF16]
  by (auto simp: encode_char_def encode_scalar_def scalar_width_def slice_def)

end
