(* ===== verification/Probing.thy ===== *)
theory Probing
  imports Prelude
begin

text \<open>
  Tables with linear probing, which core/map.c (the key index) and lsp/server.c (the document
  store) both are: what a table promises, and why removing an entry by shifting the run after
  it back keeps the promise.  The two differ in how they spell the test for an entry that may
  stay and in when they clear a slot; both spellings are shown to be the one below.

  A table is the list of its slots.  \<open>cyc n i j\<close> is the number of steps from slot \<open>i\<close> to slot \<open>j\<close>
  in the direction of a probe.
\<close>

definition cyc :: "nat \<Rightarrow> nat \<Rightarrow> nat \<Rightarrow> nat" where
  "cyc n i j = (if i \<le> j then j - i else n + j - i)"

definition succ_slot :: "nat \<Rightarrow> nat \<Rightarrow> nat" where
  "succ_slot n i = (if i + 1 = n then 0 else i + 1)"

lemma cyc_less: "i < n \<Longrightarrow> j < n \<Longrightarrow> cyc n i j < n"
  by (simp add: cyc_def) linarith

lemma cyc_0: "i < n \<Longrightarrow> j < n \<Longrightarrow> cyc n i j = 0 \<longleftrightarrow> i = j"
  by (auto simp: cyc_def split: if_splits)

lemma cyc_refl [simp]: "cyc n i i = 0"
  by (simp add: cyc_def)

lemma succ_less: "i < n \<Longrightarrow> succ_slot n i < n"
  by (simp add: succ_slot_def)

lemma cyc_succ: "i < n \<Longrightarrow> j < n \<Longrightarrow> cyc n i j + 1 < n \<Longrightarrow> cyc n i (succ_slot n j) = cyc n i j + 1"
  by (auto simp: cyc_def succ_slot_def split: if_splits)

lemma cyc_succ_left: "i < n \<Longrightarrow> j < n \<Longrightarrow> i \<noteq> j \<Longrightarrow> cyc n (succ_slot n i) j + 1 = cyc n i j"
  by (auto simp: cyc_def succ_slot_def split: if_splits)

lemma cyc_inj: "i < n \<Longrightarrow> j < n \<Longrightarrow> k < n \<Longrightarrow> cyc n i j = cyc n i k \<Longrightarrow> j = k"
  by (auto simp: cyc_def split: if_splits)

lemma cyc_via: "a < n \<Longrightarrow> b < n \<Longrightarrow> c < n \<Longrightarrow> cyc n a b \<le> cyc n a c \<longleftrightarrow> cyc n a c = cyc n a b + cyc n b c"
  by (auto simp: cyc_def split: if_splits)

lemma cyc_round: "a < n \<Longrightarrow> b < n \<Longrightarrow> c < n \<Longrightarrow> cyc n a c < cyc n a b \<Longrightarrow> cyc n a b + cyc n b c = cyc n a c + n"
  by (auto simp: cyc_def split: if_splits)

lemma mask_is_mod: "n = 2 ^ k \<Longrightarrow> (x :: nat) AND (n - 1) = x mod n"
  by (metis mask_eq_exp_minus_1 take_bit_eq_mask take_bit_eq_mod)

lemma succ_is_mod: "i < n \<Longrightarrow> (i + 1) mod n = succ_slot n i"
  by (simp add: succ_slot_def)

text \<open>The key index spells the distances with \<open>(next - home) & mask\<close> on \<open>size_t\<close>.\<close>

lemma sub_mask_is_cyc:
  assumes "n = 2 ^ k" and "k \<le> 64" and "i < n" and "j < n"
  shows "(j + 2 ^ 64 - i) AND (n - 1) = cyc n i j"
proof -
  have d: "n dvd 2 ^ 64" unfolding assms(1) using assms(2) by (rule le_imp_power_dvd)
  then obtain q where q: "2 ^ 64 = n * q" by (elim dvdE)
  have "n \<le> 2 ^ 64" using d by (simp add: dvd_imp_le)
  have m: "(j + 2 ^ 64 - i) AND (n - 1) = (j + 2 ^ 64 - i) mod n" by (rule mask_is_mod [OF assms(1)])
  show ?thesis
  proof (cases "i \<le> j")
    case True
    then have e: "j + 2 ^ 64 - i = (j - i) + n * q" unfolding q by linarith
    have "((j - i) + n * q) mod n = j - i" using assms(4) by simp
    with m have "(j + 2 ^ 64 - i) AND (n - 1) = j - i" by (simp only: e)
    then show ?thesis using True by (simp only: cyc_def if_True)
  next
    case False
    obtain r where r: "q = Suc r" using q by (cases q) auto
    have e: "j + 2 ^ 64 - i = (n + j - i) + n * r" unfolding q r using False assms(3) by simp
    have "n + j - i < n" using False assms(3) by linarith
    then have "((n + j - i) + n * r) mod n = n + j - i" by (simp only: mod_mult_self2 mod_less)
    with m have "(j + 2 ^ 64 - i) AND (n - 1) = n + j - i" by (simp only: e)
    then show ?thesis using False by (simp only: cyc_def if_False)
  qed
qed

text \<open>The document store spells the test with the order of the indices.\<close>

lemma stays_is_cyc:
  assumes "hole < n" and "at < n" and "home < n" and "hole \<noteq> at"
  shows "(if hole \<le> at then hole < home \<and> home \<le> at else hole < home \<or> home \<le> at)
     \<longleftrightarrow> cyc n home at < cyc n hole at"
  using assms by (auto simp: cyc_def split: if_splits)

subsection \<open>How many slots are taken\<close>

definition taken :: "'s option list \<Rightarrow> nat" where
  "taken t = length (filter (\<lambda>s. s \<noteq> None) t)"

lemma length_filter_update:
  "i < length xs \<Longrightarrow> length (filter P (xs[i := x])) + (if P (xs ! i) then 1 else 0) =
     length (filter P xs) + (if P x then 1 else 0)"
proof (induction xs arbitrary: i)
  case (Cons y ys)
  then show ?case using Cons.IH [of "i - 1"] by (cases i) auto
qed simp

lemma taken_insert: "p < length t \<Longrightarrow> t ! p = None \<Longrightarrow> taken (t[p := Some s]) = taken t + 1"
  using length_filter_update [of p t "\<lambda>s. s \<noteq> None" "Some s"] by (simp add: taken_def)

lemma taken_replace: "p < length t \<Longrightarrow> t ! p = Some a \<Longrightarrow> taken (t[p := Some s]) = taken t"
  using length_filter_update [of p t "\<lambda>s. s \<noteq> None" "Some s"] by (simp add: taken_def)

lemma taken_remove: "p < length t \<Longrightarrow> t ! p = Some a \<Longrightarrow> taken (t[p := None]) + 1 = taken t"
  using length_filter_update [of p t "\<lambda>s. s \<noteq> None" None] by (simp add: taken_def)

lemma taken_le: "taken t \<le> length t"
  by (simp add: taken_def)

lemma taken_empty [simp]: "taken (replicate n None) = 0"
  by (simp add: taken_def)

lemma taken_room: "taken t < length t \<Longrightarrow> \<exists>e < length t. t ! e = None"
proof (rule ccontr)
  assume lt: "taken t < length t" and no: "\<not> (\<exists>e < length t. t ! e = None)"
  have "filter (\<lambda>s. s \<noteq> None) t = t" using no by (intro filter_True) (auto simp: in_set_conv_nth)
  then show False using lt by (simp add: taken_def)
qed

lemma taken_two:
  assumes "taken t + 1 < length t" and "p < length t" and "t ! p = None"
  shows "\<exists>e < length t. e \<noteq> p \<and> t ! e = None"
proof -
  have "taken (t[p := Some undefined]) < length (t[p := Some undefined])"
    using assms taken_insert [OF assms(2,3)] by simp
  then obtain e where "e < length t" "t[p := Some undefined] ! e = None" using taken_room by fastforce
  then show ?thesis by (intro exI [of _ e]) (auto simp: nth_list_update assms(2) split: if_splits)
qed

subsection \<open>The interface of an entry\<close>

text \<open>
  What a table asks of its entries: a key, a stored hash and, for an entry that is valid, that
  the stored hash is the hash of the key.
\<close>

locale probed =
  fixes key :: "'s \<Rightarrow> 'k"
    and stored :: "'s \<Rightarrow> 64 word"
    and hash :: "'k \<Rightarrow> 64 word"
    and valid :: "'s \<Rightarrow> bool"
  assumes stored_hash: "valid s \<Longrightarrow> stored s = hash (key s)"
begin

definition home :: "nat \<Rightarrow> 'k \<Rightarrow> nat" where
  "home n k = unat (hash k) mod n"

lemma home_less: "i < n \<Longrightarrow> home n k < n"
  unfolding home_def by (rule mod_less_divisor) linarith

text \<open>
  Every entry is valid and reached by the probe for its key, no two entries have the same key,
  and some slot is empty.
\<close>

definition reached :: "'s option list \<Rightarrow> 'k \<Rightarrow> nat \<Rightarrow> bool" where
  "reached t k i \<longleftrightarrow>
     (\<forall>p < length t. cyc (length t) (home (length t) k) p < cyc (length t) (home (length t) k) i \<longrightarrow> t ! p \<noteq> None)"

definition unique :: "'s option list \<Rightarrow> bool" where
  "unique t \<longleftrightarrow>
     (\<forall>i < length t. \<forall>j < length t. \<forall>a b. t ! i = Some a \<longrightarrow> t ! j = Some b \<longrightarrow> key a = key b \<longrightarrow> i = j)"

definition table_ok :: "'s option list \<Rightarrow> bool" where
  "table_ok t \<longleftrightarrow>
     (\<exists>i < length t. t ! i = None) \<and>
     (\<forall>i < length t. \<forall>s. t ! i = Some s \<longrightarrow> valid s \<and> reached t (key s) i) \<and> unique t"

text \<open>The map a table holds.\<close>

definition entries :: "'s option list \<Rightarrow> 's list" where
  "entries t = List.map_filter id t"

lemma entries_simps [simp]:
  "entries [] = []" "entries (None # t) = entries t" "entries (Some s # t) = s # entries t"
  by (simp_all add: entries_def)

definition table_map :: "'s option list \<Rightarrow> 'k \<Rightarrow> 's option" where
  "table_map t k = find (\<lambda>s. key s = k) (entries t)"

lemma set_entries: "set (entries t) = {s. Some s \<in> set t}"
  by (auto simp: entries_def List.map_filter_def) force

lemma table_map_Some:
  assumes "unique t"
  shows "table_map t k = Some s \<longleftrightarrow> (\<exists>i < length t. t ! i = Some s) \<and> key s = k"
proof
  assume "table_map t k = Some s"
  then have "s \<in> set (entries t)" "key s = k" unfolding table_map_def by (auto simp: find_Some_iff)
  then show "(\<exists>i < length t. t ! i = Some s) \<and> key s = k" by (auto simp: set_entries in_set_conv_nth)
next
  assume a: "(\<exists>i < length t. t ! i = Some s) \<and> key s = k"
  then have "s \<in> set (entries t)" by (auto simp: set_entries in_set_conv_nth)
  then obtain s' where s': "table_map t k = Some s'" using a unfolding table_map_def
    by (cases "find (\<lambda>s. key s = k) (entries t)") (auto simp: find_None_iff)
  then have "s' \<in> set (entries t)" "key s' = k" unfolding table_map_def by (auto simp: find_Some_iff)
  then obtain j where "j < length t" "t ! j = Some s'" by (auto simp: set_entries in_set_conv_nth)
  then have "s' = s" using a \<open>key s' = k\<close> assms unfolding unique_def by (metis option.inject)
  then show "table_map t k = Some s" using s' by simp
qed

lemma table_map_None: "table_map t k = None \<longleftrightarrow> (\<forall>i < length t. \<forall>s. t ! i = Some s \<longrightarrow> key s \<noteq> k)"
  unfolding table_map_def find_None_iff
  by (auto simp: set_entries in_set_conv_nth)

text \<open>The map is known by its entries.\<close>

lemma table_map_eqI:
  assumes "unique t" and "\<And>s. (\<exists>i < length t. t ! i = Some s) \<and> key s = k \<longleftrightarrow> m = Some s"
  shows "table_map t k = m"
  using assms table_map_Some [OF assms(1)] by (metis not_Some_eq)

subsection \<open>Probing\<close>

text \<open>
  A slot the probe for a key stops at: it is empty or holds the key, and every slot before it on
  the probe holds another key.
\<close>

definition stop :: "'s option list \<Rightarrow> 'k \<Rightarrow> nat \<Rightarrow> bool" where
  "stop t k p \<longleftrightarrow> p < length t \<and>
     (t ! p = None \<or> (\<exists>s. t ! p = Some s \<and> key s = k)) \<and>
     (\<forall>q < length t. cyc (length t) (home (length t) k) q < cyc (length t) (home (length t) k) p \<longrightarrow>
        (\<exists>s. t ! q = Some s \<and> key s \<noteq> k))"

lemma stop_finds:
  assumes "table_ok t" and "stop t k p"
  shows "t ! p = table_map t k"
proof (cases "t ! p")
  case (Some s)
  then have "key s = k" "p < length t" using assms(2) by (auto simp: stop_def)
  then show ?thesis using Some table_map_Some assms(1) unfolding table_ok_def by metis
next
  case None
  have "key s \<noteq> k" if s: "i < length t" "t ! i = Some s" for i s
  proof
    assume k: "key s = k"
    let ?n = "length t"
    let ?h = "home ?n k"
    have p: "p < ?n" using assms(2) by (simp add: stop_def)
    then have h: "?h < ?n" by (rule home_less)
    have "reached t k i" using assms(1) s k unfolding table_ok_def by blast
    then have "\<not> cyc ?n ?h p < cyc ?n ?h i" using None p unfolding reached_def by blast
    moreover have "cyc ?n ?h i \<noteq> cyc ?n ?h p"
    proof
      assume "cyc ?n ?h i = cyc ?n ?h p"
      then have "i = p" by (rule cyc_inj [OF h s(1) p])
      then show False using None s by simp
    qed
    ultimately have "cyc ?n ?h i < cyc ?n ?h p" by linarith
    then show False using assms(2) s k unfolding stop_def by (metis option.inject)
  qed
  then show ?thesis using None table_map_None by metis
qed

text \<open>The probe's walk: slots before \<open>at\<close> are other keys' and the next one is looked at.\<close>

definition walked :: "'s option list \<Rightarrow> 'k \<Rightarrow> nat \<Rightarrow> bool" where
  "walked t k at \<longleftrightarrow> at < length t \<and>
     (\<forall>q < length t. cyc (length t) (home (length t) k) q < cyc (length t) (home (length t) k) at \<longrightarrow>
        (\<exists>s. t ! q = Some s \<and> key s \<noteq> k))"

lemma walked_start: "t \<noteq> [] \<Longrightarrow> walked t k (home (length t) k)"
  using home_less [of 0 "length t" k] by (simp add: walked_def)

lemma walked_stop:
  "walked t k at \<Longrightarrow> t ! at = None \<or> (\<exists>s. t ! at = Some s \<and> key s = k) \<Longrightarrow> stop t k at"
  by (simp add: walked_def stop_def)

lemma walked_short:
  assumes "walked t k at" and "e < length t" and "t ! e = None"
  shows "cyc (length t) (home (length t) k) at \<le> cyc (length t) (home (length t) k) e"
  using assms unfolding walked_def by (metis linorder_not_le option.distinct(1))

lemma walked_step:
  assumes "walked t k at" and "t ! at = Some s" and "key s \<noteq> k" and "e < length t" and "t ! e = None"
  shows "walked t k (succ_slot (length t) at)"
    and "cyc (length t) at e = cyc (length t) (succ_slot (length t) at) e + 1"
proof -
  let ?n = "length t"
  let ?h = "home ?n k"
  have at: "at < ?n" and h: "?h < ?n" using assms(1) home_less [OF assms(4)] by (auto simp: walked_def)
  have ne: "at \<noteq> e" using assms(2,5) by auto
  then show "cyc ?n at e = cyc ?n (succ_slot ?n at) e + 1" using cyc_succ_left [OF at assms(4)] by simp
  have "cyc ?n ?h at < cyc ?n ?h e"
    using walked_short [OF assms(1,4,5)] cyc_inj [OF h at assms(4)] ne by (metis le_neq_implies_less)
  then have s: "cyc ?n ?h (succ_slot ?n at) = cyc ?n ?h at + 1"
    using cyc_less [OF h assms(4)] by (intro cyc_succ [OF h at]) linarith
  have "\<exists>s. t ! q = Some s \<and> key s \<noteq> k" if "q < ?n" "cyc ?n ?h q < cyc ?n ?h at + 1" for q
  proof (cases "q = at")
    case False
    then have "cyc ?n ?h q \<noteq> cyc ?n ?h at" using cyc_inj [OF h that(1) at] by blast
    then show ?thesis using that assms(1) unfolding walked_def by (metis Suc_eq_plus1 less_Suc_eq)
  qed (use assms(2,3) in auto)
  then show "walked t k (succ_slot ?n at)" using succ_less [OF at] s by (simp add: walked_def)
qed

subsection \<open>Inserting and replacing\<close>

lemma stop_insert:
  assumes ok: "table_ok t" and p: "stop t k p" and s: "valid s" "key s = k"
    and room: "t ! p = None \<Longrightarrow> \<exists>e < length t. e \<noteq> p \<and> t ! e = None"
  shows "table_ok (t[p := Some s])" and "table_map (t[p := Some s]) = (table_map t)(k \<mapsto> s)"
proof -
  let ?t = "t[p := Some s]" and ?n = "length t"
  have pn: "p < ?n" using p by (simp add: stop_def)
  obtain e where e: "e < ?n" "t ! e = None" using ok unfolding table_ok_def by blast
  have "\<exists>i < ?n. ?t ! i = None"
  proof (cases "t ! p = None")
    case True
    then obtain e' where "e' < ?n" "e' \<noteq> p" "t ! e' = None" using room by blast
    then show ?thesis by (intro exI [of _ e']) simp
  next
    case False
    then have "e \<noteq> p" using e by auto
    then show ?thesis using e by (intro exI [of _ e]) simp
  qed
  moreover have old: "valid a \<and> reached t (key a) i" if "i < ?n" "t ! i = Some a" for i a
    using ok that unfolding table_ok_def by blast
  have "valid a \<and> reached ?t (key a) i" if i: "i < ?n" "?t ! i = Some a" for i a
  proof (cases "i = p")
    case True
    then have "a = s" using i pn by simp
    moreover have "?t ! q \<noteq> None" if "q < ?n" "cyc ?n (home ?n k) q < cyc ?n (home ?n k) p" for q
      using p that unfolding stop_def by (cases "q = p") auto
    ultimately show ?thesis using s True unfolding reached_def by simp
  next
    case False
    then have "valid a \<and> reached t (key a) i" using old i by simp
    then show ?thesis using pn unfolding reached_def by (auto simp: nth_list_update)
  qed
  moreover have u: "unique ?t"
  proof -
    have other: "key a \<noteq> k" if "i < ?n" "i \<noteq> p" "t ! i = Some a" for i a
    proof
      assume "key a = k"
      then have "table_map t k = Some a" using that ok table_map_Some unfolding table_ok_def by metis
      then have "t ! p = Some a" using stop_finds [OF ok p] by simp
      then show False using that pn ok \<open>key a = k\<close> unfolding table_ok_def unique_def by blast
    qed
    have "unique t" using ok unfolding table_ok_def by blast
    then have same: "i = j" if "i < ?n" "j < ?n" "t ! i = Some a" "t ! j = Some b" "key a = key b" for i j a b
      using that unfolding unique_def by blast
    show ?thesis unfolding unique_def
    proof (intro allI impI)
      fix i j a b
      assume a: "i < length ?t" "j < length ?t" "?t ! i = Some a" "?t ! j = Some b" "key a = key b"
      show "i = j"
      proof (cases "i = p")
        case True
        then have "key a = k" using a(3) pn s(2) by simp
        then show ?thesis using True a(2,4,5) other [of j b] by (cases "j = p") auto
      next
        case False
        then have i: "t ! i = Some a" using a(3) by simp
        then have "key a \<noteq> k" using other False a(1) by simp
        then have "j \<noteq> p" using a(4,5) pn s(2) by auto
        then show ?thesis using same [of i j a b] i a(1,2,4,5) by simp
      qed
    qed
  qed
  ultimately show "table_ok ?t" unfolding table_ok_def by simp
  have ut: "unique t" using ok unfolding table_ok_def by blast
  show "table_map ?t = (table_map t)(k \<mapsto> s)"
  proof (rule ext)
    fix k'
    show "table_map ?t k' = ((table_map t)(k \<mapsto> s)) k'"
    proof (rule table_map_eqI [OF u])
      fix a
      have "(\<exists>i < ?n. ?t ! i = Some a) \<longleftrightarrow> a = s \<or> (\<exists>i < ?n. i \<noteq> p \<and> t ! i = Some a)"
        using pn by (auto simp: nth_list_update)
      moreover have "key a \<noteq> k" if "i < ?n" "i \<noteq> p" "t ! i = Some a" for i a
        using u pn that s(2) unfolding unique_def by (metis length_list_update nth_list_update_eq nth_list_update_neq)
      moreover have "t ! p = Some a \<Longrightarrow> key a = k" using p unfolding stop_def by auto
      ultimately show "(\<exists>i < length ?t. ?t ! i = Some a) \<and> key a = k' \<longleftrightarrow> ((table_map t)(k \<mapsto> s)) k' = Some a"
        using s(2) table_map_Some [OF ut, of k' a] by auto
    qed
  qed
qed

subsection \<open>Removing\<close>

text \<open>
  A table with a hole: every entry is reached by its probe but for the hole, and the entries whose
  probe passes the hole are at or after the slot looked at next.  \<open>e\<close> is an empty slot besides the
  hole, where the walk ends at the latest.
\<close>

definition hole_ok :: "'s option list \<Rightarrow> nat \<Rightarrow> nat \<Rightarrow> nat \<Rightarrow> bool" where
  "hole_ok t hole at e \<longleftrightarrow>
     hole < length t \<and> at < length t \<and> e < length t \<and> e \<noteq> hole \<and> at \<noteq> hole \<and> t ! hole = None \<and> t ! e = None \<and>
     cyc (length t) hole at \<le> cyc (length t) hole e \<and> unique t \<and>
     (\<forall>i < length t. \<forall>s. t ! i = Some s \<longrightarrow> valid s \<and>
        (\<forall>p < length t. cyc (length t) (home (length t) (key s)) p < cyc (length t) (home (length t) (key s)) i \<longrightarrow>
           t ! p \<noteq> None \<or> p = hole \<and> cyc (length t) hole at \<le> cyc (length t) hole i))"

lemma cleared: "i < length t \<Longrightarrow> t[p := None] ! i = Some a \<longleftrightarrow> i \<noteq> p \<and> t ! i = Some a"
  by (cases "i = p") simp_all

lemma unique_remove: "unique t \<Longrightarrow> unique (t[p := None])"
  unfolding unique_def by (simp add: cleared)

lemma table_map_remove:
  assumes "unique t" and "p < length t" and "t ! p = Some s"
  shows "table_map (t[p := None]) = (table_map t)(key s := None)"
proof (rule ext)
  fix k
  show "table_map (t[p := None]) k = ((table_map t)(key s := None)) k"
  proof (rule table_map_eqI [OF unique_remove [OF assms(1)]])
    fix a
    have "(\<exists>i < length t. t[p := None] ! i = Some a) \<longleftrightarrow> (\<exists>i < length t. i \<noteq> p \<and> t ! i = Some a)"
      using assms(2) by (auto simp: nth_list_update)
    moreover have "key a \<noteq> key s" if "i < length t" "i \<noteq> p" "t ! i = Some a" for i
      using assms that unfolding unique_def by blast
    ultimately show "(\<exists>i < length (t[p := None]). t[p := None] ! i = Some a) \<and> key a = k \<longleftrightarrow>
        ((table_map t)(key s := None)) k = Some a"
      using table_map_Some [OF assms(1), of k a] assms(3) by (auto split: if_splits)
  qed
qed

lemma hole_start:
  assumes ok: "table_ok t" and p: "p < length t" "t ! p = Some s"
  obtains e where "hole_ok (t[p := None]) p (succ_slot (length t) p) e"
proof -
  let ?n = "length t"
  obtain e where e: "e < ?n" "t ! e = None" using ok unfolding table_ok_def by blast
  have ne: "e \<noteq> p" using e p by auto
  have two: "cyc ?n p e \<noteq> 0" using cyc_0 [OF p(1) e(1)] ne by blast
  have one: "cyc ?n p (succ_slot ?n p) = 1"
    using cyc_succ [OF p(1) p(1)] cyc_less [OF p(1) e(1)] two by simp
  have sp: "succ_slot ?n p < ?n" "succ_slot ?n p \<noteq> p"
    using succ_less [OF p(1)] one by auto
  have "hole_ok (t[p := None]) p (succ_slot ?n p) e"
    unfolding hole_ok_def
  proof (intro conjI allI impI)
    fix i a q
    assume i: "i < length (t[p := None])" "t[p := None] ! i = Some a"
    then have ip: "i \<noteq> p" "t ! i = Some a" "i < ?n" by (simp_all add: cleared)
    then show "valid a" using ok unfolding table_ok_def by blast
    assume q: "q < length (t[p := None])" "cyc (length (t[p := None])) (home (length (t[p := None])) (key a)) q <
        cyc (length (t[p := None])) (home (length (t[p := None])) (key a)) i"
    then have "t ! q \<noteq> None" using ok ip unfolding table_ok_def reached_def by (metis length_list_update)
    moreover have "cyc ?n p i \<noteq> 0" using cyc_0 [OF p(1) ip(3)] ip(1) by blast
    ultimately show "t[p := None] ! q \<noteq> None \<or>
        q = p \<and> cyc (length (t[p := None])) p (succ_slot ?n p) \<le> cyc (length (t[p := None])) p i"
      using one by (cases "q = p") simp_all
  qed (use e ne p sp two one unique_remove ok in \<open>simp_all add: nth_list_update table_ok_def\<close>)
  then show thesis by (rule that)
qed

text \<open>The end of the run: the table is whole again.\<close>

lemma hole_end:
  assumes h: "hole_ok t hole at e" and none: "t ! at = None"
  shows "table_ok t"
proof -
  let ?n = "length t"
  have b: "hole < ?n" "at < ?n" "t ! hole = None" "at \<noteq> hole" "unique t" using h by (simp_all add: hole_ok_def)
  have "valid s \<and> reached t (key s) i" if i: "i < ?n" "t ! i = Some s" for i s
  proof -
    let ?h = "home ?n (key s)"
    have hn: "?h < ?n" using i(1) by (rule home_less)
    have r: "t ! p \<noteq> None \<or> p = hole \<and> cyc ?n hole at \<le> cyc ?n hole i"
      if "p < ?n" "cyc ?n ?h p < cyc ?n ?h i" for p
      using h i that unfolding hole_ok_def by blast
    have "t ! p \<noteq> None" if p: "p < ?n" "cyc ?n ?h p < cyc ?n ?h i" for p
    proof (rule ccontr)
      assume "\<not> t ! p \<noteq> None"
      then have ph: "p = hole" "cyc ?n hole at \<le> cyc ?n hole i" using r [OF p] by blast+
      have ai: "at \<noteq> i" using none i by auto
      have "cyc ?n ?h i = cyc ?n ?h hole + cyc ?n hole i"
        using cyc_via [OF hn b(1) i(1)] p(2) ph(1) by simp
      moreover have "cyc ?n hole i = cyc ?n hole at + cyc ?n at i"
        using cyc_via [OF b(1,2) i(1)] ph(2) by simp
      moreover have "cyc ?n at i \<noteq> 0" using cyc_0 [OF b(2) i(1)] ai by blast
      moreover have "cyc ?n ?h at = cyc ?n ?h hole + cyc ?n hole at \<or> cyc ?n ?h at + ?n = cyc ?n ?h hole + cyc ?n hole at"
        using b(1,2) hn by (auto simp: cyc_def split: if_splits)
      ultimately have "cyc ?n ?h at < cyc ?n ?h i" by linarith
      then have "at = hole" using r [OF b(2)] none by blast
      then show False using b(4) by simp
    qed
    then show ?thesis using h i unfolding hole_ok_def reached_def by blast
  qed
  then show ?thesis using b unfolding table_ok_def by blast
qed

text \<open>An entry that may stay is passed.\<close>

lemma hole_stay:
  assumes h: "hole_ok t hole at e" and s: "t ! at = Some s"
    and stay: "cyc (length t) (home (length t) (key s)) at < cyc (length t) hole at"
  shows "hole_ok t hole (succ_slot (length t) at) e"
    and "cyc (length t) at e = cyc (length t) (succ_slot (length t) at) e + 1"
proof -
  let ?n = "length t"
  have b: "hole < ?n" "at < ?n" "e < ?n" "t ! e = None" "cyc ?n hole at \<le> cyc ?n hole e" "e \<noteq> hole"
    using h by (simp_all add: hole_ok_def)
  have ne: "at \<noteq> e" using s b(4) by auto
  then show "cyc ?n at e = cyc ?n (succ_slot ?n at) e + 1" using cyc_succ_left [OF b(2,3)] by simp
  have lt: "cyc ?n hole at < cyc ?n hole e" using b(5) cyc_inj [OF b(1-3)] ne by (metis le_neq_implies_less)
  then have sc: "cyc ?n hole (succ_slot ?n at) = cyc ?n hole at + 1"
    using cyc_less [OF b(1,3)] by (intro cyc_succ [OF b(1,2)]) linarith
  have "succ_slot ?n at \<noteq> hole" using sc by auto
  moreover have "t ! p \<noteq> None \<or> p = hole \<and> cyc ?n hole at + 1 \<le> cyc ?n hole i"
    if i: "i < ?n" "t ! i = Some a" and p: "p < ?n" "cyc ?n (home ?n (key a)) p < cyc ?n (home ?n (key a)) i" for i a p
  proof -
    have r: "t ! p \<noteq> None \<or> p = hole \<and> cyc ?n hole at \<le> cyc ?n hole i"
      using h i p unfolding hole_ok_def by blast
    have "cyc ?n hole at \<noteq> cyc ?n hole i" if ph: "p = hole"
    proof
      assume "cyc ?n hole at = cyc ?n hole i"
      then have "i = at" using cyc_inj [OF b(1,2) i(1)] by simp
      then have "a = s" using i s by simp
      then show False using stay p ph \<open>i = at\<close> b(1,2) home_less [OF b(1), of "key s"]
        by (auto simp: cyc_def split: if_splits)
    qed
    then show ?thesis using r by (metis Suc_eq_plus1 Suc_leI le_neq_implies_less)
  qed
  ultimately show "hole_ok t hole (succ_slot ?n at) e"
    using h sc lt succ_less [OF b(2)] unfolding hole_ok_def by auto
qed

text \<open>An entry that may not stay fills the hole and leaves one where it was.\<close>

lemma hole_move:
  assumes h: "hole_ok t hole at e" and s: "t ! at = Some s"
    and move: "\<not> cyc (length t) (home (length t) (key s)) at < cyc (length t) hole at"
  shows "hole_ok (t[hole := Some s, at := None]) at (succ_slot (length t) at) e"
    and "cyc (length t) at e = cyc (length t) (succ_slot (length t) at) e + 1"
    and "table_map (t[hole := Some s, at := None]) = table_map t"
proof -
  let ?n = "length t" and ?t = "t[hole := Some s, at := None]"
  have b: "hole < ?n" "at < ?n" "e < ?n" "t ! e = None" "t ! hole = None" "e \<noteq> hole" "at \<noteq> hole" "unique t"
    using h by (simp_all add: hole_ok_def)
  have ne: "at \<noteq> e" using s b(4) by auto
  then show "cyc ?n at e = cyc ?n (succ_slot ?n at) e + 1" using cyc_succ_left [OF b(2,3)] by simp
  have nth: "?t ! i = (if i = at then None else if i = hole then Some s else t ! i)" if "i < ?n" for i
    using that b by (simp add: nth_list_update)
  have u: "unique ?t"
    unfolding unique_def
  proof (intro allI impI)
    fix i j x y
    assume a: "i < length ?t" "j < length ?t" "?t ! i = Some x" "?t ! j = Some y" "key x = key y"
    define i' where "i' = (if i = hole then at else i)"
    define j' where "j' = (if j = hole then at else j)"
    have "i' < ?n" "j' < ?n" "t ! i' = Some x" "t ! j' = Some y"
      using a nth b s by (auto simp: i'_def j'_def split: if_splits)
    then have "i' = j'" using b(8) a(5) unfolding unique_def by blast
    then show "i = j" using a nth b by (auto simp: i'_def j'_def split: if_splits)
  qed
  have one: "cyc ?n at (succ_slot ?n at) = 1"
    using cyc_succ [OF b(2) b(2)] cyc_less [OF b(2,3)] cyc_0 [OF b(2,3)] ne by simp
  have occupied: "?t ! p \<noteq> None \<or> p = at" if "p < ?n" "t ! p \<noteq> None \<or> p = hole" for p
    using that nth by auto
  have "valid a \<and> (\<forall>p < ?n. cyc ?n (home ?n (key a)) p < cyc ?n (home ?n (key a)) i \<longrightarrow> ?t ! p \<noteq> None \<or> p = at)"
    if i: "i < ?n" "?t ! i = Some a" for i a
  proof (cases "i = hole")
    case True
    then have a: "a = s" using i nth b by auto
    let ?h = "home ?n (key s)"
    have hn: "?h < ?n" using i(1) by (rule home_less)
    have "cyc ?n hole at \<le> cyc ?n ?h at" using move by simp
    then have "cyc ?n ?h at = cyc ?n ?h hole + cyc ?n hole at"
      using b(1,2) hn by (auto simp: cyc_def split: if_splits)
    then have "t ! p \<noteq> None \<or> p = hole" if "p < ?n" "cyc ?n ?h p < cyc ?n ?h hole" for p
      using h s b(2) that unfolding hole_ok_def by (metis trans_less_add1)
    then show ?thesis using h s b(2) True a occupied unfolding hole_ok_def by blast
  next
    case False
    then have "t ! i = Some a" "i \<noteq> at" using i nth by (auto split: if_splits)
    then show ?thesis using h i(1) occupied unfolding hole_ok_def by blast
  qed
  moreover have "succ_slot ?n at \<noteq> at" using one by auto
  moreover have "1 \<le> cyc ?n at e" using cyc_0 [OF b(2,3)] ne by simp
  moreover have "1 \<le> cyc ?n at i" if "i < ?n" "?t ! i = Some a" for i a
    using that nth cyc_0 [OF b(2), of i] by (cases "i = at") auto
  ultimately show "hole_ok ?t at (succ_slot ?n at) e"
    using u one b nth ne succ_less [OF b(2)] unfolding hole_ok_def by simp
  show "table_map ?t = table_map t"
  proof (rule ext, rule table_map_eqI [OF u])
    fix k a
    have "(\<exists>i < ?n. ?t ! i = Some a) \<longleftrightarrow> (\<exists>i < ?n. t ! i = Some a)"
    proof
      assume "\<exists>i < ?n. ?t ! i = Some a"
      then show "\<exists>i < ?n. t ! i = Some a" using nth b(2) s by (auto split: if_splits)
    next
      assume "\<exists>i < ?n. t ! i = Some a"
      then obtain i where i: "i < ?n" "t ! i = Some a" by blast
      show "\<exists>i < ?n. ?t ! i = Some a"
      proof (cases "i = at")
        case True
        then show ?thesis using i s nth b by (intro exI [of _ hole]) auto
      next
        case False
        moreover have "i \<noteq> hole" using i b(5) by auto
        ultimately show ?thesis using i by (intro exI [of _ i]) simp
      qed
    qed
    then show "(\<exists>i < length ?t. ?t ! i = Some a) \<and> key a = k \<longleftrightarrow> table_map t k = Some a"
      using table_map_Some [OF b(8), of k a] by simp
  qed
qed

lemma hole_move_taken:
  assumes "hole_ok t hole at e" and "t ! at = Some s"
  shows "taken (t[hole := Some s, at := None]) = taken t"
proof -
  have b: "hole < length t" "at < length t" "t ! hole = None" "at \<noteq> hole" using assms(1) by (simp_all add: hole_ok_def)
  have "taken (t[hole := Some s]) = taken t + 1" using taken_insert [OF b(1,3)] .
  moreover have "taken (t[hole := Some s, at := None]) + 1 = taken (t[hole := Some s])"
    using b assms(2) by (intro taken_remove) simp_all
  ultimately show ?thesis by simp
qed

subsection \<open>A fresh table\<close>

lemma table_ok_empty: "0 < n \<Longrightarrow> table_ok (replicate n None)"
  by (auto simp: table_ok_def unique_def)

lemma table_map_empty: "table_map (replicate n None) = Map.empty"
  by (rule ext) (auto simp: table_map_None)

lemma table_map_entry:
  assumes "table_ok t" and "i < length t" and "t ! i = Some s"
  shows "table_map t (key s) = Some s"
  using assms table_map_Some unfolding table_ok_def by blast

lemma entries_valid: "table_ok t \<Longrightarrow> s \<in> set (entries t) \<Longrightarrow> valid s"
  unfolding table_ok_def by (auto simp: set_entries in_set_conv_nth)

lemma unique_distinct: "unique t \<Longrightarrow> distinct (map key (entries t))"
proof (induction t)
  case (Cons x t)
  have nth: "unique t"
    unfolding unique_def
  proof (intro allI impI)
    fix i j a b
    assume "i < length t" "j < length t" "t ! i = Some a" "t ! j = Some b" "key a = key b"
    then have "Suc i = Suc j" using Cons.prems unfolding unique_def
      by (metis Suc_less_eq length_Cons nth_Cons_Suc)
    then show "i = j" by simp
  qed
  show ?case
  proof (cases x)
    case (Some s)
    have "key a \<noteq> key s" if "a \<in> set (entries t)" for a
    proof
      assume "key a = key s"
      have "Some a \<in> set t" using that by (simp add: set_entries)
      then obtain i where "i < length t" "t ! i = Some a" by (metis in_set_conv_nth)
      then have "Suc i = 0" using Cons.prems Some \<open>key a = key s\<close> unfolding unique_def
        by (metis Suc_less_eq length_Cons nth_Cons_Suc nth_Cons_0 zero_less_Suc)
      then show False by simp
    qed
    then have "key s \<notin> key ` set (entries t)" by fastforce
    then show ?thesis using Cons.IH [OF nth] Some by simp
  qed (use Cons.IH [OF nth] in simp)
qed simp

lemma entries_distinct: "table_ok t \<Longrightarrow> distinct (map key (entries t))"
  by (simp add: unique_distinct table_ok_def)

lemma table_valid: "table_ok t \<Longrightarrow> i < length t \<Longrightarrow> t ! i = Some s \<Longrightarrow> valid s"
  unfolding table_ok_def by blast

text \<open>Two tables with the same map hold the same entries.\<close>

lemma table_map_ran: "unique t \<Longrightarrow> table_map t k = Some s \<Longrightarrow> key s = k \<and> Some s \<in> set t"
  using table_map_Some by (metis nth_mem)

subsection \<open>Filling a table with another's entries\<close>

text \<open>The entries still to move have keys the table has not, and fit in it.\<close>

definition fits :: "'s option list \<Rightarrow> 's option list \<Rightarrow> bool" where
  "fits src t \<longleftrightarrow> table_ok t \<and> (\<forall>s \<in> set (entries src). valid s \<and> table_map t (key s) = None) \<and>
     distinct (map key (entries src)) \<and> taken t + length (entries src) < length t"

lemma length_entries: "length (entries t) = taken t"
  by (simp add: entries_def taken_def List.map_filter_def)

lemma fits_ok: "fits src t \<Longrightarrow> table_ok t"
  by (simp add: fits_def)

lemma fits_None [simp]: "fits (None # src) t = fits src t"
  by (simp add: fits_def)

lemma fits_valid: "fits (Some s # src) t \<Longrightarrow> valid s"
  by (simp add: fits_def)

lemma table_map_Nil [simp]: "table_map [] = Map.empty"
  and table_map_skip [simp]: "table_map (None # src) = table_map src"
  and table_map_Cons: "table_map (Some s # src) = (table_map src)(key s \<mapsto> s)"
  by (simp_all add: table_map_def fun_eq_iff)

lemma fits_step:
  assumes f: "fits (Some s # src) t" and p: "stop t (key s) p"
  shows "fits src (t[p := Some s])" and "taken (t[p := Some s]) = taken t + 1"
    and "table_map src ++ table_map (t[p := Some s]) = table_map (Some s # src) ++ table_map t"
proof -
  have ok: "table_ok t" and v: "valid s" and fresh: "table_map t (key s) = None"
    and room: "taken t + 1 < length t" using f by (auto simp: fits_def)
  have pn: "p < length t" using p by (simp add: stop_def)
  have vac: "t ! p = None" using stop_finds [OF ok p] fresh by simp
  show tk: "taken (t[p := Some s]) = taken t + 1" using pn vac by (rule taken_insert)
  note ins = stop_insert [OF ok p v refl taken_two [OF room pn vac]]
  have "key a \<noteq> key s" if "a \<in> set (entries src)" for a
  proof -
    have "key s \<notin> key ` set (entries src)" using f by (simp add: fits_def)
    then show ?thesis using that by (metis imageI)
  qed
  then show "fits src (t[p := Some s])" using f ins tk by (auto simp: fits_def)
  show "table_map src ++ table_map (t[p := Some s]) = table_map (Some s # src) ++ table_map t"
    using fresh by (auto simp: ins(2) table_map_Cons fun_eq_iff map_add_def split: option.splits)
qed

lemma fits_start:
  assumes "table_ok t \<or> t = []" and "taken t < n"
  shows "fits t (replicate n None)"
proof -
  have "distinct (map key (entries t)) \<and> (\<forall>s \<in> set (entries t). valid s)"
    using assms(1) entries_distinct entries_valid by fastforce
  then show ?thesis using assms(2) table_ok_empty [of n]
    by (simp add: fits_def table_map_empty length_entries)
qed

end

end
