(* ===== verification/KeyIndex.thy ===== *)
theory KeyIndex
  imports Probing
begin

text \<open>
  core/map.c, the key index: an open-addressed table from byte keys to a number and a word.
  A key is the list of its bytes, which is the borrowed pointer and the length; a vacant slot has
  no key (\<open>key == NULL\<close>).  The words of a key are read in the host's byte order, which is an
  argument, \<open>host\<close>; the allocator is the predicate \<open>grant\<close> on the capacity asked for.
\<close>

record ki_slot =
  ks_hash :: "64 word"
  ks_key :: "byte list option"
  ks_len :: nat
  ks_extra :: "32 word"
  ks_value :: nat

record key_index =
  ki_slots :: "ki_slot list"
  ki_size :: nat

definition ki_capacity :: "key_index \<Rightarrow> nat" where
  "ki_capacity index = length (ki_slots index)"

definition KEY_INDEX_MIN_CAPACITY :: nat where
  "KEY_INDEX_MIN_CAPACITY = 16"

definition vacant :: ki_slot where
  "vacant = \<lparr>ks_hash = 0, ks_key = None, ks_len = 0, ks_extra = 0, ks_value = 0\<rparr>"

definition index_empty :: key_index where
  "index_empty = \<lparr>ki_slots = [], ki_size = 0\<rparr>"

subsection \<open>The hash of a key\<close>

type_synonym host = "byte list \<Rightarrow> 64 word"

definition mix_word :: "64 word \<Rightarrow> 64 word \<Rightarrow> 64 word" where
  "mix_word h w = (let h = (h XOR w) * 0x9e3779b97f4a7c15 in h XOR drop_bit 32 h)"

text \<open>The loop over whole words: the hash and the bytes after them.\<close>

fun mix_words :: "host \<Rightarrow> 64 word \<Rightarrow> byte list \<Rightarrow> 64 word \<times> byte list" where
  "mix_words host h (a # b # c # d # e # f # g # i # rest) =
     mix_words host (mix_word h (host [a, b, c, d, e, f, g, i])) rest"
| "mix_words host h rest = (h, rest)"

definition hash_key :: "host \<Rightarrow> byte list \<Rightarrow> 64 word" where
  "hash_key host key =
     (let n = length key;
          (h, tail) = mix_words host (1469598103934665603 XOR of_nat n) key;
          rest = length tail;
          h = (if rest \<ge> 4 then
                 mix_word h (push_bit 32 (host (take 4 tail)) OR host (drop (n - 4) key))
               else if rest \<noteq> 0 then
                 mix_word h (push_bit 16 (ucast (tail ! 0)) OR push_bit 8 (ucast (tail ! (rest div 2))) OR
                             ucast (key ! (n - 1)))
               else h);
          h = h XOR drop_bit 33 h;
          h = h * 0xff51afd7ed558ccd;
          h = h XOR drop_bit 33 h;
          h = h * 0xc4ceb9fe1a85ec53;
          h = h XOR drop_bit 33 h
      in if h \<noteq> 0 then h else 1)"

subsection \<open>The operations\<close>

definition slot_is :: "64 word \<Rightarrow> byte list \<Rightarrow> ki_slot \<Rightarrow> bool" where
  "slot_is h key slot \<longleftrightarrow> ks_hash slot = h \<and> ks_len slot = length key \<and> the (ks_key slot) = key"

fun find_key_loop :: "nat \<Rightarrow> ki_slot list \<Rightarrow> 64 word \<Rightarrow> byte list \<Rightarrow> nat \<Rightarrow> nat option" where
  "find_key_loop 0 slots h key position = None"
| "find_key_loop (Suc probes) slots h key position =
     (if ks_key (slots ! position) = None \<or> slot_is h key (slots ! position) then Some position
      else find_key_loop probes slots h key ((position + 1) AND (length slots - 1)))"

definition find_key_slot :: "ki_slot list \<Rightarrow> 64 word \<Rightarrow> byte list \<Rightarrow> nat option" where
  "find_key_slot slots h key =
     find_key_loop (length slots) slots h key (unat h AND (length slots - 1))"

function capacity_loop :: "nat \<Rightarrow> nat \<Rightarrow> nat option" where
  "capacity_loop n capacity =
     (if capacity < n * 2 then
        if capacity = 0 \<or> capacity > SIZE_MAX div 2 then None else capacity_loop n (capacity * 2)
      else Some capacity)"
  by pat_completeness auto
termination
  by (relation "measure (\<lambda>(n, capacity). n * 2 - capacity)") auto

declare capacity_loop.simps [simp del]

text \<open>The least capacity for \<open>n\<close> keys; \<open>None\<close> is zero.  A slot is 32 bytes.\<close>

definition S_capacity_for :: "nat \<Rightarrow> nat option" where
  "S_capacity_for n =
     (if n > SIZE_MAX div 2 then None
      else case capacity_loop n KEY_INDEX_MIN_CAPACITY of
             None \<Rightarrow> None
           | Some capacity \<Rightarrow> if capacity \<le> SIZE_MAX div 32 then Some capacity else None)"

fun rehash_loop :: "ki_slot list \<Rightarrow> ki_slot list \<Rightarrow> ki_slot list option" where
  "rehash_loop [] slots = Some slots"
| "rehash_loop (source # rest) slots =
     (case ks_key source of
        None \<Rightarrow> rehash_loop rest slots
      | Some key \<Rightarrow>
          (case find_key_slot slots (ks_hash source) key of
             None \<Rightarrow> None
           | Some destination \<Rightarrow> rehash_loop rest (slots[destination := source])))"

definition S_rehash :: "(nat \<Rightarrow> bool) \<Rightarrow> key_index \<Rightarrow> nat \<Rightarrow> bool \<times> key_index" where
  "S_rehash grant index capacity =
     (if \<not> grant capacity then (False, index)
      else case rehash_loop (ki_slots index) (replicate capacity vacant) of
             None \<Rightarrow> (False, index)
           | Some slots \<Rightarrow> (True, index\<lparr>ki_slots := slots\<rparr>))"

definition key_index_reserve :: "(nat \<Rightarrow> bool) \<Rightarrow> key_index \<Rightarrow> nat \<Rightarrow> bool \<times> key_index" where
  "key_index_reserve grant index n =
     (if n = 0 then (True, index)
      else case S_capacity_for n of
             None \<Rightarrow> (False, index)
           | Some capacity \<Rightarrow>
               if capacity \<le> ki_capacity index then (True, index) else S_rehash grant index capacity)"

definition key_index_init :: "(nat \<Rightarrow> bool) \<Rightarrow> nat \<Rightarrow> bool \<times> key_index" where
  "key_index_init grant expected = key_index_reserve grant index_empty expected"

definition key_index_free :: "key_index \<Rightarrow> key_index" where
  "key_index_free index = index_empty"

text \<open>The entry for a key, occupied or vacant: its slot's index; \<open>None\<close> is NULL.\<close>

definition vacant_entry :: "64 word \<Rightarrow> byte list \<Rightarrow> nat \<Rightarrow> key_index \<Rightarrow> key_index" where
  "vacant_entry h key at index =
     index\<lparr>ki_slots := (ki_slots index)[at := (ki_slots index ! at)\<lparr>ks_hash := h, ks_len := length key\<rparr>]\<rparr>"

definition key_index_entry :: "host \<Rightarrow> (nat \<Rightarrow> bool) \<Rightarrow> key_index \<Rightarrow> byte list \<Rightarrow> nat option \<times> key_index" where
  "key_index_entry host grant index key =
     (let h = hash_key host key;
          (ok, index) = (if ki_capacity index = 0 then key_index_reserve grant index 1 else (True, index))
      in if \<not> ok then (None, index)
         else case find_key_slot (ki_slots index) h key of
                None \<Rightarrow> (None, index)
              | Some at \<Rightarrow>
                  if ks_key (ki_slots index ! at) \<noteq> None then (Some at, index)
                  else if ki_size index + 1 > ki_capacity index div 2 then
                    let (ok, index) = key_index_reserve grant index (ki_size index + 1)
                    in if \<not> ok then (None, index)
                       else (case find_key_slot (ki_slots index) h key of
                              None \<Rightarrow> (None, index)
                            | Some at \<Rightarrow> (Some at, vacant_entry h key at index))
                  else (Some at, vacant_entry h key at index))"

definition key_index_commit :: "key_index \<Rightarrow> nat \<Rightarrow> byte list \<Rightarrow> key_index" where
  "key_index_commit index at key =
     \<lparr>ki_slots = (ki_slots index)[at := (ki_slots index ! at)\<lparr>ks_key := Some key\<rparr>], ki_size = ki_size index + 1\<rparr>"

definition key_index_find :: "host \<Rightarrow> key_index \<Rightarrow> byte list \<Rightarrow> nat option" where
  "key_index_find host index key =
     (if ki_capacity index = 0 then None
      else case find_key_slot (ki_slots index) (hash_key host key) key of
             None \<Rightarrow> None
           | Some at \<Rightarrow> if ks_key (ki_slots index ! at) = None then None else Some at)"

text \<open>\<open>(j - i) & mask\<close> on \<open>size_t\<close>.\<close>

definition sub_mask :: "nat \<Rightarrow> nat \<Rightarrow> nat \<Rightarrow> nat" where
  "sub_mask j i m = (j + 2 ^ 64 - i) AND m"

partial_function (option) remove_loop :: "ki_slot list \<Rightarrow> nat \<Rightarrow> nat \<Rightarrow> (ki_slot list \<times> nat) option" where
  "remove_loop slots hole at =
     (if ks_key (slots ! at) = None then Some (slots, hole)
      else if sub_mask at (unat (ks_hash (slots ! at)) AND (length slots - 1)) (length slots - 1)
              \<ge> sub_mask at hole (length slots - 1)
      then remove_loop (slots[hole := slots ! at]) at ((at + 1) AND (length slots - 1))
      else remove_loop slots hole ((at + 1) AND (length slots - 1)))"

definition key_index_remove :: "key_index \<Rightarrow> nat \<Rightarrow> key_index option" where
  "key_index_remove index at =
     (case remove_loop (ki_slots index) at ((at + 1) AND (ki_capacity index - 1)) of
        None \<Rightarrow> None
      | Some (slots, hole) \<Rightarrow> Some \<lparr>ki_slots = slots[hole := vacant], ki_size = ki_size index - 1\<rparr>)"

subsection \<open>The slots as a probed table\<close>

definition view :: "ki_slot list \<Rightarrow> ki_slot option list" where
  "view slots = map (\<lambda>s. if ks_key s = None then None else Some s) slots"

definition slot_key :: "ki_slot \<Rightarrow> byte list" where
  "slot_key s = the (ks_key s)"

definition slot_valid :: "host \<Rightarrow> ki_slot \<Rightarrow> bool" where
  "slot_valid host s \<longleftrightarrow> ks_key s \<noteq> None \<and> ks_len s = length (slot_key s) \<and> ks_hash s = hash_key host (slot_key s)"

interpretation ki: probed slot_key ks_hash "hash_key host" "slot_valid host" for host
  by unfold_locales (simp add: slot_valid_def)

lemma length_view [simp]: "length (view slots) = length slots"
  by (simp add: view_def)

lemma nth_view: "i < length slots \<Longrightarrow> view slots ! i = (if ks_key (slots ! i) = None then None else Some (slots ! i))"
  by (simp add: view_def)

lemma view_update: "view (slots[i := s]) = (view slots)[i := if ks_key s = None then None else Some s]"
  by (simp add: view_def map_update)

lemma view_vacant [simp]: "view (replicate n vacant) = replicate n None"
  by (simp add: view_def vacant_def)

lemma view_None: "i < length slots \<Longrightarrow> view slots ! i = None \<longleftrightarrow> ks_key (slots ! i) = None"
  by (simp add: nth_view)

lemma view_Some: "i < length slots \<Longrightarrow> view slots ! i = Some s \<longleftrightarrow> s = slots ! i \<and> ks_key s \<noteq> None"
  by (auto simp: nth_view)

lemma slot_is_valid: "slot_valid host s \<Longrightarrow> slot_is (hash_key host k) k s \<longleftrightarrow> slot_key s = k"
  by (auto simp: slot_is_def slot_valid_def slot_key_def)

text \<open>The loop finds the slot where the probe stops: enough probes are left to meet an empty slot.\<close>

lemma find_loop_stops:
  assumes ok: "ki.table_ok host (view slots)" and n: "length slots = 2 ^ b"
    and e: "e < length slots" "view slots ! e = None"
    and w: "ki.walked host (view slots) k at" and left: "cyc (length slots) at e < probes"
  shows "\<exists>p. find_key_loop probes slots (hash_key host k) k at = Some p \<and> ki.stop host (view slots) k p"
  using w left
proof (induction probes arbitrary: at)
  case (Suc probes)
  have at: "at < length slots" using Suc.prems(1) by (simp add: ki.walked_def)
  show ?case
  proof (cases "ks_key (slots ! at) = None \<or> slot_is (hash_key host k) k (slots ! at)")
    case True
    then have "view slots ! at = None \<or> (\<exists>s. view slots ! at = Some s \<and> slot_key s = k)"
      using ki.table_valid [OF ok, of at "slots ! at"] at slot_is_valid [of host "slots ! at" k]
      by (auto simp: nth_view)
    then show ?thesis using True ki.walked_stop [OF Suc.prems(1)] by simp
  next
    case False
    then have s: "view slots ! at = Some (slots ! at)" using at by (simp add: nth_view)
    then have "slot_key (slots ! at) \<noteq> k"
      using False ki.table_valid [OF ok, of at] at slot_is_valid [of host "slots ! at" k] by simp
    note step = ki.walked_step [OF Suc.prems(1) s this, of e]
    have "(at + 1) AND (length slots - 1) = succ_slot (length slots) at"
      using mask_is_mod [OF n] succ_is_mod [OF at] by simp
    then show ?thesis using False Suc.IH [of "succ_slot (length slots) at"] step e Suc.prems(2) by auto
  qed
qed simp

lemma find_key_slot_stops:
  assumes ok: "ki.table_ok host (view slots)" and n: "length slots = 2 ^ b"
  obtains p where "find_key_slot slots (hash_key host k) k = Some p" and "ki.stop host (view slots) k p"
proof -
  obtain e where e: "e < length slots" "view slots ! e = None"
    using ok unfolding ki.table_ok_def by auto
  have h: "unat (hash_key host k) AND (length slots - 1) = ki.home host (length slots) k"
    by (simp only: mask_is_mod [OF n] ki.home_def)
  have "ki.walked host (view slots) k (ki.home host (length slots) k)"
    using ki.home_less [OF e(1)] by (simp add: ki.walked_def)
  from find_loop_stops [OF ok n e this cyc_less [OF ki.home_less [OF e(1)] e(1)]] show thesis
    using that by (auto simp: find_key_slot_def h simp del: One_nat_def)
qed

subsection \<open>The invariant and the map an index holds\<close>

definition key_index_ok :: "host \<Rightarrow> key_index \<Rightarrow> bool" where
  "key_index_ok host index \<longleftrightarrow>
     (ki_slots index = [] \<and> ki_size index = 0 \<or>
      (\<exists>b. length (ki_slots index) = 2 ^ b \<and> b \<le> 64) \<and> ki.table_ok host (view (ki_slots index)) \<and>
      ki_size index = taken (view (ki_slots index)) \<and> 2 * ki_size index \<le> length (ki_slots index))"

definition payload :: "ki_slot \<Rightarrow> 32 word \<times> nat" where
  "payload s = (ks_extra s, ks_value s)"

definition index_map :: "key_index \<Rightarrow> byte list \<Rightarrow> (32 word \<times> nat) option" where
  "index_map index key = map_option payload (ki.table_map (view (ki_slots index)) key)"

lemma capacity_loop_spec:
  "capacity_loop n c = Some c' \<Longrightarrow> 2 * n \<le> c' \<and> c \<le> c' \<and> (\<exists>j. c' = c * 2 ^ j)"
proof (induction n c rule: capacity_loop.induct)
  case (1 n c)
  show ?case
  proof (cases "c < n * 2")
    case True
    then have r: "c \<noteq> 0 \<and> c \<le> SIZE_MAX div 2" "capacity_loop n (c * 2) = Some c'"
      using 1(2) by (auto simp: capacity_loop.simps [of n c] split: if_splits)
    then have "2 * n \<le> c' \<and> c * 2 \<le> c' \<and> (\<exists>j. c' = c * 2 * 2 ^ j)"
      using 1(1) True by auto
    then obtain j where j: "2 * n \<le> c'" "c * 2 \<le> c'" "c' = c * 2 * 2 ^ j" by blast
    then have "c' = c * 2 ^ Suc j" by simp
    then show ?thesis using j by (intro conjI exI [of _ "Suc j"]) simp_all
  next
    case False
    then have "c' = c" "2 * n \<le> c" using 1(2) by (simp_all add: capacity_loop.simps [of n c])
    then show ?thesis by (auto intro: exI [of _ 0])
  qed
qed

lemma S_capacity_for_spec:
  assumes "S_capacity_for n = Some c"
  shows "2 * n \<le> c" and "16 \<le> c" and "\<exists>b \<le> 64. c = 2 ^ b"
proof -
  have l: "capacity_loop n 16 = Some c" and m: "c \<le> SIZE_MAX div 32"
    using assms by (auto simp: S_capacity_for_def KEY_INDEX_MIN_CAPACITY_def split: if_splits option.splits)
  show "2 * n \<le> c" "16 \<le> c" using capacity_loop_spec [OF l] by auto
  obtain j where "c = 16 * 2 ^ j" using capacity_loop_spec [OF l] by blast
  then have c: "c = 2 ^ (4 + j)" by (simp add: power_add)
  have "(2::nat) ^ (4 + j) < 2 ^ 64" using m c by (simp add: SIZE_MAX_def)
  then have "4 + j < 64" by (rule power_less_imp_less_exp [rotated]) simp
  then show "\<exists>b \<le> 64. c = 2 ^ b" using c by (intro exI [of _ "4 + j"]) simp
qed

subsection \<open>Rehashing\<close>

lemma view_Cons: "view (s # rest) = (if ks_key s = None then None else Some s) # view rest"
  by (simp add: view_def)

lemma rehash_moves_all:
  assumes "ki.fits host (view src) (view dest)" and "length dest = 2 ^ b"
  shows "\<exists>r. rehash_loop src dest = Some r \<and> length r = length dest \<and> ki.table_ok host (view r) \<and>
    taken (view r) = taken (view dest) + taken (view src) \<and>
    ki.table_map (view r) = ki.table_map (view src) ++ ki.table_map (view dest)"
  using assms
proof (induction src arbitrary: dest)
  case Nil
  then show ?case by (simp add: view_def ki.fits_ok taken_def)
next
  case (Cons s rest)
  show ?case
  proof (cases "ks_key s")
    case None
    then show ?thesis using Cons by (simp add: view_Cons taken_def)
  next
    case (Some k)
    then have v: "view (s # rest) = Some s # view rest" by (simp add: view_Cons)
    note f = Cons.prems(1) [unfolded v]
    have h: "ks_hash s = hash_key host (slot_key s)" and k: "slot_key s = k"
      using ki.fits_valid [OF f] Some by (simp_all add: slot_valid_def slot_key_def)
    obtain p where p: "find_key_slot dest (hash_key host k) k = Some p" "ki.stop host (view dest) (slot_key s) p"
      using find_key_slot_stops [OF ki.fits_ok [OF f] Cons.prems(2), of k] k by metis
    have vu: "view (dest[p := s]) = (view dest)[p := Some s]" using Some by (simp add: view_update)
    note st = ki.fits_step [OF f p(2), folded vu]
    from Cons.IH [OF st(1)] show ?thesis
      using st Cons.prems(2) Some p(1) h k by (auto simp: v taken_def)
  qed
qed

lemma rehash_ok:
  assumes ok: "ki.table_ok host (view slots) \<or> slots = []" and c: "c = 2 ^ b" "taken (view slots) < c"
  obtains r where "rehash_loop slots (replicate c vacant) = Some r" and "length r = c" and "ki.table_ok host (view r)"
    and "taken (view r) = taken (view slots)" and "ki.table_map (view r) = ki.table_map (view slots)"
proof -
  have "ki.table_ok host (view slots) \<or> view slots = []" using ok by (auto simp: view_def)
  from ki.fits_start [OF this c(2)] have "ki.fits host (view slots) (view (replicate c vacant))" by simp
  from rehash_moves_all [OF this] show thesis
    using that c by (auto simp: ki.table_map_empty)
qed

subsection \<open>Room\<close>

lemma key_index_okD:
  assumes "key_index_ok host index" and "ki_slots index \<noteq> []"
  shows "\<exists>b \<le> 64. length (ki_slots index) = 2 ^ b" and "ki.table_ok host (view (ki_slots index))"
    and "ki_size index = taken (view (ki_slots index))" and "2 * ki_size index \<le> length (ki_slots index)"
  using assms by (auto simp: key_index_ok_def)

lemma ok_size: "key_index_ok host index \<Longrightarrow> ki_size index = taken (view (ki_slots index))"
  by (auto simp: key_index_ok_def taken_def view_def)

text \<open>Reserving keeps the map, and makes room when it answers so.\<close>

lemma reserve_keeps:
  assumes ok: "key_index_ok host index" and r: "key_index_reserve grant index n = (done, index')"
  shows "key_index_ok host index' \<and> index_map index' = index_map index \<and> ki_size index' = ki_size index \<and>
    (if done then 0 < n \<longrightarrow> 2 * n \<le> length (ki_slots index') \<and> 16 \<le> length (ki_slots index') else index' = index)"
proof (cases "\<exists>c. S_capacity_for n = Some c \<and> length (ki_slots index) < c \<and> n \<noteq> 0 \<and> done")
  case False
  then have "index' = index" using r
    by (auto simp: key_index_reserve_def ki_capacity_def S_rehash_def not_le split: if_splits option.splits)
  moreover have "2 * n \<le> length (ki_slots index) \<and> 16 \<le> length (ki_slots index)" if n: "done" "0 < n"
  proof -
    obtain c where c: "S_capacity_for n = Some c" "c \<le> length (ki_slots index)"
      using r n False by (auto simp: key_index_reserve_def ki_capacity_def split: if_splits option.splits)
    show ?thesis using S_capacity_for_spec [OF c(1)] c(2) by linarith
  qed
  ultimately show ?thesis using ok by simp
next
  case True
  then obtain c where c: "S_capacity_for n = Some c" "length (ki_slots index) < c" and d: "n \<noteq> 0" "done" by blast
  then obtain r' where r': "rehash_loop (ki_slots index) (replicate c vacant) = Some r'"
    and i: "index' = index\<lparr>ki_slots := r'\<rparr>"
    using r by (auto simp: key_index_reserve_def ki_capacity_def S_rehash_def split: if_splits option.splits)
  obtain b where b: "b \<le> 64" "c = 2 ^ b" using S_capacity_for_spec(3) [OF c(1)] by blast
  have t: "ki.table_ok host (view (ki_slots index)) \<or> ki_slots index = []" using ok by (auto simp: key_index_ok_def)
  have room: "2 * taken (view (ki_slots index)) \<le> length (ki_slots index)"
    using ok by (auto simp: key_index_ok_def taken_def view_def)
  then have "taken (view (ki_slots index)) < c" using c(2) by linarith
  from rehash_ok [OF t b(2) this] obtain x where x: "rehash_loop (ki_slots index) (replicate c vacant) = Some x"
    "length x = c" "ki.table_ok host (view x)" "taken (view x) = taken (view (ki_slots index))"
    "ki.table_map (view x) = ki.table_map (view (ki_slots index))" by blast
  then have e: "x = r'" using r' by simp
  have "ki_size index = taken (view x)" using ok_size [OF ok] x(4) by simp
  then have "key_index_ok host index'"
    using x(2-4) b c(2) room i e by (auto simp: key_index_ok_def)
  then show ?thesis using x i e d S_capacity_for_spec [OF c(1)] by (simp add: index_map_def fun_eq_iff)
qed

subsection \<open>Finding\<close>

lemma find_is_map:
  assumes ok: "key_index_ok host index" and ne: "ki_slots index \<noteq> []"
  obtains at where "find_key_slot (ki_slots index) (hash_key host k) k = Some at" and "at < length (ki_slots index)"
    and "ki.stop host (view (ki_slots index)) k at"
    and "index_map index k = (if ks_key (ki_slots index ! at) = None then None else Some (payload (ki_slots index ! at)))"
proof -
  obtain b where b: "length (ki_slots index) = 2 ^ b" using key_index_okD(1) [OF ok ne] by blast
  note t = key_index_okD(2) [OF ok ne]
  from find_key_slot_stops [OF t b] obtain p where p: "find_key_slot (ki_slots index) (hash_key host k) k = Some p"
    "ki.stop host (view (ki_slots index)) k p" by blast
  have pn: "p < length (ki_slots index)" using p(2) by (simp add: ki.stop_def)
  have "index_map index k = map_option payload (view (ki_slots index) ! p)"
    by (simp add: index_map_def ki.stop_finds [OF t p(2)])
  then show thesis using that p pn by (auto simp: nth_view)
qed

lemma find_lookup:
  assumes "key_index_ok host index"
  shows "map_option (\<lambda>at. payload (ki_slots index ! at)) (key_index_find host index key) = index_map index key"
proof (cases "ki_slots index = []")
  case True
  then show ?thesis by (simp add: key_index_find_def ki_capacity_def index_map_def view_def ki.table_map_def ki.entries_def)
next
  case False
  from find_is_map [OF assms False, of key] obtain at where
    "find_key_slot (ki_slots index) (hash_key host key) key = Some at"
    "index_map index key = (if ks_key (ki_slots index ! at) = None then None else Some (payload (ki_slots index ! at)))" .
  then show ?thesis using False by (simp add: key_index_find_def ki_capacity_def)
qed

text \<open>
  C25: In an index that is in order, finding a key answers the slot that holds it when the map
  the index stands for has the key, and NULL otherwise: no occupied key is missed, whatever
  keys collide with it.
\<close>

theorem key_index_find_is_lookup:
  assumes "key_index_ok host index"
  shows "map_option (\<lambda>at. payload (ki_slots index ! at)) (key_index_find host index key) = index_map index key"
  using assms by (rule find_lookup)

subsection \<open>Entering\<close>

text \<open>What the caller of \<open>key_index_entry\<close> writes in the slot it is given.\<close>

definition write_entry :: "key_index \<Rightarrow> nat \<Rightarrow> 32 word \<Rightarrow> nat \<Rightarrow> key_index" where
  "write_entry index at e v =
     index\<lparr>ki_slots := (ki_slots index)[at := (ki_slots index ! at)\<lparr>ks_extra := e, ks_value := v\<rparr>]\<rparr>"

lemma slot_filled: "s\<lparr>ks_hash := h, ks_len := l, ks_extra := e, ks_value := v, ks_key := k\<rparr> =
    \<lparr>ks_hash = h, ks_key = k, ks_len = l, ks_extra = e, ks_value = v\<rparr>"
  by (cases s) simp

lemma commit_inserts:
  assumes ok: "key_index_ok host index" and fresh: "index_map index key = None"
    and at: "find_key_slot (ki_slots index) (hash_key host key) key = Some at"
    and room: "2 * (ki_size index + 1) \<le> length (ki_slots index)"
  shows "let index' = key_index_commit (write_entry (vacant_entry (hash_key host key) key at index) at e v) at key
         in key_index_ok host index' \<and> index_map index' = (index_map index)(key \<mapsto> (e, v))"
proof -
  have ne: "ki_slots index \<noteq> []" using room by auto
  from find_is_map [OF ok ne, of key] obtain at' where "find_key_slot (ki_slots index) (hash_key host key) key = Some at'"
    and a: "at' < length (ki_slots index)" "ki.stop host (view (ki_slots index)) key at'"
      "index_map index key = (if ks_key (ki_slots index ! at') = None then None else Some (payload (ki_slots index ! at')))" .
  then have ea: "at' = at" using at by simp
  define s where "s = \<lparr>ks_hash = hash_key host key, ks_key = Some key, ks_len = length key, ks_extra = e, ks_value = v\<rparr>"
  define index' where "index' = key_index_commit (write_entry (vacant_entry (hash_key host key) key at index) at e v) at key"
  have sl: "ki_slots index' = (ki_slots index)[at := s]" and sz: "ki_size index' = ki_size index + 1"
    using a(1) ea by (simp_all add: index'_def s_def key_index_commit_def write_entry_def vacant_entry_def slot_filled)
  have v: "view (ki_slots index') = (view (ki_slots index))[at := Some s]" by (simp add: sl view_update) (simp add: s_def)
  note t = key_index_okD [OF ok ne]
  have vac: "view (ki_slots index) ! at = None" using a ea fresh by (auto simp: nth_view split: if_splits)
  have sv: "slot_valid host s" "slot_key s = key" by (simp_all add: s_def slot_valid_def slot_key_def)
  have "\<exists>x < length (view (ki_slots index)). x \<noteq> at \<and> view (ki_slots index) ! x = None"
    using t(3) room a(1) vac ea by (intro taken_two) simp_all
  note ins = ki.stop_insert [OF t(2) a(2) [unfolded ea] sv this, folded v]
  have "taken (view (ki_slots index')) = taken (view (ki_slots index)) + 1"
    using a(1) vac ea by (simp add: v taken_insert)
  then have "key_index_ok host index'"
    using ins(1) t(1,3) sz room by (auto simp: key_index_ok_def) (simp_all add: sl)
  moreover have "index_map index' = (index_map index)(key \<mapsto> (e, v))"
    using ins(2) by (auto simp: index_map_def fun_eq_iff) (simp add: s_def payload_def)
  ultimately show ?thesis by (simp add: index'_def Let_def)
qed

text \<open>What the caller does with an entry: it writes the payload, and commits an entry that was vacant.\<close>

definition put_entry :: "key_index \<Rightarrow> nat \<Rightarrow> byte list \<Rightarrow> 32 word \<Rightarrow> nat \<Rightarrow> key_index" where
  "put_entry index at key e v =
     (if ks_key (ki_slots index ! at) = None then key_index_commit (write_entry index at e v) at key
      else write_entry index at e v)"

lemma write_replaces:
  assumes ok: "key_index_ok host index" and at: "key_index_find host index key = Some at"
  shows "key_index_ok host (write_entry index at e v) \<and>
    index_map (write_entry index at e v) = (index_map index)(key \<mapsto> (e, v))"
proof -
  have ne: "ki_slots index \<noteq> []" using at by (auto simp: key_index_find_def ki_capacity_def)
  from find_is_map [OF ok ne, of key] obtain at' where "find_key_slot (ki_slots index) (hash_key host key) key = Some at'"
    and a: "at' < length (ki_slots index)" "ki.stop host (view (ki_slots index)) key at'" by blast
  then have ea: "at' = at" and occ: "ks_key (ki_slots index ! at) \<noteq> None"
    using at ne by (simp_all add: key_index_find_def ki_capacity_def split: if_splits)
  define s where "s = (ki_slots index ! at)\<lparr>ks_extra := e, ks_value := v\<rparr>"
  have v: "view (ki_slots (write_entry index at e v)) = (view (ki_slots index))[at := Some s]"
    unfolding write_entry_def by (simp add: view_update flip: s_def) (simp add: s_def occ)
  note t = key_index_okD [OF ok ne]
  have old: "view (ki_slots index) ! at = Some (ki_slots index ! at)" using occ a(1) ea by (simp add: nth_view)
  then have "slot_valid host (ki_slots index ! at)" "slot_key (ki_slots index ! at) = key"
    using ki.table_valid [OF t(2), of at] a ea by (auto simp: ki.stop_def)
  then have sv: "slot_valid host s" "slot_key s = key"
    by (simp_all add: s_def slot_valid_def slot_key_def)
  have "view (ki_slots index) ! at = None \<Longrightarrow> \<exists>x < length (view (ki_slots index)). x \<noteq> at \<and> view (ki_slots index) ! x = None"
    using old by simp
  note ins = ki.stop_insert [OF t(2) a(2) [unfolded ea] sv this, folded v]
  have "taken (view (ki_slots (write_entry index at e v))) = taken (view (ki_slots index))"
    using a(1) ea old by (simp add: v taken_replace)
  then have "key_index_ok host (write_entry index at e v)"
    using ins(1) t by (auto simp: key_index_ok_def) (simp_all add: write_entry_def)
  moreover have "index_map (write_entry index at e v) = (index_map index)(key \<mapsto> (e, v))"
    using ins(2) by (auto simp: index_map_def fun_eq_iff) (simp add: s_def payload_def)
  ultimately show ?thesis by simp
qed

text \<open>\<open>key_index_entry\<close> answers NULL, the occupied entry, or a vacant one with room for the key.\<close>

lemma reserved:
  assumes "key_index_ok host index" and "(done, index') = (if ki_capacity index = 0 then key_index_reserve grant index 1 else (True, index))"
  shows "key_index_ok host index' \<and> index_map index' = index_map index \<and> ki_size index' = ki_size index \<and>
    (done \<longrightarrow> ki_slots index' \<noteq> [])"
proof (cases "ki_capacity index = 0")
  case True
  then show ?thesis using reserve_keeps [OF assms(1), of grant 1 "done" index'] assms(2) by (auto split: if_splits)
qed (use assms in \<open>auto simp: ki_capacity_def\<close>)

lemma entry_then_put:
  assumes ok: "key_index_ok host index" and r: "key_index_entry host grant index key = (found, index')"
  shows "case found of
      None \<Rightarrow> index_map index key = None \<and> key_index_ok host index' \<and> index_map index' = index_map index
    | Some at \<Rightarrow> key_index_ok host (put_entry index' at key e v) \<and>
        index_map (put_entry index' at key e v) = (index_map index)(key \<mapsto> (e, v))"
proof -
  obtain ok1 i1 where i1: "(ok1, i1) = (if ki_capacity index = 0 then key_index_reserve grant index 1 else (True, index))"
    by (metis surj_pair)
  note q1 = reserved [OF ok i1]
  show ?thesis
  proof (cases ok1)
    case False
    then have "ki_slots index = []" "found = None" "index' = i1"
      using i1 r by (auto simp: key_index_entry_def ki_capacity_def Let_def split: if_splits prod.splits)
    then show ?thesis using q1 by (simp add: index_map_def view_def ki.table_map_def ki.entries_def)
  next
    case True
    then have ne: "ki_slots i1 \<noteq> []" using q1 by blast
    have ok1': "key_index_ok host i1" using q1 by blast
    from find_is_map [OF ok1' ne, of key] obtain at where at: "find_key_slot (ki_slots i1) (hash_key host key) key = Some at"
      "index_map i1 key = (if ks_key (ki_slots i1 ! at) = None then None else Some (payload (ki_slots i1 ! at)))"
      "at < length (ki_slots i1)" .
    have r1: "(found, index') =
      (if ks_key (ki_slots i1 ! at) \<noteq> None then (Some at, i1)
       else if ki_size i1 + 1 > ki_capacity i1 div 2 then
         let (ok, index) = key_index_reserve grant i1 (ki_size i1 + 1)
         in if \<not> ok then (None, index)
            else case find_key_slot (ki_slots index) (hash_key host key) key of
                   None \<Rightarrow> (None, index)
                 | Some at \<Rightarrow> (Some at, vacant_entry (hash_key host key) key at index)
       else (Some at, vacant_entry (hash_key host key) key at i1))"
      using r i1 [symmetric] True at(1) unfolding key_index_entry_def Let_def by simp
    have fit: "2 * (ki_size i1 + 1) \<le> length (ki_slots i1)" if "\<not> ki_size i1 + 1 > ki_capacity i1 div 2"
      using that unfolding ki_capacity_def by presburger
    consider (occupied) "ks_key (ki_slots i1 ! at) \<noteq> None"
      | (fits) "ks_key (ki_slots i1 ! at) = None" "2 * (ki_size i1 + 1) \<le> length (ki_slots i1)"
      | (grow) "ks_key (ki_slots i1 ! at) = None" "ki_size i1 + 1 > ki_capacity i1 div 2"
      using fit by blast
    then show ?thesis
    proof cases
      case occupied
      then have f: "found = Some at" "index' = i1" using r1 by simp_all
      have "key_index_find host i1 key = Some at" using occupied at ne by (simp add: key_index_find_def ki_capacity_def)
      moreover have "put_entry i1 at key e v = write_entry i1 at e v"
        unfolding put_entry_def by (rule if_not_P [OF occupied])
      ultimately show ?thesis using write_replaces [OF ok1', of key at e v] f q1 by simp
    next
      case fits
      then have "\<not> ki_size i1 + 1 > ki_capacity i1 div 2" unfolding ki_capacity_def by presburger
      then have f: "found = Some at" "index' = vacant_entry (hash_key host key) key at i1"
        using r1 fits(1) by simp_all
      have fresh: "index_map i1 key = None" using fits at by simp
      from commit_inserts [OF ok1' fresh at(1) fits(2), of e v] show ?thesis
        using f fits(1) at(3) q1 by (simp add: put_entry_def vacant_entry_def Let_def)
    next
      case grow
      obtain ok2 i2 where i2: "key_index_reserve grant i1 (ki_size i1 + 1) = (ok2, i2)" by (metis surj_pair)
      note q2 = reserve_keeps [OF ok1' i2]
      have fresh: "index_map i2 key = None" using grow at q2 by simp
      show ?thesis
      proof (cases ok2)
        case False
        then have "found = None" "index' = i2" using r1 grow i2 by simp_all
        then show ?thesis using q1 q2 fresh by simp
      next
        case True
        then have room: "2 * (ki_size i2 + 1) \<le> length (ki_slots i2)" using q2 by simp
        then have ne2: "ki_slots i2 \<noteq> []" by auto
        have ok2': "key_index_ok host i2" using q2 by blast
        from find_is_map [OF ok2' ne2, of key] obtain at2 where
          at2: "find_key_slot (ki_slots i2) (hash_key host key) key = Some at2" "at2 < length (ki_slots i2)"
            "index_map i2 key = (if ks_key (ki_slots i2 ! at2) = None then None else Some (payload (ki_slots i2 ! at2)))" .
        then have f: "found = Some at2" "index' = vacant_entry (hash_key host key) key at2 i2"
          using r1 grow i2 True by simp_all
        have "ks_key (ki_slots i2 ! at2) = None" using at2(3) fresh by (auto split: if_splits)
        with commit_inserts [OF ok2' fresh at2(1) room, of e v] show ?thesis
          using f at2(2) q1 q2 by (simp add: put_entry_def vacant_entry_def Let_def)
      qed
    qed
  qed
qed

text \<open>
  C13: Entering a key, writing a payload in the entry and committing it when it was vacant keeps
  the index in order and updates its map at that key alone, through any growth on the way.  When
  the allocator refuses, the entry is NULL, only for a key the index has not, and the index is in
  order with the map it had.
\<close>

theorem key_index_put_updates:
  assumes "key_index_ok host index" and "key_index_entry host grant index key = (found, index')"
  shows "case found of
      None \<Rightarrow> index_map index key = None \<and> key_index_ok host index' \<and> index_map index' = index_map index
    | Some at \<Rightarrow> key_index_ok host (put_entry index' at key e v) \<and>
        index_map (put_entry index' at key e v) = (index_map index)(key \<mapsto> (e, v))"
  using assms by (rule entry_then_put)

text \<open>An index to apply the theorems to: the empty one after a key was put in it.\<close>

lemma find_at_home:
  assumes "p = unat h AND (length slots - 1)" and "slots \<noteq> []" and "ks_key (slots ! p) = None"
  shows "find_key_slot slots h key = Some p"
  using assms by (cases "length slots") (simp_all add: find_key_slot_def)

lemma entry_in_empty: "\<exists>at index. key_index_entry host (\<lambda>_. True) index_empty key = (Some at, index)"
proof -
  have c: "S_capacity_for 1 = Some 16"
    by (simp add: S_capacity_for_def KEY_INDEX_MIN_CAPACITY_def SIZE_MAX_def capacity_loop.simps)
  then have r: "key_index_reserve (\<lambda>_. True) index_empty 1 = (True, \<lparr>ki_slots = replicate 16 vacant, ki_size = 0\<rparr>)"
    by (simp add: key_index_reserve_def ki_capacity_def S_rehash_def index_empty_def)
  have "unat (hash_key host key) AND 15 < 16" using mask_is_mod [of 16 4 "unat (hash_key host key)"] by simp
  then have "find_key_slot (replicate 16 vacant) (hash_key host key) key = Some (unat (hash_key host key) AND 15)"
    by (intro find_at_home) (simp_all add: vacant_def)
  then show ?thesis using r
    by (simp add: key_index_entry_def Let_def ki_capacity_def) (simp add: index_empty_def)
qed

lemma index_empty_ok: "key_index_ok host index_empty" and index_map_empty: "index_map index_empty = Map.empty"
  by (auto simp: key_index_ok_def index_empty_def index_map_def view_def ki.table_map_def)

lemma one_key_index: "\<exists>index. key_index_ok host index \<and> index_map index = [key \<mapsto> (e, v)]"
proof -
  obtain at index where r: "key_index_entry host (\<lambda>_. True) index_empty key = (Some at, index)"
    using entry_in_empty by blast
  from entry_then_put [OF index_empty_ok r, of e v] show ?thesis by (auto simp: index_map_empty)
qed

theorem key_index_put_updates_witness:
  "\<exists>at index. key_index_entry (\<lambda>_. 0) (\<lambda>_. True) index_empty [7] = (Some at, index) \<and>
     index_map (put_entry index at [7] 1 2) = [[7] \<mapsto> (1, 2)]"
proof -
  obtain at index where r: "key_index_entry (\<lambda>_. 0) (\<lambda>_. True) index_empty [7] = (Some at, index)"
    using entry_in_empty by blast
  from key_index_put_updates [OF index_empty_ok r, of 1 2] r show ?thesis by (auto simp: index_map_empty)
qed

text \<open>The lookup theorem, on an index with an entry: the key it holds and one it does not.\<close>

theorem key_index_find_is_lookup_witness:
  "\<exists>index. key_index_find (\<lambda>_. 0) index [7] \<noteq> None \<and> key_index_find (\<lambda>_. 0) index [8] = None"
proof -
  obtain index where i: "key_index_ok (\<lambda>_. 0) index" "index_map index = [[7] \<mapsto> (1, 2)]"
    using one_key_index by blast
  show ?thesis
    using key_index_find_is_lookup [OF i(1), of "[7]"] key_index_find_is_lookup [OF i(1), of "[8]"] i(2)
    by (intro exI [of _ index]) auto
qed

subsection \<open>Removing\<close>

text \<open>
  The loop, over the table with the hole cleared, which the code does at the end: it returns, and
  leaves a table in order with the same map.
\<close>

lemma remove_loop_repairs:
  assumes n: "length slots = 2 ^ b" "b \<le> 64"
    and h: "ki.hole_ok host ((view slots)[hole := None]) hole at e"
  shows "\<exists>slots' hole'. remove_loop slots hole at = Some (slots', hole') \<and> length slots' = length slots \<and>
    hole' < length slots \<and> ki.table_ok host ((view slots')[hole' := None]) \<and>
    taken ((view slots')[hole' := None]) = taken ((view slots)[hole := None]) \<and>
    ki.table_map ((view slots')[hole' := None]) = ki.table_map ((view slots)[hole := None])"
  using n(1) h
proof (induction "cyc (length slots) at e" arbitrary: slots hole at rule: less_induct)
  case less
  let ?n = "length slots" and ?t = "(view slots)[hole := None]"
  have b: "hole < ?n" "at < ?n" "at \<noteq> hole" using less.prems(2) by (simp_all add: ki.hole_ok_def)
  show ?case
  proof (cases "ks_key (slots ! at)")
    case None
    then have "?t ! at = None" using b by (simp add: nth_view)
    from ki.hole_end [OF less.prems(2) this] show ?thesis
      using None b by (simp add: remove_loop.simps [of slots hole at])
  next
    case (Some k)
    then have s: "?t ! at = Some (slots ! at)" using b by (simp add: nth_view)
    have nx: "(at + 1) AND (?n - 1) = succ_slot ?n at"
      using mask_is_mod [OF less.prems(1)] succ_is_mod [OF b(2)] by simp
    have "slot_valid host (slots ! at)" using less.prems(2) s b(2) unfolding ki.hole_ok_def by simp
    then have hm: "unat (ks_hash (slots ! at)) AND (?n - 1) = ki.home host ?n (slot_key (slots ! at))"
      by (simp only: mask_is_mod [OF less.prems(1)] ki.home_def slot_valid_def)
    have hl: "ki.home host ?n (slot_key (slots ! at)) < ?n" using b(1) by (rule ki.home_less)
    have sub: "sub_mask at i (?n - 1) = cyc ?n i at" if "i < ?n" for i
      unfolding sub_mask_def by (rule sub_mask_is_cyc [OF less.prems(1) n(2) that b(2)])
    show ?thesis
    proof (cases "cyc ?n (ki.home host ?n (slot_key (slots ! at))) at < cyc ?n hole at")
      case True
      then have u: "remove_loop slots hole at = remove_loop slots hole (succ_slot ?n at)"
        using Some sub [OF hl] sub [OF b(1)]
        by (subst remove_loop.simps) (simp del: One_nat_def add: hm nx)
      note st = ki.hole_stay [OF less.prems(2) s, simplified, OF True]
      then show ?thesis using less.hyps [of slots "succ_slot ?n at" hole] less.prems(1) u by simp
    next
      case False
      let ?s = "slots[hole := slots ! at]"
      have u: "remove_loop slots hole at = remove_loop ?s at (succ_slot ?n at)"
        using False Some sub [OF hl] sub [OF b(1)]
        by (subst remove_loop.simps) (simp del: One_nat_def add: hm nx)
      have v: "(view ?s)[at := None] = ?t[hole := Some (slots ! at), at := None]"
        using Some by (simp add: view_update)
      note mv = ki.hole_move [OF less.prems(2) s, simplified, OF False]
      note tk = ki.hole_move_taken [OF less.prems(2) s]
      have "ki.hole_ok host ((view ?s)[at := None]) at (succ_slot ?n at) e" using mv(1) by (simp add: v)
      from less.hyps [of ?s "succ_slot ?n at" at, OF _ _ this] show ?thesis
        using mv tk less.prems(1) u by (simp add: v)
    qed
  qed
qed

text \<open>
  C24: Removing an occupied entry returns, keeps the index in order and takes exactly that entry's
  key out of the map: every other entry stays findable, wherever it has moved to.
\<close>

theorem key_index_remove_deletes:
  assumes ok: "key_index_ok host index" and at: "key_index_find host index key = Some at"
  shows "\<exists>index'. key_index_remove index at = Some index' \<and> key_index_ok host index' \<and>
    index_map index' = (index_map index)(key := None)"
proof -
  have ne: "ki_slots index \<noteq> []" using at by (auto simp: key_index_find_def ki_capacity_def)
  from find_is_map [OF ok ne, of key] obtain at' where "find_key_slot (ki_slots index) (hash_key host key) key = Some at'"
    and a: "at' < length (ki_slots index)" "ki.stop host (view (ki_slots index)) key at'" .
  then have ea: "at' = at" and occ: "ks_key (ki_slots index ! at) \<noteq> None"
    using at ne by (simp_all add: key_index_find_def ki_capacity_def split: if_splits)
  let ?n = "length (ki_slots index)" and ?t = "view (ki_slots index)"
  note t = key_index_okD [OF ok ne]
  then obtain b where b: "?n = 2 ^ b" "b \<le> 64" by blast
  have s: "?t ! at = Some (ki_slots index ! at)" using occ a(1) ea by (simp add: nth_view)
  then have k: "slot_key (ki_slots index ! at) = key" using a ea by (auto simp: ki.stop_def)
  have pn: "at < ?n" using a ea by simp
  obtain e where h: "ki.hole_ok host (?t[at := None]) at (succ_slot ?n at) e"
    using ki.hole_start [OF t(2) _ s] pn by auto
  from remove_loop_repairs [OF b h] obtain slots' hole' where r:
    "remove_loop (ki_slots index) at (succ_slot ?n at) = Some (slots', hole')" "length slots' = ?n" "hole' < ?n"
    "ki.table_ok host ((view slots')[hole' := None])"
    "taken ((view slots')[hole' := None]) = taken (?t[at := None])"
    "ki.table_map ((view slots')[hole' := None]) = ki.table_map (?t[at := None])" by blast
  have nx: "(at + 1) AND (?n - 1) = succ_slot ?n at"
    using mask_is_mod [OF b(1)] succ_is_mod [OF pn] by simp
  define index' where "index' = \<lparr>ki_slots = slots'[hole' := vacant], ki_size = ki_size index - 1\<rparr>"
  have rm: "key_index_remove index at = Some index'"
    using r(1) by (simp add: key_index_remove_def ki_capacity_def nx index'_def del: One_nat_def)
  have v: "view (ki_slots index') = (view slots')[hole' := None]"
    by (simp add: index'_def view_update) (simp add: vacant_def)
  have "taken (?t[at := None]) + 1 = taken ?t" using pn s by (intro taken_remove) simp_all
  then have "ki_size index' = taken (view (ki_slots index'))" "2 * ki_size index' \<le> ?n"
    using r(5) t(3,4) by (simp_all add: v) (simp_all add: index'_def)
  moreover have "length (ki_slots index') = ?n" using r(2) by (simp add: index'_def)
  moreover have "ki.table_ok host (view (ki_slots index'))" using r(4) by (simp only: v)
  ultimately have okI: "key_index_ok host index'"
    unfolding key_index_ok_def using b by (intro disjI2 conjI exI [of _ b]) simp_all
  have uq: "ki.unique ?t" using t(2) by (simp add: ki.table_ok_def)
  have "index_map index' = (index_map index)(key := None)"
    using ki.table_map_remove [OF uq _ s] pn by (simp add: index_map_def v r(6) k fun_eq_iff)
  then show ?thesis using rm okI by blast
qed

theorem key_index_remove_deletes_witness:
  "\<exists>index at index'. key_index_find (\<lambda>_. 0) index [7] = Some at \<and> key_index_remove index at = Some index' \<and>
     index_map index [7] = Some (1, 2) \<and> index_map index' = Map.empty"
proof -
  obtain index where i: "key_index_ok (\<lambda>_. 0) index" "index_map index = [[7] \<mapsto> (1, 2)]"
    using one_key_index by blast
  then obtain at where at: "key_index_find (\<lambda>_. 0) index [7] = Some at"
    using find_lookup [OF i(1), of "[7]"] by auto
  from key_index_remove_deletes [OF i(1) at] obtain index' where
    r: "key_index_remove index at = Some index'" "index_map index' = (index_map index)([7] := None)" by blast
  have "index_map index [7] = Some (1, 2)" "index_map index' = Map.empty" using r(2) i(2) by simp_all
  with at r(1) show ?thesis by blast
qed

end
