(* ===== verification/KeyOrder.thy ===== *)
theory KeyOrder
  imports Prelude "HOL-Library.List_Lexorder"
begin

text \<open>
  core/map.h, the order of keyed entries.  An entry holds the first eight bytes of its key as a
  number, the head, and the key's length; the bytes are read only past the eighth, so an entry of
  a short key may have none.  Comparing two entries compares their keys in byte order.
\<close>

record key_entry =
  en_head :: "64 word"
  en_key :: "byte list"
  en_len :: nat
  en_extra :: "32 word"
  en_value :: "nat option"

text \<open>The loop that shifts the bytes in.\<close>

fun head_loop :: "64 word \<Rightarrow> byte list \<Rightarrow> 64 word" where
  "head_loop head [] = head"
| "head_loop head (b # bs) = head_loop (push_bit 8 head OR ucast b) bs"

definition key_head :: "byte list \<Rightarrow> 64 word" where
  "key_head key =
     (let bytes = (if length key < 8 then length key else 8)
      in if bytes \<noteq> 0 then push_bit (8 * (8 - bytes)) (head_loop 0 (take bytes key)) else 0)"

definition key_number :: "32 word \<Rightarrow> key_entry" where
  "key_number number = \<lparr>en_head = push_bit 32 (ucast number), en_key = [], en_len = 4, en_extra = number, en_value = None\<rparr>"

text \<open>\<open>memcmp\<close> of two ranges of one length, and \<open>(m > n) - (m < n)\<close>.\<close>

definition byte_order :: "byte list \<Rightarrow> byte list \<Rightarrow> int" where
  "byte_order xs ys = (if xs < ys then -1 else if xs = ys then 0 else 1)"

definition length_order :: "nat \<Rightarrow> nat \<Rightarrow> int" where
  "length_order m n = (if m > n then 1 else 0) - (if m < n then 1 else 0)"

definition key_tie_order :: "key_entry \<Rightarrow> key_entry \<Rightarrow> int" where
  "key_tie_order a b =
     (if en_len a \<le> 8 \<or> en_len b \<le> 8 then length_order (en_len a) (en_len b)
      else let common = (if en_len a < en_len b then en_len a else en_len b) - 8;
               order = byte_order (take common (drop 8 (en_key a))) (take common (drop 8 (en_key b)))
           in if order \<noteq> 0 then order else length_order (en_len a) (en_len b))"

definition key_before :: "key_entry \<Rightarrow> key_entry \<Rightarrow> bool" where
  "key_before a b \<longleftrightarrow> (if en_head a \<noteq> en_head b then en_head a < en_head b else key_tie_order a b < 0)"

definition key_same :: "key_entry \<Rightarrow> key_entry \<Rightarrow> bool" where
  "key_same a b \<longleftrightarrow> en_head a = en_head b \<and> key_tie_order a b = 0"

subsection \<open>The key an entry stands for\<close>

text \<open>An entry of a key: its head, its length and, when the head does not hold it all, its bytes.\<close>

definition entry_of :: "byte list \<Rightarrow> key_entry \<Rightarrow> bool" where
  "entry_of key e \<longleftrightarrow> en_head e = key_head key \<and> en_len e = length key \<and> (8 < length key \<longrightarrow> en_key e = key)"

definition pad :: "nat \<Rightarrow> byte list \<Rightarrow> byte list" where
  "pad n xs = take n xs @ replicate (n - length xs) 0"

definition big_endian :: "byte list \<Rightarrow> nat" where
  "big_endian xs = foldl (\<lambda>h b. h * 256 + unat b) 0 xs"

lemma length_pad [simp]: "length (pad n xs) = n"
  by (simp add: pad_def)

lemma pad_Suc_Cons: "pad (Suc n) (x # xs) = x # pad n xs"
  by (simp add: pad_def)

lemma pad_Suc_Nil: "pad (Suc n) [] = 0 # pad n []"
  by (simp add: pad_def)

text \<open>Padding with zero bytes never inverts the byte order, and what it leaves equal the lengths order.\<close>

lemma pad_less: "pad n a < pad n b \<Longrightarrow> a < b"
proof (induction n arbitrary: a b)
  case (Suc n)
  show ?case
  proof (cases a)
    case Nil
    then show ?thesis using Suc by (cases b) auto
  next
    case (Cons x xs)
    have z: "\<not> (x :: byte) < 0" by (simp add: word_less_nat_alt)
    show ?thesis
    proof (cases b)
      case Nil
      then have "pad n xs < pad n []" using Suc.prems Cons z by (simp add: pad_Suc_Cons pad_Suc_Nil)
      then show ?thesis using Suc.IH by force
    next
      case Cons': (Cons y ys)
      then show ?thesis using Suc Cons by (auto simp: pad_Suc_Cons)
    qed
  qed
qed (simp add: pad_def)

lemma pad_differs: "pad n a \<noteq> pad n b \<Longrightarrow> a < b \<longleftrightarrow> pad n a < pad n b"
  by (metis linorder_neq_iff pad_less order_less_asym)

lemma pad_same_short: "pad n a = pad n b \<Longrightarrow> length a \<le> n \<or> length b \<le> n \<Longrightarrow> length a < length b \<Longrightarrow> a < b"
proof (induction n arbitrary: a b)
  case 0
  then show ?case by (cases b) auto
next
  case (Suc n)
  then show ?case by (cases a; cases b) (auto simp: pad_Suc_Cons)
qed

lemma pad_same_length: "pad n a = pad n b \<Longrightarrow> length a = length b \<Longrightarrow> length a \<le> n \<Longrightarrow> a = b"
  by (simp add: pad_def)

lemma pad_same_long:
  assumes "pad n a = pad n b" and "n < length a" and "n < length b"
  shows "a < b \<longleftrightarrow> drop n a < drop n b" and "a = b \<longleftrightarrow> drop n a = drop n b"
proof -
  have t: "take n a = take n b" using assms by (simp add: pad_def)
  have "xs @ ys < xs @ zs \<longleftrightarrow> ys < zs" for xs ys zs :: "byte list"
    by (induction xs) simp_all
  then show "a < b \<longleftrightarrow> drop n a < drop n b" using t by (metis append_take_drop_id)
  show "a = b \<longleftrightarrow> drop n a = drop n b" using t by (metis append_take_drop_id)
qed

text \<open>Comparing a common prefix first and the lengths after it is the byte order.\<close>

lemma common_order:
  defines "c \<equiv> \<lambda>xs ys. (if length xs < length ys then length xs else length ys)"
  shows "(if take (c xs ys) xs \<noteq> take (c xs ys) ys then take (c xs ys) xs < take (c xs ys) ys else length xs < length ys)
    \<longleftrightarrow> xs < (ys :: byte list)"
  unfolding c_def
proof (induction xs arbitrary: ys)
  case (Cons x xs)
  show ?case
  proof (cases ys)
    case (Cons y ys')
    then show ?thesis using Cons.IH [of ys'] by (auto split: if_splits)
  qed simp
next
  case Nil
  then show ?case by (cases ys) simp_all
qed

subsection \<open>The head is the padded key as a number\<close>

lemma big_endian_snoc: "big_endian (xs @ [x]) = big_endian xs * 256 + unat x"
  by (simp add: big_endian_def)

lemma big_endian_less: "big_endian xs < 256 ^ length xs"
proof (induction xs rule: rev_induct)
  case (snoc x xs)
  have x: "unat x < 256" by (rule unat_byte_less)
  have "big_endian xs + 1 \<le> 256 ^ length xs" using snoc by simp
  then have "(big_endian xs + 1) * 256 \<le> 256 ^ length xs * 256" by (rule mult_le_mono1)
  moreover have "b * 256 + y < m * 256" if "y < 256" "(b + 1) * 256 \<le> m * 256" for b y m :: nat
    using that by presburger
  ultimately have "big_endian xs * 256 + unat x < 256 ^ length xs * 256" using x by blast
  then show ?case by (simp add: big_endian_snoc)
qed (simp add: big_endian_def)

lemma big_endian_Cons: "big_endian (x # xs) = unat x * 256 ^ length xs + big_endian xs"
proof (induction xs rule: rev_induct)
  case (snoc y ys)
  then show ?case using big_endian_snoc [of "x # ys" y] by (simp add: big_endian_snoc algebra_simps)
qed (simp add: big_endian_def)

lemma big_endian_order:
  "length xs = length ys \<Longrightarrow> (big_endian xs < big_endian ys \<longleftrightarrow> xs < ys) \<and> (big_endian xs = big_endian ys \<longleftrightarrow> xs = ys)"
proof (induction xs ys rule: list_induct2)
  case (Cons x xs y ys)
  let ?m = "256 ^ length ys :: nat"
  have l: "big_endian xs < ?m" "big_endian ys < ?m"
    using big_endian_less [of xs] big_endian_less [of ys] Cons by simp_all
  have lt: "a * ?m + c < b * ?m + d" if "a < b" "c < ?m" for a b c d
  proof -
    have "(a + 1) * ?m \<le> b * ?m" using that(1) by (intro mult_le_mono1) simp
    then show ?thesis using that(2) by simp
  qed
  have e: "big_endian (x # xs) = unat x * ?m + big_endian xs" "big_endian (y # ys) = unat y * ?m + big_endian ys"
    using Cons(1) by (simp_all add: big_endian_Cons)
  consider "unat x < unat y" | "unat y < unat x" | "x = y" using linorder_less_linear [of "unat x" "unat y"] by (auto simp: word_unat_eq_iff)
  then show ?case
  proof cases
    case 1
    then show ?thesis using lt [OF 1 l(1), of "big_endian ys"] by (auto simp: e word_less_nat_alt)
  next
    case 2
    then show ?thesis using lt [OF 2 l(2), of "big_endian xs"] by (auto simp: e word_less_nat_alt)
  next
    case 3
    then show ?thesis unfolding e using Cons(2) by simp
  qed
qed (simp add: big_endian_def)

lemma big_endian_zeros: "big_endian (xs @ replicate n 0) = big_endian xs * 256 ^ n"
proof (induction n)
  case (Suc n)
  have "xs @ replicate (Suc n) 0 = (xs @ replicate n 0) @ [0]" by (simp add: replicate_append_same)
  then show ?case using Suc big_endian_snoc [of "xs @ replicate n 0" 0] by simp
qed simp

lemma unat_push: "unat (push_bit n (w :: 64 word)) = unat w * 2 ^ n mod 2 ^ 64"
  by (simp only: unsigned_push_bit_eq take_bit_eq_mod) (simp add: push_bit_eq_mult [of n "unat w"])

lemma head_loop_snoc: "head_loop h (xs @ [x]) = push_bit 8 (head_loop h xs) OR ucast x"
  by (induction xs arbitrary: h) simp_all

lemma head_loop_value: "length xs \<le> 8 \<Longrightarrow> unat (head_loop 0 xs) = big_endian xs"
proof (induction xs rule: rev_induct)
  case (snoc x xs)
  then have ih: "unat (head_loop 0 xs) = big_endian xs" and l: "length xs \<le> 7" by simp_all
  have b: "big_endian xs < 256 ^ 7"
    using big_endian_less [of xs] power_increasing [OF l, of "256 :: nat"] by simp
  have x: "unat x < 256" by (rule unat_byte_less)
  have p: "unat (push_bit 8 (head_loop 0 xs)) = big_endian xs * 256"
    using b by (simp add: unat_push ih)
  have "unat (push_bit 8 (head_loop 0 xs) OR ucast x) = big_endian xs * 256 + unat x"
  proof -
    have "push_bit 8 (head_loop 0 xs) AND (ucast x :: 64 word) = 0"
    proof (rule bit_word_eqI)
      fix n
      assume "n < LENGTH(64)"
      then show "bit (push_bit 8 (head_loop 0 xs) AND (ucast x :: 64 word)) n = bit (0 :: 64 word) n"
        by (auto simp: bit_simps dest: bit_imp_le_length)
    qed
    then have "push_bit 8 (head_loop 0 xs) OR ucast x = push_bit 8 (head_loop 0 xs) + (ucast x :: 64 word)"
      by (simp add: disjunctive_add_eq_or)
    moreover have "unat (ucast x :: 64 word) = unat x" by (simp add: unsigned_ucast_eq take_bit_eq_mod mod_less less_trans [OF unat_byte_less])
    moreover have "m * 256 + y < 2 ^ 64" if "m < 256 ^ 7" "y < 256" for m y :: nat using that by simp
    from this [OF b x] have "(big_endian xs * 256 + unat x) mod 2 ^ 64 = big_endian xs * 256 + unat x" by (rule mod_less)
    ultimately show ?thesis using p by (simp add: unat_word_ariths)
  qed
  then show ?case by (simp add: head_loop_snoc big_endian_snoc)
qed (simp add: big_endian_def)

lemma key_head_value: "unat (key_head key) = big_endian (pad 8 key)"
proof -
  define m where "m = min 8 (length key)"
  have m: "m = (if length key < 8 then length key else 8)" by (simp add: m_def)
  have p: "pad 8 key = take m key @ replicate (8 - m) 0" by (simp add: pad_def m_def min_def)
  have h: "unat (head_loop 0 (take m key)) = big_endian (take m key)" by (rule head_loop_value) (simp add: m_def)
  have "big_endian (take m key) < 256 ^ m" using big_endian_less [of "take m key"] by (simp add: m_def)
  then have "big_endian (take m key) * 256 ^ (8 - m) < 256 ^ m * 256 ^ (8 - m)" by simp
  also have "(256 :: nat) ^ m * 256 ^ (8 - m) = 2 ^ 64" by (simp add: m_def flip: power_add)
  finally have fit: "big_endian (take m key) * 256 ^ (8 - m) < 2 ^ 64" .
  have sh: "(2 :: nat) ^ (8 * (8 - m)) = 256 ^ (8 - m)" by (simp add: power_mult)
  have "unat (push_bit (8 * (8 - m)) (head_loop 0 (take m key))) = big_endian (take m key) * 256 ^ (8 - m)"
    using fit by (simp add: unat_push h sh)
  then have "unat (push_bit (8 * (8 - m)) (head_loop 0 (take m key))) = big_endian (pad 8 key)"
    by (simp add: p big_endian_zeros)
  moreover have "key_head key = push_bit (8 * (8 - m)) (head_loop 0 (take m key))"
    by (simp add: key_head_def Let_def flip: m) 
  ultimately show ?thesis by simp
qed

lemma key_head_order: "key_head a < key_head b \<longleftrightarrow> pad 8 a < pad 8 b" "key_head a = key_head b \<longleftrightarrow> pad 8 a = pad 8 b"
  using big_endian_order [of "pad 8 a" "pad 8 b"]
  by (simp_all add: word_less_nat_alt key_head_value word_unat_eq_iff)

subsection \<open>Comparing entries compares keys\<close>

lemma length_order_less: "length_order m n < 0 \<longleftrightarrow> m < n" "length_order m n = 0 \<longleftrightarrow> m = n"
  by (auto simp: length_order_def)

lemma byte_order_less: "byte_order xs ys < 0 \<longleftrightarrow> xs < ys" "byte_order xs ys = 0 \<longleftrightarrow> xs = ys"
  by (auto simp: byte_order_def)

lemma tie_is_order:
  assumes "entry_of a x" and "entry_of b y" and same: "key_head a = key_head b"
  shows "(key_tie_order x y < 0 \<longleftrightarrow> a < b) \<and> (key_tie_order x y = 0 \<longleftrightarrow> a = b)"
proof -
  have p: "pad 8 a = pad 8 b" using same by (simp only: key_head_order)
  have l: "en_len x = length a" "en_len y = length b" using assms by (simp_all add: entry_of_def)
  show ?thesis
  proof (cases "length a \<le> 8 \<or> length b \<le> 8")
    case True
    then have t: "key_tie_order x y = length_order (length a) (length b)" by (simp add: key_tie_order_def l)
    consider "length a < length b" | "length b < length a" | "length a = length b" by linarith
    then show ?thesis
    proof cases
      case 1
      then show ?thesis using pad_same_short [OF p True] by (auto simp: t length_order_less)
    next
      case 2
      then show ?thesis using pad_same_short [OF p [symmetric]] True by (auto simp: t length_order_less)
    next
      case 3
      then show ?thesis using pad_same_length [OF p 3] True by (simp add: t length_order_less)
    qed
  next
    case False
    then have k: "en_key x = a" "en_key y = b" and n: "8 < length a" "8 < length b"
      using assms by (simp_all add: entry_of_def)
    define c where "c = (if length a < length b then length a else length b) - 8"
    have c: "c = (if length (drop 8 a) < length (drop 8 b) then length (drop 8 a) else length (drop 8 b))"
      using n by (auto simp: c_def)
    let ?o = "byte_order (take c (drop 8 a)) (take c (drop 8 b))"
    have t: "key_tie_order x y = (if ?o \<noteq> 0 then ?o else length_order (length a) (length b))"
      using False by (simp add: key_tie_order_def l k c_def Let_def)
    have lens: "length a < length b \<longleftrightarrow> length (drop 8 a) < length (drop 8 b)"
      "length a = length b \<longleftrightarrow> length (drop 8 a) = length (drop 8 b)" using n by auto
    have "(if take c (drop 8 a) \<noteq> take c (drop 8 b) then take c (drop 8 a) < take c (drop 8 b)
        else length (drop 8 a) < length (drop 8 b)) \<longleftrightarrow> drop 8 a < drop 8 b"
      using common_order [of "drop 8 a" "drop 8 b"] unfolding c [symmetric] .
    then have "key_tie_order x y < 0 \<longleftrightarrow> drop 8 a < drop 8 b"
      using lens(1) by (simp add: t byte_order_less length_order_less split: if_splits)
    moreover have "key_tie_order x y = 0 \<longleftrightarrow> take c (drop 8 a) = take c (drop 8 b) \<and> length a = length b"
      by (simp add: t byte_order_less length_order_less)
    moreover have "\<dots> \<longleftrightarrow> drop 8 a = drop 8 b" using lens(2) by (metis c take_all_iff order_refl)
    ultimately show ?thesis using pad_same_long [OF p n] by simp
  qed
qed

lemma entry_order:
  assumes "entry_of a x" and "entry_of b y"
  shows "(key_before x y \<longleftrightarrow> a < b) \<and> (key_same x y \<longleftrightarrow> a = b)"
proof -
  have h: "en_head x = key_head a" "en_head y = key_head b" using assms by (simp_all add: entry_of_def)
  show ?thesis
  proof (cases "key_head a = key_head b")
    case True
    then show ?thesis using tie_is_order [OF assms True] by (simp add: key_before_def key_same_def h)
  next
    case False
    then have "pad 8 a \<noteq> pad 8 b" by (simp add: key_head_order)
    then show ?thesis using False pad_differs [of 8 a b] by (cases "a = b") (simp_all add: key_before_def key_same_def h key_head_order(1))
  qed
qed

text \<open>
  C34: On entries of keys, whatever their lengths, comparing heads, lengths and the bytes past the
  eighth is comparing the keys in byte order, a shorter key first on a common prefix; and two
  entries are the same exactly when their keys are.
\<close>

theorem key_order_is_byte_order:
  assumes "entry_of a x" and "entry_of b y"
  shows "(key_before x y \<longleftrightarrow> a < b) \<and> (key_same x y \<longleftrightarrow> a = b)"
  using assms by (rule entry_order)

text \<open>A number's entry is the entry of its four big-endian bytes.\<close>

definition number_bytes :: "32 word \<Rightarrow> byte list" where
  "number_bytes number = [ucast (drop_bit 24 number), ucast (drop_bit 16 number), ucast (drop_bit 8 number), ucast number]"

lemma key_number_entry: "entry_of (number_bytes number) (key_number number)"
proof -
  have "push_bit 32 (ucast number :: 64 word) = key_head (number_bytes number)"
  proof (rule bit_word_eqI)
    fix n
    assume "n < LENGTH(64)"
    have i: "56 \<le> n \<Longrightarrow> 24 + (n - 56) = n - 32" "48 \<le> n \<Longrightarrow> 16 + (n - 48) = n - 32"
      "40 \<le> n \<Longrightarrow> 8 + (n - 40) = n - 32" by simp_all
    consider "n < 40" | "40 \<le> n" "n < 48" | "48 \<le> n" "n < 56" | "56 \<le> n" by linarith
    then show "bit (push_bit 32 (ucast number :: 64 word)) n = bit (key_head (number_bytes number)) n"
      using \<open>n < LENGTH(64)\<close> by cases (auto simp: key_head_def number_bytes_def bit_simps i)
  qed
  then show ?thesis by (simp add: entry_of_def key_number_def number_bytes_def)
qed

theorem key_order_is_byte_order_witness:
  "key_before (key_number 5) (key_number 256) \<and> \<not> key_same (key_number 5) (key_number 256)"
  using key_order_is_byte_order [OF key_number_entry key_number_entry, of 5 256] by (simp add: number_bytes_def)

end
