(* ===== verification/KeyTree.thy ===== *)
theory KeyTree
  imports KeyOrder
begin

text \<open>
  core/map.c, the ordered index: a B+ tree of keyed entries with fanout 16.  A node is a value,
  so \<open>void *\<close> is the node it points at and the level the code counts down says which kind it is.
  The arrays of a node are lists as long as its count.  A leaf's \<open>next\<close> is the leaf after it in
  the tree: a split puts the new leaf after the one it came from in the tree and in the chain
  alike, so the chain from a leaf is the list of the leaves from there, which is what a cursor
  holds.  The loop that goes up from a leaf after an insertion is the recursion's return.
\<close>

definition KEY_TREE_FANOUT :: nat where
  "KEY_TREE_FANOUT = 16"

datatype tree_node = Leaf (leaf_entries: "key_entry list") | Inner (inner_cells: "tree_cell list")
  and tree_cell = Cell (child: tree_node) (below: nat) (first_key: key_entry)

record key_tree =
  kt_root :: "tree_node option"
  kt_count :: nat
  kt_levels :: nat

record tree_cursor =
  cu_leaves :: "key_entry list list"
  cu_index :: nat

subsection \<open>Searching a node\<close>

text \<open>The binary search both node searches do, for the first index that does not satisfy \<open>p\<close>.\<close>

function search_loop :: "(nat \<Rightarrow> bool) \<Rightarrow> nat \<Rightarrow> nat \<Rightarrow> nat" where
  "search_loop p low high =
     (if low < high then
        let middle = low + (high - low) div 2
        in if p middle then search_loop p (middle + 1) high else search_loop p low middle
      else low)"
  by pat_completeness auto
termination
  by (relation "measure (\<lambda>(p, low, high). high - low)") auto

declare search_loop.simps [simp del]

definition S_tree_child :: "tree_cell list \<Rightarrow> key_entry \<Rightarrow> nat" where
  "S_tree_child cells key = search_loop (\<lambda>middle. \<not> key_before key (first_key (cells ! middle))) 1 (length cells) - 1"

definition S_tree_place :: "key_entry list \<Rightarrow> key_entry \<Rightarrow> nat" where
  "S_tree_place entries key = search_loop (\<lambda>middle. key_before (entries ! middle) key) 0 (length entries)"

fun S_tree_size :: "nat \<Rightarrow> tree_node \<Rightarrow> nat" where
  "S_tree_size 0 (Leaf entries) = length entries"
| "S_tree_size (Suc levels) (Inner cells) = sum_list (map below cells)"

subsection \<open>The operations\<close>

fun find_walk :: "nat \<Rightarrow> tree_node \<Rightarrow> key_entry \<Rightarrow> nat \<Rightarrow> key_entry option \<times> nat" where
  "find_walk 0 (Leaf entries) key before =
     (let place = S_tree_place entries key
      in (if place < length entries \<and> key_same (entries ! place) key then Some (entries ! place) else None, before + place))"
| "find_walk (Suc level) (Inner cells) key before =
     (let c = S_tree_child cells key
      in find_walk level (child (cells ! c)) key (before + sum_list (map below (take c cells))))"

definition key_tree_find :: "key_tree \<Rightarrow> key_entry \<Rightarrow> key_entry option \<times> nat" where
  "key_tree_find tree key =
     (case kt_root tree of None \<Rightarrow> (None, 0) | Some node \<Rightarrow> find_walk (kt_levels tree) node key 0)"

text \<open>The loop over a node's children: the child that holds the rank, and the rank in it.\<close>

fun rank_loop :: "tree_cell list \<Rightarrow> nat \<Rightarrow> tree_node \<times> nat" where
  "rank_loop (c # cells) rank = (if rank \<ge> below c then rank_loop cells (rank - below c) else (child c, rank))"

fun at_walk :: "nat \<Rightarrow> tree_node \<Rightarrow> nat \<Rightarrow> key_entry" where
  "at_walk 0 (Leaf entries) rank = entries ! rank"
| "at_walk (Suc level) (Inner cells) rank = (let (node, rank) = rank_loop cells rank in at_walk level node rank)"

definition key_tree_at :: "key_tree \<Rightarrow> nat \<Rightarrow> key_entry" where
  "key_tree_at tree rank = at_walk (kt_levels tree) (the (kt_root tree)) rank"

text \<open>The node without the key's entry; \<open>None\<close> when it has none.\<close>

fun remove_walk :: "nat \<Rightarrow> tree_node \<Rightarrow> key_entry \<Rightarrow> tree_node option" where
  "remove_walk 0 (Leaf entries) key =
     (let place = S_tree_place entries key
      in if place \<ge> length entries \<or> \<not> key_same (entries ! place) key then None
         else Some (Leaf (take place entries @ drop (place + 1) entries)))"
| "remove_walk (Suc level) (Inner cells) key =
     (let c = S_tree_child cells key
      in map_option (\<lambda>node. Inner (cells[c := Cell node (below (cells ! c) - 1) (first_key (cells ! c))]))
           (remove_walk level (child (cells ! c)) key))"

definition key_tree_remove :: "key_tree \<Rightarrow> key_entry \<Rightarrow> key_tree" where
  "key_tree_remove tree key =
     (case Option.bind (kt_root tree) (\<lambda>node. remove_walk (kt_levels tree) node key) of
        None \<Rightarrow> tree
      | Some node \<Rightarrow> tree\<lparr>kt_root := Some node, kt_count := kt_count tree - 1\<rparr>)"

fun leaf_list :: "nat \<Rightarrow> tree_node \<Rightarrow> key_entry list list" where
  "leaf_list 0 (Leaf entries) = [entries]"
| "leaf_list (Suc level) (Inner cells) = concat (map (\<lambda>c. leaf_list level (child c)) cells)"
| "leaf_list _ _ = []"

text \<open>The leaf a key's place is in, with the leaves after it, \<open>rest\<close> those after the node.\<close>

fun seek_walk :: "nat \<Rightarrow> tree_node \<Rightarrow> key_entry \<Rightarrow> key_entry list list \<Rightarrow> tree_cursor" where
  "seek_walk 0 (Leaf entries) key rest = \<lparr>cu_leaves = entries # rest, cu_index = S_tree_place entries key\<rparr>"
| "seek_walk (Suc level) (Inner cells) key rest =
     (let c = S_tree_child cells key
      in seek_walk level (child (cells ! c)) key
           (concat (map (\<lambda>c. leaf_list level (child c)) (drop (c + 1) cells)) @ rest))"

definition key_tree_seek :: "key_tree \<Rightarrow> key_entry \<Rightarrow> tree_cursor" where
  "key_tree_seek tree key =
     (case kt_root tree of
        None \<Rightarrow> \<lparr>cu_leaves = [], cu_index = 0\<rparr>
      | Some node \<Rightarrow> seek_walk (kt_levels tree) node key [])"

fun next_loop :: "key_entry list list \<Rightarrow> nat \<Rightarrow> key_entry option \<times> tree_cursor" where
  "next_loop [] index = (None, \<lparr>cu_leaves = [], cu_index = index\<rparr>)"
| "next_loop (leaf # leaves) index =
     (if index = length leaf then next_loop leaves 0
      else (Some (leaf ! index), \<lparr>cu_leaves = leaf # leaves, cu_index = index + 1\<rparr>))"

definition key_tree_next :: "tree_cursor \<Rightarrow> key_entry option \<times> tree_cursor" where
  "key_tree_next cursor = next_loop (cu_leaves cursor) (cu_index cursor)"

definition key_tree_free :: "key_tree \<Rightarrow> key_tree" where
  "key_tree_free tree = \<lparr>kt_root = None, kt_count = 0, kt_levels = 0\<rparr>"

subsection \<open>Insertion\<close>

definition insert_at :: "nat \<Rightarrow> 'a \<Rightarrow> 'a list \<Rightarrow> 'a list" where
  "insert_at place x xs = take place xs @ x # drop place xs"

definition tree_half :: nat where
  "tree_half = (KEY_TREE_FANOUT + 1) div 2"

text \<open>A full node's parts with an element put in one of them.\<close>

definition split_insert :: "nat \<Rightarrow> 'a \<Rightarrow> 'a list \<Rightarrow> 'a list \<times> 'a list" where
  "split_insert place x xs =
     (let cut = (if place < tree_half then tree_half - 1 else tree_half)
      in if place < tree_half then (insert_at place x (take cut xs), drop cut xs)
         else (take cut xs, insert_at (place - tree_half) x (drop cut xs)))"

text \<open>How many nodes split, from the leaf up.\<close>

fun split_count :: "nat \<Rightarrow> tree_node \<Rightarrow> key_entry \<Rightarrow> nat" where
  "split_count 0 (Leaf entries) key = (if length entries = KEY_TREE_FANOUT then 1 else 0)"
| "split_count (Suc level) (Inner cells) key =
     (let splits = split_count level (child (cells ! S_tree_child cells key)) key
      in if splits = Suc level \<and> length cells = KEY_TREE_FANOUT then splits + 1 else splits)"

text \<open>The entry an insertion writes: the key's, with a zero number and no pointer.\<close>

definition new_entry :: "key_entry \<Rightarrow> key_entry" where
  "new_entry key = \<lparr>en_head = en_head key, en_key = en_key key, en_len = en_len key, en_extra = 0, en_value = None\<rparr>"

text \<open>The node, and the node a split made with the first key below it and its entries.\<close>

fun insert_walk :: "nat \<Rightarrow> tree_node \<Rightarrow> key_entry \<Rightarrow> tree_node \<times> (tree_node \<times> key_entry \<times> nat) option" where
  "insert_walk 0 (Leaf entries) key =
     (let place = S_tree_place entries key;
          entry = new_entry key
      in if length entries < KEY_TREE_FANOUT then (Leaf (insert_at place entry entries), None)
         else let (left, right) = split_insert place entry entries
              in (Leaf left, Some (Leaf right, right ! 0, length right)))"
| "insert_walk (Suc level) (Inner cells) key =
     (let c = S_tree_child cells key;
          cell = cells ! c
      in case insert_walk level (child cell) key of
           (node, None) \<Rightarrow> (Inner (cells[c := Cell node (below cell + 1) (first_key cell)]), None)
         | (node, Some (made_node, made_key, made_size)) \<Rightarrow>
             let cells = cells[c := Cell node (S_tree_size level node) (first_key cell)];
                 made = Cell made_node made_size made_key
             in if length cells < KEY_TREE_FANOUT then (Inner (insert_at (c + 1) made cells), None)
                else let (left, right) = split_insert (c + 1) made cells
                     in (Inner left, Some (Inner right, first_key (right ! 0), S_tree_size (Suc level) (Inner right))))"

text \<open>What \<open>calloc\<close> leaves of the key of a new root's first child, which is never read.\<close>

definition no_entry :: key_entry where
  "no_entry = \<lparr>en_head = 0, en_key = [], en_len = 0, en_extra = 0, en_value = None\<rparr>"

text \<open>
  \<open>grant i\<close> is whether the \<open>i\<close>th node an insertion asks for is had.  The first entry asks for
  the root alone.  The value is the entry, whether it was made, and the tree.
\<close>

definition key_tree_entry :: "(nat \<Rightarrow> bool) \<Rightarrow> key_tree \<Rightarrow> key_entry \<Rightarrow> key_entry option \<times> bool \<times> key_tree" where
  "key_tree_entry grant tree key =
     (if kt_root tree = None \<and> \<not> grant 0 then (None, False, tree)
      else
        let root = (case kt_root tree of None \<Rightarrow> Leaf [] | Some root \<Rightarrow> root);
            tree = tree\<lparr>kt_root := Some root\<rparr>;
            levels = kt_levels tree
        in case fst (find_walk levels root key 0) of
             Some held \<Rightarrow> (Some held, False, tree)
           | None \<Rightarrow>
               let splits = split_count levels root key;
                   rooted = (if splits > levels then 1 else 0)
               in if \<exists>i < splits + rooted. \<not> grant i then (None, False, tree)
                  else
                    let entry = new_entry key
                    in case insert_walk levels root key of
                         (node, None) \<Rightarrow> (Some entry, True, tree\<lparr>kt_root := Some node, kt_count := kt_count tree + 1\<rparr>)
                       | (node, Some (made_node, made_key, made_size)) \<Rightarrow>
                           (Some entry, True, tree\<lparr>kt_root := Some (Inner
                              [Cell node (S_tree_size levels node) no_entry, Cell made_node made_size made_key]),
                              kt_count := kt_count tree + 1, kt_levels := levels + 1\<rparr>))"

subsection \<open>The search\<close>

lemma search_loop_cuts:
  assumes "low \<le> high" and "\<And>m m'. low \<le> m' \<Longrightarrow> m' \<le> m \<Longrightarrow> m < high \<Longrightarrow> p m \<Longrightarrow> p m'"
  shows "low \<le> search_loop p low high \<and> search_loop p low high \<le> high \<and>
    (\<forall>i. low \<le> i \<and> i < search_loop p low high \<longrightarrow> p i) \<and> (\<forall>i. search_loop p low high \<le> i \<and> i < high \<longrightarrow> \<not> p i)"
  using assms
proof (induction p low high rule: search_loop.induct)
  case (1 p low high)
  show ?case
  proof (cases "low < high")
    case False
    then have "search_loop p low high = low" by (simp add: search_loop.simps [of p low high])
    then show ?thesis using False 1(3) by auto
  next
    case True
    define middle where "middle = low + (high - low) div 2"
    have m: "low \<le> middle" "middle < high" using True by (simp_all add: middle_def)
    show ?thesis
    proof (cases "p middle")
      case p: True
      have "search_loop p low high = search_loop p (middle + 1) high"
        using True p by (simp add: search_loop.simps [of p low high] middle_def Let_def)
      moreover have "p i" if "low \<le> i" "i \<le> middle" for i using 1(4) [OF that m(2) p] .
      moreover have "middle + 1 \<le> search_loop p (middle + 1) high \<and> search_loop p (middle + 1) high \<le> high \<and>
          (\<forall>i. middle + 1 \<le> i \<and> i < search_loop p (middle + 1) high \<longrightarrow> p i) \<and>
          (\<forall>i. search_loop p (middle + 1) high \<le> i \<and> i < high \<longrightarrow> \<not> p i)"
        using m 1(4) by (intro 1(1) [OF True middle_def p]) auto
      ultimately show ?thesis using m by (metis Suc_eq_plus1 Suc_leI le_trans less_or_eq_imp_le not_le)
    next
      case p: False
      have "search_loop p low high = search_loop p low middle"
        using True p by (simp add: search_loop.simps [of p low high] middle_def Let_def)
      moreover have "\<not> p i" if "middle \<le> i" "i < high" for i using 1(4) [OF m(1) that] p by blast
      moreover have "low \<le> search_loop p low middle \<and> search_loop p low middle \<le> middle \<and>
          (\<forall>i. low \<le> i \<and> i < search_loop p low middle \<longrightarrow> p i) \<and>
          (\<forall>i. search_loop p low middle \<le> i \<and> i < middle \<longrightarrow> \<not> p i)"
        using m 1(4) by (intro 1(2) [OF True middle_def p]) auto
      ultimately show ?thesis using m by (metis le_trans less_or_eq_imp_le not_le)
    qed
  qed
qed

subsection \<open>The keys of entries\<close>

definition keyed :: "key_entry \<Rightarrow> bool" where
  "keyed e \<longleftrightarrow> (\<exists>key. entry_of key e)"

definition ekey :: "key_entry \<Rightarrow> byte list" where
  "ekey e = (THE key. entry_of key e)"

lemma ekey_eq: "entry_of key e \<Longrightarrow> ekey e = key"
  unfolding ekey_def by (rule the_equality) (metis entry_order)+

lemma keyed_entry: "keyed e \<Longrightarrow> entry_of (ekey e) e"
  unfolding keyed_def using ekey_eq by metis

lemma before_ekey: "keyed x \<Longrightarrow> keyed y \<Longrightarrow> key_before x y \<longleftrightarrow> ekey x < ekey y"
  and same_ekey: "keyed x \<Longrightarrow> keyed y \<Longrightarrow> key_same x y \<longleftrightarrow> ekey x = ekey y"
  using entry_order keyed_entry by blast+

subsection \<open>The invariant\<close>

text \<open>A key between two bounds, the lower one included.\<close>

definition bounded :: "byte list option \<Rightarrow> byte list option \<Rightarrow> byte list \<Rightarrow> bool" where
  "bounded lo hi k \<longleftrightarrow> (lo = None \<or> the lo \<le> k) \<and> (hi = None \<or> k < the hi)"

text \<open>A key that separates two children is strictly between the bounds.\<close>

definition separates :: "byte list option \<Rightarrow> byte list option \<Rightarrow> byte list \<Rightarrow> bool" where
  "separates lo hi k \<longleftrightarrow> (lo = None \<or> the lo < k) \<and> (hi = None \<or> k < the hi)"

definition keys_of :: "key_entry list \<Rightarrow> byte list list" where
  "keys_of es = map ekey es"

definition inorder :: "nat \<Rightarrow> tree_node \<Rightarrow> key_entry list" where
  "inorder level node = concat (leaf_list level node)"

fun cells_ok :: "(byte list option \<Rightarrow> byte list option \<Rightarrow> tree_cell \<Rightarrow> bool) \<Rightarrow> byte list option \<Rightarrow> byte list option \<Rightarrow>
    tree_cell list \<Rightarrow> bool" where
  "cells_ok ok lo hi [] = False"
| "cells_ok ok lo hi [c] = ok lo hi c"
| "cells_ok ok lo hi (c # d # cells) =
     (keyed (first_key d) \<and> separates lo hi (ekey (first_key d)) \<and> ok lo (Some (ekey (first_key d))) c \<and>
      cells_ok ok (Some (ekey (first_key d))) hi (d # cells))"

fun node_ok :: "nat \<Rightarrow> byte list option \<Rightarrow> byte list option \<Rightarrow> tree_node \<Rightarrow> bool" where
  "node_ok 0 lo hi (Leaf entries) =
     (length entries \<le> KEY_TREE_FANOUT \<and> (\<forall>e \<in> set entries. keyed e \<and> bounded lo hi (ekey e)) \<and>
      sorted_wrt (<) (keys_of entries))"
| "node_ok (Suc level) lo hi (Inner cells) =
     (length cells \<le> KEY_TREE_FANOUT \<and>
      cells_ok (\<lambda>lo hi c. node_ok level lo hi (child c) \<and> below c = length (inorder level (child c))) lo hi cells)"
| "node_ok _ lo hi _ = False"

abbreviation cell_ok :: "nat \<Rightarrow> byte list option \<Rightarrow> byte list option \<Rightarrow> tree_cell \<Rightarrow> bool" where
  "cell_ok level lo hi c \<equiv> node_ok level lo hi (child c) \<and> below c = length (inorder level (child c))"

text \<open>
  Splits leave at least half the fanout in every inner node but the root: what bounds the levels.
\<close>

fun fan :: "nat \<Rightarrow> tree_node \<Rightarrow> bool" where
  "fan 0 (Leaf entries) = True"
| "fan (Suc level) (Inner cells) = (8 \<le> length cells \<and> (\<forall>c \<in> set cells. fan level (child c)))"
| "fan _ _ = False"

fun root_fan :: "nat \<Rightarrow> tree_node \<Rightarrow> bool" where
  "root_fan 0 (Leaf entries) = True"
| "root_fan (Suc level) (Inner cells) = (2 \<le> length cells \<and> (\<forall>c \<in> set cells. fan level (child c)))"
| "root_fan _ _ = False"

definition tree_ok :: "key_tree \<Rightarrow> bool" where
  "tree_ok tree \<longleftrightarrow>
     (case kt_root tree of
        None \<Rightarrow> kt_levels tree = 0 \<and> kt_count tree = 0
      | Some node \<Rightarrow> node_ok (kt_levels tree) None None node \<and> root_fan (kt_levels tree) node \<and> kt_count tree = length (inorder (kt_levels tree) node))"

definition entries_of :: "key_tree \<Rightarrow> key_entry list" where
  "entries_of tree = (case kt_root tree of None \<Rightarrow> [] | Some node \<Rightarrow> inorder (kt_levels tree) node)"

lemma inorder_Leaf [simp]: "inorder 0 (Leaf es) = es"
  by (simp add: inorder_def)

lemma inorder_Inner [simp]: "inorder (Suc l) (Inner cells) = concat (map (\<lambda>c. inorder l (child c)) cells)"
  by (induction cells) (simp_all add: inorder_def)

subsection \<open>Parts of a node\<close>

abbreviation sep :: "tree_cell \<Rightarrow> byte list" where
  "sep c \<equiv> ekey (first_key c)"

lemma cells_ok_append:
  "xs \<noteq> [] \<Longrightarrow> cells_ok ok lo hi (xs @ d # ys) \<longleftrightarrow>
     keyed (first_key d) \<and> separates lo hi (sep d) \<and> cells_ok ok lo (Some (sep d)) xs \<and> cells_ok ok (Some (sep d)) hi (d # ys)"
proof (induction xs arbitrary: lo)
  case (Cons c xs)
  show ?case
  proof (cases xs)
    case (Cons c' xs')
    then have "cells_ok ok (Some (sep c')) hi (xs @ d # ys) \<longleftrightarrow> keyed (first_key d) \<and> separates (Some (sep c')) hi (sep d) \<and>
        cells_ok ok (Some (sep c')) (Some (sep d)) xs \<and> cells_ok ok (Some (sep d)) hi (d # ys)"
      using Cons.IH by simp
    then show ?thesis using Cons by (auto simp: separates_def)
  qed simp
qed simp

lemma cells_focus:
  assumes "cells_ok ok lo hi (xs @ cell # ys)"
  obtains lo' hi' where "ok lo' hi' cell" and "lo' = (if xs = [] then lo else Some (sep cell))"
    and "hi' = (if ys = [] then hi else Some (sep (hd ys)))"
    and "\<And>cell' zs. cells_ok ok lo' hi' (cell' # zs) \<Longrightarrow> first_key cell' = first_key cell \<Longrightarrow>
      cells_ok ok lo hi (xs @ cell' # zs @ ys)"
proof -
  define lo' where "lo' = (if xs = [] then lo else Some (sep cell))"
  define hi' where "hi' = (if ys = [] then hi else Some (sep (hd ys)))"
  have tail: "cells_ok ok lo' hi (cell # ys)"
    using assms cells_ok_append [of xs ok lo hi cell ys] by (cases "xs = []") (simp_all add: lo'_def)
  have "ok lo' hi' cell" using tail by (cases ys) (simp_all add: hi'_def)
  moreover have "cells_ok ok lo hi (xs @ cell' # zs @ ys)"
    if c: "cells_ok ok lo' hi' (cell' # zs)" "first_key cell' = first_key cell" for cell' zs
  proof -
    have "cells_ok ok lo' hi ((cell' # zs) @ ys)"
    proof (cases ys)
      case (Cons d ys')
      then show ?thesis using c(1) tail cells_ok_append [of "cell' # zs" ok lo' hi d ys'] by (simp add: hi'_def)
    qed (use c hi'_def in simp)
    then show ?thesis using assms c(2) cells_ok_append [of xs ok lo hi cell ys] cells_ok_append [of xs ok lo hi cell' "zs @ ys"]
      by (cases "xs = []") (simp_all add: lo'_def)
  qed
  ultimately show thesis using that lo'_def hi'_def by blast
qed

lemma cells_seps:
  "cells_ok ok lo hi cells \<Longrightarrow> sorted_wrt (<) (map sep (tl cells)) \<and> (\<forall>c \<in> set (tl cells). keyed (first_key c) \<and> separates lo hi (sep c))"
proof (induction ok lo hi cells rule: cells_ok.induct)
  case (3 ok lo hi c d cells)
  then have r: "sorted_wrt (<) (map sep cells) \<and> (\<forall>c \<in> set cells. keyed (first_key c) \<and> separates (Some (sep d)) hi (sep c))"
    and d: "keyed (first_key d)" "separates lo hi (sep d)" by simp_all
  then show ?case by (auto simp: separates_def)
qed simp_all

subsection \<open>The entries of a node are in order\<close>

abbreviation cell_entries :: "nat \<Rightarrow> tree_cell list \<Rightarrow> key_entry list" where
  "cell_entries level cells \<equiv> concat (map (\<lambda>c. inorder level (child c)) cells)"

lemma bounded_weaken:
  "bounded (Some k) hi x \<Longrightarrow> separates lo hi k \<Longrightarrow> bounded lo hi x"
  "bounded lo (Some k) x \<Longrightarrow> separates lo hi k \<Longrightarrow> bounded lo hi x"
  by (auto simp: bounded_def separates_def)

definition ordered_in :: "byte list option \<Rightarrow> byte list option \<Rightarrow> key_entry list \<Rightarrow> bool" where
  "ordered_in lo hi es \<longleftrightarrow> sorted_wrt (<) (keys_of es) \<and> (\<forall>e \<in> set es. keyed e \<and> bounded lo hi (ekey e))"

lemma ordered_in_append:
  assumes "ordered_in lo (Some k) xs" and "ordered_in (Some k) hi ys" and "separates lo hi k"
  shows "ordered_in lo hi (xs @ ys)"
proof -
  have "ekey x < ekey y" if "x \<in> set xs" "y \<in> set ys" for x y
    using assms(1,2) that unfolding ordered_in_def bounded_def by (metis option.distinct(1) option.sel order_less_le_trans)
  then show ?thesis using assms bounded_weaken [OF _ assms(3)]
    by (auto simp: ordered_in_def keys_of_def sorted_wrt_append)
qed

lemma cells_ordered:
  assumes "\<And>lo hi c. ok lo hi c \<Longrightarrow> ordered_in lo hi (inorder level (child c))"
  shows "cells_ok ok lo hi cells \<Longrightarrow> ordered_in lo hi (cell_entries level cells)"
proof (induction cells arbitrary: lo)
  case (Cons c cells)
  show ?case
  proof (cases cells)
    case Nil
    then show ?thesis using Cons assms by simp
  next
    case (Cons d cells')
    then have c: "separates lo hi (sep d)" "ok lo (Some (sep d)) c" "cells_ok ok (Some (sep d)) hi cells"
      using Cons.prems by simp_all
    show ?thesis using ordered_in_append [OF assms [OF c(2)] Cons.IH [OF c(3)] c(1)] by simp
  qed
qed simp

lemma node_ordered: "node_ok level lo hi node \<Longrightarrow> ordered_in lo hi (inorder level node)"
proof (induction level arbitrary: lo hi node)
  case 0
  then show ?case by (cases node) (simp_all add: ordered_in_def)
next
  case (Suc level)
  then obtain cells where n: "node = Inner cells" "cells_ok (cell_ok level) lo hi cells" by (cases node) auto
  have "ordered_in lo hi (cell_entries level cells)" by (rule cells_ordered [OF _ n(2)]) (use Suc.IH in blast)
  then show ?case by (simp add: n(1))
qed

subsection \<open>Where a key's place is\<close>

lemma place_splits:
  assumes es: "ordered_in lo hi entries" and k: "keyed key"
  shows "S_tree_place entries key \<le> length entries"
    and "take (S_tree_place entries key) entries = filter (\<lambda>e. ekey e < ekey key) entries"
    and "drop (S_tree_place entries key) entries = filter (\<lambda>e. ekey key \<le> ekey e) entries"
proof -
  define p where "p = (\<lambda>m. key_before (entries ! m) key)"
  define r where "r = search_loop p 0 (length entries)"
  have b: "p i \<longleftrightarrow> ekey (entries ! i) < ekey key" if "i < length entries" for i
    using es k that by (unfold p_def, intro before_ekey) (simp_all add: ordered_in_def)
  have mono: "ekey (entries ! i) \<le> ekey (entries ! j)" if "i \<le> j" "j < length entries" for i j
    using es that by (cases "i = j") (auto simp: ordered_in_def keys_of_def sorted_wrt_iff_nth_less less_imp_le)
  have "0 \<le> r \<and> r \<le> length entries \<and> (\<forall>i. 0 \<le> i \<and> i < r \<longrightarrow> p i) \<and>
      (\<forall>i. r \<le> i \<and> i < length entries \<longrightarrow> \<not> p i)"
    unfolding r_def
  proof (rule search_loop_cuts)
    fix m m'
    assume m: "m' \<le> m" "m < length entries" "p m"
    then have "ekey (entries ! m) < ekey key" using b by simp
    then have "ekey (entries ! m') < ekey key" using mono [OF m(1,2)] by (rule order_le_less_trans [rotated])
    then show "p m'" using b m by simp
  qed simp
  then have cut: "r \<le> length entries \<and> (\<forall>i. i < r \<longrightarrow> p i) \<and> (\<forall>i. r \<le> i \<and> i < length entries \<longrightarrow> \<not> p i)"
    by simp
  have r: "S_tree_place entries key = r" by (simp add: S_tree_place_def r_def p_def)
  show le: "S_tree_place entries key \<le> length entries" using cut r by simp
  have left: "\<forall>e \<in> set (take r entries). ekey e < ekey key"
  proof
    fix e
    assume "e \<in> set (take r entries)"
    then obtain i where "i < r" "i < length entries" "e = entries ! i" by (auto simp: in_set_conv_nth)
    then show "ekey e < ekey key" using cut b [of i] by simp
  qed
  have right: "\<forall>e \<in> set (drop r entries). ekey key \<le> ekey e"
  proof
    fix e
    assume "e \<in> set (drop r entries)"
    then obtain i where "r \<le> i" "i < length entries" "e = entries ! i"
      by (auto simp: in_set_conv_nth) (metis add.commute le_add1 less_diff_conv)
    then show "ekey key \<le> ekey e" using cut b [of i] by (simp add: not_less)
  qed
  have "filter P entries = filter P (take r entries) @ filter P (drop r entries)" for P
    by (metis append_take_drop_id filter_append)
  moreover have "filter (\<lambda>e. ekey e < ekey key) (take r entries) = take r entries"
    "filter (\<lambda>e. ekey e < ekey key) (drop r entries) = []"
    "filter (\<lambda>e. ekey key \<le> ekey e) (take r entries) = []"
    "filter (\<lambda>e. ekey key \<le> ekey e) (drop r entries) = drop r entries"
    using left right by (auto simp: filter_empty_conv not_le not_less intro!: filter_True)
  ultimately show "take (S_tree_place entries key) entries = filter (\<lambda>e. ekey e < ekey key) entries"
    "drop (S_tree_place entries key) entries = filter (\<lambda>e. ekey key \<le> ekey e) entries"
    unfolding r by simp_all
qed

lemma child_cuts:
  assumes cells: "cells_ok ok lo hi cells" and k: "keyed key"
  shows "S_tree_child cells key < length cells"
    and "0 < S_tree_child cells key \<Longrightarrow> sep (cells ! S_tree_child cells key) \<le> ekey key"
    and "S_tree_child cells key + 1 < length cells \<Longrightarrow> ekey key < sep (cells ! (S_tree_child cells key + 1))"
proof -
  define p where "p = (\<lambda>m. \<not> key_before key (first_key (cells ! m)))"
  define r where "r = search_loop p 1 (length cells)"
  have ne: "1 \<le> length cells" using cells by (cases cells) auto
  note seps = cells_seps [OF cells]
  have nth: "cells ! i \<in> set (tl cells) \<and> cells ! i = tl cells ! (i - 1)" if "1 \<le> i" "i < length cells" for i
    using that by (cases cells) (auto simp: nth_Cons split: nat.splits)
  have b: "p i \<longleftrightarrow> sep (cells ! i) \<le> ekey key" if "1 \<le> i" "i < length cells" for i
  proof -
    have "keyed (first_key (cells ! i))" using seps nth [OF that] by blast
    then show ?thesis using before_ekey [OF k] by (simp only: not_less p_def)
  qed
  have mono: "sep (cells ! i) \<le> sep (cells ! j)" if "1 \<le> i" "i \<le> j" "j < length cells" for i j
  proof (cases "i = j")
    case False
    then have "map sep (tl cells) ! (i - 1) < map sep (tl cells) ! (j - 1)"
      using seps that by (intro sorted_wrt_nth_less [of "(<)"]) auto
    then show ?thesis using nth that False by (simp add: less_imp_le)
  qed simp
  have cut: "1 \<le> r \<and> r \<le> length cells \<and> (\<forall>i. 1 \<le> i \<and> i < r \<longrightarrow> p i) \<and> (\<forall>i. r \<le> i \<and> i < length cells \<longrightarrow> \<not> p i)"
    unfolding r_def
  proof (rule search_loop_cuts [OF ne])
    fix m m'
    assume m: "1 \<le> m'" "m' \<le> m" "m < length cells" "p m"
    then have "sep (cells ! m) \<le> ekey key" using b [of m] by simp
    then have "sep (cells ! m') \<le> ekey key" using mono [OF m(1-3)] by (rule order_trans [rotated])
    then show "p m'" using b [of m'] m by simp
  qed
  have c: "S_tree_child cells key = r - 1" by (simp add: S_tree_child_def r_def p_def)
  show "S_tree_child cells key < length cells" using cut ne c by linarith
  show "sep (cells ! S_tree_child cells key) \<le> ekey key" if "0 < S_tree_child cells key"
  proof -
    have i: "1 \<le> r - 1" "r - 1 < r" "r - 1 < length cells" using cut that c by linarith+
    then have "p (r - 1)" using cut by blast
    then show ?thesis using b [OF i(1,3)] c by simp
  qed
  show "ekey key < sep (cells ! (S_tree_child cells key + 1))" if "S_tree_child cells key + 1 < length cells"
  proof -
    have i: "S_tree_child cells key + 1 = r" using cut c by linarith
    then have "\<not> p r" using cut that by simp
    then show ?thesis using b [of r] cut that unfolding i by (simp only: not_le)
  qed
qed

text \<open>
  An inner node around the child a key's place is in: the entries before it have smaller keys and
  those after it larger ones, and the node is in order again with other cells in the child's place.
\<close>

lemma inner_focus:
  assumes n: "node_ok (Suc level) lo hi (Inner cells)" and k: "keyed key" "bounded lo hi (ekey key)"
    and c: "c = S_tree_child cells key"
  obtains lo' hi' where "c < length cells" and "cell_ok level lo' hi' (cells ! c)" and "bounded lo' hi' (ekey key)"
    and "\<forall>e \<in> set (cell_entries level (take c cells)). keyed e \<and> ekey e < ekey key"
    and "\<forall>e \<in> set (cell_entries level (drop (c + 1) cells)). keyed e \<and> ekey key < ekey e"
    and "sum_list (map below (take c cells)) = length (cell_entries level (take c cells))"
    and "\<And>cell' zs. cells_ok (cell_ok level) lo' hi' (cell' # zs) \<Longrightarrow> first_key cell' = first_key (cells ! c) \<Longrightarrow>
      cells_ok (cell_ok level) lo hi (take c cells @ cell' # zs @ drop (c + 1) cells)"
proof -
  let ?ok = "cell_ok level"
  define xs where "xs = take c cells"
  define ys where "ys = drop (c + 1) cells"
  define cell where "cell = cells ! c"
  have ok: "cells_ok ?ok lo hi cells" using n by simp
  note cut = child_cuts [OF ok k(1), folded c]
  have split: "cells = xs @ cell # ys" using cut(1) by (simp add: xs_def ys_def cell_def id_take_nth_drop)
  have ord: "cells_ok ?ok a b zs \<Longrightarrow> ordered_in a b (cell_entries level zs)" for a b zs
    by (rule cells_ordered [where ok = ?ok]) (auto intro: node_ordered)
  have ok': "cells_ok ?ok lo hi (xs @ cell # ys)" using ok unfolding split .
  then obtain lo' hi' where f: "?ok lo' hi' cell" "lo' = (if xs = [] then lo else Some (sep cell))"
    "hi' = (if ys = [] then hi else Some (sep (hd ys)))"
    "\<And>cell' zs. cells_ok ?ok lo' hi' (cell' # zs) \<Longrightarrow> first_key cell' = first_key cell \<Longrightarrow>
      cells_ok ?ok lo hi (xs @ cell' # zs @ ys)"
    by (rule cells_focus) blast
  have low: "xs \<noteq> [] \<Longrightarrow> sep cell \<le> ekey key" using cut(2) unfolding cell_def xs_def by (cases c) auto
  have high: "ys \<noteq> [] \<Longrightarrow> ekey key < sep (hd ys)" using cut(3) unfolding ys_def by (simp add: hd_drop_conv_nth)
  have b: "bounded lo' hi' (ekey key)" using k(2) low high by (auto simp: f(2,3) bounded_def)
  have left: "\<forall>e \<in> set (cell_entries level xs). keyed e \<and> ekey e < ekey key"
  proof (cases "xs = []")
    case False
    then have "cells_ok ?ok lo (Some (sep cell)) xs" using ok' cells_ok_append by blast
    then have o': "\<forall>e \<in> set (cell_entries level xs). keyed e \<and> ekey e < sep cell"
      using ord unfolding ordered_in_def bounded_def by fastforce
    show ?thesis using o' low [OF False] order_less_le_trans by blast
  qed simp
  have right: "\<forall>e \<in> set (cell_entries level ys). keyed e \<and> ekey key < ekey e"
  proof (cases ys)
    case (Cons d ys')
    have "cells_ok ?ok (Some (sep d)) hi ys"
      using ok' cells_ok_append [of "xs @ [cell]" ?ok lo hi d ys'] by (simp add: Cons)
    then have "\<forall>e \<in> set (cell_entries level ys). keyed e \<and> sep d \<le> ekey e"
      using ord unfolding ordered_in_def bounded_def by fastforce
    then show ?thesis using high Cons order_less_le_trans by fastforce
  qed simp
  have sizes: "sum_list (map below zs) = length (cell_entries level zs)" if "cells_ok ?ok a b' (zs @ ws)" for a b' zs ws
    using that
  proof (induction zs arbitrary: a)
    case (Cons z zs)
    have "below z = length (inorder level (child z))"
      using Cons.prems by (cases "zs @ ws") auto
    moreover have "sum_list (map below zs) = length (cell_entries level zs)"
    proof (cases zs)
      case (Cons z' zs')
      then show ?thesis using Cons.IH Cons.prems by auto
    qed simp
    ultimately show ?case by simp
  qed simp
  show thesis
    using that [of lo' hi'] f(1,4) b left right cut(1) sizes [OF ok']
    unfolding cell_def xs_def ys_def by blast
qed

lemma focus_entries:
  assumes "c < length cells"
  shows "inorder (Suc level) (Inner cells) =
    cell_entries level (take c cells) @ inorder level (child (cells ! c)) @ cell_entries level (drop (c + 1) cells)"
proof -
  have "cells = take c cells @ cells ! c # drop (c + 1) cells" using assms by (simp add: id_take_nth_drop)
  then have "cell_entries level cells = cell_entries level (take c cells @ cells ! c # drop (c + 1) cells)" by simp
  then show ?thesis by simp
qed

subsection \<open>Finding\<close>

definition lookup :: "key_entry list \<Rightarrow> byte list \<Rightarrow> key_entry option" where
  "lookup es k = find (\<lambda>e. ekey e = k) es"

definition rank_of :: "key_entry list \<Rightarrow> byte list \<Rightarrow> nat" where
  "rank_of es k = length (filter (\<lambda>e. ekey e < k) es)"

lemma find_skip: "\<forall>e \<in> set xs. \<not> P e \<Longrightarrow> find P (xs @ ys) = find P ys"
  by (induction xs) simp_all

lemma find_none: "\<forall>e \<in> set xs. \<not> P e \<Longrightarrow> find P xs = None"
  by (simp add: find_None_iff)

lemma lookup_focus:
  assumes "\<forall>e \<in> set xs. ekey e < k" and "\<forall>e \<in> set ys. k < ekey e"
  shows "lookup (xs @ es @ ys) k = lookup es k" and "rank_of (xs @ es @ ys) k = length xs + rank_of es k"
proof -
  have x: "\<forall>e \<in> set xs. ekey e \<noteq> k" and y: "\<forall>e \<in> set ys. ekey e \<noteq> k" using assms by auto
  have "find (\<lambda>e. ekey e = k) (es @ ys) = find (\<lambda>e. ekey e = k) es"
    using y by (induction es) (simp_all add: find_None_iff)
  then show "lookup (xs @ es @ ys) k = lookup es k" using x by (simp add: lookup_def find_skip)
  have "filter (\<lambda>e. ekey e < k) xs = xs" "filter (\<lambda>e. ekey e < k) ys = []"
    using assms by (auto simp: filter_empty_conv intro!: filter_True)
  then show "rank_of (xs @ es @ ys) k = length xs + rank_of es k" by (simp add: rank_of_def)
qed

text \<open>In a leaf: the place is the rank, and the entry there is the key's when the leaf has it.\<close>

lemma leaf_lookup:
  assumes es: "ordered_in lo hi entries" and k: "keyed key"
  shows "S_tree_place entries key = rank_of entries (ekey key)"
    and "lookup entries (ekey key) = (if S_tree_place entries key < length entries \<and>
      key_same (entries ! S_tree_place entries key) key then Some (entries ! S_tree_place entries key) else None)"
proof -
  let ?r = "S_tree_place entries key"
  note sp = place_splits [OF es k]
  show "?r = rank_of entries (ekey key)" using sp(1) arg_cong [OF sp(2), of length] by (simp add: rank_of_def)
  have "lookup entries (ekey key) = find (\<lambda>e. ekey e = ekey key) (take ?r entries @ drop ?r entries)"
    by (simp add: lookup_def)
  also have "\<dots> = find (\<lambda>e. ekey e = ekey key) (drop ?r entries)"
    by (rule find_skip) (use sp(2) in auto)
  also have "\<dots> = (if ?r < length entries \<and> key_same (entries ! ?r) key then Some (entries ! ?r) else None)"
  proof (cases "?r < length entries")
    case True
    then have d: "drop ?r entries = entries ! ?r # drop (Suc ?r) entries" by (simp add: Cons_nth_drop_Suc)
    have s: "key_same (entries ! ?r) key \<longleftrightarrow> ekey (entries ! ?r) = ekey key"
      using es True k by (intro same_ekey) (simp_all add: ordered_in_def)
    have "sorted_wrt (<) (keys_of (drop ?r entries))"
      using es unfolding ordered_in_def keys_of_def by (metis drop_map sorted_wrt_drop)
    then have gt: "\<forall>e \<in> set (drop (Suc ?r) entries). ekey (entries ! ?r) < ekey e" by (simp add: d keys_of_def)
    have ge: "ekey key \<le> ekey (entries ! ?r)"
    proof -
      have "entries ! ?r \<in> set (drop ?r entries)" by (simp add: d)
      then show ?thesis unfolding sp(3) by simp
    qed
    have "find (\<lambda>e. ekey e = ekey key) (drop (Suc ?r) entries) = None"
      by (rule find_none) (use gt ge in force)
    then show ?thesis using True s by (simp add: d)
  qed simp
  finally show "lookup entries (ekey key) = (if ?r < length entries \<and> key_same (entries ! ?r) key
      then Some (entries ! ?r) else None)" .
qed

lemma find_walk_finds:
  "node_ok level lo hi node \<Longrightarrow> keyed key \<Longrightarrow> bounded lo hi (ekey key) \<Longrightarrow>
     find_walk level node key before =
       (lookup (inorder level node) (ekey key), before + rank_of (inorder level node) (ekey key))"
proof (induction level arbitrary: lo hi node before)
  case 0
  then obtain es where n: "node = Leaf es" by (cases node) simp_all
  then have "ordered_in lo hi es" using node_ordered [OF 0(1)] by simp
  then show ?case using leaf_lookup [OF _ 0(2)] by (simp add: n Let_def)
next
  case (Suc level)
  then obtain cells where n: "node = Inner cells" by (cases node) simp_all
  let ?c = "S_tree_child cells key"
  obtain lo' hi' where f: "?c < length cells" "cell_ok level lo' hi' (cells ! ?c)" "bounded lo' hi' (ekey key)"
    "\<forall>e \<in> set (cell_entries level (take ?c cells)). keyed e \<and> ekey e < ekey key"
    "\<forall>e \<in> set (cell_entries level (drop (?c + 1) cells)). keyed e \<and> ekey key < ekey e"
    "sum_list (map below (take ?c cells)) = length (cell_entries level (take ?c cells))"
    by (rule inner_focus [OF Suc.prems(1) [unfolded n] Suc.prems(2,3) refl])
  have "find_walk (Suc level) node key before =
      find_walk level (child (cells ! ?c)) key (before + sum_list (map below (take ?c cells)))" by (simp add: n Let_def)
  also have "\<dots> = (lookup (inorder level (child (cells ! ?c))) (ekey key),
      before + sum_list (map below (take ?c cells)) + rank_of (inorder level (child (cells ! ?c))) (ekey key))"
    using Suc.IH [OF _ Suc.prems(2) f(3)] f(2) by blast
  also have "\<dots> = (lookup (inorder (Suc level) node) (ekey key), before + rank_of (inorder (Suc level) node) (ekey key))"
    unfolding n focus_entries [OF f(1)] using lookup_focus f(4-6) by simp
  finally show ?case .
qed

subsection \<open>The entry of a rank\<close>

lemma rank_loop_finds:
  assumes "\<forall>c \<in> set cells. below c = length (inorder level (child c))" and "rank < length (cell_entries level cells)"
  shows "\<exists>c \<in> set cells. rank_loop cells rank = (child c, snd (rank_loop cells rank)) \<and>
    snd (rank_loop cells rank) < length (inorder level (child c)) \<and>
    cell_entries level cells ! rank = inorder level (child c) ! snd (rank_loop cells rank)"
  using assms
proof (induction cells arbitrary: rank)
  case (Cons c cells)
  show ?case
  proof (cases "rank \<ge> below c")
    case True
    then have "rank - below c < length (cell_entries level cells)" using Cons.prems by auto
    from Cons.IH [OF _ this] Cons.prems(1) obtain d where "d \<in> set cells"
      "rank_loop cells (rank - below c) = (child d, snd (rank_loop cells (rank - below c)))"
      "snd (rank_loop cells (rank - below c)) < length (inorder level (child d))"
      "cell_entries level cells ! (rank - below c) = inorder level (child d) ! snd (rank_loop cells (rank - below c))"
      by auto
    then show ?thesis using True Cons.prems(1) by (intro bexI [of _ d]) (auto simp: nth_append)
  next
    case False
    then show ?thesis using Cons.prems(1) by (auto simp: nth_append)
  qed
qed simp

lemma cells_each: "cells_ok ok lo hi cells \<Longrightarrow> c \<in> set cells \<Longrightarrow> \<exists>lo hi. ok lo hi c"
proof (induction ok lo hi cells rule: cells_ok.induct)
  case (3 ok lo hi c' d cells)
  then show ?case by (cases "c = c'") auto
qed auto

lemma at_walk_is_nth:
  "node_ok level lo hi node \<Longrightarrow> rank < length (inorder level node) \<Longrightarrow> at_walk level node rank = inorder level node ! rank"
proof (induction level arbitrary: lo hi node rank)
  case 0
  then show ?case by (cases node) simp_all
next
  case (Suc level)
  then obtain cells where n: "node = Inner cells" "cells_ok (cell_ok level) lo hi cells" by (cases node) auto
  have sizes: "\<forall>c \<in> set cells. below c = length (inorder level (child c))" using cells_each [OF n(2)] by blast
  have "rank < length (cell_entries level cells)" using Suc.prems(2) n(1) by simp
  from rank_loop_finds [OF sizes this] obtain c where c: "c \<in> set cells"
    "rank_loop cells rank = (child c, snd (rank_loop cells rank))" "snd (rank_loop cells rank) < length (inorder level (child c))"
    "cell_entries level cells ! rank = inorder level (child c) ! snd (rank_loop cells rank)" by blast
  obtain lo' hi' where "node_ok level lo' hi' (child c)" using cells_each [OF n(2) c(1)] by blast
  then have "at_walk level (child c) (snd (rank_loop cells rank)) = inorder level (child c) ! snd (rank_loop cells rank)"
    using Suc.IH c(3) by blast
  then show ?case using c(4) by (simp add: n(1)) (subst c(2), simp)
qed

subsection \<open>Removing\<close>

definition without :: "byte list \<Rightarrow> key_entry list \<Rightarrow> key_entry list" where
  "without k es = filter (\<lambda>e. ekey e \<noteq> k) es"

lemma without_focus:
  assumes "\<forall>e \<in> set xs. ekey e < k" and "\<forall>e \<in> set ys. k < ekey e"
  shows "without k (xs @ es @ ys) = xs @ without k es @ ys"
proof -
  have "filter (\<lambda>e. ekey e \<noteq> k) xs = xs" "filter (\<lambda>e. ekey e \<noteq> k) ys = ys"
    using assms by (auto intro!: filter_True)
  then show ?thesis by (simp add: without_def)
qed

lemma ordered_without: "ordered_in lo hi es \<Longrightarrow> ordered_in lo hi (without k es)"
  by (auto simp: ordered_in_def without_def keys_of_def sorted_wrt_map intro: sorted_wrt_filter)

lemma without_absent: "lookup es k = None \<Longrightarrow> without k es = es"
  by (auto simp: lookup_def without_def find_None_iff intro!: filter_True)

lemma without_length:
  assumes "ordered_in lo hi es" and "lookup es k \<noteq> None"
  shows "length (without k es) + 1 = length es"
  using assms
proof (induction es)
  case (Cons e es)
  show ?case
  proof (cases "ekey e = k")
    case True
    have "\<forall>x \<in> set es. ekey x \<noteq> k" using Cons.prems(1) True by (auto simp: ordered_in_def keys_of_def)
    then show ?thesis using True by (simp add: without_def)
  next
    case False
    have "ordered_in lo hi es" using Cons.prems(1) by (auto simp: ordered_in_def keys_of_def)
    then show ?thesis using Cons False by (simp add: without_def lookup_def)
  qed
qed (simp add: lookup_def)

lemma cells_ok_single [simp]: "cells_ok ok lo hi [c] = ok lo hi c"
  by simp

lemma remove_walk_removes:
  "node_ok level lo hi node \<Longrightarrow> keyed key \<Longrightarrow> bounded lo hi (ekey key) \<Longrightarrow>
     (case remove_walk level node key of
        None \<Rightarrow> lookup (inorder level node) (ekey key) = None
      | Some node' \<Rightarrow> lookup (inorder level node) (ekey key) \<noteq> None \<and> node_ok level lo hi node' \<and>
          inorder level node' = without (ekey key) (inorder level node))"
proof (induction level arbitrary: lo hi node)
  case 0
  then obtain es where n: "node = Leaf es" by (cases node) simp_all
  have es: "ordered_in lo hi es" using node_ordered [OF 0(1)] by (simp add: n)
  let ?r = "S_tree_place es key"
  note look = leaf_lookup(2) [OF es 0(2)] and sp = place_splits [OF es 0(2)]
  show ?case
  proof (cases "?r < length es \<and> key_same (es ! ?r) key")
    case False
    then show ?thesis using look by (auto simp: n Let_def)
  next
    case True
    then have lk: "lookup es (ekey key) \<noteq> None" using look by simp
    have s: "ekey (es ! ?r) = ekey key"
      using True es 0(2) same_ekey by (auto simp: ordered_in_def)
    have split: "es = take ?r es @ es ! ?r # drop (?r + 1) es" using True by (simp add: id_take_nth_drop)
    have lt: "\<forall>e \<in> set (take ?r es). ekey e < ekey key" unfolding sp(2) by simp
    have gt: "\<forall>e \<in> set (drop (?r + 1) es). ekey key < ekey e"
    proof -
      have "ordered_in lo hi (take ?r es @ es ! ?r # drop (?r + 1) es)" using es split by simp
      then show ?thesis using s by (auto simp: ordered_in_def keys_of_def sorted_wrt_append)
    qed
    have "without (ekey key) es = take ?r es @ without (ekey key) [es ! ?r] @ drop (?r + 1) es"
      using without_focus [OF lt gt, of "[es ! ?r]"] split by simp
    then have w: "take ?r es @ drop (?r + 1) es = without (ekey key) es" by (simp add: without_def s)
    have "node_ok 0 lo hi (Leaf (without (ekey key) es))"
      using 0(1) ordered_without [OF es, of "ekey key"] le_trans [OF length_filter_le]
      by (auto simp: n ordered_in_def without_def)
    then show ?thesis using True lk w by (simp add: n Let_def not_le)
  qed
next
  case (Suc level)
  then obtain cells where n: "node = Inner cells" by (cases node) simp_all
  let ?c = "S_tree_child cells key"
  obtain lo' hi' where f: "?c < length cells" "cell_ok level lo' hi' (cells ! ?c)" "bounded lo' hi' (ekey key)"
    "\<forall>e \<in> set (cell_entries level (take ?c cells)). keyed e \<and> ekey e < ekey key"
    "\<forall>e \<in> set (cell_entries level (drop (?c + 1) cells)). keyed e \<and> ekey key < ekey e"
    "\<And>cell' zs. cells_ok (cell_ok level) lo' hi' (cell' # zs) \<Longrightarrow> first_key cell' = first_key (cells ! ?c) \<Longrightarrow>
      cells_ok (cell_ok level) lo hi (take ?c cells @ cell' # zs @ drop (?c + 1) cells)"
    by (rule inner_focus [OF Suc.prems(1) [unfolded n] Suc.prems(2,3) refl]) blast
  note ih = Suc.IH [OF _ Suc.prems(2) f(3), of "child (cells ! ?c)"]
  have lk: "lookup (inorder (Suc level) node) (ekey key) = lookup (inorder level (child (cells ! ?c))) (ekey key)"
    unfolding n focus_entries [OF f(1)] using lookup_focus(1) f(4,5) by simp
  show ?case
  proof (cases "remove_walk level (child (cells ! ?c)) key")
    case None
    then show ?thesis using ih f(2) lk by (simp add: n Let_def)
  next
    case (Some node')
    then have r: "lookup (inorder level (child (cells ! ?c))) (ekey key) \<noteq> None" "node_ok level lo' hi' node'"
      "inorder level node' = without (ekey key) (inorder level (child (cells ! ?c)))" using ih f(2) by simp_all
    let ?cell = "Cell node' (below (cells ! ?c) - 1) (first_key (cells ! ?c))"
    have upd: "cells[?c := ?cell] = take ?c cells @ ?cell # [] @ drop (?c + 1) cells"
      using f(1) by (simp add: upd_conv_take_nth_drop)
    have "length (without (ekey key) (inorder level (child (cells ! ?c)))) + 1 = length (inorder level (child (cells ! ?c)))"
      using without_length [OF node_ordered r(1)] f(2) by blast
    then have "cell_ok level lo' hi' ?cell" using r f(2) by simp
    then have "cells_ok (cell_ok level) lo hi (cells[?c := ?cell])" unfolding upd by (intro f(6)) simp_all
    then have ok: "node_ok (Suc level) lo hi (Inner (cells[?c := ?cell]))" using Suc.prems(1) by (simp add: n)
    have "inorder (Suc level) (Inner (cells[?c := ?cell])) = cell_entries level (take ?c cells) @ inorder level node' @
        cell_entries level (drop (?c + 1) cells)" unfolding upd by simp
    also have "\<dots> = without (ekey key) (inorder (Suc level) node)"
      unfolding n focus_entries [OF f(1)] r(3) by (rule without_focus [symmetric]) (use f(4,5) in blast)+
    finally show ?thesis using Some ok lk r(1) by (simp add: n Let_def)
  qed
qed

subsection \<open>Walking\<close>

definition cursor_entries :: "tree_cursor \<Rightarrow> key_entry list" where
  "cursor_entries cursor =
     (case cu_leaves cursor of [] \<Rightarrow> [] | leaf # leaves \<Rightarrow> drop (cu_index cursor) leaf @ concat leaves)"

definition cursor_ok :: "tree_cursor \<Rightarrow> bool" where
  "cursor_ok cursor \<longleftrightarrow> cu_leaves cursor \<noteq> [] \<longrightarrow> cu_index cursor \<le> length (hd (cu_leaves cursor))"

text \<open>What \<open>n\<close> calls of \<open>key_tree_next\<close> answer.\<close>

fun walk :: "nat \<Rightarrow> tree_cursor \<Rightarrow> key_entry list" where
  "walk 0 cursor = []"
| "walk (Suc n) cursor =
     (case key_tree_next cursor of (None, _) \<Rightarrow> [] | (Some e, cursor) \<Rightarrow> e # walk n cursor)"

lemma next_loop_steps:
  "leaves \<noteq> [] \<longrightarrow> index \<le> length (hd leaves) \<Longrightarrow>
     (case next_loop leaves index of
        (None, _) \<Rightarrow> cursor_entries \<lparr>cu_leaves = leaves, cu_index = index\<rparr> = []
      | (Some e, cursor') \<Rightarrow> cursor_ok cursor' \<and>
          cursor_entries \<lparr>cu_leaves = leaves, cu_index = index\<rparr> = e # cursor_entries cursor')"
proof (induction leaves index rule: next_loop.induct)
  case (2 leaf leaves index)
  show ?case
  proof (cases "index = length leaf")
    case True
    have "cursor_entries \<lparr>cu_leaves = leaf # leaves, cu_index = index\<rparr> = cursor_entries \<lparr>cu_leaves = leaves, cu_index = 0\<rparr>"
      using True by (cases leaves) (simp_all add: cursor_entries_def)
    then show ?thesis using 2(1) [OF True] True by (cases "next_loop leaves 0") (auto split: option.splits)
  next
    case False
    then have "index < length leaf" using 2(2) by simp
    then show ?thesis by (simp add: cursor_entries_def cursor_ok_def Cons_nth_drop_Suc [symmetric])
  qed
qed (simp add: cursor_entries_def)

lemma walk_takes: "cursor_ok cursor \<Longrightarrow> walk n cursor = take n (cursor_entries cursor)"
proof (induction n arbitrary: cursor)
  case (Suc n)
  have "case key_tree_next cursor of
      (None, _) \<Rightarrow> cursor_entries cursor = []
    | (Some e, cursor') \<Rightarrow> cursor_ok cursor' \<and> cursor_entries cursor = e # cursor_entries cursor'"
  proof (cases cursor)
    case (fields leaves index)
    then show ?thesis using next_loop_steps [of leaves index] Suc.prems
      by (cases "next_loop leaves index") (auto simp: key_tree_next_def cursor_ok_def split: option.splits)
  qed
  then show ?case using Suc.IH by (auto split: prod.splits option.splits)
qed simp

lemma leaf_entries_concat:
  "concat (concat (map (\<lambda>c. leaf_list level (child c)) cells)) = cell_entries level cells"
  by (induction cells) (simp_all add: inorder_def)

lemma seek_walk_seeks:
  "node_ok level lo hi node \<Longrightarrow> keyed key \<Longrightarrow> bounded lo hi (ekey key) \<Longrightarrow>
     cursor_ok (seek_walk level node key rest) \<and>
     cursor_entries (seek_walk level node key rest) =
       filter (\<lambda>e. ekey key \<le> ekey e) (inorder level node) @ concat rest"
proof (induction level arbitrary: lo hi node rest)
  case 0
  then obtain es where n: "node = Leaf es" by (cases node) simp_all
  have "ordered_in lo hi es" using node_ordered [OF 0(1)] by (simp add: n)
  then show ?case using place_splits [OF _ 0(2)] by (simp add: n cursor_ok_def cursor_entries_def)
next
  case (Suc level)
  then obtain cells where n: "node = Inner cells" by (cases node) simp_all
  let ?c = "S_tree_child cells key"
  obtain lo' hi' where f: "?c < length cells" "cell_ok level lo' hi' (cells ! ?c)" "bounded lo' hi' (ekey key)"
    "\<forall>e \<in> set (cell_entries level (take ?c cells)). keyed e \<and> ekey e < ekey key"
    "\<forall>e \<in> set (cell_entries level (drop (?c + 1) cells)). keyed e \<and> ekey key < ekey e"
    by (rule inner_focus [OF Suc.prems(1) [unfolded n] Suc.prems(2,3) refl]) blast
  let ?rest = "concat (map (\<lambda>c. leaf_list level (child c)) (drop (?c + 1) cells)) @ rest"
  have r: "concat ?rest = cell_entries level (drop (?c + 1) cells) @ concat rest"
    by (simp add: leaf_entries_concat)
  have "filter (\<lambda>e. ekey key \<le> ekey e) (cell_entries level (take ?c cells)) = []"
    "filter (\<lambda>e. ekey key \<le> ekey e) (cell_entries level (drop (?c + 1) cells)) = cell_entries level (drop (?c + 1) cells)"
    using f(4,5) by (auto simp: filter_empty_conv not_le less_imp_le intro!: filter_True)
  then have "filter (\<lambda>e. ekey key \<le> ekey e) (inorder (Suc level) node) =
      filter (\<lambda>e. ekey key \<le> ekey e) (inorder level (child (cells ! ?c))) @ cell_entries level (drop (?c + 1) cells)"
    unfolding n focus_entries [OF f(1)] by simp
  then show ?case using Suc.IH [OF _ Suc.prems(2) f(3), of "child (cells ! ?c)" ?rest] f(2) r by (simp add: n Let_def)
qed

subsection \<open>Inserting\<close>

definition insert_sorted :: "key_entry \<Rightarrow> key_entry list \<Rightarrow> key_entry list" where
  "insert_sorted e es = filter (\<lambda>x. ekey x < ekey e) es @ e # filter (\<lambda>x. ekey e < ekey x) es"

lemma insert_sorted_focus:
  assumes "\<forall>x \<in> set xs. ekey x < ekey e" and "\<forall>y \<in> set ys. ekey e < ekey y"
  shows "insert_sorted e (xs @ es @ ys) = xs @ insert_sorted e es @ ys"
proof -
  have "filter (\<lambda>x. ekey x < ekey e) xs = xs" "filter (\<lambda>x. ekey e < ekey x) xs = []"
    "filter (\<lambda>x. ekey x < ekey e) ys = []" "filter (\<lambda>x. ekey e < ekey x) ys = ys"
    using assms by (auto simp: filter_empty_conv not_less less_imp_le intro!: filter_True)
  then show ?thesis by (simp add: insert_sorted_def)
qed

lemma ordered_insert:
  assumes "ordered_in lo hi es" and "keyed e" and "bounded lo hi (ekey e)"
  shows "ordered_in lo hi (insert_sorted e es)"
  using assms by (auto simp: ordered_in_def insert_sorted_def keys_of_def sorted_wrt_append sorted_wrt_map intro: sorted_wrt_filter)

lemma length_insert_sorted: "lookup es (ekey e) = None \<Longrightarrow> length (insert_sorted e es) = length es + 1"
proof (induction es)
  case (Cons x es)
  then have "ekey x \<noteq> ekey e" "lookup es (ekey e) = None" by (simp_all add: lookup_def split: if_splits)
  then show ?case using Cons.IH by (cases "ekey x < ekey e") (auto simp: insert_sorted_def)
qed (simp add: insert_sorted_def)

lemma new_entry_key: "keyed key \<Longrightarrow> keyed (new_entry key)" "keyed key \<Longrightarrow> ekey (new_entry key) = ekey key"
proof -
  have e: "entry_of k (new_entry key) \<longleftrightarrow> entry_of k key" for k by (simp add: entry_of_def new_entry_def)
  then show "keyed key \<Longrightarrow> keyed (new_entry key)" "keyed key \<Longrightarrow> ekey (new_entry key) = ekey key"
    by (simp_all add: keyed_def ekey_def)
qed

lemma insert_at_place:
  assumes es: "ordered_in lo hi es" and k: "keyed key" and fresh: "lookup es (ekey key) = None"
  shows "insert_at (S_tree_place es key) (new_entry key) es = insert_sorted (new_entry key) es"
proof -
  have "\<forall>e \<in> set es. ekey e \<noteq> ekey key" using fresh by (auto simp: lookup_def find_None_iff)
  then have "filter (\<lambda>e. ekey key \<le> ekey e) es = filter (\<lambda>e. ekey key < ekey e) es"
    by (intro filter_cong) auto
  then show ?thesis using place_splits [OF es k] new_entry_key(2) [OF k] by (simp add: insert_at_def insert_sorted_def)
qed

lemma split_insert_cuts:
  assumes "length xs = KEY_TREE_FANOUT"
  shows "split_insert place x xs = (take 8 (insert_at place x xs), drop 8 (insert_at place x xs))"
proof -
  have h: "tree_half = 8" by (simp add: tree_half_def KEY_TREE_FANOUT_def)
  have l: "length xs = 16" using assms by (simp add: KEY_TREE_FANOUT_def)
  show ?thesis
  proof (cases "place < 8")
    case True
    then have "8 - place = Suc (7 - place)" by simp
    then show ?thesis using True l by (simp add: split_insert_def h insert_at_def drop_take min_def)
  next
    case False
    then show ?thesis using l by (simp add: split_insert_def h insert_at_def Let_def take_drop min_def)
  qed
qed

lemma ordered_cut:
  assumes "ordered_in lo hi (xs @ y # ys)" and "xs \<noteq> []"
  shows "separates lo hi (ekey y)" and "ordered_in lo (Some (ekey y)) xs" and "ordered_in (Some (ekey y)) hi (y # ys)"
proof -
  obtain x where x: "x \<in> set xs" using assms(2) by (cases xs) auto
  have lt: "\<forall>x \<in> set xs. ekey x < ekey y" "\<forall>z \<in> set ys. ekey y < ekey z"
    using assms(1) by (auto simp: ordered_in_def keys_of_def sorted_wrt_append)
  show "separates lo hi (ekey y)" using assms(1) x lt(1)
    unfolding ordered_in_def separates_def bounded_def by (auto dest: order_le_less_trans)
  show "ordered_in lo (Some (ekey y)) xs" "ordered_in (Some (ekey y)) hi (y # ys)"
    using assms(1) lt by (auto simp: ordered_in_def keys_of_def sorted_wrt_append bounded_def less_imp_le)
qed

lemma node_size: "node_ok level lo hi node \<Longrightarrow> S_tree_size level node = length (inorder level node)"
proof (cases level)
  case (Suc l)
  assume "node_ok level lo hi node"
  then obtain cells where n: "node = Inner cells" "cells_ok (cell_ok l) lo hi cells" using Suc by (cases node) auto
  have "\<forall>c \<in> set cells. below c = length (inorder l (child c))" using cells_each [OF n(2)] by blast
  then have "map below cells = map (\<lambda>c. length (inorder l (child c))) cells" by simp
  from arg_cong [OF this, of sum_list] show ?thesis by (simp add: Suc n(1) length_concat comp_def)
qed (cases node; simp)

text \<open>What an insertion leaves of a node: the node, or two with a key between them.\<close>

definition inserted :: "nat \<Rightarrow> byte list option \<Rightarrow> byte list option \<Rightarrow> key_entry list \<Rightarrow>
    tree_node \<times> (tree_node \<times> key_entry \<times> nat) option \<Rightarrow> bool" where
  "inserted level lo hi es result \<longleftrightarrow>
     (case result of
        (node, None) \<Rightarrow> node_ok level lo hi node \<and> inorder level node = es
      | (node, Some (made, key, n)) \<Rightarrow>
          keyed key \<and> separates lo hi (ekey key) \<and> node_ok level lo (Some (ekey key)) node \<and>
          node_ok level (Some (ekey key)) hi made \<and> n = length (inorder level made) \<and>
          inorder level node @ inorder level made = es)"

lemma drop_eighth: "length xs = 17 \<Longrightarrow> drop 8 xs = xs ! 8 # drop 9 xs"
  using Cons_nth_drop_Suc [of 8 xs] by simp

lemma leaf_inserted:
  assumes n: "node_ok 0 lo hi (Leaf es)" and k: "keyed key" "bounded lo hi (ekey key)"
    and fresh: "lookup es (ekey key) = None"
  shows "inserted 0 lo hi (insert_sorted (new_entry key) es) (insert_walk 0 (Leaf es) key)"
proof -
  let ?es = "insert_sorted (new_entry key) es"
  have es: "ordered_in lo hi es" using node_ordered [OF n] by simp
  note at = insert_at_place [OF es k(1) fresh] and ne = new_entry_key [OF k(1)]
  have ord: "ordered_in lo hi ?es" using ordered_insert [OF es ne(1)] ne(2) k(2) by simp
  have len: "length ?es = length es + 1" using fresh ne(2) by (intro length_insert_sorted) simp
  show ?thesis
  proof (cases "length es < KEY_TREE_FANOUT")
    case True
    then show ?thesis using at ord len by (simp add: inserted_def Let_def ordered_in_def)
  next
    case False
    then have full: "length es = KEY_TREE_FANOUT" using n by simp
    then have l17: "length ?es = 17" using len by (simp add: KEY_TREE_FANOUT_def)
    have d: "drop 8 ?es = ?es ! 8 # drop 9 ?es" by (rule drop_eighth [OF l17])
    have "ordered_in lo hi (take 8 ?es @ ?es ! 8 # drop 9 ?es)" using ord d by (metis append_take_drop_id)
    moreover have "take 8 ?es \<noteq> []" using l17 by auto
    ultimately have c: "separates lo hi (ekey (?es ! 8))" "ordered_in lo (Some (ekey (?es ! 8))) (take 8 ?es)"
      "ordered_in (Some (ekey (?es ! 8))) hi (?es ! 8 # drop 9 ?es)" by (rule ordered_cut)+
    have "keyed (?es ! 8)" using ord l17 by (simp add: ordered_in_def)
    then show ?thesis using False c l17
      by (simp add: inserted_def split_insert_cuts [OF full] at Let_def flip: d)
        (simp add: ordered_in_def KEY_TREE_FANOUT_def)
  qed
qed

lemma insert_at_length: "length (insert_at p x xs) = length xs + 1"
  by (simp add: insert_at_def min_def)

lemma inner_cells_inserted:
  assumes cells: "cells_ok (cell_ok level) lo hi (insert_at p made cells)" and len: "length cells \<le> KEY_TREE_FANOUT"
  shows "inserted (Suc level) lo hi (cell_entries level (insert_at p made cells))
    (if length cells < KEY_TREE_FANOUT then (Inner (insert_at p made cells), None)
     else let (left, right) = split_insert p made cells
          in (Inner left, Some (Inner right, first_key (right ! 0), S_tree_size (Suc level) (Inner right))))"
proof (cases "length cells < KEY_TREE_FANOUT")
  case True
  then show ?thesis using cells by (simp add: inserted_def insert_at_length)
next
  case False
  then have full: "length cells = KEY_TREE_FANOUT" using len by simp
  define all where "all = insert_at p made cells"
  have l17: "length all = 17" by (simp add: all_def insert_at_length full KEY_TREE_FANOUT_def)
  have d: "drop 8 all = all ! 8 # drop 9 all" by (rule drop_eighth [OF l17])
  have split: "all = take 8 all @ all ! 8 # drop 9 all" using d by (metis append_take_drop_id)
  have "take 8 all \<noteq> []" using l17 by auto
  from cells_ok_append [OF this, of "cell_ok level" lo hi "all ! 8" "drop 9 all"] cells split
  have c: "keyed (first_key (all ! 8))" "separates lo hi (sep (all ! 8))"
    "cells_ok (cell_ok level) lo (Some (sep (all ! 8))) (take 8 all)"
    "cells_ok (cell_ok level) (Some (sep (all ! 8))) hi (all ! 8 # drop 9 all)" by (simp_all add: all_def)
  have left: "node_ok (Suc level) lo (Some (sep (all ! 8))) (Inner (take 8 all))"
    using c(3) l17 by (simp add: KEY_TREE_FANOUT_def)
  have right: "node_ok (Suc level) (Some (sep (all ! 8))) hi (Inner (drop 8 all))"
    using c(4) l17 unfolding d by (simp add: KEY_TREE_FANOUT_def)
  have "first_key (drop 8 all ! 0) = first_key (all ! 8)" by (simp add: d)
  moreover have "cell_entries level (take 8 all) @ cell_entries level (drop 8 all) = cell_entries level all"
    by (metis append_take_drop_id concat_append map_append)
  ultimately show ?thesis using False c(1,2) left right node_size [OF right]
    by (simp add: inserted_def split_insert_cuts [OF full] all_def)
qed

lemma insert_walk_inserts:
  "node_ok level lo hi node \<Longrightarrow> keyed key \<Longrightarrow> bounded lo hi (ekey key) \<Longrightarrow>
     lookup (inorder level node) (ekey key) = None \<Longrightarrow>
     inserted level lo hi (insert_sorted (new_entry key) (inorder level node)) (insert_walk level node key)"
proof (induction level arbitrary: lo hi node)
  case 0
  then obtain es where n: "node = Leaf es" by (cases node) simp_all
  show ?case using leaf_inserted [of lo hi es key] 0 by (simp add: n)
next
  case (Suc level)
  then obtain cells where n: "node = Inner cells" by (cases node) simp_all
  let ?c = "S_tree_child cells key"
  let ?cell = "cells ! ?c"
  let ?new = "new_entry key"
  obtain lo' hi' where f: "?c < length cells" "cell_ok level lo' hi' ?cell" "bounded lo' hi' (ekey key)"
    "\<forall>e \<in> set (cell_entries level (take ?c cells)). keyed e \<and> ekey e < ekey key"
    "\<forall>e \<in> set (cell_entries level (drop (?c + 1) cells)). keyed e \<and> ekey key < ekey e"
    "\<And>cell' zs. cells_ok (cell_ok level) lo' hi' (cell' # zs) \<Longrightarrow> first_key cell' = first_key ?cell \<Longrightarrow>
      cells_ok (cell_ok level) lo hi (take ?c cells @ cell' # zs @ drop (?c + 1) cells)"
    by (rule inner_focus [OF Suc.prems(1) [unfolded n] Suc.prems(2,3) refl]) blast
  have len: "length cells \<le> KEY_TREE_FANOUT" using Suc.prems(1) by (simp add: n)
  have fresh: "lookup (inorder level (child ?cell)) (ekey key) = None"
    using Suc.prems(4) f(4,5) unfolding n focus_entries [OF f(1)] by (subst (asm) lookup_focus(1)) auto
  have es: "insert_sorted ?new (inorder (Suc level) node) = cell_entries level (take ?c cells) @
      insert_sorted ?new (inorder level (child ?cell)) @ cell_entries level (drop (?c + 1) cells)"
    unfolding n focus_entries [OF f(1)] using f(4,5) new_entry_key(2) [OF Suc.prems(2)]
    by (intro insert_sorted_focus) simp_all
  have ih: "inserted level lo' hi' (insert_sorted ?new (inorder level (child ?cell))) (insert_walk level (child ?cell) key)"
    using Suc.IH [OF _ Suc.prems(2) f(3) fresh] f(2) by blast
  obtain child' result where w: "insert_walk level (child ?cell) key = (child', result)" by (metis surj_pair)
  have upd: "cells[?c := x] = take ?c cells @ x # drop (?c + 1) cells" for x
    using f(1) by (simp add: upd_conv_take_nth_drop)
  show ?case
  proof (cases result)
    case None
    let ?cell' = "Cell child' (below ?cell + 1) (first_key ?cell)"
    have i: "node_ok level lo' hi' child'" "inorder level child' = insert_sorted ?new (inorder level (child ?cell))"
      using ih by (simp_all add: w None inserted_def)
    have "length (insert_sorted ?new (inorder level (child ?cell))) = length (inorder level (child ?cell)) + 1"
      using fresh new_entry_key(2) [OF Suc.prems(2)] by (intro length_insert_sorted) simp
    then have "cell_ok level lo' hi' ?cell'" using i f(2) by simp
    then have "cells_ok (cell_ok level) lo hi (take ?c cells @ ?cell' # [] @ drop (?c + 1) cells)" by (intro f(6)) simp_all
    then show ?thesis using len i(2) f(1) unfolding es by (simp add: n w None inserted_def Let_def upd min_def)
  next
    case (Some made)
    then obtain made_node made_key made_size where m: "result = Some (made_node, made_key, made_size)" by (cases made) auto
    let ?cell' = "Cell child' (S_tree_size level child') (first_key ?cell)" and ?made = "Cell made_node made_size made_key"
    have i: "keyed made_key" "separates lo' hi' (ekey made_key)" "node_ok level lo' (Some (ekey made_key)) child'"
      "node_ok level (Some (ekey made_key)) hi' made_node" "made_size = length (inorder level made_node)"
      "inorder level child' @ inorder level made_node = insert_sorted ?new (inorder level (child ?cell))"
      using ih by (simp_all add: w m inserted_def)
    have at: "insert_at (?c + 1) ?made (cells[?c := ?cell']) = take ?c cells @ ?cell' # [?made] @ drop (?c + 1) cells"
      using f(1) by (simp add: insert_at_def upd)
    have "cells_ok (cell_ok level) lo' hi' (?cell' # [?made])" using i node_size [OF i(3)] by simp
    then have ok: "cells_ok (cell_ok level) lo hi (insert_at (?c + 1) ?made (cells[?c := ?cell']))"
      unfolding at by (rule f(6)) simp
    have e: "cell_entries level (insert_at (?c + 1) ?made (cells[?c := ?cell'])) = insert_sorted ?new (inorder (Suc level) node)"
      unfolding at es i(6) [symmetric] by simp
    have "insert_walk (Suc level) node key =
      (if length (cells[?c := ?cell']) < KEY_TREE_FANOUT then (Inner (insert_at (?c + 1) ?made (cells[?c := ?cell'])), None)
       else let (left, right) = split_insert (?c + 1) ?made (cells[?c := ?cell'])
            in (Inner left, Some (Inner right, first_key (right ! 0), S_tree_size (Suc level) (Inner right))))"
      by (simp add: n w m Let_def)
    then show ?thesis using inner_cells_inserted [OF ok] len unfolding e by simp
  qed
qed

subsection \<open>The levels\<close>


text \<open>The counts the theorem of the levels needs: a node's cells are never more than the fanout.\<close>

fun narrow :: "nat \<Rightarrow> tree_node \<Rightarrow> bool" where
  "narrow 0 (Leaf entries) = True"
| "narrow (Suc level) (Inner cells) = (length cells \<le> KEY_TREE_FANOUT \<and> (\<forall>c \<in> set cells. narrow level (child c)))"
| "narrow _ _ = False"

lemma node_narrow: "node_ok level lo hi node \<Longrightarrow> narrow level node"
proof (induction level arbitrary: lo hi node)
  case 0
  then show ?case by (cases node) simp_all
next
  case (Suc level)
  then obtain cells where n: "node = Inner cells" "cells_ok (cell_ok level) lo hi cells" "length cells \<le> KEY_TREE_FANOUT"
    by (cases node) auto
  then show ?case using Suc.IH cells_each [OF n(2)] by fastforce
qed

lemma search_loop_range: "low \<le> high \<Longrightarrow> low \<le> search_loop p low high \<and> search_loop p low high \<le> high"
proof (induction p low high rule: search_loop.induct)
  case (1 p low high)
  show ?case
  proof (cases "low < high")
    case True
    define middle where "middle = low + (high - low) div 2"
    have m: "low \<le> middle" "middle < high" using True by (simp_all add: middle_def)
    show ?thesis using 1(1) [OF True middle_def] 1(2) [OF True middle_def] m True
      by (cases "p middle") (auto simp: search_loop.simps [of p low high] middle_def [symmetric] Let_def)
  next
    case False
    then have "search_loop p low high = low" by (simp add: search_loop.simps [of p low high])
    then show ?thesis using 1(3) by simp
  qed
qed

lemma S_tree_child_less: "cells \<noteq> [] \<Longrightarrow> S_tree_child cells key < length cells"
proof -
  assume "cells \<noteq> []"
  then have l: "1 \<le> length cells" by (cases cells) simp_all
  from search_loop_range [OF l, of "\<lambda>m. \<not> key_before key (first_key (cells ! m))"] l show ?thesis
    unfolding S_tree_child_def by linarith
qed

lemma set_insert_at: "set (insert_at p x xs) = insert x (set xs)"
proof -
  have "set (take p xs) \<union> set (drop p xs) = set xs" by (metis append_take_drop_id set_append)
  then show ?thesis by (auto simp: insert_at_def)
qed

lemma cells_fan_insert:
  assumes kids: "\<forall>c \<in> set cells. fan level (child c)" and ne: "cells \<noteq> []" and len: "length cells \<le> KEY_TREE_FANOUT"
    and narrow: "\<forall>c \<in> set cells. narrow level (child c)"
    and ih: "\<And>node node' made. fan level node \<Longrightarrow> narrow level node \<Longrightarrow> insert_walk level node key = (node', made) \<Longrightarrow>
      fan level node' \<and> (\<forall>m k n. made = Some (m, k, n) \<longrightarrow> fan level m)"
    and w: "insert_walk (Suc level) (Inner cells) key = (node', made)"
  shows "case made of
      None \<Rightarrow> \<exists>cells'. node' = Inner cells' \<and> length cells \<le> length cells' \<and> (\<forall>c \<in> set cells'. fan level (child c))
    | Some (m, k, n) \<Rightarrow> fan (Suc level) node' \<and> fan (Suc level) m"
proof -
  let ?c = "S_tree_child cells key"
  let ?cell = "cells ! ?c"
  have c: "?c < length cells" using ne by (rule S_tree_child_less)
  then have f: "fan level (child ?cell)" and na: "narrow level (child ?cell)" using kids narrow by simp_all
  obtain child' result where r: "insert_walk level (child ?cell) key = (child', result)" by (metis surj_pair)
  note i = ih [OF f na r]
  have put: "\<forall>d \<in> set (cells[?c := Cell child' n k]). fan level (child d)" for n k
    using kids i set_update_subset_insert [of cells ?c "Cell child' n k"] by auto
  show ?thesis
  proof (cases result)
    case None
    then have "node' = Inner (cells[?c := Cell child' (below ?cell + 1) (first_key ?cell)])" "made = None"
      using w r by (simp_all add: Let_def)
    then show ?thesis using put by auto
  next
    case (Some made')
    then obtain mn mk ms where m: "result = Some (mn, mk, ms)" by (cases made') auto
    define cells' where "cells' = cells[?c := Cell child' (S_tree_size level child') (first_key ?cell)]"
    define all where "all = insert_at (?c + 1) (Cell mn ms mk) cells'"
    have kids': "\<forall>d \<in> set all. fan level (child d)"
      using put i m unfolding all_def set_insert_at cells'_def by auto
    have l: "length cells' = length cells" "length all = length cells + 1"
      by (simp_all add: cells'_def all_def insert_at_length)
    have "insert_walk (Suc level) (Inner cells) key = (if length cells' < KEY_TREE_FANOUT then (Inner all, None)
        else let (left, right) = split_insert (?c + 1) (Cell mn ms mk) cells'
             in (Inner left, Some (Inner right, first_key (right ! 0), S_tree_size (Suc level) (Inner right))))"
      using r m by (simp add: Let_def cells'_def all_def)
    note w' = this [unfolded w]
    show ?thesis
    proof (cases "length cells' < KEY_TREE_FANOUT")
      case True
      then show ?thesis using w' kids' l by simp
    next
      case False
      then have full: "length cells' = KEY_TREE_FANOUT" using len l by simp
      have n: "node' = Inner (take 8 all)" "made = Some (Inner (drop 8 all), first_key (drop 8 all ! 0),
          S_tree_size (Suc level) (Inner (drop 8 all)))"
        using w' False by (simp_all add: split_insert_cuts [OF full] all_def)
      have "length all = 17" using full l by (simp add: KEY_TREE_FANOUT_def)
      then show ?thesis using kids' by (auto simp: n dest: in_set_takeD in_set_dropD)
    qed
  qed
qed

lemma leaf_insert_leaves:
  assumes "insert_walk 0 (Leaf es) key = (node', made)"
  shows "\<exists>xs. node' = Leaf xs \<and> (made = None \<or> (\<exists>ys k n. made = Some (Leaf ys, k, n)))"
proof -
  obtain left right where "split_insert (S_tree_place es key) (new_entry key) es = (left, right)" by (metis surj_pair)
  then show ?thesis using assms by (cases "length es < KEY_TREE_FANOUT") (auto simp: Let_def)
qed

lemma fan_insert:
  "fan level node \<Longrightarrow> narrow level node \<Longrightarrow> insert_walk level node key = (node', made) \<Longrightarrow>
     fan level node' \<and> (\<forall>m k n. made = Some (m, k, n) \<longrightarrow> fan level m)"
proof (induction level arbitrary: node node' made)
  case 0
  then obtain es where n: "node = Leaf es" by (cases node) simp_all
  from leaf_insert_leaves [OF 0(3) [unfolded n]] show ?case by auto
next
  case (Suc level)
  obtain cells where n: "node = Inner cells" using Suc.prems(1) by (cases node) simp_all
  have k: "8 \<le> length cells" "\<forall>c \<in> set cells. fan level (child c)" "length cells \<le> KEY_TREE_FANOUT"
    "\<forall>c \<in> set cells. narrow level (child c)" using Suc.prems by (simp_all add: n)
  have ne: "cells \<noteq> []" using k(1) by auto
  have "case made of
      None \<Rightarrow> \<exists>cells'. node' = Inner cells' \<and> length cells \<le> length cells' \<and> (\<forall>c \<in> set cells'. fan level (child c))
    | Some (m, k, n) \<Rightarrow> fan (Suc level) node' \<and> fan (Suc level) m"
    by (rule cells_fan_insert [OF k(2) ne k(3,4) Suc.IH Suc.prems(3) [unfolded n]])
  then show ?case using k(1) by (cases made) auto
qed

lemma root_fan_insert:
  assumes "root_fan level node" and "narrow level node" and "insert_walk level node key = (node', made)"
  shows "case made of None \<Rightarrow> root_fan level node' | Some (m, k, n) \<Rightarrow> fan level node' \<and> fan level m"
proof (cases level)
  case 0
  then obtain es where n: "node = Leaf es" using assms(1) by (cases node) simp_all
  from leaf_insert_leaves [OF assms(3) [unfolded n 0]] show ?thesis by (auto simp: 0)
next
  case (Suc l)
  then obtain cells where n: "node = Inner cells" using assms(1) by (cases node) simp_all
  have k: "2 \<le> length cells" "\<forall>c \<in> set cells. fan l (child c)" "length cells \<le> KEY_TREE_FANOUT"
    "\<forall>c \<in> set cells. narrow l (child c)" using assms by (simp_all add: n Suc)
  have ne: "cells \<noteq> []" using k(1) by auto
  have "case made of
      None \<Rightarrow> \<exists>cells'. node' = Inner cells' \<and> length cells \<le> length cells' \<and> (\<forall>c \<in> set cells'. fan l (child c))
    | Some (m, k, n) \<Rightarrow> fan (Suc l) node' \<and> fan (Suc l) m"
    by (rule cells_fan_insert [OF k(2) ne k(3,4) fan_insert assms(3) [unfolded n Suc]])
  then show ?thesis using k(1) Suc by (cases made) auto
qed

lemma fan_remove: "fan level node \<Longrightarrow> remove_walk level node key = Some node' \<Longrightarrow> fan level node'"
proof (induction level arbitrary: node node')
  case 0
  then obtain es where n: "node = Leaf es" by (cases node) simp_all
  show ?case using 0(2) by (auto simp: n Let_def split: if_splits)
next
  case (Suc level)
  obtain cells where n: "node = Inner cells" using Suc.prems(1) by (cases node) simp_all
  then have "cells \<noteq> []" using Suc.prems(1) by auto
  then have "fan level (child (cells ! S_tree_child cells key))"
    using Suc.prems(1) S_tree_child_less [of cells key] by (simp add: n)
  then show ?case using Suc set_update_subset_insert by (fastforce simp: n Let_def)
qed

lemma root_fan_remove: "root_fan level node \<Longrightarrow> remove_walk level node key = Some node' \<Longrightarrow> root_fan level node'"
proof (cases level)
  case 0
  assume "root_fan level node" "remove_walk level node key = Some node'"
  then show ?thesis using 0 by (cases node) (auto simp: Let_def split: if_splits)
next
  case (Suc l)
  assume a: "root_fan level node" "remove_walk level node key = Some node'"
  then obtain cells where n: "node = Inner cells" using Suc by (cases node) simp_all
  then have "cells \<noteq> []" using a Suc by auto
  then have "fan l (child (cells ! S_tree_child cells key))"
    using a(1) S_tree_child_less [of cells key] by (simp add: n Suc)
  then show ?thesis using a fan_remove set_update_subset_insert by (fastforce simp: n Suc Let_def)
qed

lemma fan_leaves: "fan level node \<Longrightarrow> 8 ^ level \<le> length (leaf_list level node)"
proof (induction level arbitrary: node)
  case 0
  then show ?case by (cases node) simp_all
next
  case (Suc level)
  obtain cells where n: "node = Inner cells" using Suc.prems(1) by (cases node) simp_all
  have "\<forall>c \<in> set cells. 8 ^ level \<le> length (leaf_list level (child c))" using Suc by (simp add: n)
  then have "length cells * 8 ^ level \<le> (\<Sum>c \<leftarrow> cells. length (leaf_list level (child c)))"
    by (induction cells) (auto simp: add_mono)
  moreover have "8 * 8 ^ level \<le> length cells * 8 ^ level" using Suc.prems by (simp add: n)
  ultimately have "8 * 8 ^ level \<le> (\<Sum>c \<leftarrow> cells. length (leaf_list level (child c)))" by (rule le_trans [rotated])
  then show ?case by (simp add: n length_concat comp_def)
qed

definition KEY_TREE_LEVELS :: nat where
  "KEY_TREE_LEVELS = 24"

definition tree_leaves :: "key_tree \<Rightarrow> nat" where
  "tree_leaves tree = (case kt_root tree of None \<Rightarrow> 0 | Some node \<Rightarrow> length (leaf_list (kt_levels tree) node))"

lemma root_fan_leaves: "root_fan (Suc level) node \<Longrightarrow> 2 * 8 ^ level \<le> length (leaf_list (Suc level) node)"
proof -
  assume a: "root_fan (Suc level) node"
  then obtain cells where n: "node = Inner cells" by (cases node) simp_all
  have "\<forall>c \<in> set cells. 8 ^ level \<le> length (leaf_list level (child c))" using a fan_leaves by (simp add: n)
  then have "length cells * 8 ^ level \<le> (\<Sum>c \<leftarrow> cells. length (leaf_list level (child c)))"
    by (induction cells) (auto simp: add_mono)
  moreover have "2 * 8 ^ level \<le> length cells * 8 ^ level" using a by (simp add: n)
  ultimately have "2 * 8 ^ level \<le> (\<Sum>c \<leftarrow> cells. length (leaf_list level (child c)))" by (rule le_trans [rotated])
  then show ?thesis by (simp add: n length_concat comp_def)
qed

subsection \<open>The tree\<close>

lemma tree_okD:
  assumes "tree_ok tree" and "kt_root tree = Some node"
  shows "node_ok (kt_levels tree) None None node" and "root_fan (kt_levels tree) node"
    and "kt_count tree = length (inorder (kt_levels tree) node)" and "entries_of tree = inorder (kt_levels tree) node"
  using assms by (simp_all add: tree_ok_def entries_of_def)

lemma free_key [simp]: "bounded None None k"
  by (simp add: bounded_def)

text \<open>
  C22: Finding a key in a tree in order answers the entry of that key when the tree has one, and
  the number of keys before it either way.
\<close>

theorem key_tree_find_is_lookup:
  assumes "tree_ok tree" and "keyed key"
  shows "key_tree_find tree key =
    (find (\<lambda>e. ekey e = ekey key) (entries_of tree), length (filter (\<lambda>e. ekey e < ekey key) (entries_of tree)))"
proof (cases "kt_root tree")
  case None
  then show ?thesis by (simp add: key_tree_find_def entries_of_def)
next
  case (Some node)
  note t = tree_okD [OF assms(1) Some]
  show ?thesis using find_walk_finds [OF t(1) assms(2) free_key, of 0]
    by (simp add: key_tree_find_def Some t(4) lookup_def rank_of_def)
qed

text \<open>
  The entry of a rank below the count is the entry with that many keys before it.
\<close>

lemma key_tree_at_is_nth:
  assumes "tree_ok tree" and "rank < kt_count tree"
  shows "key_tree_at tree rank = entries_of tree ! rank"
proof (cases "kt_root tree")
  case None
  then show ?thesis using assms by (simp add: tree_ok_def)
next
  case (Some node)
  note t = tree_okD [OF assms(1) Some]
  show ?thesis using at_walk_is_nth [OF t(1)] assms(2) by (simp add: key_tree_at_def Some t(3,4))
qed


lemma remove_removes:
  assumes "tree_ok tree" and "keyed key"
  shows "tree_ok (key_tree_remove tree key) \<and> entries_of (key_tree_remove tree key) = without (ekey key) (entries_of tree)"
proof (cases "kt_root tree")
  case None
  then show ?thesis using assms(1) by (simp add: key_tree_remove_def entries_of_def without_def)
next
  case (Some node)
  note t = tree_okD [OF assms(1) Some]
  note r = remove_walk_removes [OF t(1) assms(2) free_key]
  show ?thesis
  proof (cases "remove_walk (kt_levels tree) node key")
    case None
    then show ?thesis using assms(1) r without_absent by (simp add: key_tree_remove_def Some t(4))
  next
    case (Some node')
    then have i: "lookup (inorder (kt_levels tree) node) (ekey key) \<noteq> None" "node_ok (kt_levels tree) None None node'"
      "inorder (kt_levels tree) node' = without (ekey key) (inorder (kt_levels tree) node)" using r by simp_all
    have "length (inorder (kt_levels tree) node') = kt_count tree - 1"
      using without_length [OF node_ordered [OF t(1)] i(1)] i(3) t(3) by simp
    then show ?thesis using root_fan_remove [OF t(2) Some] Some i(2,3) t(4) \<open>kt_root tree = Some node\<close>
      by (simp add: key_tree_remove_def tree_ok_def entries_of_def)
  qed
qed

text \<open>
  C20: Removing a key takes its entry out, when the tree has one, and leaves the tree in order:
  ranks, finds and walks pass the leaves it leaves short or empty.
\<close>

theorem key_tree_remove_removes:
  assumes "tree_ok tree" and "keyed key"
  shows "tree_ok (key_tree_remove tree key) \<and>
    entries_of (key_tree_remove tree key) = filter (\<lambda>e. ekey e \<noteq> ekey key) (entries_of tree)"
  using remove_removes [OF assms] by (simp add: without_def)

lemma entry_inserts:
  assumes ok: "tree_ok tree" and k: "keyed key" and r: "key_tree_entry grant tree key = (found, made, tree')"
  shows "tree_ok tree' \<and>
    (if made then lookup (entries_of tree) (ekey key) = None \<and> found = Some (new_entry key) \<and>
       entries_of tree' = insert_sorted (new_entry key) (entries_of tree)
     else entries_of tree' = entries_of tree \<and>
       (found = None \<longrightarrow> \<not> (\<forall>i. grant i)) \<and> (found \<noteq> None \<longrightarrow> lookup (entries_of tree) (ekey key) = found))"
proof (cases "kt_root tree = None \<and> \<not> grant 0")
  case True
  then show ?thesis using ok r by (auto simp: key_tree_entry_def)
next
  case False
  define root where "root = (case kt_root tree of None \<Rightarrow> Leaf [] | Some root \<Rightarrow> root)"
  define tree1 where "tree1 = tree\<lparr>kt_root := Some root\<rparr>"
  let ?l = "kt_levels tree"
  have t1: "tree_ok tree1 \<and> entries_of tree1 = entries_of tree"
    using ok by (cases "kt_root tree") (simp_all add: tree1_def root_def tree_ok_def entries_of_def keys_of_def KEY_TREE_FANOUT_def)
  have ro: "kt_root tree1 = Some root" "kt_levels tree1 = ?l" "kt_count tree1 = kt_count tree" by (simp_all add: tree1_def)
  note t = tree_okD [OF conjunct1 [OF t1] ro(1), unfolded ro(2,3)]
  have lk: "fst (find_walk ?l root key 0) = lookup (entries_of tree) (ekey key)"
    using find_walk_finds [OF t(1) k free_key, of 0] t1 t(4) by simp
  let ?s = "split_count ?l root key + (if split_count ?l root key > ?l then 1 else 0)"
  have e: "(found, made, tree') =
      (case lookup (entries_of tree) (ekey key) of
         Some held \<Rightarrow> (Some held, False, tree1)
       | None \<Rightarrow>
           if \<exists>i < ?s. \<not> grant i then (None, False, tree1)
           else case insert_walk ?l root key of
                  (node, None) \<Rightarrow> (Some (new_entry key), True, tree1\<lparr>kt_root := Some node, kt_count := kt_count tree + 1\<rparr>)
                | (node, Some (made_node, made_key, made_size)) \<Rightarrow>
                    (Some (new_entry key), True, tree1\<lparr>kt_root := Some (Inner
                       [Cell node (S_tree_size ?l node) no_entry, Cell made_node made_size made_key]),
                       kt_count := kt_count tree + 1, kt_levels := ?l + 1\<rparr>))"
    using r False by (simp only: key_tree_entry_def if_False Let_def root_def [symmetric] tree1_def [symmetric] ro lk)
  show ?thesis
  proof (cases "lookup (entries_of tree) (ekey key)")
    case (Some held)
    then show ?thesis using e t1 by simp
  next
    case None
    show ?thesis
    proof (cases "\<exists>i < ?s. \<not> grant i")
      case True
      then show ?thesis using e t1 None by auto
    next
      case no: False
      have fresh: "lookup (inorder ?l root) (ekey key) = None" using None t1 t(4) by simp
      obtain node result where w: "insert_walk ?l root key = (node, result)" by (metis surj_pair)
      have ins: "inserted ?l None None (insert_sorted (new_entry key) (inorder ?l root)) (node, result)"
        using insert_walk_inserts [OF t(1) k free_key fresh] by (simp add: w)
      have len: "length (insert_sorted (new_entry key) (inorder ?l root)) = kt_count tree + 1"
        using length_insert_sorted [of "inorder ?l root" "new_entry key"] fresh new_entry_key(2) [OF k] t(3) by simp
      note fan = root_fan_insert [OF t(2) node_narrow [OF t(1)] w]
      show ?thesis
      proof (cases result)
        case None
        have e': "found = Some (new_entry key)" "made" "tree' = tree1\<lparr>kt_root := Some node, kt_count := kt_count tree + 1\<rparr>"
          using e no \<open>lookup (entries_of tree) (ekey key) = None\<close> w None by simp_all
        have i: "node_ok ?l None None node" "inorder ?l node = insert_sorted (new_entry key) (inorder ?l root)"
          using ins by (simp_all add: None inserted_def)
        have "tree_ok tree'" using i len fan None by (simp add: e'(3) tree_ok_def ro(2))
        moreover have "entries_of tree' = insert_sorted (new_entry key) (entries_of tree)"
          using i(2) t1 t(4) by (simp add: e'(3) entries_of_def ro(2))
        ultimately show ?thesis using e' \<open>lookup (entries_of tree) (ekey key) = None\<close> by simp
      next
        case (Some m)
        then obtain mn mk ms where m: "result = Some (mn, mk, ms)" by (cases m) auto
        let ?root = "Inner [Cell node (S_tree_size ?l node) no_entry, Cell mn ms mk]"
        have e': "found = Some (new_entry key)" "made"
          "tree' = tree1\<lparr>kt_root := Some ?root, kt_count := kt_count tree + 1, kt_levels := ?l + 1\<rparr>"
          using e no \<open>lookup (entries_of tree) (ekey key) = None\<close> w m by simp_all
        have i: "keyed mk" "separates None None (ekey mk)" "node_ok ?l None (Some (ekey mk)) node"
          "node_ok ?l (Some (ekey mk)) None mn" "ms = length (inorder ?l mn)"
          "inorder ?l node @ inorder ?l mn = insert_sorted (new_entry key) (inorder ?l root)"
          using ins by (simp_all add: m inserted_def)
        have "node_ok (Suc ?l) None None ?root" using i node_size [OF i(3)] by (simp add: KEY_TREE_FANOUT_def)
        moreover have "root_fan (Suc ?l) ?root" using fan by (simp add: m)
        moreover have es: "inorder (Suc ?l) ?root = insert_sorted (new_entry key) (inorder ?l root)" using i(6) by simp
        ultimately have "tree_ok tree'" using len by (simp add: e'(3) tree_ok_def)
        moreover have "entries_of tree' = insert_sorted (new_entry key) (entries_of tree)"
          using es t1 t(4) by (simp add: e'(3) entries_of_def)
        ultimately show ?thesis using e' \<open>lookup (entries_of tree) (ekey key) = None\<close> by simp
      qed
    qed
  qed
qed

text \<open>
  C6: Entering a key in a tree in order leaves it in order.  When the key is new and storage is
  had, the tree gains exactly the key's fresh entry, at its place in key order, through any splits;
  when the tree has the key, its entry is answered and the entries stay; when storage could not be
  had the answer is NULL and the entries stay.
\<close>

theorem key_tree_entry_inserts:
  assumes "tree_ok tree" and "keyed key" and "key_tree_entry grant tree key = (found, made, tree')"
  shows "tree_ok tree' \<and>
    (if made then
       find (\<lambda>e. ekey e = ekey key) (entries_of tree) = None \<and> found = Some (new_entry key) \<and>
       entries_of tree' = filter (\<lambda>e. ekey e < ekey key) (entries_of tree) @ new_entry key #
         filter (\<lambda>e. ekey key < ekey e) (entries_of tree)
     else entries_of tree' = entries_of tree \<and>
       (if found = None then \<not> (\<forall>i. grant i) else find (\<lambda>e. ekey e = ekey key) (entries_of tree) = found))"
  using entry_inserts [OF assms] new_entry_key(2) [OF assms(2)]
  by (cases made) (simp_all add: lookup_def insert_sorted_def)

text \<open>
  C23: In a tree in order the entries stand in strictly rising key order, and the levels above the
  leaves, whatever was removed, are few enough for the arrays of the code: a tree of fewer than
  \<open>2 ^ 64\<close> leaves has at most 21 levels, so one more still fits \<open>KEY_TREE_LEVELS\<close>.
\<close>

theorem key_tree_levels_fit:
  assumes "tree_ok tree" and "tree_leaves tree < 2 ^ 64"
  shows "sorted_wrt (<) (map ekey (entries_of tree)) \<and> kt_levels tree + 1 < KEY_TREE_LEVELS"
proof (cases "kt_root tree")
  case None
  then show ?thesis using assms(1) by (simp add: tree_ok_def entries_of_def KEY_TREE_LEVELS_def)
next
  case (Some node)
  note t = tree_okD [OF assms(1) Some]
  have "kt_levels tree \<le> 21"
  proof (rule ccontr)
    assume "\<not> kt_levels tree \<le> 21"
    then obtain l where l: "kt_levels tree = Suc l" "21 \<le> l" by (cases "kt_levels tree") auto
    have "2 * 8 ^ 21 \<le> 2 * (8 :: nat) ^ l" using l(2) by (intro mult_le_mono2 power_increasing) simp_all
    moreover have "2 * 8 ^ l \<le> tree_leaves tree"
      using root_fan_leaves [of l node] t(2) Some by (simp add: tree_leaves_def l(1))
    ultimately show False using assms(2) by simp
  qed
  then show ?thesis using node_ordered [OF t(1)] by (simp add: t(4) ordered_in_def keys_of_def KEY_TREE_LEVELS_def)
qed

text \<open>A tree to apply the theorems to: the entries of the numbers 256 and 5.\<close>

definition two_numbers :: key_tree where
  "two_numbers = \<lparr>kt_root = Some (Leaf [new_entry (key_number 5), new_entry (key_number 256)]), kt_count = 2, kt_levels = 0\<rparr>"

lemma number_keyed: "keyed (key_number n)" "ekey (key_number n) = number_bytes n"
  using key_number_entry ekey_eq by (auto simp: keyed_def)

lemma two_numbers_ok: "tree_ok two_numbers"
  by (simp add: two_numbers_def tree_ok_def KEY_TREE_FANOUT_def new_entry_key number_keyed keys_of_def number_bytes_def)

lemma two_numbers_entries: "entries_of two_numbers = [new_entry (key_number 5), new_entry (key_number 256)]"
  by (simp add: two_numbers_def entries_of_def)

lemmas number_entry = new_entry_key number_keyed number_bytes_def

theorem key_tree_find_is_lookup_witness:
  "key_tree_find two_numbers (key_number 256) = (Some (new_entry (key_number 256)), 1)"
  using key_tree_find_is_lookup [OF two_numbers_ok, of "key_number 256"]
  by (simp add: two_numbers_entries number_entry)

theorem key_tree_at_is_nth_witness: "key_tree_at two_numbers 1 = new_entry (key_number 256)"
  using key_tree_at_is_nth [OF two_numbers_ok, of 1] by (simp add: two_numbers_entries) (simp add: two_numbers_def)


theorem key_tree_remove_removes_witness:
  "entries_of (key_tree_remove two_numbers (key_number 5)) = [new_entry (key_number 256)]"
  using key_tree_remove_removes [OF two_numbers_ok, of "key_number 5"]
  by (simp add: two_numbers_entries number_entry)

theorem key_tree_entry_inserts_witness:
  "\<exists>made tree'. key_tree_entry (\<lambda>_. True) two_numbers (key_number 6) = (Some (new_entry (key_number 6)), made, tree') \<and>
     entries_of tree' = [new_entry (key_number 5), new_entry (key_number 6), new_entry (key_number 256)]"
proof -
  obtain found made tree' where r: "key_tree_entry (\<lambda>_. True) two_numbers (key_number 6) = (found, made, tree')"
    by (metis surj_pair)
  have fresh: "find (\<lambda>e. ekey e = ekey (key_number 6)) (entries_of two_numbers) = None"
    by (simp add: two_numbers_entries number_entry)
  from key_tree_entry_inserts [OF two_numbers_ok number_keyed(1) r] fresh
  have "made" "found = Some (new_entry (key_number 6))"
    "entries_of tree' = [new_entry (key_number 5), new_entry (key_number 6), new_entry (key_number 256)]"
    by (auto simp: two_numbers_entries number_entry split: if_splits)
  with r show ?thesis by blast
qed

theorem key_tree_levels_fit_witness: "kt_levels two_numbers + 1 < KEY_TREE_LEVELS \<and> tree_leaves two_numbers = 1"
  using key_tree_levels_fit [OF two_numbers_ok] by (simp add: two_numbers_def tree_leaves_def)

end
