(* ===== verification/Server.thy ===== *)
theory Server
  imports Probing TextLocate
begin

text \<open>
  lsp/server.c: the engine's server, its lifecycle and its document store, an open-addressed
  table of records keyed by URI.  The parse session (elements/session.c) is an argument, the
  record \<open>engine\<close> of the operations the server calls; a session's failed call may have changed the
  session, so the calls answer the session after them too.  The allocator is the predicate
  \<open>grant\<close> on the place that asks.  An operation's value is \<open>None\<close> when a probe does not return.
\<close>

datatype lsp_status = LSP_OK | LSP_SERVER_NOT_INITIALIZED | LSP_INVALID_REQUEST | LSP_INVALID_PARAMS | LSP_INTERNAL_ERROR

datatype lsp_phase = FRESH | ACTIVE | HALTED

datatype alloc_site = SLOTS | RECORD | URI | LIST

record 's engine =
  se_new :: "byte list \<Rightarrow> text_unit \<Rightarrow> 's option"
  se_flush :: "'s \<Rightarrow> 's option"
  se_view :: "'s \<Rightarrow> session_view"
  se_edit :: "'s \<Rightarrow> core_position \<Rightarrow> core_position \<Rightarrow> byte list \<Rightarrow> bool \<times> 's"
  se_locate :: "'s \<Rightarrow> core_position \<Rightarrow> bool \<times> 's"
  se_cues :: "byte list"

record 's lsp_record =
  rec_uri :: "byte list"
  rec_hash :: "64 word"
  rec_version :: int
  rec_session :: 's

record 's lsp_server =
  sv_phase :: lsp_phase
  sv_unit :: text_unit
  sv_slots :: "'s lsp_record option list"
  sv_count :: nat

record lsp_edit =
  ed_start :: lsp_position
  ed_end :: lsp_position
  ed_text :: "byte list"

subsection \<open>The store\<close>

definition hash_uri :: "byte list \<Rightarrow> 64 word" where
  "hash_uri uri = foldl (\<lambda>h b. (h XOR ucast b) * 1099511628211) 14695981039346656037 uri"

definition holds :: "byte list \<Rightarrow> 64 word \<Rightarrow> 's lsp_record \<Rightarrow> bool" where
  "holds uri hash held \<longleftrightarrow> rec_hash held = hash \<and> rec_uri held = uri"

partial_function (option) probe_loop :: "'s lsp_record option list \<Rightarrow> byte list \<Rightarrow> 64 word \<Rightarrow> nat \<Rightarrow> nat option" where
  "probe_loop slots uri hash at =
     (if slots ! at = None \<or> holds uri hash (the (slots ! at)) then Some at
      else probe_loop slots uri hash ((at + 1) AND (length slots - 1)))"

definition probe :: "'s lsp_record option list \<Rightarrow> byte list \<Rightarrow> 64 word \<Rightarrow> nat option" where
  "probe slots uri hash = probe_loop slots uri hash (unat hash AND (length slots - 1))"

definition find_record :: "'s lsp_server \<Rightarrow> byte list \<Rightarrow> 's lsp_record option option" where
  "find_record sv uri = map_option (\<lambda>at. sv_slots sv ! at) (probe (sv_slots sv) uri (hash_uri uri))"

fun widen_loop :: "'s lsp_record option list \<Rightarrow> 's lsp_record option list \<Rightarrow> 's lsp_record option list option" where
  "widen_loop [] slots = Some slots"
| "widen_loop (None # old) slots = widen_loop old slots"
| "widen_loop (Some held # old) slots =
     (case probe slots (rec_uri held) (rec_hash held) of
        None \<Rightarrow> None
      | Some at \<Rightarrow> widen_loop old (slots[at := Some held]))"

text \<open>Whether there was room, and the table.\<close>

definition widen_table :: "(alloc_site \<Rightarrow> bool) \<Rightarrow> 's lsp_server \<Rightarrow> (bool \<times> 's lsp_server) option" where
  "widen_table grant sv =
     (if \<not> grant SLOTS then Some (False, sv)
      else map_option (\<lambda>slots. (True, sv\<lparr>sv_slots := slots\<rparr>))
             (widen_loop (sv_slots sv) (replicate (length (sv_slots sv) * 2) None)))"

partial_function (option) vacate_loop :: "'s lsp_record option list \<Rightarrow> nat \<Rightarrow> nat \<Rightarrow> 's lsp_record option list option" where
  "vacate_loop slots at nxt =
     (if slots ! nxt = None then Some slots
      else let home = unat (rec_hash (the (slots ! nxt))) AND (length slots - 1);
               stays = (if at \<le> nxt then at < home \<and> home \<le> nxt else at < home \<or> home \<le> nxt)
           in if stays then vacate_loop slots at ((nxt + 1) AND (length slots - 1))
              else vacate_loop (slots[at := slots ! nxt, nxt := None]) nxt ((nxt + 1) AND (length slots - 1)))"

definition vacate :: "'s lsp_record option list \<Rightarrow> nat \<Rightarrow> 's lsp_record option list option" where
  "vacate slots at = vacate_loop (slots[at := None]) at ((at + 1) AND (length slots - 1))"

definition drop_record :: "'s lsp_server \<Rightarrow> nat \<Rightarrow> 's lsp_server option" where
  "drop_record sv at =
     map_option (\<lambda>slots. sv\<lparr>sv_slots := slots, sv_count := sv_count sv - 1\<rparr>) (vacate (sv_slots sv) at)"

subsection \<open>The calls\<close>

definition active :: "'s lsp_server \<Rightarrow> lsp_status" where
  "active sv = (case sv_phase sv of
     FRESH \<Rightarrow> LSP_SERVER_NOT_INITIALIZED | ACTIVE \<Rightarrow> LSP_OK | HALTED \<Rightarrow> LSP_INVALID_REQUEST)"

definition server_new :: "(alloc_site \<Rightarrow> bool) \<Rightarrow> 's lsp_server option" where
  "server_new grant =
     (if grant RECORD \<and> grant SLOTS
      then Some \<lparr>sv_phase = FRESH, sv_unit = TEXT_UNIT_UTF16, sv_slots = replicate 8 None, sv_count = 0\<rparr>
      else None)"

text \<open>The status, and the server with the capabilities it answers: its unit and the cues.\<close>

definition lsp_initialize ::
  "'s engine \<Rightarrow> text_unit list \<Rightarrow> 's lsp_server \<Rightarrow> lsp_status \<times> (text_unit \<times> byte list) option \<times> 's lsp_server" where
  "lsp_initialize engine units sv =
     (if sv_phase sv \<noteq> FRESH then (LSP_INVALID_REQUEST, None, sv)
      else let unit = foldl (\<lambda>u offered. if offered = TEXT_UNIT_UTF8 then TEXT_UNIT_UTF8 else u) TEXT_UNIT_UTF16 units
           in (LSP_OK, Some (unit, se_cues engine), sv\<lparr>sv_unit := unit, sv_phase := ACTIVE\<rparr>))"

definition lsp_shutdown :: "'s lsp_server \<Rightarrow> lsp_status \<times> 's lsp_server" where
  "lsp_shutdown sv =
     (active sv, if active sv = LSP_OK then sv\<lparr>sv_phase := HALTED\<rparr> else sv)"

definition new_session :: "'s engine \<Rightarrow> byte list \<Rightarrow> text_unit \<Rightarrow> 's option" where
  "new_session engine source unit = Option.bind (se_new engine source unit) (se_flush engine)"

definition put_record ::
  "'s engine \<Rightarrow> (alloc_site \<Rightarrow> bool) \<Rightarrow> 's lsp_server \<Rightarrow> byte list \<Rightarrow> int \<Rightarrow> byte list \<Rightarrow> (lsp_status \<times> 's lsp_server) option" where
  "put_record engine grant sv uri version source =
     (let hash = hash_uri uri
      in case probe (sv_slots sv) uri hash of
           None \<Rightarrow> None
         | Some at \<Rightarrow> Some
             (case (if grant RECORD \<and> grant URI then new_session engine source (sv_unit sv) else None) of
                None \<Rightarrow> (LSP_INTERNAL_ERROR, sv)
              | Some session \<Rightarrow>
                  (LSP_OK, sv\<lparr>sv_slots := (sv_slots sv)[at := Some
                     \<lparr>rec_uri = uri, rec_hash = hash, rec_version = version, rec_session = session\<rparr>],
                     sv_count := if sv_slots sv ! at = None then sv_count sv + 1 else sv_count sv\<rparr>)))"

definition lsp_open ::
  "'s engine \<Rightarrow> (alloc_site \<Rightarrow> bool) \<Rightarrow> 's lsp_server \<Rightarrow> byte list \<Rightarrow> int \<Rightarrow> byte list \<Rightarrow> (lsp_status \<times> 's lsp_server) option" where
  "lsp_open engine grant sv uri version source =
     (if active sv \<noteq> LSP_OK then Some (active sv, sv)
      else case (if sv_count sv + 1 > length (sv_slots sv) div 4 * 3 then widen_table grant sv else Some (True, sv)) of
             None \<Rightarrow> None
           | Some (room, sv) \<Rightarrow>
               if \<not> room then Some (LSP_INTERNAL_ERROR, sv) else put_record engine grant sv uri version source)"

definition after :: "lsp_position \<Rightarrow> lsp_position \<Rightarrow> bool" where
  "after a b = (if fst a \<noteq> fst b then fst a > fst b else snd a > snd b)"

text \<open>The edits applied in order; \<open>None\<close> when one fails.\<close>

fun apply_edits :: "'s engine \<Rightarrow> text_unit \<Rightarrow> 's \<Rightarrow> lsp_edit list \<Rightarrow> 's option" where
  "apply_edits engine unit session [] = Some session"
| "apply_edits engine unit session (edit # edits) =
     (let from_pos = snd (lsp_text_locate (se_view engine session) (ed_start edit) unit);
          to_pos = snd (lsp_text_locate (se_view engine session) (ed_end edit) unit);
          (done, session) = se_edit engine session from_pos to_pos (ed_text edit)
      in if done then apply_edits engine unit session edits else None)"

definition lsp_update ::
  "'s engine \<Rightarrow> 's lsp_server \<Rightarrow> byte list \<Rightarrow> int \<Rightarrow> lsp_edit list \<Rightarrow> (lsp_status \<times> 's lsp_server) option" where
  "lsp_update engine sv uri version edits =
     (if active sv \<noteq> LSP_OK then Some (active sv, sv)
      else case probe (sv_slots sv) uri (hash_uri uri) of
             None \<Rightarrow> None
           | Some at \<Rightarrow>
               (case sv_slots sv ! at of
                  None \<Rightarrow> Some (LSP_INVALID_PARAMS, sv)
                | Some held \<Rightarrow>
                    if list_ex (\<lambda>edit. after (ed_start edit) (ed_end edit)) edits then Some (LSP_INVALID_PARAMS, sv)
                    else case apply_edits engine (sv_unit sv) (rec_session held) edits of
                           None \<Rightarrow> map_option (Pair LSP_INTERNAL_ERROR) (drop_record sv at)
                         | Some session \<Rightarrow>
                             Some (LSP_OK, sv\<lparr>sv_slots := (sv_slots sv)
                               [at := Some (held\<lparr>rec_session := session, rec_version := version\<rparr>)]\<rparr>)))"

definition lsp_close :: "'s lsp_server \<Rightarrow> byte list \<Rightarrow> (lsp_status \<times> 's lsp_server) option" where
  "lsp_close sv uri =
     (if active sv \<noteq> LSP_OK then Some (active sv, sv)
      else case probe (sv_slots sv) uri (hash_uri uri) of
             None \<Rightarrow> None
           | Some at \<Rightarrow>
               if sv_slots sv ! at = None then Some (LSP_INVALID_PARAMS, sv)
               else map_option (Pair LSP_OK) (drop_record sv at))"

text \<open>The list's version is the answer; its count is 0.\<close>

definition lsp_complete ::
  "'s engine \<Rightarrow> (alloc_site \<Rightarrow> bool) \<Rightarrow> 's lsp_server \<Rightarrow> byte list \<Rightarrow> lsp_position \<Rightarrow>
   (lsp_status \<times> int option \<times> 's lsp_server) option" where
  "lsp_complete engine grant sv uri position =
     (if active sv \<noteq> LSP_OK then Some (active sv, None, sv)
      else case probe (sv_slots sv) uri (hash_uri uri) of
             None \<Rightarrow> None
           | Some at \<Rightarrow> Some
               (case sv_slots sv ! at of
                  None \<Rightarrow> (LSP_INVALID_PARAMS, None, sv)
                | Some held \<Rightarrow>
                    let cursor = snd (lsp_text_locate (se_view engine (rec_session held)) position (sv_unit sv));
                        (done, session) = se_locate engine (rec_session held) cursor;
                        sv = sv\<lparr>sv_slots := (sv_slots sv)[at := Some (held\<lparr>rec_session := session\<rparr>)]\<rparr>
                    in if done \<and> grant LIST then (LSP_OK, Some (rec_version held), sv)
                       else (LSP_INTERNAL_ERROR, None, sv)))"

definition lsp_server_session :: "'s lsp_server \<Rightarrow> byte list \<Rightarrow> 's option option" where
  "lsp_server_session sv uri = map_option (map_option rec_session) (find_record sv uri)"

subsection \<open>The store as a probed table\<close>

definition record_valid :: "'s lsp_record \<Rightarrow> bool" where
  "record_valid r \<longleftrightarrow> rec_hash r = hash_uri (rec_uri r)"

interpretation store: probed rec_uri rec_hash hash_uri record_valid
  by unfold_locales (simp add: record_valid_def)

lemma probe_loop_stops:
  assumes ok: "store.table_ok slots" and n: "length slots = 2 ^ b" and e: "e < length slots" "slots ! e = None"
    and w: "store.walked slots uri at"
  shows "\<exists>p. probe_loop slots uri (hash_uri uri) at = Some p \<and> store.stop slots uri p"
  using w
proof (induction "cyc (length slots) at e" arbitrary: at rule: less_induct)
  case less
  have at: "at < length slots" using less.prems by (simp add: store.walked_def)
  show ?case
  proof (cases "slots ! at = None \<or> holds uri (hash_uri uri) (the (slots ! at))")
    case True
    then have "slots ! at = None \<or> (\<exists>s. slots ! at = Some s \<and> rec_uri s = uri)"
      by (auto simp: holds_def)
    then show ?thesis using True store.walked_stop [OF less.prems] by (auto simp: probe_loop.simps [of slots uri _ at])
  next
    case False
    then obtain s where s: "slots ! at = Some s" by (cases "slots ! at") simp_all
    then have k: "rec_uri s \<noteq> uri" using False store.table_valid [OF ok at s] by (auto simp: holds_def record_valid_def)
    note step = store.walked_step [OF less.prems s k e]
    have "(at + 1) AND (length slots - 1) = succ_slot (length slots) at"
      using mask_is_mod [OF n] succ_is_mod [OF at] by simp
    then have "probe_loop slots uri (hash_uri uri) at = probe_loop slots uri (hash_uri uri) (succ_slot (length slots) at)"
      using False by (subst probe_loop.simps) (simp only: if_False)
    then show ?thesis using less.hyps [OF _ step(1)] step(2) by simp
  qed
qed

lemma probe_stops:
  assumes ok: "store.table_ok slots" and n: "length slots = 2 ^ b"
  obtains p where "probe slots uri (hash_uri uri) = Some p" and "p < length slots" and "store.stop slots uri p"
    and "slots ! p = store.table_map slots uri"
proof -
  obtain e where e: "e < length slots" "slots ! e = None" using ok unfolding store.table_ok_def by auto
  have h: "unat (hash_uri uri) AND (length slots - 1) = store.home (length slots) uri"
    by (simp only: mask_is_mod [OF n] store.home_def)
  have "slots \<noteq> []" using e by auto
  from probe_loop_stops [OF ok n e store.walked_start [OF this, of uri]] obtain p where
    p: "probe_loop slots uri (hash_uri uri) (store.home (length slots) uri) = Some p" "store.stop slots uri p" by blast
  then show thesis using that [of p] store.stop_finds [OF ok p(2)] by (simp add: probe_def h store.stop_def del: One_nat_def)
qed

lemma widen_moves_all:
  assumes "store.fits old slots" and "length slots = 2 ^ b"
  shows "\<exists>r. widen_loop old slots = Some r \<and> length r = length slots \<and> store.table_ok r \<and>
    taken r = taken slots + taken old \<and> store.table_map r = store.table_map old ++ store.table_map slots"
  using assms
proof (induction old slots rule: widen_loop.induct)
  case (1 slots)
  then show ?case by (simp add: store.fits_ok taken_def)
next
  case (2 old slots)
  then show ?case by (simp add: taken_def)
next
  case (3 held old slots)
  have h: "rec_hash held = hash_uri (rec_uri held)"
    using store.fits_valid [OF 3(2)] by (simp add: record_valid_def)
  obtain p where p: "probe slots (rec_uri held) (hash_uri (rec_uri held)) = Some p" "store.stop slots (rec_uri held) p"
    using probe_stops [OF store.fits_ok [OF 3(2)] 3(3)] by metis
  note st = store.fits_step [OF 3(2) p(2)]
  have "\<exists>r. widen_loop old (slots[p := Some held]) = Some r \<and> length r = length slots \<and> store.table_ok r \<and>
      taken r = taken slots + 1 + taken old \<and>
      store.table_map r = store.table_map (Some held # old) ++ store.table_map slots"
    using 3(1) [of p, OF _ st(1)] p(1) h st 3(3) by simp
  then show ?case using p(1) h by (simp add: taken_def)
qed

text \<open>\<open>vacate\<close> returns, and takes the record in the slot out of the map.\<close>

lemma vacate_loop_repairs:
  assumes n: "length slots = 2 ^ b" and h: "store.hole_ok slots hole at e"
  shows "\<exists>r. vacate_loop slots hole at = Some r \<and> length r = length slots \<and> store.table_ok r \<and>
    taken r = taken slots \<and> store.table_map r = store.table_map slots"
  using n h
proof (induction "cyc (length slots) at e" arbitrary: slots hole at rule: less_induct)
  case less
  let ?n = "length slots"
  have b: "hole < ?n" "at < ?n" "at \<noteq> hole" using less.prems(2) by (simp_all add: store.hole_ok_def)
  show ?case
  proof (cases "slots ! at")
    case None
    from store.hole_end [OF less.prems(2) this] show ?thesis
      using None by (simp add: vacate_loop.simps [of slots hole at])
  next
    case (Some s)
    have nx: "(at + 1) AND (?n - 1) = succ_slot ?n at"
      using mask_is_mod [OF less.prems(1)] succ_is_mod [OF b(2)] by simp
    have "record_valid s" using less.prems(2) Some b(2) unfolding store.hole_ok_def by simp
    then have hm: "unat (rec_hash s) AND (?n - 1) = store.home ?n (rec_uri s)"
      by (simp only: mask_is_mod [OF less.prems(1)] store.home_def record_valid_def)
    note stays = stays_is_cyc [OF b(1,2) store.home_less [OF b(1), of "rec_uri s"] b(3) [symmetric]]
    show ?thesis
    proof (cases "cyc ?n (store.home ?n (rec_uri s)) at < cyc ?n hole at")
      case True
      then have u: "vacate_loop slots hole at = vacate_loop slots hole (succ_slot ?n at)"
        using Some by (subst vacate_loop.simps) (simp del: One_nat_def add: hm nx stays Let_def)
      note st = store.hole_stay [OF less.prems(2) Some True]
      then show ?thesis using less.hyps [OF _ less.prems(1) st(1)] u by simp
    next
      case False
      then have u: "vacate_loop slots hole at = vacate_loop (slots[hole := Some s, at := None]) at (succ_slot ?n at)"
        using Some by (subst vacate_loop.simps) (simp del: One_nat_def add: hm nx stays Let_def)
      note mv = store.hole_move [OF less.prems(2) Some False] store.hole_move_taken [OF less.prems(2) Some]
      from less.hyps [of "slots[hole := Some s, at := None]" "succ_slot ?n at" at] show ?thesis
        using mv less.prems(1) u by simp
    qed
  qed
qed

lemma vacate_removes:
  assumes ok: "store.table_ok slots" and n: "length slots = 2 ^ b" and s: "at < length slots" "slots ! at = Some s"
  obtains r where "vacate slots at = Some r" and "length r = length slots" and "store.table_ok r"
    and "taken r + 1 = taken slots" and "store.table_map r = (store.table_map slots)(rec_uri s := None)"
proof -
  obtain e where h: "store.hole_ok (slots[at := None]) at (succ_slot (length slots) at) e"
    using store.hole_start [OF ok s] .
  have nx: "(at + 1) AND (length slots - 1) = succ_slot (length slots) at"
    using mask_is_mod [OF n] succ_is_mod [OF s(1)] by simp
  have "store.unique slots" using ok by (simp add: store.table_ok_def)
  note rm = store.table_map_remove [OF this s] taken_remove [OF s]
  have "vacate slots at = vacate_loop (slots[at := None]) at (succ_slot (length slots) at)"
    by (simp only: vacate_def length_list_update nx)
  with vacate_loop_repairs [OF _ h, of b] show thesis
    using that n rm by auto
qed

subsection \<open>The invariant, and the store a server promises\<close>

definition server_ok :: "'s lsp_server \<Rightarrow> bool" where
  "server_ok sv \<longleftrightarrow> (\<exists>b. length (sv_slots sv) = 2 ^ b) \<and> 8 \<le> length (sv_slots sv) \<and> store.table_ok (sv_slots sv) \<and>
     sv_count sv = taken (sv_slots sv) \<and> sv_count sv \<le> length (sv_slots sv) div 4 * 3"

definition document :: "'s lsp_record \<Rightarrow> int \<times> 's" where
  "document r = (rec_version r, rec_session r)"

definition docs :: "'s lsp_server \<Rightarrow> byte list \<Rightarrow> (int \<times> 's) option" where
  "docs sv uri = map_option document (store.table_map (sv_slots sv) uri)"

record 's lsp_store =
  st_phase :: lsp_phase
  st_unit :: text_unit
  st_docs :: "byte list \<Rightarrow> (int \<times> 's) option"

definition abs_server :: "'s lsp_server \<Rightarrow> 's lsp_store" where
  "abs_server sv = \<lparr>st_phase = sv_phase sv, st_unit = sv_unit sv, st_docs = docs sv\<rparr>"

datatype lsp_call =
    Initialize "text_unit list"
  | Shutdown
  | Open "byte list" int "byte list"
  | Update "byte list" int "lsp_edit list"
  | Close "byte list"
  | Complete "byte list" lsp_position

definition serve :: "'s engine \<Rightarrow> (alloc_site \<Rightarrow> bool) \<Rightarrow> lsp_call \<Rightarrow> 's lsp_server \<Rightarrow> (lsp_status \<times> 's lsp_server) option" where
  "serve engine grant call sv =
     (case call of
        Initialize units \<Rightarrow> (case lsp_initialize engine units sv of (status, _, sv) \<Rightarrow> Some (status, sv))
      | Shutdown \<Rightarrow> Some (lsp_shutdown sv)
      | Open uri version source \<Rightarrow> lsp_open engine grant sv uri version source
      | Update uri version edits \<Rightarrow> lsp_update engine sv uri version edits
      | Close uri \<Rightarrow> lsp_close sv uri
      | Complete uri position \<Rightarrow>
          map_option (\<lambda>(status, _, sv). (status, sv)) (lsp_complete engine grant sv uri position))"

text \<open>What the header of the server says of each call, over a map from URIs; \<open>room\<close> is whether memory sufficed.\<close>

definition spec_active :: "'s engine \<Rightarrow> bool \<Rightarrow> lsp_call \<Rightarrow> 's lsp_store \<Rightarrow> lsp_status \<times> 's lsp_store" where
  "spec_active engine room call st =
     (case call of
        Initialize units \<Rightarrow> (LSP_INVALID_REQUEST, st)
      | Shutdown \<Rightarrow> (LSP_OK, st\<lparr>st_phase := HALTED\<rparr>)
      | Open uri version source \<Rightarrow>
          (case if room then new_session engine source (st_unit st) else None of
             None \<Rightarrow> (LSP_INTERNAL_ERROR, st)
           | Some s \<Rightarrow> (LSP_OK, st\<lparr>st_docs := (st_docs st)(uri \<mapsto> (version, s))\<rparr>))
      | Update uri version edits \<Rightarrow>
          (case st_docs st uri of
             None \<Rightarrow> (LSP_INVALID_PARAMS, st)
           | Some (_, s) \<Rightarrow>
               if \<exists>edit \<in> set edits. after (ed_start edit) (ed_end edit) then (LSP_INVALID_PARAMS, st)
               else case apply_edits engine (st_unit st) s edits of
                      None \<Rightarrow> (LSP_INTERNAL_ERROR, st\<lparr>st_docs := (st_docs st)(uri := None)\<rparr>)
                    | Some s' \<Rightarrow> (LSP_OK, st\<lparr>st_docs := (st_docs st)(uri \<mapsto> (version, s'))\<rparr>))
      | Close uri \<Rightarrow>
          (case st_docs st uri of
             None \<Rightarrow> (LSP_INVALID_PARAMS, st)
           | Some _ \<Rightarrow> (LSP_OK, st\<lparr>st_docs := (st_docs st)(uri := None)\<rparr>))
      | Complete uri position \<Rightarrow>
          (case st_docs st uri of
             None \<Rightarrow> (LSP_INVALID_PARAMS, st)
           | Some (version, s) \<Rightarrow>
               let (done, s') = se_locate engine s (snd (lsp_text_locate (se_view engine s) position (st_unit st)))
               in (if done \<and> room then LSP_OK else LSP_INTERNAL_ERROR,
                   st\<lparr>st_docs := (st_docs st)(uri \<mapsto> (version, s'))\<rparr>)))"

definition spec :: "'s engine \<Rightarrow> bool \<Rightarrow> lsp_call \<Rightarrow> 's lsp_store \<Rightarrow> lsp_status \<times> 's lsp_store" where
  "spec engine room call st =
     (case st_phase st of
        FRESH \<Rightarrow> (case call of
          Initialize units \<Rightarrow> (LSP_OK, st\<lparr>st_phase := ACTIVE,
            st_unit := if TEXT_UNIT_UTF8 \<in> set units then TEXT_UNIT_UTF8 else TEXT_UNIT_UTF16\<rparr>)
        | _ \<Rightarrow> (LSP_SERVER_NOT_INITIALIZED, st))
      | ACTIVE \<Rightarrow> spec_active engine room call st
      | HALTED \<Rightarrow> (LSP_INVALID_REQUEST, st))"

subsection \<open>The store's operations keep the invariant\<close>

lemma server_okD:
  assumes "server_ok sv"
  obtains b where "length (sv_slots sv) = 2 ^ b" "8 \<le> length (sv_slots sv)" "store.table_ok (sv_slots sv)"
    "sv_count sv = taken (sv_slots sv)" "sv_count sv \<le> length (sv_slots sv) div 4 * 3"
  using assms by (auto simp: server_ok_def)

lemma server_probe:
  assumes "server_ok sv"
  obtains p where "probe (sv_slots sv) uri (hash_uri uri) = Some p" and "p < length (sv_slots sv)"
    and "store.stop (sv_slots sv) uri p" and "sv_slots sv ! p = store.table_map (sv_slots sv) uri"
  by (rule server_okD [OF assms]) (metis probe_stops)

lemma widen_keeps:
  assumes "server_ok sv"
  obtains room sv' where "widen_table grant sv = Some (room, sv')" and "server_ok sv'" and "abs_server sv' = abs_server sv"
    and "room = grant SLOTS" and "room \<longrightarrow> sv_count sv' + 1 \<le> length (sv_slots sv') div 4 * 3"
proof (cases "grant SLOTS")
  case False
  then show thesis using that [of False sv] assms by (simp add: widen_table_def)
next
  case True
  obtain b where b: "length (sv_slots sv) = 2 ^ b" "8 \<le> length (sv_slots sv)" "store.table_ok (sv_slots sv)"
    "sv_count sv = taken (sv_slots sv)" "sv_count sv \<le> length (sv_slots sv) div 4 * 3" by (rule server_okD [OF assms])
  have "taken (sv_slots sv) < length (sv_slots sv) * 2" using b by linarith
  note f = store.fits_start [OF disjI1 [OF b(3)] this]
  have "length (replicate (length (sv_slots sv) * 2) None) = 2 ^ Suc b" using b(1) by simp
  from widen_moves_all [OF f this] obtain r where r: "widen_loop (sv_slots sv) (replicate (length (sv_slots sv) * 2) None) = Some r"
    "length r = length (sv_slots sv) * 2" "store.table_ok r" "taken r = taken (sv_slots sv)"
    "store.table_map r = store.table_map (sv_slots sv)"
    by (auto simp: store.table_map_empty)
  have "server_ok (sv\<lparr>sv_slots := r\<rparr>)"
    unfolding server_ok_def using b r by (auto intro!: exI [of _ "Suc b"])
  moreover have "abs_server (sv\<lparr>sv_slots := r\<rparr>) = abs_server sv"
    by (simp add: abs_server_def docs_def r(5) fun_eq_iff)
  ultimately show thesis using that [of True "sv\<lparr>sv_slots := r\<rparr>"] r b(2,5) True
    by (simp add: widen_table_def)
qed

lemma put_keeps:
  assumes ok: "server_ok sv" and p: "store.stop (sv_slots sv) uri p" and r: "record_valid r" "rec_uri r = uri"
    and n: "n = (if sv_slots sv ! p = None then sv_count sv + 1 else sv_count sv)"
    and room: "sv_slots sv ! p = None \<Longrightarrow> sv_count sv + 1 \<le> length (sv_slots sv) div 4 * 3"
  shows "server_ok (sv\<lparr>sv_slots := (sv_slots sv)[p := Some r], sv_count := n\<rparr>) \<and>
    docs (sv\<lparr>sv_slots := (sv_slots sv)[p := Some r], sv_count := n\<rparr>) = (docs sv)(uri \<mapsto> document r)"
proof -
  obtain b where b: "length (sv_slots sv) = 2 ^ b" "8 \<le> length (sv_slots sv)" "store.table_ok (sv_slots sv)"
    "sv_count sv = taken (sv_slots sv)" "sv_count sv \<le> length (sv_slots sv) div 4 * 3" by (rule server_okD [OF ok])
  have pn: "p < length (sv_slots sv)" using p by (simp add: store.stop_def)
  have two: "\<exists>e < length (sv_slots sv). e \<noteq> p \<and> sv_slots sv ! e = None" if v: "sv_slots sv ! p = None"
    using b room [OF v] by (intro taken_two [OF _ pn v]) linarith
  note ins = store.stop_insert [OF b(3) p r two]
  have "taken ((sv_slots sv)[p := Some r]) = n"
    using n b(4) taken_insert [OF pn] taken_replace [OF pn] by (cases "sv_slots sv ! p") auto
  moreover have "n \<le> length (sv_slots sv) div 4 * 3" using n room b(5) by simp
  ultimately have "server_ok (sv\<lparr>sv_slots := (sv_slots sv)[p := Some r], sv_count := n\<rparr>)"
    unfolding server_ok_def using b ins(1) by auto
  then show ?thesis using ins(2) by (simp add: docs_def fun_eq_iff)
qed

lemma drop_keeps:
  assumes ok: "server_ok sv" and p: "p < length (sv_slots sv)" "sv_slots sv ! p = Some r"
  obtains sv' where "drop_record sv p = Some sv'" and "server_ok sv'"
    and "abs_server sv' = (abs_server sv)\<lparr>st_docs := (docs sv)(rec_uri r := None)\<rparr>"
proof -
  obtain b where b: "length (sv_slots sv) = 2 ^ b" "8 \<le> length (sv_slots sv)" "store.table_ok (sv_slots sv)"
    "sv_count sv = taken (sv_slots sv)" "sv_count sv \<le> length (sv_slots sv) div 4 * 3" by (rule server_okD [OF ok])
  obtain x where x: "vacate (sv_slots sv) p = Some x" "length x = length (sv_slots sv)" "store.table_ok x"
    "taken x + 1 = taken (sv_slots sv)" "store.table_map x = (store.table_map (sv_slots sv))(rec_uri r := None)"
    by (rule vacate_removes [OF b(3,1) p])
  have "server_ok (sv\<lparr>sv_slots := x, sv_count := sv_count sv - 1\<rparr>)"
    unfolding server_ok_def using b x by auto
  moreover have "abs_server (sv\<lparr>sv_slots := x, sv_count := sv_count sv - 1\<rparr>) =
      (abs_server sv)\<lparr>st_docs := (docs sv)(rec_uri r := None)\<rparr>"
    using x(5) by (simp add: abs_server_def docs_def fun_eq_iff)
  ultimately show thesis using that x(1) by (simp add: drop_record_def)
qed

subsection \<open>Each call refines the store\<close>

lemma active_cases: "active sv = LSP_OK \<longleftrightarrow> sv_phase sv = ACTIVE"
  by (simp add: active_def split: lsp_phase.splits)

lemma units_fold: "foldl (\<lambda>u offered. if offered = TEXT_UNIT_UTF8 then TEXT_UNIT_UTF8 else u) u0 units =
    (if TEXT_UNIT_UTF8 \<in> set units then TEXT_UNIT_UTF8 else u0)"
  by (induction units arbitrary: u0) auto

lemma abs_simps [simp]:
  "st_phase (abs_server sv) = sv_phase sv" "st_unit (abs_server sv) = sv_unit sv" "st_docs (abs_server sv) = docs sv"
  by (simp_all add: abs_server_def)

lemma docs_same_slots: "sv_slots sv = sv_slots sv' \<Longrightarrow> docs sv = docs sv'"
  by (simp add: docs_def fun_eq_iff)

definition refines :: "'s engine \<Rightarrow> (alloc_site \<Rightarrow> bool) \<Rightarrow> lsp_call \<Rightarrow> 's lsp_server \<Rightarrow> bool" where
  "refines engine grant call sv \<longleftrightarrow>
     (\<exists>room status sv'. serve engine grant call sv = Some (status, sv') \<and> server_ok sv' \<and>
        spec engine room call (abs_server sv) = (status, abs_server sv') \<and> ((\<forall>site. grant site) \<longrightarrow> room))"

lemma refinesI:
  assumes "serve engine grant call sv = Some (status, sv')" and "server_ok sv'"
    and "spec engine room call (abs_server sv) = (status, abs_server sv')" and "(\<forall>site. grant site) \<Longrightarrow> room"
  shows "refines engine grant call sv"
  using assms unfolding refines_def by blast

lemma inactive_refines:
  assumes ok: "server_ok sv" and phase: "sv_phase sv \<noteq> ACTIVE"
  shows "refines engine grant call sv"
proof (cases "sv_phase sv = FRESH \<and> (\<exists>units. call = Initialize units)")
  case True
  then obtain units where c: "call = Initialize units" by blast
  define sv' where "sv' = sv\<lparr>sv_unit := if TEXT_UNIT_UTF8 \<in> set units then TEXT_UNIT_UTF8 else TEXT_UNIT_UTF16, sv_phase := ACTIVE\<rparr>"
  have "serve engine grant call sv = Some (LSP_OK, sv')"
    using True by (simp add: serve_def lsp_initialize_def c units_fold sv'_def Let_def)
  moreover have "server_ok sv'" using ok by (simp add: server_ok_def sv'_def)
  moreover have "docs sv' = docs sv" by (rule docs_same_slots) (simp add: sv'_def)
  then have "spec engine True call (abs_server sv) = (LSP_OK, abs_server sv')"
    using True by (simp add: spec_def c abs_server_def [of sv']) (simp add: abs_server_def sv'_def)
  ultimately show ?thesis by (rule refinesI) simp
next
  case False
  have "serve engine grant call sv = Some (fst (spec engine True call (abs_server sv)), sv) \<and>
      snd (spec engine True call (abs_server sv)) = abs_server sv"
    using False phase
    by (cases call) (auto simp: serve_def spec_def lsp_initialize_def lsp_shutdown_def lsp_open_def lsp_update_def
        lsp_close_def lsp_complete_def active_def split: lsp_phase.splits)
  then show ?thesis using ok by (intro refinesI [of _ _ _ _ "fst (spec engine True call (abs_server sv))" sv True])
    (simp_all add: prod_eq_iff)
qed

lemma open_refines:
  assumes ok: "server_ok sv" and phase: "sv_phase sv = ACTIVE"
  shows "refines engine grant (Open uri version source) sv"
proof -
  have act: "active sv = LSP_OK" using phase by (simp add: active_cases)
  obtain room sv1 where w: "(if sv_count sv + 1 > length (sv_slots sv) div 4 * 3 then widen_table grant sv else Some (True, sv)) =
      Some (room, sv1)" and ok1: "server_ok sv1" and abs1: "abs_server sv1 = abs_server sv"
    and g: "grant SLOTS \<Longrightarrow> room" and fit: "room \<Longrightarrow> sv_count sv1 + 1 \<le> length (sv_slots sv1) div 4 * 3"
  proof (cases "sv_count sv + 1 > length (sv_slots sv) div 4 * 3")
    case True
    obtain room sv' where "widen_table grant sv = Some (room, sv')" "server_ok sv'" "abs_server sv' = abs_server sv"
      "room = grant SLOTS" "room \<longrightarrow> sv_count sv' + 1 \<le> length (sv_slots sv') div 4 * 3" by (rule widen_keeps [OF ok, of grant])
    then show thesis using that [of room sv'] True by simp
  next
    case False
    then show thesis using that [of True sv] ok by simp
  qed
  have sp: "sv_unit sv1 = sv_unit sv" "docs sv1 = docs sv" "sv_phase sv1 = ACTIVE"
    using arg_cong [OF abs1, of st_unit] arg_cong [OF abs1, of st_docs] arg_cong [OF abs1, of st_phase] phase by simp_all
  obtain p where p: "probe (sv_slots sv1) uri (hash_uri uri) = Some p" "store.stop (sv_slots sv1) uri p"
    by (rule server_probe [OF ok1])
  have s: "serve engine grant (Open uri version source) sv =
      (if \<not> room then Some (LSP_INTERNAL_ERROR, sv1) else put_record engine grant sv1 uri version source)"
    using w by (simp add: serve_def lsp_open_def act)
  let ?made = "if room \<and> grant RECORD \<and> grant URI then new_session engine source (sv_unit sv) else None"
  show ?thesis
  proof (cases ?made)
    case None
    have "serve engine grant (Open uri version source) sv = Some (LSP_INTERNAL_ERROR, sv1)"
      using None by (auto simp: s put_record_def p(1) sp Let_def split: if_splits)
    moreover have "spec engine (room \<and> grant RECORD \<and> grant URI) (Open uri version source) (abs_server sv) =
        (LSP_INTERNAL_ERROR, abs_server sv1)"
      by (simp only: spec_def spec_active_def abs_simps phase abs1 lsp_phase.case lsp_call.case None option.case)
    ultimately show ?thesis using ok1 g
      by (intro refinesI [where room = "room \<and> grant RECORD \<and> grant URI" and sv' = sv1]) simp_all
  next
    case (Some session)
    define r where "r = \<lparr>rec_uri = uri, rec_hash = hash_uri uri, rec_version = version, rec_session = session\<rparr>"
    define n where "n = (if sv_slots sv1 ! p = None then sv_count sv1 + 1 else sv_count sv1)"
    define sv' where "sv' = sv1\<lparr>sv_slots := (sv_slots sv1)[p := Some r], sv_count := n\<rparr>"
    have c: "room" "grant RECORD" "grant URI" "new_session engine source (sv_unit sv) = Some session"
      using Some by (simp_all split: if_splits)
    have r: "record_valid r" "rec_uri r = uri" "document r = (version, session)"
      by (simp_all add: r_def record_valid_def document_def)
    have "serve engine grant (Open uri version source) sv = Some (LSP_OK, sv')"
      using c by (simp add: s put_record_def p(1) sp sv'_def r_def n_def Let_def)
    moreover have k: "server_ok sv' \<and> docs sv' = (docs sv)(uri \<mapsto> (version, session))"
      using put_keeps [OF ok1 p(2) r(1,2) n_def fit [OF c(1)]] unfolding sv'_def r(3) sp(2) .
    moreover have "spec engine True (Open uri version source) (abs_server sv) = (LSP_OK, abs_server sv')"
      using c k sp by (simp add: spec_def spec_active_def phase) (simp add: abs_server_def phase sv'_def sp)
    ultimately show ?thesis by (intro refinesI [where sv' = sv' and room = True]) simp_all
  qed
qed

text \<open>The record a call found, replaced or dropped.\<close>

lemma session_set:
  assumes ok: "server_ok sv" and p: "store.stop (sv_slots sv) uri p" and h: "sv_slots sv ! p = Some held"
    and r: "rec_uri r = rec_uri held" "rec_hash r = rec_hash held"
  shows "server_ok (sv\<lparr>sv_slots := (sv_slots sv)[p := Some r]\<rparr>) \<and>
    abs_server (sv\<lparr>sv_slots := (sv_slots sv)[p := Some r]\<rparr>) = (abs_server sv)\<lparr>st_docs := (docs sv)(uri \<mapsto> document r)\<rparr>"
proof -
  have t: "store.table_ok (sv_slots sv)" using ok by (simp add: server_ok_def)
  have pn: "p < length (sv_slots sv)" and u: "rec_uri held = uri" using p h by (auto simp: store.stop_def)
  have "record_valid r" "rec_uri r = uri" using store.table_valid [OF t pn h] u r by (simp_all add: record_valid_def)
  from put_keeps [OF ok p this refl] h have "server_ok (sv\<lparr>sv_slots := (sv_slots sv)[p := Some r]\<rparr>) \<and>
      docs (sv\<lparr>sv_slots := (sv_slots sv)[p := Some r]\<rparr>) = (docs sv)(uri \<mapsto> document r)" by simp
  then show ?thesis by (simp add: abs_server_def)
qed

lemma found_doc: "sv_slots sv ! p = store.table_map (sv_slots sv) uri \<Longrightarrow>
    docs sv uri = map_option document (sv_slots sv ! p)"
  by (simp add: docs_def)

lemma update_refines:
  assumes ok: "server_ok sv" and phase: "sv_phase sv = ACTIVE"
  shows "refines engine grant (Update uri version edits) sv"
proof -
  have act: "active sv = LSP_OK" using phase by (simp add: active_cases)
  obtain p where p: "probe (sv_slots sv) uri (hash_uri uri) = Some p" "p < length (sv_slots sv)"
    "store.stop (sv_slots sv) uri p" "sv_slots sv ! p = store.table_map (sv_slots sv) uri"
    by (rule server_probe [OF ok])
  note s = serve_def lsp_update_def act p(1) and sp = spec_def spec_active_def phase found_doc [OF p(4)] document_def
  show ?thesis
  proof (cases "sv_slots sv ! p")
    case None
    then show ?thesis using ok by (intro refinesI [where room = True and sv' = sv]) (simp_all add: s sp)
  next
    case (Some held)
    have u: "rec_uri held = uri" using p(3) Some by (auto simp: store.stop_def)
    show ?thesis
    proof (cases "\<exists>edit \<in> set edits. after (ed_start edit) (ed_end edit)")
      case True
      then show ?thesis using ok Some
        by (intro refinesI [where room = True and sv' = sv]) (simp_all add: s sp list_ex_iff)
    next
      case False
      show ?thesis
      proof (cases "apply_edits engine (sv_unit sv) (rec_session held) edits")
        case None
        obtain sv' where "drop_record sv p = Some sv'" "server_ok sv'"
          "abs_server sv' = (abs_server sv)\<lparr>st_docs := (docs sv)(rec_uri held := None)\<rparr>"
          by (rule drop_keeps [OF ok p(2) Some])
        then show ?thesis using False Some None u
          by (intro refinesI [where room = True and sv' = sv']) (simp_all add: s sp list_ex_iff)
      next
        case (Some s')
        let ?r = "held\<lparr>rec_session := s', rec_version := version\<rparr>"
        from session_set [OF ok p(3) \<open>sv_slots sv ! p = Some held\<close>, of ?r] show ?thesis
          using False \<open>sv_slots sv ! p = Some held\<close> Some
          by (intro refinesI [where room = True and sv' = "sv\<lparr>sv_slots := (sv_slots sv)[p := Some ?r]\<rparr>"])
            (simp_all add: s sp list_ex_iff)
      qed
    qed
  qed
qed

lemma close_refines:
  assumes ok: "server_ok sv" and phase: "sv_phase sv = ACTIVE"
  shows "refines engine grant (Close uri) sv"
proof -
  have act: "active sv = LSP_OK" using phase by (simp add: active_cases)
  obtain p where p: "probe (sv_slots sv) uri (hash_uri uri) = Some p" "p < length (sv_slots sv)"
    "store.stop (sv_slots sv) uri p" "sv_slots sv ! p = store.table_map (sv_slots sv) uri"
    by (rule server_probe [OF ok])
  note s = serve_def lsp_close_def act p(1) and sp = spec_def spec_active_def phase found_doc [OF p(4)]
  show ?thesis
  proof (cases "sv_slots sv ! p")
    case None
    then show ?thesis using ok by (intro refinesI [where room = True and sv' = sv]) (simp_all add: s sp)
  next
    case (Some held)
    have u: "rec_uri held = uri" using p(3) Some by (auto simp: store.stop_def)
    obtain sv' where "drop_record sv p = Some sv'" "server_ok sv'"
      "abs_server sv' = (abs_server sv)\<lparr>st_docs := (docs sv)(rec_uri held := None)\<rparr>"
      by (rule drop_keeps [OF ok p(2) Some])
    then show ?thesis using Some u by (intro refinesI [where room = True and sv' = sv']) (simp_all add: s sp)
  qed
qed

lemma complete_refines:
  assumes ok: "server_ok sv" and phase: "sv_phase sv = ACTIVE"
  shows "refines engine grant (Complete uri position) sv"
proof -
  have act: "active sv = LSP_OK" using phase by (simp add: active_cases)
  obtain p where p: "probe (sv_slots sv) uri (hash_uri uri) = Some p" "p < length (sv_slots sv)"
    "store.stop (sv_slots sv) uri p" "sv_slots sv ! p = store.table_map (sv_slots sv) uri"
    by (rule server_probe [OF ok])
  note s = serve_def lsp_complete_def act p(1) and sp = spec_def spec_active_def phase found_doc [OF p(4)] document_def
  show ?thesis
  proof (cases "sv_slots sv ! p")
    case None
    then show ?thesis using ok by (intro refinesI [where room = True and sv' = sv]) (simp_all add: s sp)
  next
    case (Some held)
    obtain done' s' where l: "se_locate engine (rec_session held)
      (snd (lsp_text_locate (se_view engine (rec_session held)) position (sv_unit sv))) = (done', s')" by (metis surj_pair)
    let ?r = "held\<lparr>rec_session := s'\<rparr>"
    from session_set [OF ok p(3) Some, of ?r] show ?thesis
      using Some l by (intro refinesI [where room = "grant LIST" and sv' = "sv\<lparr>sv_slots := (sv_slots sv)[p := Some ?r]\<rparr>"])
        (auto simp: s sp)
  qed
qed

lemma serve_refines:
  assumes ok: "server_ok sv"
  shows "refines engine grant call sv"
proof (cases "sv_phase sv = ACTIVE")
  case False
  then show ?thesis using inactive_refines [OF ok] by blast
next
  case True
  show ?thesis
  proof (cases call)
    case (Initialize units)
    then show ?thesis using ok True
      by (intro refinesI [where room = True and sv' = sv]) (simp_all add: serve_def lsp_initialize_def spec_def spec_active_def)
  next
    case Shutdown
    have "docs (sv\<lparr>sv_phase := HALTED\<rparr>) = docs sv" by (rule docs_same_slots) simp
    then show ?thesis using ok True Shutdown
      by (intro refinesI [where room = True and sv' = "sv\<lparr>sv_phase := HALTED\<rparr>"])
        (simp_all add: serve_def lsp_shutdown_def active_def spec_def spec_active_def server_ok_def abs_server_def)
  qed (use ok True open_refines update_refines close_refines complete_refines in simp_all)
qed

text \<open>
  C5: The server over its hash table refines the store its header promises, a map from URIs to
  a version and a session.  From a server in order every call returns, whatever URIs collide and
  whatever the allocator and the session engine answer; it leaves the server in order, and its
  status and the documents then are the ones of the specification, with memory short only when
  some allocation was refused.
\<close>

theorem server_call_refines_store:
  assumes "server_ok sv"
  shows "\<exists>room status sv'. serve engine grant call sv = Some (status, sv') \<and> server_ok sv' \<and>
    spec engine room call (abs_server sv) = (status, abs_server sv') \<and> ((\<forall>site. grant site) \<longrightarrow> room)"
  using serve_refines [OF assms] unfolding refines_def .

lemma server_new_ok: "server_new grant = Some sv \<Longrightarrow> server_ok sv \<and> docs sv = Map.empty \<and> sv_phase sv = FRESH"
proof -
  assume "server_new grant = Some sv"
  then have sv: "sv = \<lparr>sv_phase = FRESH, sv_unit = TEXT_UNIT_UTF16, sv_slots = replicate 8 None, sv_count = 0\<rparr>"
    by (simp add: server_new_def split: if_splits)
  have "\<exists>b. 2 ^ b = (8::nat)" by (rule exI [of _ 3]) simp
  then show ?thesis using store.table_ok_empty [of 8]
    by (auto simp: sv server_ok_def docs_def store.table_map_empty fun_eq_iff)
qed

definition echo_engine :: "(byte list \<times> text_unit) engine" where
  "echo_engine = \<lparr>se_new = \<lambda>source unit. Some (source, unit), se_flush = Some,
     se_view = \<lambda>s. \<lparr>sv_source = fst s, sv_lines = [(0, length (fst s))]\<rparr>,
     se_edit = \<lambda>s from_pos to_pos bytes. (True, (bytes, snd s)), se_locate = \<lambda>s cursor. (True, s), se_cues = []\<rparr>"

theorem server_call_refines_store_witness:
  "\<exists>sv sv1 sv2. server_new (\<lambda>_. True) = Some sv \<and>
     serve echo_engine (\<lambda>_. True) (Initialize [TEXT_UNIT_UTF8]) sv = Some (LSP_OK, sv1) \<and>
     serve echo_engine (\<lambda>_. True) (Open [7] 3 [35, 32]) sv1 = Some (LSP_OK, sv2) \<and>
     docs sv2 [7] = Some (3, [35, 32], TEXT_UNIT_UTF8)"
proof -
  obtain sv :: "(byte list \<times> text_unit) lsp_server" where sv: "server_new (\<lambda>_. True) = Some sv"
    by (simp add: server_new_def)
  note n = server_new_ok [OF sv]
  then have a: "abs_server sv = \<lparr>st_phase = FRESH, st_unit = sv_unit sv, st_docs = Map.empty\<rparr>" by (simp add: abs_server_def)
  from server_call_refines_store [of sv echo_engine "\<lambda>_. True" "Initialize [TEXT_UNIT_UTF8]"] n
  obtain sv1 where sv1: "serve echo_engine (\<lambda>_. True) (Initialize [TEXT_UNIT_UTF8]) sv = Some (LSP_OK, sv1)" "server_ok sv1"
    "abs_server sv1 = \<lparr>st_phase = ACTIVE, st_unit = TEXT_UNIT_UTF8, st_docs = Map.empty\<rparr>"
    by (auto simp: spec_def a)
  from server_call_refines_store [OF sv1(2), of echo_engine "\<lambda>_. True" "Open [7] 3 [35, 32]"]
  obtain sv2 where sv2: "serve echo_engine (\<lambda>_. True) (Open [7] 3 [35, 32]) sv1 = Some (LSP_OK, sv2)"
    "abs_server sv2 = \<lparr>st_phase = ACTIVE, st_unit = TEXT_UNIT_UTF8, st_docs = [[7] \<mapsto> (3, [35, 32], TEXT_UNIT_UTF8)]\<rparr>"
    by (auto simp: spec_def spec_active_def sv1(3) new_session_def echo_engine_def)
  have "docs sv2 [7] = Some (3, [35, 32], TEXT_UNIT_UTF8)" using arg_cong [OF sv2(2), of st_docs] by simp
  then show ?thesis using sv sv1(1) sv2(1) by blast
qed

subsection \<open>The lifecycle\<close>

text \<open>The servers a sequence of calls leads to, each call with its own allocator's answers.\<close>

inductive reachable :: "'s engine \<Rightarrow> 's lsp_server \<Rightarrow> bool" for engine :: "'s engine" where
  made: "server_new grant = Some sv \<Longrightarrow> reachable engine sv"
| called: "reachable engine sv \<Longrightarrow> serve engine grant call sv = Some (status, sv') \<Longrightarrow> reachable engine sv'"

text \<open>What the engine must keep for every session to satisfy \<open>good\<close>, which may depend on the unit.\<close>

definition engine_keeps :: "'s engine \<Rightarrow> (text_unit \<Rightarrow> 's \<Rightarrow> bool) \<Rightarrow> bool" where
  "engine_keeps engine good \<longleftrightarrow>
     (\<forall>source unit s. new_session engine source unit = Some s \<longrightarrow> good unit s) \<and>
     (\<forall>unit s from_pos to_pos bytes. good unit s \<longrightarrow> good unit (snd (se_edit engine s from_pos to_pos bytes))) \<and>
     (\<forall>unit s cursor. good unit s \<longrightarrow> good unit (snd (se_locate engine s cursor)))"

lemma engine_keepsD:
  assumes "engine_keeps engine good"
  shows "new_session engine source unit = Some s \<Longrightarrow> good unit s"
    and "good unit s \<Longrightarrow> se_edit engine s from_pos to_pos bytes = (done', s') \<Longrightarrow> good unit s'"
    and "good unit s \<Longrightarrow> se_locate engine s cursor = (done', s') \<Longrightarrow> good unit s'"
  using assms unfolding engine_keeps_def by (metis snd_conv)+

lemma apply_edits_keeps:
  assumes "engine_keeps engine good" and "good unit s" and "apply_edits engine unit s edits = Some s'"
  shows "good unit s'"
  using assms(2,3)
proof (induction edits arbitrary: s)
  case (Cons edit edits)
  obtain done' s1 where e: "se_edit engine s (snd (lsp_text_locate (se_view engine s) (ed_start edit) unit))
      (snd (lsp_text_locate (se_view engine s) (ed_end edit) unit)) (ed_text edit) = (done', s1)" by (metis surj_pair)
  have "apply_edits engine unit s1 edits = Some s'" using Cons.prems(2) by (simp add: e split: if_splits)
  then show ?case using Cons.IH engine_keepsD(2) [OF assms(1) Cons.prems(1) e] by blast
qed simp

definition docs_good :: "('s \<Rightarrow> bool) \<Rightarrow> (byte list \<Rightarrow> (int \<times> 's) option) \<Rightarrow> bool" where
  "docs_good good d \<longleftrightarrow> (\<forall>uri version s. d uri = Some (version, s) \<longrightarrow> good s)"

lemma docs_good_put [intro]: "docs_good good d \<Longrightarrow> good s \<Longrightarrow> docs_good good (d(uri \<mapsto> (version, s)))"
  by (simp add: docs_good_def)

lemma docs_good_drop [intro]: "docs_good good d \<Longrightarrow> docs_good good (d(uri := None))"
  by (simp add: docs_good_def)

lemma docs_goodD: "docs_good good d \<Longrightarrow> d uri = Some (version, s) \<Longrightarrow> good s"
  by (simp add: docs_good_def)

definition store_good :: "(text_unit \<Rightarrow> 's \<Rightarrow> bool) \<Rightarrow> 's lsp_store \<Rightarrow> bool" where
  "store_good good st \<longleftrightarrow> (st_phase st = FRESH \<longrightarrow> st_docs st = Map.empty) \<and> docs_good (good (st_unit st)) (st_docs st)"

lemma spec_active_keeps:
  assumes e: "engine_keeps engine good" and d: "docs_good (good (st_unit st)) (st_docs st)" and ph: "st_phase st = ACTIVE"
    and sp: "spec_active engine room call st = (status, st')"
  shows "docs_good (good (st_unit st')) (st_docs st') \<and> st_phase st' \<noteq> FRESH"
proof (cases call)
  case (Open uri version source)
  then show ?thesis using d ph sp engine_keepsD(1) [OF e]
    by (cases "if room then new_session engine source (st_unit st) else None")
      (auto simp: spec_active_def docs_good_put split: if_splits)
next
  case (Update uri version edits)
  show ?thesis
  proof (cases "st_docs st uri")
    case None
    then show ?thesis using d ph sp Update by (simp add: spec_active_def)
  next
    case (Some doc)
    then obtain v s where s: "st_docs st uri = Some (v, s)" by (cases doc) simp
    show ?thesis using d ph sp Update s apply_edits_keeps [OF e docs_goodD [OF d s]]
      by (cases "apply_edits engine (st_unit st) s edits") (auto simp: spec_active_def docs_good_put split: if_splits)
  qed
next
  case (Close uri)
  then show ?thesis using d ph sp by (cases "st_docs st uri") (auto simp: spec_active_def)
next
  case (Complete uri position)
  show ?thesis
  proof (cases "st_docs st uri")
    case None
    then show ?thesis using d ph sp Complete by (simp add: spec_active_def)
  next
    case (Some doc)
    then obtain v s where s: "st_docs st uri = Some (v, s)" by (cases doc) simp
    obtain done' s' where l: "se_locate engine s
        (snd (lsp_text_locate (se_view engine s) position (st_unit st))) = (done', s')" by (metis surj_pair)
    then show ?thesis using d ph sp Complete s engine_keepsD(3) [OF e docs_goodD [OF d s] l]
      by (auto simp: spec_active_def)
  qed
qed (use d ph sp in \<open>auto simp: spec_active_def\<close>)

lemma spec_keeps:
  assumes e: "engine_keeps engine good" and g: "store_good good st" and sp: "spec engine room call st = (status, st')"
  shows "store_good good st'"
proof (cases "st_phase st")
  case FRESH
  then show ?thesis using g sp by (cases call) (auto simp: spec_def store_good_def docs_good_def)
next
  case ACTIVE
  then show ?thesis using spec_active_keeps [OF e _ ACTIVE] g sp by (simp add: spec_def store_good_def)
qed (use g sp in \<open>simp add: spec_def\<close>)

lemma reachable_good:
  assumes "reachable engine sv" and "engine_keeps engine good"
  shows "server_ok sv \<and> store_good good (abs_server sv)"
  using assms(1)
proof induction
  case (made grant sv)
  from server_new_ok [OF made] show ?case by (simp add: store_good_def docs_good_def)
next
  case (called sv grant call status sv')
  from serve_refines [of sv engine grant call] called obtain room where
    "server_ok sv'" "spec engine room call (abs_server sv) = (status, abs_server sv')"
    by (auto simp: refines_def)
  then show ?case using spec_keeps [OF assms(2)] called by blast
qed

text \<open>
  C26: In every server that calls can lead to, the table is in order; a server before initialize
  holds no document; and every property of sessions that the engine establishes for the unit it is
  given and keeps through edits and completions holds of each open document for the unit the
  server negotiated: the unit never changes under an open document.
\<close>

theorem reachable_server_invariant:
  assumes "reachable engine sv" and "engine_keeps engine good"
  shows "server_ok sv \<and> (sv_phase sv = FRESH \<longrightarrow> docs sv = Map.empty) \<and>
    (\<forall>uri version s. docs sv uri = Some (version, s) \<longrightarrow> good (sv_unit sv) s)"
  using reachable_good [OF assms] by (simp add: store_good_def docs_good_def)

theorem reachable_server_invariant_witness:
  "\<exists>sv :: (byte list \<times> text_unit) lsp_server. server_new (\<lambda>_. True) = Some sv \<and> server_ok sv \<and> docs sv = Map.empty \<and>
     (\<forall>uri version s. docs sv uri = Some (version, s) \<longrightarrow> snd s = sv_unit sv)"
proof -
  obtain sv :: "(byte list \<times> text_unit) lsp_server" where sv: "server_new (\<lambda>_. True) = Some sv"
    by (simp add: server_new_def)
  have "engine_keeps echo_engine (\<lambda>unit s. snd s = unit)"
    by (auto simp: engine_keeps_def echo_engine_def new_session_def)
  from reachable_server_invariant [OF reachable.made [OF sv] this] server_new_ok [OF sv] sv show ?thesis by auto
qed

text \<open>
  C27: Before initialize every other call answers that the server is not initialized, and after
  shutdown every call answers that the request is invalid; neither changes the server.
\<close>

theorem server_phase_refuses:
  assumes "sv_phase sv = HALTED \<or> sv_phase sv = FRESH \<and> (\<forall>units. call \<noteq> Initialize units)"
  shows "serve engine grant call sv =
    Some (if sv_phase sv = HALTED then LSP_INVALID_REQUEST else LSP_SERVER_NOT_INITIALIZED, sv)"
  using assms by (cases call; auto simp: serve_def lsp_initialize_def lsp_shutdown_def lsp_open_def lsp_update_def
      lsp_close_def lsp_complete_def active_def)

theorem server_phase_refuses_witness:
  "\<exists>sv. server_new (\<lambda>_. True) = Some sv \<and>
     serve echo_engine (\<lambda>_. True) (Close [7]) sv = Some (LSP_SERVER_NOT_INITIALIZED, sv)"
proof -
  obtain sv :: "(byte list \<times> text_unit) lsp_server" where sv: "server_new (\<lambda>_. True) = Some sv"
    by (simp add: server_new_def)
  then have "sv_phase sv = FRESH" using server_new_ok by blast
  then show ?thesis using server_phase_refuses [of sv "Close [7]"] sv by auto
qed

end
