(* ===== verification/Json.thy ===== *)
theory Json
  imports Utf8 Decimal
begin

text \<open>
  lsp/json.c and lsp/json.h: JSON read into a flat tree and written from it.

  A tree is the array of its values in document order and the bytes of its strings and
  numbers; a value's \<open>jv_end\<close> is the index after its last descendant.  The reader is explicit
  state passing: every function takes the reader and answers whether it went on, with the
  reader it left.  A request for storage goes to \<open>grant width n\<close>, \<open>width\<close> bytes \<open>n\<close> times:
  the sizes asked of each of the two arrays strictly increase, so the predicate describes any
  sequence of answers.
\<close>

datatype json_kind =
  JSON_NULL | JSON_FALSE | JSON_TRUE | JSON_NUMBER | JSON_STRING | JSON_ARRAY | JSON_OBJECT

datatype json_read_status = JSON_READ_OK | JSON_READ_MALFORMED | JSON_READ_FAILED

record json_value =
  jv_kind :: json_kind
  jv_end :: nat
  jv_at :: nat
  jv_size :: nat

record json_tree =
  jt_values :: "json_value list"
  jt_capacity :: nat
  jt_bytes :: "byte list"
  jt_room :: nat

record reader =
  rd_tree :: json_tree
  rd_at :: nat
  rd_status :: json_read_status

type_synonym grants = "nat \<Rightarrow> nat \<Rightarrow> bool"

definition JSON_DEPTH :: nat where
  "JSON_DEPTH = 512"

definition jfail :: "reader \<Rightarrow> json_read_status \<Rightarrow> bool \<times> reader" where
  "jfail r status = (False, if rd_status r = JSON_READ_OK then r\<lparr>rd_status := status\<rparr> else r)"

subsection \<open>Storage\<close>

text \<open>The doubling loop; \<open>next\<close> starts at 64 or more, so it is never 0.\<close>

function widen_loop :: "nat \<Rightarrow> nat \<Rightarrow> nat \<Rightarrow> nat option" where
  "widen_loop need width nxt =
     (if nxt < need then
        if nxt = 0 \<or> nxt > SIZE_MAX div 2 div width then None else widen_loop need width (nxt * 2)
      else Some nxt)"
  by pat_completeness auto
termination
  by (relation "measure (\<lambda>(need, width, nxt). need - nxt)") auto

declare widen_loop.simps [simp del]

definition widen :: "grants \<Rightarrow> nat \<Rightarrow> nat \<Rightarrow> nat \<Rightarrow> nat option" where
  "widen grant capacity need width =
     (if need \<le> capacity then Some capacity
      else
        case widen_loop need width (if capacity < 64 then 64 else capacity) of
          None \<Rightarrow> None
        | Some nxt \<Rightarrow> if grant width nxt then Some nxt else None)"

text \<open>Appends a value of \<open>kind\<close> and answers its index; \<open>None\<close> is \<open>SIZE_MAX\<close>.\<close>

definition push :: "grants \<Rightarrow> reader \<Rightarrow> json_kind \<Rightarrow> nat option \<times> reader" where
  "push grant r kind =
     (let tree = rd_tree r; count = length (jt_values tree)
      in case widen grant (jt_capacity tree) (count + 1) 32 of
           None \<Rightarrow> (None, snd (jfail r JSON_READ_FAILED))
         | Some capacity \<Rightarrow>
             (Some count,
              r\<lparr>rd_tree := tree\<lparr>jt_capacity := capacity,
                  jt_values := jt_values tree @
                    [\<lparr>jv_kind = kind, jv_end = count + 1, jv_at = length (jt_bytes tree), jv_size = 0\<rparr>]\<rparr>\<rparr>))"

definition put :: "grants \<Rightarrow> reader \<Rightarrow> byte list \<Rightarrow> bool \<times> reader" where
  "put grant r bytes =
     (let tree = rd_tree r
      in if bytes = [] then (True, r)
         else case widen grant (jt_room tree) (length (jt_bytes tree) + length bytes) 1 of
                None \<Rightarrow> jfail r JSON_READ_FAILED
              | Some room \<Rightarrow>
                  (True, r\<lparr>rd_tree := tree\<lparr>jt_room := room, jt_bytes := jt_bytes tree @ bytes\<rparr>\<rparr>))"

definition set_value :: "nat \<Rightarrow> (json_value \<Rightarrow> json_value) \<Rightarrow> reader \<Rightarrow> reader" where
  "set_value index f r =
     r\<lparr>rd_tree := rd_tree r\<lparr>jt_values :=
         (jt_values (rd_tree r))[index := f (jt_values (rd_tree r) ! index)]\<rparr>\<rparr>"

subsection \<open>Reading the leaves\<close>

definition json_space :: "byte \<Rightarrow> bool" where
  "json_space b \<longleftrightarrow> b = 0x20 \<or> b = 0x09 \<or> b = 0x0A \<or> b = 0x0D"

definition skip_space :: "byte list \<Rightarrow> reader \<Rightarrow> reader" where
  "skip_space src r = r\<lparr>rd_at := skip_while json_space src (rd_at r)\<rparr>"

definition literal :: "byte list \<Rightarrow> byte list \<Rightarrow> reader \<Rightarrow> bool \<times> reader" where
  "literal src word r =
     (if length src - rd_at r < length word \<or> take (length word) (drop (rd_at r) src) \<noteq> word
      then jfail r JSON_READ_MALFORMED
      else (True, r\<lparr>rd_at := rd_at r + length word\<rparr>))"

text \<open>A hex digit's value; \<open>None\<close> is -1.\<close>

definition hex :: "byte \<Rightarrow> nat option" where
  "hex b =
     (if between 0x30 0x39 b then Some (unat b - 0x30)
      else if between 0x61 0x66 b then Some (unat b - 0x61 + 10)
      else if between 0x41 0x46 b then Some (unat b - 0x41 + 10)
      else None)"

fun unit_loop :: "nat \<Rightarrow> byte list \<Rightarrow> nat option" where
  "unit_loop u [] = Some u"
| "unit_loop u (b # bs) = (case hex b of None \<Rightarrow> None | Some digit \<Rightarrow> unit_loop (u * 16 + digit) bs)"

definition escape_unit :: "byte list \<Rightarrow> nat \<Rightarrow> nat option" where
  "escape_unit src at =
     (if length src - at < 4 then None else unit_loop 0 (take 4 (drop at src)))"

definition scalar_bytes :: "nat \<Rightarrow> byte list" where
  "scalar_bytes scalar =
     (if scalar < 0x80 then [of_nat scalar]
      else if scalar < 0x800 then
        [of_nat (0xC0 OR drop_bit 6 scalar), of_nat (0x80 OR (scalar AND 0x3F))]
      else if scalar < 0x10000 then
        [of_nat (0xE0 OR drop_bit 12 scalar), of_nat (0x80 OR (drop_bit 6 scalar AND 0x3F)),
         of_nat (0x80 OR (scalar AND 0x3F))]
      else
        [of_nat (0xF0 OR drop_bit 18 scalar), of_nat (0x80 OR (drop_bit 12 scalar AND 0x3F)),
         of_nat (0x80 OR (drop_bit 6 scalar AND 0x3F)), of_nat (0x80 OR (scalar AND 0x3F))])"

definition put_scalar :: "grants \<Rightarrow> reader \<Rightarrow> nat \<Rightarrow> bool \<times> reader" where
  "put_scalar grant r scalar = put grant r (scalar_bytes scalar)"

text \<open>The letter escapes: \<open>strchr\<close> in one string and the byte at that index of the other.\<close>

definition simple_escape :: "byte \<Rightarrow> byte option" where
  "simple_escape letter =
     (if letter = 0 then None
      else map_of (zip [0x22, 0x5C, 0x2F, 0x62, 0x66, 0x6E, 0x72, 0x74]
                       [0x22, 0x5C, 0x2F, 0x08, 0x0C, 0x0A, 0x0D, 0x09]) letter)"

definition string_plain :: "byte \<Rightarrow> bool" where
  "string_plain b \<longleftrightarrow> b \<noteq> 0x22 \<and> b \<noteq> 0x5C \<and> b \<ge> 0x20"

text \<open>
  The scalar of the \<open>\u\<close> escape whose four digits \<open>unit\<close> end at \<open>at\<close>, and the cursor after
  it: the low surrogate after a high one is taken with it, a lone surrogate is U+FFFD.
\<close>

definition escape_scalar :: "byte list \<Rightarrow> nat \<Rightarrow> nat \<Rightarrow> nat \<times> nat" where
  "escape_scalar src at unit =
     (let (scalar, at) =
        (if unit \<ge> 0xD800 \<and> unit \<le> 0xDBFF \<and> length src - at \<ge> 6 \<and> src ! at = 0x5C \<and>
            src ! (at + 1) = 0x75
         then case escape_unit src (at + 2) of
                None \<Rightarrow> (unit, at)
              | Some low \<Rightarrow>
                  if low \<ge> 0xDC00 \<and> low \<le> 0xDFFF
                  then (0x10000 + push_bit 10 (unit - 0xD800) + (low - 0xDC00), at + 6)
                  else (unit, at)
         else (unit, at))
      in (if scalar \<ge> 0xD800 \<and> scalar \<le> 0xDFFF then 0xFFFD else scalar, at))"

lemma escape_scalar_ge: "at \<le> snd (escape_scalar src at unit)"
  by (auto simp: escape_scalar_def Let_def split: option.splits)

lemma rd_at_put [simp]: "rd_at (snd (put grant r bs)) = rd_at r"
  by (simp add: put_def jfail_def Let_def split: option.splits)

lemma rd_at_put_scalar [simp]: "rd_at (snd (put_scalar grant r u)) = rd_at r"
  by (simp add: put_scalar_def)

lemma rd_at_jfail [simp]: "rd_at (snd (jfail r st)) = rd_at r"
  by (simp add: jfail_def)

text \<open>
  One turn of the loop of \<open>read_string\<close>: a run of plain bytes, then the quote or one escape.
  \<open>Inl\<close> leaves the loop, \<open>Inr\<close> goes round again.
\<close>

definition string_turn :: "grants \<Rightarrow> byte list \<Rightarrow> reader \<Rightarrow> bool \<times> reader + reader" where
  "string_turn grant src r =
     (let run = rd_at r; at = skip_while string_plain src run;
          (ok, r) = put grant (r\<lparr>rd_at := at\<rparr>) (take (at - run) (drop run src))
      in if \<not> ok then Inl (False, r)
         else if at = length src \<or> src ! at < 0x20 then Inl (jfail r JSON_READ_MALFORMED)
         else if src ! at = 0x22 then Inl (True, r\<lparr>rd_at := at + 1\<rparr>)
         else if length src - at < 2 then Inl (jfail r JSON_READ_MALFORMED)
         else
           let letter = src ! (at + 1)
           in case simple_escape letter of
                Some b \<Rightarrow>
                  (let (ok, r) = put grant r [b]
                   in if \<not> ok then Inl (False, r) else Inr (r\<lparr>rd_at := at + 2\<rparr>))
              | None \<Rightarrow>
                  if letter \<noteq> 0x75 then Inl (jfail r JSON_READ_MALFORMED)
                  else case escape_unit src (at + 2) of
                         None \<Rightarrow> Inl (jfail r JSON_READ_MALFORMED)
                       | Some unit \<Rightarrow>
                           (let (scalar, at) = escape_scalar src (at + 6) unit;
                                (ok, r) = put_scalar grant (r\<lparr>rd_at := at\<rparr>) scalar
                            in if \<not> ok then Inl (False, r) else Inr r))"

lemma string_turn_Inr:
  assumes "string_turn grant src r = Inr r'"
  shows "rd_at r < rd_at r' \<and> rd_at r < length src"
proof -
  let ?at = "skip_while string_plain src (rd_at r)"
  have ge: "rd_at r \<le> ?at" by (rule skip_while_ge)
  obtain ok r1 where r1: "put grant (r\<lparr>rd_at := ?at\<rparr>) (take (?at - rd_at r) (drop (rd_at r) src)) = (ok, r1)"
    by fastforce
  have long: "\<not> length src - ?at < 2"
    using assms r1 by (auto simp: string_turn_def Let_def split: if_splits)
  show ?thesis
  proof (cases "simple_escape (src ! (?at + 1))")
    case None
    then obtain u where u: "escape_unit src (?at + 2) = Some u"
      using assms r1 by (auto simp: string_turn_def Let_def split: if_splits option.splits)
    obtain sc at2 where e: "escape_scalar src (?at + 6) u = (sc, at2)" by fastforce
    obtain ok2 r2 where r2: "put_scalar grant (r1\<lparr>rd_at := at2\<rparr>) sc = (ok2, r2)" by fastforce
    have "r' = r2"
      using assms r1 None u e r2 by (simp add: string_turn_def Let_def split: if_splits)
    moreover have "rd_at r2 = at2" using rd_at_put_scalar [of grant "r1\<lparr>rd_at := at2\<rparr>" sc] r2 by simp
    moreover have "?at + 6 \<le> at2" using escape_scalar_ge [of "?at + 6" src u] e by simp
    ultimately show ?thesis using ge long by simp
  next
    case (Some b)
    obtain ok2 r2 where r2: "put grant r1 [b] = (ok2, r2)" by fastforce
    have "r' = r2\<lparr>rd_at := ?at + 2\<rparr>"
      using assms r1 Some r2 by (simp add: string_turn_def Let_def split: if_splits)
    then show ?thesis using ge long by simp
  qed
qed

function string_loop :: "grants \<Rightarrow> byte list \<Rightarrow> reader \<Rightarrow> bool \<times> reader" where
  "string_loop grant src r =
     (case string_turn grant src r of Inl res \<Rightarrow> res | Inr r \<Rightarrow> string_loop grant src r)"
  by pat_completeness auto
termination
  by (relation "measure (\<lambda>(grant, src, r). length src - rd_at r)")
    (use string_turn_Inr in fastforce)+

declare string_loop.simps [simp del]

text \<open>A string at the opening quote, decoded into the tree's bytes.\<close>

definition read_string :: "grants \<Rightarrow> byte list \<Rightarrow> reader \<Rightarrow> bool \<times> reader" where
  "read_string grant src r =
     (case push grant r JSON_STRING of
        (None, r) \<Rightarrow> (False, r)
      | (Some index, r) \<Rightarrow>
          (let start = length (jt_bytes (rd_tree r));
               (ok, r) = string_loop grant src (r\<lparr>rd_at := rd_at r + 1\<rparr>)
           in if \<not> ok then (False, r)
              else (True, set_value index
                     (\<lambda>v. v\<lparr>jv_at := start, jv_size := length (jt_bytes (rd_tree r)) - start\<rparr>) r)))"

definition decimals :: "byte list \<Rightarrow> reader \<Rightarrow> bool \<times> reader" where
  "decimals src r =
     (let start = rd_at r; at = skip_while digit_byte src start; r = r\<lparr>rd_at := at\<rparr>
      in if at > start then (True, r) else jfail r JSON_READ_MALFORMED)"

text \<open>Whether the cursor is inside the text at a byte of \<open>bytes\<close>.\<close>

definition at_byte :: "byte list \<Rightarrow> reader \<Rightarrow> byte list \<Rightarrow> bool" where
  "at_byte src r bytes \<longleftrightarrow> rd_at r < length src \<and> src ! rd_at r \<in> set bytes"

definition advance :: "reader \<Rightarrow> reader" where
  "advance r = r\<lparr>rd_at := rd_at r + 1\<rparr>"

text \<open>The three parts of a number; each answers whether the reading went on.\<close>

definition read_integer_part :: "byte list \<Rightarrow> reader \<Rightarrow> bool \<times> reader" where
  "read_integer_part src r =
     (let r = (if src ! rd_at r = 0x2D then advance r else r)
      in if at_byte src r [0x30] then (True, advance r) else decimals src r)"

definition read_fraction :: "byte list \<Rightarrow> reader \<Rightarrow> bool \<times> reader" where
  "read_fraction src r = (if at_byte src r [0x2E] then decimals src (advance r) else (True, r))"

definition read_exponent :: "byte list \<Rightarrow> reader \<Rightarrow> bool \<times> reader" where
  "read_exponent src r =
     (if at_byte src r [0x65, 0x45] then
        let r = advance r; r = (if at_byte src r [0x2B, 0x2D] then advance r else r)
        in decimals src r
      else (True, r))"

definition read_number :: "grants \<Rightarrow> byte list \<Rightarrow> reader \<Rightarrow> bool \<times> reader" where
  "read_number grant src r =
     (let start = rd_at r; (ok, r) = read_integer_part src r
      in if \<not> ok then (False, r)
         else let (ok, r) = read_fraction src r
           in if \<not> ok then (False, r)
              else let (ok, r) = read_exponent src r
                in if \<not> ok then (False, r)
                   else case push grant r JSON_NUMBER of
                          (None, r) \<Rightarrow> (False, r)
                        | (Some index, r) \<Rightarrow>
                            (let (ok, r) = put grant r (take (rd_at r - start) (drop start src))
                             in if \<not> ok then (False, r)
                                else (True, set_value index (\<lambda>v. v\<lparr>jv_size := rd_at r - start\<rparr>) r)))"

subsection \<open>Reading a value\<close>

text \<open>
  A value, a container at its opening bracket and the turns of the container's loop call each
  other.  The recursion takes fuel; \<open>json_read_total\<close> shows that three units a byte are enough
  for every text.
\<close>

definition read_word :: "grants \<Rightarrow> byte list \<Rightarrow> byte list \<Rightarrow> json_kind \<Rightarrow> reader \<Rightarrow> bool \<times> reader" where
  "read_word grant src word kind r =
     (let (ok, r) = literal src word r
      in if \<not> ok then (False, r) else (case push grant r kind of (i, r) \<Rightarrow> (i \<noteq> None, r)))"

text \<open>The key of an object's member and the colon after it.\<close>

definition read_key :: "grants \<Rightarrow> byte list \<Rightarrow> reader \<Rightarrow> bool \<times> reader" where
  "read_key grant src r =
     (let r = skip_space src r
      in if \<not> at_byte src r [0x22] then jfail r JSON_READ_MALFORMED
         else let (ok, r) = read_string grant src r
           in if \<not> ok then (False, r)
              else let r = skip_space src r
                in if \<not> at_byte src r [0x3A] then jfail r JSON_READ_MALFORMED
                   else (True, advance r))"

definition close_of :: "json_kind \<Rightarrow> byte" where
  "close_of kind = (if kind = JSON_ARRAY then 0x5D else 0x7D)"

definition set_end :: "nat \<Rightarrow> reader \<Rightarrow> reader" where
  "set_end index r = set_value index (\<lambda>v. v\<lparr>jv_end := length (jt_values (rd_tree r))\<rparr>) r"

fun read_value :: "nat \<Rightarrow> grants \<Rightarrow> byte list \<Rightarrow> nat \<Rightarrow> reader \<Rightarrow> (bool \<times> reader) option"
  and read_container :: "nat \<Rightarrow> grants \<Rightarrow> byte list \<Rightarrow> nat \<Rightarrow> json_kind \<Rightarrow> reader \<Rightarrow> (bool \<times> reader) option"
  and read_members :: "nat \<Rightarrow> grants \<Rightarrow> byte list \<Rightarrow> nat \<Rightarrow> json_kind \<Rightarrow> nat \<Rightarrow> reader \<Rightarrow> (bool \<times> reader) option"
where
  "read_value 0 grant src depth r = None"
| "read_value (Suc fuel) grant src depth r =
     (let r = skip_space src r
      in if rd_at r = length src then Some (jfail r JSON_READ_MALFORMED)
         else let b = src ! rd_at r
           in if b = 0x7B then read_container fuel grant src depth JSON_OBJECT r
              else if b = 0x5B then read_container fuel grant src depth JSON_ARRAY r
              else if b = 0x22 then Some (read_string grant src r)
              else if b = 0x74 then Some (read_word grant src (asc ''true'') JSON_TRUE r)
              else if b = 0x66 then Some (read_word grant src (asc ''false'') JSON_FALSE r)
              else if b = 0x6E then Some (read_word grant src (asc ''null'') JSON_NULL r)
              else if b = 0x2D \<or> digit_byte b then Some (read_number grant src r)
              else Some (jfail r JSON_READ_MALFORMED))"
| "read_container 0 grant src depth kind r = None"
| "read_container (Suc fuel) grant src depth kind r =
     (if depth \<ge> JSON_DEPTH then Some (jfail r JSON_READ_MALFORMED)
      else case push grant r kind of
             (None, r) \<Rightarrow> Some (False, r)
           | (Some index, r) \<Rightarrow>
               (let r = skip_space src (advance r)
                in if at_byte src r [close_of kind] then Some (True, advance r)
                   else read_members fuel grant src depth kind index r))"
| "read_members 0 grant src depth kind index r = None"
| "read_members (Suc fuel) grant src depth kind index r =
     (let (ok, r) = (if kind = JSON_OBJECT then read_key grant src r else (True, r))
      in if \<not> ok then Some (False, r)
         else case read_value fuel grant src (depth + 1) r of
                None \<Rightarrow> None
              | Some (ok, r) \<Rightarrow>
                  if \<not> ok then Some (False, r)
                  else
                    let r = skip_space src r
                    in if rd_at r = length src then Some (jfail r JSON_READ_MALFORMED)
                       else if src ! rd_at r = close_of kind then Some (True, set_end index (advance r))
                       else if src ! rd_at r \<noteq> 0x2C then Some (jfail r JSON_READ_MALFORMED)
                       else read_members fuel grant src depth kind index (advance r))"

definition reader_start :: "json_tree \<Rightarrow> reader" where
  "reader_start tree =
     \<lparr>rd_tree = tree\<lparr>jt_values := [], jt_bytes := []\<rparr>, rd_at = 0, rd_status = JSON_READ_OK\<rparr>"

definition json_read :: "grants \<Rightarrow> json_tree \<Rightarrow> byte list \<Rightarrow> (json_read_status \<times> json_tree) option" where
  "json_read grant tree src =
     (case read_value (3 * length src + 2) grant src 0 (reader_start tree) of
        None \<Rightarrow> None
      | Some (ok, r) \<Rightarrow>
          (let r = (if ok then
                      let r = skip_space src r
                      in if rd_at r \<noteq> length src then snd (jfail r JSON_READ_MALFORMED) else r
                    else r)
           in Some (rd_status r, rd_tree r)))"

end
