(* ===== verification/JsonRead.thy ===== *)
theory JsonRead
  imports Json
begin

text \<open>
  What lsp/json.c's reader promises: it returns for every text, an accepted text leaves the
  flat tree of one JSON value nested at most 512 deep, and every text the writer spells is
  read back as the value it spells.

  A value is a leaf with its bytes or a node with its members, an object's key and value
  being two members in turn, which is how json.h describes the tree.
\<close>

datatype json = JLeaf json_kind "byte list" | JNode json_kind "json list"

fun nodes :: "json \<Rightarrow> nat" and nodess :: "json list \<Rightarrow> nat" where
  "nodes (JLeaf k bs) = 1"
| "nodes (JNode k js) = 1 + nodess js"
| "nodess [] = 0"
| "nodess (j # js) = nodes j + nodess js"

fun jbytes :: "json \<Rightarrow> byte list" and jbytess :: "json list \<Rightarrow> byte list" where
  "jbytes (JLeaf k bs) = bs"
| "jbytes (JNode k js) = jbytess js"
| "jbytess [] = []"
| "jbytess (j # js) = jbytes j @ jbytess js"

fun json_depth :: "json \<Rightarrow> nat" and json_depths :: "json list \<Rightarrow> nat" where
  "json_depth (JLeaf k bs) = 0"
| "json_depth (JNode k js) = 1 + json_depths js"
| "json_depths [] = 0"
| "json_depths (j # js) = max (json_depth j) (json_depths js)"

text \<open>The values of \<open>j\<close> from index \<open>i\<close> on, its bytes from offset \<open>b\<close> on.\<close>

fun flat :: "nat \<Rightarrow> nat \<Rightarrow> json \<Rightarrow> json_value list" and flats :: "nat \<Rightarrow> nat \<Rightarrow> json list \<Rightarrow> json_value list"
where
  "flat i b (JLeaf k bs) = [\<lparr>jv_kind = k, jv_end = i + 1, jv_at = b, jv_size = length bs\<rparr>]"
| "flat i b (JNode k js) =
     \<lparr>jv_kind = k, jv_end = i + 1 + nodess js, jv_at = b, jv_size = 0\<rparr> # flats (i + 1) b js"
| "flats i b [] = []"
| "flats i b (j # js) = flat i b j @ flats (i + nodes j) (b + length (jbytes j)) js"

fun keyed :: "json list \<Rightarrow> bool" where
  "keyed [] = True"
| "keyed (JLeaf JSON_STRING k # v # js) = keyed js"
| "keyed _ = False"

text \<open>The grammar of a number's spelling.\<close>

definition digits_ok :: "byte list \<Rightarrow> bool" where
  "digits_ok bs \<longleftrightarrow> bs \<noteq> [] \<and> (\<forall>b \<in> set bs. digit_byte b)"

definition int_ok :: "byte list \<Rightarrow> bool" where
  "int_ok bs \<longleftrightarrow>
     (\<exists>sign ds. bs = sign @ ds \<and> sign \<in> {[], [0x2D]} \<and> (ds = [0x30] \<or> digits_ok ds \<and> hd ds \<noteq> 0x30))"

definition frac_ok :: "byte list \<Rightarrow> bool" where
  "frac_ok bs \<longleftrightarrow> bs = [] \<or> (\<exists>ds. digits_ok ds \<and> bs = 0x2E # ds)"

definition expo_ok :: "byte list \<Rightarrow> bool" where
  "expo_ok bs \<longleftrightarrow>
     bs = [] \<or>
     (\<exists>e s ds. e \<in> {0x65, 0x45} \<and> s \<in> {[], [0x2B], [0x2D]} \<and> digits_ok ds \<and> bs = e # s @ ds)"

definition number_ok :: "byte list \<Rightarrow> bool" where
  "number_ok bs \<longleftrightarrow> (\<exists>i f x. bs = i @ f @ x \<and> int_ok i \<and> frac_ok f \<and> expo_ok x)"

fun leaf_ok :: "json_kind \<Rightarrow> byte list \<Rightarrow> bool" where
  "leaf_ok JSON_NUMBER bs = number_ok bs"
| "leaf_ok JSON_STRING bs = True"
| "leaf_ok JSON_ARRAY bs = False"
| "leaf_ok JSON_OBJECT bs = False"
| "leaf_ok _ bs = (bs = [])"

fun json_ok :: "json \<Rightarrow> bool" and jsons_ok :: "json list \<Rightarrow> bool" where
  "json_ok (JLeaf k bs) = leaf_ok k bs"
| "json_ok (JNode k js) = ((k = JSON_ARRAY \<or> k = JSON_OBJECT \<and> keyed js) \<and> jsons_ok js)"
| "jsons_ok [] = True"
| "jsons_ok (j # js) = (json_ok j \<and> jsons_ok js)"

lemma length_flat: "length (flat i b j) = nodes j"
  and length_flats: "length (flats i b js) = nodess js"
  by (induction i b j and i b js rule: flat_flats.induct) simp_all

lemma nodes_pos: "0 < nodes j"
  by (cases j) simp_all

lemma list_append_simps [simp]:
  "nodess (js @ ks) = nodess js + nodess ks"
  "jbytess (js @ ks) = jbytess js @ jbytess ks"
  "json_depths (js @ ks) = max (json_depths js) (json_depths ks)"
  "jsons_ok (js @ ks) = (jsons_ok js \<and> jsons_ok ks)"
  by (induction js) auto

lemma flats_append: "flats i b (js @ ks) = flats i b js @ flats (i + nodess js) (b + length (jbytess js)) ks"
  by (induction js arbitrary: i b) (simp_all add: ac_simps)

subsection \<open>How a step of the reader grows the tree\<close>

text \<open>The step appended the values and the bytes and did not fail.\<close>

definition grew :: "reader \<Rightarrow> reader \<Rightarrow> json_value list \<Rightarrow> byte list \<Rightarrow> bool" where
  "grew r r' vs bs \<longleftrightarrow>
     jt_values (rd_tree r') = jt_values (rd_tree r) @ vs \<and>
     jt_bytes (rd_tree r') = jt_bytes (rd_tree r) @ bs \<and> rd_status r' = rd_status r"

text \<open>The cursor moved on and stays inside the text.\<close>

definition moved :: "byte list \<Rightarrow> reader \<Rightarrow> reader \<Rightarrow> bool" where
  "moved src r r' \<longleftrightarrow> rd_at r \<le> rd_at r' \<and> rd_at r' \<le> length src"

text \<open>The step failed: a good status became a bad one.\<close>

definition failed :: "reader \<Rightarrow> reader \<Rightarrow> bool" where
  "failed r r' \<longleftrightarrow> (rd_status r = JSON_READ_OK \<longrightarrow> rd_status r' \<noteq> JSON_READ_OK)"

lemma grew_refl [simp]: "grew r r [] []"
  by (simp add: grew_def)

lemma grew_at [simp]: "grew r (r'\<lparr>rd_at := n\<rparr>) vs bs = grew r r' vs bs"
  "grew (r\<lparr>rd_at := n\<rparr>) r' vs bs = grew r r' vs bs"
  by (simp_all add: grew_def)

lemma grew_trans: "grew r r1 vs bs \<Longrightarrow> grew r1 r2 ws cs \<Longrightarrow> grew r r2 (vs @ ws) (bs @ cs)"
  by (simp add: grew_def)

lemma failed_at [simp]: "failed (r\<lparr>rd_at := n\<rparr>) r' = failed r r'"
  "failed r (r'\<lparr>rd_at := n\<rparr>) = failed r r'"
  by (simp_all add: failed_def)

lemma failed_trans: "grew r r1 vs bs \<Longrightarrow> failed r1 r2 \<Longrightarrow> failed r r2"
  by (simp add: grew_def failed_def)

lemma jfail_failed [simp]: "fst (jfail r st) = False" "st \<noteq> JSON_READ_OK \<Longrightarrow> failed r (snd (jfail r st))"
  by (simp_all add: jfail_def failed_def)

lemma jfail_eq: "jfail r st = (ok, r') \<Longrightarrow>
    \<not> ok \<and> rd_at r' = rd_at r \<and> (st \<noteq> JSON_READ_OK \<longrightarrow> failed r r')"
  by (auto simp: jfail_def failed_def split: if_splits)

lemma push_Some:
  assumes "push grant r kind = (Some index, r')"
  shows "index = length (jt_values (rd_tree r))" and "rd_at r' = rd_at r"
    and "grew r r' [\<lparr>jv_kind = kind, jv_end = index + 1, jv_at = length (jt_bytes (rd_tree r)), jv_size = 0\<rparr>] []"
  using assms by (auto simp: push_def Let_def grew_def split: option.splits)

lemma push_None: "push grant r kind = (None, r') \<Longrightarrow> failed r r' \<and> rd_at r' = rd_at r"
  by (auto simp: push_def Let_def split: option.splits)

lemma put_True: "put grant r bs = (True, r') \<Longrightarrow> grew r r' [] bs \<and> rd_at r' = rd_at r"
  by (auto simp: put_def Let_def grew_def jfail_def split: option.splits if_splits)

lemma put_False: "put grant r bs = (False, r') \<Longrightarrow> failed r r' \<and> rd_at r' = rd_at r"
  by (auto simp: put_def Let_def dest: jfail_eq split: option.splits if_splits)

lemma skip_space_moved: "rd_at r \<le> length src \<Longrightarrow> moved src r (skip_space src r)"
  by (simp add: skip_space_def moved_def skip_while_ge skip_while_le)

lemma skip_space_simps [simp]:
  "rd_tree (skip_space src r) = rd_tree r" "rd_status (skip_space src r) = rd_status r"
  "grew r (skip_space src r') vs bs = grew r r' vs bs"
  "grew (skip_space src r) r' vs bs = grew r r' vs bs"
  "failed (skip_space src r) r' = failed r r'"
  by (simp_all add: skip_space_def)

lemma advance_simps [simp]:
  "rd_tree (advance r) = rd_tree r" "rd_status (advance r) = rd_status r"
  "rd_at (advance r) = rd_at r + 1" "grew r (advance r') vs bs = grew r r' vs bs"
  "grew (advance r) r' vs bs = grew r r' vs bs" "failed (advance r) r' = failed r r'"
  by (simp_all add: advance_def)

subsection \<open>Soundness of the leaves\<close>

lemma set_value_simps [simp]:
  "rd_at (set_value i f r) = rd_at r" "rd_status (set_value i f r) = rd_status r"
  "jt_bytes (rd_tree (set_value i f r)) = jt_bytes (rd_tree r)"
  "jt_values (rd_tree (set_value i f r)) = (jt_values (rd_tree r))[i := f (jt_values (rd_tree r) ! i)]"
  by (simp_all add: set_value_def)

lemma grew_set_value:
  assumes "grew r r' (v # vs) bs" and "i = length (jt_values (rd_tree r))"
  shows "grew r (set_value i f r') (f v # vs) bs"
  using assms by (simp add: grew_def nth_append list_update_append)

lemma moved_trans: "moved src r r1 \<Longrightarrow> moved src r1 r2 \<Longrightarrow> moved src r r2"
  by (simp add: moved_def)

lemma escape_unit_room: "escape_unit src at = Some u \<Longrightarrow> at + 4 \<le> length src"
  by (simp add: escape_unit_def split: if_splits)

lemma escape_scalar_le:
  assumes "at \<le> length src"
  shows "snd (escape_scalar src at unit) \<le> length src"
proof (cases "escape_unit src (at + 2)")
  case None
  then show ?thesis using assms by (simp add: escape_scalar_def Let_def)
next
  case (Some low)
  then show ?thesis using assms escape_unit_room [OF Some] by (simp add: escape_scalar_def Let_def)
qed

text \<open>A turn of the string loop: what it leaves when it leaves and when it goes round.\<close>

lemma string_turn_sound:
  assumes "rd_at r \<le> length src"
  shows "case string_turn grant src r of
      Inl (ok, r') \<Rightarrow> moved src r r' \<and> (if ok then rd_at r < rd_at r' \<and> (\<exists>bs. grew r r' [] bs) else failed r r')
    | Inr r' \<Rightarrow> moved src r r' \<and> (\<exists>bs. grew r r' [] bs)"
proof -
  let ?at = "skip_while string_plain src (rd_at r)"
  let ?run = "take (?at - rd_at r) (drop (rd_at r) src)"
  have at: "rd_at r \<le> ?at" "?at \<le> length src" using assms by (simp_all add: skip_while_ge skip_while_le)
  obtain ok r1 where r1: "put grant (r\<lparr>rd_at := ?at\<rparr>) ?run = (ok, r1)" by fastforce
  have at1: "rd_at r1 = ?at" using r1 put_True put_False by (cases ok) fastforce+
  show ?thesis
  proof (cases ok)
    case False
    then have "failed r r1" using put_False r1 by fastforce
    then show ?thesis using r1 False at at1 by (simp add: string_turn_def moved_def Let_def)
  next
    case True
    then have g1: "grew r r1 [] ?run" using put_True [of grant "r\<lparr>rd_at := ?at\<rparr>" ?run r1] r1 by simp
    have bad: "failed r (snd (jfail r1 JSON_READ_MALFORMED))"
      using failed_trans [OF g1] by simp
    consider "?at = length src \<or> src ! ?at < 0x20"
      | "?at < length src" "\<not> src ! ?at < 0x20" "src ! ?at = 0x22"
      | "?at < length src" "\<not> src ! ?at < 0x20" "src ! ?at \<noteq> 0x22" "length src - ?at < 2"
      | "\<not> src ! ?at < 0x20" "src ! ?at \<noteq> 0x22" "length src \<ge> ?at + 2"
      using at by linarith
    then show ?thesis
    proof cases
      case 1
      then show ?thesis using r1 True bad at at1
        by (auto simp: string_turn_def moved_def Let_def jfail_def)
    next
      case 2
      then show ?thesis using r1 True g1 at at1 by (auto simp: string_turn_def moved_def Let_def)
    next
      case 3
      then show ?thesis using r1 True bad at at1
        by (auto simp: string_turn_def moved_def Let_def jfail_def)
    next
      case 4
      then have n: "?at \<noteq> length src" "\<not> length src - ?at < 2" by linarith+
      show ?thesis
      proof (cases "simple_escape (src ! (?at + 1))")
        case (Some b)
        obtain ok2 r2 where r2: "put grant r1 [b] = (ok2, r2)" by fastforce
        then have "if ok2 then grew r r2 [] (?run @ [b]) else failed r r2 \<and> rd_at r2 = rd_at r1"
          using put_True [of grant r1 "[b]" r2] put_False [of grant r1 "[b]" r2] grew_trans [OF g1] failed_trans [OF g1]
          by (cases ok2) auto
        then show ?thesis using r1 True 4 n Some r2 at at1
          by (cases ok2) (auto simp: string_turn_def moved_def Let_def)
      next
        case None
        show ?thesis
        proof (cases "src ! (?at + 1) = 0x75")
          case u: True
          show ?thesis
          proof (cases "escape_unit src (?at + 2)")
            case e: None
            then show ?thesis using r1 True 4 n None u bad at at1
              by (auto simp: string_turn_def moved_def Let_def jfail_def)
          next
            case e: (Some unit)
            obtain sc at2 where sc: "escape_scalar src (?at + 6) unit = (sc, at2)" by fastforce
            have "?at + 6 \<le> at2" "at2 \<le> length src"
              using escape_scalar_ge [of "?at + 6" src unit] escape_scalar_le [of "?at + 6" src unit]
                escape_unit_room [OF e] sc by simp_all
            obtain ok2 r2 where r2: "put_scalar grant (r1\<lparr>rd_at := at2\<rparr>) sc = (ok2, r2)" by fastforce
            then have "if ok2 then grew r r2 [] (?run @ scalar_bytes sc) else failed r r2"
              using put_True [of grant "r1\<lparr>rd_at := at2\<rparr>" "scalar_bytes sc" r2]
                put_False [of grant "r1\<lparr>rd_at := at2\<rparr>" "scalar_bytes sc" r2]
                grew_trans [OF g1] failed_trans [OF g1]
              by (cases ok2) (auto simp: put_scalar_def)
            moreover have "rd_at r2 = at2" using rd_at_put_scalar [of grant "r1\<lparr>rd_at := at2\<rparr>" sc] r2 by simp
            ultimately show ?thesis
              using r1 True 4 n None u e sc r2 at at1 \<open>?at + 6 \<le> at2\<close> \<open>at2 \<le> length src\<close>
              by (cases ok2) (auto simp: string_turn_def moved_def Let_def)
          qed
        next
          case u: False
          then show ?thesis using r1 True 4 n None bad at at1
            by (auto simp: string_turn_def moved_def Let_def jfail_def)
        qed
      qed
    qed
  qed
qed

lemma string_loop_sound:
  "rd_at r \<le> length src \<Longrightarrow> string_loop grant src r = (ok, r') \<Longrightarrow>
   moved src r r' \<and> (if ok then rd_at r < rd_at r' \<and> (\<exists>bs. grew r r' [] bs) else failed r r')"
proof (induction grant src r arbitrary: ok r' rule: string_loop.induct)
  case (1 grant src r)
  show ?case
  proof (cases "string_turn grant src r")
    case (Inl p)
    then have "p = (ok, r')" using "1.prems"(2) by (subst (asm) string_loop.simps) simp
    then show ?thesis using string_turn_sound [OF "1.prems"(1), of grant] Inl by simp
  next
    case (Inr r1)
    then have r1: "string_loop grant src r1 = (ok, r')" using "1.prems"(2) by (subst (asm) string_loop.simps) simp
    obtain bs where bs: "moved src r r1" "grew r r1 [] bs"
      using string_turn_sound [OF "1.prems"(1), of grant] Inr by auto
    have "rd_at r1 \<le> length src" using bs(1) by (simp add: moved_def)
    then have "moved src r1 r' \<and> (if ok then rd_at r1 < rd_at r' \<and> (\<exists>bs. grew r1 r' [] bs) else failed r1 r')"
      using "1.IH" [OF Inr _ r1] by blast
    then show ?thesis
      using bs grew_trans [OF bs(2)] failed_trans [OF bs(2)]
      by (cases ok) (fastforce simp: moved_def)+
  qed
qed

lemma read_string_sound:
  assumes "rd_at r < length src" and "read_string grant src r = (ok, r')"
  shows "moved src r r' \<and> (if ok then rd_at r < rd_at r' \<and>
      (\<exists>bs. grew r r' (flat (length (jt_values (rd_tree r))) (length (jt_bytes (rd_tree r))) (JLeaf JSON_STRING bs)) bs)
    else failed r r')"
proof -
  obtain i r1 where p: "push grant r JSON_STRING = (i, r1)" by fastforce
  show ?thesis
  proof (cases i)
    case None
    then show ?thesis using p push_None assms by (fastforce simp: read_string_def moved_def)
  next
    case (Some index)
    note g1 = push_Some [OF p [unfolded Some]]
    obtain ok2 r2 where r2: "string_loop grant src (r1\<lparr>rd_at := rd_at r1 + 1\<rparr>) = (ok2, r2)" by fastforce
    have "rd_at (r1\<lparr>rd_at := rd_at r1 + 1\<rparr>) \<le> length src" using g1(2) assms(1) by simp
    note s = string_loop_sound [OF this r2]
    show ?thesis
    proof (cases ok2)
      case True
      then obtain bs where bs: "grew r1 r2 [] bs" using s by auto
      have g: "grew r r2 [\<lparr>jv_kind = JSON_STRING, jv_end = index + 1, jv_at = length (jt_bytes (rd_tree r)), jv_size = 0\<rparr>] bs"
        using grew_trans [OF g1(3) bs] by simp
      have f: "grew r (set_value index (\<lambda>v. v\<lparr>jv_at := length (jt_bytes (rd_tree r)), jv_size := length bs\<rparr>) r2)
          (flat (length (jt_values (rd_tree r))) (length (jt_bytes (rd_tree r))) (JLeaf JSON_STRING bs)) bs"
        using grew_set_value [OF g g1(1), of "\<lambda>v. v\<lparr>jv_at := length (jt_bytes (rd_tree r)), jv_size := length bs\<rparr>"]
          g1(1) by simp
      have b1: "length (jt_bytes (rd_tree r1)) = length (jt_bytes (rd_tree r))"
        and b2: "length (jt_bytes (rd_tree r2)) - length (jt_bytes (rd_tree r)) = length bs"
        using g1(3) g by (simp_all add: grew_def)
      show ?thesis
        using assms(2) p Some r2 True s g1(1,2) b1 b2 f
        by (auto simp: read_string_def Let_def moved_def)
    next
      case False
      then show ?thesis using assms(2) p Some r2 s g1(2) failed_trans [OF g1(3)]
        by (auto simp: read_string_def Let_def moved_def)
    qed
  qed
qed

lemma decimals_sound:
  assumes "rd_at r \<le> length src" and "decimals src r = (ok, r')"
  shows "moved src r r' \<and> (if ok then grew r r' [] [] \<and> digits_ok (slice src (rd_at r) (rd_at r')) else failed r r')"
proof -
  let ?at = "skip_while digit_byte src (rd_at r)"
  have at: "rd_at r \<le> ?at" "?at \<le> length src" using assms by (simp_all add: skip_while_ge skip_while_le)
  show ?thesis
  proof (cases "?at > rd_at r")
    case True
    then have "slice src (rd_at r) ?at \<noteq> []" using length_slice [OF at(2), of "rd_at r"] by auto
    then show ?thesis using assms(2) at True
      by (auto simp: decimals_def Let_def digits_ok_def moved_def dest: set_slice_skip_while)
  next
    case False
    then show ?thesis using assms(2) at by (auto simp: decimals_def Let_def moved_def jfail_def failed_def split: if_splits)
  qed
qed

text \<open>The three parts of a number spell the three parts of the grammar.\<close>

lemma at_byte_slice: "at_byte src r bs \<Longrightarrow> \<exists>b \<in> set bs. slice src (rd_at r) (rd_at r + 1) = [b] \<and> rd_at r + 1 \<le> length src"
  by (auto simp: at_byte_def slice_one)

lemma slice_Cons: "slice src a (Suc a) = [x] \<Longrightarrow> Suc a \<le> b \<Longrightarrow> slice src a b = x # slice src (Suc a) b"
  using slice_append [of a "Suc a" b src] by simp

lemma read_fraction_sound:
  assumes "rd_at r \<le> length src" and "read_fraction src r = (ok, r')"
  shows "moved src r r' \<and> (if ok then grew r r' [] [] \<and>
      frac_ok (slice src (rd_at r) (rd_at r')) else failed r r')"
proof (cases "at_byte src r [0x2E]")
  case True
  then have s: "slice src (rd_at r) (Suc (rd_at r)) = [0x2E]" "rd_at (advance r) \<le> length src"
    using at_byte_slice [OF True] by auto
  show ?thesis
    using decimals_sound [OF s(2), of ok r'] assms(2) True slice_Cons [OF s(1), of "rd_at r'"]
    by (auto simp: read_fraction_def moved_def Let_def frac_ok_def)
qed (use assms in \<open>auto simp: read_fraction_def moved_def frac_ok_def\<close>)

lemma read_exponent_sound:
  assumes "rd_at r \<le> length src" and "read_exponent src r = (ok, r')"
  shows "moved src r r' \<and> (if ok then grew r r' [] [] \<and>
      expo_ok (slice src (rd_at r) (rd_at r')) else failed r r')"
proof (cases "at_byte src r [0x65, 0x45]")
  case True
  then obtain e where e: "e \<in> {0x65, 0x45}" "slice src (rd_at r) (Suc (rd_at r)) = [e]" "rd_at (advance r) \<le> length src"
    using at_byte_slice [OF True] by auto
  let ?r1 = "advance r"
  define r2 where "r2 = (if at_byte src ?r1 [0x2B, 0x2D] then advance ?r1 else ?r1)"
  have d: "decimals src r2 = (ok, r')" using assms(2) True by (simp add: read_exponent_def r2_def Let_def)
  have sg: "slice src (rd_at ?r1) (rd_at r2) \<in> {[], [0x2B], [0x2D]}" "rd_at ?r1 \<le> rd_at r2" "rd_at r2 \<le> length src"
    and g: "grew r r2 [] []"
    using at_byte_slice [of src ?r1 "[0x2B, 0x2D]"] e(3) by (auto simp: r2_def)
  have s: "slice src (rd_at r) (rd_at r') = e # slice src (rd_at ?r1) (rd_at r2) @ slice src (rd_at r2) (rd_at r')"
    if "rd_at r2 \<le> rd_at r'"
    using slice_Cons [OF e(2), of "rd_at r'"] slice_append [OF sg(2) that, of src] sg(2) that by simp
  have m: "moved src r r'" "if ok then grew r2 r' [] [] \<and> digits_ok (slice src (rd_at r2) (rd_at r')) else failed r2 r'"
    "rd_at r2 \<le> rd_at r'"
    using decimals_sound [OF sg(3) d] sg(2) by (auto simp: moved_def)
  show ?thesis
  proof (cases ok)
    case True
    then show ?thesis using m(1,2) grew_trans [OF g, of r'] sg(1) e(1) s [OF m(3)] by (auto simp: expo_ok_def)
  next
    case False
    then show ?thesis using m(1,2) failed_trans [OF g] by simp
  qed
qed (use assms in \<open>auto simp: read_exponent_def moved_def expo_ok_def\<close>)

lemma read_integer_part_sound:
  assumes "rd_at r < length src" and "read_integer_part src r = (ok, r')"
  shows "moved src r r' \<and> (if ok then grew r r' [] [] \<and> rd_at r < rd_at r' \<and>
      int_ok (slice src (rd_at r) (rd_at r')) else failed r r')"
proof -
  define r1 where "r1 = (if src ! rd_at r = 0x2D then advance r else r)"
  have one: "slice src (rd_at r) (Suc (rd_at r)) = [src ! rd_at r]" using assms(1) by (rule slice_one)
  have r1: "slice src (rd_at r) (rd_at r1) \<in> {[], [0x2D]}" "rd_at r \<le> rd_at r1" "rd_at r1 \<le> length src"
    "grew r r1 [] []"
    using one assms(1) by (auto simp: r1_def)
  show ?thesis
  proof (cases "at_byte src r1 [0x30]")
    case True
    then have z: "slice src (rd_at r1) (Suc (rd_at r1)) = [0x30]" "Suc (rd_at r1) \<le> length src"
      using at_byte_slice [OF True] by auto
    have "r' = advance r1" "ok" using assms(2) True by (simp_all add: read_integer_part_def r1_def Let_def)
    moreover have "slice src (rd_at r) (Suc (rd_at r1)) = slice src (rd_at r) (rd_at r1) @ [0x30]"
      using slice_append [of "rd_at r" "rd_at r1" "Suc (rd_at r1)" src] z r1 by simp
    ultimately show ?thesis using r1 z unfolding int_ok_def by (auto simp: moved_def)
  next
    case False
    then have d: "decimals src r1 = (ok, r')" using assms(2) by (simp add: read_integer_part_def r1_def Let_def)
    note s = decimals_sound [OF r1(3) d]
    show ?thesis
    proof (cases ok)
      case True
      let ?ds = "slice src (rd_at r1) (rd_at r')"
      have ds: "digits_ok ?ds" "rd_at r1 \<le> rd_at r'" "rd_at r' \<le> length src" "grew r1 r' [] []"
        using s True by (simp_all add: moved_def)
      then have lt: "rd_at r1 < rd_at r'"
        by (metis digits_ok_def le_neq_implies_less slice_same)
      have "?ds = src ! rd_at r1 # slice src (Suc (rd_at r1)) (rd_at r')"
        using slice_Cons [OF slice_one, of "rd_at r1" src "rd_at r'"] lt ds(3) by simp
      moreover have "src ! rd_at r1 \<noteq> 0x30" using False lt ds(3) by (simp add: at_byte_def)
      ultimately have "hd ?ds \<noteq> 0x30" by (metis list.sel(1))
      moreover have "slice src (rd_at r) (rd_at r') = slice src (rd_at r) (rd_at r1) @ ?ds"
        using slice_append [of "rd_at r" "rd_at r1" "rd_at r'" src] r1(2) ds(2) by simp
      ultimately have "int_ok (slice src (rd_at r) (rd_at r'))"
        unfolding int_ok_def using r1(1) ds(1) by blast
      then show ?thesis using r1 ds lt True grew_trans [OF r1(4) ds(4)] by (simp add: moved_def)
    next
      case False
      then show ?thesis using s r1 failed_trans [OF r1(4)] by (simp add: moved_def)
    qed
  qed
qed

lemma read_number_sound:
  assumes "rd_at r < length src" and "read_number grant src r = (ok, r')"
  shows "moved src r r' \<and> (if ok then rd_at r < rd_at r' \<and>
      (\<exists>bs. number_ok bs \<and>
        grew r r' (flat (length (jt_values (rd_tree r))) (length (jt_bytes (rd_tree r))) (JLeaf JSON_NUMBER bs)) bs)
    else failed r r')"
proof -
  obtain ok1 r1 where r1: "read_integer_part src r = (ok1, r1)" by fastforce
  note s1 = read_integer_part_sound [OF assms(1) r1]
  then have at1: "rd_at r1 \<le> length src" by (simp add: moved_def)
  obtain ok2 r2 where r2: "read_fraction src r1 = (ok2, r2)" by fastforce
  note s2 = read_fraction_sound [OF at1 r2]
  then have at2: "rd_at r2 \<le> length src" by (simp add: moved_def)
  obtain ok3 r3 where r3: "read_exponent src r2 = (ok3, r3)" by fastforce
  note s3 = read_exponent_sound [OF at2 r3]
  note run = assms(2) r1 r2 r3
  have m: "moved src r r1" "moved src r1 r2" "moved src r2 r3" using s1 s2 s3 by simp_all
  consider "\<not> ok1" | "ok1" "\<not> ok2" | "ok1" "ok2" "\<not> ok3" | "ok1" "ok2" "ok3" by blast
  then show ?thesis
  proof cases
    case 1
    then show ?thesis using run s1 by (simp add: read_number_def Let_def)
  next
    case 2
    then have "failed r r2" using s1 s2 failed_trans by auto
    then show ?thesis using run 2 moved_trans [OF m(1,2)] by (simp add: read_number_def Let_def)
  next
    case 3
    then have "grew r r2 [] []" using s1 s2 grew_trans [of r r1 "[]" "[]" r2 "[]" "[]"] by simp
    then have "failed r r3" using s3 3 failed_trans by auto
    then show ?thesis using run 3 moved_trans [OF moved_trans [OF m(1,2)] m(3)]
      by (simp add: read_number_def Let_def)
  next
    case 4
    let ?bs = "slice src (rd_at r) (rd_at r3)"
    have "grew r r1 [] []" "grew r1 r2 [] []" "grew r2 r3 [] []" using s1 s2 s3 4 by simp_all
    then have g3: "grew r r3 [] []" by (simp add: grew_def)
    have m3: "moved src r r3" "rd_at r < rd_at r3" using m s1 4(1) by (auto simp: moved_def)
    have "?bs = slice src (rd_at r) (rd_at r1) @ slice src (rd_at r1) (rd_at r2) @ slice src (rd_at r2) (rd_at r3)"
      using m by (simp add: moved_def slice_append)
    then have ok: "number_ok ?bs"
      unfolding number_ok_def using s1 s2 s3 4 by auto
    obtain i r4 where p: "push grant r3 JSON_NUMBER = (i, r4)" by fastforce
    show ?thesis
    proof (cases i)
      case None
      then show ?thesis using run 4 p push_None [OF p [unfolded None]] m3 failed_trans [OF g3]
        by (auto simp: read_number_def Let_def moved_def)
    next
      case (Some index)
      note g4 = push_Some [OF p [unfolded Some]]
      have g: "grew r r4 [\<lparr>jv_kind = JSON_NUMBER, jv_end = index + 1, jv_at = length (jt_bytes (rd_tree r)), jv_size = 0\<rparr>] []"
        and n: "index = length (jt_values (rd_tree r))"
        using grew_trans [OF g3 g4(3)] g4(1) g3 by (simp_all add: grew_def)
      obtain ok5 r5 where r5: "put grant r4 ?bs = (ok5, r5)" by fastforce
      have b: "?bs = take (rd_at r3 - rd_at r) (drop (rd_at r) src)" by (simp add: slice_def)
      show ?thesis
      proof (cases ok5)
        case True
        then have g5: "grew r4 r5 [] ?bs" "rd_at r5 = rd_at r3" using put_True r5 g4(2) by fastforce+
        have len: "length ?bs = rd_at r3 - rd_at r" using m3 by (simp add: moved_def length_slice)
        have gg: "grew r r5 [\<lparr>jv_kind = JSON_NUMBER, jv_end = index + 1, jv_at = length (jt_bytes (rd_tree r)), jv_size = 0\<rparr>] ?bs"
          using grew_trans [OF g g5(1)] by simp
        have "grew r (set_value index (\<lambda>v. v\<lparr>jv_size := rd_at r3 - rd_at r\<rparr>) r5)
            (flat (length (jt_values (rd_tree r))) (length (jt_bytes (rd_tree r))) (JLeaf JSON_NUMBER ?bs)) ?bs"
          using grew_set_value [OF gg n, of "\<lambda>v. v\<lparr>jv_size := rd_at r3 - rd_at r\<rparr>"] len n by simp
        then show ?thesis using run 4 p Some r5 True g5(2) m3 ok g4(2) b
          by (auto simp: read_number_def Let_def moved_def)
      next
        case False
        then show ?thesis using run 4 p Some r5 put_False [of grant r4 ?bs r5] m3 failed_trans [OF g] g4(2) b
          by (auto simp: read_number_def Let_def moved_def)
      qed
    qed
  qed
qed

lemma read_word_sound:
  assumes "rd_at r \<le> length src" and "word \<noteq> []" and "leaf_ok kind []" and "read_word grant src word kind r = (ok, r')"
  shows "moved src r r' \<and> (if ok then rd_at r < rd_at r' \<and>
      grew r r' (flat (length (jt_values (rd_tree r))) (length (jt_bytes (rd_tree r))) (JLeaf kind [])) []
    else failed r r')"
proof (cases "length src - rd_at r < length word \<or> take (length word) (drop (rd_at r) src) \<noteq> word")
  case True
  then show ?thesis using assms(1,4)
    by (auto simp: read_word_def literal_def moved_def jfail_def failed_def Let_def split: if_splits)
next
  case False
  let ?r1 = "r\<lparr>rd_at := rd_at r + length word\<rparr>"
  obtain i r2 where p: "push grant ?r1 kind = (i, r2)" by fastforce
  show ?thesis
  proof (cases i)
    case None
    then show ?thesis using False assms push_None [OF p [unfolded None]] p
      by (auto simp: read_word_def literal_def moved_def Let_def)
  next
    case (Some index)
    then show ?thesis using False assms push_Some [OF p [unfolded Some]] p
      by (auto simp: read_word_def literal_def moved_def Let_def)
  qed
qed

lemma skip_space_at: "rd_at r \<le> length src \<Longrightarrow>
    rd_at r \<le> rd_at (skip_space src r) \<and> rd_at (skip_space src r) \<le> length src"
  using skip_space_moved [of r src] by (simp add: moved_def)

lemma jfail_malformed: "rd_at r \<le> length src \<Longrightarrow> moved src r (snd (jfail r JSON_READ_MALFORMED))"
  by (simp add: moved_def)

lemma read_key_sound:
  assumes "rd_at r \<le> length src" and "read_key grant src r = (ok, r')"
  shows "moved src r r' \<and> (if ok then rd_at r < rd_at r' \<and>
      (\<exists>bs. grew r r' (flat (length (jt_values (rd_tree r))) (length (jt_bytes (rd_tree r))) (JLeaf JSON_STRING bs)) bs)
    else failed r r')"
proof -
  let ?r1 = "skip_space src r"
  have at1: "rd_at r \<le> rd_at ?r1" "rd_at ?r1 \<le> length src" using skip_space_at [OF assms(1)] by simp_all
  show ?thesis
  proof (cases "at_byte src ?r1 [0x22]")
    case False
    then show ?thesis using assms(2) at1 by (auto simp: read_key_def Let_def moved_def dest: jfail_eq)
  next
    case True
    then have lt: "rd_at ?r1 < length src" by (simp add: at_byte_def)
    obtain ok2 r2 where r2: "read_string grant src ?r1 = (ok2, r2)" by fastforce
    note s2 = read_string_sound [OF lt r2, simplified]
    show ?thesis
    proof (cases ok2)
      case False
      then show ?thesis using assms(2) True r2 s2 at1 by (auto simp: read_key_def Let_def moved_def)
    next
      case ok2: True
      then obtain bs where bs: "grew r r2 (flat (length (jt_values (rd_tree r))) (length (jt_bytes (rd_tree r))) (JLeaf JSON_STRING bs)) bs"
        "rd_at ?r1 < rd_at r2" "rd_at r2 \<le> length src"
        using s2 by (auto simp: moved_def)
      note at3 = skip_space_at [OF bs(3)]
      have f: "failed r (snd (jfail (skip_space src r2) JSON_READ_MALFORMED))"
        using failed_trans [OF bs(1), of "snd (jfail (skip_space src r2) JSON_READ_MALFORMED)"]
          jfail_failed(2) [of JSON_READ_MALFORMED "skip_space src r2"] by simp
      show ?thesis
      proof (cases "at_byte src (skip_space src r2) [0x3A]")
        case colon: False
        then have "ok = False" "r' = snd (jfail (skip_space src r2) JSON_READ_MALFORMED)"
          using assms(2) True r2 ok2 by (auto simp: read_key_def Let_def jfail_def)
        then show ?thesis using f at1 bs at3 by (simp add: moved_def)
      next
        case colon: True
        then have "rd_at (skip_space src r2) < length src" by (simp add: at_byte_def)
        moreover have "ok = True" "r' = advance (skip_space src r2)"
          using assms(2) True r2 ok2 colon by (auto simp: read_key_def Let_def)
        ultimately show ?thesis using bs at1 at3 by (auto simp: moved_def)
      qed
    qed
  qed
qed

subsection \<open>Soundness of a value\<close>

text \<open>The loop of a container appended the values and then set the container's end.\<close>

definition closes :: "reader \<Rightarrow> reader \<Rightarrow> nat \<Rightarrow> json_value list \<Rightarrow> byte list \<Rightarrow> bool" where
  "closes r r' index vs bs \<longleftrightarrow>
     jt_values (rd_tree r') = (jt_values (rd_tree r))[index :=
       (jt_values (rd_tree r) ! index)\<lparr>jv_end := length (jt_values (rd_tree r)) + length vs\<rparr>] @ vs \<and>
     jt_bytes (rd_tree r') = jt_bytes (rd_tree r) @ bs \<and> rd_status r' = rd_status r"

lemma closes_step:
  assumes "grew r r1 vs bs" and "closes r1 r' index ws cs" and "index < length (jt_values (rd_tree r))"
  shows "closes r r' index (vs @ ws) (bs @ cs)"
  using assms by (simp add: grew_def closes_def nth_append list_update_append add.assoc)

lemma closes_end:
  assumes "grew r r1 vs bs" and "index < length (jt_values (rd_tree r))"
  shows "closes r (set_end index r1) index vs bs"
  using assms by (simp add: grew_def closes_def set_end_def nth_append list_update_append)

lemma closes_grew:
  assumes "grew r r1 [v] []" and "closes r1 r' index vs bs" and "index = length (jt_values (rd_tree r))"
  shows "grew r r' (v\<lparr>jv_end := index + 1 + length vs\<rparr> # vs) bs"
  using assms by (simp add: grew_def closes_def nth_append list_update_append)

lemma closes_simps [simp]:
  "closes (skip_space src r) r' index vs bs = closes r r' index vs bs"
  "closes (advance r) r' index vs bs = closes r r' index vs bs"
  by (simp_all add: closes_def)

abbreviation val_count :: "reader \<Rightarrow> nat" where
  "val_count r \<equiv> length (jt_values (rd_tree r))"

abbreviation byte_count :: "reader \<Rightarrow> nat" where
  "byte_count r \<equiv> length (jt_bytes (rd_tree r))"

text \<open>What a value read at depth \<open>d\<close> leaves.\<close>

definition value_read :: "byte list \<Rightarrow> nat \<Rightarrow> reader \<Rightarrow> bool \<times> reader \<Rightarrow> bool" where
  "value_read src d r res \<longleftrightarrow>
     moved src r (snd res) \<and>
     (if fst res then rd_at r < rd_at (snd res) \<and>
        (\<exists>j. json_ok j \<and> d + json_depth j \<le> JSON_DEPTH \<and>
             grew r (snd res) (flat (val_count r) (byte_count r) j) (jbytes j))
      else failed r (snd res))"

definition members_read :: "byte list \<Rightarrow> nat \<Rightarrow> json_kind \<Rightarrow> nat \<Rightarrow> reader \<Rightarrow> bool \<times> reader \<Rightarrow> bool" where
  "members_read src d kind index r res \<longleftrightarrow>
     moved src r (snd res) \<and>
     (if fst res then rd_at r < rd_at (snd res) \<and>
        (\<exists>js. jsons_ok js \<and> (kind = JSON_OBJECT \<longrightarrow> keyed js) \<and> d + 1 + json_depths js \<le> JSON_DEPTH \<and>
              closes r (snd res) index (flats (val_count r) (byte_count r) js) (jbytess js))
      else failed r (snd res))"

lemma value_read_leaf:
  assumes "moved src r r'" and "if ok then rd_at r < rd_at r' \<and> (\<exists>bs. leaf_ok kind bs \<and>
      grew r r' (flat (val_count r) (byte_count r) (JLeaf kind bs)) bs) else failed r r'"
    and "d \<le> JSON_DEPTH"
  shows "value_read src d r (ok, r')"
proof (cases ok)
  case True
  then obtain bs where bs: "leaf_ok kind bs" "grew r r' (flat (val_count r) (byte_count r) (JLeaf kind bs)) bs"
    "rd_at r < rd_at r'" using assms(2) by auto
  then show ?thesis using assms(1,3) True unfolding value_read_def
    by (auto intro!: exI [of _ "JLeaf kind bs"])
qed (use assms in \<open>simp add: value_read_def\<close>)

lemma value_read_skip:
  assumes "value_read src d (skip_space src r) res" and "rd_at r \<le> length src"
  shows "value_read src d r res"
  using assms skip_space_at [OF assms(2)] by (auto simp: value_read_def moved_def)

lemma members_fail:
  "moved src r r' \<Longrightarrow> failed r r' \<Longrightarrow> members_read src d kind index r (False, r')"
  by (simp add: members_read_def)

lemma jfail_pair: "jfail r st = (False, snd (jfail r st))"
  by (simp add: jfail_def)

lemma members_malformed:
  assumes "moved src r r1" and "grew r r1 vs bs"
  shows "members_read src d kind index r (jfail r1 JSON_READ_MALFORMED)"
proof -
  have "failed r (snd (jfail r1 JSON_READ_MALFORMED))" by (rule failed_trans [OF assms(2)]) simp
  then show ?thesis using assms(1) by (subst jfail_pair) (simp add: members_fail moved_def)
qed

lemma value_malformed:
  assumes "moved src r r1" and "grew r r1 vs bs"
  shows "value_read src d r (jfail r1 JSON_READ_MALFORMED)"
proof -
  have "failed r (snd (jfail r1 JSON_READ_MALFORMED))" by (rule failed_trans [OF assms(2)]) simp
  then show ?thesis using assms(1) by (subst jfail_pair) (simp add: value_read_def moved_def)
qed

text \<open>One turn of a container's loop, up to the value's end: the members it appends.\<close>

lemma member_read:
  assumes "rd_at r \<le> length src" and "kind = JSON_ARRAY \<or> kind = JSON_OBJECT"
    and "(if kind = JSON_OBJECT then read_key grant src r else (True, r)) = (ok, r1)"
  shows "moved src r r1 \<and> (if ok then \<exists>ks. jsons_ok ks \<and> json_depths ks = 0 \<and>
      (\<forall>js j. kind = JSON_OBJECT \<and> keyed js \<longrightarrow> keyed (ks @ j # js)) \<and>
      grew r r1 (flats (val_count r) (byte_count r) ks) (jbytess ks) else failed r r1)"
proof (cases "kind = JSON_OBJECT")
  case True
  then have s: "moved src r r1 \<and> (if ok then rd_at r < rd_at r1 \<and>
      (\<exists>bs. grew r r1 (flat (val_count r) (byte_count r) (JLeaf JSON_STRING bs)) bs) else failed r r1)"
    using assms(3) True by (intro read_key_sound [OF assms(1), of grant]) simp
  show ?thesis
  proof (cases ok)
    case ok: True
    then obtain bs where "grew r r1 (flat (val_count r) (byte_count r) (JLeaf JSON_STRING bs)) bs" using s by auto
    then show ?thesis using s ok by (intro conjI) (auto intro!: exI [of _ "[JLeaf JSON_STRING bs]"])
  qed (use s in simp)
next
  case False
  then show ?thesis using assms by (auto simp: moved_def intro!: exI [of _ "[]"])
qed

lemma members_step:
  assumes val: "\<And>r res. rd_at r \<le> length src \<Longrightarrow> read_value fuel grant src (d + 1) r = Some res \<Longrightarrow>
      value_read src (d + 1) r res"
    and mem: "\<And>r res. rd_at r \<le> length src \<Longrightarrow> index < val_count r \<Longrightarrow>
      read_members fuel grant src d kind index r = Some res \<Longrightarrow> members_read src d kind index r res"
    and at: "rd_at r \<le> length src" and index: "index < val_count r"
    and kind: "kind = JSON_ARRAY \<or> kind = JSON_OBJECT" and depth: "d < JSON_DEPTH"
    and run: "read_members (Suc fuel) grant src d kind index r = Some res"
  shows "members_read src d kind index r res"
proof -
  obtain ok1 r1 where r1: "(if kind = JSON_OBJECT then read_key grant src r else (True, r)) = (ok1, r1)" by fastforce
  note s1 = member_read [OF at kind r1]
  show ?thesis
  proof (cases ok1)
    case False
    then have "res = (False, r1)" using run r1 by simp
    then show ?thesis using s1 False by (simp add: members_fail)
  next
    case True
    then obtain ks where ks: "jsons_ok ks" "json_depths ks = 0" "\<And>js j. kind = JSON_OBJECT \<Longrightarrow> keyed js \<Longrightarrow> keyed (ks @ j # js)"
      "grew r r1 (flats (val_count r) (byte_count r) ks) (jbytess ks)" using s1 by auto
    have m1: "rd_at r \<le> rd_at r1" "rd_at r1 \<le> length src" using s1 by (simp_all add: moved_def)
    have n1: "val_count r1 = val_count r + nodess ks" "byte_count r1 = byte_count r + length (jbytess ks)"
      using ks(4) by (simp_all add: grew_def length_flats)
    obtain v where v: "read_value fuel grant src (d + 1) r1 = Some v"
      using run r1 True by (auto split: option.splits)
    obtain ok2 r2 where r2: "v = (ok2, r2)" by fastforce
    note s2 = val [OF m1(2) v, unfolded r2 value_read_def, simplified]
    show ?thesis
    proof (cases ok2)
      case False
      then have "res = (False, r2)" using run r1 True v r2 by simp
      then show ?thesis using s2 False failed_trans [OF ks(4)] m1 by (simp add: members_fail moved_def)
    next
      case ok2: True
      then obtain j where j: "json_ok j" "d + 1 + json_depth j \<le> JSON_DEPTH"
        "grew r1 r2 (flat (val_count r1) (byte_count r1) j) (jbytes j)" "rd_at r1 < rd_at r2" "rd_at r2 \<le> length src"
        using s2 by (auto simp: moved_def)
      let ?js = "ks @ [j]"
      have g2: "grew r r2 (flats (val_count r) (byte_count r) ?js) (jbytess ?js)"
        using grew_trans [OF ks(4) j(3)] n1 by (simp add: flats_append)
      have js: "jsons_ok ?js" "d + 1 + json_depths ?js \<le> JSON_DEPTH" "\<And>js. kind = JSON_OBJECT \<Longrightarrow> keyed js \<Longrightarrow> keyed (?js @ js)"
        using ks j depth by auto
      define r3 where "r3 = skip_space src r2"
      have m3: "rd_at r < rd_at r3" "rd_at r3 \<le> length src" using skip_space_at [OF j(5)] j m1 by (simp_all add: r3_def)
      have g3: "grew r r3 (flats (val_count r) (byte_count r) ?js) (jbytess ?js)" using g2 by (simp add: r3_def)
      have n3: "val_count r3 = val_count r + nodess ?js" "byte_count r3 = byte_count r + length (jbytess ?js)"
        using g3 unfolding grew_def by (simp_all add: length_flats)
      have rest: "(if rd_at r3 = length src then Some (jfail r3 JSON_READ_MALFORMED)
          else if src ! rd_at r3 = close_of kind then Some (True, set_end index (advance r3))
          else if src ! rd_at r3 \<noteq> 0x2C then Some (jfail r3 JSON_READ_MALFORMED)
          else read_members fuel grant src d kind index (advance r3)) = Some res"
        using run r1 True v r2 ok2 unfolding r3_def by (simp add: Let_def split del: if_split)
      have bad: "members_read src d kind index r (jfail r3 JSON_READ_MALFORMED)"
        using m3 by (intro members_malformed [OF _ g3]) (simp add: moved_def)
      have adv: "rd_at (advance r3) \<le> length src" if "rd_at r3 \<noteq> length src" using m3(2) that by simp
      have "res = jfail r3 JSON_READ_MALFORMED \<or>
          rd_at r3 \<noteq> length src \<and> res = (True, set_end index (advance r3)) \<or>
          rd_at r3 \<noteq> length src \<and> read_members fuel grant src d kind index (advance r3) = Some res"
        using rest by (metis option.inject)
      then consider "res = jfail r3 JSON_READ_MALFORMED"
        | "rd_at r3 \<noteq> length src" "res = (True, set_end index (advance r3))"
        | "rd_at r3 \<noteq> length src" "read_members fuel grant src d kind index (advance r3) = Some res"
        by blast
      then show ?thesis
      proof cases
        case 1
        then show ?thesis using bad by simp
      next
        case 2
        have "closes r (set_end index (advance r3)) index (flats (val_count r) (byte_count r) ?js) (jbytess ?js)"
          using closes_end [of r "advance r3"] g3 index by simp
        then show ?thesis using 2 m3 js js(3) [of "[]"] adv unfolding members_read_def
          by (auto simp: moved_def set_end_def intro!: exI [of _ ?js])
      next
        case 3
        have "index < val_count (advance r3)" using index n3 by simp
        note s4 = mem [OF adv [OF 3(1)] this 3(2), unfolded members_read_def, simplified]
        show ?thesis
        proof (cases "fst res")
          case False
          then show ?thesis using s4 m3 failed_trans [OF g3] by (simp add: members_read_def moved_def)
        next
          case True
          then obtain js' where js': "jsons_ok js'" "kind = JSON_OBJECT \<Longrightarrow> keyed js'" "d + 1 + json_depths js' \<le> JSON_DEPTH"
            "closes r3 (snd res) index (flats (val_count r3) (byte_count r3) js') (jbytess js')"
            using s4 by auto
          have "closes r (snd res) index (flats (val_count r) (byte_count r) (?js @ js')) (jbytess (?js @ js'))"
            using closes_step [OF g3 js'(4) index] n3 by (simp add: flats_append add.assoc)
          then show ?thesis using s4 True m3 js js' unfolding members_read_def
            by (auto simp: moved_def intro!: exI [of _ "?js @ js'"])
        qed
      qed
    qed
  qed
qed

lemma container_step:
  assumes mem: "\<And>index r res. rd_at r \<le> length src \<Longrightarrow> index < val_count r \<Longrightarrow>
      read_members fuel grant src d kind index r = Some res \<Longrightarrow> d < JSON_DEPTH \<Longrightarrow> members_read src d kind index r res"
    and at: "rd_at r < length src" and kind: "kind = JSON_ARRAY \<or> kind = JSON_OBJECT"
    and run: "read_container (Suc fuel) grant src d kind r = Some res"
  shows "value_read src d r res"
proof (cases "d \<ge> JSON_DEPTH")
  case True
  then show ?thesis using run at value_malformed [of src r r "[]" "[]" d] by (simp add: moved_def)
next
  case depth: False
  obtain i r1 where p: "push grant r kind = (i, r1)" by fastforce
  show ?thesis
  proof (cases i)
    case None
    then show ?thesis using run depth p push_None [OF p [unfolded None]] at
      by (auto simp: value_read_def moved_def)
  next
    case (Some index)
    note g1 = push_Some [OF p [unfolded Some]]
    define r2 where "r2 = skip_space src (advance r1)"
    have m2: "rd_at r < rd_at r2" "rd_at r2 \<le> length src"
      using skip_space_at [of "advance r1" src] g1(2) at by (simp_all add: r2_def)
    have g2: "grew r r2 [\<lparr>jv_kind = kind, jv_end = index + 1, jv_at = byte_count r, jv_size = 0\<rparr>] []"
      using g1(3) by (simp add: r2_def)
    have n2: "val_count r2 = Suc index" "byte_count r2 = byte_count r" using g2 g1(1) by (simp_all add: grew_def)
    have rest: "(if at_byte src r2 [close_of kind] then Some (True, advance r2)
        else read_members fuel grant src d kind index r2) = Some res"
      using run depth p Some unfolding r2_def by (simp add: Let_def split del: if_split)
    show ?thesis
    proof (cases "at_byte src r2 [close_of kind]")
      case True
      then have "rd_at r2 < length src" by (simp add: at_byte_def)
      then show ?thesis using rest True m2 g2 g1(1) depth kind unfolding value_read_def
        by (auto simp: moved_def intro!: exI [of _ "JNode kind []"])
    next
      case False
      then have "members_read src d kind index r2 res"
        using rest mem [of r2 index res] m2 n2 depth by simp
      note s = this [unfolded members_read_def]
      show ?thesis
      proof (cases "fst res")
        case True
        then obtain js where js: "jsons_ok js" "kind = JSON_OBJECT \<Longrightarrow> keyed js" "d + 1 + json_depths js \<le> JSON_DEPTH"
          "closes r2 (snd res) index (flats (val_count r2) (byte_count r2) js) (jbytess js)"
          using s by auto
        have "grew r (snd res) (flat (val_count r) (byte_count r) (JNode kind js)) (jbytes (JNode kind js))"
          using closes_grew [OF g2 js(4) g1(1)] n2 g1(1) by (simp add: length_flats)
        then show ?thesis using s True js m2 kind unfolding value_read_def
          by (auto simp: moved_def intro!: exI [of _ "JNode kind js"])
      next
        case False
        then show ?thesis using s m2 failed_trans [OF g2] by (simp add: value_read_def moved_def)
      qed
    qed
  qed
qed

lemma value_step:
  assumes con: "\<And>kind r res. rd_at r < length src \<Longrightarrow> kind = JSON_ARRAY \<or> kind = JSON_OBJECT \<Longrightarrow>
      read_container fuel grant src d kind r = Some res \<Longrightarrow> value_read src d r res"
    and at: "rd_at r \<le> length src" and depth: "d \<le> JSON_DEPTH"
    and run: "read_value (Suc fuel) grant src d r = Some res"
  shows "value_read src d r res"
proof (rule value_read_skip [OF _ at])
  let ?r = "skip_space src r"
  let ?b = "src ! rd_at ?r"
  have at1: "rd_at ?r \<le> length src" using skip_space_at [OF at] by simp
  show "value_read src d ?r res"
  proof (cases "rd_at ?r = length src")
    case True
    then show ?thesis using run value_malformed [of src ?r ?r "[]" "[]" d] by (simp add: moved_def)
  next
    case False
    then have lt: "rd_at ?r < length src" using at1 by simp
    have word: "value_read src d ?r (read_word grant src w kind ?r)" if "w \<noteq> []" "leaf_ok kind []" for w kind
      using read_word_sound [OF at1 that, of grant] depth
      by (cases "read_word grant src w kind ?r") (auto intro!: value_read_leaf exI [of _ "[]"] that)
    have str: "value_read src d ?r (read_string grant src ?r)"
      using read_string_sound [OF lt, of grant] depth
      by (cases "read_string grant src ?r") (auto intro!: value_read_leaf [of _ _ _ _ JSON_STRING])
    have num: "value_read src d ?r (read_number grant src ?r)"
      using read_number_sound [OF lt, of grant] depth
      by (cases "read_number grant src ?r") (auto intro!: value_read_leaf [of _ _ _ _ JSON_NUMBER])
    have bad: "value_read src d ?r (jfail ?r JSON_READ_MALFORMED)"
      using at1 by (intro value_malformed [of _ _ _ "[]" "[]"]) (simp_all add: moved_def)
    consider "?b = 0x7B" | "?b = 0x5B" | "?b \<noteq> 0x7B" "?b \<noteq> 0x5B" by blast
    then show ?thesis
    proof cases
      case 1
      show ?thesis by (rule con [OF lt, of JSON_OBJECT]) (use run False 1 in \<open>simp_all add: Let_def\<close>)
    next
      case 2
      show ?thesis by (rule con [OF lt, of JSON_ARRAY]) (use run False 2 in \<open>simp_all add: Let_def\<close>)
    next
      case 3
      then have "res \<in> {read_string grant src ?r, read_word grant src (asc ''true'') JSON_TRUE ?r,
          read_word grant src (asc ''false'') JSON_FALSE ?r, read_word grant src (asc ''null'') JSON_NULL ?r,
          read_number grant src ?r, jfail ?r JSON_READ_MALFORMED}"
        using run False by (simp add: Let_def split: if_splits)
      then show ?thesis
        using str num bad word [of "asc ''true''" JSON_TRUE] word [of "asc ''false''" JSON_FALSE]
          word [of "asc ''null''" JSON_NULL] by auto
    qed
  qed
qed

lemma reader_sound:
  "rd_at r \<le> length src \<Longrightarrow> d \<le> JSON_DEPTH \<Longrightarrow> read_value fuel grant src d r = Some res \<Longrightarrow> value_read src d r res"
  "rd_at r < length src \<Longrightarrow> kind = JSON_ARRAY \<or> kind = JSON_OBJECT \<Longrightarrow>
     read_container fuel grant src d kind r = Some res \<Longrightarrow> value_read src d r res"
  "rd_at r \<le> length src \<Longrightarrow> index < val_count r \<Longrightarrow> kind = JSON_ARRAY \<or> kind = JSON_OBJECT \<Longrightarrow>
     read_members fuel grant src d kind index r = Some res \<Longrightarrow> d < JSON_DEPTH \<Longrightarrow> members_read src d kind index r res"
proof (induction fuel arbitrary: d kind index r res)
  case (Suc fuel)
  {
    case 1
    show ?case by (rule value_step [OF Suc(2) 1]) assumption+
  next
    case 2
    show ?case using 2 by (intro container_step [of src fuel grant d kind r res] Suc(3))
  next
    case 3
    show ?case using 3 by (intro members_step [of src fuel grant d index kind r res] Suc(1) Suc(3)) auto
  }
qed simp_all

subsection \<open>Every read returns\<close>

lemma read_key_moved:
  assumes "rd_at r \<le> length src"
  shows "rd_at r \<le> rd_at (snd (read_key grant src r)) \<and> rd_at (snd (read_key grant src r)) \<le> length src"
  using read_key_sound [OF assms, of grant] by (cases "read_key grant src r") (auto simp: moved_def)

lemma reader_total:
  "rd_at r \<le> length src \<Longrightarrow> d \<le> JSON_DEPTH \<Longrightarrow> 3 * (length src - rd_at r) + 2 \<le> fuel \<Longrightarrow>
     read_value fuel grant src d r \<noteq> None"
  "rd_at r < length src \<Longrightarrow> 3 * (length src - rd_at r) + 1 \<le> fuel \<Longrightarrow>
     read_container fuel grant src d kind r \<noteq> None"
  "rd_at r \<le> length src \<Longrightarrow> d < JSON_DEPTH \<Longrightarrow> 3 * (length src - rd_at r) + 3 \<le> fuel \<Longrightarrow>
     read_members fuel grant src d kind index r \<noteq> None"
proof (induction fuel arbitrary: d kind index r)
  case (Suc fuel)
  {
    case 1
    have at: "rd_at r \<le> rd_at (skip_space src r)" "rd_at (skip_space src r) \<le> length src"
      using skip_space_at [OF 1(1)] by simp_all
    then have "read_container fuel grant src d k (skip_space src r) \<noteq> None"
      if "rd_at (skip_space src r) \<noteq> length src" for k
      using that 1(3) by (intro Suc(2)) linarith+
    then show ?case by (simp add: Let_def)
  next
    case 2
    obtain i r1 where p: "push grant r kind = (i, r1)" by fastforce
    show ?case
    proof (cases i)
      case (Some index)
      let ?r = "skip_space src (advance r1)"
      have "rd_at r1 = rd_at r" using push_Some [OF p [unfolded Some]] by simp
      then have "rd_at r + 1 \<le> rd_at ?r" "rd_at ?r \<le> length src"
        using skip_space_at [of "advance r1" src] 2(1) by simp_all
      then have "read_members fuel grant src d kind index ?r \<noteq> None" if "d < JSON_DEPTH"
        using that 2 by (intro Suc(3)) linarith+
      then show ?thesis using p Some by (auto simp: Let_def)
    qed (use p in auto)
  next
    case 3
    define p where "p = (if kind = JSON_OBJECT then read_key grant src r else (True, r))"
    have p: "rd_at r \<le> rd_at (snd p)" "rd_at (snd p) \<le> length src"
      using read_key_moved [OF 3(1)] 3(1) by (simp_all add: p_def)
    have "read_value fuel grant src (d + 1) (snd p) \<noteq> None"
      using 3 p by (intro Suc(1)) linarith+
    then obtain ok r1 where v: "read_value fuel grant src (d + 1) (snd p) = Some (ok, r1)" by fastforce
    note s = reader_sound(1) [OF p(2) _ v]
    have "rd_at (snd p) \<le> rd_at r1" "rd_at r1 \<le> length src" "ok \<Longrightarrow> rd_at (snd p) < rd_at r1"
      using s 3(2) by (auto simp: value_read_def moved_def)
    then have "read_members fuel grant src d kind index (advance (skip_space src r1)) \<noteq> None"
      if "ok" "rd_at (skip_space src r1) \<noteq> length src"
      using that 3 p skip_space_at [of r1 src] by (intro Suc(3)) (simp_all, linarith+)
    then show ?case
      using v unfolding read_members.simps p_def [symmetric] by (auto simp: Let_def split_beta)
  }
qed simp_all

text \<open>The tree an accepted text leaves: one value's flat tree, nested at most 512 deep.\<close>

definition tree_of :: "json \<Rightarrow> json_tree \<Rightarrow> bool" where
  "tree_of j tree \<longleftrightarrow> jt_values tree = flat 0 0 j \<and> jt_bytes tree = jbytes j"

lemma reader_start_simps [simp]:
  "rd_at (reader_start tree) = 0" "rd_status (reader_start tree) = JSON_READ_OK"
  "jt_values (rd_tree (reader_start tree)) = []" "jt_bytes (rd_tree (reader_start tree)) = []"
  by (simp_all add: reader_start_def)

lemma json_read_returns: "json_read grant tree src \<noteq> None"
  using reader_total(1) [of "reader_start tree" src 0 "3 * length src + 2" grant]
  by (auto simp: json_read_def Let_def split: option.splits simp del: read_value.simps)

lemma json_read_sound:
  assumes "json_read grant tree src = Some (JSON_READ_OK, out)"
  shows "\<exists>j. json_ok j \<and> json_depth j \<le> JSON_DEPTH \<and> tree_of j out"
proof -
  obtain ok r where r: "read_value (3 * length src + 2) grant src 0 (reader_start tree) = Some (ok, r)"
    using assms by (auto simp: json_read_def split: option.splits simp del: read_value.simps)
  have v: "value_read src 0 (reader_start tree) (ok, r)"
    using reader_sound(1) [OF _ _ r] by simp
  have ok: ok
    using v assms r by (cases ok) (auto simp: json_read_def value_read_def failed_def simp del: read_value.simps)
  then obtain j where j: "json_ok j" "json_depth j \<le> JSON_DEPTH" "grew (reader_start tree) r (flat 0 0 j) (jbytes j)"
    using v by (auto simp: value_read_def)
  have "rd_tree r = out"
    using assms r ok by (simp add: json_read_def Let_def jfail_def split: if_splits del: read_value.simps)
  then have "tree_of j out" using j(3) by (simp add: tree_of_def grew_def)
  then show ?thesis using j by blast
qed

end
