(* ===== verification/JsonWrite.thy ===== *)
theory JsonWrite
  imports JsonRead
begin

text \<open>
  lsp/json.c's accessors and writer, and the round trip: what \<open>json_out_value\<close> writes of the
  tree of a value, \<open>json_read\<close> reads back as that value.

  A \<open>const json_value *\<close> into the tree's array is its index, NULL is \<open>None\<close>.  The walks over
  the tree take fuel where they recurse; \<open>json_out_value_flat\<close> shows that twice the number
  of the tree's values is enough.
\<close>

subsection \<open>The accessors\<close>

definition json_root :: "json_tree \<Rightarrow> nat" where
  "json_root tree = 0"

definition json_first :: "json_tree \<Rightarrow> nat \<Rightarrow> nat option" where
  "json_first tree i = (if jv_end (jt_values tree ! i) > i + 1 then Some (i + 1) else None)"

definition json_next :: "json_tree \<Rightarrow> nat \<Rightarrow> nat \<Rightarrow> nat option" where
  "json_next tree container i =
     (if jv_end (jt_values tree ! i) < jv_end (jt_values tree ! container)
      then Some (jv_end (jt_values tree ! i)) else None)"

text \<open>The \<open>size\<close> bytes at \<open>json_bytes\<close>, which is how every caller reads them.\<close>

definition json_bytes :: "json_tree \<Rightarrow> nat \<Rightarrow> byte list" where
  "json_bytes tree i =
     (let v = jt_values tree ! i in take (jv_size v) (drop (jv_at v) (jt_bytes tree)))"

definition json_is :: "json_tree \<Rightarrow> nat option \<Rightarrow> byte list \<Rightarrow> bool" where
  "json_is tree i str =
     (case i of
        None \<Rightarrow> False
      | Some i \<Rightarrow>
          jv_kind (jt_values tree ! i) = JSON_STRING \<and> jv_size (jt_values tree ! i) = length str \<and>
          (length str = 0 \<or> json_bytes tree i = str))"

partial_function (option) member_loop :: "json_tree \<Rightarrow> nat \<Rightarrow> byte list \<Rightarrow> nat option \<Rightarrow> nat option option"
where
  "member_loop tree object key name =
     (if name = None then Some None
      else if json_is tree name key then Some (Some (the name + 1))
      else member_loop tree object key (json_next tree object (the name + 1)))"

definition json_member :: "json_tree \<Rightarrow> nat option \<Rightarrow> byte list \<Rightarrow> nat option option" where
  "json_member tree object key =
     (case object of
        None \<Rightarrow> Some None
      | Some i \<Rightarrow>
          if jv_kind (jt_values tree ! i) \<noteq> JSON_OBJECT then Some None
          else member_loop tree i key (json_first tree i))"

text \<open>
  The digit loop of \<open>json_integer\<close>, accumulating negatively; \<open>tdiv\<close> is C's division, which
  truncates.
\<close>

definition INT64_MIN :: int where
  "INT64_MIN = - (2 ^ 63)"

definition tdiv :: "int \<Rightarrow> int \<Rightarrow> int" where
  "tdiv a b = (if a < 0 then - (- a div b) else a div b)"

fun integer_loop :: "int \<Rightarrow> byte list \<Rightarrow> int option" where
  "integer_loop acc [] = Some acc"
| "integer_loop acc (b # bs) =
     (if \<not> digit_byte b then None
      else
        let digit = int (unat b) - 0x30
        in if acc < tdiv (INT64_MIN + digit) 10 then None
           else integer_loop (acc * 10 - digit) bs)"

definition json_integer :: "json_tree \<Rightarrow> nat option \<Rightarrow> int \<Rightarrow> int \<Rightarrow> int option" where
  "json_integer tree i lo hi =
     (case i of
        None \<Rightarrow> None
      | Some i \<Rightarrow>
          if jv_kind (jt_values tree ! i) \<noteq> JSON_NUMBER then None
          else
            let bytes = json_bytes tree i; minus = (bytes ! 0 = 0x2D)
            in case integer_loop 0 (drop (if minus then 1 else 0) bytes) of
                 None \<Rightarrow> None
               | Some acc \<Rightarrow>
                   if \<not> minus \<and> acc = INT64_MIN then None
                   else
                     let n = (if \<not> minus then - acc else acc)
                     in if n < lo \<or> n > hi then None else Some n)"

subsection \<open>The writer\<close>

record json_out =
  jo_data :: "byte list"
  jo_capacity :: nat
  jo_failed :: bool

definition reserve_out :: "grants \<Rightarrow> json_out \<Rightarrow> nat \<Rightarrow> json_out" where
  "reserve_out grant out extra =
     (if jo_failed out then out
      else case widen grant (jo_capacity out) (length (jo_data out) + extra) 1 of
             None \<Rightarrow> out\<lparr>jo_failed := True\<rparr>
           | Some capacity \<Rightarrow> out\<lparr>jo_capacity := capacity\<rparr>)"

definition json_out_bytes :: "grants \<Rightarrow> json_out \<Rightarrow> byte list \<Rightarrow> json_out" where
  "json_out_bytes grant out bytes =
     (let out = reserve_out grant out (length bytes)
      in if jo_failed out then out else out\<lparr>jo_data := jo_data out @ bytes\<rparr>)"

definition json_out_raw :: "grants \<Rightarrow> json_out \<Rightarrow> string \<Rightarrow> json_out" where
  "json_out_raw grant out str = json_out_bytes grant out (asc str)"

definition HEX :: "byte list" where
  "HEX = asc ''0123456789abcdef''"

text \<open>The escape of a byte that is not written as it is.\<close>

definition json_escape :: "byte \<Rightarrow> byte list" where
  "json_escape b =
     (if b = 0x22 \<or> b = 0x5C then [0x5C, b]
      else if b = 0x0A then [0x5C, 0x6E]
      else if b = 0x0D then [0x5C, 0x72]
      else if b = 0x09 then [0x5C, 0x74]
      else if b = 0x08 then [0x5C, 0x62]
      else if b = 0x0C then [0x5C, 0x66]
      else [0x5C, 0x75, 0x30, 0x30, HEX ! drop_bit 4 (unat b), HEX ! (unat b AND 0xF)])"

function out_string_loop :: "grants \<Rightarrow> byte list \<Rightarrow> nat \<Rightarrow> nat \<Rightarrow> json_out \<Rightarrow> nat \<times> json_out" where
  "out_string_loop grant bytes run i out =
     (if i < length bytes then
        if string_plain (bytes ! i) then out_string_loop grant bytes run (i + 1) out
        else
          let out = json_out_bytes grant out (slice bytes run i);
              out = json_out_bytes grant out (json_escape (bytes ! i))
          in out_string_loop grant bytes (i + 1) (i + 1) out
      else (run, out))"
  by pat_completeness auto
termination
  by (relation "measure (\<lambda>(grant, bytes, run, i, out). length bytes - i)") auto

declare out_string_loop.simps [simp del]

definition json_out_string :: "grants \<Rightarrow> json_out \<Rightarrow> byte list \<Rightarrow> json_out" where
  "json_out_string grant out bytes =
     (let out = json_out_raw grant out [CHR 0x22];
          (run, out) = out_string_loop grant bytes 0 0 out;
          out = json_out_bytes grant out (drop run bytes)
      in json_out_raw grant out [CHR 0x22])"

definition json_out_text :: "grants \<Rightarrow> json_out \<Rightarrow> string \<Rightarrow> json_out" where
  "json_out_text grant out str = json_out_string grant out (asc str)"

text \<open>What \<open>%lld\<close> spells.\<close>

definition spell_int :: "int \<Rightarrow> byte list" where
  "spell_int n = (if n < 0 then 0x2D # decimal (nat (- n)) else decimal (nat n))"

definition json_out_integer :: "grants \<Rightarrow> json_out \<Rightarrow> int \<Rightarrow> json_out" where
  "json_out_integer grant out n = json_out_bytes grant out (spell_int n)"

fun json_out_value :: "nat \<Rightarrow> grants \<Rightarrow> json_tree \<Rightarrow> nat \<Rightarrow> json_out \<Rightarrow> json_out option"
  and out_members :: "nat \<Rightarrow> grants \<Rightarrow> json_tree \<Rightarrow> nat \<Rightarrow> bool \<Rightarrow> nat option \<Rightarrow> json_out \<Rightarrow> json_out option"
where
  "json_out_value 0 grant tree i out = None"
| "json_out_value (Suc fuel) grant tree i out =
     (case jv_kind (jt_values tree ! i) of
        JSON_NULL \<Rightarrow> Some (json_out_raw grant out ''null'')
      | JSON_FALSE \<Rightarrow> Some (json_out_raw grant out ''false'')
      | JSON_TRUE \<Rightarrow> Some (json_out_raw grant out ''true'')
      | JSON_NUMBER \<Rightarrow> Some (json_out_bytes grant out (json_bytes tree i))
      | JSON_STRING \<Rightarrow> Some (json_out_string grant out (json_bytes tree i))
      | JSON_ARRAY \<Rightarrow>
          map_option (\<lambda>out. json_out_raw grant out '']'')
            (out_members fuel grant tree i False (json_first tree i) (json_out_raw grant out ''[''))
      | JSON_OBJECT \<Rightarrow>
          map_option (\<lambda>out. json_out_raw grant out ''}'')
            (out_members fuel grant tree i True (json_first tree i) (json_out_raw grant out ''{'')))"
| "out_members 0 grant tree i object m out = None"
| "out_members (Suc fuel) grant tree i object m out =
     (case m of
        None \<Rightarrow> Some out
      | Some m \<Rightarrow>
          (let out = (if Some m \<noteq> json_first tree i then json_out_raw grant out '','' else out)
           in case json_out_value fuel grant tree m out of
                None \<Rightarrow> None
              | Some out \<Rightarrow>
                  (case (if object then json_out_value fuel grant tree (m + 1) (json_out_raw grant out '':'')
                         else Some out) of
                     None \<Rightarrow> None
                   | Some out \<Rightarrow>
                       out_members fuel grant tree i object
                         (json_next tree i (if object then m + 1 else m)) out)))"

subsection \<open>An output is a sink\<close>

definition json_out_wf :: "json_out \<Rightarrow> bool" where
  "json_out_wf out \<longleftrightarrow> length (jo_data out) \<le> jo_capacity out"

lemma widen_loop_ge: "widen_loop need width nxt = Some m \<Longrightarrow> need \<le> m"
proof (induction need width nxt rule: widen_loop.induct)
  case (1 need width nxt)
  then show ?case by (simp add: widen_loop.simps [of need width nxt] split: if_splits)
qed

lemma widen_ge: "widen grant capacity need width = Some m \<Longrightarrow> need \<le> m"
  by (auto simp: widen_def dest: widen_loop_ge split: if_splits option.splits)

interpretation jout: sink "json_out_bytes grant" jo_data jo_failed json_out_wf for grant
  by unfold_locales
    (auto simp: json_out_bytes_def reserve_out_def json_out_wf_def Let_def dest: widen_ge split: option.splits if_splits)

definition writes :: "grants \<Rightarrow> json_out \<Rightarrow> json_out \<Rightarrow> byte list \<Rightarrow> bool" where
  "writes grant out out' bs \<longleftrightarrow> (\<exists>ds. out' = foldl (json_out_bytes grant) out ds \<and> concat ds = bs)"

lemma writes_refl: "writes grant out out []"
  unfolding writes_def by (intro exI [of _ "[]"]) simp

lemma writes_bytes: "writes grant out (json_out_bytes grant out bs) bs"
  unfolding writes_def by (intro exI [of _ "[bs]"]) simp

lemma writes_raw: "writes grant out (json_out_raw grant out s) (asc s)"
  unfolding json_out_raw_def by (rule writes_bytes)

lemma writes_trans:
  assumes "writes grant out out1 as" and "writes grant out1 out2 bs"
  shows "writes grant out out2 (as @ bs)"
proof -
  obtain ds es where "out1 = foldl (json_out_bytes grant) out ds" "concat ds = as"
    "out2 = foldl (json_out_bytes grant) out1 es" "concat es = bs"
    using assms unfolding writes_def by blast
  then show ?thesis unfolding writes_def by (intro exI [of _ "ds @ es"]) simp
qed

lemma writes_content: "writes grant out out' bs \<Longrightarrow> \<not> jo_failed out' \<Longrightarrow> jo_data out' = jo_data out @ bs"
  using jout.puts_content by (auto simp: writes_def)

lemma writes_wf: "writes grant out out' bs \<Longrightarrow> json_out_wf out \<Longrightarrow> json_out_wf out'"
  using jout.puts_inv by (auto simp: writes_def)

subsection \<open>What a string and a value are written as\<close>

definition escape_all :: "byte list \<Rightarrow> byte list" where
  "escape_all bs = concat (map (\<lambda>b. if string_plain b then [b] else json_escape b) bs)"

definition print_string :: "byte list \<Rightarrow> byte list" where
  "print_string bs = 0x22 # escape_all bs @ [0x22]"

lemma escape_all_simps [simp]:
  "escape_all [] = []"
  "escape_all (b # bs) = (if string_plain b then b # escape_all bs else json_escape b @ escape_all bs)"
  by (simp_all add: escape_all_def)

lemma out_string_loop_writes:
  "run \<le> i \<Longrightarrow> i \<le> length bytes \<Longrightarrow>
   \<exists>run' out' ds. out_string_loop grant bytes run i out = (run', out') \<and> writes grant out out' ds \<and>
     ds @ drop run' bytes = slice bytes run i @ escape_all (drop i bytes)"
proof (induction grant bytes run i out rule: out_string_loop.induct)
  case (1 grant bytes run i out)
  consider "i = length bytes" | "i < length bytes" "string_plain (bytes ! i)"
    | "i < length bytes" "\<not> string_plain (bytes ! i)" using "1.prems"(2) by linarith
  then show ?case
  proof cases
    case 1
    then show ?thesis using "1.prems"(1)
      by (subst out_string_loop.simps) (auto simp: slice_all intro!: exI [of _ "[]"] writes_refl)
  next
    case 2
    have "drop i bytes = bytes ! i # drop (i + 1) bytes" "slice bytes run (i + 1) = slice bytes run i @ [bytes ! i]"
      using 2 slice_append [of run i "i + 1" bytes] "1.prems"(1) by (simp_all add: Cons_nth_drop_Suc slice_one)
    then show ?thesis using 2 "1.IH"(1) [OF 2] "1.prems"(1) by (subst out_string_loop.simps) simp
  next
    case 3
    let ?out = "json_out_bytes grant (json_out_bytes grant out (slice bytes run i)) (json_escape (bytes ! i))"
    obtain run' out' ds where ih: "out_string_loop grant bytes (i + 1) (i + 1) ?out = (run', out')"
      "writes grant ?out out' ds" "ds @ drop run' bytes = escape_all (drop (i + 1) bytes)"
      using "1.IH"(2) [OF 3 refl refl] 3(1) by auto
    have "drop i bytes = bytes ! i # drop (i + 1) bytes" using 3 by (simp add: Cons_nth_drop_Suc)
    moreover have "writes grant out out' ((slice bytes run i @ json_escape (bytes ! i)) @ ds)"
      by (rule writes_trans [OF writes_trans [OF writes_bytes writes_bytes] ih(2)])
    ultimately show ?thesis using 3 ih(1,3) by (subst out_string_loop.simps) fastforce
  qed
qed

lemma json_out_string_writes: "writes grant out (json_out_string grant out bytes) (print_string bytes)"
proof -
  let ?out = "json_out_raw grant out [CHR 0x22]"
  obtain run out' ds where l: "out_string_loop grant bytes 0 0 ?out = (run, out')" "writes grant ?out out' ds"
    "ds @ drop run bytes = escape_all bytes"
    using out_string_loop_writes [of 0 0 bytes grant ?out] by auto
  have "json_out_string grant out bytes = json_out_raw grant (json_out_bytes grant out' (drop run bytes)) [CHR 0x22]"
    using l(1) by (simp add: json_out_string_def Let_def)
  moreover have "writes grant out (json_out_raw grant (json_out_bytes grant out' (drop run bytes)) [CHR 0x22])
      (((asc [CHR 0x22] @ ds) @ drop run bytes) @ asc [CHR 0x22])"
    by (rule writes_trans [OF writes_trans [OF writes_trans [OF writes_raw l(2)] writes_bytes] writes_raw])
  moreover have "((asc [CHR 0x22] @ ds) @ drop run bytes) @ asc [CHR 0x22] = print_string bytes"
    using l(3) by (simp add: print_string_def)
  ultimately show ?thesis by simp
qed

fun print_leaf :: "json_kind \<Rightarrow> byte list \<Rightarrow> byte list" where
  "print_leaf JSON_NULL bs = asc ''null''"
| "print_leaf JSON_FALSE bs = asc ''false''"
| "print_leaf JSON_TRUE bs = asc ''true''"
| "print_leaf JSON_NUMBER bs = bs"
| "print_leaf JSON_STRING bs = print_string bs"
| "print_leaf _ bs = []"

fun print :: "json \<Rightarrow> byte list" and items :: "bool \<Rightarrow> bool \<Rightarrow> json list \<Rightarrow> byte list" where
  "print (JLeaf k bs) = print_leaf k bs"
| "print (JNode k js) =
     (if k = JSON_OBJECT then 0x7B # items False True js @ [0x7D] else 0x5B # items False False js @ [0x5D])"
| "items comma False (j # js) = (if comma then [0x2C] else []) @ print j @ items True False js"
| "items comma True (k # v # js) =
     (if comma then [0x2C] else []) @ print k @ [0x3A] @ print v @ items True True js"
| "items comma object _ = []"

subsection \<open>The tree of a value, and walking it\<close>

text \<open>From index \<open>i\<close> and offset \<open>b\<close> on, the tree holds the flat values of \<open>js\<close> and their bytes.\<close>

definition holds :: "json_tree \<Rightarrow> nat \<Rightarrow> nat \<Rightarrow> json list \<Rightarrow> bool" where
  "holds tree i b js \<longleftrightarrow>
     (\<exists>vs ws bs cs. jt_values tree = vs @ flats i b js @ ws \<and> i = length vs \<and>
        jt_bytes tree = bs @ jbytess js @ cs \<and> b = length bs)"

lemma holds_Cons:
  assumes "holds tree i b (j # js)"
  shows "holds tree i b [j]" and "holds tree (i + nodes j) (b + length (jbytes j)) js"
proof -
  obtain vs ws bs cs where h: "jt_values tree = vs @ (flat i b j @ flats (i + nodes j) (b + length (jbytes j)) js) @ ws"
    "i = length vs" "jt_bytes tree = bs @ (jbytes j @ jbytess js) @ cs" "b = length bs"
    using assms unfolding holds_def by auto
  show "holds tree i b [j]" unfolding holds_def
    by (rule exI [of _ vs], rule exI [of _ "flats (i + nodes j) (b + length (jbytes j)) js @ ws"],
        rule exI [of _ bs], rule exI [of _ "jbytess js @ cs"]) (use h in simp)
  show "holds tree (i + nodes j) (b + length (jbytes j)) js" unfolding holds_def
    by (rule exI [of _ "vs @ flat i b j"], rule exI [of _ ws], rule exI [of _ "bs @ jbytes j"], rule exI [of _ cs])
      (use h in \<open>simp add: length_flat\<close>)
qed

lemma holds_node: "holds tree i b [JNode k js] \<Longrightarrow> holds tree (i + 1) b js"
  unfolding holds_def
proof (elim exE conjE)
  fix vs ws bs cs
  assume "jt_values tree = vs @ flats i b [JNode k js] @ ws" "i = length vs"
    "jt_bytes tree = bs @ jbytess [JNode k js] @ cs" "b = length bs"
  then show "\<exists>vs ws bs cs. jt_values tree = vs @ flats (i + 1) b js @ ws \<and> i + 1 = length vs \<and>
      jt_bytes tree = bs @ jbytess js @ cs \<and> b = length bs"
    by (intro exI [of _ "vs @ [hd (flats i b [JNode k js])]"] exI [of _ ws] exI [of _ bs] exI [of _ cs]) simp
qed

lemma holds_head:
  assumes "holds tree i b (j # js)"
  shows "jt_values tree ! i = hd (flat i b j)"
proof -
  have "flat i b j \<noteq> []" by (cases j) simp_all
  then show ?thesis using assms by (auto simp: holds_def nth_append) (simp add: hd_append hd_conv_nth)
qed

lemma head_end: "jv_end (hd (flat i b j)) = i + nodes j"
  by (cases j) simp_all

lemma holds_bytes:
  assumes "holds tree i b (JLeaf k bs # js)"
  shows "json_bytes tree i = bs"
  using assms holds_head [OF assms] by (auto simp: json_bytes_def Let_def holds_def)

lemma tree_of_holds: "tree_of j tree \<Longrightarrow> holds tree 0 0 [j]"
  unfolding tree_of_def holds_def by (intro exI [of _ "[]"]) simp

text \<open>The first member and the one after a member.\<close>

lemma first_member:
  "holds tree i b [JNode k js] \<Longrightarrow> json_first tree i = (if js = [] then None else Some (i + 1))"
  using holds_head [of tree i b "JNode k js" "[]"] nodes_pos
  by (cases js) (simp_all add: json_first_def)

lemma next_member:
  assumes "holds tree i b (j # js)" and "jv_end (jt_values tree ! c) = i + nodes j + nodess js"
  shows "json_next tree c i = (if js = [] then None else Some (i + nodes j))"
  using assms holds_head [OF assms(1)] nodes_pos by (cases js) (simp_all add: json_next_def head_end)

lemma holds_kind: "holds tree i b (JLeaf k bs # js) \<Longrightarrow> jv_kind (jt_values tree ! i) = k"
  "holds tree i b (JNode k ms # js) \<Longrightarrow> jv_kind (jt_values tree ! i) = k"
  by (simp_all add: holds_head)

text \<open>The writer prints the value, with twice the number of its values of fuel.\<close>

lemma json_out_leaf:
  assumes "holds tree i b [JLeaf k bs]" and "leaf_ok k bs"
  shows "\<exists>out'. json_out_value (Suc fuel) grant tree i out = Some out' \<and> writes grant out out' (print_leaf k bs)"
  using assms holds_kind(1) [OF assms(1)] holds_bytes [OF assms(1)] writes_raw writes_bytes json_out_string_writes
  by (cases k) (auto simp del: asc_Cons)

lemma writer_prints:
  "holds tree i b [j] \<Longrightarrow> json_ok j \<Longrightarrow> 2 * nodes j \<le> fuel \<Longrightarrow>
     \<exists>out'. json_out_value fuel grant tree i out = Some out' \<and> writes grant out out' (print j)"
  "holds tree i b js \<Longrightarrow> jsons_ok js \<Longrightarrow> (object \<longrightarrow> keyed js) \<Longrightarrow> 2 * nodess js + 1 \<le> fuel \<Longrightarrow>
     c + 1 \<le> i \<Longrightarrow> jv_end (jt_values tree ! c) = i + nodess js \<Longrightarrow>
     json_first tree c = Some (c + 1) \<or> js = [] \<Longrightarrow>
     \<exists>out'. out_members fuel grant tree c object (if js = [] then None else Some i) out = Some out' \<and>
       writes grant out out' (items (i \<noteq> c + 1) object js)"
proof (induction fuel arbitrary: i b j js c object out)
  case 0
  {
    case 1
    then show ?case using nodes_pos [of j] by simp
  next
    case 2
    then show ?case by simp
  }
next
  case (Suc fuel)
  {
    case 1
    show ?case
    proof (cases j)
      case (JLeaf k bs)
      then show ?thesis using 1 json_out_leaf by simp
    next
      case (JNode k js)
      let ?object = "k = JSON_OBJECT"
      let ?open = "json_out_raw grant out (if ?object then ''{'' else ''['')"
      have h: "holds tree (i + 1) b js" using 1(1) JNode holds_node by blast
      have e: "jv_end (jt_values tree ! i) = i + 1 + nodess js"
        using holds_head [OF 1(1)] JNode by simp
      have f: "json_first tree i = (if js = [] then None else Some (i + 1))"
        using first_member 1(1) JNode by blast
      have fs: "json_first tree i = Some (i + 1) \<or> js = []" using f by simp
      have k: "jv_kind (jt_values tree ! i) = k" using 1(1) JNode holds_kind(2) by blast
      have ok: "k = JSON_ARRAY \<or> ?object" "jsons_ok js" "?object \<longrightarrow> keyed js" "2 * nodess js + 1 \<le> fuel"
        using 1(2,3) JNode by auto
      obtain out' where out': "out_members fuel grant tree i ?object (if js = [] then None else Some (i + 1)) ?open = Some out'"
        "writes grant ?open out' (items (i + 1 \<noteq> i + 1) ?object js)"
        using Suc.IH(2) [OF h ok(2-4) order_refl e fs, of ?open] by blast
      have w: "writes grant out (json_out_raw grant out' (if ?object then ''}'' else '']''))
          ((asc (if ?object then ''{'' else ''['') @ items False ?object js) @ asc (if ?object then ''}'' else '']''))"
        using out'(2) by (intro writes_trans [OF writes_trans [OF writes_raw] writes_raw]) simp
      have p: "(asc (if ?object then ''{'' else ''['') @ items False ?object js) @ asc (if ?object then ''}'' else '']'') = print j"
        using JNode by simp
      have "json_out_value (Suc fuel) grant tree i out = Some (json_out_raw grant out' (if ?object then ''}'' else '']''))"
        using ok(1) k f out'(1) by (cases ?object) simp_all
      then show ?thesis using w unfolding p by blast
    qed
  next
    case 2
    show ?case
    proof (cases js)
      case Nil
      then show ?thesis by (cases object) (simp_all add: writes_refl)
    next
      case (Cons j rest)
      let ?out = "if Some i \<noteq> json_first tree c then json_out_raw grant out '','' else out"
      have h: "holds tree i b [j]" "holds tree (i + nodes j) (b + length (jbytes j)) rest"
        using 2(1) Cons holds_Cons by blast+
      have comma: "writes grant out ?out (if i \<noteq> c + 1 then [0x2C] else [])"
        using 2(7) Cons writes_raw [of grant out "'',''"] writes_refl [of grant out] by auto
      have "2 * nodes j \<le> fuel" "json_ok j" using 2(2,4) Cons by simp_all
      then obtain out1 where out1: "json_out_value fuel grant tree i ?out = Some out1" "writes grant ?out out1 (print j)"
        using Suc.IH(1) [OF h(1), of ?out] by blast
      show ?thesis
      proof (cases object)
        case False
        have n: "json_next tree c i = (if rest = [] then None else Some (i + nodes j))"
          using next_member [of tree i b j rest c] 2(1,6) Cons by simp
        have e: "jv_end (jt_values tree ! c) = (i + nodes j) + nodess rest" using 2(6) Cons by simp
        have p: "c + 1 \<le> i + nodes j" "i + nodes j \<noteq> c + 1" "2 * nodess rest + 1 \<le> fuel" "jsons_ok rest"
          "json_first tree c = Some (c + 1) \<or> rest = []"
          using 2(2,4,5,7) Cons nodes_pos [of j] by simp_all
        obtain out2 where out2: "out_members fuel grant tree c False (if rest = [] then None else Some (i + nodes j)) out1 = Some out2"
          "writes grant out1 out2 (items True False rest)"
          using Suc.IH(2) [OF h(2) p(4) _ p(3,1) e p(5), of False out1] p(2) by auto
        have "writes grant out out2 (items (i \<noteq> c + 1) object js)"
          using writes_trans [OF writes_trans [OF comma out1(2)] out2(2)] Cons False by simp
        then show ?thesis using out1(1) out2(1) n Cons False by (auto simp: Let_def)
      next
        case True
        obtain key v js' where js: "j = JLeaf JSON_STRING key" "rest = v # js'" "keyed js'"
          using 2(3) True Cons by (cases js rule: keyed.cases) auto
        have h2: "holds tree (i + 1) (b + length key) [v]" "holds tree (i + 1 + nodes v) (b + length key + length (jbytes v)) js'"
          using holds_Cons [of tree "i + nodes j" "b + length (jbytes j)" v js'] h(2) js by simp_all
        let ?colon = "json_out_raw grant out1 '':''"
        have "2 * nodes v \<le> fuel" "json_ok v" using 2(2,4) Cons js by simp_all
        then obtain out2 where out2: "json_out_value fuel grant tree (i + 1) ?colon = Some out2" "writes grant ?colon out2 (print v)"
          using Suc.IH(1) [OF h2(1), of ?colon] by blast
        have n: "json_next tree c (i + 1) = (if js' = [] then None else Some (i + 1 + nodes v))"
          using next_member [of tree "i + 1" "b + length key" v js' c] h(2) 2(6) Cons js by simp
        have e: "jv_end (jt_values tree ! c) = (i + 1 + nodes v) + nodess js'" using 2(6) Cons js by simp
        have p: "c + 1 \<le> i + 1 + nodes v" "i + 1 + nodes v \<noteq> c + 1" "2 * nodess js' + 1 \<le> fuel" "jsons_ok js'"
          "json_first tree c = Some (c + 1) \<or> js' = []"
          using 2(2,4,5,7) Cons js nodes_pos [of v] by simp_all
        obtain out3 where out3: "out_members fuel grant tree c True (if js' = [] then None else Some (i + 1 + nodes v)) out2 = Some out3"
          "writes grant out2 out3 (items True True js')"
          using Suc.IH(2) [OF h2(2) p(4) _ p(3,1) e p(5), of True out2] p(2) js(3) by auto
        have "writes grant out out3 (((((if i \<noteq> c + 1 then [0x2C] else []) @ print j) @ asc '':'') @ print v) @ items True True js')"
          by (rule writes_trans [OF writes_trans [OF writes_trans [OF writes_trans [OF comma out1(2)] writes_raw] out2(2)] out3(2)])
        then have "writes grant out out3 (items (i \<noteq> c + 1) object js)" using Cons js True by simp
        then show ?thesis using out1(1) out2(1) out3(1) n Cons js True by (auto simp: Let_def)
      qed
    qed
  }
qed

end
