(* ===== verification/JsonRound.thy ===== *)
theory JsonRound
  imports JsonWrite
begin

text \<open>
  Reading back what the writer wrote, and the properties of lsp/json.c.

  A step of the reader over a text whose spelling is known either appends exactly the values
  and the bytes the spelling stands for, or fails because the allocator refused a request no
  larger than the tree the step would have left.
\<close>

definition refuses :: "grants \<Rightarrow> nat \<Rightarrow> bool" where
  "refuses grant n \<longleftrightarrow> (\<exists>capacity need width. need \<le> n \<and> width \<in> {1, 32} \<and> widen grant capacity need width = None)"

abbreviation held :: "reader \<Rightarrow> nat" where
  "held r \<equiv> val_count r + byte_count r"

definition lost :: "grants \<Rightarrow> nat \<Rightarrow> bool \<times> reader \<Rightarrow> bool" where
  "lost grant n res \<longleftrightarrow> \<not> fst res \<and> rd_status (snd res) = JSON_READ_FAILED \<and> refuses grant n"

definition reads_as :: "grants \<Rightarrow> reader \<Rightarrow> bool \<times> reader \<Rightarrow> json_value list \<Rightarrow> byte list \<Rightarrow> nat \<Rightarrow> bool" where
  "reads_as grant r res vs bs n \<longleftrightarrow>
     fst res \<and> grew r (snd res) vs bs \<and> rd_at (snd res) = rd_at r + n \<or>
     lost grant (held r + length vs + length bs) res"

lemma refuses_mono: "refuses grant m \<Longrightarrow> m \<le> n \<Longrightarrow> refuses grant n"
  unfolding refuses_def by (meson order_trans)

lemma lost_mono: "lost grant m res \<Longrightarrow> m \<le> n \<Longrightarrow> lost grant n res"
  unfolding lost_def using refuses_mono by blast

lemma grew_held: "grew r r1 vs bs \<Longrightarrow> held r1 = held r + length vs + length bs"
  by (simp add: grew_def)

lemma reads_as_lost: "lost grant (held r + m) res \<Longrightarrow> m \<le> length vs + length bs \<Longrightarrow> reads_as grant r res vs bs n"
  unfolding reads_as_def by (rule disjI2, erule lost_mono) simp

text \<open>Two steps, one after the other.\<close>

lemma reads_as_step:
  assumes "grew r r1 vs bs" and "rd_at r1 = rd_at r + n" and "reads_as grant r1 res ws cs m"
  shows "reads_as grant r res (vs @ ws) (bs @ cs) (n + m)"
  using assms grew_trans [OF assms(1), of "snd res" ws cs] grew_held [OF assms(1)]
  unfolding reads_as_def by (auto simp: ac_simps)

lemma push_reads:
  assumes "rd_status r = JSON_READ_OK" and "push grant r kind = (i, r')"
  shows "reads_as grant r (i \<noteq> None, r')
    [\<lparr>jv_kind = kind, jv_end = val_count r + 1, jv_at = byte_count r, jv_size = 0\<rparr>] [] 0"
proof (cases "widen grant (jt_capacity (rd_tree r)) (val_count r + 1) 32")
  case None
  then have "refuses grant (held r + 1)" unfolding refuses_def
    by (intro exI [of _ "jt_capacity (rd_tree r)"] exI [of _ "val_count r + 1"] exI [of _ 32]) simp
  then show ?thesis using assms None by (auto simp: push_def reads_as_def lost_def jfail_def Let_def)
next
  case (Some c)
  then show ?thesis using assms by (auto simp: push_def reads_as_def grew_def Let_def)
qed

lemma put_reads:
  assumes "rd_status r = JSON_READ_OK"
  shows "reads_as grant r (put grant r bs) [] bs 0"
proof (cases "widen grant (jt_room (rd_tree r)) (byte_count r + length bs) 1")
  case None
  then have "refuses grant (held r + length bs)" unfolding refuses_def
    by (intro exI [of _ "jt_room (rd_tree r)"] exI [of _ "byte_count r + length bs"] exI [of _ 1]) simp
  then show ?thesis using assms None
    by (cases "bs = []") (simp_all add: put_def reads_as_def lost_def jfail_def grew_def Let_def)
next
  case (Some c)
  then show ?thesis by (simp add: put_def reads_as_def grew_def Let_def)
qed

subsection \<open>Strings\<close>

lemma plain_facts: "\<not> string_plain 0x22" "\<not> string_plain 0x5C"
  by (simp_all add: string_plain_def)

lemma hex_HEX: "k < 16 \<Longrightarrow> hex (HEX ! k) = Some k"
proof -
  assume "k < 16"
  then have "k = 0 \<or> k = 1 \<or> k = 2 \<or> k = 3 \<or> k = 4 \<or> k = 5 \<or> k = 6 \<or> k = 7 \<or> k = 8 \<or>
      k = 9 \<or> k = 10 \<or> k = 11 \<or> k = 12 \<or> k = 13 \<or> k = 14 \<or> k = 15" by presburger
  then show ?thesis by (auto simp: HEX_def hex_def between_unat)
qed

lemma HEX_unit: "n < 32 \<Longrightarrow> unit_loop 0 [0x30, 0x30, HEX ! drop_bit 4 n, HEX ! (n AND 0xF)] = Some n"
proof -
  assume n: "n < 32"
  have "n AND 0xF = take_bit 4 n" by (simp only: take_bit_eq_mask) (simp add: mask_eq_exp_minus_1)
  then have "n AND 0xF = n mod 16" by (simp add: take_bit_eq_mod)
  moreover have "drop_bit 4 n = n div 16" by (simp add: drop_bit_eq_div)
  moreover have "hex 0x30 = Some 0" by (simp add: hex_def between_unat)
  ultimately show ?thesis using n hex_HEX [of "n div 16"] hex_HEX [of "n mod 16"] by simp
qed

lemma json_escape_cases:
  assumes "\<not> string_plain b"
  shows "(\<exists>letter. json_escape b = [0x5C, letter] \<and> simple_escape letter = Some b) \<or>
    (\<exists>h. json_escape b = 0x5C # 0x75 # h \<and> length h = 4 \<and> unit_loop 0 h = Some (unat b) \<and> unat b < 32)"
proof (cases "b \<in> {0x22, 0x5C, 0x0A, 0x0D, 0x09, 0x08, 0x0C}")
  case True
  then show ?thesis by (auto simp: json_escape_def simple_escape_def)
next
  case False
  then have "unat b < 32" using assms by (auto simp: string_plain_def word_le_nat_alt not_le)
  then show ?thesis using False HEX_unit by (auto simp: json_escape_def)
qed

lemma escape_all_run: "\<forall>b \<in> set run. string_plain b \<Longrightarrow> escape_all (run @ bs) = run @ escape_all bs"
  by (induction run) simp_all

lemma of_nat_unat_byte: "of_nat (unat b) = (b :: byte)"
  by simp

text \<open>A turn of the loop over a run of plain bytes and one escape or the closing quote.\<close>

lemma string_turn_reads:
  assumes "drop (rd_at r) src = run @ c # rest" and "\<forall>b \<in> set run. string_plain b" and "\<not> string_plain c"
  shows "skip_while string_plain src (rd_at r) = rd_at r + length run"
    and "take (rd_at r + length run - rd_at r) (drop (rd_at r) src) = run"
    and "rd_at r + length run < length src" and "src ! (rd_at r + length run) = c"
    and "drop (rd_at r + length run + 1) src = rest"
proof -
  show "skip_while string_plain src (rd_at r) = rd_at r + length run"
    using assms by (intro skip_while_run) auto
  show "take (rd_at r + length run - rd_at r) (drop (rd_at r) src) = run" using assms(1) by simp
  have d: "drop (rd_at r + length run) src = c # rest" using drop_append_plus [OF assms(1)] .
  note drop_Cons_nth [OF d]
  then show "rd_at r + length run < length src" "src ! (rd_at r + length run) = c"
    "drop (rd_at r + length run + 1) src = rest" by simp_all
qed

lemma string_turn_close:
  assumes "drop (rd_at r) src = run @ 0x22 # rest" and "\<forall>b \<in> set run. string_plain b" and "rd_status r = JSON_READ_OK"
  shows "\<exists>res. string_turn grant src r = Inl res \<and> reads_as grant r res [] run (length run + 1)"
proof -
  note t = string_turn_reads [OF assms(1,2) plain_facts(1)]
  let ?r = "r\<lparr>rd_at := rd_at r + length run\<rparr>"
  obtain ok r1 where r1: "put grant ?r run = (ok, r1)" by fastforce
  have p: "reads_as grant ?r (ok, r1) [] run 0" using put_reads [of ?r grant run] assms(3) r1 by simp
  show ?thesis
  proof (cases ok)
    case True
    then have "grew r r1 [] run" "rd_at r1 = rd_at r + length run" using p by (auto simp: reads_as_def lost_def)
    then show ?thesis using True r1 t by (simp add: string_turn_def Let_def reads_as_def)
  next
    case False
    then show ?thesis using p r1 t by (auto simp: string_turn_def Let_def reads_as_def)
  qed
qed

lemma string_turn_escape:
  assumes "drop (rd_at r) src = run @ json_escape b @ rest" and "\<forall>b \<in> set run. string_plain b"
    and "\<not> string_plain b" and "rd_status r = JSON_READ_OK"
  shows "(\<exists>res. string_turn grant src r = Inl res \<and> lost grant (held r + length run + 1) res) \<or>
    (\<exists>r'. string_turn grant src r = Inr r' \<and> grew r r' [] (run @ [b]) \<and>
       rd_at r' = rd_at r + length run + length (json_escape b))"
proof -
  let ?at = "rd_at r + length run"
  obtain more where e: "json_escape b @ rest = 0x5C # more" using json_escape_cases [OF assms(3)] by auto
  note t = string_turn_reads [OF assms(1) [unfolded e] assms(2) plain_facts(2)]
  let ?r = "r\<lparr>rd_at := ?at\<rparr>"
  obtain ok r1 where r1: "put grant ?r run = (ok, r1)" by fastforce
  have p: "reads_as grant ?r (ok, r1) [] run 0" using put_reads [of ?r grant run] assms(4) r1 by simp
  show ?thesis
  proof (cases ok)
    case False
    then have "lost grant (held r + length run) (False, r1)" using p by (auto simp: reads_as_def)
    then have "lost grant (held r + length run + 1) (False, r1)" by (rule lost_mono) simp
    then show ?thesis using False r1 t by (simp add: string_turn_def Let_def)
  next
    case True
    then have g: "grew r r1 [] run" "rd_at r1 = ?at" using p by (auto simp: reads_as_def lost_def)
    then have s: "rd_status r1 = JSON_READ_OK" "held r1 = held r + length run"
      using assms(4) by (simp_all add: grew_def)
    have long: "length (json_escape b) \<ge> 2" "drop ?at src = json_escape b @ rest"
      using json_escape_cases [OF assms(3)] drop_append_plus [OF assms(1)] by auto
    have room: "\<not> length src - ?at < 2" using arg_cong [OF long(2), of length] long(1) by simp
    from json_escape_cases [OF assms(3)] show ?thesis
    proof (elim disjE exE conjE)
      fix letter
      assume l: "json_escape b = [0x5C, letter]" "simple_escape letter = Some b"
      then have n: "src ! (?at + 1) = letter" using drop_Cons_nth(2) [of "?at + 1" src letter rest] t(5) e by simp
      obtain ok2 r2 where r2: "put grant r1 [b] = (ok2, r2)" by fastforce
      have "reads_as grant r1 (ok2, r2) [] [b] 0" using put_reads [OF s(1), of grant "[b]"] r2 by simp
      then show ?thesis
        using l n r1 r2 True t room grew_trans [OF g(1), of r2 "[]" "[b]"] s(2)
        by (cases ok2) (auto simp: string_turn_def Let_def reads_as_def lost_def)
    next
      fix h
      assume h: "json_escape b = 0x5C # 0x75 # h" "length h = 4" "unit_loop 0 h = Some (unat b)" "unat b < 32"
      have m: "drop (?at + 1) src = 0x75 # h @ rest" using t(5) e h(1) by simp
      note n = drop_Cons_nth [OF m]
      have d: "drop (?at + 2) src = h @ rest" using n(3) by simp
      then have "length src - (?at + 2) \<ge> 4" by (metis h(2) le_add1 length_append length_drop)
      then have u: "escape_unit src (?at + 2) = Some (unat b)"
        using d h(2,3) by (simp add: escape_unit_def)
      have sc: "escape_scalar src (?at + 6) (unat b) = (unat b, ?at + 6)" using h(4) by (simp add: escape_scalar_def)
      let ?r1 = "r1\<lparr>rd_at := ?at + 6\<rparr>"
      obtain ok2 r2 where r2: "put grant ?r1 [b] = (ok2, r2)" by fastforce
      have pr: "reads_as grant ?r1 (ok2, r2) [] [b] 0" using put_reads [of ?r1 grant "[b]"] s(1) r2 by simp
      have "put_scalar grant ?r1 (unat b) = (ok2, r2)"
        using r2 h(4) by (simp add: put_scalar_def scalar_bytes_def)
      moreover have "simple_escape 0x75 = None" by (simp add: simple_escape_def)
      ultimately have turn: "string_turn grant src r = (if ok2 then Inr r2 else Inl (False, r2))"
        using r1 True t room n u sc by (simp add: string_turn_def Let_def)
      show ?thesis
      proof (cases ok2)
        case ok2: True
        then have "grew r1 r2 [] [b]" "rd_at r2 = ?at + 6" using pr by (auto simp: reads_as_def lost_def)
        then show ?thesis using turn ok2 grew_trans [OF g(1), of r2 "[]" "[b]"] h(1,2) by simp
      next
        case ok2: False
        then have "lost grant (held r1 + 1) (False, r2)" using pr by (simp add: reads_as_def)
        then show ?thesis using turn ok2 s(2) by simp
      qed
    qed
  qed
qed

lemma string_loop_reads:
  "drop (rd_at r) src = escape_all bs @ 0x22 # rest \<Longrightarrow> rd_status r = JSON_READ_OK \<Longrightarrow>
   reads_as grant r (string_loop grant src r) [] bs (length (escape_all bs) + 1)"
proof (induction "length bs" arbitrary: bs r rule: less_induct)
  case less
  let ?run = "takeWhile string_plain bs"
  have run: "\<forall>b \<in> set ?run. string_plain b" by (auto dest: set_takeWhileD)
  have bs: "bs = ?run @ dropWhile string_plain bs" by simp
  show ?case
  proof (cases "dropWhile string_plain bs")
    case Nil
    then have "bs = ?run" by (metis append_Nil2 takeWhile_dropWhile_id)
    then have all: "\<forall>b \<in> set bs. string_plain b" using run by metis
    then have e: "escape_all bs = bs" using escape_all_run [of bs "[]"] by simp
    obtain res where "string_turn grant src r = Inl res" "reads_as grant r res [] bs (length bs + 1)"
      using string_turn_close [OF less.prems(1) [unfolded e] all less.prems(2)] by blast
    then show ?thesis by (subst string_loop.simps) (simp add: e)
  next
    case (Cons b more)
    have nb: "\<not> string_plain b" using Cons by (metis hd_dropWhile list.distinct(1) list.sel(1))
    have split: "bs = ?run @ b # more" using bs Cons by simp
    have e: "escape_all bs = ?run @ json_escape b @ escape_all more"
      using escape_all_run [OF run, of "b # more"] nb split by simp
    have d: "drop (rd_at r) src = ?run @ json_escape b @ (escape_all more @ 0x22 # rest)"
      using less.prems(1) e by simp
    consider res where "string_turn grant src r = Inl res" "lost grant (held r + length ?run + 1) res"
      | r' where "string_turn grant src r = Inr r'" "grew r r' [] (?run @ [b])"
        "rd_at r' = rd_at r + length ?run + length (json_escape b)"
      using string_turn_escape [OF d run nb less.prems(2)] by blast
    then show ?thesis
    proof cases
      case 1
      have "length ?run + 1 \<le> length bs" using arg_cong [OF split, of length] by simp
      then have "lost grant (held r + length bs) res" using 1(2) by (elim lost_mono) simp
      then show ?thesis using 1(1) by (subst string_loop.simps) (simp add: reads_as_def)
    next
      case 2
      have d': "drop (rd_at r') src = escape_all more @ 0x22 # rest"
        using drop_append_plus [of "rd_at r" src "?run @ json_escape b"] d 2(3) by (simp add: add.assoc)
      have s: "rd_status r' = JSON_READ_OK" using 2(2) less.prems(2) by (simp add: grew_def)
      have l: "length more < length bs" using arg_cong [OF split, of length] by simp
      have "reads_as grant r (string_loop grant src r') ([] @ []) ((?run @ [b]) @ more)
          (length ?run + length (json_escape b) + (length (escape_all more) + 1))"
        by (rule reads_as_step [OF 2(2) _ less.hyps [OF l d' s]]) (simp add: 2(3))
      moreover have "bs = (?run @ [b]) @ more" using split by simp
      moreover have "length (escape_all bs) + 1 = length ?run + length (json_escape b) + (length (escape_all more) + 1)"
        using e by simp
      ultimately show ?thesis using 2(1) by (subst string_loop.simps) (metis append_Nil sum.simps(6))
    qed
  qed
qed

lemma grew_set_last:
  assumes "grew r r' (v # vs) bs"
  shows "grew r (set_value (val_count r) f r') (f v # vs) bs"
  using grew_set_value [OF assms refl] .

lemma read_string_reads:
  assumes "drop (rd_at r) src = print_string bs @ rest" and "rd_status r = JSON_READ_OK"
  shows "reads_as grant r (read_string grant src r) (flat (val_count r) (byte_count r) (JLeaf JSON_STRING bs)) bs
    (length (print_string bs))"
proof -
  obtain i r1 where p: "push grant r JSON_STRING = (i, r1)" by fastforce
  note s1 = push_reads [OF assms(2) p]
  show ?thesis
  proof (cases i)
    case None
    then have "lost grant (held r + 1) (False, r1)" using s1 by (simp add: reads_as_def)
    then have "lost grant (held r + 1 + length bs) (False, r1)" by (rule lost_mono) simp
    then show ?thesis using p None by (simp add: read_string_def reads_as_def)
  next
    case (Some index)
    note g1 = push_Some [OF p [unfolded Some]]
    let ?v = "\<lparr>jv_kind = JSON_STRING, jv_end = val_count r + 1, jv_at = byte_count r, jv_size = 0\<rparr>"
    have g: "grew r r1 [?v] []" using g1(1,3) by simp
    let ?r1 = "r1\<lparr>rd_at := rd_at r1 + 1\<rparr>"
    have "drop (rd_at r) src = 0x22 # escape_all bs @ 0x22 # rest" using assms(1) by (simp add: print_string_def)
    then have d: "drop (rd_at ?r1) src = escape_all bs @ 0x22 # rest" using drop_Cons_nth(3) g1(2) by simp
    obtain ok2 r2 where r2: "string_loop grant src ?r1 = (ok2, r2)" by fastforce
    have s2: "reads_as grant ?r1 (ok2, r2) [] bs (length (escape_all bs) + 1)"
      using string_loop_reads [OF d, of grant] assms(2) g r2 by (simp add: grew_def)
    show ?thesis
    proof (cases ok2)
      case False
      then have "lost grant (held r + 1 + length bs) (False, r2)"
        using s2 grew_held [OF g] by (simp add: reads_as_def)
      then show ?thesis using p Some r2 False by (simp add: read_string_def Let_def reads_as_def)
    next
      case True
      then have g2: "grew r r2 [?v] bs" "rd_at r2 = rd_at r + 1 + (length (escape_all bs) + 1)"
        using s2 grew_trans [OF g, of r2 "[]" bs] g1(2) by (auto simp: reads_as_def lost_def)
      have b: "byte_count r1 = byte_count r" "byte_count r2 = byte_count r + length bs"
        using g g2 by (simp_all add: grew_def)
      have "grew r (set_value (val_count r) (\<lambda>v. v\<lparr>jv_at := byte_count r, jv_size := length bs\<rparr>) r2)
          (flat (val_count r) (byte_count r) (JLeaf JSON_STRING bs)) bs"
        using grew_set_last [OF g2(1), of "\<lambda>v. v\<lparr>jv_at := byte_count r, jv_size := length bs\<rparr>"] by simp
      then show ?thesis using p Some r2 True g1(1) b g2(2)
        by (simp add: read_string_def Let_def reads_as_def print_string_def)
    qed
  qed
qed

subsection \<open>Numbers and words\<close>

definition starts :: "byte set \<Rightarrow> byte list \<Rightarrow> bool" where
  "starts S bs \<longleftrightarrow> bs \<noteq> [] \<and> hd bs \<in> S"

lemma at_byte_starts: "at_byte src r bs \<longleftrightarrow> starts (set bs) (drop (rd_at r) src)"
  by (auto simp: at_byte_def starts_def hd_drop_conv_nth)

lemma decimals_reads:
  assumes "drop (rd_at r) src = ds @ rest" and "digits_ok ds" and "\<not> starts {b. digit_byte b} rest"
  shows "decimals src r = (True, r\<lparr>rd_at := rd_at r + length ds\<rparr>)"
proof -
  have "skip_while digit_byte src (rd_at r) = rd_at r + length ds"
    using assms by (intro skip_while_run) (auto simp: digits_ok_def starts_def)
  then show ?thesis using assms(2) by (simp add: decimals_def Let_def digits_ok_def)
qed

lemma digit_not: "digit_byte b \<Longrightarrow> b \<notin> {0x2D, 0x2B, 0x2E, 0x65, 0x45, 0x22, 0x7B, 0x5B, 0x74, 0x66, 0x6E}"
  by (auto simp: digit_byte_def)

lemma digits_ok_hd: "digits_ok ds \<Longrightarrow> \<exists>d ds'. ds = d # ds' \<and> digit_byte d"
  by (cases ds) (auto simp: digits_ok_def)

lemma read_integer_part_reads:
  assumes "drop (rd_at r) src = i @ rest" and "int_ok i" and "\<not> starts {b. digit_byte b} rest"
  shows "read_integer_part src r = (True, r\<lparr>rd_at := rd_at r + length i\<rparr>)"
proof -
  obtain sign ds where i: "i = sign @ ds" "sign \<in> {[], [0x2D]}" "ds = [0x30] \<or> digits_ok ds \<and> hd ds \<noteq> 0x30"
    using assms(2) unfolding int_ok_def by blast
  have z: "digit_byte 0x30" by (simp add: digit_byte_def)
  have ds: "digits_ok ds" using i(3) z by (auto simp: digits_ok_def)
  then obtain d ds' where d: "ds = d # ds'" "digit_byte d" using digits_ok_hd by blast
  define r1 where "r1 = (if src ! rd_at r = 0x2D then advance r else r)"
  have r1: "r1 = r\<lparr>rd_at := rd_at r + length sign\<rparr>"
    using i(1,2) assms(1) d digit_not [OF d(2)] drop_Cons_nth(2) [of "rd_at r" src]
    by (auto simp: r1_def advance_def)
  have d1: "drop (rd_at r1) src = ds @ rest"
    using drop_append_plus [of "rd_at r" src sign] assms(1) i(1) r1 by simp
  have "(if at_byte src r1 [0x30] then (True, advance r1) else decimals src r1) =
      (True, r1\<lparr>rd_at := rd_at r1 + length ds\<rparr>)"
  proof (cases "ds = [0x30]")
    case True
    then show ?thesis using d1 by (simp add: at_byte_starts starts_def advance_def)
  next
    case False
    then have "d \<noteq> 0x30" using i(3) d by auto
    then have "\<not> at_byte src r1 [0x30]" using d1 d by (simp add: at_byte_starts starts_def)
    then show ?thesis using decimals_reads [OF d1 ds assms(3)] by simp
  qed
  then have "read_integer_part src r = (True, r1\<lparr>rd_at := rd_at r1 + length ds\<rparr>)"
    by (simp only: read_integer_part_def Let_def r1_def)
  then show ?thesis using i(1) r1 by (simp add: add.assoc)
qed

lemma read_fraction_reads:
  assumes "drop (rd_at r) src = f @ rest" and "frac_ok f" and "\<not> starts {b. digit_byte b \<or> b = 0x2E} rest"
  shows "read_fraction src r = (True, r\<lparr>rd_at := rd_at r + length f\<rparr>)"
proof (cases "f = []")
  case True
  then show ?thesis using assms by (auto simp: read_fraction_def at_byte_starts starts_def)
next
  case False
  then obtain ds where ds: "f = 0x2E # ds" "digits_ok ds" using assms(2) by (auto simp: frac_ok_def)
  have "drop (rd_at (advance r)) src = ds @ rest" using assms(1) ds drop_Cons_nth(3) [of "rd_at r" src] by simp
  then have "decimals src (advance r) = (True, (advance r)\<lparr>rd_at := rd_at (advance r) + length ds\<rparr>)"
    using assms(3) by (intro decimals_reads [OF _ ds(2)]) (auto simp: starts_def)
  then show ?thesis using assms(1) ds by (simp add: read_fraction_def at_byte_starts starts_def advance_def)
qed

lemma read_exponent_reads:
  assumes "drop (rd_at r) src = x @ rest" and "expo_ok x" and "\<not> starts {b. digit_byte b \<or> b = 0x65 \<or> b = 0x45} rest"
  shows "read_exponent src r = (True, r\<lparr>rd_at := rd_at r + length x\<rparr>)"
proof (cases "x = []")
  case True
  then show ?thesis using assms by (auto simp: read_exponent_def at_byte_starts starts_def)
next
  case False
  then obtain e s ds where x: "x = e # s @ ds" "e \<in> {0x65, 0x45}" "s \<in> {[], [0x2B], [0x2D]}" "digits_ok ds"
    using assms(2) unfolding expo_ok_def by blast
  obtain d ds' where d: "ds = d # ds'" "digit_byte d" using digits_ok_hd [OF x(4)] by blast
  have d1: "drop (rd_at (advance r)) src = s @ ds @ rest" using assms(1) x drop_Cons_nth(3) [of "rd_at r" src] by simp
  define r2 where "r2 = (if at_byte src (advance r) [0x2B, 0x2D] then advance (advance r) else advance r)"
  have r2: "r2 = r\<lparr>rd_at := rd_at r + 1 + length s\<rparr>"
    using x(3) d1 d digit_not [OF d(2)] by (auto simp: r2_def at_byte_starts starts_def advance_def)
  have "drop (rd_at r2) src = ds @ rest" using drop_append_plus [OF d1] r2 by simp
  then have "decimals src r2 = (True, r2\<lparr>rd_at := rd_at r2 + length ds\<rparr>)"
    using assms(3) by (intro decimals_reads [OF _ x(4)]) (auto simp: starts_def)
  moreover have "at_byte src r [0x65, 0x45]" using assms(1) x by (auto simp: at_byte_starts starts_def)
  ultimately show ?thesis using x(1) r2 by (simp add: read_exponent_def r2_def Let_def add.assoc)
qed

text \<open>What may follow a value in a container, or nothing at the end of the text.\<close>

abbreviation after_value :: "byte list \<Rightarrow> bool" where
  "after_value rest \<equiv> rest = [] \<or> starts {0x2C, 0x5D, 0x7D} rest"

lemma starts_append: "starts S (as @ bs) \<longleftrightarrow> (if as = [] then starts S bs else starts S as)"
  by (simp add: starts_def)

lemma read_number_reads:
  assumes "drop (rd_at r) src = bs @ rest" and "number_ok bs" and "after_value rest" and "rd_status r = JSON_READ_OK"
  shows "reads_as grant r (read_number grant src r) (flat (val_count r) (byte_count r) (JLeaf JSON_NUMBER bs)) bs
    (length bs)"
proof -
  obtain i f x where bs: "bs = i @ f @ x" "int_ok i" "frac_ok f" "expo_ok x"
    using assms(2) unfolding number_ok_def by blast
  have nd: "\<not> digit_byte 0x2C" "\<not> digit_byte 0x5D" "\<not> digit_byte 0x7D" "\<not> digit_byte 0x2E" "\<not> digit_byte 0x65"
    "\<not> digit_byte 0x45" by (simp_all add: digit_byte_def)
  have rest: "\<not> starts {b. digit_byte b \<or> b = 0x65 \<or> b = 0x45 \<or> b = 0x2E} rest"
    using assms(3) nd by (auto simp: starts_def)
  then have r3: "\<not> starts {b. digit_byte b \<or> b = 0x65 \<or> b = 0x45} rest" by (auto simp: starts_def)
  have r2: "\<not> starts {b. digit_byte b \<or> b = 0x2E} (x @ rest)"
    using bs(4) rest nd by (auto simp: starts_def expo_ok_def)
  have r1: "\<not> starts {b. digit_byte b} (f @ x @ rest)"
    using bs(3) r2 nd by (auto simp: starts_def frac_ok_def)
  let ?r1 = "r\<lparr>rd_at := rd_at r + length i\<rparr>"
  have s1: "read_integer_part src r = (True, ?r1)"
    using read_integer_part_reads [OF _ bs(2) r1] assms(1) bs(1) by simp
  have d1: "drop (rd_at ?r1) src = f @ x @ rest"
    using drop_append_plus [of "rd_at r" src i] assms(1) bs(1) by simp
  let ?r2 = "?r1\<lparr>rd_at := rd_at ?r1 + length f\<rparr>"
  have s2: "read_fraction src ?r1 = (True, ?r2)" using read_fraction_reads [OF d1 bs(3) r2] .
  have d2: "drop (rd_at ?r2) src = x @ rest" using drop_append_plus [OF d1] by simp
  let ?r3 = "?r2\<lparr>rd_at := rd_at ?r2 + length x\<rparr>"
  have s3: "read_exponent src ?r2 = (True, ?r3)" using read_exponent_reads [OF d2 bs(4) r3] .
  define r4 where "r4 = r\<lparr>rd_at := rd_at r + length bs\<rparr>"
  have r4: "?r3 = r4" using bs(1) by (simp add: r4_def add.assoc)
  have slice: "take (rd_at r4 - rd_at r) (drop (rd_at r) src) = bs" using assms(1) by (simp add: r4_def)
  have turn: "read_number grant src r = (case push grant r4 JSON_NUMBER of
      (None, r) \<Rightarrow> (False, r)
    | (Some index, r5) \<Rightarrow>
        (let (ok, r5) = put grant r5 (take (rd_at r5 - rd_at r) (drop (rd_at r) src))
         in if \<not> ok then (False, r5) else (True, set_value index (\<lambda>v. v\<lparr>jv_size := rd_at r5 - rd_at r\<rparr>) r5)))"
    unfolding read_number_def Let_def s1 prod.case s2 s3 r4 by simp
  obtain k r5 where p: "push grant r4 JSON_NUMBER = (k, r5)" by fastforce
  have k4: "rd_status r4 = JSON_READ_OK" "val_count r4 = val_count r" "byte_count r4 = byte_count r"
    using assms(4) by (simp_all add: r4_def)
  note s5 = push_reads [OF k4(1) p]
  show ?thesis
  proof (cases k)
    case None
    then have "lost grant (held r + 1) (False, r5)" using s5 k4 by (simp add: reads_as_def)
    then have "lost grant (held r + 1 + length bs) (False, r5)" by (rule lost_mono) simp
    then show ?thesis using turn p None by (simp add: reads_as_def)
  next
    case (Some index)
    note g5 = push_Some [OF p [unfolded Some]]
    let ?v = "\<lparr>jv_kind = JSON_NUMBER, jv_end = val_count r + 1, jv_at = byte_count r, jv_size = 0\<rparr>"
    have g: "grew r r5 [?v] []" using g5(1,3) k4(2,3) by (simp add: r4_def)
    obtain ok6 r6 where r6: "put grant r5 bs = (ok6, r6)" by fastforce
    have s6: "reads_as grant r5 (ok6, r6) [] bs 0"
      using put_reads [of r5 grant bs] g assms(4) r6 by (simp add: grew_def)
    show ?thesis
    proof (cases ok6)
      case False
      then have "lost grant (held r + 1 + length bs) (False, r6)"
        using s6 grew_held [OF g] by (simp add: reads_as_def)
      then show ?thesis using turn p Some r6 False slice g5(2) by (simp add: reads_as_def)
    next
      case True
      then have g6: "grew r r6 [?v] bs" "rd_at r6 = rd_at r + length bs"
        using s6 grew_trans [OF g, of r6 "[]" bs] g5(2) by (auto simp: reads_as_def lost_def r4_def)
      have "grew r (set_value (val_count r) (\<lambda>v. v\<lparr>jv_size := length bs\<rparr>) r6)
          (flat (val_count r) (byte_count r) (JLeaf JSON_NUMBER bs)) bs"
        using grew_set_last [OF g6(1), of "\<lambda>v. v\<lparr>jv_size := length bs\<rparr>"] by simp
      then show ?thesis using turn p Some r6 True slice g5(1,2) g6(2) k4(2) by (simp add: reads_as_def)
    qed
  qed
qed

lemma read_word_reads:
  assumes "drop (rd_at r) src = word @ rest" and "rd_status r = JSON_READ_OK"
  shows "reads_as grant r (read_word grant src word kind r) (flat (val_count r) (byte_count r) (JLeaf kind [])) []
    (length word)"
proof -
  let ?r1 = "r\<lparr>rd_at := rd_at r + length word\<rparr>"
  have "length word \<le> length src - rd_at r" by (metis assms(1) le_add1 length_append length_drop)
  then have l: "literal src word r = (True, ?r1)" using assms(1) by (simp add: literal_def)
  obtain i r2 where p: "push grant ?r1 kind = (i, r2)" by fastforce
  have "reads_as grant ?r1 (i \<noteq> None, r2) (flat (val_count r) (byte_count r) (JLeaf kind [])) [] 0"
    using push_reads [OF _ p] assms(2) by simp
  then show ?thesis using l p by (auto simp: read_word_def Let_def reads_as_def)
qed

subsection \<open>Values\<close>

lemma skip_space_none:
  assumes "drop (rd_at r) src = c # rest" and "\<not> json_space c"
  shows "skip_space src r = r"
  using assms skip_while_run [of "rd_at r" src "[]" "c # rest" json_space] by (simp add: skip_space_def)

lemma read_key_reads:
  assumes "drop (rd_at r) src = print_string bs @ 0x3A # rest" and "rd_status r = JSON_READ_OK"
  shows "reads_as grant r (read_key grant src r) (flat (val_count r) (byte_count r) (JLeaf JSON_STRING bs)) bs
    (length (print_string bs) + 1)"
proof -
  have d: "drop (rd_at r) src = 0x22 # escape_all bs @ 0x22 # 0x3A # rest" using assms(1) by (simp add: print_string_def)
  have s: "skip_space src r = r" by (rule skip_space_none [OF d]) (simp add: json_space_def)
  have q: "at_byte src r [0x22]" using d by (simp add: at_byte_starts starts_def)
  obtain ok r1 where r1: "read_string grant src r = (ok, r1)" by fastforce
  have p: "reads_as grant r (ok, r1) (flat (val_count r) (byte_count r) (JLeaf JSON_STRING bs)) bs (length (print_string bs))"
    using read_string_reads [OF assms, of grant] unfolding r1 .
  show ?thesis
  proof (cases ok)
    case False
    then show ?thesis using s q r1 p by (simp add: read_key_def Let_def reads_as_def)
  next
    case True
    then have g: "grew r r1 (flat (val_count r) (byte_count r) (JLeaf JSON_STRING bs)) bs"
      "rd_at r1 = rd_at r + length (print_string bs)" using p by (auto simp: reads_as_def lost_def)
    have d1: "drop (rd_at r1) src = 0x3A # rest" using drop_append_plus [OF assms(1)] g(2) by simp
    have "skip_space src r1 = r1" by (rule skip_space_none [OF d1]) (simp add: json_space_def)
    moreover have "at_byte src r1 [0x3A]" using d1 by (simp add: at_byte_starts starts_def)
    ultimately show ?thesis using s q r1 True g by (simp add: read_key_def Let_def reads_as_def)
  qed
qed

text \<open>A value spelled by the writer begins with a byte that is no space and says its kind.\<close>

lemma number_hd: "number_ok bs \<Longrightarrow> \<exists>b bs'. bs = b # bs' \<and> (b = 0x2D \<or> digit_byte b)"
proof -
  assume "number_ok bs"
  then obtain i f x where bs: "bs = i @ f @ x" "int_ok i" unfolding number_ok_def by blast
  then obtain sign ds where i: "i = sign @ ds" "sign \<in> {[], [0x2D]}" "ds = [0x30] \<or> digits_ok ds"
    unfolding int_ok_def by blast
  have "digits_ok ds" using i(3) by (auto simp: digits_ok_def digit_byte_def)
  then show ?thesis using bs i digits_ok_hd by fastforce
qed

lemma digit_no_space: "digit_byte b \<Longrightarrow> \<not> json_space b"
  by (auto simp: digit_byte_def json_space_def)

text \<open>The two ways a container's loop can end over a text it spells.\<close>

definition closes_as :: "grants \<Rightarrow> reader \<Rightarrow> nat \<Rightarrow> bool \<times> reader \<Rightarrow> json_value list \<Rightarrow> byte list \<Rightarrow> nat \<Rightarrow> bool" where
  "closes_as grant r index res vs bs n \<longleftrightarrow>
     fst res \<and> closes r (snd res) index vs bs \<and> rd_at (snd res) = rd_at r + n \<or>
     lost grant (held r + length vs + length bs) res"

lemma closes_as_step:
  assumes "grew r r1 vs bs" and "rd_at r1 = rd_at r + n" and "closes_as grant r1 index res ws cs m"
    and "index < val_count r"
  shows "closes_as grant r index res (vs @ ws) (bs @ cs) (n + m)"
  using assms closes_step [OF assms(1), of "snd res" index ws cs] grew_held [OF assms(1)]
  unfolding closes_as_def by (auto simp: ac_simps)

text \<open>The first item of a container, and what the writer makes of it.\<close>

lemma items_unfold:
  assumes "js \<noteq> []" and "object \<longrightarrow> keyed js"
  obtains ks j rest where "js = ks @ j # rest" and "object \<longrightarrow> keyed rest"
    and "\<And>comma. items comma object js = (if comma then [0x2C] else []) @
           (if object then print (hd ks) @ [0x3A] else []) @ print j @ items True object rest"
    and "if object then \<exists>k. ks = [JLeaf JSON_STRING k] else ks = []"
proof (cases object)
  case True
  then obtain k v js' where "js = JLeaf JSON_STRING k # v # js'" "keyed js'"
    using assms by (cases js rule: keyed.cases) auto
  then show thesis using True by (intro that [of "[JLeaf JSON_STRING k]" v js']) simp_all
next
  case False
  then obtain j rest where "js = j # rest" using assms(1) by (cases js) auto
  then show thesis using False by (intro that [of "[]" j rest]) simp_all
qed

lemma items_comma:
  assumes "js \<noteq> []" and "object \<longrightarrow> keyed js"
  shows "items True object js = 0x2C # items False object js"
proof (cases object)
  case True
  then obtain k v js' where "js = JLeaf JSON_STRING k # v # js'"
    using assms by (cases js rule: keyed.cases) auto
  then show ?thesis using True by simp
next
  case False
  then show ?thesis using assms(1) by (cases js) auto
qed

text \<open>
  What reading a value, and the items of a container, does on the text the writer spells, for
  a reader whose calls return with this much fuel.
\<close>

definition value_reads_back :: "nat \<Rightarrow> grants \<Rightarrow> byte list \<Rightarrow> bool" where
  "value_reads_back fuel grant src \<longleftrightarrow>
     (\<forall>d r res j rest. read_value fuel grant src d r = Some res \<longrightarrow> drop (rd_at r) src = print j @ rest \<longrightarrow>
        json_ok j \<longrightarrow> d + json_depth j \<le> JSON_DEPTH \<longrightarrow> after_value rest \<longrightarrow> rd_status r = JSON_READ_OK \<longrightarrow>
        reads_as grant r res (flat (val_count r) (byte_count r) j) (jbytes j) (length (print j)))"

definition members_read_back :: "nat \<Rightarrow> grants \<Rightarrow> byte list \<Rightarrow> bool" where
  "members_read_back fuel grant src \<longleftrightarrow>
     (\<forall>d kind index r res js rest. read_members fuel grant src d kind index r = Some res \<longrightarrow>
        drop (rd_at r) src = items False (kind = JSON_OBJECT) js @ close_of kind # rest \<longrightarrow>
        js \<noteq> [] \<longrightarrow> kind = JSON_ARRAY \<or> kind = JSON_OBJECT \<longrightarrow> (kind = JSON_OBJECT \<longrightarrow> keyed js) \<longrightarrow> jsons_ok js \<longrightarrow>
        d + 1 + json_depths js \<le> JSON_DEPTH \<longrightarrow> index < val_count r \<longrightarrow> rd_status r = JSON_READ_OK \<longrightarrow>
        closes_as grant r index res (flats (val_count r) (byte_count r) js) (jbytess js)
          (length (items False (kind = JSON_OBJECT) js) + 1))"

lemma item_reads:
  assumes "drop (rd_at r) src = (if object then print (hd ks) @ [0x3A] else []) @ later"
    and "if object then \<exists>k. ks = [JLeaf JSON_STRING k] else ks = []" and "rd_status r = JSON_READ_OK"
  shows "reads_as grant r (if object then read_key grant src r else (True, r))
    (flats (val_count r) (byte_count r) ks) (jbytess ks) (length (if object then print (hd ks) @ [0x3A] else []))"
proof (cases object)
  case True
  then obtain k where "ks = [JLeaf JSON_STRING k]" using assms(2) by auto
  then show ?thesis using read_key_reads [of r src k later grant] assms(1,3) True by simp
next
  case False
  then show ?thesis using assms(2) by (simp add: reads_as_def)
qed

lemma members_read_back_step:
  assumes val: "value_reads_back fuel grant src" and mem: "members_read_back fuel grant src"
  shows "members_read_back (Suc fuel) grant src"
  unfolding members_read_back_def
proof (intro allI impI)
  fix d kind index r res js rest
  let ?object = "kind = JSON_OBJECT"
  assume run: "read_members (Suc fuel) grant src d kind index r = Some res"
    and src: "drop (rd_at r) src = items False ?object js @ close_of kind # rest"
    and js: "js \<noteq> []" "?object \<longrightarrow> keyed js" "jsons_ok js" and kind: "kind = JSON_ARRAY \<or> ?object"
    and depth: "d + 1 + json_depths js \<le> JSON_DEPTH" and index: "index < val_count r"
    and status: "rd_status r = JSON_READ_OK"
  obtain ks j js' where split: "js = ks @ j # js'" "?object \<longrightarrow> keyed js'"
    and items: "\<And>comma. items comma ?object js = (if comma then [0x2C] else []) @
       (if ?object then print (hd ks) @ [0x3A] else []) @ print j @ items True ?object js'"
    and ks: "if ?object then \<exists>k. ks = [JLeaf JSON_STRING k] else ks = []"
    using items_unfold [OF js(1,2)] by metis
  let ?key = "if ?object then print (hd ks) @ [0x3A] else []"
  let ?more = "items True ?object js' @ close_of kind # rest"
  have d0: "drop (rd_at r) src = ?key @ print j @ ?more" using src items [of False] by simp
  obtain ok1 r1 where r1: "(if ?object then read_key grant src r else (True, r)) = (ok1, r1)" by fastforce
  have s1: "reads_as grant r (ok1, r1) (flats (val_count r) (byte_count r) ks) (jbytess ks) (length ?key)"
    using item_reads [OF d0 ks status, of grant] unfolding r1 .
  have all: "length (flats (val_count r) (byte_count r) js) + length (jbytess js) =
      nodess ks + length (jbytess ks) + (nodes j + length (jbytes j)) + (nodess js' + length (jbytess js'))"
    by (simp add: split length_flats)
  have close: "close_of kind = 0x5D \<or> close_of kind = 0x7D" by (simp add: close_of_def)
  show "closes_as grant r index res (flats (val_count r) (byte_count r) js) (jbytess js)
      (length (items False ?object js) + 1)"
  proof (cases ok1)
    case False
    then have "lost grant (held r + (nodess ks + length (jbytess ks))) (False, r1)"
      using s1 by (simp add: reads_as_def length_flats add.assoc)
    then have "lost grant (held r + length (flats (val_count r) (byte_count r) js) + length (jbytess js)) (False, r1)"
      by (rule lost_mono) (use all in simp)
    then show ?thesis using run r1 False by (simp add: closes_as_def)
  next
    case True
    then have g1: "grew r r1 (flats (val_count r) (byte_count r) ks) (jbytess ks)" "rd_at r1 = rd_at r + length ?key"
      using s1 by (auto simp: reads_as_def lost_def)
    have n1: "val_count r1 = val_count r + nodess ks" "byte_count r1 = byte_count r + length (jbytess ks)"
      "rd_status r1 = JSON_READ_OK" using g1(1) status by (simp_all add: grew_def length_flats)
    have d1: "drop (rd_at r1) src = print j @ ?more" using drop_append_plus [OF d0] g1(2) by simp
    obtain ok2 r2 where v: "read_value fuel grant src (d + 1) r1 = Some (ok2, r2)"
      using run r1 True by (auto split: option.splits)
    have more: "after_value ?more"
      using close items_comma [OF _ split(2)] by (cases "js' = []") (auto simp: starts_def)
    have s2: "reads_as grant r1 (ok2, r2) (flat (val_count r1) (byte_count r1) j) (jbytes j) (length (print j))"
      using val v d1 more n1(3) js(3) depth split(1) unfolding value_reads_back_def by simp
    show ?thesis
    proof (cases ok2)
      case False
      then have "lost grant (held r + (nodess ks + length (jbytess ks) + (nodes j + length (jbytes j)))) (False, r2)"
        using s2 n1 by (simp add: reads_as_def length_flat ac_simps)
      then have "lost grant (held r + length (flats (val_count r) (byte_count r) js) + length (jbytess js)) (False, r2)"
        by (rule lost_mono) (use all in simp)
      then show ?thesis using run r1 True v False by (simp add: closes_as_def)
    next
      case ok2: True
      let ?js = "ks @ [j]"
      have g2: "grew r r2 (flats (val_count r) (byte_count r) ?js) (jbytess ?js)"
        "rd_at r2 = rd_at r + length (?key @ print j)"
        using s2 ok2 grew_trans [OF g1(1), of r2 "flat (val_count r1) (byte_count r1) j" "jbytes j"] n1 g1(2)
        by (auto simp: reads_as_def lost_def flats_append)
      have n2: "val_count r2 = val_count r + nodess ?js" "byte_count r2 = byte_count r + length (jbytess ?js)"
        "rd_status r2 = JSON_READ_OK" using g2(1) status by (simp_all add: grew_def length_flats)
      have d2: "drop (rd_at r2) src = ?more"
        using drop_append_plus [of "rd_at r" src "?key @ print j" ?more] d0 g2(2) by simp
      then obtain c more where c: "drop (rd_at r2) src = c # more" by (cases "items True ?object js'") auto
      have lt: "rd_at r2 < length src" "src ! rd_at r2 = c" "drop (Suc (rd_at r2)) src = more" using drop_Cons_nth [OF c] .
      have cs: "\<not> json_space c"
        using more c d2 by (auto simp: starts_def json_space_def)
      have skip: "skip_space src r2 = r2" by (rule skip_space_none [OF c cs])
      have turn: "(if c = close_of kind then Some (True, set_end index (advance r2))
          else if c \<noteq> 0x2C then Some (jfail r2 JSON_READ_MALFORMED)
          else read_members fuel grant src d kind index (advance r2)) = Some res"
        using run r1 True v ok2 skip lt by (simp add: Let_def cong: if_cong split del: if_split)
      show ?thesis
      proof (cases "js' = []")
        case True
        then have "c = close_of kind" using c d2 by (cases ?object) simp_all
        then have "res = (True, set_end index (advance r2))" using turn by simp
        moreover have "closes r (set_end index (advance r2)) index (flats (val_count r) (byte_count r) js) (jbytess js)"
          using closes_end [of r "advance r2"] g2(1) index split(1) True by simp
        moreover have "rd_at (set_end index (advance r2)) = rd_at r + (length (items False ?object js) + 1)"
          using g2(2) items [of False] True by (cases ?object) (simp_all add: set_end_def)
        ultimately show ?thesis by (simp add: closes_as_def)
      next
        case False
        have cm: "items True ?object js' = 0x2C # items False ?object js'"
          using items_comma [OF False split(2)] .
        have c2: "c = 0x2C" "more = items False ?object js' @ close_of kind # rest" using c d2 cm by simp_all
        then have run': "read_members fuel grant src d kind index (advance r2) = Some res"
          using turn close by (auto split: if_splits)
        have d3: "drop (rd_at (advance r2)) src = items False ?object js' @ close_of kind # rest" using lt(3) c2(2) by simp
        have "closes_as grant (advance r2) index res (flats (val_count (advance r2)) (byte_count (advance r2)) js') (jbytess js')
            (length (items False ?object js') + 1)"
          using mem [unfolded members_read_back_def, rule_format, OF run' d3 False kind]
            split js(3) depth index n2 by simp
        then have "closes_as grant r index res (flats (val_count r) (byte_count r) ?js @ flats (val_count r2) (byte_count r2) js')
            (jbytess ?js @ jbytess js') (length (?key @ print j) + 1 + (length (items False ?object js') + 1))"
          using g2 index by (intro closes_as_step [of r "advance r2"]) simp_all
        moreover have "flats (val_count r) (byte_count r) ?js @ flats (val_count r2) (byte_count r2) js' =
            flats (val_count r) (byte_count r) js"
          using n2 split(1) flats_append [of "val_count r" "byte_count r" ?js js'] by simp
        moreover have "length (?key @ print j) + 1 + (length (items False ?object js') + 1) = length (items False ?object js) + 1"
          using items [of False] cm by simp
        ultimately show ?thesis using split(1) by simp
      qed
    qed
  qed
qed

lemma close_not_space: "\<not> json_space (close_of kind)"
  by (simp add: close_of_def json_space_def)

lemma print_starts:
  assumes "json_ok j"
  obtains b bs where "print j = b # bs" and "\<not> json_space b" and "b \<noteq> 0x5D" and "b \<noteq> 0x7D"
proof (cases j)
  case (JLeaf k bs)
  show thesis
  proof (cases "k = JSON_NUMBER")
    case True
    then have "number_ok bs" using assms JLeaf by simp
    then obtain b bs' where "bs = b # bs'" "b = 0x2D \<or> digit_byte b" using number_hd by blast
    then show thesis using True JLeaf digit_no_space [of b]
      by (intro that [of b bs']) (auto simp: json_space_def digit_byte_def)
  next
    case False
    then show thesis using assms JLeaf
      by (cases k) (auto intro!: that simp: print_string_def json_space_def)
  qed
next
  case (JNode k js)
  then show thesis using assms by (cases "k = JSON_OBJECT") (auto intro!: that simp: json_space_def)
qed

lemma items_starts:
  assumes "js \<noteq> []" and "object \<longrightarrow> keyed js" and "jsons_ok js"
  obtains b bs where "items False object js = b # bs" and "\<not> json_space b" and "b \<noteq> 0x5D" and "b \<noteq> 0x7D"
proof (cases object)
  case True
  then obtain k v js' where "js = JLeaf JSON_STRING k # v # js'"
    using assms by (cases js rule: keyed.cases) auto
  then show thesis using True
    by (intro that [of "0x22" "escape_all k @ 0x22 # 0x3A # print v @ items True True js'"])
      (simp_all add: print_string_def json_space_def)
next
  case False
  then obtain j js' where js: "js = j # js'" "json_ok j" using assms by (cases js) auto
  then obtain b bs where "print j = b # bs" "\<not> json_space b" "b \<noteq> 0x5D" "b \<noteq> 0x7D" using print_starts by blast
  then show thesis using that [of b "bs @ items True False js'"] js False by simp
qed

lemma container_reads_back:
  assumes mem: "members_read_back fuel grant src" and run: "read_container (Suc fuel) grant src d kind r = Some res"
    and src: "drop (rd_at r) src = c # items False (kind = JSON_OBJECT) js @ close_of kind # rest"
    and ok: "json_ok (JNode kind js)" and depth: "d + json_depth (JNode kind js) \<le> JSON_DEPTH"
    and status: "rd_status r = JSON_READ_OK"
  shows "reads_as grant r res (flat (val_count r) (byte_count r) (JNode kind js)) (jbytess js)
    (length (items False (kind = JSON_OBJECT) js) + 2)"
proof -
  let ?v = "\<lparr>jv_kind = kind, jv_end = val_count r + 1, jv_at = byte_count r, jv_size = 0\<rparr>"
  have d: "\<not> d \<ge> JSON_DEPTH" using depth by simp
  obtain i r1 where p: "push grant r kind = (i, r1)" by fastforce
  note s1 = push_reads [OF status p]
  show ?thesis
  proof (cases i)
    case None
    then have "lost grant (held r + 1) (False, r1)" using s1 by (simp add: reads_as_def)
    then have "lost grant (held r + (1 + nodess js) + length (jbytess js)) (False, r1)" by (rule lost_mono) simp
    then show ?thesis using run d p None by (simp add: reads_as_def length_flats)
  next
    case (Some index)
    note g1 = push_Some [OF p [unfolded Some]]
    let ?r2 = "advance r1"
    have g: "grew r ?r2 [?v] []" "rd_at ?r2 = rd_at r + 1" using g1 by simp_all
    have n: "val_count ?r2 = val_count r + 1" "byte_count ?r2 = byte_count r" "rd_status ?r2 = JSON_READ_OK"
      using g(1) status by (simp_all add: grew_def)
    have d2: "drop (rd_at ?r2) src = items False (kind = JSON_OBJECT) js @ close_of kind # rest"
      using drop_Cons_nth(3) [OF src] g(2) by simp
    show ?thesis
    proof (cases "js = []")
      case True
      then have e: "items False (kind = JSON_OBJECT) js = []" by (cases "kind = JSON_OBJECT") simp_all
      then have s: "skip_space src ?r2 = ?r2" using skip_space_none [of ?r2 src "close_of kind" rest] d2 close_not_space by simp
      moreover have "at_byte src ?r2 [close_of kind]" using d2 e by (simp add: at_byte_starts starts_def)
      ultimately have "res = (True, advance ?r2)" using run d p Some by (simp add: Let_def)
      then show ?thesis using True g e by (simp add: reads_as_def)
    next
      case False
      have ok': "kind = JSON_ARRAY \<or> kind = JSON_OBJECT" "kind = JSON_OBJECT \<longrightarrow> keyed js" "jsons_ok js"
        using ok by auto
      obtain b bs where b: "items False (kind = JSON_OBJECT) js = b # bs" "\<not> json_space b" "b \<noteq> 0x5D" "b \<noteq> 0x7D"
        using items_starts [OF False ok'(2,3)] by blast
      have s: "skip_space src ?r2 = ?r2" using skip_space_none [of ?r2 src b] d2 b by simp
      have "\<not> at_byte src ?r2 [close_of kind]" using d2 b by (simp add: at_byte_starts starts_def close_of_def)
      then have run': "read_members fuel grant src d kind index ?r2 = Some res" using run d p Some s by (simp add: Let_def)
      have "closes_as grant ?r2 index res (flats (val_count ?r2) (byte_count ?r2) js) (jbytess js)
          (length (items False (kind = JSON_OBJECT) js) + 1)"
        using mem [unfolded members_read_back_def, rule_format, OF run' d2 False ok'(1) _ ok'(3)] ok'(2) depth g1(1) n by simp
      moreover have "grew r (snd res) (flat (val_count r) (byte_count r) (JNode kind js)) (jbytess js)"
        if "closes ?r2 (snd res) index (flats (val_count ?r2) (byte_count ?r2) js) (jbytess js)"
        using closes_grew [OF g(1) that g1(1)] g1(1) n by (simp add: length_flats)
      ultimately show ?thesis
        using g(2) n(1,2) unfolding closes_as_def reads_as_def by (simp add: length_flats ac_simps) blast
    qed
  qed
qed

text \<open>The branch \<open>read_value\<close> takes by the byte at the cursor.\<close>

lemma read_value_at:
  assumes "drop (rd_at r) src = b # rest" and "\<not> json_space b"
  shows "read_value (Suc fuel) grant src d r =
    (if b = 0x7B then read_container fuel grant src d JSON_OBJECT r
     else if b = 0x5B then read_container fuel grant src d JSON_ARRAY r
     else if b = 0x22 then Some (read_string grant src r)
     else if b = 0x74 then Some (read_word grant src (asc ''true'') JSON_TRUE r)
     else if b = 0x66 then Some (read_word grant src (asc ''false'') JSON_FALSE r)
     else if b = 0x6E then Some (read_word grant src (asc ''null'') JSON_NULL r)
     else if b = 0x2D \<or> digit_byte b then Some (read_number grant src r)
     else Some (jfail r JSON_READ_MALFORMED))"
proof -
  have "skip_space src r = r" using assms by (rule skip_space_none)
  moreover have "rd_at r < length src" "src ! rd_at r = b" using drop_Cons_nth [OF assms(1)] by simp_all
  ultimately show ?thesis by (simp add: Let_def)
qed

lemma leaf_reads_back:
  assumes run: "read_value (Suc fuel) grant src d r = Some res"
    and src: "drop (rd_at r) src = print (JLeaf k bs) @ rest" and ok: "leaf_ok k bs"
    and rest: "after_value rest" and status: "rd_status r = JSON_READ_OK"
  shows "reads_as grant r res (flat (val_count r) (byte_count r) (JLeaf k bs)) bs (length (print (JLeaf k bs)))"
proof (cases k)
  case JSON_NULL
  then have d: "drop (rd_at r) src = 0x6E # asc ''ull'' @ rest" using src by simp
  have "res = read_word grant src (asc ''null'') JSON_NULL r"
    using run read_value_at [OF d] by (simp add: json_space_def del: read_value.simps asc_Cons)
  then show ?thesis
    using read_word_reads [of r src "asc ''null''" rest grant JSON_NULL] src status ok JSON_NULL by simp
next
  case JSON_FALSE
  then have d: "drop (rd_at r) src = 0x66 # asc ''alse'' @ rest" using src by simp
  have "res = read_word grant src (asc ''false'') JSON_FALSE r"
    using run read_value_at [OF d] by (simp add: json_space_def del: read_value.simps asc_Cons)
  then show ?thesis
    using read_word_reads [of r src "asc ''false''" rest grant JSON_FALSE] src status ok JSON_FALSE by simp
next
  case JSON_TRUE
  then have d: "drop (rd_at r) src = 0x74 # asc ''rue'' @ rest" using src by simp
  have "res = read_word grant src (asc ''true'') JSON_TRUE r"
    using run read_value_at [OF d] by (simp add: json_space_def del: read_value.simps asc_Cons)
  then show ?thesis
    using read_word_reads [of r src "asc ''true''" rest grant JSON_TRUE] src status ok JSON_TRUE by simp
next
  case JSON_NUMBER
  then have n: "number_ok bs" using ok by simp
  then obtain b bs' where b: "bs = b # bs'" "b = 0x2D \<or> digit_byte b" using number_hd by blast
  have d: "drop (rd_at r) src = b # bs' @ rest" using src b JSON_NUMBER by simp
  have "\<not> json_space b" "b \<noteq> 0x7B" "b \<noteq> 0x5B" "b \<noteq> 0x22" "b \<noteq> 0x74" "b \<noteq> 0x66" "b \<noteq> 0x6E"
    using b(2) digit_no_space [of b] digit_not [of b] by (auto simp: json_space_def)
  then have "res = read_number grant src r" using run read_value_at [OF d] b(2) by (simp del: read_value.simps)
  then show ?thesis using read_number_reads [of r src bs rest grant] src n rest status JSON_NUMBER by simp
next
  case JSON_STRING
  then have d: "drop (rd_at r) src = 0x22 # escape_all bs @ 0x22 # rest" using src by (simp add: print_string_def)
  have "res = read_string grant src r"
    using run read_value_at [OF d] by (simp add: json_space_def del: read_value.simps)
  then show ?thesis
    using read_string_reads [of r src bs rest grant] src status JSON_STRING by simp
qed (use ok in simp_all)

lemma node_reads_back:
  assumes mem: "members_read_back (fuel - 1) grant src" and run: "read_value (Suc fuel) grant src d r = Some res"
    and src: "drop (rd_at r) src = print (JNode kind js) @ rest" and ok: "json_ok (JNode kind js)"
    and depth: "d + json_depth (JNode kind js) \<le> JSON_DEPTH" and status: "rd_status r = JSON_READ_OK"
  shows "reads_as grant r res (flat (val_count r) (byte_count r) (JNode kind js)) (jbytess js)
    (length (print (JNode kind js)))"
proof -
  define c :: byte where "c = (if kind = JSON_OBJECT then 0x7B else 0x5B)"
  have kind: "kind = JSON_ARRAY \<or> kind = JSON_OBJECT" using ok by auto
  have d: "drop (rd_at r) src = c # items False (kind = JSON_OBJECT) js @ close_of kind # rest"
    using src kind by (auto simp: c_def close_of_def)
  have "\<not> json_space c" by (simp add: c_def json_space_def)
  then have con: "read_container fuel grant src d kind r = Some res"
    using run read_value_at [OF d] kind by (auto simp: c_def simp del: read_value.simps split: if_splits)
  then obtain f where f: "fuel = Suc f" by (cases fuel) simp_all
  have "length (print (JNode kind js)) = length (items False (kind = JSON_OBJECT) js) + 2" using kind by auto
  then show ?thesis
    using container_reads_back [OF _ con [unfolded f] d ok depth status] mem f by simp
qed

lemma reader_reads_back:
  "value_reads_back fuel grant src \<and> members_read_back fuel grant src \<and> members_read_back (fuel - 1) grant src"
proof (induction fuel)
  case 0
  show ?case by (simp add: value_reads_back_def members_read_back_def)
next
  case (Suc fuel)
  have "value_reads_back (Suc fuel) grant src" unfolding value_reads_back_def
  proof (intro allI impI)
    fix d r res j rest
    assume a: "read_value (Suc fuel) grant src d r = Some res" "drop (rd_at r) src = print j @ rest" "json_ok j"
      "d + json_depth j \<le> JSON_DEPTH" "after_value rest" "rd_status r = JSON_READ_OK"
    show "reads_as grant r res (flat (val_count r) (byte_count r) j) (jbytes j) (length (print j))"
    proof (cases j)
      case (JLeaf k bs)
      then show ?thesis using leaf_reads_back [OF a(1) a(2) [unfolded JLeaf] _ a(5,6)] a(3) by simp
    next
      case (JNode kind js)
      then show ?thesis
        using node_reads_back [OF _ a(1) a(2-4) [unfolded JNode] a(6)] Suc.IH by simp
    qed
  qed
  then show ?case using Suc.IH members_read_back_step by simp
qed

text \<open>The whole text.\<close>

lemma json_read_print:
  assumes "json_ok j" and "json_depth j \<le> JSON_DEPTH"
  obtains st out where "json_read grant tree (print j) = Some (st, out)"
    and "st = JSON_READ_OK \<and> tree_of j out \<or> st = JSON_READ_FAILED \<and> refuses grant (nodes j + length (jbytes j))"
proof -
  let ?src = "print j" and ?r = "reader_start tree"
  obtain ok r where run: "read_value (3 * length ?src + 2) grant ?src 0 ?r = Some (ok, r)"
    using reader_total(1) [of ?r ?src 0 "3 * length ?src + 2" grant] by fastforce
  have s: "reads_as grant ?r (ok, r) (flat 0 0 j) (jbytes j) (length ?src)"
    using reader_reads_back [unfolded value_reads_back_def, THEN conjunct1, rule_format, OF run, of j "[]"] assms by simp
  show thesis
  proof (cases ok)
    case True
    then have g: "grew ?r r (flat 0 0 j) (jbytes j)" "rd_at r = length ?src" using s by (auto simp: reads_as_def lost_def)
    then have "skip_space ?src r = r" by (subst skip_space_def, subst skip_while.simps) simp
    then have "json_read grant tree ?src = Some (JSON_READ_OK, rd_tree r)"
      using run True g by (simp add: json_read_def Let_def grew_def del: read_value.simps)
    moreover have "tree_of j (rd_tree r)" using g(1) by (simp add: grew_def tree_of_def)
    ultimately show ?thesis using that by blast
  next
    case False
    then have "rd_status r = JSON_READ_FAILED" "refuses grant (nodes j + length (jbytes j))"
      using s by (auto simp: reads_as_def lost_def length_flat)
    moreover have "json_read grant tree ?src = Some (rd_status r, rd_tree r)"
      using run False by (simp add: json_read_def Let_def del: read_value.simps)
    ultimately show ?thesis using that by blast
  qed
qed

subsection \<open>An allocator that grants every request\<close>

lemma widen_loop_grants:
  "0 < nxt \<Longrightarrow> need \<le> SIZE_MAX div 2 div width \<Longrightarrow> widen_loop need width nxt \<noteq> None"
proof (induction need width nxt rule: widen_loop.induct)
  case (1 need width nxt)
  show ?case using 1 by (simp add: widen_loop.simps [of need width nxt])
qed

lemma grants_do_not_refuse: "n < 2 ^ 58 \<Longrightarrow> \<not> refuses (\<lambda>width n. True) n"
proof
  assume n: "n < 2 ^ 58" and "refuses (\<lambda>width n. True) n"
  then obtain capacity need width where w: "need \<le> n" "width = 1 \<or> width = 32"
    "widen (\<lambda>width n. True) capacity need width = None" unfolding refuses_def by auto
  have "need \<le> SIZE_MAX div 2 div width" using w(1,2) n by (auto simp: SIZE_MAX_def)
  then have "widen_loop need width (if capacity < 64 then 64 else capacity) \<noteq> None"
    by (intro widen_loop_grants) simp_all
  then show False using w(3) by (auto simp: widen_def split: if_splits)
qed

subsection \<open>Integers and members\<close>

lemma tdiv_step: "- int m < tdiv (INT64_MIN + int d) 10 \<longleftrightarrow> 2 ^ 63 < int (m * 10 + d)" if "d < 10"
proof -
  have neg: "INT64_MIN + int d < 0" using that by (simp add: INT64_MIN_def)
  have div: "x div 10 < y \<longleftrightarrow> x < y * 10" for x y :: int by presburger
  have "- int m < - ((2 ^ 63 - int d) div 10) \<longleftrightarrow> (2 ^ 63 - int d) div 10 < int m" by linarith
  also have "\<dots> \<longleftrightarrow> 2 ^ 63 < int (m * 10 + d)" unfolding div by auto
  finally show ?thesis using neg by (simp add: tdiv_def INT64_MIN_def)
qed

lemma integer_loop_value:
  "\<forall>b \<in> set bs. digit_byte b \<Longrightarrow> int m \<le> 2 ^ 63 \<Longrightarrow>
   integer_loop (- int m) bs = (if int (digits_from m bs) \<le> 2 ^ 63 then Some (- int (digits_from m bs)) else None)"
proof (induction bs arbitrary: m)
  case (Cons b bs)
  have b: "digit_byte b" "48 \<le> unat b" using Cons.prems(1) by (simp_all add: digit_byte_unat)
  have d: "int (unat b) - 0x30 = int (digit_value b)" using b(2) by (simp add: digit_value_def)
  have e: "- int m * 10 - int (digit_value b) = - int (m * 10 + digit_value b)" by simp
  show ?case
  proof (cases "2 ^ 63 < int (m * 10 + digit_value b)")
    case True
    have "m * 10 + digit_value b \<le> digits_from (m * 10 + digit_value b) bs" by (rule digits_from_ge)
    then have "\<not> int (digits_from m (b # bs)) \<le> 2 ^ 63" using True by simp
    moreover have "integer_loop (- int m) (b # bs) = None"
      using True b(1) tdiv_step [OF digit_value_less [OF b(1)], of m]
      by (simp only: integer_loop.simps Let_def d simp_thms if_True if_False)
    ultimately show ?thesis by simp
  next
    case False
    have "integer_loop (- int m) (b # bs) = integer_loop (- int (m * 10 + digit_value b)) bs"
      using False b(1) tdiv_step [OF digit_value_less [OF b(1)], of m]
      by (simp only: integer_loop.simps Let_def d e simp_thms if_True if_False)
    then show ?thesis using Cons.IH [of "m * 10 + digit_value b"] Cons.prems(1) False by simp
  qed
qed simp

lemma integer_loop_decimal:
  "integer_loop 0 (decimal n) = (if int n \<le> 2 ^ 63 then Some (- int n) else None)"
  using integer_loop_value [of "decimal n" 0] decimal_digits by (simp add: decimal_value)

lemma decimal_hd_digit: "digit_byte (decimal n ! 0)"
  using decimal_digits [of "decimal n ! 0" n] decimal_not_Nil by simp

fun pairs :: "json list \<Rightarrow> (byte list \<times> json) list" where
  "pairs (JLeaf JSON_STRING k # v # js) = (k, v) # pairs js"
| "pairs _ = []"

lemma json_is_leaf:
  "holds tree i b (JLeaf JSON_STRING k # js) \<Longrightarrow> json_is tree (Some i) key \<longleftrightarrow> k = key"
  using holds_head [of tree i b "JLeaf JSON_STRING k" js] holds_bytes [of tree i b JSON_STRING k js]
  by (auto simp: json_is_def)

lemma member_loop_finds:
  "holds tree i b js \<Longrightarrow> keyed js \<Longrightarrow> jv_end (jt_values tree ! c) = i + nodess js \<Longrightarrow>
   \<exists>found. member_loop tree c key (if js = [] then None else Some i) = Some found \<and>
     (case found of
        None \<Rightarrow> map_of (pairs js) key = None
      | Some m \<Rightarrow> \<exists>v off. map_of (pairs js) key = Some v \<and> holds tree m off [v])"
proof (induction js arbitrary: i b rule: keyed.induct)
  case 1
  show ?case by (subst member_loop.simps) simp
next
  case (2 k v js)
  have h: "holds tree i b (JLeaf JSON_STRING k # v # js)" using 2(2) .
  have hv: "holds tree (i + 1) (b + length k) (v # js)" using holds_Cons(2) [OF h] by simp
  note hv1 = holds_Cons [OF hv]
  have nx: "json_next tree c (i + 1) = (if js = [] then None else Some (i + 1 + nodes v))"
    using next_member [OF hv] 2(4) by simp
  show ?case
  proof (cases "k = key")
    case True
    then have "member_loop tree c key (Some i) = Some (Some (i + 1))"
      using json_is_leaf [OF h] by (subst member_loop.simps) simp
    then show ?thesis using True hv1(1) by auto
  next
    case False
    then have "member_loop tree c key (Some i) = member_loop tree c key (if js = [] then None else Some (i + 1 + nodes v))"
      using json_is_leaf [OF h] nx by (subst member_loop.simps) simp
    moreover have "map_of (pairs (JLeaf JSON_STRING k # v # js)) key = map_of (pairs js) key" using False by simp
    moreover have "keyed js" "jv_end (jt_values tree ! c) = i + 1 + nodes v + nodess js" using 2(3,4) by simp_all
    moreover obtain found where "member_loop tree c key (if js = [] then None else Some (i + 1 + nodes v)) = Some found"
      "case found of None \<Rightarrow> map_of (pairs js) key = None
       | Some m \<Rightarrow> \<exists>v off. map_of (pairs js) key = Some v \<and> holds tree m off [v]"
      using 2(1) [OF hv1(2)] 2(3,4) by (auto simp: add.assoc)
    ultimately show ?thesis by (cases found) (simp_all del: pairs.simps)
  qed
qed simp_all

lemma json_integer_spelled:
  assumes "holds tree i b [JLeaf JSON_NUMBER (spell_int n)]" and "- (2 ^ 63) \<le> lo" and "hi < 2 ^ 63"
  shows "json_integer tree (Some i) lo hi = (if lo \<le> n \<and> n \<le> hi then Some n else None)"
proof -
  note k = holds_kind(1) [OF assms(1)] and bs = holds_bytes [OF assms(1)]
  show ?thesis
  proof (cases "n < 0")
    case True
    have "drop 1 (spell_int n) = decimal (nat (- n))" "spell_int n ! 0 = 0x2D" using True by (simp_all add: spell_int_def)
    then show ?thesis using k bs assms(2,3) integer_loop_decimal [of "nat (- n)"] True
      by (auto simp: json_integer_def Let_def)
  next
    case False
    have "spell_int n ! 0 \<noteq> 0x2D" using decimal_hd_digit [of "nat n"] False by (auto simp: spell_int_def digit_byte_def)
    moreover have "drop 0 (spell_int n) = decimal (nat n)" using False by (simp add: spell_int_def)
    ultimately show ?thesis using k bs assms(2,3) integer_loop_decimal [of "nat n"] False
      by (auto simp: json_integer_def Let_def INT64_MIN_def)
  qed
qed

lemma json_member_finds:
  assumes "holds tree i b [JNode JSON_OBJECT js]" and "keyed js"
  obtains found where "json_member tree (Some i) key = Some found"
    and "case found of None \<Rightarrow> map_of (pairs js) key = None
         | Some m \<Rightarrow> \<exists>v off. map_of (pairs js) key = Some v \<and> holds tree m off [v]"
proof -
  have "json_first tree i = (if js = [] then None else Some (i + 1))" using first_member [OF assms(1)] .
  moreover have "jv_kind (jt_values tree ! i) = JSON_OBJECT" using holds_kind(2) [OF assms(1)] .
  moreover have "jv_end (jt_values tree ! i) = i + 1 + nodess js" using holds_head [OF assms(1)] by simp
  ultimately show thesis
    using member_loop_finds [OF holds_node [OF assms(1)] assms(2), of i key] that by (auto simp: json_member_def)
qed

definition sample_tree :: json_tree where
  "sample_tree = \<lparr>jt_values = [], jt_capacity = 0, jt_bytes = [], jt_room = 0\<rparr>"

lemma sample_read:
  "json_read (\<lambda>w n. True) sample_tree (asc ''[1,{\"a\":\"b\"}]'') =
   Some (JSON_READ_OK,
     \<lparr>jt_values =
        [\<lparr>jv_kind = JSON_ARRAY, jv_end = 5, jv_at = 0, jv_size = 0\<rparr>,
         \<lparr>jv_kind = JSON_NUMBER, jv_end = 2, jv_at = 0, jv_size = 1\<rparr>,
         \<lparr>jv_kind = JSON_OBJECT, jv_end = 5, jv_at = 1, jv_size = 0\<rparr>,
         \<lparr>jv_kind = JSON_STRING, jv_end = 4, jv_at = 1, jv_size = 1\<rparr>,
         \<lparr>jv_kind = JSON_STRING, jv_end = 5, jv_at = 2, jv_size = 1\<rparr>],
      jt_capacity = 64, jt_bytes = asc ''1ab'', jt_room = 64\<rparr>)"
  by code_simp

subsection \<open>Properties\<close>

text \<open>
  C32: The reader returns on every text, whatever the allocator answers and whatever the tree
  held: no nesting, no malformed escape and no truncated text keeps it from answering.
\<close>

theorem json_read_terminates:
  "\<exists>st out. json_read grant tree src = Some (st, out)"
  using json_read_returns [of grant tree src] by fastforce

text \<open>
  C15: An accepted text leaves a well-formed tree.  When the reader answers OK, the values and
  the bytes are exactly the flat tree of one JSON value: each container's end is the index after
  its last descendant, an object's members are a string key and a value in turn, each number's
  bytes spell a number of the grammar, and the nesting is at most 512.
\<close>

theorem json_read_tree_well_formed:
  assumes "json_read grant tree src = Some (JSON_READ_OK, out)"
  shows "\<exists>j. json_ok j \<and> json_depth j \<le> JSON_DEPTH \<and> tree_of j out"
  using assms by (rule json_read_sound)

theorem json_read_tree_well_formed_witness:
  "\<exists>j. json_ok j \<and> json_depth j \<le> JSON_DEPTH \<and>
     tree_of j (snd (the (json_read (\<lambda>w n. True) sample_tree (asc ''[1,{\"a\":\"b\"}]''))))"
  using json_read_tree_well_formed [OF sample_read] by (simp only: sample_read option.sel snd_conv)

text \<open>
  C14: What the writer writes of a tree, the reader reads back as that tree.  Take any tree the
  reader can produce; \<open>json_out_value\<close> returns on it, and if no append was lost, the reader
  reads the written bytes back to the same values and the same bytes, failing only if the
  allocator refuses a request no larger than the tree itself.
\<close>

theorem json_written_tree_reads_back:
  assumes "json_read grant tree src = Some (JSON_READ_OK, parsed)"
    and "jo_data out = []" and "2 * length (jt_values parsed) \<le> fuel"
  shows "\<exists>out'. json_out_value fuel grant' parsed (json_root parsed) out = Some out' \<and>
    (jo_failed out' \<or>
      (\<exists>again. json_read grant'' tree'' (jo_data out') = Some (JSON_READ_OK, again) \<and>
         jt_values again = jt_values parsed \<and> jt_bytes again = jt_bytes parsed) \<or>
      (\<exists>again. json_read grant'' tree'' (jo_data out') = Some (JSON_READ_FAILED, again)) \<and>
         refuses grant'' (length (jt_values parsed) + length (jt_bytes parsed)))"
proof -
  obtain j where j: "json_ok j" "json_depth j \<le> JSON_DEPTH" "tree_of j parsed"
    using json_read_sound [OF assms(1)] by blast
  have n: "length (jt_values parsed) = nodes j" "length (jt_bytes parsed) = length (jbytes j)"
    using j(3) by (simp_all add: tree_of_def length_flat)
  obtain out' where out': "json_out_value fuel grant' parsed 0 out = Some out'" "writes grant' out out' (print j)"
    using writer_prints(1) [OF tree_of_holds [OF j(3)] j(1), of fuel grant' out] assms(3) n(1) by auto
  obtain st again where again: "json_read grant'' tree'' (print j) = Some (st, again)"
    "st = JSON_READ_OK \<and> tree_of j again \<or> st = JSON_READ_FAILED \<and> refuses grant'' (nodes j + length (jbytes j))"
    using json_read_print [OF j(1,2)] by blast
  have "jo_data out' = print j" if "\<not> jo_failed out'" using writes_content [OF out'(2) that] assms(2) by simp
  moreover have "jt_values again = jt_values parsed \<and> jt_bytes again = jt_bytes parsed" if "tree_of j again"
    using that j(3) by (simp add: tree_of_def)
  ultimately show ?thesis using out'(1) again n unfolding json_root_def by metis
qed

definition empty_out :: json_out where
  "empty_out = \<lparr>jo_data = [], jo_capacity = 0, jo_failed = False\<rparr>"

definition sample_parsed :: json_tree where
  "sample_parsed = snd (the (json_read (\<lambda>w n. True) sample_tree (asc ''[1,{\"a\":\"b\"}]'')))"

theorem json_written_tree_reads_back_witness:
  "\<exists>out'. json_out_value 10 (\<lambda>w n. True) sample_parsed (json_root sample_parsed) empty_out = Some out'"
proof -
  have s: "json_read (\<lambda>w n. True) sample_tree (asc ''[1,{\"a\":\"b\"}]'') = Some (JSON_READ_OK, sample_parsed)"
    unfolding sample_parsed_def by (simp only: sample_read option.sel snd_conv)
  have n: "2 * length (jt_values sample_parsed) \<le> 10"
    unfolding sample_parsed_def by (simp only: sample_read option.sel snd_conv) simp
  have e: "jo_data empty_out = []" by (simp add: empty_out_def)
  show ?thesis using json_written_tree_reads_back [OF s e n] by blast
qed

text \<open>
  C33: With an allocator that grants, the writer's spelling of every value of the grammar nested
  at most 512 deep is accepted, and leaves that value's tree; in particular every byte of every
  string survives its escaping, well-formed UTF-8 or not.
\<close>

theorem json_spelling_accepted:
  assumes "json_ok j" and "json_depth j \<le> JSON_DEPTH" and "nodes j + length (jbytes j) < 2 ^ 58"
  shows "\<exists>out. json_read (\<lambda>w n. True) tree (print j) = Some (JSON_READ_OK, out) \<and> tree_of j out"
  using json_read_print [OF assms(1,2), of "\<lambda>w n. True" tree] grants_do_not_refuse [OF assms(3)] by metis

theorem json_spelling_accepted_witness:
  "\<exists>out. json_read (\<lambda>w n. True) sample_tree (print (JNode JSON_ARRAY [JLeaf JSON_STRING [0, 0x22, 0xFF]])) =
       Some (JSON_READ_OK, out) \<and> tree_of (JNode JSON_ARRAY [JLeaf JSON_STRING [0, 0x22, 0xFF]]) out"
  by (rule json_spelling_accepted) (simp_all add: JSON_DEPTH_def)

text \<open>
  \<open>json_integer\<close> is exact at every width.  On a number spelled as an integer \<open>n\<close>, however
  large, it answers \<open>n\<close> when \<open>n\<close> lies in the range asked for and refuses it otherwise, for every
  range within \<open>int64_t\<close>; in particular \<open>INT64_MIN\<close> is read and nothing wraps.
\<close>

lemma json_integer_exact:
  assumes "holds tree i b [JLeaf JSON_NUMBER (spell_int n)]" and "- (2 ^ 63) \<le> lo" and "hi < 2 ^ 63"
  shows "json_integer tree (Some i) lo hi = (if lo \<le> n \<and> n \<le> hi then Some n else None)"
  using assms by (rule json_integer_spelled)

theorem json_integer_exact_witness:
  "json_integer \<lparr>jt_values = flat 0 0 (JLeaf JSON_NUMBER (spell_int (- 42))), jt_capacity = 1,
       jt_bytes = spell_int (- 42), jt_room = 20\<rparr> (Some 0) (- 100) 100 = Some (- 42)"
proof -
  let ?j = "JLeaf JSON_NUMBER (spell_int (- 42))"
  let ?tree = "\<lparr>jt_values = flat 0 0 ?j, jt_capacity = 1, jt_bytes = spell_int (- 42), jt_room = 20\<rparr>"
  have "tree_of ?j ?tree" by (simp add: tree_of_def)
  then have h: "holds ?tree 0 0 [?j]" by (rule tree_of_holds)
  have "- (2 ^ 63) \<le> (- 100 :: int)" "(100 :: int) < 2 ^ 63" by simp_all
  from json_integer_exact [OF h this] show ?thesis by (simp del: flat.simps)
qed

text \<open>
  C39: \<open>json_member\<close> returns on every object of a tree and finds the object's first member of the
  name, or nothing when the object has none: what it answers is the lookup of the key in the
  object's members in order, and the index it answers holds the value of that member.
\<close>

theorem json_member_is_lookup:
  assumes "holds tree i b [JNode JSON_OBJECT js]" and "keyed js"
  shows "\<exists>found. json_member tree (Some i) key = Some found \<and>
    (case found of
       None \<Rightarrow> map_of (pairs js) key = None
     | Some m \<Rightarrow> \<exists>v off. map_of (pairs js) key = Some v \<and> holds tree m off [v])"
  by (rule json_member_finds [OF assms]) (intro exI conjI)

theorem json_member_is_lookup_witness:
  "\<exists>found. json_member \<lparr>jt_values = flat 0 0 (JNode JSON_OBJECT [JLeaf JSON_STRING [0x61], JLeaf JSON_TRUE []]),
      jt_capacity = 3, jt_bytes = [0x61], jt_room = 1\<rparr> (Some 0) [0x61] = Some found"
proof -
  let ?j = "JNode JSON_OBJECT [JLeaf JSON_STRING [0x61], JLeaf JSON_TRUE []]"
  let ?tree = "\<lparr>jt_values = flat 0 0 ?j, jt_capacity = 3, jt_bytes = [0x61], jt_room = 1\<rparr>"
  have "tree_of ?j ?tree" by (simp add: tree_of_def)
  then have h: "holds ?tree 0 0 [?j]" by (rule tree_of_holds)
  have k: "keyed [JLeaf JSON_STRING [0x61], JLeaf JSON_TRUE []]" by simp
  show ?thesis using json_member_is_lookup [OF h k, of "[0x61]"] by blast
qed

end
