(* ===== verification/Adapter.thy ===== *)
theory Adapter
  imports Server JsonRound "HOL-Library.Monad_Syntax"
begin

text \<open>
  lsp/adapter.c: one protocol message in, at most one answer out.  The adapter reads a body as
  JSON, calls the server for the method it names and writes the answer.  A value of the message is
  the index of its node, \<open>None\<close> for NULL.  An operation's value is \<open>None\<close> when a loop does not
  return.  The stored edits are kept by the capacity of their array; the ones of one change are
  the list the loop builds.
\<close>

record allocs =
  al_json :: grants
  al_server :: "alloc_site \<Rightarrow> bool"
  al_edits :: "nat \<Rightarrow> bool"

record 's adapter =
  ad_server :: "'s lsp_server"
  ad_tree :: json_tree
  ad_out :: json_out
  ad_room :: nat
  ad_exited :: bool

definition RPC_PARSE_ERROR :: int where "RPC_PARSE_ERROR = -32700"
definition RPC_INVALID_REQUEST :: int where "RPC_INVALID_REQUEST = -32600"
definition RPC_METHOD_NOT_FOUND :: int where "RPC_METHOD_NOT_FOUND = -32601"
definition RPC_INVALID_PARAMS :: int where "RPC_INVALID_PARAMS = -32602"
definition RPC_INTERNAL_ERROR :: int where "RPC_INTERNAL_ERROR = -32603"

text \<open>The values of \<open>markdown_core_lsp_status\<close>.\<close>

fun status_code :: "lsp_status \<Rightarrow> int" where
  "status_code LSP_OK = 0"
| "status_code LSP_SERVER_NOT_INITIALIZED = -32002"
| "status_code LSP_INVALID_REQUEST = -32600"
| "status_code LSP_INVALID_PARAMS = -32602"
| "status_code LSP_INTERNAL_ERROR = -32603"

definition reason :: "int \<Rightarrow> string" where
  "reason code =
     (if code = RPC_PARSE_ERROR then ''the message is not JSON''
      else if code = RPC_INVALID_REQUEST then ''the message is not a request the server takes now''
      else if code = RPC_METHOD_NOT_FOUND then ''the server has no such method''
      else if code = RPC_INVALID_PARAMS then ''the params are not the method's''
      else if code = status_code LSP_SERVER_NOT_INITIALIZED then ''the server is not initialized''
      else ''the server failed'')"

definition adapter_open :: "(alloc_site \<Rightarrow> bool) \<Rightarrow> 's adapter option" where
  "adapter_open grant =
     map_option (\<lambda>sv. \<lparr>ad_server = sv, ad_tree = \<lparr>jt_values = [], jt_capacity = 0, jt_bytes = [], jt_room = 0\<rparr>,
         ad_out = \<lparr>jo_data = [], jo_capacity = 0, jo_failed = False\<rparr>, ad_room = 0, ad_exited = False\<rparr>)
       (server_new grant)"

definition adapter_code :: "'s adapter \<Rightarrow> int" where
  "adapter_code self = (if sv_phase (ad_server self) = HALTED then 0 else 1)"

subsection \<open>Answers\<close>

definition raw :: "allocs \<Rightarrow> string \<Rightarrow> 's adapter \<Rightarrow> 's adapter" where
  "raw al s self = self\<lparr>ad_out := json_out_raw (al_json al) (ad_out self) s\<rparr>"

definition answer :: "allocs \<Rightarrow> 's adapter \<Rightarrow> nat option \<Rightarrow> 's adapter option" where
  "answer al self ident =
     (let self = raw al ''{\"jsonrpc\":\"2.0\",\"id\":'' self
      in case ident of
           Some i \<Rightarrow> map_option (\<lambda>out. self\<lparr>ad_out := out\<rparr>)
             (json_out_value (2 * length (jt_values (ad_tree self))) (al_json al) (ad_tree self) i (ad_out self))
         | None \<Rightarrow> Some (raw al ''null'' self))"

definition answer_error :: "allocs \<Rightarrow> 's adapter \<Rightarrow> nat option \<Rightarrow> int \<Rightarrow> 's adapter option" where
  "answer_error al self ident code =
     do {
       self \<leftarrow> answer al self ident;
       let self = raw al '',\"error\":{\"code\":'' self;
       let self = self\<lparr>ad_out := json_out_integer (al_json al) (ad_out self) code\<rparr>;
       let self = raw al '',\"message\":'' self;
       let self = self\<lparr>ad_out := json_out_text (al_json al) (ad_out self) (reason code)\<rparr>;
       Some (raw al ''}}'' self)
     }"

subsection \<open>Reading the params\<close>

definition UINT32_MAX :: int where
  "UINT32_MAX = 2 ^ 32 - 1"

definition kind_is :: "json_tree \<Rightarrow> nat option \<Rightarrow> json_kind \<Rightarrow> bool" where
  "kind_is tree x kind \<longleftrightarrow> (case x of None \<Rightarrow> False | Some i \<Rightarrow> jv_kind (jt_values tree ! i) = kind)"

definition read_position :: "json_tree \<Rightarrow> nat option \<Rightarrow> lsp_position option option" where
  "read_position tree value =
     do {
       line \<leftarrow> json_member tree value (asc ''line'');
       case json_integer tree line 0 UINT32_MAX of
         None \<Rightarrow> Some None
       | Some l \<Rightarrow> do {
           character \<leftarrow> json_member tree value (asc ''character'');
           Some (map_option (\<lambda>c. (nat l, nat c)) (json_integer tree character 0 UINT32_MAX))
         }
     }"

definition read_scope :: "json_tree \<Rightarrow> nat option \<Rightarrow> (lsp_position \<times> lsp_position) option option" where
  "read_scope tree value =
     do {
       start \<leftarrow> json_member tree value (asc ''start'');
       from_pos \<leftarrow> read_position tree start;
       case from_pos of
         None \<Rightarrow> Some None
       | Some a \<Rightarrow> do {
           stop \<leftarrow> json_member tree value (asc ''end'');
           to_pos \<leftarrow> read_position tree stop;
           Some (map_option (Pair a) to_pos)
         }
     }"

definition read_uri :: "json_tree \<Rightarrow> nat option \<Rightarrow> nat option option" where
  "read_uri tree params =
     do {
       document \<leftarrow> json_member tree params (asc ''textDocument'');
       uri \<leftarrow> json_member tree document (asc ''uri'');
       Some (if kind_is tree uri JSON_STRING then uri else None)
     }"

definition read_version :: "json_tree \<Rightarrow> nat option \<Rightarrow> int option option" where
  "read_version tree params =
     do {
       document \<leftarrow> json_member tree params (asc ''textDocument'');
       version \<leftarrow> json_member tree document (asc ''version'');
       Some (json_integer tree version (- (2 ^ 31)) (2 ^ 31 - 1))
     }"

subsection \<open>Requests\<close>

partial_function (option) offered_loop :: "json_tree \<Rightarrow> nat \<Rightarrow> nat option \<Rightarrow> text_unit list \<Rightarrow> text_unit list option" where
  "offered_loop tree offered name units =
     (if name = None then Some units
      else offered_loop tree offered (json_next tree offered (the name))
        (if length units < 2 \<and> json_is tree name (asc ''utf-8'') then units @ [TEXT_UNIT_UTF8]
         else if length units < 2 \<and> json_is tree name (asc ''utf-16'') then units @ [TEXT_UNIT_UTF16]
         else units))"

fun cues_loop :: "grants \<Rightarrow> bool \<Rightarrow> byte list \<Rightarrow> json_out \<Rightarrow> json_out" where
  "cues_loop grant later [] out = out"
| "cues_loop grant later (c # cues) out =
     cues_loop grant True cues (json_out_string grant (if later then json_out_raw grant out '','' else out) [c])"

text \<open>A handler's value is the code and the adapter after it.\<close>

definition initialize :: "'s engine \<Rightarrow> allocs \<Rightarrow> 's adapter \<Rightarrow> nat option \<Rightarrow> nat option \<Rightarrow> (int \<times> 's adapter) option" where
  "initialize engine al self ident params =
     (if \<not> kind_is (ad_tree self) params JSON_OBJECT then Some (RPC_INVALID_PARAMS, self)
      else do {
        let tree = ad_tree self;
        capabilities \<leftarrow> json_member tree params (asc ''capabilities'');
        general \<leftarrow> json_member tree capabilities (asc ''general'');
        offered \<leftarrow> json_member tree general (asc ''positionEncodings'');
        units \<leftarrow> (if kind_is tree offered JSON_ARRAY then offered_loop tree (the offered) (json_first tree (the offered)) []
                  else Some []);
        (case lsp_initialize engine units (ad_server self) of
           (status, None, sv) \<Rightarrow> Some (status_code status, self\<lparr>ad_server := sv\<rparr>)
         | (status, Some (unit, cues), sv) \<Rightarrow>
             do {
               self \<leftarrow> answer al (self\<lparr>ad_server := sv\<rparr>) ident;
               let self = raw al '',\"result\":{\"capabilities\":{\"positionEncoding\":'' self;
               let self = self\<lparr>ad_out := json_out_text (al_json al) (ad_out self)
                            (if unit = TEXT_UNIT_UTF8 then ''utf-8'' else ''utf-16'')\<rparr>;
               let self = raw al '',\"textDocumentSync\":{\"openClose\":true,\"change\":2}'' self;
               let self = raw al '',\"completionProvider\":{\"triggerCharacters\":['' self;
               let self = self\<lparr>ad_out := cues_loop (al_json al) False cues (ad_out self)\<rparr>;
               Some (0, raw al '']}},\"serverInfo\":{\"name\":\"markdown-core\"}}}'' self)
             })
      })"

definition complete :: "'s engine \<Rightarrow> allocs \<Rightarrow> 's adapter \<Rightarrow> nat option \<Rightarrow> nat option \<Rightarrow> (int \<times> 's adapter) option" where
  "complete engine al self ident params =
     do {
       let tree = ad_tree self;
       uri \<leftarrow> read_uri tree params;
       if uri = None then Some (RPC_INVALID_PARAMS, self)
       else do {
         at \<leftarrow> json_member tree params (asc ''position'');
         position \<leftarrow> read_position tree at;
         case position of
           None \<Rightarrow> Some (RPC_INVALID_PARAMS, self)
         | Some position \<Rightarrow> do {
             (status, list, sv) \<leftarrow> lsp_complete engine (al_server al) (ad_server self) (json_bytes tree (the uri)) position;
             let self = self\<lparr>ad_server := sv\<rparr>;
             if status \<noteq> LSP_OK then Some (status_code status, self)
             else do {
               self \<leftarrow> answer al self ident;
               Some (0, raw al '',\"result\":{\"isIncomplete\":false,\"items\":[]}}'' self)
             }
           }
       }
     }"

definition request :: "'s engine \<Rightarrow> allocs \<Rightarrow> 's adapter \<Rightarrow> nat option \<Rightarrow> nat option \<Rightarrow> nat option \<Rightarrow> 's adapter option" where
  "request engine al self ident meth params =
     do {
       let tree = ad_tree self;
       (code, self) \<leftarrow>
         (if json_is tree meth (asc ''initialize'') then initialize engine al self ident params
          else if json_is tree meth (asc ''shutdown'') then
            (let (status, sv) = lsp_shutdown (ad_server self); self = self\<lparr>ad_server := sv\<rparr>
             in if status = LSP_OK then map_option (\<lambda>self. (0, raw al '',\"result\":null}'' self)) (answer al self ident)
                else Some (status_code status, self))
          else if json_is tree meth (asc ''textDocument/completion'') then complete engine al self ident params
          else Some (case sv_phase (ad_server self) of
                       FRESH \<Rightarrow> status_code LSP_SERVER_NOT_INITIALIZED
                     | HALTED \<Rightarrow> RPC_INVALID_REQUEST
                     | ACTIVE \<Rightarrow> RPC_METHOD_NOT_FOUND, self));
       if code \<noteq> 0 then answer_error al self ident code else Some self
     }"

subsection \<open>Notifications\<close>

definition open_document :: "'s engine \<Rightarrow> allocs \<Rightarrow> 's adapter \<Rightarrow> nat option \<Rightarrow> 's adapter option" where
  "open_document engine al self params =
     do {
       let tree = ad_tree self;
       uri \<leftarrow> read_uri tree params;
       document \<leftarrow> json_member tree params (asc ''textDocument'');
       source \<leftarrow> json_member tree document (asc ''text'');
       if uri = None \<or> \<not> kind_is tree source JSON_STRING then Some self
       else do {
         version \<leftarrow> read_version tree params;
         case version of
           None \<Rightarrow> Some self
         | Some version \<Rightarrow> do {
             (_, sv) \<leftarrow> lsp_open engine (al_server al) (ad_server self) (json_bytes tree (the uri)) version
                         (json_bytes tree (the source));
             Some (self\<lparr>ad_server := sv\<rparr>)
           }
       }
     }"

text \<open>Room for one more edit; \<open>None\<close> when it is not had.  An edit is 32 bytes.\<close>

definition edit_room :: "(nat \<Rightarrow> bool) \<Rightarrow> nat \<Rightarrow> nat \<Rightarrow> nat option" where
  "edit_room grant count room =
     (if count = room then
        let room = (if room \<noteq> 0 then room * 2 else 8)
        in if room > SIZE_MAX div 32 \<or> \<not> grant room then None else Some room
      else Some room)"

text \<open>
  The loop over the changes: the capacity then, and the edits, or nothing when a change stopped
  it, and the notification is dropped.
\<close>

partial_function (option) changes_loop ::
  "(nat \<Rightarrow> bool) \<Rightarrow> json_tree \<Rightarrow> nat \<Rightarrow> nat option \<Rightarrow> lsp_edit list \<Rightarrow> nat \<Rightarrow> (nat \<times> lsp_edit list option) option" where
  "changes_loop grant tree changes change edits room =
     (if change = None then Some (room, Some edits)
      else Option.bind (json_member tree change (asc ''text'')) (\<lambda>source.
           Option.bind (json_member tree change (asc ''range'')) (\<lambda>range.
           if \<not> kind_is tree source JSON_STRING then Some (room, None)
           else if edit_room grant (length edits) room = None then Some (room, None)
           else Option.bind (if range = None then Some (Some ((0, 0), (nat UINT32_MAX, nat UINT32_MAX)))
                             else read_scope tree range) (\<lambda>scope.
             if scope = None then Some (the (edit_room grant (length edits) room), None)
             else changes_loop grant tree changes (json_next tree changes (the change))
               (edits @ [\<lparr>ed_start = fst (the scope), ed_end = snd (the scope), ed_text = json_bytes tree (the source)\<rparr>])
               (the (edit_room grant (length edits) room))))))"

definition update_document :: "'s engine \<Rightarrow> allocs \<Rightarrow> 's adapter \<Rightarrow> nat option \<Rightarrow> 's adapter option" where
  "update_document engine al self params =
     do {
       let tree = ad_tree self;
       uri \<leftarrow> read_uri tree params;
       changes \<leftarrow> json_member tree params (asc ''contentChanges'');
       if uri = None \<or> \<not> kind_is tree changes JSON_ARRAY then Some self
       else do {
         version \<leftarrow> read_version tree params;
         case version of
           None \<Rightarrow> Some self
         | Some version \<Rightarrow> do {
             (room, edits) \<leftarrow> changes_loop (al_edits al) tree (the changes) (json_first tree (the changes)) [] (ad_room self);
             let self = self\<lparr>ad_room := room\<rparr>;
             case edits of
               None \<Rightarrow> Some self
             | Some edits \<Rightarrow> do {
                 (_, sv) \<leftarrow> lsp_update engine (ad_server self) (json_bytes tree (the uri)) version edits;
                 Some (self\<lparr>ad_server := sv\<rparr>)
               }
           }
       }
     }"

definition notification :: "'s engine \<Rightarrow> allocs \<Rightarrow> 's adapter \<Rightarrow> nat option \<Rightarrow> nat option \<Rightarrow> 's adapter option" where
  "notification engine al self meth params =
     (let tree = ad_tree self
      in if json_is tree meth (asc ''exit'') then Some (self\<lparr>ad_exited := True\<rparr>)
         else if json_is tree meth (asc ''textDocument/didOpen'') then open_document engine al self params
         else if json_is tree meth (asc ''textDocument/didChange'') then update_document engine al self params
         else if json_is tree meth (asc ''textDocument/didClose'') then
           do {
             uri \<leftarrow> read_uri tree params;
             if uri = None then Some self
             else do {
               (_, sv) \<leftarrow> lsp_close (ad_server self) (json_bytes tree (the uri));
               Some (self\<lparr>ad_server := sv\<rparr>)
             }
           }
         else Some self)"

definition handle_message :: "'s engine \<Rightarrow> allocs \<Rightarrow> 's adapter \<Rightarrow> 's adapter option" where
  "handle_message engine al self =
     do {
       let tree = ad_tree self;
       let message = json_root tree;
       ident \<leftarrow> json_member tree (Some message) (asc ''id'');
       meth \<leftarrow> json_member tree (Some message) (asc ''method'');
       let valid_id = (kind_is tree ident JSON_NUMBER \<or> kind_is tree ident JSON_STRING);
       outcome \<leftarrow> json_member tree (Some message) (asc ''result'');
       failure \<leftarrow> json_member tree (Some message) (asc ''error'');
       if kind_is tree (Some message) JSON_OBJECT \<and> meth = None \<and> ident \<noteq> None \<and> (outcome \<noteq> None \<or> failure \<noteq> None)
       then Some self
       else do {
         rpc \<leftarrow> json_member tree (Some message) (asc ''jsonrpc'');
         if \<not> kind_is tree (Some message) JSON_OBJECT \<or> \<not> json_is tree rpc (asc ''2.0'') \<or>
            \<not> kind_is tree meth JSON_STRING \<or> ident \<noteq> None \<and> \<not> valid_id
         then answer_error al self (if valid_id then ident else None) RPC_INVALID_REQUEST
         else do {
           params \<leftarrow> json_member tree (Some message) (asc ''params'');
           if ident \<noteq> None then request engine al self ident meth params else notification engine al self meth params
         }
       }
     }"

definition adapter_handle :: "'s engine \<Rightarrow> allocs \<Rightarrow> 's adapter \<Rightarrow> byte list \<Rightarrow> 's adapter option" where
  "adapter_handle engine al self body =
     do {
       let self = self\<lparr>ad_out := (ad_out self)\<lparr>jo_data := [], jo_failed := False\<rparr>, ad_exited := False\<rparr>;
       (status, tree) \<leftarrow> json_read (al_json al) (ad_tree self) body;
       let self = self\<lparr>ad_tree := tree\<rparr>;
       if status \<noteq> JSON_READ_OK
       then answer_error al self None (if status = JSON_READ_MALFORMED then RPC_PARSE_ERROR else RPC_INTERNAL_ERROR)
       else handle_message engine al self
     }"

subsection \<open>What an answer is\<close>

abbreviation str :: "string \<Rightarrow> json" where
  "str s \<equiv> JLeaf JSON_STRING (asc s)"

definition reply :: "json \<Rightarrow> json list \<Rightarrow> json" where
  "reply ident payload = JNode JSON_OBJECT ([str ''jsonrpc'', str ''2.0'', str ''id'', ident] @ payload)"

definition failure_of :: "int \<Rightarrow> json list" where
  "failure_of code = [str ''error'', JNode JSON_OBJECT
     [str ''code'', JLeaf JSON_NUMBER (spell_int code), str ''message'', str (reason code)]]"

definition result_of :: "json \<Rightarrow> json list" where
  "result_of j = [str ''result'', j]"

definition capabilities_of :: "text_unit \<Rightarrow> byte list \<Rightarrow> json" where
  "capabilities_of unit cues = JNode JSON_OBJECT
     [str ''capabilities'', JNode JSON_OBJECT
       [str ''positionEncoding'', str (if unit = TEXT_UNIT_UTF8 then ''utf-8'' else ''utf-16''),
        str ''textDocumentSync'', JNode JSON_OBJECT
          [str ''openClose'', JLeaf JSON_TRUE [], str ''change'', JLeaf JSON_NUMBER (asc ''2'')],
        str ''completionProvider'', JNode JSON_OBJECT
          [str ''triggerCharacters'', JNode JSON_ARRAY (map (\<lambda>c. JLeaf JSON_STRING [c]) cues)]],
      str ''serverInfo'', JNode JSON_OBJECT [str ''name'', str ''markdown-core'']]"

definition empty_list :: json where
  "empty_list = JNode JSON_OBJECT [str ''isIncomplete'', JLeaf JSON_FALSE [], str ''items'', JNode JSON_ARRAY []]"

lemma print_plain: "\<forall>b \<in> set bs. string_plain b \<Longrightarrow> print_string bs = 0x22 # bs @ [0x22]"
proof -
  assume "\<forall>b \<in> set bs. string_plain b"
  then have "escape_all bs = bs" by (induction bs) simp_all
  then show ?thesis by (simp add: print_string_def)
qed

lemma print_reply: "print (reply ident payload) =
    asc ''{\"jsonrpc\":\"2.0\",\"id\":'' @ print ident @ items True True payload @ asc ''}''"
  by (simp add: reply_def print_plain string_plain_def)

lemma print_failure: "items True True (failure_of code) =
    asc '',\"error\":{\"code\":'' @ spell_int code @ asc '',\"message\":'' @ print_string (asc (reason code)) @ asc ''}''"
  by (simp add: failure_of_def print_plain string_plain_def)

lemma print_result: "items True True (result_of j) = asc '',\"result\":'' @ print j"
  by (simp add: result_of_def print_plain string_plain_def)

lemma print_empty_list: "print empty_list = asc ''{\"isIncomplete\":false,\"items\":[]}''"
  by (simp add: empty_list_def print_plain string_plain_def)

lemma print_capabilities: "print (capabilities_of unit cues) =
    asc ''{\"capabilities\":{\"positionEncoding\":'' @
    print_string (asc (if unit = TEXT_UNIT_UTF8 then ''utf-8'' else ''utf-16'')) @
    asc '',\"textDocumentSync\":{\"openClose\":true,\"change\":2}'' @
    asc '',\"completionProvider\":{\"triggerCharacters\":['' @
    items False False (map (\<lambda>c. JLeaf JSON_STRING [c]) cues) @
    asc '']}},\"serverInfo\":{\"name\":\"markdown-core\"}}''"
  by (simp add: capabilities_of_def print_plain string_plain_def)

subsection \<open>The answers are written\<close>

lemma cues_loop_writes:
  "writes grant out (cues_loop grant later cues out) (items later False (map (\<lambda>c. JLeaf JSON_STRING [c]) cues))"
proof (induction cues arbitrary: later out)
  case (Cons c cues)
  let ?out = "if later then json_out_raw grant out '','' else out"
  have c: "writes grant out ?out (if later then [0x2C] else [])"
    using writes_raw [of grant out "'',''"] writes_refl by simp
  note w = writes_trans [OF writes_trans [OF c json_out_string_writes [of grant ?out "[c]"]] Cons.IH [where later = True]]
  then show ?case by simp
qed (simp add: writes_refl)

text \<open>An adapter whose output has gained bytes, all else as it was.\<close>

definition wrote :: "allocs \<Rightarrow> 's adapter \<Rightarrow> 's adapter \<Rightarrow> byte list \<Rightarrow> bool" where
  "wrote al self self' bs \<longleftrightarrow> self' = self\<lparr>ad_out := ad_out self'\<rparr> \<and> writes (al_json al) (ad_out self) (ad_out self') bs"

lemma wrote_trans:
  assumes "wrote al self self1 as" and "wrote al self1 self2 bs"
  shows "wrote al self self2 (as @ bs)"
proof -
  have "self1 = self\<lparr>ad_out := ad_out self1\<rparr>" "self2 = self1\<lparr>ad_out := ad_out self2\<rparr>"
    using assms unfolding wrote_def by blast+
  then have "self2 = self\<lparr>ad_out := ad_out self2\<rparr>" by (cases self; cases self1; cases self2) simp
  then show ?thesis using assms writes_trans unfolding wrote_def by blast
qed

lemma wrote_raw: "wrote al self (raw al s self) (asc s)"
  by (simp add: wrote_def raw_def writes_raw)

lemma wrote_out: "writes (al_json al) (ad_out self) out bs \<Longrightarrow> wrote al self (self\<lparr>ad_out := out\<rparr>) bs"
  by (simp add: wrote_def)

lemma wrote_text: "wrote al self (self\<lparr>ad_out := json_out_text (al_json al) (ad_out self) s\<rparr>) (print_string (asc s))"
  by (rule wrote_out) (simp add: json_out_text_def json_out_string_writes)

lemma wrote_integer: "wrote al self (self\<lparr>ad_out := json_out_integer (al_json al) (ad_out self) n\<rparr>) (spell_int n)"
  by (rule wrote_out) (simp add: json_out_integer_def writes_bytes)

lemma wrote_fields:
  assumes "wrote al self self' bs"
  shows "ad_server self' = ad_server self" and "ad_tree self' = ad_tree self" and "ad_room self' = ad_room self"
    and "ad_exited self' = ad_exited self" and "writes (al_json al) (ad_out self) (ad_out self') bs"
proof -
  have e: "self' = self\<lparr>ad_out := ad_out self'\<rparr>" using assms unfolding wrote_def by blast
  show "ad_server self' = ad_server self" "ad_tree self' = ad_tree self" "ad_room self' = ad_room self"
    "ad_exited self' = ad_exited self" by (subst e, simp)+
  show "writes (al_json al) (ad_out self) (ad_out self') bs" using assms unfolding wrote_def by blast
qed

text \<open>The node of the message a handler was given, and the value it stands for.\<close>

definition node_at :: "json_tree \<Rightarrow> nat option \<Rightarrow> json option \<Rightarrow> bool" where
  "node_at tree x j \<longleftrightarrow>
     (case x of None \<Rightarrow> j = None | Some i \<Rightarrow> \<exists>off v. j = Some v \<and> json_ok v \<and> JsonWrite.holds tree i off [v])"

definition ident_of :: "json option \<Rightarrow> json" where
  "ident_of j = (case j of None \<Rightarrow> JLeaf JSON_NULL [] | Some v \<Rightarrow> v)"

definition plain_ident :: "json option \<Rightarrow> bool" where
  "plain_ident j \<longleftrightarrow> (case j of None \<Rightarrow> True | Some v \<Rightarrow> \<exists>k bs. v = JLeaf k bs \<and> (k = JSON_NUMBER \<or> k = JSON_STRING))"

lemma answer_writes:
  assumes "node_at (ad_tree self) ident j" and "plain_ident j"
  obtains self' where "answer al self ident = Some self'"
    and "wrote al self self' (asc ''{\"jsonrpc\":\"2.0\",\"id\":'' @ print (ident_of j))"
proof (cases ident)
  case None
  then have "j = None" using assms(1) by (simp add: node_at_def)
  moreover have "wrote al self (raw al ''null'' (raw al ''{\"jsonrpc\":\"2.0\",\"id\":'' self))
      (asc ''{\"jsonrpc\":\"2.0\",\"id\":'' @ asc ''null'')" by (rule wrote_trans [OF wrote_raw wrote_raw])
  ultimately show thesis using that None by (simp add: answer_def ident_of_def Let_def)
next
  case (Some i)
  then obtain off v where v: "j = Some v" "json_ok v" "JsonWrite.holds (ad_tree self) i off [v]"
    using assms(1) by (auto simp: node_at_def)
  then obtain k bs where l: "v = JLeaf k bs" using assms(2) by (auto simp: plain_ident_def)
  let ?self = "raw al ''{\"jsonrpc\":\"2.0\",\"id\":'' self"
  have t: "ad_tree ?self = ad_tree self" using wrote_fields(2) [OF wrote_raw] .
  have "jt_values (ad_tree self) \<noteq> []" using v(3) l by (auto simp: JsonWrite.holds_def)
  then obtain n where n: "2 * length (jt_values (ad_tree self)) = Suc n"
    by (cases "jt_values (ad_tree self)") simp_all
  from json_out_leaf [of "ad_tree self" i off k bs n "al_json al" "ad_out ?self"] v l
  obtain out' where o: "json_out_value (Suc n) (al_json al) (ad_tree self) i (ad_out ?self) = Some out'"
    "writes (al_json al) (ad_out ?self) out' (print_leaf k bs)" by (auto simp del: json_out_value.simps)
  show thesis
    by (rule that [OF _ wrote_trans [OF wrote_raw wrote_out, of al _ _ out']])
      (use o v l in \<open>simp_all add: answer_def Some Let_def t n ident_of_def del: json_out_value.simps\<close>)
qed

lemma answer_error_writes:
  assumes "node_at (ad_tree self) ident j" and "plain_ident j"
  obtains self' where "answer_error al self ident code = Some self'"
    and "wrote al self self' (print (reply (ident_of j) (failure_of code)))"
proof -
  obtain s0 where s0: "answer al self ident = Some s0"
    "wrote al self s0 (asc ''{\"jsonrpc\":\"2.0\",\"id\":'' @ print (ident_of j))"
    by (rule answer_writes [OF assms])
  let ?s1 = "raw al '',\"error\":{\"code\":'' s0"
  let ?s2 = "?s1\<lparr>ad_out := json_out_integer (al_json al) (ad_out ?s1) code\<rparr>"
  let ?s3 = "raw al '',\"message\":'' ?s2"
  let ?s4 = "?s3\<lparr>ad_out := json_out_text (al_json al) (ad_out ?s3) (reason code)\<rparr>"
  have w: "wrote al self (raw al ''}}'' ?s4) ((((((asc ''{\"jsonrpc\":\"2.0\",\"id\":'' @ print (ident_of j)) @
      asc '',\"error\":{\"code\":'') @ spell_int code) @ asc '',\"message\":'') @ print_string (asc (reason code))) @ asc ''}}'')"
    by (intro wrote_trans [OF _ wrote_raw] wrote_trans [OF _ wrote_text] wrote_trans [OF _ wrote_integer] s0(2))
  have "answer_error al self ident code = Some (raw al ''}}'' ?s4)"
    by (simp add: answer_error_def s0(1) Let_def)
  moreover have "print (reply (ident_of j) (failure_of code)) = ((((((asc ''{\"jsonrpc\":\"2.0\",\"id\":'' @ print (ident_of j)) @
      asc '',\"error\":{\"code\":'') @ spell_int code) @ asc '',\"message\":'') @ print_string (asc (reason code))) @ asc ''}}'')"
    unfolding print_reply print_failure by simp
  ultimately show thesis using that w by simp
qed

lemma answer_result_writes:
  assumes "node_at (ad_tree self) ident j" and "plain_ident j"
  obtains s0 where "answer al self ident = Some s0"
    and "\<And>self' bs. wrote al s0 self' bs \<Longrightarrow> bs = asc '',\"result\":'' @ print v @ asc ''}'' \<Longrightarrow>
      wrote al self self' (print (reply (ident_of j) (result_of v)))"
proof -
  obtain s0 where s0: "answer al self ident = Some s0"
    "wrote al self s0 (asc ''{\"jsonrpc\":\"2.0\",\"id\":'' @ print (ident_of j))"
    by (rule answer_writes [OF assms])
  show thesis
    by (rule that [OF s0(1)]) (use wrote_trans [OF s0(2)] in \<open>simp add: print_reply print_result\<close>)
qed

subsection \<open>Reading a message returns\<close>

definition member :: "byte list \<Rightarrow> json \<Rightarrow> json option" where
  "member key j = (case j of JLeaf _ _ \<Rightarrow> None | JNode k js \<Rightarrow> if k = JSON_OBJECT then map_of (pairs js) key else None)"

lemma pairs_ok: "keyed js \<Longrightarrow> jsons_ok js \<Longrightarrow> map_of (pairs js) key = Some v \<Longrightarrow> json_ok v"
  by (induction js rule: keyed.induct) (auto split: if_splits)

lemma node_at_None [simp]: "node_at tree None j \<longleftrightarrow> j = None"
  by (simp add: node_at_def)

lemma node_at_Some: "node_at tree (Some i) j \<longleftrightarrow> (\<exists>off v. j = Some v \<and> json_ok v \<and> JsonWrite.holds tree i off [v])"
  by (simp add: node_at_def)

lemma node_kind:
  assumes "node_at tree x j"
  shows "kind_is tree x kind \<longleftrightarrow> (\<exists>bs. j = Some (JLeaf kind bs)) \<or> (\<exists>js. j = Some (JNode kind js))"
proof (cases x)
  case (Some i)
  then obtain off v where v: "j = Some v" "JsonWrite.holds tree i off [v]" using assms by (auto simp: node_at_Some)
  show ?thesis using holds_kind [of tree i off] v by (cases v) (auto simp: kind_is_def Some)
qed (use assms in \<open>simp add: kind_is_def\<close>)

lemma object_only: "json_ok (JLeaf k bs) \<Longrightarrow> k \<noteq> JSON_OBJECT \<and> k \<noteq> JSON_ARRAY"
  by (cases k) simp_all

lemma node_json_is: "node_at tree x j \<Longrightarrow> json_is tree x key \<longleftrightarrow> j = Some (JLeaf JSON_STRING key)"
proof (cases x)
  case (Some i)
  assume "node_at tree x j"
  then obtain off v where v: "j = Some v" "json_ok v" "JsonWrite.holds tree i off [v]" using Some by (auto simp: node_at_Some)
  show ?thesis
  proof (cases v)
    case (JLeaf k bs)
    then show ?thesis using v holds_kind(1) [of tree i off k bs "[]"] json_is_leaf [of tree i off bs "[]" key] Some
      by (cases "k = JSON_STRING") (auto simp: json_is_def)
  next
    case (JNode k js)
    then show ?thesis using v holds_kind(2) [of tree i off k js "[]"] Some by (auto simp: json_is_def)
  qed
qed (simp add: json_is_def)

lemma member_at:
  assumes "node_at tree x j"
  obtains y where "json_member tree x key = Some y" and "node_at tree y (Option.bind j (member key))"
proof (cases x)
  case None
  then show thesis using that assms by (simp add: json_member_def)
next
  case (Some i)
  then obtain off v where v: "j = Some v" "json_ok v" "JsonWrite.holds tree i off [v]" using assms by (auto simp: node_at_Some)
  show thesis
  proof (cases "\<exists>js. v = JNode JSON_OBJECT js")
    case True
    then obtain js where js: "v = JNode JSON_OBJECT js" by blast
    then have k: "keyed js" "jsons_ok js" using v(2) by simp_all
    obtain found where f: "json_member tree (Some i) key = Some found"
      "case found of None \<Rightarrow> map_of (pairs js) key = None
       | Some m \<Rightarrow> \<exists>v off. map_of (pairs js) key = Some v \<and> JsonWrite.holds tree m off [v]"
      by (rule json_member_finds [OF v(3) [unfolded js] k(1)])
    have "node_at tree found (map_of (pairs js) key)"
      using f(2) pairs_ok [OF k] by (cases found) (auto simp: node_at_Some)
    then show thesis using that f(1) by (simp add: Some v(1) js member_def)
  next
    case False
    then have "\<not> kind_is tree x JSON_OBJECT" using node_kind [OF assms, of JSON_OBJECT] object_only v(1,2)
      by (cases v) auto
    then have "json_member tree x key = Some None" by (simp add: Some json_member_def kind_is_def)
    moreover have "member key v = None" using False by (cases v) (auto simp: member_def)
    ultimately show thesis using that v(1) by simp
  qed
qed

lemma member_total: "node_at tree x j \<Longrightarrow> \<exists>y v. json_member tree x key = Some y \<and> node_at tree y v"
  by (metis member_at)

lemma read_position_total: "node_at tree x j \<Longrightarrow> \<exists>p. read_position tree x = Some p"
proof -
  assume n: "node_at tree x j"
  obtain a b where "json_member tree x (asc ''line'') = Some a" "json_member tree x (asc ''character'') = Some b"
    using member_total [OF n] by metis
  then show ?thesis by (simp add: read_position_def split: option.split)
qed

lemma read_scope_total: "node_at tree x j \<Longrightarrow> \<exists>p. read_scope tree x = Some p"
proof -
  assume n: "node_at tree x j"
  obtain a v b w where a: "json_member tree x (asc ''start'') = Some a" "node_at tree a v"
    "json_member tree x (asc ''end'') = Some b" "node_at tree b w" using member_total [OF n] by metis
  obtain p q where "read_position tree a = Some p" "read_position tree b = Some q"
    using read_position_total a(2,4) by metis
  then show ?thesis using a(1,3) by (simp add: read_scope_def split: option.split)
qed

lemma read_uri_total: "node_at tree x j \<Longrightarrow> \<exists>y v. read_uri tree x = Some y \<and> node_at tree y v"
proof -
  assume n: "node_at tree x j"
  obtain a v where a: "json_member tree x (asc ''textDocument'') = Some a" "node_at tree a v" using member_total [OF n] by metis
  obtain b w where b: "json_member tree a (asc ''uri'') = Some b" "node_at tree b w" using member_total [OF a(2)] by metis
  show ?thesis by (cases "kind_is tree b JSON_STRING") (use a b in \<open>auto simp: read_uri_def\<close>)
qed

lemma read_version_total: "node_at tree x j \<Longrightarrow> \<exists>p. read_version tree x = Some p"
proof -
  assume n: "node_at tree x j"
  obtain a v where a: "json_member tree x (asc ''textDocument'') = Some a" "node_at tree a v" using member_total [OF n] by metis
  obtain b w where b: "json_member tree a (asc ''version'') = Some b" using member_total [OF a(2)] by metis
  then show ?thesis using a by (simp add: read_version_def)
qed

lemma member_node:
  assumes "JsonWrite.holds tree i off (j # js)" and "jsons_ok (j # js)"
  shows "node_at tree (Some i) (Some j)"
  using holds_Cons(1) [OF assms(1)] assms(2) by (auto simp: node_at_Some)

lemma offered_loop_total:
  "JsonWrite.holds tree i off js \<Longrightarrow> jv_end (jt_values tree ! c) = i + nodess js \<Longrightarrow>
     \<exists>units'. offered_loop tree c (if js = [] then None else Some i) units = Some units'"
proof (induction js arbitrary: i off units)
  case Nil
  show ?case by (subst offered_loop.simps) simp
next
  case (Cons j js)
  have n: "json_next tree c i = (if js = [] then None else Some (i + nodes j))"
    using next_member [OF Cons.prems(1)] Cons.prems(2) by simp
  have "jv_end (jt_values tree ! c) = i + nodes j + nodess js" using Cons.prems(2) by simp
  then show ?case using Cons.IH [OF holds_Cons(2) [OF Cons.prems(1)]] by (subst offered_loop.simps) (simp add: n)
qed

lemma changes_loop_total:
  "JsonWrite.holds tree i off js \<Longrightarrow> jsons_ok js \<Longrightarrow> jv_end (jt_values tree ! c) = i + nodess js \<Longrightarrow>
     \<exists>r. changes_loop grant tree c (if js = [] then None else Some i) edits room = Some r"
proof (induction js arbitrary: i off edits room)
  case Nil
  show ?case by (subst changes_loop.simps) simp
next
  case (Cons j js)
  have n: "json_next tree c i = (if js = [] then None else Some (i + nodes j))"
    using next_member [OF Cons.prems(1)] Cons.prems(3) by simp
  have e: "jv_end (jt_values tree ! c) = i + nodes j + nodess js" using Cons.prems(3) by simp
  have "node_at tree (Some i) (Some j)" by (rule member_node [OF Cons.prems(1,2)])
  then obtain a v b w where a: "json_member tree (Some i) (asc ''text'') = Some a" "node_at tree a v"
    "json_member tree (Some i) (asc ''range'') = Some b" "node_at tree b w" using member_total by metis
  obtain p where p: "read_scope tree b = Some p" using read_scope_total [OF a(4)] by blast
  define scope where "scope = (if b = None then Some ((0, 0), (nat UINT32_MAX, nat UINT32_MAX)) else p)"
  have s: "(if b = None then Some (Some ((0, 0), (nat UINT32_MAX, nat UINT32_MAX))) else read_scope tree b) = Some scope"
    by (simp add: p scope_def)
  obtain r where "changes_loop grant tree c (if js = [] then None else Some (i + nodes j))
      (edits @ [\<lparr>ed_start = fst (the scope), ed_end = snd (the scope), ed_text = json_bytes tree (the a)\<rparr>])
      (the (edit_room grant (length edits) room)) = Some r"
    using Cons.IH [OF holds_Cons(2) [OF Cons.prems(1)] _ e] Cons.prems(2) by fastforce
  then show ?case by (subst changes_loop.simps) (auto simp: a(1,3) s n simp del: asc_Cons)
qed

text \<open>The elements of an array a handler walks.\<close>

lemma array_at:
  assumes "node_at tree x j" and "kind_is tree x JSON_ARRAY"
  obtains i off js where "x = Some i" and "JsonWrite.holds tree (i + 1) off js" and "jsons_ok js"
    and "jv_end (jt_values tree ! i) = i + 1 + nodess js" and "json_first tree i = (if js = [] then None else Some (i + 1))"
proof -
  obtain i where i: "x = Some i" using assms(2) by (cases x) (simp_all add: kind_is_def)
  obtain off v where v: "j = Some v" "json_ok v" "JsonWrite.holds tree i off [v]" using assms(1) i by (auto simp: node_at_Some)
  have "\<nexists>bs. v = JLeaf JSON_ARRAY bs" using v(2) object_only by blast
  then obtain js where js: "v = JNode JSON_ARRAY js" using node_kind [OF assms(1), of JSON_ARRAY] assms(2) v(1) by auto
  have "jv_end (jt_values tree ! i) = i + 1 + nodess js" using holds_head [OF v(3)] js by simp
  then show thesis using that [OF i holds_node] v(2,3) js first_member by auto
qed


end
