(* ===== verification/AdapterServe.thy ===== *)
theory AdapterServe
  imports Adapter
begin

text \<open>
  What handling one message does, over the JSON value the message is: which messages are
  answered and with which identifier, which server call each makes, and that every message is
  handled in finitely many steps.
\<close>

subsection \<open>What handling a message does\<close>

text \<open>The server is left alone or called once.\<close>

definition acts :: "'s engine \<Rightarrow> allocs \<Rightarrow> 's lsp_server \<Rightarrow> 's lsp_server \<Rightarrow> bool" where
  "acts engine al sv sv' \<longleftrightarrow> sv' = sv \<or> (\<exists>call status. serve engine (al_server al) call sv = Some (status, sv'))"

lemma acts_refl [simp]: "acts engine al sv sv"
  by (simp add: acts_def)

lemma acts_serve: "serve engine (al_server al) call sv = Some (status, sv') \<Longrightarrow> acts engine al sv sv'"
  by (auto simp: acts_def)

lemma acts_ok: "acts engine al sv sv' \<Longrightarrow> server_ok sv \<Longrightarrow> server_ok sv'"
proof -
  assume a: "acts engine al sv sv'" and ok: "server_ok sv"
  show ?thesis
  proof (cases "sv' = sv")
    case False
    then obtain call status where "serve engine (al_server al) call sv = Some (status, sv')" using a by (auto simp: acts_def)
    then show ?thesis using serve_refines [OF ok, of engine "al_server al" call] by (auto simp: refines_def)
  qed (use ok in simp)
qed

lemma serve_total: "server_ok sv \<Longrightarrow> \<exists>status sv'. serve engine grant call sv = Some (status, sv')"
proof -
  assume "server_ok sv"
  from serve_refines [OF this, of engine grant call] show ?thesis by (auto simp: refines_def)
qed

definition answered :: "allocs \<Rightarrow> 's adapter \<Rightarrow> 's adapter \<Rightarrow> json \<Rightarrow> (json list \<Rightarrow> bool) \<Rightarrow> bool" where
  "answered al self self' ident p \<longleftrightarrow>
     (\<exists>payload. p payload \<and> writes (al_json al) (ad_out self) (ad_out self') (print (reply ident payload)))"

definition is_result :: "json list \<Rightarrow> bool" where
  "is_result payload \<longleftrightarrow> (\<exists>v. json_ok v \<and> payload = result_of v)"

definition is_failure :: "json list \<Rightarrow> bool" where
  "is_failure payload \<longleftrightarrow> (\<exists>code. code \<noteq> 0 \<and> payload = failure_of code)"

text \<open>A handler of a request wrote its result and answers 0, or wrote nothing and answers a code.\<close>

definition dealt :: "'s engine \<Rightarrow> allocs \<Rightarrow> 's adapter \<Rightarrow> json \<Rightarrow> int \<times> 's adapter \<Rightarrow> bool" where
  "dealt engine al self ident r \<longleftrightarrow>
     ad_tree (snd r) = ad_tree self \<and> acts engine al (ad_server self) (ad_server (snd r)) \<and>
     (if fst r = 0 then answered al self (snd r) ident is_result else ad_out (snd r) = ad_out self)"

lemma dealt_code:
  "code \<noteq> 0 \<Longrightarrow> acts engine al (ad_server self) sv \<Longrightarrow> dealt engine al self ident (code, self\<lparr>ad_server := sv\<rparr>)"
  by (simp add: dealt_def)

lemma dealt_code_same: "code \<noteq> 0 \<Longrightarrow> dealt engine al self ident (code, self)"
  by (simp add: dealt_def)

lemma status_code_0 [simp]: "status_code status = 0 \<longleftrightarrow> status = LSP_OK"
  by (cases status) simp_all

lemma dealt_result:
  assumes w: "wrote al (self\<lparr>ad_server := sv\<rparr>) self' (print (reply ident (result_of v)))"
    and "acts engine al (ad_server self) sv" and "json_ok v"
  shows "dealt engine al self ident (0, self')"
  using wrote_fields [OF w] assms(2,3) by (auto simp: dealt_def answered_def is_result_def)

lemma capabilities_ok: "json_ok (capabilities_of unit cues)"
proof -
  have c: "jsons_ok (map (\<lambda>c. JLeaf JSON_STRING [c]) cues)" by (induction cues) simp_all
  have "digits_ok (asc ''2'')" by (simp add: digits_ok_def digit_byte_def)
  then have "int_ok (asc ''2'')" unfolding int_ok_def by (intro exI [of _ "[]"] exI [of _ "asc ''2''"]) simp
  then have "number_ok (asc ''2'')" unfolding number_ok_def
    by (intro exI [of _ "[]"] exI [of _ "asc ''2''"]) (simp add: frac_ok_def expo_ok_def)
  then show ?thesis using c by (simp add: capabilities_of_def)
qed

lemma number_ok_int: "number_ok (spell_int n)"
proof -
  have d: "decimal m = [0x30] \<or> digits_ok (decimal m) \<and> hd (decimal m) \<noteq> 0x30" for m
    using hd_decimal [of m] decimal_digits [of _ m] decimal_not_Nil [of m]
    by (cases "m = 0") (auto simp: digits_ok_def decimal.simps [of 0] digit_of_nat)
  have "int_ok (spell_int n)" unfolding int_ok_def spell_int_def
    by (rule exI [of _ "if n < 0 then [0x2D] else []"], rule exI [of _ "decimal (nat (if n < 0 then - n else n))"])
      (use d in simp)
  then show ?thesis unfolding number_ok_def by (intro exI [of _ "[]"] exI [of _ "spell_int n"]) (simp add: frac_ok_def expo_ok_def)
qed

lemma initialize_runs:
  assumes i: "node_at (ad_tree self) ident j" "plain_ident j" and obj: "kind_is (ad_tree self) params JSON_OBJECT"
    and a: "json_member (ad_tree self) params (asc ''capabilities'') = Some a"
    and b: "json_member (ad_tree self) a (asc ''general'') = Some b"
    and c: "json_member (ad_tree self) b (asc ''positionEncodings'') = Some c"
    and units: "(if kind_is (ad_tree self) c JSON_ARRAY then offered_loop (ad_tree self) (the c) (json_first (ad_tree self) (the c)) []
      else Some []) = Some units"
    and r: "lsp_initialize engine units (ad_server self) = (status, given, sv)"
  obtains self' where "initialize engine al self ident params = Some (status_code status, self')" and "ad_server self' = sv"
    and "dealt engine al self (ident_of j) (status_code status, self')"
proof -
  have act: "acts engine al (ad_server self) sv"
    by (rule acts_serve [of _ _ "Initialize units" _ status]) (simp add: serve_def r)
  have run: "initialize engine al self ident params =
      (case (status, given, sv) of (status, None, sv) \<Rightarrow> Some (status_code status, self\<lparr>ad_server := sv\<rparr>)
         | (status, Some (unit, cues), sv) \<Rightarrow>
             do {
               self \<leftarrow> Adapter.answer al (self\<lparr>ad_server := sv\<rparr>) ident;
               let self = raw al '',\"result\":{\"capabilities\":{\"positionEncoding\":'' self;
               let self = self\<lparr>ad_out := json_out_text (al_json al) (ad_out self)
                            (if unit = TEXT_UNIT_UTF8 then ''utf-8'' else ''utf-16'')\<rparr>;
               let self = raw al '',\"textDocumentSync\":{\"openClose\":true,\"change\":2}'' self;
               let self = raw al '',\"completionProvider\":{\"triggerCharacters\":['' self;
               let self = self\<lparr>ad_out := cues_loop (al_json al) False cues (ad_out self)\<rparr>;
               Some (0, raw al '']}},\"serverInfo\":{\"name\":\"markdown-core\"}}}'' self)
             })"
    unfolding initialize_def Let_def using obj by (simp add: a b c units r del: asc_Cons)
  show thesis
  proof (cases given)
    case None
    have "status \<noteq> LSP_OK" using r None by (auto simp: lsp_initialize_def Let_def split: if_splits)
    then show thesis using None act by (intro that [of "self\<lparr>ad_server := sv\<rparr>"]) (simp_all add: run dealt_code)
  next
    case (Some uc)
    have st: "status = LSP_OK" using r Some by (auto simp: lsp_initialize_def Let_def split: if_splits)
    obtain unit cues where uc: "uc = (unit, cues)" by fastforce
    have n: "node_at (ad_tree (self\<lparr>ad_server := sv\<rparr>)) ident j" using i(1) by simp
    obtain s0 where s0: "Adapter.answer al (self\<lparr>ad_server := sv\<rparr>) ident = Some s0"
      "\<And>self' bs. wrote al s0 self' bs \<Longrightarrow> bs = asc '',\"result\":'' @ print (capabilities_of unit cues) @ asc ''}'' \<Longrightarrow>
        wrote al (self\<lparr>ad_server := sv\<rparr>) self' (print (reply (ident_of j) (result_of (capabilities_of unit cues))))"
      by (rule answer_result_writes [OF n i(2), where v = "capabilities_of unit cues"]) blast
    let ?name = "if unit = TEXT_UNIT_UTF8 then ''utf-8'' else ''utf-16''"
    let ?s1 = "raw al '',\"result\":{\"capabilities\":{\"positionEncoding\":'' s0"
    let ?s2 = "?s1\<lparr>ad_out := json_out_text (al_json al) (ad_out ?s1) ?name\<rparr>"
    let ?s3 = "raw al '',\"textDocumentSync\":{\"openClose\":true,\"change\":2}'' ?s2"
    let ?s4 = "raw al '',\"completionProvider\":{\"triggerCharacters\":['' ?s3"
    let ?s5 = "?s4\<lparr>ad_out := cues_loop (al_json al) False cues (ad_out ?s4)\<rparr>"
    let ?s6 = "raw al '']}},\"serverInfo\":{\"name\":\"markdown-core\"}}}'' ?s5"
    have w: "wrote al s0 ?s6 (((((asc '',\"result\":{\"capabilities\":{\"positionEncoding\":'' @
        print_string (asc ?name)) @ asc '',\"textDocumentSync\":{\"openClose\":true,\"change\":2}'') @
        asc '',\"completionProvider\":{\"triggerCharacters\":['') @ items False False (map (\<lambda>c. JLeaf JSON_STRING [c]) cues)) @
        asc '']}},\"serverInfo\":{\"name\":\"markdown-core\"}}}'')"
      by (intro wrote_trans [OF _ wrote_raw] wrote_trans [OF _ wrote_text] wrote_trans [OF _ wrote_out [OF cues_loop_writes]] wrote_raw)
    have "initialize engine al self ident params = Some (0, ?s6)"
      unfolding run Some uc Let_def by (simp add: s0(1) del: asc_Cons)
    moreover have "dealt engine al self (ident_of j) (0, ?s6)"
      by (rule dealt_result [OF s0(2) [OF w] act capabilities_ok]) (unfold print_capabilities, simp)
    moreover have "ad_server ?s6 = sv" using wrote_fields(1) [OF w] wrote_fields(1) [OF s0(2) [OF w]] by (simp add: print_capabilities)
    ultimately show thesis using that [of ?s6] st by simp
  qed
qed

lemma initialize_dealt:
  assumes p: "node_at (ad_tree self) params pj" and i: "node_at (ad_tree self) ident j" "plain_ident j"
  obtains r where "initialize engine al self ident params = Some r" and "dealt engine al self (ident_of j) r"
proof (cases "kind_is (ad_tree self) params JSON_OBJECT")
  case False
  show thesis by (rule that [of "(RPC_INVALID_PARAMS, self)"])
    (simp_all add: initialize_def False dealt_code_same RPC_INVALID_PARAMS_def)
next
  case True
  let ?tree = "ad_tree self"
  obtain a v where a: "json_member ?tree params (asc ''capabilities'') = Some a" "node_at ?tree a v" using member_total [OF p] by metis
  obtain b w where b: "json_member ?tree a (asc ''general'') = Some b" "node_at ?tree b w" using member_total [OF a(2)] by metis
  obtain c u where c: "json_member ?tree b (asc ''positionEncodings'') = Some c" "node_at ?tree c u" using member_total [OF b(2)] by metis
  obtain units where units: "(if kind_is ?tree c JSON_ARRAY then offered_loop ?tree (the c) (json_first ?tree (the c)) []
      else Some []) = Some units"
  proof (cases "kind_is ?tree c JSON_ARRAY")
    case arr: True
    obtain n off js where "c = Some n" "JsonWrite.holds ?tree (n + 1) off js" "jsons_ok js"
      "jv_end (jt_values ?tree ! n) = n + 1 + nodess js" "json_first ?tree n = (if js = [] then None else Some (n + 1))"
      by (rule array_at [OF c(2) arr])
    then show thesis using that offered_loop_total [of ?tree "n + 1" off js n "[]"] arr by auto
  qed (use that in simp)
  obtain status given sv where r: "lsp_initialize engine units (ad_server self) = (status, given, sv)" by (metis prod_cases3)
  obtain self' where "initialize engine al self ident params = Some (status_code status, self')"
    "dealt engine al self (ident_of j) (status_code status, self')"
    by (rule initialize_runs [OF i True a(1) b(1) c(1) units r, of al])
  then show thesis by (rule that)
qed

lemma complete_runs:
  assumes i: "node_at (ad_tree self) ident j" "plain_ident j" and u: "read_uri (ad_tree self) params = Some (Some x)"
    and a: "json_member (ad_tree self) params (asc ''position'') = Some a" and pos: "read_position (ad_tree self) a = Some (Some q)"
    and s: "serve engine (al_server al) (Complete (json_bytes (ad_tree self) x) q) (ad_server self) = Some (status, sv)"
  obtains self' where "complete engine al self ident params = Some (status_code status, self')" and "ad_server self' = sv"
    and "dealt engine al self (ident_of j) (status_code status, self')"
proof -
  let ?tree = "ad_tree self"
  obtain lst where l: "lsp_complete engine (al_server al) (ad_server self) (json_bytes ?tree x) q = Some (status, lst, sv)"
    using s by (auto simp: serve_def)
  note act = acts_serve [OF s]
  have run: "complete engine al self ident params =
        (if status \<noteq> LSP_OK then Some (status_code status, self\<lparr>ad_server := sv\<rparr>)
         else do {
           self \<leftarrow> answer al (self\<lparr>ad_server := sv\<rparr>) ident;
           Some (0, raw al '',\"result\":{\"isIncomplete\":false,\"items\":[]}}'' self)
         })"
    unfolding complete_def Let_def by (simp add: u a pos l del: asc_Cons)
  show thesis
  proof (cases "status = LSP_OK")
    case False
    then show thesis using act by (intro that [of "self\<lparr>ad_server := sv\<rparr>"]) (simp_all add: run dealt_code)
  next
    case True
    have n: "node_at (ad_tree (self\<lparr>ad_server := sv\<rparr>)) ident j" using i(1) by simp
    obtain s0 where s0: "answer al (self\<lparr>ad_server := sv\<rparr>) ident = Some s0"
      "\<And>self' bs. wrote al s0 self' bs \<Longrightarrow> bs = asc '',\"result\":'' @ print empty_list @ asc ''}'' \<Longrightarrow>
        wrote al (self\<lparr>ad_server := sv\<rparr>) self' (print (reply (ident_of j) (result_of empty_list)))"
      by (rule answer_result_writes [OF n i(2), where v = empty_list]) blast
    let ?s1 = "raw al '',\"result\":{\"isIncomplete\":false,\"items\":[]}}'' s0"
    have w: "wrote al (self\<lparr>ad_server := sv\<rparr>) ?s1 (print (reply (ident_of j) (result_of empty_list)))"
      by (rule s0(2) [OF wrote_raw]) (unfold print_empty_list, simp)
    have "complete engine al self ident params = Some (0, ?s1)" unfolding run using True by (simp add: s0(1) del: asc_Cons)
    moreover have "dealt engine al self (ident_of j) (0, ?s1)"
      by (rule dealt_result [OF w act]) (simp add: empty_list_def)
    ultimately show thesis using that [of ?s1] wrote_fields(1) [OF w] True by simp
  qed
qed

lemma complete_dealt:
  assumes ok: "server_ok (ad_server self)" and p: "node_at (ad_tree self) params pj"
    and i: "node_at (ad_tree self) ident j" "plain_ident j"
  obtains r where "complete engine al self ident params = Some r" and "dealt engine al self (ident_of j) r"
proof -
  let ?tree = "ad_tree self"
  obtain uri v where u: "read_uri ?tree params = Some uri" using read_uri_total [OF p] by metis
  obtain a w where a: "json_member ?tree params (asc ''position'') = Some a" "node_at ?tree a w" using member_total [OF p] by metis
  obtain position where pos: "read_position ?tree a = Some position" using read_position_total [OF a(2)] by metis
  show thesis
  proof (cases "uri = None \<or> position = None")
    case True
    show thesis by (rule that [of "(RPC_INVALID_PARAMS, self)"])
      (use True in \<open>auto simp: complete_def u a pos dealt_code_same RPC_INVALID_PARAMS_def Let_def simp del: asc_Cons split: option.split\<close>)
  next
    case False
    then obtain x q where x: "uri = Some x" "position = Some q" by auto
    obtain status sv where s: "serve engine (al_server al) (Complete (json_bytes ?tree x) q) (ad_server self) = Some (status, sv)"
      using serve_total [OF ok] by blast
    obtain self' where "complete engine al self ident params = Some (status_code status, self')"
      "dealt engine al self (ident_of j) (status_code status, self')"
      by (rule complete_runs [OF i u [unfolded x] a(1) pos [unfolded x] s])
    then show thesis by (rule that)
  qed
qed

definition handled :: "'s engine \<Rightarrow> allocs \<Rightarrow> 's adapter \<Rightarrow> 's adapter \<Rightarrow> bool" where
  "handled engine al self self' \<longleftrightarrow> ad_tree self' = ad_tree self \<and> acts engine al (ad_server self) (ad_server self')"

lemma handled_refl [simp]: "handled engine al self self"
  by (simp add: handled_def)

lemma shutdown_dealt:
  assumes i: "node_at (ad_tree self) ident j" "plain_ident j" and r: "lsp_shutdown (ad_server self) = (status, sv)"
  obtains r where "(if status = LSP_OK
      then map_option (\<lambda>self. (0, raw al '',\"result\":null}'' self)) (answer al (self\<lparr>ad_server := sv\<rparr>) ident)
      else Some (status_code status, self\<lparr>ad_server := sv\<rparr>)) = Some r" and "dealt engine al self (ident_of j) r"
    and "fst r = status_code status" and "ad_server (snd r) = sv"
proof -
  have act: "acts engine al (ad_server self) sv"
    by (rule acts_serve [of _ _ Shutdown _ status]) (simp add: serve_def r)
  show thesis
  proof (cases "status = LSP_OK")
    case False
    then show thesis using act by (intro that [of "(status_code status, self\<lparr>ad_server := sv\<rparr>)"]) (simp_all add: dealt_code)
  next
    case True
    have n: "node_at (ad_tree (self\<lparr>ad_server := sv\<rparr>)) ident j" using i(1) by simp
    obtain s0 where s0: "answer al (self\<lparr>ad_server := sv\<rparr>) ident = Some s0"
      "\<And>self' bs. wrote al s0 self' bs \<Longrightarrow> bs = asc '',\"result\":'' @ print (JLeaf JSON_NULL []) @ asc ''}'' \<Longrightarrow>
        wrote al (self\<lparr>ad_server := sv\<rparr>) self' (print (reply (ident_of j) (result_of (JLeaf JSON_NULL []))))"
      by (rule answer_result_writes [OF n i(2), where v = "JLeaf JSON_NULL []"]) blast
    have w: "wrote al (self\<lparr>ad_server := sv\<rparr>) (raw al '',\"result\":null}'' s0) (print (reply (ident_of j) (result_of (JLeaf JSON_NULL []))))"
      by (rule s0(2) [OF wrote_raw]) simp
    then have "dealt engine al self (ident_of j) (0, raw al '',\"result\":null}'' s0)"
      by (rule dealt_result [OF _ act]) simp
    then show thesis using True s0(1) wrote_fields(1) [OF w]
      by (intro that [of "(0, raw al '',\"result\":null}'' s0)"]) simp_all
  qed
qed

lemma if_some: "\<exists>r. a = Some r \<and> P r \<Longrightarrow> \<exists>r. b = Some r \<and> P r \<Longrightarrow> \<exists>r. (if c then a else b) = Some r \<and> P r"
  by simp

lemma request_handled:
  assumes ok: "server_ok (ad_server self)" and m: "node_at (ad_tree self) meth mj" and p: "node_at (ad_tree self) params pj"
    and i: "node_at (ad_tree self) ident j" "plain_ident j"
  obtains self' where "request engine al self ident meth params = Some self'" and "handled engine al self self'"
    and "answered al self self' (ident_of j) (\<lambda>payload. is_result payload \<or> is_failure payload)"
proof -
  let ?tree = "ad_tree self"
  obtain status sv where sh: "lsp_shutdown (ad_server self) = (status, sv)" by fastforce
  let ?other = "(case sv_phase (ad_server self) of FRESH \<Rightarrow> status_code LSP_SERVER_NOT_INITIALIZED
      | HALTED \<Rightarrow> RPC_INVALID_REQUEST | ACTIVE \<Rightarrow> RPC_METHOD_NOT_FOUND, self)"
  let ?branch = "if json_is ?tree meth (asc ''initialize'') then initialize engine al self ident params
          else if json_is ?tree meth (asc ''shutdown'') then
            (if status = LSP_OK
             then map_option (\<lambda>self. (0, raw al '',\"result\":null}'' self)) (answer al (self\<lparr>ad_server := sv\<rparr>) ident)
             else Some (status_code status, self\<lparr>ad_server := sv\<rparr>))
          else if json_is ?tree meth (asc ''textDocument/completion'') then complete engine al self ident params
          else Some ?other"
  have o: "dealt engine al self (ident_of j) ?other"
    by (rule dealt_code_same)
      (simp add: RPC_INVALID_REQUEST_def RPC_METHOD_NOT_FOUND_def split: lsp_phase.split)
  have e: "\<exists>r. initialize engine al self ident params = Some r \<and> dealt engine al self (ident_of j) r"
    "\<exists>r. (if status = LSP_OK then map_option (\<lambda>self. (0, raw al '',\"result\":null}'' self)) (answer al (self\<lparr>ad_server := sv\<rparr>) ident)
       else Some (status_code status, self\<lparr>ad_server := sv\<rparr>)) = Some r \<and> dealt engine al self (ident_of j) r"
    "\<exists>r. complete engine al self ident params = Some r \<and> dealt engine al self (ident_of j) r"
    "\<exists>r. Some ?other = Some r \<and> dealt engine al self (ident_of j) r"
    using initialize_dealt [OF p i] shutdown_dealt [OF i sh, of al engine] complete_dealt [OF ok p i] o by metis+
  have "\<exists>r. ?branch = Some r \<and> dealt engine al self (ident_of j) r" by (intro if_some e)
  then obtain r where r: "?branch = Some r" "dealt engine al self (ident_of j) r" by blast
  obtain code self1 where cs: "r = (code, self1)" by fastforce
  have run: "request engine al self ident meth params = (if code \<noteq> 0 then answer_error al self1 ident code else Some self1)"
    using r(1) unfolding request_def Let_def sh prod.case cs by (simp del: asc_Cons)
  have d: "ad_tree self1 = ?tree" "acts engine al (ad_server self) (ad_server self1)"
    using r(2) by (simp_all add: dealt_def cs)
  show thesis
  proof (cases "code = 0")
    case True
    then have "answered al self self1 (ident_of j) is_result" using r(2) by (simp add: dealt_def cs)
    then show thesis using True run d by (intro that [of self1]) (auto simp: handled_def answered_def)
  next
    case False
    then have out: "ad_out self1 = ad_out self" using r(2) by (simp add: dealt_def cs)
    have n: "node_at (ad_tree self1) ident j" using i(1) d(1) by simp
    obtain self' where s: "answer_error al self1 ident code = Some self'"
      "wrote al self1 self' (print (reply (ident_of j) (failure_of code)))"
      by (rule answer_error_writes [OF n i(2)])
    have "answered al self self' (ident_of j) (\<lambda>payload. is_result payload \<or> is_failure payload)"
      using wrote_fields(5) [OF s(2)] out False by (auto simp: answered_def is_failure_def)
    then show thesis using False run s d wrote_fields(1,2) [OF s(2)] by (intro that [of self']) (auto simp: handled_def)
  qed
qed

subsection \<open>Notifications\<close>

definition silent :: "'s engine \<Rightarrow> allocs \<Rightarrow> 's adapter \<Rightarrow> 's adapter \<Rightarrow> bool" where
  "silent engine al self self' \<longleftrightarrow> handled engine al self self' \<and> ad_out self' = ad_out self"

lemma silent_refl [simp]: "silent engine al self self"
  by (simp add: silent_def)

lemma silent_room [simp]: "silent engine al self (self\<lparr>ad_room := room\<rparr>)"
  by (simp add: silent_def handled_def)

lemma silent_serve:
  "serve engine (al_server al) call (ad_server self) = Some (status, sv) \<Longrightarrow> silent engine al self (self\<lparr>ad_server := sv\<rparr>)"
  "serve engine (al_server al) call (ad_server self) = Some (status, sv) \<Longrightarrow>
     silent engine al self (self\<lparr>ad_room := room, ad_server := sv\<rparr>)"
  using acts_serve by (auto simp: silent_def handled_def)

lemma open_silent:
  assumes ok: "server_ok (ad_server self)" and p: "node_at (ad_tree self) params pj"
  shows "\<exists>self'. open_document engine al self params = Some self' \<and> silent engine al self self'"
proof -
  let ?tree = "ad_tree self"
  obtain uri v where u: "read_uri ?tree params = Some uri" using read_uri_total [OF p] by metis
  obtain a w where a: "json_member ?tree params (asc ''textDocument'') = Some a" "node_at ?tree a w" using member_total [OF p] by metis
  obtain b x where b: "json_member ?tree a (asc ''text'') = Some b" using member_total [OF a(2)] by metis
  obtain version where v: "read_version ?tree params = Some version" using read_version_total [OF p] by metis
  let ?call = "\<lambda>x n. Open (json_bytes ?tree x) n (json_bytes ?tree (the b))"
  have s: "\<exists>status sv. serve engine (al_server al) (?call x n) (ad_server self) = Some (status, sv)" for x n
    by (rule serve_total [OF ok])
  show ?thesis
  proof (cases "uri = None \<or> \<not> kind_is ?tree b JSON_STRING \<or> version = None")
    case True
    then have "open_document engine al self params = Some self"
      by (auto simp: open_document_def u a b v Let_def simp del: asc_Cons)
    then show ?thesis by simp
  next
    case False
    then obtain x n where x: "uri = Some x" "version = Some n" by auto
    obtain status sv where c: "serve engine (al_server al) (?call x n) (ad_server self) = Some (status, sv)" using s by blast
    then have "open_document engine al self params = Some (self\<lparr>ad_server := sv\<rparr>)"
      using False by (simp add: open_document_def u a b v x Let_def serve_def del: asc_Cons)
    then show ?thesis using silent_serve(1) [OF c] by blast
  qed
qed

lemma update_silent:
  assumes ok: "server_ok (ad_server self)" and p: "node_at (ad_tree self) params pj"
  shows "\<exists>self'. update_document engine al self params = Some self' \<and> silent engine al self self'"
proof -
  let ?tree = "ad_tree self"
  obtain uri v where u: "read_uri ?tree params = Some uri" using read_uri_total [OF p] by metis
  obtain a w where a: "json_member ?tree params (asc ''contentChanges'') = Some a" "node_at ?tree a w" using member_total [OF p] by metis
  obtain version where v: "read_version ?tree params = Some version" using read_version_total [OF p] by metis
  show ?thesis
  proof (cases "uri = None \<or> \<not> kind_is ?tree a JSON_ARRAY \<or> version = None")
    case True
    then have "update_document engine al self params = Some self"
      by (auto simp: update_document_def u a v Let_def simp del: asc_Cons)
    then show ?thesis by simp
  next
    case False
    then obtain x n where x: "uri = Some x" "version = Some n" by auto
    have arr: "kind_is ?tree a JSON_ARRAY" using False by simp
    obtain i off js where i: "a = Some i" "JsonWrite.holds ?tree (i + 1) off js" "jsons_ok js"
      "jv_end (jt_values ?tree ! i) = i + 1 + nodess js" "json_first ?tree i = (if js = [] then None else Some (i + 1))"
      by (rule array_at [OF a(2) arr])
    obtain room edits where l: "changes_loop (al_edits al) ?tree i (json_first ?tree i) [] (ad_room self) = Some (room, edits)"
      using changes_loop_total [OF i(2,3,4)] i(5) by fastforce
    show ?thesis
    proof (cases edits)
      case None
      then have "update_document engine al self params = Some (self\<lparr>ad_room := room\<rparr>)"
        using arr by (simp add: update_document_def u a v x i(1) l Let_def del: asc_Cons)
      then show ?thesis by simp
    next
      case (Some es)
      obtain status sv where c: "serve engine (al_server al) (Update (json_bytes ?tree x) n es) (ad_server self) = Some (status, sv)"
        using serve_total [OF ok] by blast
      then have "update_document engine al self params = Some (self\<lparr>ad_room := room, ad_server := sv\<rparr>)"
        using arr by (simp add: update_document_def u a v x i(1) l Some Let_def serve_def del: asc_Cons)
      then show ?thesis using silent_serve(2) [OF c] by blast
    qed
  qed
qed

lemma close_silent:
  assumes ok: "server_ok (ad_server self)" and p: "node_at (ad_tree self) params pj"
  shows "\<exists>self'. do {
             uri \<leftarrow> read_uri (ad_tree self) params;
             if uri = None then Some self
             else do {
               (_, sv) \<leftarrow> lsp_close (ad_server self) (json_bytes (ad_tree self) (the uri));
               Some (self\<lparr>ad_server := sv\<rparr>)
             }
           } = Some self' \<and> silent engine al self self'"
proof -
  obtain uri v where u: "read_uri (ad_tree self) params = Some uri" using read_uri_total [OF p] by metis
  show ?thesis
  proof (cases uri)
    case (Some x)
    obtain status sv where c: "serve engine (al_server al) (Close (json_bytes (ad_tree self) x)) (ad_server self) = Some (status, sv)"
      using serve_total [OF ok] by blast
    then show ?thesis using silent_serve(1) [OF c] by (simp add: u Some serve_def)
  qed (simp add: u)
qed

lemma notification_silent:
  assumes ok: "server_ok (ad_server self)" and p: "node_at (ad_tree self) params pj"
  obtains self' where "notification engine al self meth params = Some self'" and "silent engine al self self'"
proof -
  let ?tree = "ad_tree self"
  have e: "\<exists>self'. Some (self\<lparr>ad_exited := True\<rparr>) = Some self' \<and> silent engine al self self'"
    "\<exists>self'. Some self = Some self' \<and> silent engine al self self'" by (simp_all add: silent_def handled_def)
  have "\<exists>self'. notification engine al self meth params = Some self' \<and> silent engine al self self'"
    unfolding notification_def Let_def
    by (intro if_some e open_silent [OF ok p] update_silent [OF ok p] close_silent [OF ok p])
  then show thesis using that by blast
qed


subsection \<open>The messages\<close>

text \<open>What a message is by its members, as the protocol names the kinds.\<close>

datatype message =
    Response
  | Invalid "json option"
  | Request json "byte list" "json option"
  | Notice "byte list" "json option"

definition has_kind :: "json_kind \<Rightarrow> json option \<Rightarrow> bool" where
  "has_kind kind x \<longleftrightarrow> (case x of None \<Rightarrow> False | Some (JLeaf k _) \<Rightarrow> k = kind | Some (JNode k _) \<Rightarrow> k = kind)"

definition leaf_bytes :: "json option \<Rightarrow> byte list" where
  "leaf_bytes x = (case x of Some (JLeaf _ bs) \<Rightarrow> bs | _ \<Rightarrow> [])"

definition message_of :: "json \<Rightarrow> message" where
  "message_of j =
     (let ident = member (asc ''id'') j; meth = member (asc ''method'') j;
          valid = has_kind JSON_NUMBER ident \<or> has_kind JSON_STRING ident
      in if has_kind JSON_OBJECT (Some j) \<and> meth = None \<and> ident \<noteq> None \<and>
            (member (asc ''result'') j \<noteq> None \<or> member (asc ''error'') j \<noteq> None)
         then Response
         else if \<not> has_kind JSON_OBJECT (Some j) \<or> member (asc ''jsonrpc'') j \<noteq> Some (str ''2.0'') \<or>
                 \<not> has_kind JSON_STRING meth \<or> ident \<noteq> None \<and> \<not> valid
         then Invalid (if valid then ident else None)
         else case ident of
                Some i \<Rightarrow> Request i (leaf_bytes meth) (member (asc ''params'') j)
              | None \<Rightarrow> Notice (leaf_bytes meth) (member (asc ''params'') j))"

lemma node_has_kind: "node_at tree x j \<Longrightarrow> kind_is tree x kind = has_kind kind j"
  using node_kind [of tree x j kind] by (auto simp: has_kind_def split: option.splits json.splits)

lemma node_none: "node_at tree x j \<Longrightarrow> x = None \<longleftrightarrow> j = None"
  by (auto simp: node_at_def split: option.splits)

lemma plain_kind: "node_at tree x j \<Longrightarrow> has_kind JSON_NUMBER j \<or> has_kind JSON_STRING j \<Longrightarrow> plain_ident j"
proof -
  assume n: "node_at tree x j" and k: "has_kind JSON_NUMBER j \<or> has_kind JSON_STRING j"
  show ?thesis
  proof (cases j)
    case (Some v)
    then have "json_ok v" using n by (auto simp: node_at_def split: option.splits)
    then show ?thesis using k Some by (cases v) (auto simp: has_kind_def plain_ident_def)
  qed (simp add: plain_ident_def)
qed

text \<open>A message's nodes, and the branch its kind leads to.\<close>

lemma handle_message_branch:
  assumes j: "json_ok j" "tree_of j (ad_tree self)"
  obtains ident meth params where "node_at (ad_tree self) ident (member (asc ''id'') j)"
    and "node_at (ad_tree self) meth (member (asc ''method'') j)" and "node_at (ad_tree self) params (member (asc ''params'') j)"
    and "handle_message engine al self =
      (case message_of j of
         Response \<Rightarrow> Some self
       | Invalid i \<Rightarrow> answer_error al self (if i = None then None else ident) RPC_INVALID_REQUEST
       | Request _ _ _ \<Rightarrow> request engine al self ident meth params
       | Notice _ _ \<Rightarrow> notification engine al self meth params)"
    and "case message_of j of Invalid i \<Rightarrow> i = None \<or> i = member (asc ''id'') j \<and> plain_ident i
       | Request i m p \<Rightarrow> member (asc ''id'') j = Some i \<and> plain_ident (Some i) \<and> json_ok i
       | _ \<Rightarrow> True"
proof -
  let ?tree = "ad_tree self" and ?root = "Some (json_root (ad_tree self))"
  have root: "node_at ?tree ?root (Some j)" using tree_of_holds [OF j(2)] j(1) by (auto simp: node_at_Some json_root_def)
  note m = member_at [OF root, simplified bind.simps]
  obtain ident where i: "json_member ?tree ?root (asc ''id'') = Some ident" "node_at ?tree ident (member (asc ''id'') j)" by (rule m)
  obtain meth where e: "json_member ?tree ?root (asc ''method'') = Some meth" "node_at ?tree meth (member (asc ''method'') j)" by (rule m)
  obtain res where r: "json_member ?tree ?root (asc ''result'') = Some res" "node_at ?tree res (member (asc ''result'') j)" by (rule m)
  obtain err where f: "json_member ?tree ?root (asc ''error'') = Some err" "node_at ?tree err (member (asc ''error'') j)" by (rule m)
  obtain rpc where c: "json_member ?tree ?root (asc ''jsonrpc'') = Some rpc" "node_at ?tree rpc (member (asc ''jsonrpc'') j)" by (rule m)
  obtain params where p: "json_member ?tree ?root (asc ''params'') = Some params" "node_at ?tree params (member (asc ''params'') j)" by (rule m)
  define ij where "ij = member (asc ''id'') j"
  define valid where "valid = (has_kind JSON_NUMBER ij \<or> has_kind JSON_STRING ij)"
  define response where "response = (has_kind JSON_OBJECT (Some j) \<and> meth = None \<and> ident \<noteq> None \<and> (res \<noteq> None \<or> err \<noteq> None))"
  define bad where "bad = (\<not> has_kind JSON_OBJECT (Some j) \<or> member (asc ''jsonrpc'') j \<noteq> Some (str ''2.0'') \<or>
    \<not> has_kind JSON_STRING (member (asc ''method'') j) \<or> ident \<noteq> None \<and> \<not> valid)"
  have i2: "node_at ?tree ident ij" using i(2) by (simp add: ij_def)
  note k = node_has_kind [OF root] node_has_kind [OF i2] node_has_kind [OF e(2)]
  have run: "handle_message engine al self =
      (if response then Some self
       else if bad then answer_error al self (if valid then ident else None) RPC_INVALID_REQUEST
       else if ident \<noteq> None then request engine al self ident meth params else notification engine al self meth params)"
    unfolding handle_message_def Let_def response_def bad_def valid_def
    by (simp only: i(1) e(1) r(1) f(1) c(1) p(1) k node_json_is [OF c(2)] Option.bind.bind_lunit)
  have spec: "message_of j =
      (if response then Response
       else if bad then Invalid (if valid then ij else None)
       else case ij of Some i \<Rightarrow> Request i (leaf_bytes (member (asc ''method'') j)) (member (asc ''params'') j)
            | None \<Rightarrow> Notice (leaf_bytes (member (asc ''method'') j)) (member (asc ''params'') j))"
    unfolding message_of_def Let_def response_def bad_def valid_def ij_def
    by (simp only: node_none [OF i(2)] node_none [OF e(2)] node_none [OF r(2)] node_none [OF f(2)])
  have plain: "plain_ident ij" if valid using plain_kind [OF i2] that by (simp add: valid_def)
  have vi: "ij \<noteq> None" if valid using that by (cases ij) (simp_all add: valid_def has_kind_def)
  have okv: "json_ok v" if "ij = Some v" for v using i2 that by (auto simp: node_at_def split: option.splits)
  note n = node_none [OF i2]
  show thesis
  proof (rule that [OF i(2) e(2) p(2)])
    show "handle_message engine al self =
      (case message_of j of
         Response \<Rightarrow> Some self
       | Invalid i \<Rightarrow> answer_error al self (if i = None then None else ident) RPC_INVALID_REQUEST
       | Request _ _ _ \<Rightarrow> request engine al self ident meth params
       | Notice _ _ \<Rightarrow> notification engine al self meth params)"
      using vi n by (cases response; cases bad; cases valid; cases ij) (simp_all add: run spec)
    show "case message_of j of Invalid i \<Rightarrow> i = None \<or> i = member (asc ''id'') j \<and> plain_ident i
       | Request i m p \<Rightarrow> member (asc ''id'') j = Some i \<and> plain_ident (Some i) \<and> json_ok i
       | _ \<Rightarrow> True"
      using plain okv n unfolding ij_def [symmetric]
      by (cases response; cases bad; cases valid; cases ij) (simp_all add: spec, simp add: bad_def)
  qed
qed

definition meets :: "'s engine \<Rightarrow> allocs \<Rightarrow> 's adapter \<Rightarrow> 's adapter \<Rightarrow> message \<Rightarrow> bool" where
  "meets engine al self self' message \<longleftrightarrow>
     (case message of
        Response \<Rightarrow> self' = self
      | Invalid i \<Rightarrow> ad_server self' = ad_server self \<and>
          answered al self self' (ident_of i) (\<lambda>payload. payload = failure_of RPC_INVALID_REQUEST)
      | Request i meth params \<Rightarrow> acts engine al (ad_server self) (ad_server self') \<and>
          answered al self self' i (\<lambda>payload. is_result payload \<or> is_failure payload)
      | Notice meth params \<Rightarrow> acts engine al (ad_server self) (ad_server self') \<and> ad_out self' = ad_out self)"

lemma handle_message_meets:
  assumes ok: "server_ok (ad_server self)" and j: "json_ok j" "tree_of j (ad_tree self)"
  shows "\<exists>self'. handle_message engine al self = Some self' \<and> meets engine al self self' (message_of j)"
proof -
  let ?tree = "ad_tree self"
  obtain ident meth params where n: "node_at ?tree ident (member (asc ''id'') j)" "node_at ?tree meth (member (asc ''method'') j)"
      "node_at ?tree params (member (asc ''params'') j)"
    and run: "handle_message engine al self =
      (case message_of j of
         Response \<Rightarrow> Some self
       | Invalid i \<Rightarrow> answer_error al self (if i = None then None else ident) RPC_INVALID_REQUEST
       | Request _ _ _ \<Rightarrow> request engine al self ident meth params
       | Notice _ _ \<Rightarrow> notification engine al self meth params)"
    and c: "case message_of j of Invalid i \<Rightarrow> i = None \<or> i = member (asc ''id'') j \<and> plain_ident i
       | Request i m p \<Rightarrow> member (asc ''id'') j = Some i \<and> plain_ident (Some i) \<and> json_ok i
       | _ \<Rightarrow> True" by (rule handle_message_branch [OF j])
  show ?thesis
  proof (cases "message_of j")
    case Response
    then show ?thesis by (simp add: run meets_def)
  next
    case (Invalid i)
    have m: "node_at ?tree (if i = None then None else ident) i" "plain_ident i"
      using c n(1) Invalid by (auto simp: plain_ident_def)
    obtain self' where s: "answer_error al self (if i = None then None else ident) RPC_INVALID_REQUEST = Some self'"
      "wrote al self self' (print (reply (ident_of i) (failure_of RPC_INVALID_REQUEST)))"
      by (rule answer_error_writes [OF m])
    then show ?thesis using wrote_fields [OF s(2)] by (auto simp: run Invalid meets_def answered_def)
  next
    case (Request i m p)
    then have i: "node_at ?tree ident (Some i)" "plain_ident (Some i)" using c n(1) by simp_all
    obtain self' where s: "request engine al self ident meth params = Some self'" "handled engine al self self'"
      "answered al self self' (ident_of (Some i)) (\<lambda>payload. is_result payload \<or> is_failure payload)"
      by (rule request_handled [OF ok n(2,3) i])
    then show ?thesis by (auto simp: run Request meets_def ident_of_def handled_def)
  next
    case (Notice m p)
    obtain self' where "notification engine al self meth params = Some self'" "silent engine al self self'"
      by (rule notification_silent [OF ok n(3)])
    then show ?thesis by (auto simp: run Notice meets_def silent_def handled_def)
  qed
qed

subsection \<open>The adapter\<close>

text \<open>
  The answer is the one reply, printed, unless the output failed; what is written is JSON.
\<close>

definition replies :: "'s adapter \<Rightarrow> json \<Rightarrow> (json list \<Rightarrow> bool) \<Rightarrow> bool" where
  "replies self ident p \<longleftrightarrow>
     (\<exists>payload. p payload \<and> (json_ok ident \<longrightarrow> json_ok (reply ident payload)) \<and>
        (jo_failed (ad_out self) \<or> jo_data (ad_out self) = print (reply ident payload)))"

definition adapter_start :: "'s adapter \<Rightarrow> json_tree \<Rightarrow> 's adapter" where
  "adapter_start self tree = self\<lparr>ad_out := (ad_out self)\<lparr>jo_data := [], jo_failed := False\<rparr>, ad_exited := False, ad_tree := tree\<rparr>"

lemma adapter_start_fields [simp]:
  "ad_server (adapter_start self tree) = ad_server self" "ad_tree (adapter_start self tree) = tree"
  "jo_data (ad_out (adapter_start self tree)) = []" "ad_room (adapter_start self tree) = ad_room self"
  "jo_failed (ad_out (adapter_start self tree)) = False"
  by (simp_all add: adapter_start_def)

lemma adapter_handle_read:
  "json_read (al_json al) (ad_tree self) body = Some (status, tree) \<Longrightarrow>
   adapter_handle engine al self body =
     (if status = JSON_READ_OK then handle_message engine al (adapter_start self tree)
      else answer_error al (adapter_start self tree) None
        (if status = JSON_READ_MALFORMED then RPC_PARSE_ERROR else RPC_INTERNAL_ERROR))"
  by (simp add: adapter_handle_def adapter_start_def Let_def)

lemma reply_ok: "is_result payload \<or> (\<exists>code. payload = failure_of code) \<Longrightarrow> json_ok ident \<Longrightarrow> json_ok (reply ident payload)"
  using number_ok_int by (auto simp: reply_def is_result_def result_of_def failure_of_def)

lemma answered_replies:
  assumes "answered al (adapter_start self tree) self' ident p"
    and "\<And>payload. p payload \<Longrightarrow> is_result payload \<or> (\<exists>code. payload = failure_of code)"
  shows "replies self' ident p"
proof -
  obtain payload where p: "p payload"
    "writes (al_json al) (ad_out (adapter_start self tree)) (ad_out self') (print (reply ident payload))"
    using assms(1) unfolding answered_def by blast
  then show ?thesis using writes_content [OF p(2)] reply_ok [OF assms(2) [OF p(1)]] unfolding replies_def by auto
qed

lemma failure_replies: "replies self' ident p \<Longrightarrow> (\<And>payload. p payload \<Longrightarrow> q payload) \<Longrightarrow> replies self' ident q"
  unfolding replies_def by blast

lemma unread_replies:
  assumes "json_read (al_json al) (ad_tree self) body = Some (status, tree)" and "status \<noteq> JSON_READ_OK"
  obtains self' where "adapter_handle engine al self body = Some self'" and "ad_server self' = ad_server self"
    and "replies self' (JLeaf JSON_NULL []) (\<lambda>payload. payload = failure_of
      (if status = JSON_READ_MALFORMED then RPC_PARSE_ERROR else RPC_INTERNAL_ERROR))"
proof -
  let ?code = "if status = JSON_READ_MALFORMED then RPC_PARSE_ERROR else RPC_INTERNAL_ERROR"
  have n: "node_at (ad_tree (adapter_start self tree)) None None" "plain_ident None" by (simp_all add: plain_ident_def)
  obtain self' where s: "answer_error al (adapter_start self tree) None ?code = Some self'"
    "wrote al (adapter_start self tree) self' (print (reply (ident_of None) (failure_of ?code)))"
    by (rule answer_error_writes [OF n])
  have "answered al (adapter_start self tree) self' (JLeaf JSON_NULL []) (\<lambda>payload. payload = failure_of ?code)"
    using wrote_fields(5) [OF s(2)] by (simp add: answered_def ident_of_def)
  then have "replies self' (JLeaf JSON_NULL []) (\<lambda>payload. payload = failure_of ?code)" by (rule answered_replies) blast
  then show thesis using that s(1) wrote_fields(1) [OF s(2)] assms(2) adapter_handle_read [OF assms(1)] by simp
qed

lemma read_meets:
  assumes ok: "server_ok (ad_server self)" and r: "json_read (al_json al) (ad_tree self) body = Some (JSON_READ_OK, tree)"
    and j: "json_ok j" "tree_of j tree"
  obtains self' where "adapter_handle engine al self body = Some self'"
    and "meets engine al (adapter_start self tree) self' (message_of j)"
  using handle_message_meets [of "adapter_start self tree" j engine al] that ok j adapter_handle_read [OF r] by auto

lemma meets_acts: "meets engine al self self' m \<Longrightarrow> acts engine al (ad_server self) (ad_server self')"
  by (auto simp: meets_def split: message.splits)

text \<open>
  C17: Every message is handled.  For any bytes and any answers of the allocators the adapter
  returns, leaves the server in order, and has changed it by at most one call of the server's
  interface.
\<close>

theorem adapter_handles_every_message:
  assumes "server_ok (ad_server self)"
  shows "\<exists>self'. adapter_handle engine al self body = Some self' \<and> server_ok (ad_server self') \<and>
    (ad_server self' = ad_server self \<or>
     (\<exists>call status. serve engine (al_server al) call (ad_server self) = Some (status, ad_server self')))"
proof -
  obtain status tree where r: "json_read (al_json al) (ad_tree self) body = Some (status, tree)"
    using json_read_returns by fastforce
  have "\<exists>self'. adapter_handle engine al self body = Some self' \<and> acts engine al (ad_server self) (ad_server self')"
  proof (cases "status = JSON_READ_OK")
    case True
    obtain j where j: "json_ok j" "tree_of j tree" using json_read_sound r True by blast
    obtain self' where s: "adapter_handle engine al self body = Some self'"
      "meets engine al (adapter_start self tree) self' (message_of j)"
      by (rule read_meets [OF assms r [unfolded True] j])
    then show ?thesis using meets_acts [OF s(2)] by simp
  next
    case False
    obtain self' where "adapter_handle engine al self body = Some self'" "ad_server self' = ad_server self"
      by (rule unread_replies [OF r False])
    then show ?thesis by simp
  qed
  then show ?thesis using acts_ok [OF _ assms] unfolding acts_def by blast
qed

text \<open>
  C18: Every request is answered once, with its identifier, and a notification is never answered.
  The answer to a text that is not JSON is a parse error with a null identifier; a message that
  is no request is refused, with its identifier when it has a valid one; a response is ignored;
  a request's answer is a result or an error, printed as JSON; all unless the output failed for
  want of memory.
\<close>

theorem adapter_answers_requests:
  assumes "server_ok (ad_server self)" and "json_read (al_json al) (ad_tree self) body = Some (status, tree)"
    and "adapter_handle engine al self body = Some self'"
  shows "(status = JSON_READ_MALFORMED \<longrightarrow> replies self' (JLeaf JSON_NULL []) (\<lambda>p. p = failure_of RPC_PARSE_ERROR)) \<and>
    (\<forall>j. status = JSON_READ_OK \<and> json_ok j \<and> tree_of j tree \<longrightarrow>
       (case message_of j of
          Response \<Rightarrow> jo_data (ad_out self') = []
        | Invalid i \<Rightarrow> replies self' (ident_of i) (\<lambda>p. p = failure_of RPC_INVALID_REQUEST)
        | Request i meth params \<Rightarrow> replies self' i (\<lambda>p. is_result p \<or> is_failure p)
        | Notice meth params \<Rightarrow> jo_data (ad_out self') = []))"
proof (intro conjI impI allI)
  assume m: "status = JSON_READ_MALFORMED"
  have "status \<noteq> JSON_READ_OK" by (simp add: m)
  from unread_replies [OF assms(2) this, of engine] show "replies self' (JLeaf JSON_NULL []) (\<lambda>p. p = failure_of RPC_PARSE_ERROR)"
    using assms(3) m by force
next
  fix j
  assume j: "status = JSON_READ_OK \<and> json_ok j \<and> tree_of j tree"
  have m: "meets engine al (adapter_start self tree) self' (message_of j)"
    using read_meets [OF assms(1), of al body tree j engine] assms(2,3) j by force
  show "case message_of j of
          Response \<Rightarrow> jo_data (ad_out self') = []
        | Invalid i \<Rightarrow> replies self' (ident_of i) (\<lambda>p. p = failure_of RPC_INVALID_REQUEST)
        | Request i meth params \<Rightarrow> replies self' i (\<lambda>p. is_result p \<or> is_failure p)
        | Notice meth params \<Rightarrow> jo_data (ad_out self') = []"
    using m by (cases "message_of j") (auto simp: meets_def is_failure_def intro!: answered_replies)
qed

end
