(* ===== verification/AdapterCalls.thy ===== *)
theory AdapterCalls
  imports AdapterServe
begin

text \<open>
  From a call of the server's interface to the message that asks for it and back: the message a
  client spells for a call is read by the JSON reader, taken apart by the adapter and served as
  exactly that call, and a request's answer says what the call answered.
\<close>

subsection \<open>The message of a call\<close>

definition num :: "int \<Rightarrow> json" where
  "num n = JLeaf JSON_NUMBER (spell_int n)"

definition position_json :: "lsp_position \<Rightarrow> json" where
  "position_json p = JNode JSON_OBJECT [str ''line'', num (int (fst p)), str ''character'', num (int (snd p))]"

definition change_json :: "lsp_edit \<Rightarrow> json" where
  "change_json e = JNode JSON_OBJECT
     [str ''range'', JNode JSON_OBJECT [str ''start'', position_json (ed_start e), str ''end'', position_json (ed_end e)],
      str ''text'', JLeaf JSON_STRING (ed_text e)]"

fun unit_name :: "text_unit \<Rightarrow> string" where
  "unit_name TEXT_UNIT_UTF8 = ''utf-8''"
| "unit_name TEXT_UNIT_UTF16 = ''utf-16''"

definition document_json :: "byte list \<Rightarrow> json list \<Rightarrow> json list" where
  "document_json uri others = [str ''textDocument'', JNode JSON_OBJECT ([str ''uri'', JLeaf JSON_STRING uri] @ others)]"

fun call_params :: "lsp_call \<Rightarrow> json" where
  "call_params (Initialize units) = JNode JSON_OBJECT [str ''capabilities'', JNode JSON_OBJECT [str ''general'', JNode JSON_OBJECT
     [str ''positionEncodings'', JNode JSON_ARRAY (map (\<lambda>u. str (unit_name u)) units)]]]"
| "call_params Shutdown = JNode JSON_OBJECT []"
| "call_params (Open uri version source) = JNode JSON_OBJECT
     (document_json uri [str ''version'', num version, str ''text'', JLeaf JSON_STRING source])"
| "call_params (Update uri version edits) = JNode JSON_OBJECT
     (document_json uri [str ''version'', num version] @ [str ''contentChanges'', JNode JSON_ARRAY (map change_json edits)])"
| "call_params (Close uri) = JNode JSON_OBJECT (document_json uri [])"
| "call_params (Complete uri position) = JNode JSON_OBJECT (document_json uri [] @ [str ''position'', position_json position])"

fun call_method :: "lsp_call \<Rightarrow> string" where
  "call_method (Initialize _) = ''initialize''"
| "call_method Shutdown = ''shutdown''"
| "call_method (Open _ _ _) = ''textDocument/didOpen''"
| "call_method (Update _ _ _) = ''textDocument/didChange''"
| "call_method (Close _) = ''textDocument/didClose''"
| "call_method (Complete _ _) = ''textDocument/completion''"

fun is_request :: "lsp_call \<Rightarrow> bool" where
  "is_request (Initialize _) = True"
| "is_request Shutdown = True"
| "is_request (Complete _ _) = True"
| "is_request _ = False"

definition call_message :: "json \<Rightarrow> lsp_call \<Rightarrow> json" where
  "call_message ident call = JNode JSON_OBJECT
     ([str ''jsonrpc'', str ''2.0''] @ (if is_request call then [str ''id'', ident] else []) @
      [str ''method'', str (call_method call), str ''params'', call_params call])"

definition position_ok :: "lsp_position \<Rightarrow> bool" where
  "position_ok p \<longleftrightarrow> fst p < 2 ^ 32 \<and> snd p < 2 ^ 32"

definition version_ok :: "int \<Rightarrow> bool" where
  "version_ok v \<longleftrightarrow> - (2 ^ 31) \<le> v \<and> v < 2 ^ 31"

text \<open>A call at the widths of the interface, and what the adapter keeps of it: two of the units.\<close>

fun call_ok :: "lsp_call \<Rightarrow> bool" where
  "call_ok (Initialize units) = (length units \<le> 2)"
| "call_ok Shutdown = True"
| "call_ok (Open _ version _) = version_ok version"
| "call_ok (Update _ version edits) =
     (version_ok version \<and> length edits < 2 ^ 50 \<and> (\<forall>e \<in> set edits. position_ok (ed_start e) \<and> position_ok (ed_end e)))"
| "call_ok (Close _) = True"
| "call_ok (Complete _ position) = position_ok position"

subsection \<open>The message is JSON\<close>

lemma jsons_ok_all: "(\<And>j. j \<in> set js \<Longrightarrow> json_ok j) \<Longrightarrow> jsons_ok js"
  by (induction js) simp_all

lemma jsons_depth_all: "(\<And>j. j \<in> set js \<Longrightarrow> json_depth j \<le> n) \<Longrightarrow> json_depths js \<le> n"
  by (induction js) simp_all

lemma num_ok [simp]: "json_ok (num n)" "json_depth (num n) = 0"
  by (simp_all add: num_def number_ok_int)

lemma position_json_ok [simp]: "json_ok (position_json p)" "json_depth (position_json p) = 1"
  by (simp_all add: position_json_def)

lemma change_json_ok [simp]: "json_ok (change_json e)" "json_depth (change_json e) = 3"
  by (simp_all add: change_json_def)

lemma call_params_ok: "json_ok (call_params call)" "json_depth (call_params call) \<le> 10"
proof -
  have s: "jsons_ok (map (\<lambda>u. str (unit_name u)) units)" "json_depths (map (\<lambda>u. str (unit_name u)) units) \<le> 0" for units
    by (rule jsons_ok_all, force, rule jsons_depth_all, force)
  have c: "jsons_ok (map change_json es)" "json_depths (map change_json es) \<le> 3" "json_depths (map change_json es) \<le> 8" for es
    by (rule jsons_ok_all, force, (rule jsons_depth_all, force)+)
  show "json_ok (call_params call)" by (cases call) (simp_all add: document_json_def s c)
  show "json_depth (call_params call) \<le> 10"
    using s(2) c(3) by (cases call) (simp_all add: document_json_def)
qed

definition id_ok :: "json \<Rightarrow> bool" where
  "id_ok ident \<longleftrightarrow> json_ok ident \<and> plain_ident (Some ident)"

lemma call_message_ok:
  assumes "id_ok ident"
  shows "json_ok (call_message ident call)" and "json_depth (call_message ident call) \<le> JSON_DEPTH"
proof -
  have i: "json_ok ident" "json_depth ident = 0" using assms by (auto simp: id_ok_def plain_ident_def)
  show "json_ok (call_message ident call)" using i call_params_ok(1) by (simp add: call_message_def)
  show "json_depth (call_message ident call) \<le> JSON_DEPTH"
    using i call_params_ok(2) [of call] by (simp add: call_message_def JSON_DEPTH_def)
qed

lemma call_member:
  "member (asc ''id'') (call_message ident call) = (if is_request call then Some ident else None)"
  "member (asc ''method'') (call_message ident call) = Some (str (call_method call))"
  "member (asc ''params'') (call_message ident call) = Some (call_params call)"
  "member (asc ''jsonrpc'') (call_message ident call) = Some (str ''2.0'')"
  by (simp_all add: call_message_def member_def)

lemma call_kind: "has_kind JSON_OBJECT (Some (call_message ident call))"
  by (simp add: call_message_def has_kind_def)

lemma message_of_call:
  assumes "id_ok ident"
  shows "message_of (call_message ident call) =
    (if is_request call then Request ident (asc (call_method call)) (Some (call_params call))
     else Notice (asc (call_method call)) (Some (call_params call)))"
proof -
  have "has_kind JSON_NUMBER (Some ident) \<or> has_kind JSON_STRING (Some ident)"
    using assms by (auto simp: id_ok_def plain_ident_def has_kind_def)
  then show ?thesis unfolding message_of_def Let_def call_member
    by (auto simp: call_kind has_kind_def [of JSON_STRING "Some (JLeaf JSON_STRING _)"] leaf_bytes_def simp del: asc_Cons)
qed


subsection \<open>The params read back\<close>

lemma member_is:
  assumes "node_at tree x (Some j)" and "member key j = r"
  obtains y where "json_member tree x key = Some y" and "node_at tree y r"
  using member_at [OF assms(1), of key] assms(2) by auto

lemma node_num:
  assumes "node_at tree x (Some (num n))" and "- (2 ^ 63) \<le> lo" and "hi < 2 ^ 63" and "lo \<le> n" and "n \<le> hi"
  shows "json_integer tree x lo hi = Some n"
proof -
  obtain i off where "x = Some i" "JsonWrite.holds tree i off [JLeaf JSON_NUMBER (spell_int n)]"
    using assms(1) by (auto simp: node_at_def num_def split: option.splits)
  then show ?thesis using json_integer_spelled [of tree i off n lo hi] assms by simp
qed

lemma node_string:
  assumes "node_at tree x (Some (JLeaf JSON_STRING bs))"
  obtains i where "x = Some i" and "json_bytes tree i = bs" and "kind_is tree x JSON_STRING"
proof -
  obtain i off where i: "x = Some i" "JsonWrite.holds tree i off [JLeaf JSON_STRING bs]"
    using assms by (auto simp: node_at_def split: option.splits)
  have "kind_is tree x JSON_STRING" by (simp add: node_has_kind [OF assms] has_kind_def)
  then show thesis using that i holds_bytes [OF i(2)] by simp
qed

lemma position_reads:
  assumes "node_at tree x (Some (position_json p))" and "position_ok p"
  shows "read_position tree x = Some (Some p)"
proof -
  have m: "member (asc ''line'') (position_json p) = Some (num (int (fst p)))"
    "member (asc ''character'') (position_json p) = Some (num (int (snd p)))" by (simp_all add: position_json_def member_def)
  obtain a where a: "json_member tree x (asc ''line'') = Some a" "node_at tree a (Some (num (int (fst p))))"
    by (rule member_is [OF assms(1) m(1)])
  obtain b where b: "json_member tree x (asc ''character'') = Some b" "node_at tree b (Some (num (int (snd p))))"
    by (rule member_is [OF assms(1) m(2)])
  have "json_integer tree a 0 UINT32_MAX = Some (int (fst p))" "json_integer tree b 0 UINT32_MAX = Some (int (snd p))"
    using node_num [OF a(2), of 0 UINT32_MAX] node_num [OF b(2), of 0 UINT32_MAX] assms(2)
    by (simp_all add: UINT32_MAX_def position_ok_def)
  then show ?thesis by (simp add: read_position_def a(1) b(1) del: asc_Cons)
qed

lemma scope_reads:
  assumes "node_at tree x (Some (JNode JSON_OBJECT [str ''start'', position_json p, str ''end'', position_json q]))"
    and "position_ok p" and "position_ok q"
  shows "read_scope tree x = Some (Some (p, q))"
proof -
  let ?j = "JNode JSON_OBJECT [str ''start'', position_json p, str ''end'', position_json q]"
  have m: "member (asc ''start'') ?j = Some (position_json p)" "member (asc ''end'') ?j = Some (position_json q)"
    by (simp_all add: member_def)
  obtain a where a: "json_member tree x (asc ''start'') = Some a" "node_at tree a (Some (position_json p))"
    by (rule member_is [OF assms(1) m(1)])
  obtain b where b: "json_member tree x (asc ''end'') = Some b" "node_at tree b (Some (position_json q))"
    by (rule member_is [OF assms(1) m(2)])
  show ?thesis
    by (simp add: read_scope_def a(1) b(1) position_reads [OF a(2) assms(2)] position_reads [OF b(2) assms(3)] del: asc_Cons)
qed

lemma edit_room_grows: "(\<And>room. grant room) \<Longrightarrow> count < 2 ^ 50 \<Longrightarrow> \<exists>room'. edit_room grant count room = Some room'"
  by (cases "count = room"; cases "room = 0") (simp_all add: edit_room_def SIZE_MAX_def)

lemma changes_loop_reads:
  assumes "\<And>room. grant room"
  shows "JsonWrite.holds tree i off (map change_json es) \<Longrightarrow> jv_end (jt_values tree ! c) = i + nodess (map change_json es) \<Longrightarrow>
     length edits + length es < 2 ^ 50 \<Longrightarrow> \<forall>e \<in> set es. position_ok (ed_start e) \<and> position_ok (ed_end e) \<Longrightarrow>
     \<exists>room'. changes_loop grant tree c (if es = [] then None else Some i) edits room = Some (room', Some (edits @ es))"
proof (induction es arbitrary: i off edits room)
  case Nil
  show ?case by (subst changes_loop.simps) simp
next
  case (Cons e es)
  let ?js = "map change_json es"
  have h: "JsonWrite.holds tree i off (change_json e # ?js)" using Cons.prems(1) by simp
  have n: "json_next tree c i = (if es = [] then None else Some (i + nodes (change_json e)))"
    using next_member [OF h, of c] Cons.prems(2) by simp
  have je: "jv_end (jt_values tree ! c) = i + nodes (change_json e) + nodess ?js" using Cons.prems(2) by simp
  have node: "node_at tree (Some i) (Some (change_json e))"
    by (rule member_node [OF h]) (use jsons_ok_all [of ?js] in force)
  let ?range = "JNode JSON_OBJECT [str ''start'', position_json (ed_start e), str ''end'', position_json (ed_end e)]"
  have m: "member (asc ''text'') (change_json e) = Some (JLeaf JSON_STRING (ed_text e))"
    "member (asc ''range'') (change_json e) = Some ?range" by (simp_all add: change_json_def member_def)
  obtain a where a: "json_member tree (Some i) (asc ''text'') = Some a" "node_at tree a (Some (JLeaf JSON_STRING (ed_text e)))"
    by (rule member_is [OF node m(1)])
  obtain b where b: "json_member tree (Some i) (asc ''range'') = Some b" "node_at tree b (Some ?range)"
    by (rule member_is [OF node m(2)])
  have s: "read_scope tree b = Some (Some (ed_start e, ed_end e))" by (rule scope_reads [OF b(2)]) (use Cons.prems(4) in simp_all)
  have bn: "b \<noteq> None" using node_none [OF b(2)] by simp
  obtain k where k: "a = Some k" "json_bytes tree k = ed_text e" "kind_is tree a JSON_STRING" by (rule node_string [OF a(2)])
  obtain room1 where r: "edit_room grant (length edits) room = Some room1"
    using edit_room_grows [OF assms] Cons.prems(3) by fastforce
  have ed: "\<lparr>ed_start = ed_start e, ed_end = ed_end e, ed_text = ed_text e\<rparr> = e" by simp
  obtain room' where "changes_loop grant tree c (if es = [] then None else Some (i + nodes (change_json e))) (edits @ [e]) room1 =
      Some (room', Some ((edits @ [e]) @ es))"
    using Cons.IH [OF holds_Cons(2) [OF h] je, of "edits @ [e]" room1] Cons.prems(3,4) by auto
  then show ?case
    by (subst changes_loop.simps) (simp add: a(1) b(1) k(1,2) k(3) [unfolded k(1)] bn s r n ed del: asc_Cons)
qed

lemma offered_loop_reads:
  "JsonWrite.holds tree i off (map (\<lambda>u. str (unit_name u)) us) \<Longrightarrow>
   jv_end (jt_values tree ! c) = i + nodess (map (\<lambda>u. str (unit_name u)) us) \<Longrightarrow> length units + length us \<le> 2 \<Longrightarrow>
     offered_loop tree c (if us = [] then None else Some i) units = Some (units @ us)"
proof (induction us arbitrary: i off units)
  case Nil
  show ?case by (subst offered_loop.simps) simp
next
  case (Cons u us)
  let ?js = "map (\<lambda>u. str (unit_name u)) us"
  have h: "JsonWrite.holds tree i off (str (unit_name u) # ?js)" using Cons.prems(1) by simp
  have n: "json_next tree c i = (if us = [] then None else Some (i + 1))"
    using next_member [OF h, of c] Cons.prems(2) by simp
  have node: "node_at tree (Some i) (Some (str (unit_name u)))"
    by (rule member_node [OF h]) (use jsons_ok_all [of ?js] in force)
  have "asc ''utf-8'' \<noteq> asc ''utf-16''" by simp
  then have k: "(if length units < 2 \<and> json_is tree (Some i) (asc ''utf-8'') then units @ [TEXT_UNIT_UTF8]
         else if length units < 2 \<and> json_is tree (Some i) (asc ''utf-16'') then units @ [TEXT_UNIT_UTF16]
         else units) = units @ [u]" using Cons.prems(3)
    by (cases u) (simp_all add: node_json_is [OF node] del: asc_Cons)
  have je: "jv_end (jt_values tree ! c) = i + nodes (str (unit_name u)) + nodess ?js" using Cons.prems(2) by simp
  have "offered_loop tree c (if us = [] then None else Some (i + 1)) (units @ [u]) = Some ((units @ [u]) @ us)"
    using Cons.IH [OF holds_Cons(2) [OF h] je, of "units @ [u]"] Cons.prems(3) by (simp only: nodes.simps) simp
  moreover have "offered_loop tree c (Some i) units = offered_loop tree c (json_next tree c i) (units @ [u])"
    by (subst offered_loop.simps) (simp only: k option.sel option.distinct if_False)
  ultimately show ?case by (simp add: n)
qed


subsection \<open>The call is served\<close>

definition status_reply :: "lsp_status \<Rightarrow> json list \<Rightarrow> bool" where
  "status_reply status payload \<longleftrightarrow> (if status = LSP_OK then is_result payload else payload = failure_of (status_code status))"

lemma answer_status:
  assumes d: "dealt engine al self (ident_of j) (status_code status, self1)"
    and i: "node_at (ad_tree self) ident j" "plain_ident j"
  obtains self' where "(if status_code status \<noteq> 0 then answer_error al self1 ident (status_code status) else Some self1) = Some self'"
    and "ad_server self' = ad_server self1" and "answered al self self' (ident_of j) (status_reply status)"
proof (cases "status = LSP_OK")
  case True
  then show thesis using that [of self1] d by (auto simp: dealt_def answered_def status_reply_def)
next
  case False
  then have e: "ad_tree self1 = ad_tree self" "ad_out self1 = ad_out self" using d by (simp_all add: dealt_def)
  have n: "node_at (ad_tree self1) ident j" using i(1) e(1) by simp
  obtain self' where s: "answer_error al self1 ident (status_code status) = Some self'"
    "wrote al self1 self' (print (reply (ident_of j) (failure_of (status_code status))))"
    by (rule answer_error_writes [OF n i(2)])
  have "answered al self self' (ident_of j) (status_reply status)"
    using wrote_fields(5) [OF s(2)] False by (auto simp: answered_def status_reply_def e(2))
  then show thesis using that s(1) wrote_fields(1) [OF s(2)] False by simp
qed

lemma request_handler:
  assumes "node_at (ad_tree self) meth (Some (str m))"
  shows "m = ''initialize'' \<Longrightarrow> request engine al self ident meth params =
      Option.bind (initialize engine al self ident params)
        (\<lambda>(code, self). if code \<noteq> 0 then answer_error al self ident code else Some self)"
    and "m = ''shutdown'' \<Longrightarrow> lsp_shutdown (ad_server self) = (status, sv) \<Longrightarrow> request engine al self ident meth params =
      Option.bind (if status = LSP_OK
        then map_option (\<lambda>self. (0, raw al '',\"result\":null}'' self)) (answer al (self\<lparr>ad_server := sv\<rparr>) ident)
        else Some (status_code status, self\<lparr>ad_server := sv\<rparr>))
        (\<lambda>(code, self). if code \<noteq> 0 then answer_error al self ident code else Some self)"
    and "m = ''textDocument/completion'' \<Longrightarrow> request engine al self ident meth params =
      Option.bind (complete engine al self ident params)
        (\<lambda>(code, self). if code \<noteq> 0 then answer_error al self ident code else Some self)"
proof -
  have d: "asc ''shutdown'' \<noteq> asc ''initialize''" "asc ''textDocument/completion'' \<noteq> asc ''initialize''"
    "asc ''textDocument/completion'' \<noteq> asc ''shutdown''" by simp_all
  note n = node_json_is [OF assms]
  show "m = ''initialize'' \<Longrightarrow> request engine al self ident meth params =
      Option.bind (initialize engine al self ident params)
        (\<lambda>(code, self). if code \<noteq> 0 then answer_error al self ident code else Some self)"
    by (simp add: request_def n del: asc_Cons)
  show "m = ''shutdown'' \<Longrightarrow> lsp_shutdown (ad_server self) = (status, sv) \<Longrightarrow> request engine al self ident meth params =
      Option.bind (if status = LSP_OK
        then map_option (\<lambda>self. (0, raw al '',\"result\":null}'' self)) (answer al (self\<lparr>ad_server := sv\<rparr>) ident)
        else Some (status_code status, self\<lparr>ad_server := sv\<rparr>))
        (\<lambda>(code, self). if code \<noteq> 0 then answer_error al self ident code else Some self)"
    by (simp add: request_def n d Let_def del: asc_Cons)
  show "m = ''textDocument/completion'' \<Longrightarrow> request engine al self ident meth params =
      Option.bind (complete engine al self ident params)
        (\<lambda>(code, self). if code \<noteq> 0 then answer_error al self ident code else Some self)"
    by (simp add: request_def n d del: asc_Cons)
qed

text \<open>The nodes of the params of a document.\<close>

lemma document_node:
  assumes "node_at tree x (Some (JNode JSON_OBJECT (document_json uri others @ rest)))"
  obtains document where "json_member tree x (asc ''textDocument'') = Some document"
    and "node_at tree document (Some (JNode JSON_OBJECT (str ''uri'' # JLeaf JSON_STRING uri # others)))"
  by (rule member_is [OF assms, of "asc ''textDocument''" "Some (JNode JSON_OBJECT (str ''uri'' # JLeaf JSON_STRING uri # others))"])
    (simp_all add: member_def document_json_def)

lemma document_reads:
  assumes n: "node_at tree x (Some (JNode JSON_OBJECT (document_json uri others @ rest)))"
  obtains k where "read_uri tree x = Some (Some k)" and "json_bytes tree k = uri"
proof -
  obtain document where d: "json_member tree x (asc ''textDocument'') = Some document"
    "node_at tree document (Some (JNode JSON_OBJECT (str ''uri'' # JLeaf JSON_STRING uri # others)))"
    by (rule document_node [OF n])
  obtain u where u: "json_member tree document (asc ''uri'') = Some u" "node_at tree u (Some (JLeaf JSON_STRING uri))"
    by (rule member_is [OF d(2), of "asc ''uri''" "Some (JLeaf JSON_STRING uri)"]) (simp_all add: member_def)
  obtain k where k: "u = Some k" "json_bytes tree k = uri" "kind_is tree u JSON_STRING" by (rule node_string [OF u(2)])
  have "read_uri tree x = Some (Some k)" using k by (simp add: read_uri_def d(1) u(1) del: asc_Cons)
  then show thesis using that k(2) by blast
qed

lemma document_version:
  assumes n: "node_at tree x (Some (JNode JSON_OBJECT (document_json uri (str ''version'' # num version # others) @ rest)))"
    and v: "version_ok version"
  shows "read_version tree x = Some (Some version)"
proof -
  obtain document where d: "json_member tree x (asc ''textDocument'') = Some document"
    "node_at tree document (Some (JNode JSON_OBJECT (str ''uri'' # JLeaf JSON_STRING uri # str ''version'' # num version # others)))"
    by (rule document_node [OF n])
  obtain y where y: "json_member tree document (asc ''version'') = Some y" "node_at tree y (Some (num version))"
    by (rule member_is [OF d(2), of "asc ''version''" "Some (num version)"]) (simp_all add: member_def)
  show ?thesis
    using node_num [OF y(2), of "- (2 ^ 31)" "2 ^ 31 - 1"] v by (simp add: read_version_def d(1) y(1) version_ok_def del: asc_Cons)
qed

lemma document_text:
  assumes n: "node_at tree x (Some (JNode JSON_OBJECT
      (document_json uri (str ''version'' # num version # str ''text'' # JLeaf JSON_STRING source # others) @ rest)))"
  obtains document l where "json_member tree x (asc ''textDocument'') = Some document"
    and "json_member tree document (asc ''text'') = Some (Some l)" and "json_bytes tree l = source" and "kind_is tree (Some l) JSON_STRING"
proof -
  obtain document where d: "json_member tree x (asc ''textDocument'') = Some document"
    "node_at tree document (Some (JNode JSON_OBJECT
      (str ''uri'' # JLeaf JSON_STRING uri # str ''version'' # num version # str ''text'' # JLeaf JSON_STRING source # others)))"
    by (rule document_node [OF n])
  obtain y where y: "json_member tree document (asc ''text'') = Some y" "node_at tree y (Some (JLeaf JSON_STRING source))"
    by (rule member_is [OF d(2), of "asc ''text''" "Some (JLeaf JSON_STRING source)"]) (simp_all add: member_def)
  obtain l where "y = Some l" "json_bytes tree l = source" "kind_is tree y JSON_STRING" by (rule node_string [OF y(2)])
  then show thesis using that d(1) y(1) by blast
qed

definition request_serves :: "'s engine \<Rightarrow> allocs \<Rightarrow> 's adapter \<Rightarrow> json \<Rightarrow> lsp_call \<Rightarrow> 's adapter option \<Rightarrow> bool" where
  "request_serves engine al self ident call r \<longleftrightarrow>
     (\<exists>self' status. r = Some self' \<and> serve engine (al_server al) call (ad_server self) = Some (status, ad_server self') \<and>
        answered al self self' ident (status_reply status))"

lemma request_servesI:
  assumes d: "dealt engine al self (ident_of j) (status_code status, self1)"
    and i: "node_at (ad_tree self) ident j" "plain_ident j"
    and s: "serve engine (al_server al) call (ad_server self) = Some (status, ad_server self1)"
    and r: "r = (if status_code status \<noteq> 0 then answer_error al self1 ident (status_code status) else Some self1)"
  shows "request_serves engine al self (ident_of j) call r"
  by (rule answer_status [OF d i]) (use s r in \<open>auto simp: request_serves_def\<close>)

lemma serve_initialize:
  "lsp_initialize engine units sv = (status, given, sv') \<Longrightarrow> serve engine grant (Initialize units) sv = Some (status, sv')"
  by (simp add: serve_def)

lemma initialize_serves:
  assumes m: "node_at (ad_tree self) meth (Some (str ''initialize''))"
    and p: "node_at (ad_tree self) params (Some (call_params (Initialize units)))" and u: "length units \<le> 2"
    and i: "node_at (ad_tree self) ident j" "plain_ident j"
  shows "request_serves engine al self (ident_of j) (Initialize units) (request engine al self ident meth params)"
proof -
  let ?tree = "ad_tree self" and ?js = "map (\<lambda>u. str (unit_name u)) units"
  let ?c = "JNode JSON_ARRAY ?js"
  let ?b = "JNode JSON_OBJECT [str ''positionEncodings'', ?c]"
  let ?a = "JNode JSON_OBJECT [str ''general'', ?b]"
  obtain a where a: "json_member ?tree params (asc ''capabilities'') = Some a" "node_at ?tree a (Some ?a)"
    by (rule member_is [OF p, of "asc ''capabilities''" "Some ?a"]) (simp_all add: member_def)
  obtain b where b: "json_member ?tree a (asc ''general'') = Some b" "node_at ?tree b (Some ?b)"
    by (rule member_is [OF a(2), of "asc ''general''" "Some ?b"]) (simp_all add: member_def)
  obtain c where c: "json_member ?tree b (asc ''positionEncodings'') = Some c" "node_at ?tree c (Some ?c)"
    by (rule member_is [OF b(2), of "asc ''positionEncodings''" "Some ?c"]) (simp_all add: member_def)
  have obj: "kind_is ?tree params JSON_OBJECT" by (simp add: node_has_kind [OF p] has_kind_def)
  have arr: "kind_is ?tree c JSON_ARRAY" by (simp add: node_has_kind [OF c(2)] has_kind_def)
  obtain n off where n: "c = Some n" "JsonWrite.holds ?tree n off [?c]"
    using c(2) by (auto simp: node_at_def split: option.splits)
  have "offered_loop ?tree n (if units = [] then None else Some (n + 1)) [] = Some ([] @ units)"
    by (rule offered_loop_reads [OF holds_node [OF n(2)]]) (use holds_head [OF n(2)] u in simp_all)
  then have l: "(if kind_is ?tree c JSON_ARRAY then offered_loop ?tree (the c) (json_first ?tree (the c)) [] else Some []) = Some units"
    using arr first_member [OF n(2)] by (simp add: n(1))
  obtain status given sv where r: "lsp_initialize engine units (ad_server self) = (status, given, sv)" by (metis prod_cases3)
  obtain self1 where s: "initialize engine al self ident params = Some (status_code status, self1)" "ad_server self1 = sv"
    "dealt engine al self (ident_of j) (status_code status, self1)"
    by (rule initialize_runs [OF i obj a(1) b(1) c(1) l r])
  show ?thesis
    by (rule request_servesI [OF s(3) i]) (simp_all add: serve_initialize [OF r] s(1,2) request_handler(1) [OF m])
qed

lemma shutdown_serves:
  assumes m: "node_at (ad_tree self) meth (Some (str ''shutdown''))" and i: "node_at (ad_tree self) ident j" "plain_ident j"
  shows "request_serves engine al self (ident_of j) Shutdown (request engine al self ident meth params)"
proof -
  obtain status sv where r: "lsp_shutdown (ad_server self) = (status, sv)" by fastforce
  obtain self1 code where s: "(if status = LSP_OK
      then map_option (\<lambda>self. (0, raw al '',\"result\":null}'' self)) (answer al (self\<lparr>ad_server := sv\<rparr>) ident)
      else Some (status_code status, self\<lparr>ad_server := sv\<rparr>)) = Some (code, self1)"
    "dealt engine al self (ident_of j) (code, self1)" "code = status_code status" "ad_server self1 = sv"
    using shutdown_dealt [OF i r, of al engine] by (metis prod.exhaust_sel)
  show ?thesis
    by (rule request_servesI [OF s(2) [unfolded s(3)] i])
      (use s(1,3) in \<open>simp_all add: serve_def r s(4) request_handler(2) [OF m refl r]\<close>)
qed

lemma complete_serves:
  assumes ok: "server_ok (ad_server self)" and m: "node_at (ad_tree self) meth (Some (str ''textDocument/completion''))"
    and p: "node_at (ad_tree self) params (Some (call_params (Complete uri position)))" and q: "position_ok position"
    and i: "node_at (ad_tree self) ident j" "plain_ident j"
  shows "request_serves engine al self (ident_of j) (Complete uri position) (request engine al self ident meth params)"
proof -
  let ?tree = "ad_tree self"
  have d: "node_at ?tree params (Some (JNode JSON_OBJECT (document_json uri [] @ [str ''position'', position_json position])))"
    using p by simp
  obtain k where k: "read_uri ?tree params = Some (Some k)" "json_bytes ?tree k = uri" by (rule document_reads [OF d])
  obtain a where a: "json_member ?tree params (asc ''position'') = Some a" "node_at ?tree a (Some (position_json position))"
    by (rule member_is [OF p, of "asc ''position''" "Some (position_json position)"]) (simp_all add: member_def document_json_def)
  obtain status sv where s: "serve engine (al_server al) (Complete (json_bytes ?tree k) position) (ad_server self) = Some (status, sv)"
    using serve_total [OF ok] by blast
  obtain self1 where r: "complete engine al self ident params = Some (status_code status, self1)" "ad_server self1 = sv"
    "dealt engine al self (ident_of j) (status_code status, self1)"
    by (rule complete_runs [OF i k(1) a(1) position_reads [OF a(2) q] s])
  show ?thesis
    by (rule request_servesI [OF r(3) i]) (use s k(2) in \<open>simp_all add: r(1,2) request_handler(3) [OF m]\<close>)
qed


definition notice_serves :: "'s engine \<Rightarrow> allocs \<Rightarrow> 's adapter \<Rightarrow> lsp_call \<Rightarrow> 's adapter option \<Rightarrow> bool" where
  "notice_serves engine al self call r \<longleftrightarrow>
     (\<exists>self' status. r = Some self' \<and> serve engine (al_server al) call (ad_server self) = Some (status, ad_server self') \<and>
        ad_out self' = ad_out self)"

lemma notification_handler:
  assumes "node_at (ad_tree self) meth (Some (str m))"
  shows "m = ''textDocument/didOpen'' \<Longrightarrow> notification engine al self meth params = open_document engine al self params"
    and "m = ''textDocument/didChange'' \<Longrightarrow> notification engine al self meth params = update_document engine al self params"
    and "m = ''textDocument/didClose'' \<Longrightarrow> read_uri (ad_tree self) params = Some (Some k) \<Longrightarrow>
      notification engine al self meth params =
        map_option (\<lambda>(_, sv). self\<lparr>ad_server := sv\<rparr>) (lsp_close (ad_server self) (json_bytes (ad_tree self) k))"
proof -
  have d: "asc ''textDocument/didOpen'' \<noteq> asc ''exit''" "asc ''textDocument/didChange'' \<noteq> asc ''exit''"
    "asc ''textDocument/didClose'' \<noteq> asc ''exit''" "asc ''textDocument/didChange'' \<noteq> asc ''textDocument/didOpen''"
    "asc ''textDocument/didClose'' \<noteq> asc ''textDocument/didOpen''"
    "asc ''textDocument/didClose'' \<noteq> asc ''textDocument/didChange''" by simp_all
  note n = node_json_is [OF assms]
  show "m = ''textDocument/didOpen'' \<Longrightarrow> notification engine al self meth params = open_document engine al self params"
    by (simp add: notification_def n d del: asc_Cons)
  show "m = ''textDocument/didChange'' \<Longrightarrow> notification engine al self meth params = update_document engine al self params"
    by (simp add: notification_def n d del: asc_Cons)
  show "m = ''textDocument/didClose'' \<Longrightarrow> read_uri (ad_tree self) params = Some (Some k) \<Longrightarrow>
      notification engine al self meth params =
        map_option (\<lambda>(_, sv). self\<lparr>ad_server := sv\<rparr>) (lsp_close (ad_server self) (json_bytes (ad_tree self) k))"
    by (cases "lsp_close (ad_server self) (json_bytes (ad_tree self) k)") (simp_all add: notification_def n d split_beta del: asc_Cons)
qed

lemma open_serves:
  assumes ok: "server_ok (ad_server self)" and m: "node_at (ad_tree self) meth (Some (str ''textDocument/didOpen''))"
    and p: "node_at (ad_tree self) params (Some (call_params (Open uri version source)))" and v: "version_ok version"
  shows "notice_serves engine al self (Open uri version source) (notification engine al self meth params)"
proof -
  let ?tree = "ad_tree self"
  have d: "node_at ?tree params (Some (JNode JSON_OBJECT
      (document_json uri (str ''version'' # num version # str ''text'' # JLeaf JSON_STRING source # []) @ [])))"
    using p by simp
  obtain k where k: "read_uri ?tree params = Some (Some k)" "json_bytes ?tree k = uri"
    by (rule document_reads [OF d])
  note vs = document_version [OF d v]
  obtain document l where l: "json_member ?tree params (asc ''textDocument'') = Some document"
    "json_member ?tree document (asc ''text'') = Some (Some l)" "json_bytes ?tree l = source" "kind_is ?tree (Some l) JSON_STRING"
    by (rule document_text [OF d])
  obtain status sv where s: "serve engine (al_server al) (Open uri version source) (ad_server self) = Some (status, sv)"
    using serve_total [OF ok] by blast
  then have "open_document engine al self params = Some (self\<lparr>ad_server := sv\<rparr>)"
    by (simp add: open_document_def Let_def k vs l serve_def del: asc_Cons)
  then show ?thesis using s by (simp add: notice_serves_def notification_handler(1) [OF m])
qed

lemma close_serves:
  assumes ok: "server_ok (ad_server self)" and m: "node_at (ad_tree self) meth (Some (str ''textDocument/didClose''))"
    and p: "node_at (ad_tree self) params (Some (call_params (Close uri)))"
  shows "notice_serves engine al self (Close uri) (notification engine al self meth params)"
proof -
  have d: "node_at (ad_tree self) params (Some (JNode JSON_OBJECT (document_json uri [] @ [])))" using p by simp
  obtain k where k: "read_uri (ad_tree self) params = Some (Some k)" "json_bytes (ad_tree self) k = uri" by (rule document_reads [OF d])
  obtain status sv where s: "serve engine (al_server al) (Close uri) (ad_server self) = Some (status, sv)"
    using serve_total [OF ok] by blast
  then have "lsp_close (ad_server self) uri = Some (status, sv)" by (simp add: serve_def)
  then show ?thesis using s by (simp add: notice_serves_def notification_handler(3) [OF m refl k(1)] k(2))
qed

lemma update_serves:
  assumes ok: "server_ok (ad_server self)" and m: "node_at (ad_tree self) meth (Some (str ''textDocument/didChange''))"
    and p: "node_at (ad_tree self) params (Some (call_params (Update uri version edits)))"
    and c: "call_ok (Update uri version edits)" and room: "\<And>room. al_edits al room"
  shows "notice_serves engine al self (Update uri version edits) (notification engine al self meth params)"
proof -
  let ?tree = "ad_tree self" and ?js = "map change_json edits"
  have d: "node_at ?tree params (Some (JNode JSON_OBJECT
      (document_json uri (str ''version'' # num version # []) @ [str ''contentChanges'', JNode JSON_ARRAY ?js])))"
    using p by simp
  obtain k where k: "read_uri ?tree params = Some (Some k)" "json_bytes ?tree k = uri"
    by (rule document_reads [OF d])
  have vs: "read_version ?tree params = Some (Some version)" by (rule document_version [OF d]) (use c in simp)
  obtain a where a: "json_member ?tree params (asc ''contentChanges'') = Some a" "node_at ?tree a (Some (JNode JSON_ARRAY ?js))"
    by (rule member_is [OF p, of "asc ''contentChanges''" "Some (JNode JSON_ARRAY ?js)"]) (simp_all add: member_def document_json_def)
  have arr: "kind_is ?tree a JSON_ARRAY" by (simp add: node_has_kind [OF a(2)] has_kind_def)
  obtain n off where n: "a = Some n" "JsonWrite.holds ?tree n off [JNode JSON_ARRAY ?js]"
    using a(2) by (auto simp: node_at_def split: option.splits)
  have "\<exists>room'. changes_loop (al_edits al) ?tree n (if edits = [] then None else Some (n + 1)) [] (ad_room self) =
      Some (room', Some ([] @ edits))"
    by (rule changes_loop_reads [OF room holds_node [OF n(2)]]) (use holds_head [OF n(2)] c in simp_all)
  then obtain room' where l: "changes_loop (al_edits al) ?tree n (json_first ?tree n) [] (ad_room self) = Some (room', Some edits)"
    using first_member [OF n(2)] by auto
  obtain status sv where s: "serve engine (al_server al) (Update uri version edits) (ad_server self) = Some (status, sv)"
    using serve_total [OF ok] by blast
  then have "update_document engine al self params = Some (self\<lparr>ad_room := room', ad_server := sv\<rparr>)"
    using arr by (simp add: update_document_def Let_def k vs a(1) n(1) l serve_def del: asc_Cons)
  then show ?thesis using s by (simp add: notice_serves_def notification_handler(2) [OF m])
qed

lemma request_call_serves:
  assumes "server_ok (ad_server self)" and "node_at (ad_tree self) meth (Some (str (call_method call)))"
    and "node_at (ad_tree self) params (Some (call_params call))" and "call_ok call" and "is_request call"
    and "node_at (ad_tree self) ident (Some i)" "plain_ident (Some i)"
  shows "request_serves engine al self i call (request engine al self ident meth params)"
proof -
  have "request_serves engine al self (ident_of (Some i)) call (request engine al self ident meth params)"
    using assms by (cases call) (simp_all del: call_params.simps add: initialize_serves shutdown_serves complete_serves)
  then show ?thesis by (simp add: ident_of_def)
qed

lemma notice_call_serves:
  assumes "server_ok (ad_server self)" and "node_at (ad_tree self) meth (Some (str (call_method call)))"
    and "node_at (ad_tree self) params (Some (call_params call))" and "call_ok call" and "\<not> is_request call"
    and "\<And>room. al_edits al room"
  shows "notice_serves engine al self call (notification engine al self meth params)"
  using assms by (cases call) (simp_all del: call_params.simps call_ok.simps(4) add: open_serves close_serves update_serves)

text \<open>
  C16: A message is served as the call it spells.  Take any call at the widths of the server's
  interface and the message a client writes for it.  Read from its printed bytes, unless memory
  for reading it or for its edits is refused, the adapter makes exactly that call of the server;
  a request is answered with its identifier, by a result when the call succeeded and by the error
  of the call's status when not, and a notification is not answered.
\<close>

theorem adapter_serves_call:
  assumes "server_ok (ad_server self)" and "call_ok call" and "id_ok ident" and "\<forall>room. al_edits al room"
    and "json_read (al_json al) (ad_tree self) (print (call_message ident call)) = Some (read, tree)" and "read \<noteq> JSON_READ_FAILED"
  shows "\<exists>self' status. adapter_handle engine al self (print (call_message ident call)) = Some self' \<and>
    serve engine (al_server al) call (ad_server self) = Some (status, ad_server self') \<and>
    (if is_request call then replies self' ident (status_reply status) else jo_data (ad_out self') = [])"
proof -
  let ?j = "call_message ident call" and ?self = "adapter_start self tree"
  note j = call_message_ok [OF assms(3)]
  obtain st out where so: "json_read (al_json al) (ad_tree self) (print ?j) = Some (st, out)"
    "st = JSON_READ_OK \<and> tree_of ?j out \<or> st = JSON_READ_FAILED \<and> refuses (al_json al) (nodes ?j + length (jbytes ?j))"
    by (rule json_read_print [OF j])
  have r: "read = JSON_READ_OK" "tree_of ?j tree" using so assms(5,6) by simp_all
  have handle: "adapter_handle engine al self (print ?j) = handle_message engine al ?self"
    using adapter_handle_read [OF assms(5)] r(1) by simp
  have t: "tree_of ?j (ad_tree ?self)" using r(2) by simp
  obtain ident' meth params where n: "node_at tree ident' (member (asc ''id'') ?j)" "node_at tree meth (member (asc ''method'') ?j)"
    "node_at tree params (member (asc ''params'') ?j)"
    and run: "handle_message engine al ?self = (if is_request call then request engine al ?self ident' meth params
      else notification engine al ?self meth params)"
    by (rule handle_message_branch [OF j(1) t, of engine al]) (simp add: message_of_call [OF assms(3)] split: if_splits del: asc_Cons)
  have ok: "server_ok (ad_server ?self)" using assms(1) by simp
  have np: "node_at (ad_tree ?self) meth (Some (str (call_method call)))" "node_at (ad_tree ?self) params (Some (call_params call))"
    using n(2,3) by (simp_all add: call_member del: asc_Cons)
  show ?thesis
  proof (cases "is_request call")
    case True
    have i: "node_at (ad_tree ?self) ident' (Some ident)" "plain_ident (Some ident)"
      using n(1) True assms(3) by (simp_all add: call_member id_ok_def del: asc_Cons)
    have "request_serves engine al ?self ident call (request engine al ?self ident' meth params)"
      by (rule request_call_serves [OF ok np assms(2) True i])
    then obtain self' status where s: "request engine al ?self ident' meth params = Some self'"
      "serve engine (al_server al) call (ad_server ?self) = Some (status, ad_server self')"
      "answered al ?self self' ident (status_reply status)"
      unfolding request_serves_def by blast
    have "replies self' ident (status_reply status)"
      by (rule answered_replies [OF s(3)]) (auto simp: status_reply_def split: if_splits)
    then show ?thesis using s(1,2) True by (simp add: handle run)
  next
    case False
    have "notice_serves engine al ?self call (notification engine al ?self meth params)"
      by (rule notice_call_serves [OF ok np assms(2) False]) (use assms(4) in blast)
    then obtain self' status where s: "notification engine al ?self meth params = Some self'"
      "serve engine (al_server al) call (ad_server ?self) = Some (status, ad_server self')" "ad_out self' = ad_out ?self"
      unfolding notice_serves_def by blast
    then show ?thesis using False by (simp add: handle run)
  qed
qed

text \<open>An adapter just opened, with memory for all.\<close>

definition plenty :: allocs where
  "plenty = \<lparr>al_json = \<lambda>w n. True, al_server = \<lambda>_. True, al_edits = \<lambda>_. True\<rparr>"

lemma adapter_open_ok: "adapter_open grant = Some self \<Longrightarrow> server_ok (ad_server self) \<and> sv_phase (ad_server self) = FRESH"
  by (auto simp: adapter_open_def dest: server_new_ok)

lemma plenty_reads:
  assumes "json_ok j" and "json_depth j \<le> JSON_DEPTH" and "nodes j + length (jbytes j) < 2 ^ 58"
  obtains tree' where "json_read (al_json plenty) tree (print j) = Some (JSON_READ_OK, tree')" and "tree_of j tree'"
  using json_read_print [OF assms(1,2), of "\<lambda>w n. True" tree] grants_do_not_refuse [OF assms(3)]
  by (auto simp: plenty_def)

theorem adapter_serves_call_witness:
  "\<exists>self self'. adapter_open (\<lambda>_. True) = Some self \<and>
     adapter_handle echo_engine plenty self (print (call_message (str ''a'') (Initialize [TEXT_UNIT_UTF8]))) = Some self' \<and>
     sv_phase (ad_server self') = ACTIVE \<and> sv_unit (ad_server self') = TEXT_UNIT_UTF8 \<and> replies self' (str ''a'') is_result"
proof -
  obtain self :: "(byte list \<times> text_unit) adapter" where o: "adapter_open (\<lambda>_. True) = Some self"
    by (simp add: adapter_open_def server_new_def)
  note s = adapter_open_ok [OF o]
  let ?call = "Initialize [TEXT_UNIT_UTF8]" and ?id = "str ''a''"
  have i: "id_ok ?id" by (simp add: id_ok_def plain_ident_def)
  have b: "nodes (call_message ?id ?call) + length (jbytes (call_message ?id ?call)) < 2 ^ 58" by (simp add: call_message_def)
  obtain tree where t: "json_read (al_json plenty) (ad_tree self) (print (call_message ?id ?call)) = Some (JSON_READ_OK, tree)"
    by (rule plenty_reads [OF call_message_ok [OF i] b])
  have "\<forall>room. al_edits plenty room" "call_ok ?call" "JSON_READ_OK \<noteq> JSON_READ_FAILED" by (simp_all add: plenty_def)
  from adapter_serves_call [OF conjunct1 [OF s] this(2) i this(1) t this(3), of echo_engine]
  obtain self' status where r: "adapter_handle echo_engine plenty self (print (call_message ?id ?call)) = Some self'"
    "serve echo_engine (al_server plenty) ?call (ad_server self) = Some (status, ad_server self')"
    "replies self' ?id (status_reply status)" by (auto simp del: asc_Cons)
  have "status = LSP_OK" "sv_phase (ad_server self') = ACTIVE" "sv_unit (ad_server self') = TEXT_UNIT_UTF8"
    using r(2) s by (auto simp: serve_def lsp_initialize_def dest: sym)
  moreover from this(1) have "replies self' ?id is_result" using failure_replies [OF r(3), of is_result] by (simp add: status_reply_def)
  ultimately show ?thesis using o r(1) by blast
qed

theorem adapter_handles_every_message_witness:
  "\<exists>self self'. adapter_open (\<lambda>_. True) = Some self \<and>
     adapter_handle echo_engine plenty self [0x7B, 0xFF] = Some self' \<and> server_ok (ad_server self')"
proof -
  obtain self :: "(byte list \<times> text_unit) adapter" where o: "adapter_open (\<lambda>_. True) = Some self"
    by (simp add: adapter_open_def server_new_def)
  from adapter_handles_every_message [OF conjunct1 [OF adapter_open_ok [OF o]], of echo_engine plenty "[0x7B, 0xFF]"] o
  show ?thesis by blast
qed

text \<open>A message that is no request: an empty object is refused with a null identifier.\<close>

theorem adapter_answers_requests_witness:
  "\<exists>self self'. adapter_open (\<lambda>_. True) = Some self \<and>
     adapter_handle echo_engine plenty self (print (JNode JSON_OBJECT [])) = Some self' \<and>
     replies self' (JLeaf JSON_NULL []) (\<lambda>p. p = failure_of RPC_INVALID_REQUEST)"
proof -
  obtain self :: "(byte list \<times> text_unit) adapter" where o: "adapter_open (\<lambda>_. True) = Some self"
    by (simp add: adapter_open_def server_new_def)
  note s = conjunct1 [OF adapter_open_ok [OF o]]
  let ?j = "JNode JSON_OBJECT []"
  have j: "json_ok ?j" "json_depth ?j \<le> JSON_DEPTH" "nodes ?j + length (jbytes ?j) < 2 ^ 58" by (simp_all add: JSON_DEPTH_def)
  obtain tree where t: "json_read (al_json plenty) (ad_tree self) (print ?j) = Some (JSON_READ_OK, tree)" "tree_of ?j tree"
    by (rule plenty_reads [OF j])
  obtain self' where h: "adapter_handle echo_engine plenty self (print ?j) = Some self'"
    using read_meets [OF s t(1) j(1) t(2)] by blast
  have "message_of ?j = Invalid None" by (simp add: message_of_def has_kind_def member_def)
  then have "replies self' (JLeaf JSON_NULL []) (\<lambda>p. p = failure_of RPC_INVALID_REQUEST)"
    using adapter_answers_requests [OF s t(1) h, THEN conjunct2, rule_format, of ?j] j(1) t(2) by (simp add: ident_of_def)
  then show ?thesis using o h by blast
qed

end
