(* ===== verification/Alloc.thy ===== *)
theory Alloc
  imports Prelude
begin

text \<open>
  The growth of an array, \<open>core/alloc.h\<close>: how much room \<open>markdown_core_reserve\<close> takes
  for a count of elements.  The allocator is a function from the number of elements, or of
  bytes, asked for to whether it is granted.
\<close>

text \<open>\<open>markdown_core_reserve\<close>: the capacity then; \<open>None\<close> when the loop does not return.\<close>

partial_function (option) reserve_loop :: "nat \<Rightarrow> nat \<Rightarrow> nat \<Rightarrow> nat option" where
  "reserve_loop limit count nxt =
     (if nxt < count then reserve_loop limit count (if nxt > limit div 2 then limit else nxt * 2) else Some nxt)"

declare reserve_loop.simps [code]

definition reserve :: "(nat \<Rightarrow> bool) \<Rightarrow> nat \<Rightarrow> nat \<Rightarrow> nat \<Rightarrow> nat option option" where
  "reserve grant capacity count width =
     (if count \<le> capacity then Some (Some capacity)
      else if width = 0 \<or> count > SIZE_MAX div width then Some None
      else
        let limit = SIZE_MAX div width; nxt = (if capacity \<noteq> 0 then capacity else 8)
        in map_option (\<lambda>nxt. if grant nxt then Some nxt else None)
             (reserve_loop limit count (if nxt > limit then limit else nxt)))"

subsection \<open>The loop returns, with room\<close>

lemma reserve_loop_returns:
  assumes "count \<le> limit"
  shows "0 < nxt \<Longrightarrow> \<exists>n. reserve_loop limit count nxt = Some n \<and> count \<le> n"
proof (induction "count - nxt" arbitrary: nxt rule: less_induct)
  case less
  show ?case
  proof (cases "nxt < count")
    case True
    define n' where "n' = (if nxt > limit div 2 then limit else nxt * 2)"
    have n: "0 < n'" "nxt < n'" using True assms less.prems by (auto simp: n'_def)
    show ?thesis
    proof (cases "n' < count")
      case True
      then have "\<exists>n. reserve_loop limit count n' = Some n \<and> count \<le> n" using less.hyps [of n'] n \<open>nxt < count\<close> by simp
      then show ?thesis using \<open>nxt < count\<close> by (subst reserve_loop.simps) (simp add: n'_def [symmetric])
    next
      case False
      then show ?thesis using \<open>nxt < count\<close>
        by (subst reserve_loop.simps) (simp add: n'_def [symmetric], subst reserve_loop.simps, simp)
    qed
  qed (subst reserve_loop.simps, simp)
qed

lemma reserve_cases:
  assumes "0 < width" and "width \<le> SIZE_MAX"
  obtains "reserve grant capacity count width = Some None"
  | room where "reserve grant capacity count width = Some (Some room)" and "count \<le> room"
proof -
  consider "count \<le> capacity" | "\<not> count \<le> capacity" "count > SIZE_MAX div width"
    | "\<not> count \<le> capacity" "count \<le> SIZE_MAX div width" by linarith
  then show thesis
  proof cases
    case 3
    let ?limit = "SIZE_MAX div width"
    have "0 < ?limit" using assms by (simp add: div_greater_zero_iff)
    then have "0 < (if (if capacity \<noteq> 0 then capacity else 8) > ?limit then ?limit else if capacity \<noteq> 0 then capacity else 8)"
      by simp
    from reserve_loop_returns [OF 3(2) this] obtain n where
      n: "reserve_loop ?limit count (if (if capacity \<noteq> 0 then capacity else 8) > ?limit then ?limit
            else if capacity \<noteq> 0 then capacity else 8) = Some n" and "count \<le> n" by blast
    have "reserve grant capacity count width = Some (if grant n then Some n else None)"
      unfolding reserve_def Let_def n using 3 assms(1) by simp
    then show thesis using that \<open>count \<le> n\<close> by (cases "grant n") simp_all
  qed (use that assms in \<open>auto simp: reserve_def\<close>)
qed

end
