(* ===== verification/Yaml.thy ===== *)
theory Yaml
  imports Alloc Strbuf Utf8 "HOL-Library.Monad_Syntax"
begin

text \<open>
  elements/yaml.c: the YAML parser of the properties language, one pass of recursive descent that
  writes events.  The text is the bytes up to the end the caller gives; a byte past it is
  \<open>None\<close>, the code's \<open>-1\<close>.  A C function that answers false, or a null pointer, once the
  parser has a problem is a run: \<open>Done\<close> with its value and the parser after it, \<open>Failed\<close>
  with the parser as the failure left it, or \<open>Stuck\<close> where the recursion's fuel is out.  An
  event is its index.  An allocator answers for the room asked for; a scalar's buffer is also
  named by where the scalar starts.
\<close>

datatype yaml_style = YAML_PLAIN | YAML_APOSTROPHE | YAML_QUOTE | YAML_LITERAL

datatype yaml_kind =
    STREAM_START | STREAM_END | DOCUMENT_START | DOCUMENT_END | SCALAR | LIST_START | LIST_END | MAP_START | MAP_END

record yaml_event =
  ev_kind :: yaml_kind
  ev_flow :: bool
  ev_explicit :: bool
  ev_style :: yaml_style
  ev_text :: "byte list"
  ev_owned :: bool
  ev_from :: nat
  ev_to :: nat
  ev_line :: nat

record yaml_parser =
  yp_text :: "byte list"
  yp_at :: nat
  yp_head :: nat
  yp_line :: nat
  yp_allowed :: bool
  yp_depth :: nat
  yp_open :: nat
  yp_problem :: "string option"
  yp_place :: nat
  yp_failed :: bool
  yp_events :: "yaml_event list"
  yp_room :: nat
  yp_comments :: "(nat \<times> nat) list"
  yp_comment_room :: nat

record yaml_allocs =
  ya_events :: "nat \<Rightarrow> bool"
  ya_comments :: "nat \<Rightarrow> bool"
  ya_buffer :: "nat \<Rightarrow> nat \<Rightarrow> bool"

datatype 'a run = Done 'a yaml_parser | Failed yaml_parser | Stuck

fun chain :: "'a run \<Rightarrow> ('a \<Rightarrow> yaml_parser \<Rightarrow> 'b run) \<Rightarrow> 'b run" where
  "chain (Done x p) f = f x p"
| "chain (Failed p) f = Failed p"
| "chain Stuck f = Stuck"

definition NESTING :: nat where
  "NESTING = 1000"

definition NAME_LIMIT :: nat where
  "NAME_LIMIT = 1024"

subsection \<open>The text\<close>

definition peek :: "yaml_parser \<Rightarrow> nat \<Rightarrow> byte option" where
  "peek p k = (let at = yp_at p + k in if at < length (yp_text p) then Some (yp_text p ! at) else None)"

definition is_char :: "char \<Rightarrow> byte option \<Rightarrow> bool" where
  "is_char c x \<longleftrightarrow> x = Some (chr8 c)"

definition blank :: "byte option \<Rightarrow> bool" where
  "blank c \<longleftrightarrow> c = Some 0x20 \<or> c = Some 0x09"

definition newline :: "byte option \<Rightarrow> bool" where
  "newline c \<longleftrightarrow> c = Some 0x0D \<or> c = Some 0x0A"

definition blankz :: "byte option \<Rightarrow> bool" where
  "blankz c \<longleftrightarrow> c = None \<or> blank c \<or> newline c"

definition breakz :: "byte option \<Rightarrow> bool" where
  "breakz c \<longleftrightarrow> c = None \<or> newline c"

definition among :: "string \<Rightarrow> byte option \<Rightarrow> bool" where
  "among s c \<longleftrightarrow> (case c of None \<Rightarrow> False | Some b \<Rightarrow> b \<in> set (asc s))"

definition punctuation :: "byte option \<Rightarrow> bool" where
  "punctuation c \<longleftrightarrow> among '',[]{}'' c"

definition indicator :: "byte option \<Rightarrow> bool" where
  "indicator c \<longleftrightarrow> among (''-?:,[]{}#&*!|>'' @ [CHR 0x27, CHR 0x22] @ ''%@'' @ [CHR 0x60]) c"

definition hex :: "byte option \<Rightarrow> nat option" where
  "hex c =
     (case c of
        None \<Rightarrow> None
      | Some b \<Rightarrow>
          if 0x30 \<le> b \<and> b \<le> 0x39 then Some (unat b - 0x30)
          else if 0x61 \<le> b \<and> b \<le> 0x66 then Some (unat b - 0x61 + 10)
          else if 0x41 \<le> b \<and> b \<le> 0x46 then Some (unat b - 0x41 + 10)
          else None)"

definition column :: "yaml_parser \<Rightarrow> nat" where
  "column p = yp_at p - yp_head p"

definition marker :: "yaml_parser \<Rightarrow> char \<Rightarrow> bool" where
  "marker p c \<longleftrightarrow> yp_at p = yp_head p \<and> is_char c (peek p 0) \<and> is_char c (peek p 1) \<and> is_char c (peek p 2) \<and> blankz (peek p 3)"

abbreviation advance :: "nat \<Rightarrow> yaml_parser \<Rightarrow> yaml_parser" where
  "advance k p \<equiv> p\<lparr>yp_at := yp_at p + k\<rparr>"

definition feed :: "yaml_parser \<Rightarrow> yaml_parser" where
  "feed p =
     (let at = yp_at p + (if peek p 0 = Some 0x0D \<and> peek p 1 = Some 0x0A then 2 else 1)
      in p\<lparr>yp_at := at, yp_line := yp_line p + 1, yp_head := at\<rparr>)"

text \<open>\<open>while (q(peek(p, 0))) p->at++\<close>, for a \<open>q\<close> that does not hold at the end.\<close>

definition skip :: "(byte option \<Rightarrow> bool) \<Rightarrow> yaml_parser \<Rightarrow> yaml_parser" where
  "skip q p = p\<lparr>yp_at := skip_while (\<lambda>b. q (Some b)) (yp_text p) (yp_at p)\<rparr>"

definition note_problem :: "string \<Rightarrow> yaml_parser \<Rightarrow> yaml_parser" where
  "note_problem problem p =
     (if yp_problem p = None then p\<lparr>yp_problem := Some problem, yp_place := yp_at p\<rparr> else p)"

definition fail :: "string \<Rightarrow> yaml_parser \<Rightarrow> 'a run" where
  "fail problem p = Failed (note_problem problem p)"

definition exhausted :: "yaml_parser \<Rightarrow> 'a run" where
  "exhausted p = fail ''an allocation failed'' (p\<lparr>yp_failed := True\<rparr>)"

subsection \<open>The events\<close>

text \<open>The sizes of an event and of a span in bytes.\<close>

definition EVENT_SIZE :: nat where
  "EVENT_SIZE = 64"

definition SPAN_SIZE :: nat where
  "SPAN_SIZE = 16"

definition new_event :: "yaml_kind \<Rightarrow> nat \<Rightarrow> yaml_event" where
  "new_event kind line = \<lparr>ev_kind = kind, ev_flow = False, ev_explicit = False, ev_style = YAML_PLAIN, ev_text = [],
     ev_owned = False, ev_from = 0, ev_to = 0, ev_line = line\<rparr>"

definition insert_event :: "yaml_allocs \<Rightarrow> nat \<Rightarrow> yaml_kind \<Rightarrow> yaml_parser \<Rightarrow> nat run" where
  "insert_event al index kind p =
     (let events = yp_events p
      in case reserve (ya_events al) (yp_room p) (length events + 1) EVENT_SIZE of
           None \<Rightarrow> Stuck
         | Some None \<Rightarrow> exhausted p
         | Some (Some room) \<Rightarrow>
             Done index (p\<lparr>yp_room := room, yp_events := take index events @ [new_event kind (yp_line p)] @ drop index events\<rparr>))"

definition emit :: "yaml_allocs \<Rightarrow> yaml_kind \<Rightarrow> yaml_parser \<Rightarrow> nat run" where
  "emit al kind p =
     (let count = length (yp_events p)
      in if count = yp_room p then insert_event al count kind p
         else Done count (p\<lparr>yp_events := yp_events p @ [new_event kind (yp_line p)]\<rparr>))"

definition set_event :: "nat \<Rightarrow> (yaml_event \<Rightarrow> yaml_event) \<Rightarrow> yaml_parser \<Rightarrow> yaml_parser" where
  "set_event e f p = p\<lparr>yp_events := (yp_events p)[e := f (yp_events p ! e)]\<rparr>"

definition absent :: "yaml_allocs \<Rightarrow> nat \<Rightarrow> nat \<Rightarrow> nat \<Rightarrow> yaml_parser \<Rightarrow> unit run" where
  "absent al index at line p =
     chain (insert_event al index SCALAR p) (\<lambda>e p. Done () (set_event e (\<lambda>ev. ev\<lparr>ev_from := at, ev_to := at, ev_line := line\<rparr>) p))"

definition open_event :: "yaml_allocs \<Rightarrow> yaml_kind \<Rightarrow> nat \<Rightarrow> bool \<Rightarrow> yaml_parser \<Rightarrow> nat run" where
  "open_event al kind index flow p =
     (if yp_open p + yp_depth p \<ge> NESTING then fail ''exceeded maximum nesting depth'' p
      else chain (insert_event al index kind p) (\<lambda>e p.
        let p = set_event e (\<lambda>ev. ev\<lparr>ev_flow := flow\<rparr>) p
        in Done e (if flow then p\<lparr>yp_depth := yp_depth p + 1\<rparr> else p\<lparr>yp_open := yp_open p + 1\<rparr>)))"

definition shut :: "yaml_allocs \<Rightarrow> yaml_kind \<Rightarrow> bool \<Rightarrow> yaml_parser \<Rightarrow> unit run" where
  "shut al kind flow p = chain (emit al kind p) (\<lambda>e p. Done () (set_event e (\<lambda>ev. ev\<lparr>ev_flow := flow\<rparr>) p))"

subsection \<open>A scalar's text\<close>

text \<open>Appends the bytes, each NUL as U+FFFD.\<close>

function put :: "(nat \<Rightarrow> bool) \<Rightarrow> strbuf \<Rightarrow> byte list \<Rightarrow> strbuf" where
  "put grant buf bs =
     (case dropWhile (\<lambda>b. b \<noteq> 0) bs of
        [] \<Rightarrow> strbuf_put grant buf bs
      | _ # rest \<Rightarrow> put grant (strbuf_put grant (strbuf_put grant buf (takeWhile (\<lambda>b. b \<noteq> 0) bs)) [0xEF, 0xBF, 0xBD]) rest)"
  by pat_completeness auto
termination
proof (relation "measure (\<lambda>(grant, buf, bs). length bs)")
  fix grant buf bs and b :: byte and rest
  assume "dropWhile (\<lambda>b. b \<noteq> 0) bs = b # rest"
  then have "length (b # rest) \<le> length bs" by (metis length_dropWhile_le)
  then show "((grant, strbuf_put grant (strbuf_put grant buf (takeWhile (\<lambda>b. b \<noteq> 0) bs)) [0xEF, 0xBF, 0xBD], rest), grant, buf, bs)
      \<in> measure (\<lambda>(grant, buf, bs). length bs)" by simp
qed simp

declare put.simps [simp del]

definition abandon :: "strbuf \<Rightarrow> string \<Rightarrow> yaml_parser \<Rightarrow> 'a run" where
  "abandon buf problem p = (if oom buf then exhausted p else fail problem p)"

definition scalar :: "yaml_allocs \<Rightarrow> yaml_style \<Rightarrow> nat \<Rightarrow> nat \<Rightarrow> nat \<Rightarrow> yaml_parser \<Rightarrow> nat run" where
  "scalar al style from_at to_at line p =
     chain (emit al SCALAR p) (\<lambda>e p.
       Done e (set_event e (\<lambda>ev. ev\<lparr>ev_style := style, ev_from := from_at, ev_to := to_at, ev_line := line\<rparr>) p))"

text \<open>The event of a run that may have none; the buffer is freed either way.\<close>

definition own :: "(nat \<Rightarrow> bool) \<Rightarrow> nat \<Rightarrow> strbuf \<Rightarrow> yaml_parser \<Rightarrow> unit run" where
  "own grant e buf p =
     (if oom buf then exhausted p
      else if ptr buf = [] then Done () (set_event e (\<lambda>ev. ev\<lparr>ev_text := [], ev_owned := False\<rparr>) p)
      else case strbuf_detach grant buf of
             (Some bytes, _) \<Rightarrow> Done () (set_event e (\<lambda>ev. ev\<lparr>ev_text := bytes, ev_owned := True\<rparr>) p)
           | (None, _) \<Rightarrow> exhausted (set_event e (\<lambda>ev. ev\<lparr>ev_text := [], ev_owned := False\<rparr>) p))"

definition view :: "(nat \<Rightarrow> bool) \<Rightarrow> nat \<Rightarrow> yaml_parser \<Rightarrow> unit run" where
  "view grant e p =
     (let ev = yp_events p ! e; bytes = slice (yp_text p) (ev_from ev) (ev_to ev)
      in if 0 \<notin> set bytes then Done () (set_event e (\<lambda>ev. ev\<lparr>ev_text := bytes\<rparr>) p)
         else own grant e (put grant strbuf_empty bytes) p)"

subsection \<open>What a token follows\<close>

definition comment :: "yaml_allocs \<Rightarrow> yaml_parser \<Rightarrow> unit run" where
  "comment al p =
     (case reserve (ya_comments al) (yp_comment_room p) (length (yp_comments p) + 1) SPAN_SIZE of
        None \<Rightarrow> Stuck
      | Some None \<Rightarrow> exhausted p
      | Some (Some room) \<Rightarrow>
          let from_at = yp_at p; p = skip (\<lambda>c. \<not> breakz c) (p\<lparr>yp_comment_room := room\<rparr>)
          in Done () (p\<lparr>yp_comments := yp_comments p @ [(from_at, yp_at p)]\<rparr>))"

definition idle :: "yaml_parser \<Rightarrow> bool" where
  "idle p \<longleftrightarrow> (let c = peek (skip blank p) 0 in breakz c \<or> is_char CHR ''#'' c)"

text \<open>One turn of the loop of \<open>pass\<close>: whether it goes on.\<close>

definition pass_line :: "yaml_allocs \<Rightarrow> yaml_parser \<Rightarrow> bool run" where
  "pass_line al p =
     (let p = skip (\<lambda>c. c = Some 0x20 \<or> c = Some 0x09 \<and> (0 < yp_depth p \<or> \<not> yp_allowed p)) p;
          p = (if peek p 0 = Some 0x09 \<and> idle p then skip blank p else p)
      in chain (if is_char CHR ''#'' (peek p 0) \<and> (yp_at p = yp_head p \<or> blank (Some (yp_text p ! (yp_at p - 1))))
                then comment al p else Done () p) (\<lambda>_ p.
           if \<not> newline (peek p 0) then Done False p
           else let p = feed p in Done True (if yp_depth p = 0 then p\<lparr>yp_allowed := True\<rparr> else p)))"


lemma skip_fields [simp]:
  "yp_text (skip q p) = yp_text p" "yp_depth (skip q p) = yp_depth p" "yp_head (skip q p) = yp_head p"
  "yp_line (skip q p) = yp_line p" "yp_allowed (skip q p) = yp_allowed p" "yp_open (skip q p) = yp_open p"
  "yp_problem (skip q p) = yp_problem p" "yp_place (skip q p) = yp_place p" "yp_failed (skip q p) = yp_failed p"
  "yp_events (skip q p) = yp_events p" "yp_room (skip q p) = yp_room p" "yp_comments (skip q p) = yp_comments p"
  "yp_comment_room (skip q p) = yp_comment_room p"
  by (simp_all add: skip_def)

lemma skip_at: "yp_at p \<le> yp_at (skip q p)"
  by (simp add: skip_def skip_while_ge)

lemma skip_le: "yp_at p \<le> length (yp_text p) \<Longrightarrow> yp_at (skip q p) \<le> length (yp_text p)"
  by (simp add: skip_def skip_while_le)

lemma comment_done:
  assumes "comment al p = Done x p'"
  shows "yp_text p' = yp_text p \<and> yp_at p \<le> yp_at p'"
  using assms skip_at [of p] by (auto simp: comment_def Let_def skip_def skip_while_ge exhausted_def fail_def split: option.splits)

lemma feed_at: "yp_at p < yp_at (feed p)"
  by (simp add: feed_def Let_def)

lemma peek_less: "peek p 0 = Some c \<Longrightarrow> yp_at p < length (yp_text p)"
  by (simp add: peek_def Let_def split: if_splits)

lemma pass_line_goes_on:
  assumes "pass_line al p = Done True p'"
  shows "yp_text p' = yp_text p \<and> yp_at p < yp_at p' \<and> yp_at p < length (yp_text p)"
proof -
  define p1 where "p1 = skip (\<lambda>c. c = Some 0x20 \<or> c = Some 0x09 \<and> (0 < yp_depth p \<or> \<not> yp_allowed p)) p"
  define p2 where "p2 = (if peek p1 0 = Some 0x09 \<and> idle p1 then skip blank p1 else p1)"
  have "yp_at p \<le> yp_at p1" by (simp add: p1_def skip_at)
  also have "yp_at p1 \<le> yp_at p2" by (simp add: p2_def skip_at)
  finally have p2: "yp_text p2 = yp_text p" "yp_at p \<le> yp_at p2" by (simp_all add: p2_def p1_def)
  obtain x p3 where p3: "(if is_char CHR ''#'' (peek p2 0) \<and> (yp_at p2 = yp_head p2 \<or> blank (Some (yp_text p2 ! (yp_at p2 - 1))))
      then comment al p2 else Done () p2) = Done x p3"
    and r: "newline (peek p3 0)" "p' = (if yp_depth (feed p3) = 0 then (feed p3)\<lparr>yp_allowed := True\<rparr> else feed p3)"
    using assms unfolding pass_line_def Let_def p1_def [symmetric] p2_def [symmetric]
    by (cases "if is_char CHR ''#'' (peek p2 0) \<and> (yp_at p2 = yp_head p2 \<or> blank (Some (yp_text p2 ! (yp_at p2 - 1))))
      then comment al p2 else Done () p2") (simp_all split: if_splits)
  have "yp_text p3 = yp_text p2" "yp_at p2 \<le> yp_at p3" using p3 comment_done [of al p2] by (auto split: if_splits)
  moreover have "yp_text (feed p3) = yp_text p3" by (simp add: feed_def Let_def)
  moreover have "yp_at p3 < length (yp_text p3)" using r(1) peek_less [of p3] by (auto simp: newline_def)
  ultimately show ?thesis using p2 r(2) feed_at [of p3] by (simp split: if_splits)
qed

function pass :: "yaml_allocs \<Rightarrow> yaml_parser \<Rightarrow> unit run" where
  "pass al p =
     (case pass_line al p of
        Done True p \<Rightarrow> pass al p
      | Done False p \<Rightarrow> Done () p
      | Failed p \<Rightarrow> Failed p
      | Stuck \<Rightarrow> Stuck)"
  by pat_completeness auto
termination
  by (relation "measure (\<lambda>(al, p). length (yp_text p) - yp_at p)") (auto dest: pass_line_goes_on)

declare pass.simps [simp del]

datatype yaml_token =
    END | BAD | DOCUMENT_OPEN | DOCUMENT_CLOSE | LIST_OPEN | MAP_OPEN | LIST_CLOSE | MAP_CLOSE | COMMA | ITEM | VALUE
  | LITERAL | QUOTED | PLAIN

text \<open>The token at the cursor, and the parser, which has a problem when it is \<open>BAD\<close>.\<close>

definition look :: "yaml_parser \<Rightarrow> yaml_token \<times> yaml_parser" where
  "look p =
     (let c = peek p 0; following = peek p 1; bad = (\<lambda>problem. (BAD, note_problem problem p))
      in if c = None then (END, p)
         else if yp_at p = yp_head p \<and> is_char CHR ''%'' c then bad ''directives are unsupported''
         else if yp_at p = yp_head p \<and> is_char CHR ''-'' c \<and> marker p CHR ''-'' then (DOCUMENT_OPEN, p)
         else if yp_at p = yp_head p \<and> is_char CHR ''.'' c \<and> marker p CHR ''.'' then (DOCUMENT_CLOSE, p)
         else if is_char CHR ''['' c then (LIST_OPEN, p)
         else if is_char CHR ''{'' c then (MAP_OPEN, p)
         else if is_char CHR '']'' c then (LIST_CLOSE, p)
         else if is_char CHR ''}'' c then (MAP_CLOSE, p)
         else if is_char CHR '','' c then (COMMA, p)
         else if is_char CHR ''*'' c then bad ''aliases are unsupported''
         else if is_char CHR ''&'' c then bad ''anchors are unsupported''
         else if is_char CHR ''!'' c then bad ''tags are unsupported''
         else if is_char CHR ''-'' c \<and> blankz following \<and> (0 < yp_depth p \<or> yp_allowed p) then (ITEM, p)
         else if is_char CHR ''?'' c \<and> (0 < yp_depth p \<or> blankz following) then bad ''explicit names are unsupported''
         else if is_char CHR '':'' c \<and> (0 < yp_depth p \<or> blankz following) then (VALUE, p)
         else if is_char CHR ''|'' c \<and> yp_depth p = 0 then (LITERAL, p)
         else if is_char CHR ''>'' c \<and> yp_depth p = 0 then bad ''folded scalars are unsupported''
         else if is_char CHR 0x27 c \<or> is_char CHR 0x22 c then (QUOTED, p)
         else if \<not> (blankz c \<or> indicator c) \<or> is_char CHR ''-'' c \<or>
                 yp_depth p = 0 \<and> (is_char CHR ''?'' c \<or> is_char CHR '':'' c) \<and> \<not> blankz following then (PLAIN, p)
         else bad ''found character that cannot start any token'')"

definition closes :: "yaml_parser \<Rightarrow> yaml_token \<Rightarrow> nat \<Rightarrow> bool" where
  "closes p t inset \<longleftrightarrow> t = END \<or> t = DOCUMENT_OPEN \<or> t = DOCUMENT_CLOSE \<or> column p < inset"

subsection \<open>The scalars\<close>

text \<open>The four hexadecimal digits of an escape.\<close>

fun unit_digits :: "byte option list \<Rightarrow> nat \<Rightarrow> nat option" where
  "unit_digits [] u = Some u"
| "unit_digits (c # cs) u = (case hex c of None \<Rightarrow> None | Some nibble \<Rightarrow> unit_digits cs (push_bit 4 u OR nibble))"

definition escape_half :: "bool \<Rightarrow> strbuf \<Rightarrow> yaml_parser \<Rightarrow> nat run" where
  "escape_half half buf p =
     (if \<not> is_char CHR 0x5C (peek p 0) \<or> \<not> is_char CHR ''u'' (peek p 1)
      then abandon buf (if half then ''found an unpaired surrogate escape'' else ''found unknown escape character'') p
      else case unit_digits [peek p 2, peek p 3, peek p 4, peek p 5] 0 of
             None \<Rightarrow> abandon buf ''did not find expected hexdecimal number'' p
           | Some u \<Rightarrow> Done u (advance 6 p))"

definition escape_code :: "strbuf \<Rightarrow> yaml_parser \<Rightarrow> nat run" where
  "escape_code buf p =
     chain (escape_half False buf p) (\<lambda>code p.
       if 0xDC00 \<le> code \<and> code \<le> 0xDFFF then abandon buf ''found an unpaired surrogate escape'' p
       else if code < 0xD800 \<or> code > 0xDBFF then Done code p
       else chain (escape_half True buf p) (\<lambda>u p.
         if u < 0xDC00 \<or> u > 0xDFFF then abandon buf ''found an unpaired surrogate escape'' p
         else Done (0x10000 + push_bit 10 (code - 0xD800) + (u - 0xDC00)) p))"

text \<open>The characters of the short escapes and what they stand for.\<close>

definition short_escapes :: "(byte \<times> byte) list" where
  "short_escapes = zip (asc ''btnfr'' @ [0x22, 0x2F, 0x5C]) [0x08, 0x09, 0x0A, 0x0C, 0x0D, 0x22, 0x2F, 0x5C]"

text \<open>One turn of the loop of \<open>quoted\<close>: whether the quote is reached, the text, and whether it is copied.\<close>

definition quoted_turn ::
  "(nat \<Rightarrow> bool) \<Rightarrow> bool \<Rightarrow> nat \<Rightarrow> strbuf \<Rightarrow> bool \<Rightarrow> yaml_parser \<Rightarrow> (bool \<times> strbuf \<times> bool) run" where
  "quoted_turn grant apostrophe from_at buf copied p =
     (case peek p 0 of
        None \<Rightarrow> abandon buf ''found unexpected end of stream'' p
      | Some b \<Rightarrow>
          let c = Some b; quote = (if apostrophe then CHR 0x27 else CHR 0x22)
          in if newline c then abandon buf ''found a line break in a quoted scalar'' p
             else if is_char quote c \<and> \<not> (apostrophe \<and> is_char CHR 0x27 (peek p 1)) then Done (True, buf, copied) p
             else
               let start = (\<not> copied \<and> (b = 0 \<or> is_char (if apostrophe then CHR 0x27 else CHR 0x5C) c));
                   buf = (if start then put grant buf (slice (yp_text p) from_at (yp_at p)) else buf);
                   copied = (copied \<or> start)
               in if apostrophe \<and> is_char CHR 0x27 c then Done (False, strbuf_putc grant buf 0x27, copied) (advance 2 p)
                  else if \<not> apostrophe \<and> is_char CHR 0x5C c then
                    case Option.bind (peek p 1) (map_of short_escapes) of
                      Some hit \<Rightarrow> Done (False, strbuf_putc grant buf hit, copied) (advance 2 p)
                    | None \<Rightarrow> chain (escape_code buf p) (\<lambda>code p.
                        Done (False, strbuf_put grant buf (encode_char code), copied) p)
                  else if copied then Done (False, put grant buf [b], copied) (advance 1 p)
                  else Done (False, buf, copied) (advance 1 p))"

lemma escape_half_done:
  "escape_half half buf p = Done u p' \<Longrightarrow> p' = advance 6 p"
  by (auto simp: escape_half_def abandon_def exhausted_def fail_def split: if_splits option.splits)

lemma escape_code_done:
  assumes "escape_code buf p = Done code p'"
  shows "p' = advance 6 p \<or> p' = advance 12 p"
proof -
  obtain c p1 where h: "escape_half False buf p = Done c p1"
    using assms by (cases "escape_half False buf p") (simp_all add: escape_code_def)
  note p1 = escape_half_done [OF h]
  show ?thesis
  proof (cases "escape_half True buf p1")
    case (Done u p2)
    then show ?thesis using assms h p1 escape_half_done [OF Done]
      by (auto simp: escape_code_def abandon_def exhausted_def fail_def split: if_splits)
  qed (use assms h p1 in \<open>auto simp: escape_code_def abandon_def exhausted_def fail_def split: if_splits\<close>)
qed

lemma abandon_not_done [simp]: "abandon buf problem p \<noteq> Done x p'"
  by (simp add: abandon_def exhausted_def fail_def)

lemma chain_done: "chain m f = Done x p' \<longleftrightarrow> (\<exists>y p. m = Done y p \<and> f y p = Done x p')"
  by (cases m) simp_all

lemma quoted_turn_done:
  assumes "quoted_turn grant apostrophe from_at buf copied p = Done (stop, r) p'"
  shows "yp_at p < length (yp_text p) \<and> (if stop then p' = p else \<exists>k. 1 \<le> k \<and> p' = advance k p)"
proof -
  obtain b where b: "peek p 0 = Some b" using assms by (cases "peek p 0") (simp_all add: quoted_turn_def)
  have e: "\<exists>k. 1 \<le> k \<and> p' = advance k p" if "escape_code buf' p = Done code p'" for buf' code
    using escape_code_done [OF that] by (metis one_le_numeral)
  let ?quote = "if apostrophe then CHR 0x27 else CHR 0x22"
  consider "stop" "p' = p" | "\<not> stop" "p' = advance 2 p" | "\<not> stop" "p' = advance 1 p"
    | buf' code where "\<not> stop" "escape_code buf' p = Done code p'"
    using assms unfolding quoted_turn_def b option.case Let_def
    by (auto simp only: chain_done abandon_not_done run.inject prod.inject split: if_split_asm option.split_asm)
  then have "if stop then p' = p else \<exists>k. 1 \<le> k \<and> p' = advance k p"
  proof cases
    case 2
    then show ?thesis by (simp only: if_False) (rule exI [of _ 2], simp)
  next
    case 3
    then show ?thesis by (simp only: if_False) (rule exI [of _ 1], simp)
  next
    case 4
    then show ?thesis using e [OF 4(2)] by (simp only: if_False)
  qed simp
  then show ?thesis using peek_less [OF b] by blast
qed

function quoted_loop ::
  "(nat \<Rightarrow> bool) \<Rightarrow> bool \<Rightarrow> nat \<Rightarrow> strbuf \<Rightarrow> bool \<Rightarrow> yaml_parser \<Rightarrow> (strbuf \<times> bool) run" where
  "quoted_loop grant apostrophe from_at buf copied p =
     (case quoted_turn grant apostrophe from_at buf copied p of
        Done (True, buf, copied) p \<Rightarrow> Done (buf, copied) p
      | Done (False, buf, copied) p \<Rightarrow> quoted_loop grant apostrophe from_at buf copied p
      | Failed p \<Rightarrow> Failed p
      | Stuck \<Rightarrow> Stuck)"
  by pat_completeness auto
termination
  by (relation "measure (\<lambda>(grant, apostrophe, from_at, buf, copied, p). length (yp_text p) - yp_at p)")
    (auto dest!: quoted_turn_done)

declare quoted_loop.simps [simp del]

definition quoted :: "yaml_allocs \<Rightarrow> yaml_parser \<Rightarrow> unit run" where
  "quoted al p =
     (let line = yp_line p; apostrophe = is_char CHR 0x27 (peek p 0); p = advance 1 p; from_at = yp_at p;
          grant = ya_buffer al from_at; leave = (\<lambda>p. (advance 1 p)\<lparr>yp_allowed := False\<rparr>)
      in chain (quoted_loop grant apostrophe from_at strbuf_empty False p) (\<lambda>(buf, copied) p.
           case scalar al (if apostrophe then YAML_APOSTROPHE else YAML_QUOTE) from_at (yp_at p) line p of
             Done e p \<Rightarrow> if \<not> copied then view grant e (leave p) else own grant e buf (leave p)
           | Failed p \<Rightarrow> Failed (leave p)
           | Stuck \<Rightarrow> Stuck))"

text \<open>An apostrophe in a problem's text.\<close>

abbreviation apos :: string where
  "apos \<equiv> [CHR 0x27]"

text \<open>The loop over a word of a plain scalar: where its text ends.\<close>

function plain_word :: "nat \<Rightarrow> yaml_parser \<Rightarrow> nat run" where
  "plain_word to_at p =
     (let c = peek p 0
      in if blankz c then Done to_at p
         else if 0 < yp_depth p \<and> is_char CHR '':'' c \<and> (punctuation (peek p 1) \<or> is_char CHR ''?'' (peek p 1))
         then fail (''found unexpected '' @ apos @ '':'' @ apos) p
         else if is_char CHR '':'' c \<and> blankz (peek p 1) \<or> 0 < yp_depth p \<and> punctuation c then Done to_at p
         else plain_word (yp_at p + 1) (advance 1 p))"
  by pat_completeness auto
termination
proof (relation "measure (\<lambda>(to_at, p). length (yp_text p) - yp_at p)")
  fix to_at p x
  assume "x = peek p 0" and "\<not> blankz x"
  then obtain c where "peek p 0 = Some c" by (auto simp: blankz_def)
  then show "((yp_at p + 1, advance 1 p), to_at, p) \<in> measure (\<lambda>(to_at, p). length (yp_text p) - yp_at p)"
    using peek_less by fastforce
qed simp

declare plain_word.simps [simp del]

lemma plain_word_done:
  "plain_word to_at p = Done to' p' \<Longrightarrow> yp_text p' = yp_text p \<and> yp_at p \<le> yp_at p'"
proof (induction to_at p rule: plain_word.induct)
  case (1 to_at p)
  show ?case
  proof (cases "p' = p")
    case False
    then have "plain_word (yp_at p + 1) (advance 1 p) = Done to' p'"
      using "1.prems" by (subst (asm) plain_word.simps) (auto simp: Let_def fail_def split: if_split_asm)
    then show ?thesis using "1.IH" [OF refl] "1.prems" False
      by (subst (asm) (2) plain_word.simps) (auto simp: Let_def fail_def split: if_split_asm)
  qed simp
qed

text \<open>The outer loop: a word, then the blanks before the next.\<close>

function plain_loop :: "nat \<Rightarrow> yaml_parser \<Rightarrow> nat run" where
  "plain_loop to_at p =
     (if is_char CHR ''#'' (peek p 0) then Done to_at p
      else case plain_word to_at p of
             Done to_at p \<Rightarrow> if \<not> blank (peek p 0) then Done to_at p else plain_loop to_at (skip blank p)
           | Failed p \<Rightarrow> Failed p
           | Stuck \<Rightarrow> Stuck)"
  by pat_completeness auto
termination
proof (relation "measure (\<lambda>(to_at, p). length (yp_text p) - yp_at p)")
  fix to_at p to1 p1
  assume w: "plain_word to_at p = Done to1 p1" and b: "\<not> \<not> blank (peek p1 0)"
  obtain c where c: "peek p1 0 = Some c" "blank (Some c)" using b by (cases "peek p1 0") (auto simp: blank_def)
  have "yp_at p1 < yp_at (skip blank p1)"
    using peek_less [OF c(1)] c skip_while_ge [of "yp_at p1 + 1"]
    by (simp add: skip_def peek_def Let_def skip_while.simps [of _ _ "yp_at p1"] Suc_le_eq)
  then show "((to1, skip blank p1), to_at, p) \<in> measure (\<lambda>(to_at, p). length (yp_text p) - yp_at p)"
    using plain_word_done [OF w] peek_less [OF c(1)] by auto
qed simp

declare plain_loop.simps [simp del]

definition plain :: "yaml_allocs \<Rightarrow> yaml_parser \<Rightarrow> unit run" where
  "plain al p =
     (let from_at = yp_at p
      in chain (plain_loop from_at p) (\<lambda>to_at p.
           let p = p\<lparr>yp_allowed := False\<rparr>
           in chain (scalar al YAML_PLAIN from_at to_at (yp_line p) p) (view (ya_buffer al from_at))))"

text \<open>What the loop over a literal's lines keeps.\<close>

record literal_state =
  li_text :: strbuf
  li_depth :: nat
  li_clipped :: int
  li_from :: nat
  li_to :: nat
  li_first :: bool

definition line_end :: "yaml_parser \<Rightarrow> yaml_parser" where
  "line_end p = (if newline (peek p 0) then feed p else p)"

text \<open>One line of a literal: whether the loop goes on.\<close>

definition literal_line :: "(nat \<Rightarrow> bool) \<Rightarrow> int \<Rightarrow> literal_state \<Rightarrow> yaml_parser \<Rightarrow> bool \<times> literal_state \<times> yaml_parser" where
  "literal_line grant indent li p =
     (let inner = skip (\<lambda>c. c = Some 0x20) p; spaces = yp_at inner - yp_at p; content = yp_at (skip blank inner) - yp_at p
      in if breakz (peek p content)
         then (True, li\<lparr>li_text := strbuf_putc grant (li_text li) 0x0A\<rparr>, line_end (advance content p))
         else if li_depth li = 0 \<and> (int spaces \<le> indent \<or> spaces = 0) then (False, li, p)
         else
           let depth = (if li_depth li = 0 then spaces else li_depth li); li = li\<lparr>li_depth := depth\<rparr>
           in if spaces < depth then (False, li, p)
              else
                let p = advance depth p; from_at = (if li_first li then yp_at p else li_from li); at = yp_at p;
                    p = skip (\<lambda>c. \<not> breakz c) p;
                    buf = strbuf_putc grant (put grant (li_text li) (slice (yp_text p) at (yp_at p))) 0x0A
                in (True, li\<lparr>li_text := buf, li_clipped := size_of buf, li_from := from_at, li_to := yp_at p, li_first := False\<rparr>,
                    line_end p))"

lemma line_end_at: "yp_at p \<le> yp_at (line_end p)" "yp_text (line_end p) = yp_text p"
  using feed_at [of p] by (simp_all add: line_end_def) (simp add: feed_def Let_def)

lemma literal_line_goes_on:
  assumes "literal_line grant indent li p = (True, li', p')" and c: "peek p 0 = Some c"
  shows "yp_text p' = yp_text p \<and> yp_at p < yp_at p'"
proof -
  define inner where "inner = skip (\<lambda>c. c = Some 0x20) p"
  define content where "content = yp_at (skip blank inner) - yp_at p"
  show ?thesis
  proof (cases "breakz (peek p content)")
    case True
    then have p': "p' = line_end (advance content p)" using assms(1)
      by (simp add: literal_line_def inner_def [symmetric] content_def [symmetric] Let_def)
    have "yp_at p < yp_at p'"
    proof (cases "content = 0")
      case True
      then have "newline (peek p 0)" using \<open>breakz (peek p content)\<close> c by (simp add: breakz_def)
      then show ?thesis using p' True feed_at [of p] by (simp add: line_end_def)
    next
      case False
      then show ?thesis using p' line_end_at(1) [of "advance content p"] by simp
    qed
    then show ?thesis using p' line_end_at(2) by simp
  next
    case False
    define depth where "depth = (if li_depth li = 0 then yp_at inner - yp_at p else li_depth li)"
    have r: "p' = line_end (skip (\<lambda>c. \<not> breakz c) (advance depth p))" "0 < depth"
      using assms(1) False skip_at [of p "\<lambda>c. c = Some 0x20"]
      unfolding literal_line_def Let_def inner_def [symmetric] content_def [symmetric] depth_def [symmetric]
      by (auto simp: depth_def inner_def [symmetric] split: if_split_asm)
    then show ?thesis
      using skip_at [of "advance depth p" "\<lambda>c. \<not> breakz c"] line_end_at [of "skip (\<lambda>c. \<not> breakz c) (advance depth p)"] by simp
  qed
qed

function literal_loop :: "(nat \<Rightarrow> bool) \<Rightarrow> int \<Rightarrow> literal_state \<Rightarrow> yaml_parser \<Rightarrow> literal_state \<times> yaml_parser" where
  "literal_loop grant indent li p =
     (if peek p 0 = None then (li, p)
      else case literal_line grant indent li p of
             (True, li, p) \<Rightarrow> literal_loop grant indent li p
           | (False, li, p) \<Rightarrow> (li, p))"
  by pat_completeness auto
termination
proof (relation "measure (\<lambda>(grant, indent, li, p). length (yp_text p) - yp_at p)")
  fix grant indent li p x y li' p'
  assume c: "peek p 0 \<noteq> None" and "(x, y) = literal_line grant indent li p" "x = True" "(li', p') = y"
  then have l: "literal_line grant indent li p = (True, li', p')" by simp
  obtain b where b: "peek p 0 = Some b" using c by blast
  show "((grant, indent, li', p'), grant, indent, li, p) \<in> measure (\<lambda>(grant, indent, li, p). length (yp_text p) - yp_at p)"
    using literal_line_goes_on [OF l b] peek_less [OF b] by auto
qed simp

declare literal_loop.simps [simp del]

definition literal :: "yaml_allocs \<Rightarrow> int \<Rightarrow> yaml_parser \<Rightarrow> unit run" where
  "literal al indent p =
     (let start = yp_at p; line = yp_line p; grant = ya_buffer al start; p = advance 1 p
      in if \<not> blankz (peek p 0) then fail (''only a bare '' @ apos @ ''|'' @ apos @ '' is supported'') p
         else
           let p = skip blank p
           in chain (if is_char CHR ''#'' (peek p 0) then comment al p else Done () p) (\<lambda>_ p.
                if \<not> breakz (peek p 0) then fail ''did not find expected comment or line break'' p
                else
                  let (li, p) = literal_loop grant indent
                        \<lparr>li_text = strbuf_empty, li_depth = 0, li_clipped = 0, li_from = start, li_to = start, li_first = True\<rparr>
                        (line_end p);
                      buf = strbuf_truncate (li_text li) (li_clipped li); p = p\<lparr>yp_allowed := True\<rparr>
                  in chain (scalar al YAML_LITERAL (li_from li) (li_to li) line p) (\<lambda>e. own grant e buf)))"

subsection \<open>The nodes\<close>

datatype found = NODE | NAME | AFTER

text \<open>Whether the node read from \<open>start\<close> is a name; the parser then, which has a problem when the name is too long.\<close>

definition name_characters :: "yaml_parser \<Rightarrow> nat \<Rightarrow> nat" where
  "name_characters p start = length (filter (\<lambda>b. b AND 0xC0 \<noteq> 0x80) (slice (yp_text p) start (yp_at p)))"

definition named :: "nat \<Rightarrow> nat \<Rightarrow> yaml_parser \<Rightarrow> bool \<times> yaml_parser" where
  "named start line p =
     (let p = skip blank p
      in if yp_line p \<noteq> line \<or> \<not> is_char CHR '':'' (peek p 0) \<or> \<not> (0 < yp_depth p \<or> blankz (peek p 1)) then (False, p)
         else if yp_at p - start > NAME_LIMIT \<and> name_characters p start > NAME_LIMIT
         then (False, note_problem (''could not find expected '' @ apos @ '':'' @ apos) p)
         else (True, p))"

definition not_ended :: "string \<Rightarrow> string \<Rightarrow> string" where
  "not_ended a b = ''did not find expected '' @ apos @ a @ apos @ '' or '' @ apos @ b @ apos"

text \<open>
  The recursion, with fuel; a run out of fuel is \<open>Stuck\<close>.  \<open>flow\<close> answers nothing; \<open>block\<close>
  and \<open>items\<close> answer what was found and the index the code leaves in \<open>*index\<close>.
\<close>

fun element_of :: "(yaml_parser \<Rightarrow> unit run) \<Rightarrow> yaml_allocs \<Rightarrow> yaml_token \<Rightarrow> yaml_parser \<Rightarrow> unit run" where
  "element_of flow al QUOTED p = quoted al p"
| "element_of flow al PLAIN p = plain al p"
| "element_of flow al LIST_OPEN p = flow p"
| "element_of flow al MAP_OPEN p = flow p"
| "element_of flow al BAD p = Failed p"
| "element_of flow al _ p = fail ''did not find expected node content'' p"

definition is_node :: "yaml_token \<Rightarrow> bool" where
  "is_node t \<longleftrightarrow> t = QUOTED \<or> t = PLAIN \<or> t = LIST_OPEN \<or> t = MAP_OPEN"

text \<open>The loop of \<open>flow\<close> up to the token of an element; \<open>None\<close> when the collection is closed there.\<close>

definition flow_token :: "yaml_allocs \<Rightarrow> bool \<Rightarrow> bool \<Rightarrow> yaml_parser \<Rightarrow> yaml_token option run" where
  "flow_token al map_flow first p =
     (let close = (if map_flow then MAP_CLOSE else LIST_CLOSE)
      in chain (pass al p) (\<lambda>_ p.
           case look p of (t, p) \<Rightarrow>
             if t = close then Done None p
             else if first then Done (Some t) p
             else if t = BAD then Failed p
             else if t \<noteq> COMMA then fail (if map_flow then not_ended '','' ''}'' else not_ended '','' '']'') p
             else chain (pass al ((advance 1 p)\<lparr>yp_allowed := True\<rparr>)) (\<lambda>_ p.
               case look p of (t, p) \<Rightarrow> if t = close then Done None p else Done (Some t) p)))"

definition flow_turn ::
  "(yaml_parser \<Rightarrow> unit run) \<Rightarrow> (yaml_parser \<Rightarrow> unit run) \<Rightarrow> yaml_allocs \<Rightarrow> bool \<Rightarrow> bool \<Rightarrow> yaml_parser \<Rightarrow> unit run" where
  "flow_turn flow again al map_flow first p =
     chain (flow_token al map_flow first p) (\<lambda>next_token p.
       case next_token of
         None \<Rightarrow> Done () p
       | Some t \<Rightarrow>
           let index = length (yp_events p); start = yp_at p; line = yp_line p
           in chain (element_of flow al t p) (\<lambda>_ p.
                case named start line p of
                  (True, p) \<Rightarrow>
                    chain (if map_flow then Done () p
                           else chain (insert_event al index MAP_START p) (\<lambda>e p.
                             Done () (set_event e (\<lambda>ev. ev\<lparr>ev_flow := True\<rparr>) p))) (\<lambda>_ p.
                    chain (pass al ((advance 1 p)\<lparr>yp_allowed := False\<rparr>)) (\<lambda>_ p.
                      case look p of (t, p) \<Rightarrow>
                        chain (if t = COMMA \<or> t = (if map_flow then MAP_CLOSE else LIST_CLOSE)
                               then absent al (length (yp_events p)) (yp_at p) (yp_line p) p
                               else element_of flow al t p) (\<lambda>_ p.
                        chain (if map_flow then Done () p else shut al MAP_END True p) (\<lambda>_. again))))
                | (False, p) \<Rightarrow>
                    if yp_problem p \<noteq> None then Failed p
                    else if map_flow
                    then chain (pass al p) (\<lambda>_ p.
                         chain (absent al (length (yp_events p)) (yp_at p) (yp_line p) p) (\<lambda>_. again))
                    else again p))"

definition flow_around :: "(bool \<Rightarrow> yaml_parser \<Rightarrow> unit run) \<Rightarrow> yaml_allocs \<Rightarrow> yaml_parser \<Rightarrow> unit run" where
  "flow_around loop al p =
     (let map_flow = is_char CHR ''{'' (peek p 0)
      in chain (open_event al (if map_flow then MAP_START else LIST_START) (length (yp_events p)) True p) (\<lambda>_ p.
         chain (loop map_flow ((advance 1 p)\<lparr>yp_allowed := True\<rparr>)) (\<lambda>_ p.
           shut al (if map_flow then MAP_END else LIST_END) True
             ((advance 1 p)\<lparr>yp_depth := yp_depth p - 1, yp_allowed := False\<rparr>))))"

fun flow :: "nat \<Rightarrow> yaml_allocs \<Rightarrow> yaml_parser \<Rightarrow> unit run"
  and flow_loop :: "nat \<Rightarrow> yaml_allocs \<Rightarrow> bool \<Rightarrow> bool \<Rightarrow> yaml_parser \<Rightarrow> unit run" where
  "flow 0 al = (\<lambda>_. Stuck)"
| "flow (Suc n) al = flow_around (\<lambda>map_flow. flow_loop n al map_flow True) al"
| "flow_loop 0 al map_flow first = (\<lambda>_. Stuck)"
| "flow_loop (Suc n) al map_flow first = flow_turn (flow n al) (flow_loop n al map_flow False) al map_flow first"

definition node_of :: "nat \<Rightarrow> yaml_allocs \<Rightarrow> yaml_token \<Rightarrow> yaml_parser \<Rightarrow> unit run" where
  "node_of n al t p = (if t = QUOTED then quoted al p else if t = PLAIN then plain al p else flow n al p)"

text \<open>A name of a block mapping after its first: read, with the parser at its \<open>:\<close>.\<close>

definition next_name :: "nat \<Rightarrow> yaml_allocs \<Rightarrow> nat \<Rightarrow> yaml_token \<Rightarrow> yaml_parser \<Rightarrow> unit run" where
  "next_name n al inset t p =
     (if column p > inset \<or> \<not> is_node t then fail ''did not find expected key'' p
      else
        let start = yp_at p; line = yp_line p
        in chain (node_of n al t p) (\<lambda>_ p.
             case named start line p of
               (True, p) \<Rightarrow> Done () p
             | (False, p) \<Rightarrow> fail (''could not find expected '' @ apos @ '':'' @ apos) p))"

type_synonym block_fn = "int \<Rightarrow> bool \<Rightarrow> yaml_parser \<Rightarrow> (found \<times> nat) run"

text \<open>One pair of a block mapping, from the \<open>:\<close> of its name; \<open>again\<close> is the next.\<close>

definition pairs_turn ::
  "block_fn \<Rightarrow> (yaml_parser \<Rightarrow> unit run) \<Rightarrow> nat \<Rightarrow> yaml_allocs \<Rightarrow> nat \<Rightarrow> yaml_parser \<Rightarrow> unit run" where
  "pairs_turn block again n al inset p =
     (let after = yp_at p + 1; line = yp_line p;
          finish = (\<lambda>p. shut al MAP_END False (p\<lparr>yp_open := yp_open p - 1\<rparr>))
      in chain (pass al ((advance 1 p)\<lparr>yp_allowed := False\<rparr>)) (\<lambda>_ p.
           case look p of (t, p) \<Rightarrow>
             if t = BAD then Failed p
             else if closes p t inset
             then chain (absent al (length (yp_events p)) after line p) (\<lambda>_. finish)
             else chain (block (int inset) True p) (\<lambda>(f, index) p.
               case f of
                 NAME \<Rightarrow> chain (absent al index after line p) (\<lambda>_. again)
               | AFTER \<Rightarrow> again p
               | NODE \<Rightarrow>
                   chain (pass al p) (\<lambda>_ p.
                     case look p of (t, p) \<Rightarrow>
                       if t = BAD then Failed p
                       else if closes p t inset then finish p
                       else chain (next_name n al inset t p) (\<lambda>_. again)))))"

text \<open>One item of a block list, from its \<open>-\<close>.\<close>

definition items_turn ::
  "block_fn \<Rightarrow> (yaml_parser \<Rightarrow> (found \<times> nat) run) \<Rightarrow> yaml_allocs \<Rightarrow> nat \<Rightarrow> bool \<Rightarrow> yaml_parser \<Rightarrow> (found \<times> nat) run" where
  "items_turn block again al inset indentless p =
     (let item = yp_at p + 1; line = yp_line p; indicated = ''did not find expected '' @ apos @ ''-'' @ apos @ '' indicator'';
          finish = (\<lambda>p. chain (shut al LIST_END False (if indentless then p else p\<lparr>yp_open := yp_open p - 1\<rparr>))
                          (\<lambda>_. Done (NODE, 0)))
      in chain (pass al ((advance 1 p)\<lparr>yp_allowed := True\<rparr>)) (\<lambda>_ p.
           case look p of (t, p) \<Rightarrow>
             if t = BAD then Failed p
             else if closes p t inset
             then chain (absent al (length (yp_events p)) item line p) (\<lambda>_. finish)
             else if column p = inset \<and> t = ITEM
             then chain (absent al (length (yp_events p)) item line p) (\<lambda>_. again)
             else chain (block (int inset) False p) (\<lambda>(g, index) p.
               if g \<noteq> NODE then
                 if \<not> indentless then fail indicated p
                 else chain (absent al index item line p) (\<lambda>_ p.
                      chain (insert_event al (index + 1) LIST_END p) (\<lambda>_. Done (AFTER, index + 2)))
               else
                 chain (pass al p) (\<lambda>_ p.
                   case look p of (t, p) \<Rightarrow>
                     if t = BAD then Failed p
                     else if t = ITEM \<and> column p = inset then again p
                     else if indentless \<or> closes p t inset then finish p
                     else fail indicated p))))"

definition items_around ::
  "(yaml_parser \<Rightarrow> (found \<times> nat) run) \<Rightarrow> yaml_allocs \<Rightarrow> bool \<Rightarrow> yaml_parser \<Rightarrow> (found \<times> nat) run" where
  "items_around loop al indentless p =
     chain (if indentless then emit al LIST_START p else open_event al LIST_START (length (yp_events p)) False p) (\<lambda>_. loop)"

text \<open>A block node.\<close>

definition block_turn ::
  "(nat \<Rightarrow> yaml_parser \<Rightarrow> unit run) \<Rightarrow> (nat \<Rightarrow> bool \<Rightarrow> yaml_parser \<Rightarrow> (found \<times> nat) run) \<Rightarrow> nat \<Rightarrow> yaml_allocs \<Rightarrow> block_fn" where
  "block_turn pairs items n al indent indentless p =
     (case look p of (t, p) \<Rightarrow>
        let at = column p; index = length (yp_events p)
        in if t = ITEM then
             if int at > indent then items at False p
             else if indentless then items at True p
             else fail ''did not find expected node content'' p
           else if t = LITERAL then chain (literal al indent p) (\<lambda>_. Done (NODE, index))
           else if is_node t then
             let candidate = yp_allowed p; required = (candidate \<and> int at = indent); start = yp_at p; line = yp_line p
             in chain (node_of n al t p) (\<lambda>_ p.
                  case (if candidate then named start line p else (False, p)) of
                    (True, p) \<Rightarrow>
                      if int at = indent then Done (NAME, index) p
                      else chain (open_event al MAP_START index False p) (\<lambda>_ p.
                           chain (pairs at p) (\<lambda>_. Done (NODE, index)))
                  | (False, p) \<Rightarrow>
                      if yp_problem p \<noteq> None \<or> required
                      then fail (''could not find expected '' @ apos @ '':'' @ apos) p
                      else Done (NODE, index) p)
           else if t \<noteq> BAD then fail ''did not find expected node content'' p
           else Failed p)"

fun pairs :: "nat \<Rightarrow> yaml_allocs \<Rightarrow> nat \<Rightarrow> yaml_parser \<Rightarrow> unit run"
  and items :: "nat \<Rightarrow> yaml_allocs \<Rightarrow> nat \<Rightarrow> bool \<Rightarrow> yaml_parser \<Rightarrow> (found \<times> nat) run"
  and items_loop :: "nat \<Rightarrow> yaml_allocs \<Rightarrow> nat \<Rightarrow> bool \<Rightarrow> yaml_parser \<Rightarrow> (found \<times> nat) run"
  and block :: "nat \<Rightarrow> yaml_allocs \<Rightarrow> int \<Rightarrow> bool \<Rightarrow> yaml_parser \<Rightarrow> (found \<times> nat) run" where
  "pairs 0 al inset = (\<lambda>_. Stuck)"
| "pairs (Suc n) al inset = pairs_turn (block n al) (pairs n al inset) n al inset"
| "items 0 al inset indentless = (\<lambda>_. Stuck)"
| "items (Suc n) al inset indentless = items_around (items_loop n al inset indentless) al indentless"
| "items_loop 0 al inset indentless = (\<lambda>_. Stuck)"
| "items_loop (Suc n) al inset indentless =
     items_turn (block n al) (items_loop n al inset indentless) al inset indentless"
| "block 0 al indent indentless = (\<lambda>_. Stuck)"
| "block (Suc n) al indent indentless = block_turn (pairs n al) (items n al) n al indent indentless"

subsection \<open>The stream\<close>

text \<open>The markers that close a document, whose end event is \<open>e\<close>; the token after them.\<close>

fun document_ends :: "nat \<Rightarrow> yaml_allocs \<Rightarrow> nat \<Rightarrow> yaml_token \<Rightarrow> yaml_parser \<Rightarrow> yaml_token run" where
  "document_ends 0 al e t p = Stuck"
| "document_ends (Suc n) al e t p =
     (if t \<noteq> DOCUMENT_CLOSE then Done t p
      else chain (pass al ((advance 3 (set_event e (\<lambda>ev. ev\<lparr>ev_explicit := True\<rparr>) p))\<lparr>yp_allowed := False\<rparr>)) (\<lambda>_ p.
        case look p of (t, p) \<Rightarrow> document_ends n al e t p))"

text \<open>What a document holds; the run before its end event.\<close>

definition document_content :: "nat \<Rightarrow> yaml_allocs \<Rightarrow> nat \<Rightarrow> yaml_token \<Rightarrow> yaml_parser \<Rightarrow> unit run" where
  "document_content n al start t p =
     (if t = DOCUMENT_OPEN then
        chain (pass al ((advance 3 (set_event start (\<lambda>ev. ev\<lparr>ev_explicit := True\<rparr>) p))\<lparr>yp_allowed := False\<rparr>)) (\<lambda>_ p.
          case look p of (t, p) \<Rightarrow>
            if t = DOCUMENT_OPEN \<or> t = DOCUMENT_CLOSE \<or> t = END
            then absent al (length (yp_events p)) (yp_at p) (yp_line p + (if t = END \<and> column p \<noteq> 0 then 1 else 0)) p
            else chain (block n al (- 1) False p) (\<lambda>_. Done ()))
      else chain (block n al (- 1) False p) (\<lambda>_. Done ()))"

fun documents :: "nat \<Rightarrow> nat \<Rightarrow> yaml_allocs \<Rightarrow> bool \<Rightarrow> yaml_token \<Rightarrow> yaml_parser \<Rightarrow> unit run" where
  "documents 0 fuel al implicit t p = Stuck"
| "documents (Suc n) fuel al implicit t p =
     (if t = BAD then Failed p
      else if t = END then chain (emit al STREAM_END p) (\<lambda>_. Done ())
      else if \<not> implicit \<and> t \<noteq> DOCUMENT_OPEN then fail ''did not find expected <document start>'' p
      else
        chain (emit al DOCUMENT_START p) (\<lambda>start p.
        chain (document_content fuel al start t p) (\<lambda>_ p.
        chain (pass al p) (\<lambda>_ p.
          case look p of (t, p) \<Rightarrow>
            chain (emit al DOCUMENT_END p) (\<lambda>e p.
            chain (document_ends fuel al e t p) (\<lambda>t p.
              documents n fuel al False t p))))))"

definition stream :: "nat \<Rightarrow> yaml_allocs \<Rightarrow> yaml_parser \<Rightarrow> unit run" where
  "stream fuel al p =
     chain (emit al STREAM_START p) (\<lambda>_ p. chain (pass al p) (\<lambda>_ p.
       case look p of (t, p) \<Rightarrow> documents fuel fuel al True t p))"

text \<open>Where the first character YAML does not print is, if any.\<close>

definition prints_scalar :: "nat \<Rightarrow> bool" where
  "prints_scalar c \<longleftrightarrow>
     c = 0 \<or> c = 9 \<or> c = 10 \<or> c = 13 \<or> (0x20 \<le> c \<and> c \<le> 0x7E) \<or> c = 0x85 \<or> (0xA0 \<le> c \<and> c \<le> 0xD7FF) \<or>
     (0xE000 \<le> c \<and> c \<le> 0xFFFD) \<or> (0x10000 \<le> c \<and> c \<le> 0x10FFFF)"

function printable :: "byte list \<Rightarrow> nat \<Rightarrow> nat option" where
  "printable src i =
     (let i = skip_while (\<lambda>b. 0x20 \<le> b \<and> b < 0x7F) src i
      in if i \<ge> length src then None
         else
           let b = src ! i
           in if b < 0x80 then
                if (if b < 0x20 then b \<noteq> 0 \<and> b \<noteq> 9 \<and> b \<noteq> 10 \<and> b \<noteq> 13 else b = 0x7F) then Some i
                else printable src (i + 1)
              else case utf8proc_decode b (drop (i + 1) src) of
                     (n, c) \<Rightarrow> if \<not> prints_scalar c then Some i else printable src (i + n))"
  by pat_completeness auto
termination
proof (relation "measure (\<lambda>(src, i). length src - i)")
  fix src i x xa
  assume "x = skip_while (\<lambda>b. 0x20 \<le> b \<and> b < 0x7F) src i" "\<not> x \<ge> length src"
  then have "i \<le> x" "x < length src" by (simp_all add: skip_while_ge)
  then show "((src, x + 1), src, i) \<in> measure (\<lambda>(src, i). length src - i)" by auto
next
  fix src :: "byte list" and i x b n c
  assume "x = skip_while (\<lambda>b. 0x20 \<le> b \<and> b < 0x7F) src i" "\<not> x \<ge> length src"
  then have "i \<le> x" "x < length src" by (simp_all add: skip_while_ge)
  moreover assume "(n, c) = utf8proc_decode b (drop (x + 1) src)"
  then have "1 \<le> n" using decode_width_pos [of b "drop (x + 1) src"] by (metis fst_conv)
  ultimately show "((src, x + n), src, i) \<in> measure (\<lambda>(src, i). length src - i)" by auto
qed simp

declare printable.simps [simp del]

text \<open>A read of the text, the bytes up to the end, from \<open>start\<close>: the parser then, unless a loop does not return.\<close>

definition read_start :: "yaml_parser \<Rightarrow> byte list \<Rightarrow> nat \<Rightarrow> yaml_parser" where
  "read_start p src start = p\<lparr>yp_text := src, yp_at := start, yp_head := start, yp_line := 0, yp_allowed := True, yp_depth := 0,
     yp_open := 0, yp_problem := None, yp_failed := False, yp_events := [], yp_comments := []\<rparr>"

definition yaml_read :: "yaml_allocs \<Rightarrow> yaml_parser \<Rightarrow> byte list \<Rightarrow> nat \<Rightarrow> unit run" where
  "yaml_read al p src start =
     (let p = read_start p src start
      in case printable src start of
           Some bad \<Rightarrow> fail ''found a character that is not printable'' (p\<lparr>yp_at := bad\<rparr>)
         | None \<Rightarrow> stream (3 * length src + 4) al p)"

definition yaml_zero :: yaml_parser where
  "yaml_zero = \<lparr>yp_text = [], yp_at = 0, yp_head = 0, yp_line = 0, yp_allowed = False, yp_depth = 0, yp_open = 0,
     yp_problem = None, yp_place = 0, yp_failed = False, yp_events = [], yp_room = 0, yp_comments = [], yp_comment_room = 0\<rparr>"

definition yaml_close :: "yaml_parser \<Rightarrow> yaml_parser" where
  "yaml_close p = yaml_zero"

end
