(* ===== verification/YamlRead.thy ===== *)
theory YamlRead
  imports Yaml
begin

text \<open>
  What the YAML parser keeps while it reads: a state in order, the triple a run of a parser in
  order satisfies, and the triples of every operation below the recursion.  A run that fails
  leaves the problem, where it is, and whether memory was its cause.
\<close>

subsection \<open>A parser in order\<close>

text \<open>The text of a plain scalar, and what the text of a quoted one stands for.\<close>

definition denul :: "byte list \<Rightarrow> byte list" where
  "denul bs = concat (map (\<lambda>b. if b = 0 then [0xEF, 0xBF, 0xBD] else [b]) bs)"

lemma denul_simps [simp]: "denul [] = []" "denul (as @ bs) = denul as @ denul bs"
  "denul (b # bs) = (if b = 0 then [0xEF, 0xBF, 0xBD] else [b]) @ denul bs"
  by (simp_all add: denul_def)

lemma denul_id: "0 \<notin> set bs \<Longrightarrow> denul bs = bs"
  by (induction bs) auto

inductive apostrophe_as :: "byte list \<Rightarrow> byte list \<Rightarrow> bool" where
  apostrophe_none: "apostrophe_as [] []"
| apostrophe_plain: "apostrophe_as ws vs \<Longrightarrow> b \<noteq> 0x27 \<Longrightarrow> b \<noteq> 0x0A \<Longrightarrow> b \<noteq> 0x0D \<Longrightarrow> apostrophe_as (ws @ [b]) (vs @ denul [b])"
| apostrophe_twice: "apostrophe_as ws vs \<Longrightarrow> apostrophe_as (ws @ [0x27, 0x27]) (vs @ [0x27])"

definition unit_of :: "byte list \<Rightarrow> nat option" where
  "unit_of ds = unit_digits (map Some ds) 0"

inductive quote_as :: "byte list \<Rightarrow> byte list \<Rightarrow> bool" where
  quote_none: "quote_as [] []"
| quote_plain: "quote_as ws vs \<Longrightarrow> b \<noteq> 0x22 \<Longrightarrow> b \<noteq> 0x5C \<Longrightarrow> b \<noteq> 0x0A \<Longrightarrow> b \<noteq> 0x0D \<Longrightarrow> quote_as (ws @ [b]) (vs @ denul [b])"
| quote_short: "quote_as ws vs \<Longrightarrow> map_of short_escapes c = Some d \<Longrightarrow> quote_as (ws @ [0x5C, c]) (vs @ [d])"
| quote_unit: "quote_as ws vs \<Longrightarrow> length ds = 4 \<Longrightarrow> unit_of ds = Some u \<Longrightarrow> u < 0xD800 \<or> 0xDFFF < u \<Longrightarrow>
    quote_as (ws @ [0x5C, 0x75] @ ds) (vs @ encode_char u)"
| quote_pair: "quote_as ws vs \<Longrightarrow> length ds = 4 \<Longrightarrow> unit_of ds = Some u \<Longrightarrow> 0xD800 \<le> u \<Longrightarrow> u \<le> 0xDBFF \<Longrightarrow>
    length es = 4 \<Longrightarrow> unit_of es = Some v \<Longrightarrow> 0xDC00 \<le> v \<Longrightarrow> v \<le> 0xDFFF \<Longrightarrow>
    quote_as (ws @ [0x5C, 0x75] @ ds @ [0x5C, 0x75] @ es)
      (vs @ encode_char (0x10000 + push_bit 10 (u - 0xD800) + (v - 0xDC00)))"

definition event_ok :: "byte list \<Rightarrow> yaml_event \<Rightarrow> bool" where
  "event_ok src e \<longleftrightarrow>
     (ev_kind e = SCALAR \<longrightarrow>
        ev_from e \<le> ev_to e \<and> ev_to e \<le> length src \<and>
        (case ev_style e of
           YAML_PLAIN \<Rightarrow> ev_text e = denul (slice src (ev_from e) (ev_to e))
         | YAML_APOSTROPHE \<Rightarrow> apostrophe_as (slice src (ev_from e) (ev_to e)) (ev_text e)
         | YAML_QUOTE \<Rightarrow> quote_as (slice src (ev_from e) (ev_to e)) (ev_text e)
         | YAML_LITERAL \<Rightarrow> ev_text e = [] \<or> last (ev_text e) = 0x0A))"

text \<open>The comments lie in order in the text read, each from a \<open>#\<close> to the end of its line.\<close>

definition spans_ok :: "byte list \<Rightarrow> nat \<Rightarrow> (nat \<times> nat) list \<Rightarrow> bool" where
  "spans_ok src n cs \<longleftrightarrow>
     sorted_wrt (\<lambda>a b. snd a \<le> fst b) cs \<and>
     (\<forall>(a, b) \<in> set cs. a < b \<and> b \<le> n \<and> b \<le> length src \<and> src ! a = 0x23 \<and> (\<forall>i. a \<le> i \<and> i < b \<longrightarrow> \<not> newline (Some (src ! i))) \<and>
        (b < length src \<longrightarrow> newline (Some (src ! b))))"

definition sound :: "yaml_parser \<Rightarrow> bool" where
  "sound p \<longleftrightarrow>
     yp_at p \<le> length (yp_text p) \<and> yp_head p \<le> yp_at p \<and> yp_problem p = None \<and> \<not> yp_failed p \<and>
     length (yp_events p) \<le> yp_room p \<and> length (yp_comments p) \<le> yp_comment_room p \<and>
     spans_ok (yp_text p) (yp_at p) (yp_comments p) \<and> (\<forall>e \<in> set (yp_events p). event_ok (yp_text p) e) \<and>
     yp_open p + yp_depth p \<le> NESTING"

text \<open>What a failing run needs of a parser, and a parser a read has failed on.\<close>

definition unbroken :: "yaml_parser \<Rightarrow> bool" where
  "unbroken p \<longleftrightarrow> yp_at p \<le> length (yp_text p) \<and> yp_problem p = None \<and> \<not> yp_failed p \<and> spans_ok (yp_text p) (yp_at p) (yp_comments p)"

abbreviation OUT_OF_MEMORY :: string where
  "OUT_OF_MEMORY \<equiv> ''an allocation failed''"

definition broken :: "byte list \<Rightarrow> yaml_parser \<Rightarrow> bool" where
  "broken src p \<longleftrightarrow>
     yp_text p = src \<and> yp_problem p \<noteq> None \<and> yp_place p \<le> length src \<and>
     (yp_problem p = Some OUT_OF_MEMORY \<longrightarrow> yp_failed p) \<and> spans_ok src (length src) (yp_comments p)"

subsection \<open>Triples\<close>

fun yields :: "byte list \<Rightarrow> 'a run \<Rightarrow> ('a \<Rightarrow> yaml_parser \<Rightarrow> bool) \<Rightarrow> bool" where
  "yields src (Done x p) q \<longleftrightarrow> q x p"
| "yields src (Failed p) q \<longleftrightarrow> broken src p"
| "yields src Stuck q \<longleftrightarrow> False"

lemma yields_chain [simp]: "yields src (chain m f) q \<longleftrightarrow> yields src m (\<lambda>x p. yields src (f x p) q)"
  by (cases m) simp_all

lemma yields_mono: "yields src m q \<Longrightarrow> (\<And>x p. q x p \<Longrightarrow> r x p) \<Longrightarrow> yields src m r"
  by (cases m) simp_all

lemma yields_then:
  assumes "yields src m q" and "\<And>x p. q x p \<Longrightarrow> yields src (f x p) r"
  shows "yields src (chain m f) r"
  using yields_mono [OF assms(1), of "\<lambda>x p. yields src (f x p) r"] assms(2) by simp

lemma soundD:
  assumes "sound p"
  shows "yp_at p \<le> length (yp_text p)" "yp_head p \<le> yp_at p" "yp_problem p = None" "\<not> yp_failed p"
    "length (yp_events p) \<le> yp_room p" "spans_ok (yp_text p) (yp_at p) (yp_comments p)"
    "\<forall>e \<in> set (yp_events p). event_ok (yp_text p) e" "yp_open p + yp_depth p \<le> NESTING"
  using assms by (simp_all add: sound_def)

lemma spans_later: "spans_ok src n cs \<Longrightarrow> n \<le> m \<Longrightarrow> spans_ok src m cs"
  by (force simp: spans_ok_def)

lemma sound_unbroken [simp]: "sound p \<Longrightarrow> unbroken p"
  by (simp add: sound_def unbroken_def)

lemma broken_note: "sound p \<Longrightarrow> problem \<noteq> OUT_OF_MEMORY \<Longrightarrow> broken (yp_text p) (note_problem problem p)"
  using spans_later by (auto simp: sound_def broken_def note_problem_def)

lemma fail_yields [simp]: "sound p \<Longrightarrow> problem \<noteq> OUT_OF_MEMORY \<Longrightarrow> src = yp_text p \<Longrightarrow> yields src (fail problem p) q"
  by (simp add: fail_def broken_note)

lemma exhausted_yields [simp]: "unbroken p \<Longrightarrow> src = yp_text p \<Longrightarrow> yields src (exhausted p) q"
  using spans_later by (auto simp: exhausted_def fail_def unbroken_def broken_def note_problem_def)

lemma abandon_yields [simp]: "sound p \<Longrightarrow> problem \<noteq> OUT_OF_MEMORY \<Longrightarrow> src = yp_text p \<Longrightarrow> yields src (abandon buf problem p) q"
  by (simp add: abandon_def)

subsection \<open>Events\<close>

text \<open>The parser in the same place with other events, in order again; and so with a collection counted.\<close>

definition records :: "yaml_parser \<Rightarrow> yaml_event list \<Rightarrow> yaml_parser \<Rightarrow> bool" where
  "records p es p' \<longleftrightarrow> sound p' \<and> yp_events p' = es \<and> yp_text p' = yp_text p \<and> yp_at p' = yp_at p \<and> yp_head p' = yp_head p \<and>
     yp_line p' = yp_line p \<and> yp_depth p' = yp_depth p \<and> yp_open p' = yp_open p \<and> yp_allowed p' = yp_allowed p"

definition opens :: "bool \<Rightarrow> yaml_parser \<Rightarrow> yaml_event list \<Rightarrow> yaml_parser \<Rightarrow> bool" where
  "opens fl p es p' \<longleftrightarrow> sound p' \<and> yp_open p + yp_depth p < NESTING \<and> yp_events p' = es \<and> yp_text p' = yp_text p \<and>
     yp_at p' = yp_at p \<and> yp_depth p' = yp_depth p + (if fl then 1 else 0) \<and> yp_open p' = yp_open p + (if fl then 0 else 1)"

lemma records_peek: "records p es p' \<Longrightarrow> peek p' k = peek p k"
  by (auto simp: records_def peek_def Let_def)

lemma opens_peek: "opens fl p es p' \<Longrightarrow> peek p' k = peek p k"
  by (auto simp: opens_def peek_def Let_def)

lemma set_event_fields [simp]:
  "yp_text (set_event i f p) = yp_text p" "yp_at (set_event i f p) = yp_at p" "yp_head (set_event i f p) = yp_head p"
  "yp_line (set_event i f p) = yp_line p" "yp_depth (set_event i f p) = yp_depth p" "yp_open (set_event i f p) = yp_open p"
  "yp_problem (set_event i f p) = yp_problem p" "yp_failed (set_event i f p) = yp_failed p" "yp_room (set_event i f p) = yp_room p"
  "yp_comments (set_event i f p) = yp_comments p" "yp_comment_room (set_event i f p) = yp_comment_room p"
  "yp_allowed (set_event i f p) = yp_allowed p"
  by (simp_all add: set_event_def)

lemma event_ok_new [simp]: "event_ok src (new_event kind line)"
  by (simp add: event_ok_def new_event_def)

lemma sound_events:
  assumes "sound p" and "length es \<le> room" and "\<forall>e \<in> set es. event_ok (yp_text p) e"
  shows "records p es (p\<lparr>yp_room := room, yp_events := es\<rparr>)"
  using assms by (simp add: sound_def records_def)

lemma insert_yields:
  assumes "sound p" and "i \<le> length (yp_events p)"
  shows "yields (yp_text p) (insert_event al i kind p) (\<lambda>e p'. e = i \<and>
    records p (take i (yp_events p) @ [new_event kind (yp_line p)] @ drop i (yp_events p)) p')"
proof -
  have w: "0 < EVENT_SIZE" "EVENT_SIZE \<le> SIZE_MAX" by (simp_all add: EVENT_SIZE_def SIZE_MAX_def)
  let ?es = "take i (yp_events p) @ [new_event kind (yp_line p)] @ drop i (yp_events p)"
  have ok: "\<forall>e \<in> set ?es. event_ok (yp_text p) e"
    using soundD(7) [OF assms(1)] by (auto dest: in_set_takeD in_set_dropD)
  show ?thesis
  proof (rule reserve_cases [OF w, of "ya_events al" "yp_room p" "length (yp_events p) + 1"])
    fix room
    assume r: "reserve (ya_events al) (yp_room p) (length (yp_events p) + 1) EVENT_SIZE = Some (Some room)"
      "length (yp_events p) + 1 \<le> room"
    have "length ?es \<le> room" using r(2) assms(2) by simp
    from sound_events [OF assms(1) this ok] show ?thesis by (simp only: insert_event_def Let_def r(1)) simp
  qed (use assms(1) in \<open>simp add: insert_event_def\<close>)
qed

lemma emit_yields:
  assumes "sound p"
  shows "yields (yp_text p) (emit al kind p) (\<lambda>e p'. e = length (yp_events p) \<and>
    records p (yp_events p @ [new_event kind (yp_line p)]) p')"
proof (cases "length (yp_events p) = yp_room p")
  case True
  then show ?thesis using insert_yields [OF assms, of "length (yp_events p)" al kind] by (simp add: emit_def)
next
  case False
  then show ?thesis using assms by (auto simp: emit_def records_def sound_def)
qed

lemma records_set:
  assumes r: "records p (as @ e # bs) p'" and "i = length as" and "event_ok (yp_text p) (f e)"
  shows "records p (as @ f e # bs) (set_event i f p')"
proof -
  have e: "yp_events (set_event i f p') = as @ f e # bs" using r assms(2) by (simp add: records_def set_event_def)
  then have "sound (set_event i f p')" using r assms(3) by (auto simp: sound_def records_def)
  then show ?thesis using r e by (simp add: records_def)
qed

text \<open>An event inserted and then filled in.\<close>

lemma insert_set_yields:
  assumes "sound p" and "i \<le> length (yp_events p)" and "event_ok (yp_text p) (f (new_event kind (yp_line p)))"
  shows "yields (yp_text p) (insert_event al i kind p) (\<lambda>e p'. e = i \<and>
    records p (take i (yp_events p) @ f (new_event kind (yp_line p)) # drop i (yp_events p)) (set_event i f p'))"
  by (rule yields_mono [OF insert_yields [OF assms(1,2)]]) (use assms(2,3) in \<open>auto intro!: records_set\<close>)

lemma emit_set_yields:
  assumes "sound p" and "event_ok (yp_text p) (f (new_event kind (yp_line p)))"
  shows "yields (yp_text p) (emit al kind p) (\<lambda>e p'. e = length (yp_events p) \<and>
    records p (yp_events p @ [f (new_event kind (yp_line p))]) (set_event e f p'))"
  by (rule yields_mono [OF emit_yields [OF assms(1)]]) (use assms(2) in \<open>auto intro!: records_set\<close>)

lemma absent_yields:
  assumes "sound p" and "i \<le> length (yp_events p)" and "at \<le> length (yp_text p)"
  shows "yields (yp_text p) (absent al i at line p) (\<lambda>_ p'. \<exists>e. ev_kind e = SCALAR \<and>
    records p (take i (yp_events p) @ e # drop i (yp_events p)) p')"
proof -
  let ?f = "\<lambda>ev. ev\<lparr>ev_from := at, ev_to := at, ev_line := line\<rparr>"
  have "event_ok (yp_text p) (?f (new_event SCALAR (yp_line p)))" using assms(3) by (simp add: event_ok_def new_event_def)
  then show ?thesis unfolding absent_def
    by (intro yields_then [OF insert_set_yields [where f = ?f, OF assms(1,2)]]) (auto intro!: exI [of _ "?f (new_event SCALAR (yp_line p))"] simp: new_event_def)
qed

lemma shut_yields:
  assumes "sound p" and "kind \<noteq> SCALAR"
  shows "yields (yp_text p) (shut al kind fl p) (\<lambda>_ p'. \<exists>e. ev_kind e = kind \<and> ev_flow e = fl \<and>
    records p (yp_events p @ [e]) p')"
proof -
  let ?f = "\<lambda>ev. ev\<lparr>ev_flow := fl\<rparr>"
  have "event_ok (yp_text p) (?f (new_event kind (yp_line p)))" using assms(2) by (simp add: event_ok_def new_event_def)
  then show ?thesis unfolding shut_def
    by (intro yields_then [OF emit_set_yields [where f = ?f, OF assms(1)]]) (auto intro!: exI [of _ "?f (new_event kind (yp_line p))"] simp: new_event_def)
qed

text \<open>A collection opened at an index, counted.\<close>

lemma open_yields:
  assumes "sound p" and "i \<le> length (yp_events p)" and "kind \<noteq> SCALAR"
  shows "yields (yp_text p) (open_event al kind i fl p) (\<lambda>_ p'. \<exists>e. ev_kind e = kind \<and> ev_flow e = fl \<and>
    opens fl p (take i (yp_events p) @ e # drop i (yp_events p)) p')"
proof (cases "yp_open p + yp_depth p < NESTING")
  case True
  let ?f = "\<lambda>ev. ev\<lparr>ev_flow := fl\<rparr>" and ?count = "\<lambda>p. if fl then p\<lparr>yp_depth := yp_depth p + 1\<rparr> else p\<lparr>yp_open := yp_open p + 1\<rparr>"
  let ?e = "?f (new_event kind (yp_line p))"
  have ok: "event_ok (yp_text p) ?e" using assms(3) by (simp add: event_ok_def new_event_def)
  have count: "opens fl p es (?count p')" if "records p es p'" for es p'
    using that True by (auto simp: records_def opens_def sound_def)
  have e: "ev_kind ?e = kind \<and> ev_flow ?e = fl" by (simp add: new_event_def)
  have "yields (yp_text p) (chain (insert_event al i kind p) (\<lambda>e p. Done e (?count (set_event e ?f p)))) (\<lambda>_ p'. \<exists>e. ev_kind e = kind \<and> ev_flow e = fl \<and>
    opens fl p (take i (yp_events p) @ e # drop i (yp_events p)) p')"
  proof (rule yields_then [OF insert_set_yields [where f = ?f, OF assms(1,2) ok]])
    fix x p' assume r: "x = i \<and> records p (take i (yp_events p) @ ?e # drop i (yp_events p)) (set_event i ?f p')"
    then show "yields (yp_text p) (Done x (?count (set_event x ?f p'))) (\<lambda>_ p'. \<exists>e. ev_kind e = kind \<and> ev_flow e = fl \<and>
        opens fl p (take i (yp_events p) @ e # drop i (yp_events p)) p')"
      using count [OF conjunct2 [OF r]] e by (simp only: yields.simps) blast
  qed
  then show ?thesis using True by (simp add: open_event_def Let_def not_le [symmetric])
qed (use assms in \<open>simp add: open_event_def\<close>)

subsection \<open>The cursor\<close>

text \<open>The parser further on in the text, with these events more.\<close>

definition reach :: "nat \<Rightarrow> yaml_event list \<Rightarrow> yaml_parser \<Rightarrow> yaml_parser \<Rightarrow> bool" where
  "reach k es p p' \<longleftrightarrow> sound p' \<and> yp_events p' = yp_events p @ es \<and> yp_text p' = yp_text p \<and> yp_at p + k \<le> yp_at p' \<and>
     yp_depth p' = yp_depth p \<and> yp_open p' = yp_open p"

lemma reach_refl [simp]: "reach 0 [] p p \<longleftrightarrow> sound p"
  by (simp add: reach_def)

lemma reach_trans: "reach j es p p1 \<Longrightarrow> reach k fs p1 p2 \<Longrightarrow> n \<le> j + k \<Longrightarrow> reach n (es @ fs) p p2"
  by (auto simp: reach_def)

lemma reach_mono: "reach k es p p' \<Longrightarrow> j \<le> k \<Longrightarrow> reach j es p p'"
  by (auto simp: reach_def)

lemma reachD:
  assumes "reach k es p p'"
  shows "sound p'" "yp_text p' = yp_text p" "yp_at p + k \<le> yp_at p'" "yp_depth p' = yp_depth p" "yp_open p' = yp_open p"
    "yp_events p' = yp_events p @ es" "yp_at p' \<le> length (yp_text p)"
  using assms soundD(1) [of p'] by (simp_all add: reach_def)

text \<open>A run after a parser reached.\<close>

lemma reach_yields:
  assumes r: "reach j es p p1" and "sound p1 \<Longrightarrow> yields (yp_text p1) m (\<lambda>x p2. reach k fs p1 p2)" and "n \<le> j + k"
  shows "yields (yp_text p) m (\<lambda>x p2. reach n (es @ fs) p p2)"
  using yields_mono [OF assms(2) [OF reachD(1) [OF r]], of "\<lambda>x p2. reach n (es @ fs) p p2"] reach_trans [OF r _ assms(3)]
  by (simp add: reachD(2) [OF r])

lemma reach_snoc: "reach k es p p1 \<Longrightarrow> records p1 (yp_events p1 @ fs) p' \<Longrightarrow> reach k (es @ fs) p p'"
  by (simp add: reach_def records_def)

lemma records_reach: "records p (yp_events p @ es) p' \<Longrightarrow> reach 0 es p p'"
  by (simp add: reach_def records_def)

lemma sound_allowed [simp]: "sound (p\<lparr>yp_allowed := b\<rparr>) = sound p"
  by (simp add: sound_def)

lemma reach_allowed [simp]: "reach k es p (p'\<lparr>yp_allowed := b\<rparr>) = reach k es p p'"
  by (simp add: reach_def)

lemma peek_allowed [simp]: "peek (p\<lparr>yp_allowed := b\<rparr>) k = peek p k"
  by (simp add: peek_def Let_def)

lemma sound_at: "sound p \<Longrightarrow> yp_at p \<le> n \<Longrightarrow> n \<le> length (yp_text p) \<Longrightarrow> sound (p\<lparr>yp_at := n\<rparr>)"
  using spans_later by (auto simp: sound_def)

lemma reach_advance: "sound p \<Longrightarrow> yp_at p + k \<le> length (yp_text p) \<Longrightarrow> reach k [] p (advance k p)"
  using sound_at [of p "yp_at p + k"] by (simp add: reach_def)

lemma reach_skip: "sound p \<Longrightarrow> reach 0 [] p (skip q p)"
  using sound_at [of p "yp_at (skip q p)"] skip_at [of p q] skip_le [of p q] soundD(1) [of p]
  by (simp add: reach_def skip_def)

lemma peek_room: "peek p k \<noteq> None \<Longrightarrow> yp_at p + k < length (yp_text p)"
  by (simp add: peek_def Let_def split: if_splits)

lemma is_char_room: "is_char c (peek p k) \<Longrightarrow> yp_at p + k < length (yp_text p)"
  using peek_room [of p k] by (auto simp: is_char_def)

lemma skip_char: "q (peek p 0) \<Longrightarrow> peek p 0 \<noteq> None \<Longrightarrow> yp_at p < yp_at (skip q p)"
  using skip_while_ge [of "yp_at p + 1" "\<lambda>b. q (Some b)" "yp_text p"] peek_room [of p 0]
  by (simp add: skip_def peek_def Let_def skip_while.simps [of _ _ "yp_at p"])

lemma reach_feed:
  assumes "sound p" and "newline (peek p 0)"
  shows "reach 1 [] p (feed p)"
proof -
  let ?k = "if peek p 0 = Some 0x0D \<and> peek p 1 = Some 0x0A then 2 else 1"
  have "yp_at p + ?k \<le> length (yp_text p)" using assms(2) peek_room [of p 0] peek_room [of p 1] by (auto simp: newline_def)
  then show ?thesis using sound_at [OF assms(1), of "yp_at p + ?k"] by (auto simp: feed_def Let_def reach_def sound_def)
qed

lemma reach_line_end: "sound p \<Longrightarrow> reach 0 [] p (line_end p)"
  using reach_mono [OF reach_feed, of p 0] by (simp add: line_end_def)

subsection \<open>Blanks, comments and tokens\<close>

lemma comment_yields:
  assumes s: "sound p" and c: "is_char CHR ''#'' (peek p 0)"
  shows "yields (yp_text p) (comment al p) (\<lambda>_ p'. reach 0 [] p p')"
proof -
  have w: "0 < SPAN_SIZE" "SPAN_SIZE \<le> SIZE_MAX" by (simp_all add: SPAN_SIZE_def SIZE_MAX_def)
  show ?thesis
  proof (rule reserve_cases [OF w, of "ya_comments al" "yp_comment_room p" "length (yp_comments p) + 1"])
    fix room
    assume r: "reserve (ya_comments al) (yp_comment_room p) (length (yp_comments p) + 1) SPAN_SIZE = Some (Some room)"
      "length (yp_comments p) + 1 \<le> room"
    let ?q = "\<lambda>b. \<not> breakz (Some b)" and ?to = "yp_at (skip (\<lambda>c. \<not> breakz c) p)"
    have to: "yp_at p < ?to" "?to \<le> length (yp_text p)"
      using skip_char [of "\<lambda>c. \<not> breakz c" p] skip_le [OF soundD(1) [OF s]] c
      by (auto simp: is_char_def breakz_def newline_def)
    have line: "\<not> newline (Some (yp_text p ! i))" if "yp_at p \<le> i" "i < ?to" for i
    proof -
      have "yp_text p ! i \<in> set (slice (yp_text p) (yp_at p) ?to)"
        using that to by (auto simp: slice_def in_set_conv_nth intro!: exI [of _ "i - yp_at p"])
      then show ?thesis using set_slice_skip_while [of _ "yp_text p" "yp_at p" ?q] by (auto simp: skip_def breakz_def)
    qed
    have stop: "newline (Some (yp_text p ! ?to))" if "?to < length (yp_text p)"
      using skip_while_stop [of ?q "yp_text p" "yp_at p"] that by (simp add: skip_def breakz_def)
    have "yp_text p ! yp_at p = 0x23" using c by (auto simp: is_char_def peek_def Let_def split: if_splits)
    then have "spans_ok (yp_text p) ?to (yp_comments p @ [(yp_at p, ?to)])"
      using soundD(6) [OF s] to line stop by (force simp: spans_ok_def sorted_wrt_append)
    then show ?thesis using s r to by (simp add: comment_def Let_def skip_def reach_def sound_def)
  qed (use assms in \<open>simp add: comment_def\<close>)
qed

lemma pass_line_yields:
  assumes "sound p"
  shows "yields (yp_text p) (pass_line al p) (\<lambda>_ p'. reach 0 [] p p')"
proof -
  define p1 where "p1 = skip (\<lambda>c. c = Some 0x20 \<or> c = Some 0x09 \<and> (0 < yp_depth p \<or> \<not> yp_allowed p)) p"
  define p2 where "p2 = (if peek p1 0 = Some 0x09 \<and> idle p1 then skip blank p1 else p1)"
  have p1: "reach 0 [] p p1" unfolding p1_def by (rule reach_skip [OF assms])
  have "reach 0 [] p1 p2" using reach_skip [OF reachD(1) [OF p1]] reachD(1) [OF p1] by (simp add: p2_def)
  then have p2: "reach 0 [] p p2" using reach_trans [OF p1, of 0 "[]" p2 0] by simp
  let ?m = "if is_char CHR ''#'' (peek p2 0) \<and> (yp_at p2 = yp_head p2 \<or> blank (Some (yp_text p2 ! (yp_at p2 - 1))))
    then comment al p2 else Done () p2"
  have m: "yields (yp_text p) ?m (\<lambda>_ p'. reach 0 ([] @ []) p p')"
    by (rule reach_yields [OF p2]) (auto intro: comment_yields)
  show ?thesis unfolding pass_line_def Let_def p1_def [symmetric] p2_def [symmetric]
  proof (rule yields_then [OF m])
    fix x p3 assume "reach 0 ([] @ []) p p3"
    then show "yields (yp_text p) (if \<not> newline (peek p3 0) then Done False p3
        else Done True (if yp_depth (feed p3) = 0 then (feed p3)\<lparr>yp_allowed := True\<rparr> else feed p3)) (\<lambda>_ p'. reach 0 [] p p')"
      using reach_trans [of 0 "[]" p p3 1 "[]" "feed p3" 0] reach_feed [of p3] reachD(1) [of 0 "[]" p p3] by simp
  qed
qed

lemma pass_yields: "sound p \<Longrightarrow> yields (yp_text p) (pass al p) (\<lambda>_ p'. reach 0 [] p p')"
proof (induction al p rule: pass.induct)
  case (1 al p)
  note l = pass_line_yields [OF "1.prems", of al]
  show ?case
  proof (cases "pass_line al p")
    case (Done again p1)
    have r: "reach 0 [] p p1" using l Done by simp
    show ?thesis
    proof (cases again)
      case True
      then have ih: "sound p1 \<Longrightarrow> yields (yp_text p1) (pass al p1) (\<lambda>_ p'. reach 0 [] p1 p')" using "1.IH" [OF Done] by simp
      show ?thesis using reach_yields [OF r ih, of 0] Done True by (subst pass.simps) simp
    next
      case False
      then show ?thesis using r Done by (subst pass.simps) simp
    qed
  qed (use l in \<open>simp_all add: pass.simps [of al p]\<close>)
qed

text \<open>The token at the cursor: the run goes on with it, or the text has a problem.\<close>

definition looked :: "yaml_parser \<Rightarrow> yaml_token \<times> yaml_parser \<Rightarrow> bool" where
  "looked p r \<longleftrightarrow> fst r \<noteq> BAD \<and> snd r = p \<or> (\<exists>problem. problem \<noteq> OUT_OF_MEMORY \<and> r = (BAD, note_problem problem p))"

lemma looked_if: "looked p r \<Longrightarrow> looked p s \<Longrightarrow> looked p (if b then r else s)"
  by simp

lemma looked_token: "t \<noteq> BAD \<Longrightarrow> looked p (t, p)"
  by (simp add: looked_def)

lemma looked_note: "problem \<noteq> OUT_OF_MEMORY \<Longrightarrow> looked p (BAD, note_problem problem p)"
  by (auto simp: looked_def)

lemma looked_look: "looked p (look p)"
  unfolding look_def Let_def by (intro looked_if) (simp_all add: looked_token looked_note)

lemma look_rule:
  assumes "sound p" and "\<And>t. t \<noteq> BAD \<Longrightarrow> look p = (t, p) \<Longrightarrow> yields (yp_text p) (f t p) q"
    and "\<And>p'. broken (yp_text p) p' \<Longrightarrow> yields (yp_text p) (f BAD p') q"
  shows "yields (yp_text p) (case look p of (t, p) \<Rightarrow> f t p) q"
proof -
  obtain t p' where l: "look p = (t, p')" by fastforce
  have "(t = BAD \<and> broken (yp_text p) p') \<or> (t \<noteq> BAD \<and> p' = p)"
    using looked_look [of p] broken_note [OF assms(1)] by (auto simp: looked_def l)
  then show ?thesis using assms(2,3) l by auto
qed

lemma look_room: "look p = (t, p) \<Longrightarrow> t \<noteq> END \<Longrightarrow> yp_at p + 1 \<le> length (yp_text p)"
  using peek_room [of p 0] by (cases "peek p 0") (simp_all add: look_def)

lemma look_marker: "look p = (t, p) \<Longrightarrow> t = DOCUMENT_OPEN \<or> t = DOCUMENT_CLOSE \<Longrightarrow> yp_at p + 3 \<le> length (yp_text p)"
  using is_char_room [of "CHR ''-''" p 2] is_char_room [of "CHR ''.''" p 2]
  unfolding look_def Let_def by (auto simp: marker_def split: if_splits)

lemma look_plain:
  assumes "look p = (PLAIN, p)"
  shows "\<not> blankz (peek p 0)" "\<not> is_char CHR ''#'' (peek p 0)" "0 < yp_depth p \<Longrightarrow> \<not> punctuation (peek p 0) \<and> \<not> is_char CHR '':'' (peek p 0)"
    "is_char CHR '':'' (peek p 0) \<Longrightarrow> \<not> blankz (peek p 1)"
proof -
  let ?c = "peek p 0"
  have r: "\<not> (blankz ?c \<or> indicator ?c) \<or> is_char CHR ''-'' ?c \<or>
      yp_depth p = 0 \<and> (is_char CHR ''?'' ?c \<or> is_char CHR '':'' ?c) \<and> \<not> blankz (peek p 1)"
    using assms unfolding look_def Let_def by (auto split: if_splits)
  then show "\<not> blankz ?c" "\<not> is_char CHR ''#'' ?c" "0 < yp_depth p \<Longrightarrow> \<not> punctuation ?c \<and> \<not> is_char CHR '':'' ?c"
    "is_char CHR '':'' ?c \<Longrightarrow> \<not> blankz (peek p 1)"
    by (auto simp: is_char_def blankz_def blank_def newline_def indicator_def punctuation_def among_def)
qed

subsection \<open>A scalar's text\<close>

lemma denul_split: "dropWhile (\<lambda>b. b \<noteq> 0) bs = b # rest \<Longrightarrow>
    denul bs = takeWhile (\<lambda>b. b \<noteq> 0) bs @ [0xEF, 0xBF, 0xBD] @ denul rest"
  by (induction bs) (auto split: if_splits)

lemma put_wf: "strbuf_wf buf \<Longrightarrow> strbuf_wf (put grant buf bs)"
proof (induction grant buf bs rule: put.induct)
  case (1 grant buf bs)
  then show ?case by (subst put.simps) (auto split: list.split intro: strbuf_put_wf)
qed

lemma put_oom: "oom buf \<Longrightarrow> oom (put grant buf bs)"
proof (induction grant buf bs rule: put.induct)
  case (1 grant buf bs)
  then show ?case by (subst put.simps) (auto split: list.split intro: strbuf_put_oom)
qed

lemma put_content: "\<not> oom (put grant buf bs) \<Longrightarrow> ptr (put grant buf bs) = ptr buf @ denul bs"
proof (induction grant buf bs rule: put.induct)
  case (1 grant buf bs)
  show ?case
  proof (cases "dropWhile (\<lambda>b. b \<noteq> 0) bs")
    case Nil
    then have "0 \<notin> set bs" by (auto simp: dropWhile_eq_Nil_conv)
    moreover have "put grant buf bs = strbuf_put grant buf bs" by (subst put.simps, subst Nil) simp
    ultimately show ?thesis using "1.prems" by (simp add: strbuf_put_content denul_id)
  next
    case (Cons b rest)
    let ?b1 = "strbuf_put grant buf (takeWhile (\<lambda>b. b \<noteq> 0) bs)"
    let ?b2 = "strbuf_put grant ?b1 [0xEF, 0xBF, 0xBD]"
    have p: "put grant buf bs = put grant ?b2 rest" using Cons by (subst put.simps) simp
    have o: "\<not> oom ?b2" "\<not> oom ?b1" using "1.prems" put_oom [of ?b2] strbuf_put_oom [of ?b1] by (auto simp: p)
    show ?thesis using "1.IH" [OF Cons] "1.prems" strbuf_put_content [OF o(1)] strbuf_put_content [OF o(2)] denul_split [OF Cons]
      by (simp add: p)
  qed
qed

lemma putc_content: "strbuf_wf buf \<Longrightarrow> \<not> oom (strbuf_putc grant buf c) \<Longrightarrow> ptr (strbuf_putc grant buf c) = ptr buf @ [c]"
  using strbuf_put_content by (simp add: strbuf_putc_is_put)

lemma putc_wf: "strbuf_wf buf \<Longrightarrow> strbuf_wf (strbuf_putc grant buf c)"
  by (simp add: strbuf_putc_is_put strbuf_put_wf)

lemma putc_oom: "strbuf_wf buf \<Longrightarrow> oom buf \<Longrightarrow> oom (strbuf_putc grant buf c)"
  by (simp add: strbuf_putc_is_put strbuf_put_oom)

lemma empty_wf [simp]: "strbuf_wf strbuf_empty"
  using strbuf_free_wf by (simp add: strbuf_free_def)

text \<open>The buffer's text moved into the event, or the text in place.\<close>


lemma own_yields:
  assumes "unbroken p" and "strbuf_wf buf"
  shows "yields (yp_text p) (own grant e buf p) (\<lambda>_ p'. \<not> oom buf \<and>
    (\<exists>b. p' = set_event e (\<lambda>ev. ev\<lparr>ev_text := ptr buf, ev_owned := b\<rparr>) p))"
proof -
  have u: "unbroken (set_event e f p)" for f using assms(1) by (simp add: unbroken_def)
  have d: "strbuf_detach grant buf = (Some (ptr buf), strbuf_empty) \<or> strbuf_detach grant buf = (None, strbuf_free buf)"
    if "\<not> oom buf" "ptr buf \<noteq> []" using assms(2) that by (auto simp: strbuf_detach_def strbuf_wf_def size_of_def)
  consider "oom buf" | "\<not> oom buf" "ptr buf = []" | "\<not> oom buf" "ptr buf \<noteq> []" "strbuf_detach grant buf = (Some (ptr buf), strbuf_empty)"
    | "\<not> oom buf" "ptr buf \<noteq> []" "strbuf_detach grant buf = (None, strbuf_free buf)"
    using d by blast
  then show ?thesis
  proof cases
    case 1
    then show ?thesis using assms(1) by (simp add: own_def)
  next
    case 4
    then show ?thesis using u by (simp add: own_def)
  qed (auto simp: own_def)
qed

lemma view_yields:
  assumes "unbroken p" and "ev_text (yp_events p ! e) = []" and "bs = slice (yp_text p) (ev_from (yp_events p ! e)) (ev_to (yp_events p ! e))"
  shows "yields (yp_text p) (view grant e p) (\<lambda>_ p'. \<exists>b.
    p' = set_event e (\<lambda>ev. ev\<lparr>ev_text := denul bs, ev_owned := b\<rparr>) p)"
proof (cases "0 \<in> set bs")
  case True
  let ?buf = "put grant strbuf_empty bs"
  have "view grant e p = own grant e ?buf p" using True assms(3) by (simp add: view_def Let_def)
  moreover have "ptr ?buf = denul bs" if "\<not> oom ?buf" using put_content [OF that] by (simp add: strbuf_empty_def)
  then have "yields (yp_text p) (own grant e ?buf p) (\<lambda>_ p'. \<exists>b. p' = set_event e (\<lambda>ev. ev\<lparr>ev_text := denul bs, ev_owned := b\<rparr>) p)"
    by (intro yields_mono [OF own_yields [OF assms(1) put_wf [OF empty_wf]]]) auto
  ultimately show ?thesis by simp
next
  case False
  have "(\<lambda>ev. ev\<lparr>ev_text := bs\<rparr>) (yp_events p ! e) = (\<lambda>ev. ev\<lparr>ev_text := denul bs, ev_owned := ev_owned (yp_events p ! e)\<rparr>) (yp_events p ! e)"
    by (simp add: denul_id [OF False])
  then have "set_event e (\<lambda>ev. ev\<lparr>ev_text := bs\<rparr>) p =
      set_event e (\<lambda>ev. ev\<lparr>ev_text := denul bs, ev_owned := ev_owned (yp_events p ! e)\<rparr>) p" by (simp add: set_event_def)
  then show ?thesis using False assms(3) by (auto simp: view_def Let_def)
qed

text \<open>A scalar's event with its text, from the event that \<open>scalar\<close> writes.\<close>

definition scalar_event :: "yaml_style \<Rightarrow> nat \<Rightarrow> nat \<Rightarrow> nat \<Rightarrow> nat \<Rightarrow> yaml_event" where
  "scalar_event style from_at to_at line at_line = (new_event SCALAR at_line)\<lparr>ev_style := style, ev_from := from_at, ev_to := to_at, ev_line := line\<rparr>"

definition starts_scalar :: "yaml_style \<Rightarrow> nat \<Rightarrow> nat \<Rightarrow> yaml_parser \<Rightarrow> nat \<Rightarrow> yaml_parser \<Rightarrow> bool" where
  "starts_scalar style from_at to_at p e p' \<longleftrightarrow> unbroken p' \<and> e = length (yp_events p) \<and> yp_text p' = yp_text p \<and> yp_at p' = yp_at p \<and>
     (\<exists>ev. yp_events p' = yp_events p @ [ev] \<and> ev_kind ev = SCALAR \<and> ev_style ev = style \<and> ev_from ev = from_at \<and> ev_to ev = to_at \<and> ev_text ev = []) \<and>
     (\<forall>bs b. event_ok (yp_text p) ((scalar_event style from_at to_at 0 0)\<lparr>ev_text := bs\<rparr>) \<longrightarrow>
        (\<exists>ev. ev_kind ev = SCALAR \<and> records p (yp_events p @ [ev]) (set_event e (\<lambda>ev. ev\<lparr>ev_text := bs, ev_owned := b\<rparr>) p')))"

lemma event_ok_fields:
  "event_ok src e \<Longrightarrow> ev_kind e' = ev_kind e \<Longrightarrow> ev_from e' = ev_from e \<Longrightarrow> ev_to e' = ev_to e \<Longrightarrow> ev_style e' = ev_style e \<Longrightarrow>
    ev_text e' = ev_text e \<Longrightarrow> event_ok src e'"
  by (cases "ev_style e") (simp_all add: event_ok_def)

lemma scalar_yields:
  assumes "sound p"
  shows "yields (yp_text p) (scalar al style from_at to_at line p) (starts_scalar style from_at to_at p)"
  unfolding scalar_def
proof (rule yields_then [OF emit_yields [OF assms]])
  fix e p1
  let ?f = "\<lambda>ev. ev\<lparr>ev_style := style, ev_from := from_at, ev_to := to_at, ev_line := line\<rparr>" and ?new = "new_event SCALAR (yp_line p)"
  assume a: "e = length (yp_events p) \<and> records p (yp_events p @ [new_event SCALAR (yp_line p)]) p1"
  then have r: "records p (yp_events p @ [?new]) p1" by blast
  have "\<exists>ev. ev_kind ev = SCALAR \<and> records p (yp_events p @ [ev]) (set_event e (\<lambda>ev. ev\<lparr>ev_text := bs, ev_owned := b\<rparr>) (set_event e ?f p1))"
    if ok: "event_ok (yp_text p) ((scalar_event style from_at to_at 0 0)\<lparr>ev_text := bs\<rparr>)" for bs b
  proof -
    let ?g = "\<lambda>ev. (?f ev)\<lparr>ev_text := bs, ev_owned := b\<rparr>"
    have k: "event_ok (yp_text p) (?g ?new)" by (rule event_ok_fields [OF ok]) (simp_all add: scalar_event_def new_event_def)
    have "records p (yp_events p @ [?g ?new]) (set_event e ?g p1)" using records_set [where f = ?g, OF r, of e] k a by simp
    moreover have "set_event e (\<lambda>ev. ev\<lparr>ev_text := bs, ev_owned := b\<rparr>) (set_event e ?f p1) = set_event e ?g p1"
      using a by (simp add: set_event_def records_def)
    ultimately show ?thesis by (intro exI [of _ "?g ?new"]) (simp add: new_event_def)
  qed
  moreover have "unbroken (set_event e ?f p1)" using sound_unbroken [of p1] r by (simp add: records_def unbroken_def)
  moreover have "yp_events (set_event e ?f p1) = yp_events p @ [?f ?new]" using a by (simp add: set_event_def records_def)
  ultimately show "yields (yp_text p) (Done e (set_event e ?f p1)) (starts_scalar style from_at to_at p)"
    using a by (simp add: starts_scalar_def new_event_def records_def)
qed

subsection \<open>Quoted scalars\<close>

lemma slice_snoc: "a \<le> b \<Longrightarrow> slice src b (b + k) = vs \<Longrightarrow> slice src a (b + k) = slice src a b @ vs"
  using slice_append [of a b "b + k" src] by simp

lemma slice_peek:
  assumes "peek p k = Some b"
  shows "slice (yp_text p) (yp_at p + k) (Suc (yp_at p + k)) = [b]"
  using assms slice_one [of "yp_at p + k" "yp_text p"] by (simp add: peek_def Let_def split: if_splits)

lemma slice_two: "peek p 0 = Some a \<Longrightarrow> peek p 1 = Some b \<Longrightarrow> slice (yp_text p) (yp_at p) (yp_at p + 2) = [a, b]"
  using slice_peek [of p 0 a] slice_peek [of p 1 b] slice_append [of "yp_at p" "yp_at p + 1" "yp_at p + 2" "yp_text p"]
  by simp

lemma slice_peeks:
  assumes "\<And>k. k < length bs \<Longrightarrow> peek p k = Some (bs ! k)" and "bs \<noteq> []"
  shows "slice (yp_text p) (yp_at p) (yp_at p + length bs) = bs"
proof (rule nth_equalityI)
  have "peek p (length bs - 1) \<noteq> None" using assms(1) [of "length bs - 1"] assms(2) by simp
  then have room: "yp_at p + length bs \<le> length (yp_text p)" using peek_room [of p "length bs - 1"] assms(2) by (cases bs) auto
  then show l: "length (slice (yp_text p) (yp_at p) (yp_at p + length bs)) = length bs" by (simp add: length_slice)
  fix k assume "k < length (slice (yp_text p) (yp_at p) (yp_at p + length bs))"
  then have "k < length bs" by (simp only: l)
  then show "slice (yp_text p) (yp_at p) (yp_at p + length bs) ! k = bs ! k"
    using assms(1) [of k] by (simp add: slice_def peek_def Let_def split: if_splits)
qed

lemma escape_half_yields:
  assumes "sound p"
  shows "yields (yp_text p) (escape_half half buf p) (\<lambda>u p'. p' = advance 6 p \<and> reach 6 [] p p' \<and>
    (\<exists>ds. length ds = 4 \<and> slice (yp_text p) (yp_at p) (yp_at p + 6) = [0x5C, 0x75] @ ds \<and> unit_of ds = Some u))"
proof (cases "\<not> is_char CHR 0x5C (peek p 0) \<or> \<not> is_char CHR ''u'' (peek p 1)")
  case False
  then have c: "peek p 0 = Some 0x5C" "peek p 1 = Some 0x75" by (simp_all add: is_char_def)
  show ?thesis
  proof (cases "unit_digits [peek p 2, peek p 3, peek p 4, peek p 5] 0")
    case (Some u)
    obtain a b d e where ds: "peek p 2 = Some a" "peek p 3 = Some b" "peek p 4 = Some d" "peek p 5 = Some e"
      using Some by (simp add: hex_def split: option.splits)
    have "peek p k = Some ([0x5C, 0x75, a, b, d, e] ! k)" if "k < length [0x5C, 0x75, a, b, d, e]" for k
    proof -
      have "k = 0 \<or> k = 1 \<or> k = 2 \<or> k = 3 \<or> k = 4 \<or> k = 5" using that by simp linarith
      then show ?thesis using c ds by auto
    qed
    then have "slice (yp_text p) (yp_at p) (yp_at p + 6) = [0x5C, 0x75, a, b, d, e]"
      using slice_peeks [of "[0x5C, 0x75, a, b, d, e]" p] by (simp add: eval_nat_numeral)
    moreover have "yp_at p + 6 \<le> length (yp_text p)" using peek_room [of p 5] ds by simp
    ultimately show ?thesis using Some False reach_advance [OF assms, of 6] ds
      by (auto simp: escape_half_def unit_of_def intro!: exI [of _ "[a, b, d, e]"])
  qed (use False assms in \<open>simp add: escape_half_def\<close>)
qed (use assms in \<open>simp add: escape_half_def\<close>)

lemma escape_code_yields:
  assumes "sound p"
  shows "yields (yp_text p) (escape_code buf p) (\<lambda>code p'. reach 6 [] p p' \<and>
    (\<forall>ws vs. quote_as ws vs \<longrightarrow> quote_as (ws @ slice (yp_text p) (yp_at p) (yp_at p')) (vs @ encode_char code)))"
  unfolding escape_code_def
proof (rule yields_then [OF escape_half_yields [OF assms]])
  fix code p1
  assume "p1 = advance 6 p \<and> reach 6 [] p p1 \<and>
    (\<exists>ds. length ds = 4 \<and> slice (yp_text p) (yp_at p) (yp_at p + 6) = [0x5C, 0x75] @ ds \<and> unit_of ds = Some code)"
  then obtain ds where p1: "p1 = advance 6 p" "reach 6 [] p p1" and ds: "length ds = 4" "unit_of ds = Some code"
    "slice (yp_text p) (yp_at p) (yp_at p + 6) = [0x5C, 0x75] @ ds" by blast
  note s = reachD(1,2) [OF p1(2)]
  have one: "quote_as (ws @ [0x5C, 0x75] @ ds) (vs @ encode_char code)" if "quote_as ws vs" "code < 0xD800 \<or> 0xDFFF < code" for ws vs
    using quote_unit [OF that(1) ds(1,2) that(2)] .
  have two: "yields (yp_text p) (chain (escape_half True buf p1) (\<lambda>u p.
      if u < 0xDC00 \<or> u > 0xDFFF then abandon buf ''found an unpaired surrogate escape'' p
      else Done (0x10000 + push_bit 10 (code - 0xD800) + (u - 0xDC00)) p)) (\<lambda>code p'. reach 6 [] p p' \<and>
    (\<forall>ws vs. quote_as ws vs \<longrightarrow> quote_as (ws @ slice (yp_text p) (yp_at p) (yp_at p')) (vs @ encode_char code)))"
    if c: "0xD800 \<le> code" "code \<le> 0xDBFF"
  proof (rule yields_then [of "yp_text p", OF escape_half_yields [OF s(1), unfolded s(2)]])
    fix u p2
    assume "p2 = advance 6 p1 \<and> reach 6 [] p1 p2 \<and>
      (\<exists>es. length es = 4 \<and> slice (yp_text p) (yp_at p1) (yp_at p1 + 6) = [0x5C, 0x75] @ es \<and> unit_of es = Some u)"
    then obtain es where p2: "p2 = advance 6 p1" "reach 6 [] p1 p2" and es: "length es = 4" "unit_of es = Some u"
      "slice (yp_text p) (yp_at p1) (yp_at p1 + 6) = [0x5C, 0x75] @ es" by blast
    have "slice (yp_text p) (yp_at p) (yp_at p2) = [0x5C, 0x75] @ ds @ [0x5C, 0x75] @ es"
      using ds(3) es(3) slice_append [of "yp_at p" "yp_at p + 6" "yp_at p + 12" "yp_text p"] by (simp add: p1(1) p2(1) add.assoc)
    moreover have "reach 6 [] p p2" using reach_trans [OF p1(2) p2(2), of 6] by simp
    ultimately show "yields (yp_text p) (if u < 0xDC00 \<or> u > 0xDFFF then abandon buf ''found an unpaired surrogate escape'' p2
        else Done (0x10000 + push_bit 10 (code - 0xD800) + (u - 0xDC00)) p2) (\<lambda>code p'. reach 6 [] p p' \<and>
      (\<forall>ws vs. quote_as ws vs \<longrightarrow> quote_as (ws @ slice (yp_text p) (yp_at p) (yp_at p')) (vs @ encode_char code)))"
      using quote_pair [OF _ ds(1,2) c es(1,2)] reachD(1,2) [OF p2(2)] s(2) by simp
  qed
  show "yields (yp_text p) (if 0xDC00 \<le> code \<and> code \<le> 0xDFFF then abandon buf ''found an unpaired surrogate escape'' p1
      else if code < 0xD800 \<or> code > 0xDBFF then Done code p1
      else chain (escape_half True buf p1) (\<lambda>u p.
        if u < 0xDC00 \<or> u > 0xDFFF then abandon buf ''found an unpaired surrogate escape'' p
        else Done (0x10000 + push_bit 10 (code - 0xD800) + (u - 0xDC00)) p)) (\<lambda>code p'. reach 6 [] p p' \<and>
    (\<forall>ws vs. quote_as ws vs \<longrightarrow> quote_as (ws @ slice (yp_text p) (yp_at p) (yp_at p')) (vs @ encode_char code)))"
    using one two p1 s ds(3) by (simp del: yields_chain)
qed

text \<open>
  What the loop over a quoted scalar keeps, the parser \<open>p0\<close> where its text starts: the buffer
  is empty until the text is copied, and then holds what the text read stands for.
\<close>

definition quote_kind :: "bool \<Rightarrow> byte list \<Rightarrow> byte list \<Rightarrow> bool" where
  "quote_kind apostrophe = (if apostrophe then apostrophe_as else quote_as)"

definition quoting :: "bool \<Rightarrow> yaml_parser \<Rightarrow> strbuf \<Rightarrow> bool \<Rightarrow> yaml_parser \<Rightarrow> bool" where
  "quoting apostrophe p0 buf copied p \<longleftrightarrow> reach 0 [] p0 p \<and> strbuf_wf buf \<and>
     (let ws = slice (yp_text p0) (yp_at p0) (yp_at p)
      in if copied then oom buf \<or> quote_kind apostrophe ws (ptr buf)
         else buf = strbuf_empty \<and> 0 \<notin> set ws \<and> quote_kind apostrophe ws ws)"

lemma quoting_reach: "quoting apostrophe p0 buf copied p \<Longrightarrow> reach 0 [] p0 p"
  by (simp add: quoting_def)

lemma quoting_put:
  assumes "quoting apostrophe p0 buf False p"
  shows "quoting apostrophe p0 (put grant buf (slice (yp_text p) (yp_at p0) (yp_at p))) True p"
  using assms reachD(2) [OF quoting_reach [OF assms]] put_content [of grant buf "slice (yp_text p0) (yp_at p0) (yp_at p)"]
  by (cases "oom (put grant buf (slice (yp_text p0) (yp_at p0) (yp_at p)))") (auto simp: quoting_def Let_def put_wf denul_id strbuf_empty_def)

text \<open>The text goes on by \<open>us\<close>, which stands for \<open>vs\<close>.\<close>

lemma quoting_copy:
  assumes q: "quoting apostrophe p0 buf True p" and r: "reach 0 [] p p'" and "slice (yp_text p) (yp_at p) (yp_at p') = us"
    and k: "\<And>ws xs. quote_kind apostrophe ws xs \<Longrightarrow> quote_kind apostrophe (ws @ us) (xs @ vs)"
    and "strbuf_wf buf'" and "oom buf \<Longrightarrow> oom buf'" and "\<not> oom buf' \<Longrightarrow> ptr buf' = ptr buf @ vs"
  shows "quoting apostrophe p0 buf' True p'"
proof -
  note r0 = quoting_reach [OF q]
  have "slice (yp_text p0) (yp_at p0) (yp_at p') = slice (yp_text p0) (yp_at p0) (yp_at p) @ us"
    using assms(3) reachD(2,3) [OF r0] reachD(3) [OF r] slice_append [of "yp_at p0" "yp_at p" "yp_at p'" "yp_text p0"] by simp
  then show ?thesis using q assms(4-) reach_trans [OF r0 r, of 0] by (cases "oom buf'") (auto simp: quoting_def)
qed

lemma quoting_on:
  assumes q: "quoting apostrophe p0 buf False p" and c: "peek p 0 = Some b" and "b \<noteq> 0"
    and k: "\<And>ws xs. quote_kind apostrophe ws xs \<Longrightarrow> quote_kind apostrophe (ws @ [b]) (xs @ denul [b])"
  shows "quoting apostrophe p0 buf False (advance 1 p)"
proof -
  note r0 = quoting_reach [OF q]
  have "reach 0 [] p (advance 1 p)" using reach_mono [OF reach_advance, of p 1 0] reachD(1) [OF r0] peek_room [of p 0] c by simp
  then have "reach 0 [] p0 (advance 1 p)" using reach_trans [OF r0, of 0 "[]" "advance 1 p" 0] by simp
  moreover have "slice (yp_text p0) (yp_at p0) (Suc (yp_at p)) = slice (yp_text p0) (yp_at p0) (yp_at p) @ [b]"
    using slice_peek [OF c] slice_append [of "yp_at p0" "yp_at p" "Suc (yp_at p)" "yp_text p0"] reachD(2,3) [OF r0] by simp
  ultimately show ?thesis using q assms(3) k by (simp add: quoting_def Let_def)
qed

lemma quoted_turn_yields:
  assumes q: "quoting apostrophe p0 buf copied p"
  shows "yields (yp_text p0) (quoted_turn grant apostrophe (yp_at p0) buf copied p) (\<lambda>(stop, buf', copied') p'.
    quoting apostrophe p0 buf' copied' p' \<and> (stop \<longrightarrow> p' = p))"
proof (cases "peek p 0")
  case None
  then show ?thesis using reachD(1,2) [OF quoting_reach [OF q]] by (simp add: quoted_turn_def)
next
  case (Some b)
  note s = reachD(1,2) [OF quoting_reach [OF q]]
  let ?start = "\<not> copied \<and> (b = 0 \<or> is_char (if apostrophe then CHR 0x27 else CHR 0x5C) (Some b))"
  define buf1 where "buf1 = (if ?start then put grant buf (slice (yp_text p) (yp_at p0) (yp_at p)) else buf)"
  define copied1 where "copied1 = (copied \<or> ?start)"
  have q1: "quoting apostrophe p0 buf1 copied1 p" using q quoting_put [of apostrophe p0 buf p grant] by (auto simp: buf1_def copied1_def)
  then have wf: "strbuf_wf buf1" by (simp add: quoting_def)
  have step: "reach 0 [] p (advance k p)" if "yp_at p + k \<le> length (yp_text p)" for k
    using reach_mono [OF reach_advance [OF s(1) that], of 0] by simp
  have one: "reach 0 [] p (advance 1 p)" using step [of 1] peek_room [of p 0] Some by simp
  show ?thesis
  proof (cases "newline (Some b) \<or> is_char (if apostrophe then CHR 0x27 else CHR 0x22) (Some b) \<and> \<not> (apostrophe \<and> is_char CHR 0x27 (peek p 1))")
    case True
    then show ?thesis using s q Some by (auto simp: quoted_turn_def Let_def)
  next
    case False
    let ?run = "if apostrophe \<and> is_char CHR 0x27 (Some b) then Done (False, strbuf_putc grant buf1 0x27, copied1) (advance 2 p)
      else if \<not> apostrophe \<and> is_char CHR 0x5C (Some b) then
        case Option.bind (peek p 1) (map_of short_escapes) of
          Some hit \<Rightarrow> Done (False, strbuf_putc grant buf1 hit, copied1) (advance 2 p)
        | None \<Rightarrow> chain (escape_code buf1 p) (\<lambda>code p. Done (False, strbuf_put grant buf1 (encode_char code), copied1) p)
      else if copied1 then Done (False, put grant buf1 [b], copied1) (advance 1 p)
      else Done (False, buf1, copied1) (advance 1 p)"
    have nl: "\<not> newline (Some b)"
      and go: "\<not> (is_char (if apostrophe then CHR 0x27 else CHR 0x22) (Some b) \<and> \<not> (apostrophe \<and> is_char CHR 0x27 (peek p 1)))"
      using False by blast+
    have run: "quoted_turn grant apostrophe (yp_at p0) buf copied p = ?run"
      unfolding quoted_turn_def Let_def Some option.case if_not_P [OF nl] if_not_P [OF go] buf1_def copied1_def by (rule refl)
    have plain: "quote_kind apostrophe (ws @ [b]) (xs @ denul [b])" if "quote_kind apostrophe ws xs"
      "\<not> (apostrophe \<and> is_char CHR 0x27 (Some b))" "\<not> (\<not> apostrophe \<and> is_char CHR 0x5C (Some b))" for ws xs
      using that False apostrophe_plain [of ws xs b] quote_plain [of ws xs b] by (auto simp: quote_kind_def is_char_def newline_def)
    consider "apostrophe" "is_char CHR 0x27 (Some b)" | "\<not> apostrophe" "is_char CHR 0x5C (Some b)"
      | "\<not> (apostrophe \<and> is_char CHR 0x27 (Some b))" "\<not> (\<not> apostrophe \<and> is_char CHR 0x5C (Some b))" by blast
    then show ?thesis
    proof cases
      case 1
      then have c: "peek p 0 = Some 0x27" "peek p 1 = Some 0x27" using False Some by (auto simp: is_char_def)
      have "quoting apostrophe p0 (strbuf_putc grant buf1 0x27) True (advance 2 p)"
      proof (rule quoting_copy [where us = "[0x27, 0x27]" and vs = "[0x27]"])
        show "quoting apostrophe p0 buf1 True p" using q1 1 by (simp add: copied1_def)
        show "reach 0 [] p (advance 2 p)" using step [of 2] peek_room [of p 1] c by simp
        show "slice (yp_text p) (yp_at p) (yp_at (advance 2 p)) = [0x27, 0x27]" using slice_two [OF c] by simp
        show "quote_kind apostrophe (ws @ [0x27, 0x27]) (xs @ [0x27])" if "quote_kind apostrophe ws xs" for ws xs
          using that 1 by (simp add: quote_kind_def apostrophe_twice)
      qed (simp_all add: wf putc_wf putc_oom putc_content)
      then show ?thesis unfolding run using 1 by (simp add: copied1_def)
    next
      case 2
      then have c: "peek p 0 = Some 0x5C" and cp: "quoting apostrophe p0 buf1 True p" "copied1"
        using Some q1 by (auto simp: is_char_def copied1_def)
      show ?thesis
      proof (cases "Option.bind (peek p 1) (map_of short_escapes)")
        case None
        then have r: "?run = chain (escape_code buf1 p) (\<lambda>code p. Done (False, strbuf_put grant buf1 (encode_char code), copied1) p)"
          using 2 by simp
        have "yields (yp_text p) (chain (escape_code buf1 p) (\<lambda>code p. Done (False, strbuf_put grant buf1 (encode_char code), copied1) p))
            (\<lambda>(stop, buf', copied') p'. quoting apostrophe p0 buf' copied' p' \<and> (stop \<longrightarrow> p' = p))"
        proof (rule yields_then [OF escape_code_yields [OF s(1)]])
          fix code p1
          assume "reach 6 [] p p1 \<and> (\<forall>ws vs. quote_as ws vs \<longrightarrow> quote_as (ws @ slice (yp_text p) (yp_at p) (yp_at p1)) (vs @ encode_char code))"
          then have "quoting apostrophe p0 (strbuf_put grant buf1 (encode_char code)) True p1"
            by (intro quoting_copy [OF cp(1) reach_mono refl])
              (use 2 in \<open>auto simp: quote_kind_def wf strbuf_put_wf strbuf_put_oom strbuf_put_content\<close>)
          then show "yields (yp_text p) (Done (False, strbuf_put grant buf1 (encode_char code), copied1) p1)
              (\<lambda>(stop, buf', copied') p'. quoting apostrophe p0 buf' copied' p' \<and> (stop \<longrightarrow> p' = p))" using cp(2) by simp
        qed
        then show ?thesis unfolding run r s(2) .
      next
        case (Some hit)
        then obtain d where d: "peek p 1 = Some d" "map_of short_escapes d = Some hit" by (cases "peek p 1") auto
        have "quoting apostrophe p0 (strbuf_putc grant buf1 hit) True (advance 2 p)"
        proof (rule quoting_copy [where us = "[0x5C, d]" and vs = "[hit]", OF cp(1)])
          show "reach 0 [] p (advance 2 p)" using step [of 2] peek_room [of p 1] d by simp
          show "slice (yp_text p) (yp_at p) (yp_at (advance 2 p)) = [0x5C, d]" using slice_two [OF c d(1)] by simp
          show "quote_kind apostrophe (ws @ [0x5C, d]) (xs @ [hit])" if "quote_kind apostrophe ws xs" for ws xs
            using that 2 d by (simp add: quote_kind_def quote_short)
        qed (simp_all add: wf putc_wf putc_oom putc_content)
        then show ?thesis unfolding run using 2 Some cp(2) by simp
      qed
    next
      case 3
      show ?thesis
      proof (cases copied1)
        case True
        have "quoting apostrophe p0 (put grant buf1 [b]) True (advance 1 p)"
        proof (rule quoting_copy [where us = "[b]" and vs = "denul [b]"])
          show "quoting apostrophe p0 buf1 True p" using q1 True by simp
          show "slice (yp_text p) (yp_at p) (yp_at (advance 1 p)) = [b]" using slice_peek [OF Some] by simp
        qed (use one plain 3 in \<open>simp_all add: wf put_wf put_oom put_content del: denul_simps\<close>)
        then show ?thesis unfolding run if_not_P [OF 3(1)] if_not_P [OF 3(2)] using True by simp
      next
        case False
        then have "quoting apostrophe p0 buf1 False (advance 1 p)"
          using quoting_on [OF _ Some, of apostrophe p0 buf1] q1 plain 3 by (auto simp: copied1_def)
        then show ?thesis unfolding run if_not_P [OF 3(1)] if_not_P [OF 3(2)] using False by simp
      qed
    qed
  qed
qed

lemma quoted_loop_yields:
  "quoting apostrophe p0 buf copied p \<Longrightarrow>
    yields (yp_text p0) (quoted_loop grant apostrophe (yp_at p0) buf copied p) (\<lambda>(buf', copied') p'.
      quoting apostrophe p0 buf' copied' p' \<and> yp_at p' < length (yp_text p0))"
proof (induction grant apostrophe "yp_at p0" buf copied p rule: quoted_loop.induct)
  case (1 grant apostrophe buf copied p)
  note t = quoted_turn_yields [OF "1.prems", of grant]
  show ?case
  proof (cases "quoted_turn grant apostrophe (yp_at p0) buf copied p")
    case (Done r p1)
    obtain stop buf1 copied1 where r: "r = (stop, buf1, copied1)" by (cases r)
    have q: "quoting apostrophe p0 buf1 copied1 p1" "stop \<longrightarrow> p1 = p" using t Done r by simp_all
    have "yp_at p < length (yp_text p0)"
      using quoted_turn_done [OF Done [unfolded r]] reachD(2) [OF quoting_reach [OF "1.prems"]] by simp
    then show ?thesis
      using q "1.hyps" [of r p1 stop "(buf1, copied1)" buf1 copied1] Done r
      by (subst quoted_loop.simps) (cases stop; simp)
  qed (use t in \<open>simp_all add: quoted_loop.simps [of _ _ _ buf]\<close>)
qed

text \<open>The text set in the event of a scalar just written.\<close>

lemma starts_scalar_own:
  assumes "starts_scalar style from_at to_at p e p1" and "event_ok (yp_text p) ((scalar_event style from_at to_at 0 0)\<lparr>ev_text := bs\<rparr>)"
    and "yp_at p + k \<le> length (yp_text p)"
  shows "\<exists>ev. ev_kind ev = SCALAR \<and> reach k [ev] p (set_event e (\<lambda>ev. ev\<lparr>ev_text := bs, ev_owned := b\<rparr>) ((advance k p1)\<lparr>yp_allowed := a\<rparr>))"
proof -
  let ?g = "\<lambda>ev. ev\<lparr>ev_text := bs, ev_owned := b\<rparr>"
  obtain ev where ev: "ev_kind ev = SCALAR" "records p (yp_events p @ [ev]) (set_event e ?g p1)"
    using assms(1,2) by (auto simp: starts_scalar_def)
  have "reach k [] (set_event e ?g p1) (advance k (set_event e ?g p1))"
    by (rule reach_advance) (use ev(2) assms(3) in \<open>simp_all add: records_def\<close>)
  then have "reach k [ev] p (advance k (set_event e ?g p1))" using reach_trans [OF records_reach [OF ev(2)], of k "[]" _ k] by simp
  moreover have "set_event e ?g ((advance k p1)\<lparr>yp_allowed := a\<rparr>) = (advance k (set_event e ?g p1))\<lparr>yp_allowed := a\<rparr>"
    by (simp add: set_event_def)
  ultimately show ?thesis using ev(1) by (metis reach_allowed)
qed

lemma unbroken_advance: "unbroken p \<Longrightarrow> yp_at p + k \<le> length (yp_text p) \<Longrightarrow> unbroken ((advance k p)\<lparr>yp_allowed := a\<rparr>)"
  using spans_later [of "yp_text p" "yp_at p" "yp_comments p" "yp_at p + k"] by (simp add: unbroken_def)

lemma starts_scalar_own_yields:
  assumes "starts_scalar style from_at to_at p e p1" and "strbuf_wf buf" and "yp_at p + k \<le> length (yp_text p)"
    and "\<not> oom buf \<Longrightarrow> event_ok (yp_text p) ((scalar_event style from_at to_at 0 0)\<lparr>ev_text := ptr buf\<rparr>)"
  shows "yields (yp_text p) (own grant e buf ((advance k p1)\<lparr>yp_allowed := a\<rparr>)) (\<lambda>_ p'. \<exists>ev. ev_kind ev = SCALAR \<and> reach k [ev] p p')"
proof -
  have "unbroken p1" "yp_text p1 = yp_text p" "yp_at p1 = yp_at p" using assms(1) by (simp_all add: starts_scalar_def)
  then have u: "unbroken ((advance k p1)\<lparr>yp_allowed := a\<rparr>)" and s: "yp_text ((advance k p1)\<lparr>yp_allowed := a\<rparr>) = yp_text p"
    using assms(3) unbroken_advance [of p1 k a] by simp_all
  show ?thesis
    by (rule yields_mono [OF own_yields [OF u assms(2), unfolded s]])
      (use starts_scalar_own [OF assms(1) _ assms(3)] assms(4) in blast)
qed

lemma starts_scalar_view_yields:
  assumes "starts_scalar style from_at to_at p e p1" and "yp_at p + k \<le> length (yp_text p)"
    and "event_ok (yp_text p) ((scalar_event style from_at to_at 0 0)\<lparr>ev_text := denul (slice (yp_text p) from_at to_at)\<rparr>)"
  shows "yields (yp_text p) (view grant e ((advance k p1)\<lparr>yp_allowed := a\<rparr>)) (\<lambda>_ p'. \<exists>ev. ev_kind ev = SCALAR \<and> reach k [ev] p p')"
proof -
  let ?p2 = "(advance k p1)\<lparr>yp_allowed := a\<rparr>"
  have "unbroken p1" "yp_text p1 = yp_text p" "yp_at p1 = yp_at p" using assms(1) by (simp_all add: starts_scalar_def)
  then have u: "unbroken ?p2" and s: "yp_text ?p2 = yp_text p" using assms(2) unbroken_advance [of p1 k a] by simp_all
  have e: "ev_text (yp_events ?p2 ! e) = []" "slice (yp_text p) from_at to_at = slice (yp_text ?p2) (ev_from (yp_events ?p2 ! e)) (ev_to (yp_events ?p2 ! e))"
    using assms(1) by (auto simp: starts_scalar_def)
  show ?thesis
    by (rule yields_mono [OF view_yields [OF u e, unfolded s]])
      (use starts_scalar_own [OF assms(1) assms(3) assms(2)] in blast)
qed

lemma quoted_yields:
  assumes "sound p" and "yp_at p + 1 \<le> length (yp_text p)"
  shows "yields (yp_text p) (quoted al p) (\<lambda>_ p'. \<exists>e. ev_kind e = SCALAR \<and> reach 1 [e] p p')"
proof -
  let ?a = "is_char CHR 0x27 (peek p 0)" and ?p0 = "advance 1 p"
  let ?style = "if ?a then YAML_APOSTROPHE else YAML_QUOTE"
  have r0: "reach 1 [] p ?p0" by (rule reach_advance [OF assms])
  have "quoting ?a ?p0 strbuf_empty False ?p0"
    using reachD(1) [OF r0] by (simp add: quoting_def quote_kind_def apostrophe_none quote_none)
  then have l: "yields (yp_text p) (quoted_loop (ya_buffer al (yp_at ?p0)) ?a (yp_at ?p0) strbuf_empty False ?p0) (\<lambda>(buf', copied') p'.
      quoting ?a ?p0 buf' copied' p' \<and> yp_at p' < length (yp_text ?p0))"
    using quoted_loop_yields [of ?a ?p0 strbuf_empty False ?p0 "ya_buffer al (yp_at ?p0)"] by simp
  show ?thesis unfolding quoted_def Let_def
  proof (rule yields_then [OF l], clarify)
    fix buf copied p1
    assume q: "quoting ?a ?p0 buf copied p1" and at1: "yp_at p1 < length (yp_text ?p0)"
    have r1: "reach 1 [] p p1" using reach_trans [OF r0 quoting_reach [OF q], of 1] by simp
    note s1 = reachD(1,2) [OF r1]
    have room: "yp_at p1 + 1 \<le> length (yp_text p1)" using at1 s1 by simp
    let ?leave = "\<lambda>p. (advance 1 p)\<lparr>yp_allowed := False\<rparr>"
    let ?f = "\<lambda>r. case r of Done e p \<Rightarrow> if \<not> copied then view (ya_buffer al (yp_at p + 1)) e (?leave p) else own (ya_buffer al (yp_at p + 1)) e buf (?leave p)
           | Failed p \<Rightarrow> Failed (?leave p)
           | Stuck \<Rightarrow> Stuck"
    have ok: "event_ok (yp_text p1) ((scalar_event ?style (yp_at p + 1) (yp_at p1) 0 0)\<lparr>ev_text := vs\<rparr>)"
      if "quote_kind ?a (slice (yp_text p1) (yp_at p + 1) (yp_at p1)) vs" for vs
      using that reachD(3) [OF r1] room by (auto simp: event_ok_def scalar_event_def new_event_def quote_kind_def)
    note sc = scalar_yields [OF s1(1), of al ?style "yp_at p + 1" "yp_at p1" "yp_line p"]
    have last: "reach 1 [e] p p'" if "reach 1 [e] p1 p'" for e p' using reach_trans [OF r1 that, of 1] by simp
    show "yields (yp_text p)
        (case scalar al ?style (yp_at ?p0) (yp_at p1) (yp_line p) p1 of
           Done e p' \<Rightarrow> if \<not> copied then view (ya_buffer al (yp_at ?p0)) e (?leave p') else own (ya_buffer al (yp_at ?p0)) e buf (?leave p')
         | Failed p' \<Rightarrow> Failed (?leave p')
         | Stuck \<Rightarrow> Stuck) (\<lambda>_ p'. \<exists>e. ev_kind e = SCALAR \<and> reach 1 [e] p p')"
    proof (cases "scalar al ?style (yp_at p + 1) (yp_at p1) (yp_line p) p1")
      case (Done e p2)
      then have st: "starts_scalar ?style (yp_at p + 1) (yp_at p1) p1 e p2" using sc by simp
      have "yields (yp_text p1) (if \<not> copied then view (ya_buffer al (yp_at ?p0)) e (?leave p2) else own (ya_buffer al (yp_at ?p0)) e buf (?leave p2))
          (\<lambda>_ p'. \<exists>e. ev_kind e = SCALAR \<and> reach 1 [e] p1 p')"
      proof (cases copied)
        case True
        have "strbuf_wf buf" "event_ok (yp_text p1) ((scalar_event ?style (yp_at p + 1) (yp_at p1) 0 0)\<lparr>ev_text := ptr buf\<rparr>)"
          if "\<not> oom buf" using q ok [of "ptr buf"] that True s1(2) by (simp_all add: quoting_def)
        moreover have "strbuf_wf buf" using q by (simp add: quoting_def)
        ultimately show ?thesis using starts_scalar_own_yields [OF st _ room] True by simp
      next
        case False
        then have "event_ok (yp_text p1) ((scalar_event ?style (yp_at p + 1) (yp_at p1) 0 0)
            \<lparr>ev_text := denul (slice (yp_text p1) (yp_at p + 1) (yp_at p1))\<rparr>)"
          using q ok [of "slice (yp_text p1) (yp_at p + 1) (yp_at p1)"] s1(2) by (simp add: quoting_def Let_def denul_id)
        then show ?thesis using starts_scalar_view_yields [OF st room] False by simp
      qed
      then have "yields (yp_text p) (if \<not> copied then view (ya_buffer al (yp_at ?p0)) e (?leave p2) else own (ya_buffer al (yp_at ?p0)) e buf (?leave p2))
          (\<lambda>_ p'. \<exists>e. ev_kind e = SCALAR \<and> reach 1 [e] p p')"
        unfolding s1(2) by (rule yields_mono) (use last in blast)
      then show ?thesis using Done by simp
    qed (use sc s1(2) in \<open>simp_all add: broken_def\<close>)
  qed
qed

subsection \<open>Plain scalars\<close>

lemma plain_word_yields:
  "sound p \<Longrightarrow> to_at \<le> yp_at p \<Longrightarrow>
    yields (yp_text p) (plain_word to_at p) (\<lambda>to' p'. reach 0 [] p p' \<and> to_at \<le> to' \<and> to' \<le> yp_at p')"
proof (induction to_at p rule: plain_word.induct)
  case (1 to_at p)
  let ?stop = "blankz (peek p 0)" and ?bad = "0 < yp_depth p \<and> is_char CHR '':'' (peek p 0) \<and> (punctuation (peek p 1) \<or> is_char CHR ''?'' (peek p 1))"
    and ?over = "is_char CHR '':'' (peek p 0) \<and> blankz (peek p 1) \<or> 0 < yp_depth p \<and> punctuation (peek p 0)"
  show ?case
  proof (cases "?stop \<or> ?bad \<or> ?over")
    case True
    then show ?thesis using "1.prems" by (subst plain_word.simps) (auto simp: Let_def)
  next
    case False
    have "peek p 0 \<noteq> None" using False by (auto simp: blankz_def)
    then have r: "reach 1 [] p (advance 1 p)" using reach_advance [OF "1.prems"(1), of 1] peek_room [of p 0] by simp
    have w: "plain_word to_at p = plain_word (yp_at p + 1) (advance 1 p)" using False by (subst plain_word.simps) (auto simp: Let_def)
    have "yields (yp_text p) (plain_word (yp_at p + 1) (advance 1 p))
        (\<lambda>to' p'. reach 0 [] (advance 1 p) p' \<and> yp_at p + 1 \<le> to' \<and> to' \<le> yp_at p')"
      using "1.IH" [OF refl] False reachD(1) [OF r] by simp
    then show ?thesis unfolding w
      by (rule yields_mono) (use reach_trans [OF r, of 0 "[]" _ 0] "1.prems"(2) in simp)
  qed
qed

lemma plain_loop_yields:
  "sound p \<Longrightarrow> to_at \<le> yp_at p \<Longrightarrow>
    yields (yp_text p) (plain_loop to_at p) (\<lambda>to' p'. reach 0 [] p p' \<and> to_at \<le> to' \<and> to' \<le> yp_at p')"
proof (induction to_at p rule: plain_loop.induct)
  case (1 to_at p)
  note w = plain_word_yields [OF "1.prems"]
  show ?case
  proof (cases "is_char CHR ''#'' (peek p 0)")
    case False
    show ?thesis
    proof (cases "plain_word to_at p")
      case (Done to1 p1)
      then have r: "reach 0 [] p p1" "to_at \<le> to1" "to1 \<le> yp_at p1" using w by simp_all
      show ?thesis
      proof (cases "blank (peek p1 0)")
        case True
        note k = reach_skip [OF reachD(1) [OF r(1)], of blank]
        have "yields (yp_text p) (plain_loop to1 (skip blank p1)) (\<lambda>to' p'. reach 0 [] (skip blank p1) p' \<and> to1 \<le> to' \<and> to' \<le> yp_at p')"
          using "1.IH" [OF False Done] True reachD(1,3) [OF k] r(3) reachD(2) [OF r(1)] by simp
        then have "yields (yp_text p) (plain_loop to1 (skip blank p1)) (\<lambda>to' p'. reach 0 [] p p' \<and> to_at \<le> to' \<and> to' \<le> yp_at p')"
          by (rule yields_mono) (use reach_trans [OF reach_trans [OF r(1) k, of 0], of 0 "[]" _ 0] r(2) in simp)
        then show ?thesis using False Done True by (subst plain_loop.simps) simp
      next
        case False
        then show ?thesis using \<open>\<not> is_char CHR ''#'' (peek p 0)\<close> Done r by (subst plain_loop.simps) simp
      qed
    qed (use False w in \<open>simp_all add: plain_loop.simps [of to_at p]\<close>)
  qed (use "1.prems" in \<open>subst plain_loop.simps, simp\<close>)
qed

text \<open>A plain token is at least a character of text.\<close>

lemma plain_loop_starts:
  assumes "look p = (PLAIN, p)" and "plain_loop to_at p = Done to' p'"
  shows "yp_at p < yp_at p'"
proof -
  note l = look_plain [OF assms(1)]
  have w: "plain_word to_at p = plain_word (yp_at p + 1) (advance 1 p)"
    using l by (subst plain_word.simps) (auto simp: Let_def)
  obtain to1 p1 where d: "plain_word (yp_at p + 1) (advance 1 p) = Done to1 p1"
    using assms(2) l(2) w by (cases "plain_word (yp_at p + 1) (advance 1 p)") (simp_all add: plain_loop.simps [of to_at p])
  have p1: "yp_at p < yp_at p1" using plain_word_done [OF d] by simp
  have grow: "plain_loop to1 q = Done to' p' \<Longrightarrow> yp_at q \<le> yp_at p'" for to1 q
  proof (induction to1 q rule: plain_loop.induct)
    case (1 to1 q)
    show ?case
    proof (cases "is_char CHR ''#'' (peek q 0)")
      case False
      then obtain to2 q2 where w2: "plain_word to1 q = Done to2 q2"
        using "1.prems" by (cases "plain_word to1 q") (simp_all add: plain_loop.simps [of to1 q])
      have "plain_loop to2 (skip blank q2) = Done to' p' \<or> q2 = p'"
        using "1.prems" False w2 by (simp add: plain_loop.simps [of to1 q] split: if_splits)
      then show ?thesis
        using "1.IH" [OF False w2] plain_word_done [OF w2] skip_at [of q2 blank] "1.prems" False w2
        by (cases "blank (peek q2 0)") (auto simp: plain_loop.simps [of to1 q])
    qed (use "1.prems" in \<open>simp add: plain_loop.simps [of to1 q]\<close>)
  qed
  have "plain_loop to1 (skip blank p1) = Done to' p' \<or> p1 = p'"
    using assms(2) l(2) w d by (simp add: plain_loop.simps [of to_at p] split: if_splits)
  then show ?thesis using grow [of to1 "skip blank p1"] skip_at [of p1 blank] p1 by auto
qed

lemma plain_yields:
  assumes "sound p" and "look p = (PLAIN, p)"
  shows "yields (yp_text p) (plain al p) (\<lambda>_ p'. \<exists>e. ev_kind e = SCALAR \<and> reach 1 [e] p p')"
  unfolding plain_def Let_def
proof (cases "plain_loop (yp_at p) p")
  case (Done to1 p1)
  note l = plain_loop_yields [OF assms(1), of "yp_at p"]
  have r: "reach 0 [] p p1" "yp_at p \<le> to1" "to1 \<le> yp_at p1" using l Done by simp_all
  have at1: "yp_at p < yp_at p1" by (rule plain_loop_starts [OF assms(2) Done])
  let ?p1 = "p1\<lparr>yp_allowed := False\<rparr>"
  have r1: "reach 1 [] p ?p1" using r(1) at1 by (simp add: reach_def)
  note s1 = reachD(1,2,7) [OF r1]
  have ok: "event_ok (yp_text ?p1) ((scalar_event YAML_PLAIN (yp_at p) to1 0 0)\<lparr>ev_text := denul (slice (yp_text ?p1) (yp_at p) to1)\<rparr>)"
    using r s1(3) reachD(2) [OF r(1)] by (simp add: event_ok_def scalar_event_def new_event_def)
  have "yields (yp_text ?p1) (chain (scalar al YAML_PLAIN (yp_at p) to1 (yp_line ?p1) ?p1) (view (ya_buffer al (yp_at p))))
      (\<lambda>_ p'. \<exists>e. ev_kind e = SCALAR \<and> reach 0 [e] ?p1 p')"
  proof (rule yields_then [OF scalar_yields [OF s1(1)]])
    fix e p2 assume st: "starts_scalar YAML_PLAIN (yp_at p) to1 ?p1 e p2"
    have "(advance 0 p2)\<lparr>yp_allowed := yp_allowed p2\<rparr> = p2" by simp
    then show "yields (yp_text ?p1) (view (ya_buffer al (yp_at p)) e p2) (\<lambda>_ p'. \<exists>e. ev_kind e = SCALAR \<and> reach 0 [e] ?p1 p')"
      using starts_scalar_view_yields [OF st _ ok, of 0 "ya_buffer al (yp_at p)" "yp_allowed p2"] soundD(1) [OF s1(1)] by simp
  qed
  then have "yields (yp_text p) (chain (scalar al YAML_PLAIN (yp_at p) to1 (yp_line ?p1) ?p1) (view (ya_buffer al (yp_at p))))
      (\<lambda>_ p'. \<exists>e. ev_kind e = SCALAR \<and> reach 1 [e] p p')"
    unfolding s1(2) by (rule yields_mono) (use reach_trans [OF r1, of 0 _ _ 1] in fastforce)
  then show "yields (yp_text p) (chain (plain_loop (yp_at p) p) (\<lambda>to_at p'. chain (scalar al YAML_PLAIN (yp_at p) to_at (yp_line (p'\<lparr>yp_allowed := False\<rparr>)) (p'\<lparr>yp_allowed := False\<rparr>))
      (view (ya_buffer al (yp_at p))))) (\<lambda>_ p'. \<exists>e. ev_kind e = SCALAR \<and> reach 1 [e] p p')"
    using Done by (simp del: yields_chain)
qed (use plain_loop_yields [OF assms(1), of "yp_at p"] in simp_all)

subsection \<open>Literals\<close>

text \<open>What the code clips a literal to ends with a line ending.\<close>

definition clips :: "strbuf \<Rightarrow> int \<Rightarrow> bool" where
  "clips buf c \<longleftrightarrow> oom buf \<or> 0 \<le> c \<and> c \<le> size_of buf \<and> (c = 0 \<or> ptr buf ! (nat c - 1) = 0x0A)"

lemma clips_append: "clips buf c \<Longrightarrow> (oom buf \<Longrightarrow> oom buf') \<Longrightarrow> (\<not> oom buf' \<Longrightarrow> ptr buf' = ptr buf @ vs) \<Longrightarrow> clips buf' c"
  by (cases "oom buf'") (auto simp: clips_def size_of_def nth_append)

lemma clips_line: "strbuf_wf buf \<Longrightarrow> clips (strbuf_putc grant buf 0x0A) (size_of (strbuf_putc grant buf 0x0A))"
  using putc_content [of buf grant "0x0A"] by (auto simp: clips_def size_of_def nth_append)

lemma clips_truncate:
  assumes "clips buf c" and "\<not> oom (strbuf_truncate buf c)"
  shows "ptr (strbuf_truncate buf c) = [] \<or> last (ptr (strbuf_truncate buf c)) = 0x0A"
proof -
  have c: "0 \<le> c" "c \<le> size_of buf" "c = 0 \<or> ptr buf ! (nat c - 1) = 0x0A"
    using assms by (auto simp: clips_def strbuf_truncate_def Let_def split: if_splits)
  then have "ptr (strbuf_truncate buf c) = take (nat c) (ptr buf)" by (auto simp: strbuf_truncate_def Let_def size_of_def)
  then show ?thesis using c by (cases "nat c") (auto simp: take_Suc_conv_app_nth size_of_def)
qed

definition lined :: "yaml_parser \<Rightarrow> literal_state \<Rightarrow> yaml_parser \<Rightarrow> bool" where
  "lined p0 li p \<longleftrightarrow> reach 0 [] p0 p \<and> strbuf_wf (li_text li) \<and> li_from li \<le> li_to li \<and> li_to li \<le> yp_at p \<and>
     clips (li_text li) (li_clipped li)"

lemma skip_spaces_room:
  "sound p \<Longrightarrow> yp_at p + k \<le> yp_at (skip q p) \<Longrightarrow> yp_at p + k \<le> length (yp_text p)"
  using skip_le [of p q] soundD(1) [of p] by simp

lemma literal_line_lined:
  assumes l: "lined p0 li p" and d: "literal_line grant indent li p = (again, li', p')"
  shows "lined p0 li' p'"
proof -
  have r: "reach 0 [] p0 p" and wf: "strbuf_wf (li_text li)" and c: "clips (li_text li) (li_clipped li)"
    and ft: "li_from li \<le> li_to li" "li_to li \<le> yp_at p" using l by (simp_all add: lined_def)
  note s = reachD(1) [OF r]
  define inner where "inner = skip (\<lambda>c. c = Some 0x20) p"
  define content where "content = yp_at (skip blank inner) - yp_at p"
  have i: "reach 0 [] p inner" unfolding inner_def by (rule reach_skip [OF s])
  have "reach 0 [] p (skip blank inner)" using reach_trans [OF i reach_skip [OF reachD(1) [OF i]], of 0] by simp
  then have room: "yp_at p + content \<le> length (yp_text p)" using reachD(3,7) [of 0 "[]" p "skip blank inner"] by (simp add: content_def)
  have ends: "reach 0 [] p0 (line_end q)" if "reach 0 [] p q" for q
    using reach_trans [OF reach_trans [OF r that, of 0] reach_line_end [OF reachD(1) [OF that]], of 0] by simp
  show ?thesis
  proof (cases "breakz (peek p content)")
    case True
    then have e: "li' = li\<lparr>li_text := strbuf_putc grant (li_text li) 0x0A\<rparr>" "p' = line_end (advance content p)" using d
      by (auto simp: literal_line_def inner_def [symmetric] content_def [symmetric] Let_def)
    have a: "reach 0 [] p (advance content p)" using reach_mono [OF reach_advance [OF s room], of 0] by simp
    have "clips (strbuf_putc grant (li_text li) 0x0A) (li_clipped li)"
      by (rule clips_append [OF c putc_oom [OF wf] putc_content [OF wf]])
    then show ?thesis using ends [OF a] ft reachD(3) [OF ends [OF a]] line_end_at(1) [of "advance content p"] putc_wf [OF wf]
      by (simp add: lined_def e)
  next
    case False
    define depth where "depth = (if li_depth li = 0 then yp_at inner - yp_at p else li_depth li)"
    note d' = d [unfolded literal_line_def Let_def, folded inner_def, folded content_def, unfolded if_not_P [OF False], folded depth_def]
    show ?thesis
    proof (cases "li_depth li = 0 \<and> (int (yp_at inner - yp_at p) \<le> indent \<or> yp_at inner - yp_at p = 0) \<or> yp_at inner - yp_at p < depth")
      case True
      then have "(li' = li \<or> li' = li\<lparr>li_depth := depth\<rparr>) \<and> p' = p" using d' by (simp split: if_split_asm)
      then show ?thesis using l by (auto simp: lined_def)
    next
      case False
      then have n: "\<not> (li_depth li = 0 \<and> (int (yp_at inner - yp_at p) \<le> indent \<or> yp_at inner - yp_at p = 0))"
        "\<not> yp_at inner - yp_at p < depth" by blast+
      define q where "q = skip (\<lambda>c. \<not> breakz c) (advance depth p)"
      define at where "at = slice (yp_text p) (yp_at p + depth) (yp_at q)"
      define buf where "buf = strbuf_putc grant (put grant (li_text li) at) 0x0A"
      define from_at where "from_at = (if li_first li then yp_at p + depth else li_from li)"
      have b: "buf = strbuf_putc grant (put grant (li_text li) at) 0x0A" by (simp only: buf_def)
      have f: "from_at = yp_at p + depth \<or> from_at = li_from li" by (simp add: from_at_def)
      have "li' = li\<lparr>li_depth := depth, li_text := buf, li_clipped := size_of buf, li_from := from_at, li_to := yp_at q, li_first := False\<rparr> \<and>
          p' = line_end q" using d' [unfolded if_not_P [OF n(1)] if_not_P [OF n(2)]]
        by (auto simp: buf_def at_def q_def from_at_def)
      then have li': "li' = li\<lparr>li_depth := depth, li_text := buf, li_clipped := size_of buf, li_from := from_at, li_to := yp_at q, li_first := False\<rparr>"
        and q: "q = skip (\<lambda>c. \<not> breakz c) (advance depth p)" "p' = line_end q" by (simp_all add: q_def)
      have "yp_at p + depth \<le> length (yp_text p)" using n(2) reachD(3,7) [OF i] by simp
      then have a: "reach depth [] p (advance depth p)" by (rule reach_advance [OF s])
      have rq: "reach depth [] p q" using reach_trans [OF a reach_skip [OF reachD(1) [OF a]], of depth] by (simp add: q)
      note ends [OF reach_mono [OF rq, of 0, simplified]]
      moreover have "from_at \<le> yp_at q" using f ft reachD(3) [OF rq] by auto
      moreover have "yp_at q \<le> yp_at p'" using line_end_at(1) by (simp add: q(2))
      ultimately show ?thesis using putc_wf [OF put_wf [OF wf]] clips_line [OF put_wf [OF wf]] by (simp add: lined_def li' b q(2))
    qed
  qed
qed

lemma literal_loop_lined: "lined p0 li p \<Longrightarrow> lined p0 (fst (literal_loop grant indent li p)) (snd (literal_loop grant indent li p))"
proof (induction grant indent li p rule: literal_loop.induct)
  case (1 grant indent li p)
  obtain again li1 p1 where l: "literal_line grant indent li p = (again, li1, p1)" by (cases "literal_line grant indent li p")
  note k = literal_line_lined [OF "1.prems" l]
  show ?case using "1.IH" [OF _ l [symmetric]] k "1.prems" l by (subst (1 2) literal_loop.simps) (auto split: bool.splits)
qed

lemma literal_yields:
  assumes "sound p" and "yp_at p + 1 \<le> length (yp_text p)"
  shows "yields (yp_text p) (literal al indent p) (\<lambda>_ p'. \<exists>e. ev_kind e = SCALAR \<and> reach 1 [e] p p')"
proof (cases "blankz (peek (advance 1 p) 0)")
  case False
  then show ?thesis using reachD(1) [OF reach_advance [OF assms]] by (simp add: literal_def Let_def)
next
  case True
  let ?grant = "ya_buffer al (yp_at p)"
  let ?p1 = "skip blank (advance 1 p)"
  have r1: "reach 1 [] p ?p1" using reach_trans [OF reach_advance [OF assms] reach_skip [OF reachD(1) [OF reach_advance [OF assms]]], of 1] by simp
  have m: "yields (yp_text p) (if is_char CHR ''#'' (peek ?p1 0) then comment al ?p1 else Done () ?p1) (\<lambda>_ p'. reach 1 ([] @ []) p p')"
    by (rule reach_yields [where k = 0, OF r1]) (use comment_yields [of ?p1 al] in simp_all)
  show ?thesis unfolding literal_def Let_def if_not_P [OF iffD2 [OF not_not True]]
  proof (rule yields_then [OF m])
    fix x :: unit and p2
    assume "reach 1 ([] @ []) p p2"
    then have r2: "reach 1 [] p p2" by simp
    let ?li0 = "\<lparr>li_text = strbuf_empty, li_depth = 0, li_clipped = 0, li_from = yp_at p, li_to = yp_at p, li_first = True\<rparr>"
    obtain li p3 where l: "literal_loop ?grant indent ?li0 (line_end p2) = (li, p3)" by fastforce
    have r3: "reach 1 [] p (line_end p2)" using reach_trans [OF r2 reach_line_end [OF reachD(1) [OF r2]], of 1] by simp
    have "lined (line_end p2) ?li0 (line_end p2)"
      using reachD(1,3) [OF r3] by (simp add: lined_def clips_def size_of_def)
    then have li: "lined (line_end p2) li p3" using literal_loop_lined [of _ ?li0 "line_end p2" ?grant indent] l by simp
    let ?p3 = "p3\<lparr>yp_allowed := True\<rparr>"
    let ?buf = "strbuf_truncate (li_text li) (li_clipped li)"
    have r: "reach 1 [] p ?p3" using reach_trans [OF r3, of 0 "[]" p3 1] li by (simp add: lined_def)
    note s = reachD(1,2,7) [OF r]
    have ok: "event_ok (yp_text ?p3) ((scalar_event YAML_LITERAL (li_from li) (li_to li) 0 0)\<lparr>ev_text := ptr ?buf\<rparr>)" if "\<not> oom ?buf"
      using clips_truncate [OF _ that] li s(2,3) by (auto simp: event_ok_def scalar_event_def new_event_def lined_def)
    have wf: "strbuf_wf ?buf" using li by (simp add: lined_def strbuf_truncate_wf)
    have "yields (yp_text ?p3) (chain (scalar al YAML_LITERAL (li_from li) (li_to li) (yp_line p) ?p3) (\<lambda>e. own ?grant e ?buf))
        (\<lambda>_ p'. \<exists>e. ev_kind e = SCALAR \<and> reach 0 [e] ?p3 p')"
    proof (rule yields_then [OF scalar_yields [OF s(1)]])
      fix e p4 assume st: "starts_scalar YAML_LITERAL (li_from li) (li_to li) ?p3 e p4"
      have "(advance 0 p4)\<lparr>yp_allowed := yp_allowed p4\<rparr> = p4" by simp
      then show "yields (yp_text ?p3) (own ?grant e ?buf p4) (\<lambda>_ p'. \<exists>e. ev_kind e = SCALAR \<and> reach 0 [e] ?p3 p')"
        using starts_scalar_own_yields [OF st wf _ ok, of 0 ?grant "yp_allowed p4"] soundD(1) [OF s(1)] by simp
    qed
    then have "yields (yp_text p) (chain (scalar al YAML_LITERAL (li_from li) (li_to li) (yp_line p) ?p3) (\<lambda>e. own ?grant e ?buf))
        (\<lambda>_ p'. \<exists>e. ev_kind e = SCALAR \<and> reach 1 [e] p p')"
      unfolding s(2) by (rule yields_mono) (use reach_trans [OF r, of 0 _ _ 1] in fastforce)
    then show "yields (yp_text p) (if \<not> breakz (peek p2 0) then fail ''did not find expected comment or line break'' p2
        else case literal_loop ?grant indent ?li0 (line_end p2) of (li, r) \<Rightarrow>
          chain (scalar al YAML_LITERAL (li_from li) (li_to li) (yp_line p) (r\<lparr>yp_allowed := True\<rparr>))
            (\<lambda>e. own ?grant e (strbuf_truncate (li_text li) (li_clipped li)))) (\<lambda>_ p'. \<exists>e. ev_kind e = SCALAR \<and> reach 1 [e] p p')"
      using reachD(1,2) [OF r2] l by (simp del: yields_chain)
  qed
qed

end
