(* ===== verification/YamlTree.thy ===== *)
theory YamlTree
  imports YamlRead
begin

text \<open>
  The recursion of the YAML parser: the nodes, flow and block, the documents and the stream.
  Every run with the fuel of a read ends, and one that succeeds has written well-nested nodes of
  bounded height.
\<close>

subsection \<open>The nodes that events spell\<close>

text \<open>
  \<open>nodes fl h k es\<close>: the events spell \<open>k\<close> nodes one after another, none higher than \<open>h\<close>;
  a mapping holds names and values in turn, and a flow collection flow collections only.
\<close>

inductive nodes :: "bool \<Rightarrow> nat \<Rightarrow> nat \<Rightarrow> yaml_event list \<Rightarrow> bool" where
  nodes_none: "nodes fl h 0 []"
| nodes_scalar: "nodes fl h k es \<Longrightarrow> ev_kind e = SCALAR \<Longrightarrow> nodes fl h (Suc k) (es @ [e])"
| nodes_list: "nodes fl (Suc h) k es \<Longrightarrow> nodes fl' h j body \<Longrightarrow> (fl \<Longrightarrow> fl') \<Longrightarrow> ev_kind s = LIST_START \<Longrightarrow> ev_kind t = LIST_END \<Longrightarrow>
    ev_flow s = fl' \<Longrightarrow> ev_flow t = fl' \<Longrightarrow> nodes fl (Suc h) (Suc k) (es @ s # body @ [t])"
| nodes_map: "nodes fl (Suc h) k es \<Longrightarrow> nodes fl' h j body \<Longrightarrow> even j \<Longrightarrow> (fl \<Longrightarrow> fl') \<Longrightarrow> ev_kind s = MAP_START \<Longrightarrow> ev_kind t = MAP_END \<Longrightarrow>
    ev_flow s = fl' \<Longrightarrow> ev_flow t = fl' \<Longrightarrow> nodes fl (Suc h) (Suc k) (es @ s # body @ [t])"

lemma nodes_append:
  assumes "nodes fl h j fs"
  shows "nodes fl h k es \<Longrightarrow> nodes fl h (k + j) (es @ fs)"
  using assms
proof (induction rule: nodes.induct)
  case (nodes_scalar fl h j fs e)
  then show ?case using nodes.nodes_scalar [of fl h "k + j" "es @ fs" e] by simp
next
  case (nodes_list fl h j fs fl' i body s t)
  then show ?case using nodes.nodes_list [of fl h "k + j" "es @ fs" fl' i body s t] by simp
next
  case (nodes_map fl h j fs fl' i body s t)
  then show ?case using nodes.nodes_map [of fl h "k + j" "es @ fs" fl' i body s t] by simp
qed simp

lemma nodes_mono: "nodes fl h k es \<Longrightarrow> h \<le> h' \<Longrightarrow> (fl' \<Longrightarrow> fl) \<Longrightarrow> nodes fl' h' k es"
proof (induction arbitrary: fl' h' rule: nodes.induct)
  case (nodes_list fl h k es fl1 j body s t)
  then obtain m where m: "h' = Suc m" "h \<le> m" by (cases h') auto
  then show ?case using nodes_list by (auto intro!: nodes.nodes_list [of fl' m k es fl1 j body s t])
next
  case (nodes_map fl h k es fl1 j body s t)
  then obtain m where m: "h' = Suc m" "h \<le> m" by (cases h') auto
  then show ?case using nodes_map by (auto intro!: nodes.nodes_map [of fl' m k es fl1 j body s t])
qed (auto intro: nodes.intros)

text \<open>A scalar, and a collection of nodes between its two events.\<close>

lemma nodes_one_scalar: "ev_kind e = SCALAR \<Longrightarrow> nodes fl h 1 [e]"
  using nodes_scalar [OF nodes_none, of e fl h] by simp

definition bracket :: "bool \<Rightarrow> bool \<Rightarrow> yaml_event \<Rightarrow> yaml_event \<Rightarrow> bool" where
  "bracket map_kind fl s t \<longleftrightarrow> ev_kind s = (if map_kind then MAP_START else LIST_START) \<and>
     ev_kind t = (if map_kind then MAP_END else LIST_END) \<and> ev_flow s = fl \<and> ev_flow t = fl"

lemma nodes_bracket:
  assumes "nodes fl h k body" and "bracket map_kind fl s t" and "map_kind \<Longrightarrow> even k" and "fl' \<Longrightarrow> fl"
  shows "nodes fl' (Suc h) 1 (s # body @ [t])"
  using nodes_list [OF nodes_none assms(1), of fl' s t] nodes_map [OF nodes_none assms(1), of fl' s t] assms(2-)
  by (cases map_kind) (simp_all add: bracket_def)

subsection \<open>Runs from a parser on\<close>

text \<open>What follows has a parser \<open>p0\<close> that a run starts from, and all it writes.\<close>

lemma pass_then:
  assumes "reach k es p0 p" and "\<And>p'. reach k es p0 p' \<Longrightarrow> q () p'"
  shows "yields (yp_text p0) (pass al p) q"
  using yields_mono [OF pass_yields [OF reachD(1) [OF assms(1)]], of q] assms(2) reach_trans [OF assms(1), of 0 "[]" _ k]
    reachD(2) [OF assms(1)] by simp

lemma look_then:
  assumes "reach k es p0 p" and "\<And>t. t \<noteq> BAD \<Longrightarrow> look p = (t, p) \<Longrightarrow> yields (yp_text p0) (f t p) q"
    and "\<And>p'. broken (yp_text p0) p' \<Longrightarrow> yields (yp_text p0) (f BAD p') q"
  shows "yields (yp_text p0) (case look p of (t, p) \<Rightarrow> f t p) q"
  using look_rule [OF reachD(1) [OF assms(1)], of f q] assms(2,3) reachD(2) [OF assms(1)] by simp

lemma advance_reach:
  "reach k es p0 p \<Longrightarrow> yp_at p + j \<le> length (yp_text p0) \<Longrightarrow> reach (k + j) es p0 (advance j p)"
  using reach_trans [of k es p0 p j "[]" "advance j p" "k + j"] reach_advance [of p j] reachD(1,2) [of k es p0 p] by simp

lemma absent_then:
  assumes "reach k es p0 p" and "at \<le> length (yp_text p0)"
    and "\<And>e p'. ev_kind e = SCALAR \<Longrightarrow> reach k (es @ [e]) p0 p' \<Longrightarrow> yp_at p' = yp_at p \<Longrightarrow> q () p'"
  shows "yields (yp_text p0) (absent al (length (yp_events p)) at line p) q"
proof -
  note r = reachD(1,2) [OF assms(1)]
  show ?thesis unfolding r(2) [symmetric]
    by (rule yields_mono [OF absent_yields [OF r(1)]]) (use assms(2,3) r(2) reach_snoc [OF assms(1)] in \<open>auto simp: records_def\<close>)
qed

text \<open>An event put back before the events of a node.\<close>

lemma absent_before:
  assumes r: "reach k (es @ fs) p0 p" and "at \<le> length (yp_text p0)" and i: "i = length (yp_events p0 @ es)"
    and "\<And>e p'. ev_kind e = SCALAR \<Longrightarrow> reach k (es @ e # fs) p0 p' \<Longrightarrow> yp_at p' = yp_at p \<Longrightarrow> q () p'"
  shows "yields (yp_text p0) (absent al i at line p) q"
proof -
  note d = reachD(1,2,6) [OF r]
  have "i \<le> length (yp_events p)" using i d(3) by simp
  have t: "take i (yp_events p) = yp_events p0 @ es" "drop i (yp_events p) = fs" using i d(3) by simp_all
  have "at \<le> length (yp_text p)" using assms(2) d(2) by simp
  note a = absent_yields [OF d(1) \<open>i \<le> length (yp_events p)\<close> this, of al line, unfolded t d(2)]
  show ?thesis by (rule yields_mono [OF a]) (use assms(4) r in \<open>auto simp: records_def reach_def\<close>)
qed

lemma insert_before:
  assumes r: "reach k (es @ fs) p0 p" and i: "i = length (yp_events p0 @ es)" and "kind \<noteq> SCALAR"
    and "\<And>e p'. ev_kind e = kind \<Longrightarrow> ev_flow e = fl \<Longrightarrow> reach k (es @ e # fs) p0 (set_event i (\<lambda>ev. ev\<lparr>ev_flow := fl\<rparr>) p') \<Longrightarrow> yp_at p' = yp_at p \<Longrightarrow> q i p'"
  shows "yields (yp_text p0) (insert_event al i kind p) q"
proof -
  note d = reachD(1,2,6) [OF r]
  let ?f = "\<lambda>ev. ev\<lparr>ev_flow := fl\<rparr>"
  have "i \<le> length (yp_events p)" using i d(3) by simp
  have t: "take i (yp_events p) = yp_events p0 @ es" "drop i (yp_events p) = fs" using i d(3) by simp_all
  have "event_ok (yp_text p) (?f (new_event kind (yp_line p)))" using assms(3) by (simp add: event_ok_def new_event_def)
  note a = insert_set_yields [where f = ?f, OF d(1) \<open>i \<le> length (yp_events p)\<close> this, of al, unfolded t d(2)]
  show ?thesis
    by (rule yields_mono [OF a]) (use assms(4) [of "?f (new_event kind (yp_line p))"] r in \<open>auto simp: records_def reach_def new_event_def\<close>)
qed

lemma shut_then:
  assumes "reach k es p0 p" and "kind \<noteq> SCALAR"
    and "\<And>e p'. ev_kind e = kind \<Longrightarrow> ev_flow e = fl \<Longrightarrow> reach k (es @ [e]) p0 p' \<Longrightarrow> yp_at p' = yp_at p \<Longrightarrow> q () p'"
  shows "yields (yp_text p0) (shut al kind fl p) q"
proof -
  note r = reachD(1,2) [OF assms(1)]
  show ?thesis unfolding r(2) [symmetric]
    by (rule yields_mono [OF shut_yields [OF r(1) assms(2)]]) (use assms(3) reach_snoc [OF assms(1)] in \<open>auto simp: records_def\<close>)
qed

lemma fail_then: "reach k es p0 p \<Longrightarrow> problem \<noteq> OUT_OF_MEMORY \<Longrightarrow> yields (yp_text p0) (fail problem p) q"
  using reachD(1,2) [of k es p0 p] by simp

lemma fail_broken: "broken src p \<Longrightarrow> yields src (fail problem p) q"
  by (auto simp: fail_def note_problem_def broken_def)

lemma named_then:
  assumes r: "reach k es p0 p"
    and yes: "\<And>p'. reach k es p0 p' \<Longrightarrow> yp_at p' + 1 \<le> length (yp_text p0) \<Longrightarrow> yields (yp_text p0) (f True p') q"
    and no: "\<And>p'. reach k es p0 p' \<Longrightarrow> yields (yp_text p0) (f False p') q"
    and long: "\<And>p'. broken (yp_text p0) p' \<Longrightarrow> yields (yp_text p0) (f False p') q"
  shows "yields (yp_text p0) (case named start line p of (b, p) \<Rightarrow> f b p) q"
proof -
  note d = reachD(1,2) [OF r]
  let ?p = "skip blank p"
  have s: "reach k es p0 ?p" using reach_trans [OF r reach_skip [OF d(1)], of k blank] by simp
  have "is_char CHR '':'' (peek ?p 0) \<Longrightarrow> yp_at ?p + 1 \<le> length (yp_text p0)" using is_char_room [of _ ?p 0] d(2) by (simp add: Suc_le_eq)
  then show ?thesis
    using yes [OF s] no [OF s] long [of "note_problem _ ?p"] broken_note [OF reachD(1) [OF s]] d(2)
    by (simp add: named_def Let_def)
qed

subsection \<open>Flow nodes\<close>

text \<open>
  What is left of the text, and the height the nodes at a nesting may have: a flow collection
  is one level, and each of a flow list's pairs one more.
\<close>

definition left :: "yaml_parser \<Rightarrow> nat" where
  "left p = length (yp_text p) - yp_at p"

definition height :: "yaml_parser \<Rightarrow> nat" where
  "height p = 2 * (NESTING - (yp_open p + yp_depth p))"

lemma height_less: "d < NESTING \<Longrightarrow> 2 * (NESTING - d) = Suc (Suc (2 * (NESTING - Suc d)))"
  by arith

lemma reach_height: "reach k es p0 p \<Longrightarrow> height p = height p0"
  by (simp add: reach_def height_def)

lemma reach_left: "reach k es p0 p \<Longrightarrow> left p + k \<le> left p0"
  using soundD(1) [of p] by (auto simp: reach_def left_def)

definition grown :: "bool \<Rightarrow> nat \<Rightarrow> nat \<Rightarrow> nat \<Rightarrow> yaml_parser \<Rightarrow> yaml_parser \<Rightarrow> bool" where
  "grown fl h k n p p' \<longleftrightarrow> (\<exists>es. nodes fl h k es \<and> reach n es p p')"

definition reads_flow :: "nat \<Rightarrow> (yaml_parser \<Rightarrow> unit run) \<Rightarrow> bool" where
  "reads_flow n f \<longleftrightarrow> (\<forall>p. sound p \<and> yp_at p + 1 \<le> length (yp_text p) \<and> 3 * left p + 2 \<le> n \<longrightarrow>
     yields (yp_text p) (f p) (\<lambda>_ p'. grown True (height p) 1 1 p p'))"

definition reads_elements :: "nat \<Rightarrow> bool \<Rightarrow> (yaml_parser \<Rightarrow> unit run) \<Rightarrow> bool" where
  "reads_elements n map_flow f \<longleftrightarrow> (\<forall>p. sound p \<and> 3 * left p + 3 \<le> n \<longrightarrow>
     yields (yp_text p) (f p) (\<lambda>_ p'. yp_at p' + 1 \<le> length (yp_text p) \<and>
       (\<exists>k. (map_flow \<longrightarrow> even k) \<and> grown True (height p + 1) k 0 p p')))"

text \<open>A node from a parser on.\<close>

lemma node_then:
  assumes r: "reach n es p0 p" and "yields (yp_text p) m (\<lambda>_ p'. grown fl h k j p p')"
    and "\<And>fs p'. nodes fl h k fs \<Longrightarrow> reach (n + j) (es @ fs) p0 p' \<Longrightarrow> q () p'"
  shows "yields (yp_text p0) m q"
  using assms(2) unfolding reachD(2) [OF r]
  by (rule yields_mono) (use assms(3) reach_trans [OF r] in \<open>auto simp: grown_def\<close>)

lemma scalar_grown:
  "yields src m (\<lambda>_ p'. \<exists>e. ev_kind e = SCALAR \<and> reach 1 [e] p p') \<Longrightarrow> yields src m (\<lambda>_ p'. grown fl h 1 1 p p')"
  by (erule yields_mono) (use nodes_one_scalar in \<open>auto simp: grown_def\<close>)

lemma node_of_reads:
  assumes "reads_flow n (flow n al)" and "3 * left p + 2 \<le> n" and "sound p" and "look p = (t, p)" and "is_node t"
  shows "yields (yp_text p) (node_of n al t p) (\<lambda>_ p'. grown True (height p) 1 1 p p')"
proof -
  have room: "yp_at p + 1 \<le> length (yp_text p)" using look_room [OF assms(4)] assms(5) by (auto simp: is_node_def)
  show ?thesis
    using scalar_grown [OF quoted_yields [OF assms(3) room]] scalar_grown [OF plain_yields [OF assms(3)]] assms room
    by (auto simp: node_of_def reads_flow_def)
qed

lemma element_of_reads:
  assumes "reads_flow n f" and "3 * left p + 2 \<le> n" and "sound p" and "look p = (t, p)" and "t \<noteq> BAD"
  shows "yields (yp_text p) (element_of f al t p) (\<lambda>_ p'. grown True (height p) 1 1 p p')"
proof -
  have room: "yp_at p + 1 \<le> length (yp_text p)" if "t \<noteq> END" using look_room [OF assms(4) that] .
  show ?thesis
    using scalar_grown [OF quoted_yields [OF assms(3) room]] scalar_grown [OF plain_yields [OF assms(3)]] assms room
    by (cases t) (auto simp: reads_flow_def)
qed

lemma not_ended_problem [simp]: "not_ended a b \<noteq> OUT_OF_MEMORY"
  by (simp add: not_ended_def)

lemma flow_token_then:
  assumes r: "reach k es p0 p"
    and none: "\<And>p'. reach k es p0 p' \<Longrightarrow> yp_at p' + 1 \<le> length (yp_text p0) \<Longrightarrow> q None p'"
    and tok: "\<And>t p'. t \<noteq> BAD \<Longrightarrow> look p' = (t, p') \<Longrightarrow> reach k es p0 p' \<Longrightarrow> q (Some t) p'"
    and bad: "\<And>p'. broken (yp_text p0) p' \<Longrightarrow> q (Some BAD) p'"
  shows "yields (yp_text p0) (flow_token al map_flow first p) q"
  unfolding flow_token_def Let_def yields_chain
proof (rule pass_then [OF r], rule look_then, assumption, goal_cases)
  case (1 p1 t)
  let ?close = "if map_flow then MAP_CLOSE else LIST_CLOSE"
  have s: "yp_text p1 = yp_text p0" using reachD(2) [OF 1(1)] .
  have none': "q None p2" if "reach k es p0 p2" "look p2 = (?close, p2)" for p2
    using none [OF that(1)] look_room [OF that(2)] reachD(2) [OF that(1)] by (auto split: if_splits)
  have after: "yields (yp_text p0) (chain (pass al ((advance 1 p1)\<lparr>yp_allowed := True\<rparr>)) (\<lambda>_ p. case look p of (t, p) \<Rightarrow>
      if t = ?close then Done None p else Done (Some t) p)) q" if "t = COMMA"
    unfolding yields_chain
  proof (rule pass_then [where k = k and es = es], goal_cases)
    case 1
    then show ?case
      using reach_mono [OF advance_reach, of k es p0 p1 1 k] \<open>reach k es p0 p1\<close> look_room [OF \<open>look p1 = (t, p1)\<close>] that s by simp
  next
    case (2 p2)
    then show ?case by (rule look_then) (use 2 tok bad none' in \<open>auto split: if_splits\<close>)
  qed
  show ?case
    using none' [OF 1(1)] 1 tok [OF 1(2,3,1)] after fail_then [OF 1(1), of _ q] by (auto simp del: yields_chain)
next
  case (2 p1 p2)
  then show ?case using bad [of p2] by auto
qed

lemma elements_again:
  assumes a: "reads_elements n map_flow again" and r: "reach j es p0 p" and "nodes True (height p0 + 1) k es" and "map_flow \<longrightarrow> even k"
    and "0 < j" and "3 * left p0 \<le> n"
  shows "yields (yp_text p0) (again p) (\<lambda>_ p'. yp_at p' + 1 \<le> length (yp_text p0) \<and>
    (\<exists>k. (map_flow \<longrightarrow> even k) \<and> grown True (height p0 + 1) k 0 p0 p'))"
proof -
  note d = reachD(1,2) [OF r]
  have "3 * left p + 3 \<le> n" using reach_left [OF r] assms(5,6) by simp
  then have "yields (yp_text p0) (again p) (\<lambda>_ p'. yp_at p' + 1 \<le> length (yp_text p0) \<and>
      (\<exists>k. (map_flow \<longrightarrow> even k) \<and> grown True (height p0 + 1) k 0 p p'))"
    using a [unfolded reads_elements_def, rule_format, of p] d reach_height [OF r] by simp
  then show ?thesis
  proof (rule yields_mono, elim conjE exE)
    fix p' i
    assume i: "map_flow \<longrightarrow> even i" "grown True (height p0 + 1) i 0 p p'" and at: "yp_at p' + 1 \<le> length (yp_text p0)"
    obtain fs where fs: "nodes True (height p0 + 1) i fs" "reach 0 fs p p'" using i(2) by (auto simp: grown_def)
    have "grown True (height p0 + 1) (k + i) 0 p0 p'"
      unfolding grown_def using nodes_append [OF fs(1) assms(3)] reach_trans [OF r fs(2), of 0] by blast
    then show "yp_at p' + 1 \<le> length (yp_text p0) \<and> (\<exists>k. (map_flow \<longrightarrow> even k) \<and> grown True (height p0 + 1) k 0 p0 p')"
      using at i(1) assms(4) by (intro conjI exI [of _ "k + i"]) auto
  qed
qed

lemma nodes_two: "nodes fl h 1 es \<Longrightarrow> nodes fl h 1 fs \<Longrightarrow> nodes fl h 2 (es @ fs)"
  using nodes_append [of fl h 1 fs 1 es] by (simp add: numeral_2_eq_2)

text \<open>A pair, from the \<open>:\<close> of its name.\<close>

lemma flow_pair_reads:
  assumes a: "reads_elements n map_flow again" and f: "reads_flow n f" and bound: "3 * left p0 \<le> n"
    and r: "reach 1 (pre @ es) p0 p" and es: "nodes True (height p0) 1 es" and room: "yp_at p + 1 \<le> length (yp_text p0)"
    and pre: "if map_flow then pre = [] else \<exists>s. pre = [s] \<and> ev_kind s = MAP_START \<and> ev_flow s"
  shows "yields (yp_text p0) (chain (pass al ((advance 1 p)\<lparr>yp_allowed := False\<rparr>)) (\<lambda>_ p.
      case look p of (t, p) \<Rightarrow>
        chain (if t = COMMA \<or> t = (if map_flow then MAP_CLOSE else LIST_CLOSE)
               then absent al (length (yp_events p)) (yp_at p) (yp_line p) p
               else element_of f al t p) (\<lambda>_ p.
        chain (if map_flow then Done () p else shut al MAP_END True p) (\<lambda>_. again))))
    (\<lambda>_ p'. yp_at p' + 1 \<le> length (yp_text p0) \<and> (\<exists>k. (map_flow \<longrightarrow> even k) \<and> grown True (height p0 + 1) k 0 p0 p'))"
    (is "yields _ _ ?q")
proof -
  have fin: "yields (yp_text p0) (chain (if map_flow then Done () p3 else shut al MAP_END True p3) (\<lambda>_. again)) ?q"
    if r3: "reach 2 ((pre @ es) @ vs) p0 p3" and vs: "nodes True (height p0) 1 vs" for p3 vs
  proof (cases map_flow)
    case True
    then show ?thesis using elements_again [OF a r3, of 2] nodes_mono [OF nodes_two [OF es vs], of "height p0 + 1" True] pre bound by simp
  next
    case False
    then obtain s where s: "pre = [s]" "ev_kind s = MAP_START" "ev_flow s" using pre by auto
    have "yields (yp_text p0) (again p4) ?q" if e: "ev_kind e = MAP_END" "ev_flow e" and r4: "reach 2 (((pre @ es) @ vs) @ [e]) p0 p4" for e p4
    proof (rule elements_again [OF a r4])
      show "nodes True (height p0 + 1) 1 (((pre @ es) @ vs) @ [e])"
        using nodes_bracket [OF nodes_two [OF es vs], of True s e True] s e by (simp add: bracket_def)
    qed (use False bound in simp_all)
    then show ?thesis unfolding yields_chain using False shut_then [OF r3, of MAP_END True] by simp
  qed
  show ?thesis unfolding yields_chain
  proof (rule pass_then [where k = 2 and es = "pre @ es"], goal_cases)
    case 1
    then show ?case using advance_reach [OF r room] by (simp add: numeral_2_eq_2)
  next
    case (2 p2)
    then show ?case
    proof (rule look_then, goal_cases)
      case (1 t)
      note d = reachD(1,2,7) [OF 2]
      show ?case
      proof (cases "t = COMMA \<or> t = (if map_flow then MAP_CLOSE else LIST_CLOSE)")
        case True
        have "yields (yp_text p0) (chain (if map_flow then Done () p3 else shut al MAP_END True p3) (\<lambda>_. again)) ?q"
          if "ev_kind e = SCALAR" "reach 2 ((pre @ es) @ [e]) p0 p3" for e p3 using fin [OF that(2) nodes_one_scalar [OF that(1)]] .
        then show ?thesis using absent_then [OF 2 d(3)] True by (simp only: if_True yields_chain)
      next
        case False
        have e: "yields (yp_text p2) (element_of f al t p2) (\<lambda>_ p'. grown True (height p0) 1 1 p2 p')"
          using element_of_reads [OF f _ d(1) 1(2,1), of al] reach_left [OF 2] bound reach_height [OF 2] by simp
        have "yields (yp_text p0) (chain (if map_flow then Done () p3 else shut al MAP_END True p3) (\<lambda>_. again)) ?q"
          if "nodes True (height p0) 1 vs" "reach (2 + 1) ((pre @ es) @ vs) p0 p3" for vs p3
          using fin [OF reach_mono [OF that(2)] that(1)] by simp
        then show ?thesis unfolding if_not_P [OF False] using node_then [OF 2 e] by (simp only: yields_chain)
      qed
    qed simp
  qed
qed

lemma flow_turn_reads:
  assumes f: "reads_flow n f" and a: "reads_elements n map_flow again"
  shows "reads_elements (Suc n) map_flow (flow_turn f again al map_flow first)"
  unfolding reads_elements_def
proof (intro allI impI, elim conjE)
  fix p0 assume s: "sound p0" and "3 * left p0 + 3 \<le> Suc n"
  then have bound: "3 * left p0 + 2 \<le> n" by simp
  let ?q = "\<lambda>_ p'. yp_at p' + 1 \<le> length (yp_text p0) \<and> (\<exists>k. (map_flow \<longrightarrow> even k) \<and> grown True (height p0 + 1) k 0 p0 p')"
  have r0: "reach 0 [] p0 p0" using s by simp
  show "yields (yp_text p0) (flow_turn f again al map_flow first p0) ?q"
    unfolding flow_turn_def yields_chain [of _ "flow_token _ _ _ _"]
  proof (rule flow_token_then [OF r0], goal_cases)
    case (1 p1)
    then show ?case using nodes_none unfolding grown_def by (auto intro!: exI [of _ 0] exI [of _ "[]"])
  next
    case (2 t p1)
    have h: "height p1 = height p0" "left p1 \<le> left p0" "yp_text p1 = yp_text p0"
      using reach_height [OF 2(3)] reach_left [OF 2(3)] reachD(2) [OF 2(3)] by simp_all
    have e: "yields (yp_text p1) (element_of f al t p1) (\<lambda>_ p'. grown True (height p0) 1 1 p1 p')"
      using element_of_reads [OF f _ reachD(1) [OF 2(3)] 2(2,1), of al] h bound by simp
    show ?case unfolding option.case Let_def yields_chain [of _ "element_of _ _ _ _"]
    proof (rule node_then [OF 2(3) e], rule named_then, assumption, goal_cases)
      case (1 es p2 p3)
      then have r: "reach 1 ([] @ es) p0 p3" and es: "nodes True (height p0) 1 es" by simp_all
      have b: "3 * left p0 \<le> n" using bound by simp
      have i: "length (yp_events p1) = length (yp_events p0 @ [])" using reachD(6) [OF 2(3)] by simp
      show ?case
      proof (cases map_flow)
        case True
        then show ?thesis using flow_pair_reads [OF a f b r es _, of al] 1(4) by simp
      next
        case False
        let ?tail = "\<lambda>_ p. chain (pass al ((advance 1 p)\<lparr>yp_allowed := False\<rparr>)) (\<lambda>_ p.
          case look p of (t, p) \<Rightarrow>
            chain (if t = COMMA \<or> t = (if map_flow then MAP_CLOSE else LIST_CLOSE)
                   then absent al (length (yp_events p)) (yp_at p) (yp_line p) p
                   else element_of f al t p) (\<lambda>_ p.
            chain (if map_flow then Done () p else shut al MAP_END True p) (\<lambda>_. again)))"
        have "yields (yp_text p0) (chain (chain (insert_event al (length (yp_events p1)) MAP_START p3)
            (\<lambda>e p. Done () (set_event e (\<lambda>ev. ev\<lparr>ev_flow := True\<rparr>) p))) ?tail) ?q"
          unfolding yields_chain [of _ "chain _ _"] yields_chain [of _ "insert_event _ _ _ _"]
        proof (rule insert_before [OF r i, of MAP_START True], goal_cases)
          case (2 e p4)
          let ?p4 = "set_event (length (yp_events p1)) (\<lambda>ev. ev\<lparr>ev_flow := True\<rparr>) p4"
          have "reach 1 ([e] @ es) p0 ?p4" "yp_at ?p4 + 1 \<le> length (yp_text p0)" using 2 1(4) by simp_all
          from flow_pair_reads [OF a f b this(1) es this(2), of al] show ?case unfolding yields.simps(1) using 2 False by simp
        qed simp
        then show ?thesis using False by (simp del: yields_chain)
      qed
    next
      case (2 es p2 p3)
      then have r: "reach 1 es p0 p3" and es: "nodes True (height p0) 1 es" by simp_all
      have b: "3 * left p0 \<le> n" using bound by simp
      have es': "nodes True (height p0 + 1) 1 es" using nodes_mono [OF es, of "height p0 + 1" True] by simp
      have go: "yields (yp_text p0) (chain (pass al p3) (\<lambda>_ p. chain (absent al (length (yp_events p)) (yp_at p) (yp_line p) p) (\<lambda>_. again))) ?q"
        unfolding yields_chain
      proof (rule pass_then [OF r], rule absent_then, assumption, goal_cases)
        case (1 p4)
        then show ?case by (rule reachD(7))
      next
        case (2 p4 e p5)
        have "nodes True (height p0 + 1) 2 (es @ [e])" by (rule nodes_two [OF es' nodes_one_scalar [OF 2(2)]])
        from elements_again [OF a 2(3) this _ _ b] show ?case by simp
      qed
      have "yp_problem p3 = None" using soundD(3) [OF reachD(1) [OF r]] .
      then show ?case using go elements_again [OF a r es' _ _ b] by (cases map_flow) (simp_all del: yields_chain)
    next
      case (3 es p2 p3)
      then show ?case by (simp add: broken_def)
    qed
  next
    case (3 p1)
    then show ?case by simp
  qed
qed

lemma flow_around_reads:
  assumes "\<And>map_flow. reads_elements n map_flow (loop map_flow)"
  shows "reads_flow (Suc n) (flow_around loop al)"
  unfolding reads_flow_def
proof (intro allI impI, elim conjE)
  fix p assume s: "sound p" and room: "yp_at p + 1 \<le> length (yp_text p)" and b: "3 * left p + 2 \<le> Suc n"
  let ?map = "is_char CHR ''{'' (peek p 0)"
  let ?kind = "if ?map then MAP_START else LIST_START"
  have k: "?kind \<noteq> SCALAR" by simp
  show "yields (yp_text p) (flow_around loop al p) (\<lambda>_ p'. grown True (height p) 1 1 p p')"
    unfolding flow_around_def Let_def yields_chain [of _ "open_event _ _ _ _ _"]
  proof (rule yields_mono [OF open_yields [OF s order_refl k]], elim exE conjE, goal_cases)
    case (1 i p1 e)
    let ?p1 = "(advance 1 p1)\<lparr>yp_allowed := True\<rparr>"
    note o = 1(3) [unfolded opens_def]
    have r1: "reach 1 [] p1 ?p1" using reach_advance [of p1 1] o room by simp
    have h: "height p = height p1 + 2" using o height_less [of "yp_open p + yp_depth p"] by (simp add: height_def)
    have "left ?p1 + 1 = left p" using o room by (simp add: left_def)
    then have l: "yields (yp_text p) (loop ?map ?p1) (\<lambda>_ p'. yp_at p' + 1 \<le> length (yp_text p) \<and>
        (\<exists>k. (?map \<longrightarrow> even k) \<and> grown True (height p1 + 1) k 0 ?p1 p'))"
      using assms [of ?map, unfolded reads_elements_def, rule_format, of ?p1] b reachD(1) [OF r1] reach_height [OF r1] o by simp
    show ?case unfolding yields_chain
    proof (rule yields_mono [OF l], elim conjE exE, goal_cases)
      case (1 x p2 k)
      then obtain body where body: "nodes True (height p1 + 1) k body" "reach 0 body ?p1 p2" by (auto simp: grown_def)
      let ?p2 = "(advance 1 p2)\<lparr>yp_depth := yp_depth p2 - 1, yp_allowed := False\<rparr>"
      have r2: "reach 1 (e # body) p ?p2"
      proof -
        have s2: "sound (advance 1 p2)" using sound_at [of p2 "yp_at p2 + 1"] reachD(1,2) [OF body(2)] 1(1) o by simp
        then show ?thesis using body(2) o by (auto simp: reach_def sound_def)
      qed
      show ?case
      proof (rule shut_then [OF r2], goal_cases)
        case (2 t p3)
        have "nodes True (Suc (height p1 + 1)) 1 (e # body @ [t])"
          using nodes_bracket [OF body(1), of ?map e t True] 1(2) \<open>ev_kind e = ?kind\<close> \<open>ev_flow e = True\<close> 2(1,2)
          by (simp add: bracket_def)
        then show ?case using 2(3) h unfolding grown_def by (intro exI [of _ "e # body @ [t]"]) simp
      qed simp
    qed
  qed
qed

lemma flow_reads: "reads_flow n (flow n al)" "reads_elements n map_flow (flow_loop n al map_flow first)"
proof (induction n arbitrary: map_flow first)
  case 0
  case 1
  show ?case by (simp add: reads_flow_def)
next
  case 0
  case 2
  show ?case by (simp add: reads_elements_def)
next
  case (Suc n)
  case 1
  show ?case using flow_around_reads [of n "\<lambda>m. flow_loop n al m True" al] Suc.IH(2) by simp
next
  case (Suc n)
  case 2
  show ?case using flow_turn_reads [OF Suc.IH(1), of map_flow "flow_loop n al map_flow False" al first] Suc.IH(2) by simp
qed

subsection \<open>Block nodes\<close>

text \<open>The parser of the collection that holds a block collection.\<close>

definition closed :: "yaml_parser \<Rightarrow> yaml_parser" where
  "closed p = p\<lparr>yp_open := yp_open p - 1\<rparr>"

lemma reach_closed: "reach k es p p' \<Longrightarrow> reach k es (closed p) (closed p')"
  by (auto simp: reach_def closed_def sound_def)

lemma closed_fields [simp]: "yp_text (closed p) = yp_text p" "yp_events (closed p) = yp_events p" "yp_at (closed p) = yp_at p"
  by (simp_all add: closed_def)

text \<open>
  What a block node leaves: a node; a name at the column of the collection that holds it; or a
  node and such a name.  Of a name the events and the index where they begin are told.
\<close>

definition block_post :: "int \<Rightarrow> bool \<Rightarrow> yaml_parser \<Rightarrow> found \<times> nat \<Rightarrow> yaml_parser \<Rightarrow> bool" where
  "block_post indent indentless p r p' \<longleftrightarrow>
     (let h = height p + (if indentless then 2 else 1)
      in case r of
           (NODE, _) \<Rightarrow> grown False h 1 1 p p'
         | (NAME, i) \<Rightarrow> 0 \<le> indent \<and> i = length (yp_events p) \<and> yp_at p' + 1 \<le> length (yp_text p) \<and> grown False h 1 1 p p'
         | (AFTER, i) \<Rightarrow> indentless \<and> yp_at p' + 1 \<le> length (yp_text p) \<and>
             (\<exists>es fs. nodes False h 1 es \<and> nodes False h 1 fs \<and> i = length (yp_events p @ es) \<and> reach 1 (es @ fs) p p'))"

definition reads_block :: "nat \<Rightarrow> block_fn \<Rightarrow> bool" where
  "reads_block n f \<longleftrightarrow> (\<forall>p indent indentless. sound p \<and> 3 * left p + 3 \<le> n \<longrightarrow>
     yields (yp_text p) (f indent indentless p) (block_post indent indentless p))"

definition reads_items :: "nat \<Rightarrow> (nat \<Rightarrow> bool \<Rightarrow> yaml_parser \<Rightarrow> (found \<times> nat) run) \<Rightarrow> bool" where
  "reads_items n f \<longleftrightarrow> (\<forall>p inset indentless. sound p \<and> yp_at p + 1 \<le> length (yp_text p) \<and> 3 * left p + 2 \<le> n \<longrightarrow>
     yields (yp_text p) (f inset indentless p) (block_post (- 1) indentless p))"

definition pairs_post :: "yaml_parser \<Rightarrow> yaml_parser \<Rightarrow> bool" where
  "pairs_post p p' \<longleftrightarrow> (\<exists>k body t. odd k \<and> nodes False (height p + 2) k body \<and> ev_kind t = MAP_END \<and> \<not> ev_flow t \<and>
     reach 1 (body @ [t]) (closed p) p')"

definition reads_pairs :: "nat \<Rightarrow> (yaml_parser \<Rightarrow> unit run) \<Rightarrow> bool" where
  "reads_pairs n f \<longleftrightarrow> (\<forall>p. sound p \<and> yp_at p + 1 \<le> length (yp_text p) \<and> 0 < yp_open p \<and> 3 * left p + 1 \<le> n \<longrightarrow>
     yields (yp_text p) (f p) (\<lambda>_. pairs_post p))"

definition items_post :: "bool \<Rightarrow> yaml_parser \<Rightarrow> found \<times> nat \<Rightarrow> yaml_parser \<Rightarrow> bool" where
  "items_post indentless p r p' \<longleftrightarrow>
     (let outer = (if indentless then p else closed p)
      in case r of
           (NODE, _) \<Rightarrow> \<exists>k body t. nodes False (height p + 1) k body \<and> ev_kind t = LIST_END \<and> \<not> ev_flow t \<and> reach 1 (body @ [t]) outer p'
         | (NAME, _) \<Rightarrow> False
         | (AFTER, i) \<Rightarrow> indentless \<and> yp_at p' + 1 \<le> length (yp_text p) \<and>
             (\<exists>k body t fs. nodes False (height p + 1) k body \<and> ev_kind t = LIST_END \<and> \<not> ev_flow t \<and> nodes False (height p + 1) 1 fs \<and>
                i = length (yp_events p @ body @ [t]) \<and> reach 1 (body @ [t] @ fs) outer p'))"

definition reads_loop :: "nat \<Rightarrow> bool \<Rightarrow> (yaml_parser \<Rightarrow> (found \<times> nat) run) \<Rightarrow> bool" where
  "reads_loop n indentless f \<longleftrightarrow> (\<forall>p. sound p \<and> yp_at p + 1 \<le> length (yp_text p) \<and> (\<not> indentless \<longrightarrow> 0 < yp_open p) \<and> 3 * left p + 1 \<le> n \<longrightarrow>
     yields (yp_text p) (f p) (items_post indentless p))"

text \<open>The rest of a block mapping after \<open>k\<close> of its nodes.\<close>

lemma pairs_rest:
  assumes "reach n es p p1" and "nodes False (height p + 2) k es" and "even k" and "pairs_post p1 p2"
  shows "pairs_post p p2"
proof -
  obtain j body t where b: "odd j" "nodes False (height p1 + 2) j body" "ev_kind t = MAP_END" "\<not> ev_flow t" "reach 1 (body @ [t]) (closed p1) p2"
    using assms(4) by (auto simp: pairs_post_def)
  have "reach 1 (es @ body @ [t]) (closed p) p2" using reach_trans [OF reach_closed [OF assms(1)] b(5), of 1] by simp
  moreover have "nodes False (height p + 2) (k + j) (es @ body)"
    using nodes_append [OF b(2) [unfolded reach_height [OF assms(1)]] assms(2)] .
  ultimately show ?thesis using assms(3) b(1,3,4) unfolding pairs_post_def
    by (intro exI [of _ "k + j"] exI [of _ "es @ body"] exI [of _ t]) simp
qed

lemma items_rest:
  assumes r: "reach n es p p1" and es: "nodes False (height p + 1) k es" and i: "items_post indentless p1 r p2"
  shows "items_post indentless p r p2"
proof -
  obtain f i' where f: "r = (f, i')" by fastforce
  have o: "reach n es (if indentless then p else closed p) (if indentless then p1 else closed p1)" using r reach_closed [OF r] by simp
  have h: "height p1 = height p" "yp_events p1 = yp_events p @ es" "yp_text p1 = yp_text p" using reach_height [OF r] reachD(2,6) [OF r] by simp_all
  show ?thesis
  proof (cases f)
    case NODE
    then obtain j body t where b: "nodes False (height p + 1) j body" "ev_kind t = LIST_END" "\<not> ev_flow t"
      "reach 1 (body @ [t]) (if indentless then p1 else closed p1) p2" using i f h by (auto simp: items_post_def Let_def)
    then show ?thesis using reach_trans [OF o b(4), of 1] nodes_append [OF b(1) es] f NODE unfolding items_post_def Let_def
      by (auto intro!: exI [of _ "k + j"] exI [of _ "es @ body"] exI [of _ t])
  next
    case NAME
    then show ?thesis using i f by (simp add: items_post_def Let_def)
  next
    case AFTER
    then obtain j body t fs where b: "nodes False (height p + 1) j body" "ev_kind t = LIST_END" "\<not> ev_flow t" "nodes False (height p + 1) 1 fs"
      "i' = length (yp_events p @ es @ body @ [t])" "reach 1 (body @ [t] @ fs) (if indentless then p1 else closed p1) p2"
      and x: "indentless" "yp_at p2 + 1 \<le> length (yp_text p)" using i f h by (auto simp: items_post_def Let_def)
    have "reach 1 ((es @ body) @ [t] @ fs) p p2" using reach_trans [OF o b(6), of 1] x(1) by simp
    then have "\<exists>k body t fs. nodes False (height p + 1) k body \<and> ev_kind t = LIST_END \<and> \<not> ev_flow t \<and> nodes False (height p + 1) 1 fs \<and>
        i' = length (yp_events p @ body @ [t]) \<and> reach 1 (body @ [t] @ fs) p p2"
      using nodes_append [OF b(1) es] b(2-5)
      by (intro exI [of _ "k + j"] exI [of _ "es @ body"] exI [of _ t] exI [of _ fs]) simp
    then show ?thesis using x f AFTER by (simp only: items_post_def Let_def prod.case found.case if_True)
  qed
qed

lemma next_name_then:
  assumes r: "reach k es p0 p" and "3 * left p + 2 \<le> n" and l: "look p = (t, p)"
    and q: "\<And>fs p'. nodes True (height p0) 1 fs \<Longrightarrow> reach (k + 1) (es @ fs) p0 p' \<Longrightarrow> yp_at p' + 1 \<le> length (yp_text p0) \<Longrightarrow> q () p'"
  shows "yields (yp_text p0) (next_name n al inset t p) q"
proof (cases "column p > inset \<or> \<not> is_node t")
  case True
  then show ?thesis using fail_then [OF r, of _ q] by (simp add: next_name_def)
next
  case False
  have e: "yields (yp_text p) (node_of n al t p) (\<lambda>_ p'. grown True (height p0) 1 1 p p')"
    using node_of_reads [OF flow_reads(1) assms(2) reachD(1) [OF r] l] False reach_height [OF r] by simp
  show ?thesis unfolding next_name_def Let_def if_not_P [OF False] yields_chain
  proof (rule node_then [OF r e], rule named_then, assumption, goal_cases)
    case (1 fs p1 p2)
    then show ?case using q by simp
  next
    case (2 fs p1 p2)
    from fail_then [OF 2(3), of _ q] show ?case by simp
  next
    case (3 fs p1 p2)
    from fail_broken [OF 3(3)] show ?case by simp
  qed
qed

text \<open>A block mapping ends.\<close>

lemma pairs_finish:
  assumes r: "reach n es p0 p" and "0 < n" and "nodes False (height p0 + 2) k es" and "odd k"
  shows "yields (yp_text p0) (shut al MAP_END False (p\<lparr>yp_open := yp_open p - 1\<rparr>)) (\<lambda>_. pairs_post p0)"
proof -
  have "yields (yp_text (closed p0)) (shut al MAP_END False (closed p)) (\<lambda>_. pairs_post p0)"
  proof (rule shut_then [OF reach_closed [OF r]], goal_cases)
    case (2 e p')
    have "reach 1 (es @ [e]) (closed p0) p'" using reach_mono [OF 2(3)] assms(2) by simp
    then show ?case using 2(1,2) assms(3,4) by (auto simp: pairs_post_def intro!: exI [of _ k] exI [of _ es] exI [of _ e])
  qed simp
  then show ?thesis by (simp add: closed_def)
qed

lemma pairs_turn_reads:
  assumes b: "reads_block n f" and a: "reads_pairs n again"
  shows "reads_pairs (Suc n) (pairs_turn f again n al inset)"
  unfolding reads_pairs_def
proof (intro allI impI, elim conjE)
  fix p0 assume s: "sound p0" and room: "yp_at p0 + 1 \<le> length (yp_text p0)" and op: "0 < yp_open p0" and "3 * left p0 + 1 \<le> Suc n"
  then have bound: "3 * left p0 \<le> n" by simp
  have again: "yields (yp_text p0) (again p) (\<lambda>_. pairs_post p0)"
    if r: "reach j es p0 p" and "nodes False (height p0 + 2) k es" and "even k" and "yp_at p + 1 \<le> length (yp_text p0)" and "0 < j" for j es p k
  proof -
    have "3 * left p + 1 \<le> n" using reach_left [OF r] bound that(5) by simp
    then have "yields (yp_text p0) (again p) (\<lambda>_. pairs_post p)"
      using a [unfolded reads_pairs_def, rule_format, of p] reachD(1,2,5) [OF r] op that(4) by simp
    then show ?thesis by (rule yields_mono) (rule pairs_rest [OF r that(2,3)])
  qed
  show "yields (yp_text p0) (pairs_turn f again n al inset p0) (\<lambda>_. pairs_post p0)"
    unfolding pairs_turn_def Let_def yields_chain [of _ "pass _ _"]
  proof (rule pass_then [where k = 1 and es = "[]"], goal_cases)
    case 1
    then show ?case using reach_advance [OF s room] by simp
  next
    case (2 p1)
    note r1 = 2
    then show ?case
    proof (rule look_then, goal_cases)
      case (1 t)
      show ?case
      proof (cases "closes p1 t inset")
        case True
        show ?thesis unfolding if_not_P [OF 1(1)] if_P [OF True] yields_chain
        proof (rule absent_then [OF r1 room], goal_cases)
          case (1 e p2)
          show ?case by (rule pairs_finish [OF 1(2) [simplified] _ nodes_one_scalar [OF 1(1)]]) simp_all
        qed
      next
        case False
        have bl: "yields (yp_text p0) (f (int inset) True p1) (block_post (int inset) True p1)"
          using b [unfolded reads_block_def, rule_format, of p1 "int inset" True] reachD(1,2) [OF r1] reach_left [OF r1] bound by simp
        have h: "height p1 = height p0" using reach_height [OF r1] .
        show ?thesis unfolding if_not_P [OF 1(1)] if_not_P [OF False] yields_chain [of _ "f _ _ _"]
        proof (rule yields_mono [OF bl], clarify)
          fix g i p2 assume post: "block_post (int inset) True p1 (g, i) p2"
          show "yields (yp_text p0) (case g of
              NODE \<Rightarrow> chain (pass al p2) (\<lambda>_ p. case look p of (t, p) \<Rightarrow>
                  if t = BAD then Failed p
                  else if closes p t inset then shut al MAP_END False (p\<lparr>yp_open := yp_open p - 1\<rparr>)
                  else chain (next_name n al inset t p) (\<lambda>_. again))
            | NAME \<Rightarrow> chain (absent al i (yp_at p0 + 1) (yp_line p0) p2) (\<lambda>_. again)
            | AFTER \<Rightarrow> again p2) (\<lambda>_. pairs_post p0)"
          proof (cases g)
            case NODE
            then obtain es where es: "nodes False (height p0 + 2) 1 es" "reach 1 es p1 p2"
              using post h by (auto simp: block_post_def grown_def)
            have r2: "reach 2 es p0 p2" using reach_trans [OF r1 es(2), of 2] by simp
            show ?thesis unfolding NODE found.case yields_chain [of _ "pass _ _"]
            proof (rule pass_then [OF r2], rule look_then, assumption, goal_cases)
              case (1 p3 t')
              have n: "3 * left p3 + 2 \<le> n" using reach_left [OF 1(1)] bound by simp
              have "yields (yp_text p0) (chain (next_name n al inset t' p3) (\<lambda>_. again)) (\<lambda>_. pairs_post p0)"
                unfolding yields_chain
              proof (rule next_name_then [OF 1(1) n 1(3)], goal_cases)
                case (1 fs p4)
                have "nodes False (height p0 + 2) 1 fs" using nodes_mono [OF 1(1), of "height p0 + 2" False] by simp
                from again [OF 1(2) nodes_two [OF es(1) this] _ 1(3)] show ?case by simp
              qed
              then show ?case using pairs_finish [OF 1(1) _ es(1), of al] 1(2) by (simp del: yields_chain)
            next
              case (2 p3 p')
              then show ?case by simp
            qed
          next
            case NAME
            then obtain es where es: "nodes False (height p0 + 2) 1 es" "reach 1 es p1 p2" and i: "i = length (yp_events p0 @ [])"
              and at: "yp_at p2 + 1 \<le> length (yp_text p0)"
              using post h reachD(2,6) [OF r1] by (auto simp: block_post_def grown_def)
            have r2: "reach 2 ([] @ es) p0 p2" using reach_trans [OF r1 es(2), of 2] by simp
            show ?thesis unfolding NAME found.case yields_chain
            proof (rule absent_before [OF r2 room i], goal_cases)
              case (1 e p3)
              from again [OF 1(2)] nodes_two [OF nodes_one_scalar [OF 1(1)] es(1)] 1(3) at show ?case by simp
            qed
          next
            case AFTER
            then obtain es fs where es: "nodes False (height p0 + 2) 1 es" "nodes False (height p0 + 2) 1 fs" "reach 1 (es @ fs) p1 p2"
              and at: "yp_at p2 + 1 \<le> length (yp_text p0)"
              using post h reachD(2) [OF r1] by (auto simp: block_post_def)
            have r2: "reach 2 (es @ fs) p0 p2" using reach_trans [OF r1 es(3), of 2] by simp
            from again [OF r2 nodes_two [OF es(1,2)] _ at] show ?thesis using AFTER by simp
          qed
        qed
      qed
    qed simp
  qed
qed

text \<open>A block list ends.\<close>

lemma items_finish:
  assumes r: "reach n es p0 p" and "0 < n" and "nodes False (height p0 + 1) k es"
  shows "yields (yp_text p0) (chain (shut al LIST_END False (if indentless then p else p\<lparr>yp_open := yp_open p - 1\<rparr>)) (\<lambda>_. Done (NODE, 0)))
    (items_post indentless p0)"
proof -
  let ?outer = "if indentless then p0 else closed p0" and ?q = "if indentless then p else closed p"
  have r': "reach n es ?outer ?q" using r reach_closed [OF r] by simp
  have "yields (yp_text ?outer) (chain (shut al LIST_END False ?q) (\<lambda>_. Done (NODE, 0))) (items_post indentless p0)"
    unfolding yields_chain
  proof (rule shut_then [OF r'], goal_cases)
    case (2 e p')
    have "reach 1 (es @ [e]) ?outer p'" using reach_mono [OF 2(3)] assms(2) by simp
    then show ?case using 2(1,2) assms(3)
      by (auto simp: items_post_def Let_def intro!: exI [of _ k] exI [of _ es] exI [of _ e])
  qed simp
  then show ?thesis by (cases indentless) (simp_all add: closed_def)
qed

text \<open>An indentless list's item left out, and the list's end, before the name that ends it.\<close>

lemma items_after:
  assumes r: "reach n (es @ fs) p0 p" and "0 < n" and k: "nodes False (height p0 + 1) k es" and fs: "nodes False (height p0 + 1) 1 fs"
    and at: "yp_at p + 1 \<le> length (yp_text p0)" and "item \<le> length (yp_text p0)" and i: "i = length (yp_events p0 @ es)"
  shows "yields (yp_text p0) (chain (absent al i item line p) (\<lambda>_ p. chain (insert_event al (i + 1) LIST_END p) (\<lambda>_. Done (AFTER, i + 2))))
    (items_post True p0)"
  unfolding yields_chain
proof (rule absent_before [OF r assms(6) i], goal_cases)
  case (1 e p1)
  have r1: "reach n ((es @ [e]) @ fs) p0 p1" and i1: "i + 1 = length (yp_events p0 @ es @ [e])" using 1(2) i by simp_all
  note d = reachD(1,2,6) [OF r1]
  have t: "take (i + 1) (yp_events p1) = yp_events p0 @ es @ [e]" "drop (i + 1) (yp_events p1) = fs"
    using i1 d(3) by simp_all
  have "i + 1 \<le> length (yp_events p1)" using i1 d(3) by simp
  note s = insert_yields [OF d(1) this, of al LIST_END, unfolded t d(2)]
  show ?case
  proof (rule yields_mono [OF s], goal_cases)
    case (1 j p2)
    let ?t = "new_event LIST_END (yp_line p1)"
    have "reach 1 ((es @ [e]) @ [?t] @ fs) p0 p2" "yp_at p2 + 1 \<le> length (yp_text p0)"
      using 1 r1 assms(2) at \<open>yp_at p1 = yp_at p\<close> by (auto simp: records_def reach_def)
    moreover have "nodes False (height p0 + 1) (k + 1) (es @ [e])" using nodes_append [OF nodes_one_scalar k] \<open>ev_kind e = SCALAR\<close> by simp
    moreover have "ev_kind ?t = LIST_END" "\<not> ev_flow ?t" by (simp_all add: new_event_def)
    moreover have "i + 2 = length (yp_events p0 @ (es @ [e]) @ [?t])" using i by simp
    ultimately have "\<exists>k body t fs. nodes False (height p0 + 1) k body \<and> ev_kind t = LIST_END \<and> \<not> ev_flow t \<and> nodes False (height p0 + 1) 1 fs \<and>
        i + 2 = length (yp_events p0 @ body @ [t]) \<and> reach 1 (body @ [t] @ fs) p0 p2" using fs by blast
    then show ?case using \<open>yp_at p2 + 1 \<le> length (yp_text p0)\<close>
      by (simp only: yields.simps items_post_def Let_def prod.case found.case if_True simp_thms)
  qed
qed

lemma items_turn_reads:
  assumes b: "reads_block n f" and a: "reads_loop n indentless again"
  shows "reads_loop (Suc n) indentless (items_turn f again al inset indentless)"
  unfolding reads_loop_def
proof (intro allI impI, elim conjE)
  fix p0 assume s: "sound p0" and room: "yp_at p0 + 1 \<le> length (yp_text p0)" and op: "\<not> indentless \<longrightarrow> 0 < yp_open p0" and "3 * left p0 + 1 \<le> Suc n"
  then have bound: "3 * left p0 \<le> n" by simp
  have again: "yields (yp_text p0) (again p) (items_post indentless p0)"
    if r: "reach j es p0 p" and "nodes False (height p0 + 1) k es" and "yp_at p + 1 \<le> length (yp_text p0)" and "0 < j" for j es p k
  proof -
    have "3 * left p + 1 \<le> n" using reach_left [OF r] bound that(4) by simp
    then have "yields (yp_text p0) (again p) (items_post indentless p)"
      using a [unfolded reads_loop_def, rule_format, of p] reachD(1,2,5) [OF r] op that(3) by simp
    then show ?thesis by (rule yields_mono) (rule items_rest [OF r that(2)])
  qed
  show "yields (yp_text p0) (items_turn f again al inset indentless p0) (items_post indentless p0)"
    unfolding items_turn_def Let_def yields_chain [of _ "pass _ _"]
  proof (rule pass_then [where k = 1 and es = "[]"], goal_cases)
    case 1
    then show ?case using reach_advance [OF s room] by simp
  next
    case (2 p1)
    note r1 = 2
    then show ?case
    proof (rule look_then, goal_cases)
      case (1 t)
      have h: "height p1 = height p0" using reach_height [OF r1] .
      consider "closes p1 t inset" | "\<not> closes p1 t inset" "column p1 = inset \<and> t = ITEM"
        | "\<not> closes p1 t inset" "\<not> (column p1 = inset \<and> t = ITEM)" by blast
      then show ?case
      proof cases
        case 1
        show ?thesis unfolding if_not_P [OF \<open>t \<noteq> BAD\<close>] if_P [OF 1] yields_chain [of _ "absent _ _ _ _ _"]
        proof (rule absent_then [OF r1 room], goal_cases)
          case (1 e p2)
          show ?case by (rule items_finish [OF 1(2) [simplified] _ nodes_one_scalar [OF 1(1)]]) simp
        qed
      next
        case 2
        have at: "yp_at p1 + 1 \<le> length (yp_text p0)" using look_room [OF \<open>look p1 = (t, p1)\<close>] 2(2) reachD(2) [OF r1] by simp
        show ?thesis unfolding if_not_P [OF \<open>t \<noteq> BAD\<close>] if_not_P [OF 2(1)] if_P [OF 2(2)] yields_chain [of _ "absent _ _ _ _ _"]
        proof (rule absent_then [OF r1 room], goal_cases)
          case (1 e p2)
          from again [OF 1(2) [simplified] nodes_one_scalar [OF 1(1)]] 1(3) at show ?case by simp
        qed
      next
        case 3
        have bl: "yields (yp_text p0) (f (int inset) False p1) (block_post (int inset) False p1)"
          using b [unfolded reads_block_def, rule_format, of p1 "int inset" False] reachD(1,2) [OF r1] reach_left [OF r1] bound by simp
        show ?thesis
          unfolding if_not_P [OF \<open>t \<noteq> BAD\<close>] if_not_P [OF 3(1)] if_not_P [OF 3(2)] yields_chain [of _ "f _ _ _"]
        proof (rule yields_mono [OF bl], clarify)
          fix g i p2 assume post: "block_post (int inset) False p1 (g, i) p2"
          let ?indicated = "''did not find expected '' @ apos @ ''-'' @ apos @ '' indicator''"
          show "yields (yp_text p0) (if g \<noteq> NODE then
                if \<not> indentless then fail ?indicated p2
                else chain (absent al i (yp_at p0 + 1) (yp_line p0) p2) (\<lambda>_ p.
                     chain (insert_event al (i + 1) LIST_END p) (\<lambda>_. Done (AFTER, i + 2)))
              else chain (pass al p2) (\<lambda>_ p. case look p of (t, p) \<Rightarrow>
                     if t = BAD then Failed p
                     else if t = ITEM \<and> column p = inset then again p
                     else if indentless \<or> closes p t inset
                     then chain (shut al LIST_END False (if indentless then p else p\<lparr>yp_open := yp_open p - 1\<rparr>)) (\<lambda>_. Done (NODE, 0))
                     else fail ?indicated p)) (items_post indentless p0)"
          proof (cases g)
            case NODE
            then obtain es where es: "nodes False (height p0 + 1) 1 es" "reach 1 es p1 p2"
              using post h by (auto simp: block_post_def grown_def)
            have r2: "reach 2 es p0 p2" using reach_trans [OF r1 es(2), of 2] by simp
            have "yields (yp_text p0) (chain (pass al p2) (\<lambda>_ p. case look p of (t, p) \<Rightarrow>
                     if t = BAD then Failed p
                     else if t = ITEM \<and> column p = inset then again p
                     else if indentless \<or> closes p t inset
                     then chain (shut al LIST_END False (if indentless then p else p\<lparr>yp_open := yp_open p - 1\<rparr>)) (\<lambda>_. Done (NODE, 0))
                     else fail ?indicated p)) (items_post indentless p0)" (is "yields _ (chain _ ?g) _")
              unfolding yields_chain [of _ "pass _ _"]
            proof (rule pass_then [OF r2], rule look_then, assumption, goal_cases)
              case (1 p3 t')
              have "yp_at p3 + 1 \<le> length (yp_text p0)" if "t' = ITEM"
                using look_room [OF 1(3)] that reachD(2) [OF 1(1)] by simp
              then show ?case
                using again [OF 1(1) es(1)] items_finish [OF 1(1) _ es(1), of al indentless] fail_then [OF 1(1), of _ "items_post indentless p0"] 1(2)
                by (cases indentless; cases "t' = ITEM \<and> column p3 = inset") (simp_all del: yields_chain)
            next
              case (2 p3 p')
              then show ?case by simp
            qed
            then show ?thesis using NODE by (simp del: yields_chain)
          next
            case NAME
            then obtain es where es: "nodes False (height p0 + 1) 1 es" "reach 1 es p1 p2" and i: "i = length (yp_events p0 @ [])"
              and at: "yp_at p2 + 1 \<le> length (yp_text p0)"
              using post h reachD(2,6) [OF r1] by (auto simp: block_post_def grown_def)
            have r2: "reach 2 ([] @ es) p0 p2" using reach_trans [OF r1 es(2), of 2] by simp
            show ?thesis using items_after [OF r2 _ nodes_none es(1) at room i, of al "yp_line p0"] fail_then [OF r2, of _ "items_post indentless p0"] NAME
              by (cases indentless) (simp_all del: yields_chain)
          next
            case AFTER
            then show ?thesis using post by (simp add: block_post_def Let_def)
          qed
        qed
      qed
    qed simp
  qed
qed

lemma items_around_reads:
  assumes "\<And>inset indentless. reads_loop n indentless (loop inset indentless)"
  shows "reads_items (Suc n) (\<lambda>inset indentless. items_around (loop inset indentless) al indentless)"
  unfolding reads_items_def
proof (intro allI impI, elim conjE)
  fix p inset indentless
  assume s: "sound p" and room: "yp_at p + 1 \<le> length (yp_text p)" and "3 * left p + 2 \<le> Suc n"
  then have bound: "3 * left p + 1 \<le> n" by simp
  show "yields (yp_text p) (items_around (loop inset indentless) al indentless p) (block_post (- 1) indentless p)"
  proof (cases indentless)
    case True
    then have i: "indentless = True" by simp
    show ?thesis unfolding items_around_def i if_True yields_chain
    proof (rule yields_mono [OF emit_yields [OF s]], elim conjE, goal_cases)
      case (1 i p1)
      let ?s = "new_event LIST_START (yp_line p)"
      have r1: "reach 0 [?s] p p1" using records_reach [OF 1(2)] .
      have l: "yields (yp_text p) (loop inset True p1) (items_post True p1)"
        using assms [of True inset, unfolded reads_loop_def, rule_format, of p1] reachD(1,2) [OF r1] reach_left [OF r1] bound room 1(2)
        by (simp add: records_def)
      show ?case
      proof (rule yields_mono [OF l], clarify)
        fix f j p2 assume post: "items_post True p1 (f, j) p2"
        note h = reach_height [OF r1] reachD(6,2) [OF r1]
        show "block_post (- 1) True p (f, j) p2"
        proof (cases f)
          case NODE
          then obtain k body t where t: "nodes False (height p + 1) k body" "ev_kind t = LIST_END" "\<not> ev_flow t" "reach 1 (body @ [t]) p1 p2"
            using post h by (auto simp: items_post_def)
          have "nodes False (Suc (height p + 1)) 1 (?s # body @ [t])"
            using nodes_bracket [OF t(1), of False ?s t False] t(2,3) by (simp add: bracket_def new_event_def)
          moreover have "reach 1 (?s # body @ [t]) p p2" using reach_trans [OF r1 t(4), of 1] by simp
          ultimately show ?thesis using NODE by (auto simp: block_post_def grown_def)
        next
          case NAME
          then show ?thesis using post by (simp add: items_post_def)
        next
          case AFTER
          then obtain k body t fs where t: "nodes False (height p + 1) k body" "ev_kind t = LIST_END" "\<not> ev_flow t" "nodes False (height p + 1) 1 fs"
            and j: "j = length (yp_events p @ ?s # body @ [t])" and r: "reach 1 (body @ [t] @ fs) p1 p2" and at: "yp_at p2 + 1 \<le> length (yp_text p)"
            using post h by (auto simp: items_post_def)
          have "nodes False (Suc (height p + 1)) 1 (?s # body @ [t])"
            using nodes_bracket [OF t(1), of False ?s t False] t(2,3) by (simp add: bracket_def new_event_def)
          moreover have "reach 1 ((?s # body @ [t]) @ fs) p p2" using reach_trans [OF r1 r, of 1] by simp
          moreover have "nodes False (height p + 2) 1 fs" using nodes_mono [OF t(4), of "height p + 2" False] by simp
          ultimately show ?thesis using AFTER j at unfolding block_post_def Let_def
            by (simp, intro exI [of _ "?s # body @ [t]"], simp, intro exI [of _ fs], simp)
        qed
      qed
    qed
  next
    case False
    have k: "LIST_START \<noteq> SCALAR" by simp
    have a: "items_around (loop inset indentless) al indentless p = chain (open_event al LIST_START (length (yp_events p)) False p) (\<lambda>_. loop inset indentless)"
      using False by (simp add: items_around_def)
    show ?thesis unfolding a yields_chain
    proof (rule yields_mono [OF open_yields [OF s order_refl k]], elim exE conjE, goal_cases)
      case (1 i p1 e)
      note o = 1(3) [unfolded opens_def]
      have h: "height p = height p1 + 2" using o height_less [of "yp_open p + yp_depth p"] by (simp add: height_def)
      have l: "yields (yp_text p) (loop inset indentless p1) (items_post False p1)"
        using assms [of False inset, unfolded reads_loop_def, rule_format, of p1] o bound room False by (simp add: left_def)
      show ?case
      proof (rule yields_mono [OF l], clarify)
        fix f j p2 assume post: "items_post False p1 (f, j) p2"
        then obtain k body t where t: "nodes False (height p1 + 1) k body" "ev_kind t = LIST_END" "\<not> ev_flow t" "reach 1 (body @ [t]) (closed p1) p2"
          and f: "f = NODE" by (cases f) (auto simp: items_post_def)
        have "nodes False (Suc (height p1 + 1)) 1 (e # body @ [t])"
          using nodes_bracket [OF t(1), of False e t False] t(2,3) 1(1,2) by (simp add: bracket_def)
        then have "nodes False (height p + 1) 1 (e # body @ [t])" using nodes_mono [of False "Suc (height p1 + 1)" 1 _ "height p + 1" False] h by simp
        moreover have "reach 1 (e # body @ [t]) p p2" using t(4) o by (auto simp: reach_def closed_def)
        ultimately show "block_post (- 1) indentless p (f, j) p2" using f False by (auto simp: block_post_def grown_def)
      qed
    qed
  qed
qed

lemma grown_mono: "grown fl h k n p p' \<Longrightarrow> h \<le> h' \<Longrightarrow> m \<le> n \<Longrightarrow> (fl' \<Longrightarrow> fl) \<Longrightarrow> grown fl' h' k m p p'"
  using nodes_mono [of fl h k _ h' fl'] reach_mono [of n _ p p' m] by (auto simp: grown_def)

text \<open>A mapping that a node read as a name opens.\<close>

lemma pairs_around_reads:
  assumes a: "reads_pairs n ps" and r: "reach 1 es p0 p" and es: "nodes True (height p0) 1 es"
    and at: "yp_at p + 1 \<le> length (yp_text p0)" and i: "i = length (yp_events p0)" and bound: "3 * left p0 + 2 \<le> n"
  shows "yields (yp_text p0) (chain (open_event al MAP_START i False p) (\<lambda>_ p. chain (ps p) (\<lambda>_. Done (NODE, i))))
    (\<lambda>r p'. fst r = NODE \<and> grown False (height p0 + 1) 1 1 p0 p')"
proof -
  note d = reachD(1,2,6) [OF r]
  have il: "i \<le> length (yp_events p)" using i d(3) by simp
  have k: "MAP_START \<noteq> SCALAR" by simp
  have t: "take i (yp_events p) = yp_events p0" "drop i (yp_events p) = es" using i d(3) by simp_all
  show ?thesis unfolding yields_chain
  proof (rule yields_mono [OF open_yields [OF d(1) il k, of al False, unfolded t d(2)]], elim exE conjE, goal_cases)
    case (1 j p1 e)
    note o = 1(3) [unfolded opens_def]
    have h: "height p0 = height p1 + 2"
      using o height_less [of "yp_open p + yp_depth p"] reach_height [OF r] by (simp add: height_def)
    have "3 * left p1 + 1 \<le> n" using o reach_left [OF r] bound d(2) by (simp add: left_def)
    then have l: "yields (yp_text p0) (ps p1) (\<lambda>_. pairs_post p1)"
      using a [unfolded reads_pairs_def, rule_format, of p1] o at d(2) by simp
    show ?case
    proof (rule yields_mono [OF l], goal_cases)
      case (1 x p2)
      then obtain k body t where t: "odd k" "nodes False (height p1 + 2) k body" "ev_kind t = MAP_END" "\<not> ev_flow t" "reach 1 (body @ [t]) (closed p1) p2"
        by (auto simp: pairs_post_def)
      have "nodes False (height p0) (1 + k) (es @ body)"
        using nodes_append [OF t(2) [folded h] nodes_mono [OF es, of "height p0" False]] by simp
      then have "nodes False (Suc (height p0)) 1 (e # (es @ body) @ [t])"
        using nodes_bracket [of False "height p0" "1 + k" "es @ body" True e t False] t(1,3,4) \<open>ev_kind e = MAP_START\<close> \<open>ev_flow e = False\<close>
        by (simp add: bracket_def)
      moreover have "reach 1 (e # (es @ body) @ [t]) p0 p2" using t(5) o r by (auto simp: reach_def closed_def)
      ultimately show ?case by (auto simp: grown_def)
    qed
  qed
qed

lemma block_post_items: "block_post (- 1) b p r p' \<Longrightarrow> b \<longrightarrow> indentless \<Longrightarrow> block_post indent indentless p r p'"
  using grown_mono [of False "height p + 1" 1 1 p p' "height p + 2" 1 False]
  by (cases r; cases "fst r") (auto simp: block_post_def Let_def split: if_splits)

lemma block_turn_reads:
  assumes p: "\<And>inset. reads_pairs n (ps inset)" and it: "reads_items n its"
  shows "reads_block (Suc n) (block_turn ps its n al)"
  unfolding reads_block_def
proof (intro allI impI, elim conjE)
  fix p0 indent indentless
  assume s: "sound p0" and "3 * left p0 + 3 \<le> Suc n"
  then have bound: "3 * left p0 + 2 \<le> n" by simp
  have r0: "reach 0 [] p0 p0" using s by simp
  let ?q = "block_post indent indentless p0"
  show "yields (yp_text p0) (block_turn ps its n al indent indentless p0) ?q"
    unfolding block_turn_def
  proof (rule look_then [OF r0], goal_cases)
    case (1 t)
    have room: "yp_at p0 + 1 \<le> length (yp_text p0)" if "t \<noteq> END" using look_room [OF 1(2) that] .
    have node: "block_post indent indentless p0 (NODE, i) p'" if "grown False (height p0 + 1) 1 1 p0 p'" for i p'
      using grown_mono [OF that, of _ 1 False] by (simp add: block_post_def Let_def)
    consider "t = ITEM" | "t = LITERAL" | "is_node t" | "t \<noteq> ITEM" "t \<noteq> LITERAL" "\<not> is_node t" by blast
    then show ?case
    proof cases
      case 1
      have i: "yields (yp_text p0) (its inset b p0) ?q" if "b \<longrightarrow> indentless" for inset b
        by (rule yields_mono [of _ _ "block_post (- 1) b p0"])
          (use it [unfolded reads_items_def, rule_format, of p0 inset b] s room bound 1 block_post_items that in auto)
      show ?thesis using i [of False] i [of True] fail_then [OF r0, of _ ?q] 1 by (cases indentless) (simp_all add: Let_def)
    next
      case 2
      have "yields (yp_text p0) (literal al indent p0) (\<lambda>_ p'. grown False (height p0 + 1) 1 1 p0 p')"
        using scalar_grown [OF literal_yields [OF s room]] 2 by simp
      then have "yields (yp_text p0) (chain (literal al indent p0) (\<lambda>_. Done (NODE, length (yp_events p0)))) ?q"
        unfolding yields_chain by (rule yields_mono) (simp add: node)
      then show ?thesis using 2 by (simp add: Let_def del: yields_chain)
    next
      case 3
      then have x: "t \<noteq> ITEM" "t \<noteq> LITERAL" by (auto simp: is_node_def)
      have e: "yields (yp_text p0) (node_of n al t p0) (\<lambda>_ p'. grown True (height p0) 1 1 p0 p')"
        using node_of_reads [OF flow_reads(1) bound s 1(2) 3] .
      have unnamed: "yields (yp_text p0) (if yp_problem p1 \<noteq> None \<or> required then fail pr p1 else Done (NODE, length (yp_events p0)) p1) ?q"
        if r: "reach 1 es p0 p1" and es: "nodes True (height p0) 1 es" and pr: "pr \<noteq> OUT_OF_MEMORY" for p1 es required pr
      proof -
        have "grown False (height p0 + 1) 1 1 p0 p1" using grown_mono [of True "height p0" 1 1 p0 p1 "height p0 + 1" 1 False] r es
          by (auto simp: grown_def)
        then show ?thesis using node fail_then [OF r pr, of ?q] soundD(3) [OF reachD(1) [OF r]] by simp
      qed
      show ?thesis
        unfolding Let_def if_not_P [OF x(1)] if_not_P [OF x(2)] if_P [OF 3] yields_chain [of _ "node_of _ _ _ _"]
      proof (rule node_then [OF r0 e], goal_cases)
        case (1 es p1)
        then have r1: "reach 1 es p0 p1" and es: "nodes True (height p0) 1 es" by simp_all
        show ?case
        proof (cases "yp_allowed p0")
          case False
          then show ?thesis using unnamed [OF r1 es, where required = False and pr = "''could not find expected '' @ apos @ '':'' @ apos"] soundD(3) [OF reachD(1) [OF r1]] by simp
        next
          case True
          show ?thesis unfolding if_P [OF True]
          proof (rule named_then [OF r1], goal_cases)
            case (1 p2)
            have grown: "grown True (height p0) 1 1 p0 p2" using 1(1) es by (auto simp: grown_def)
            have "grown False (height p0 + (if indentless then 2 else 1)) 1 1 p0 p2"
              using grown_mono [of True "height p0" 1 1 p0 p2 _ 1 False, OF grown] by simp
            moreover have "yields (yp_text p0) (chain (open_event al MAP_START (length (yp_events p0)) False p2) (\<lambda>_ p.
                chain (ps (column p0) p) (\<lambda>_. Done (NODE, length (yp_events p0))))) ?q"
              by (rule yields_mono [OF pairs_around_reads [OF p 1(1) es 1(2) refl bound]])
                (use node in \<open>auto simp del: One_nat_def\<close>)
            ultimately show ?case using 1(2) by (auto simp: block_post_def Let_def simp del: yields_chain)
          next
            case (2 p2)
            from unnamed [OF 2 es] show ?case by simp
          next
            case (3 p2)
            then show ?case using fail_broken [OF 3, of _ ?q] by (auto simp: broken_def)
          qed
        qed
      qed
    next
      case 4
      then show ?thesis using fail_then [OF r0, of _ ?q] \<open>t \<noteq> BAD\<close> by (simp add: Let_def)
    qed
  next
    case (2 p1)
    then show ?case by (simp add: is_node_def Let_def)
  qed
qed

lemma block_reads:
  "reads_pairs n (pairs n al inset) \<and> reads_items n (items n al) \<and> reads_loop n indentless (items_loop n al inset indentless) \<and>
    reads_block n (block n al)"
proof (induction n arbitrary: inset indentless)
  case 0
  show ?case by (simp add: reads_pairs_def reads_items_def reads_loop_def reads_block_def)
next
  case (Suc n)
  have i: "reads_items (Suc n) (\<lambda>inset indentless. items_around (items_loop n al inset indentless) al indentless)"
    by (rule items_around_reads) (use Suc.IH in blast)
  moreover have "items (Suc n) al = (\<lambda>inset indentless. items_around (items_loop n al inset indentless) al indentless)"
    by (intro ext) simp
  moreover have "reads_block (Suc n) (block_turn (pairs n al) (items n al) n al)"
    by (rule block_turn_reads) (use Suc.IH in blast)+
  moreover have "block (Suc n) al = block_turn (pairs n al) (items n al) n al" by (intro ext) simp
  moreover have "reads_pairs (Suc n) (pairs (Suc n) al inset)"
    using pairs_turn_reads [of n "block n al" "pairs n al inset" al inset] Suc.IH by simp
  moreover have "reads_loop (Suc n) indentless (items_loop (Suc n) al inset indentless)"
    using items_turn_reads [of n "block n al" indentless "items_loop n al inset indentless" al inset] Suc.IH by simp
  ultimately show ?case by simp
qed

subsection \<open>Documents\<close>

text \<open>Documents one after another, each of one node.\<close>

inductive documents_of :: "nat \<Rightarrow> yaml_event list \<Rightarrow> bool" where
  documents_none: "documents_of h []"
| documents_one: "documents_of h es \<Longrightarrow> nodes False h 1 body \<Longrightarrow> ev_kind s = DOCUMENT_START \<Longrightarrow> ev_kind t = DOCUMENT_END \<Longrightarrow>
    documents_of h (es @ s # body @ [t])"

lemma documents_append: "documents_of h fs \<Longrightarrow> documents_of h es \<Longrightarrow> documents_of h (es @ fs)"
proof (induction rule: documents_of.induct)
  case (documents_one h fs body s t)
  then show ?case using documents_of.documents_one [of h "es @ fs" body s t] by simp
qed simp

text \<open>The token depends on where the parser is, and a problem is there however often it is looked at.\<close>

lemma look_same:
  assumes "peek p' = peek p" and "yp_at p' = yp_at p" "yp_head p' = yp_head p" "yp_depth p' = yp_depth p" "yp_allowed p' = yp_allowed p"
  shows "fst (look p') = fst (look p)"
  unfolding look_def Let_def marker_def assms if_distrib [of fst] fst_conv by (rule refl)

lemma look_bad:
  assumes "look p = (BAD, p')"
  shows "look p' = (BAD, p')"
proof -
  obtain x where p': "p' = note_problem x p" using looked_look [of p] assms by (auto simp: looked_def)
  have f: "yp_text p' = yp_text p" "yp_at p' = yp_at p" "yp_head p' = yp_head p" "yp_depth p' = yp_depth p" "yp_allowed p' = yp_allowed p"
    by (simp_all add: p' note_problem_def)
  have "peek p' = peek p" by (intro ext) (simp add: peek_def f Let_def)
  from look_same [OF this f(2-)] have "fst (look p') = BAD" using assms by simp
  moreover have "note_problem y p' = p'" for y by (simp add: p' note_problem_def)
  ultimately show ?thesis using looked_look [of p'] by (cases "look p'") (auto simp: looked_def)
qed

lemma look_still: "fst (look p') = fst (look p) \<Longrightarrow> t \<noteq> BAD \<Longrightarrow> look p = (t, p) \<Longrightarrow> look p' = (t, p')"
  using looked_look [of p'] by (cases "look p'") (auto simp: looked_def)

lemma emit_then:
  assumes "reach k es p0 p" and "kind \<noteq> SCALAR"
    and "\<And>e p'. ev_kind e = kind \<Longrightarrow> reach k (es @ [e]) p0 p' \<Longrightarrow> yp_at p' = yp_at p \<Longrightarrow>
      (\<And>t. t \<noteq> BAD \<Longrightarrow> look p = (t, p) \<Longrightarrow> look p' = (t, p')) \<Longrightarrow> q (length (yp_events p)) p'"
  shows "yields (yp_text p0) (emit al kind p) q"
proof -
  note r = reachD(1,2) [OF assms(1)]
  show ?thesis unfolding r(2) [symmetric]
  proof (rule yields_mono [OF emit_yields [OF r(1)]], elim conjE, goal_cases)
    case (1 i p')
    have "peek p' = peek p" using records_peek [OF 1(2)] by blast
    then have "fst (look p') = fst (look p)" using 1(2) look_same [of p' p] by (simp add: records_def)
    then show ?case using 1 assms(3) [of "new_event kind (yp_line p)" p'] reach_snoc [OF assms(1) 1(2)] look_still [of p' p]
      by (simp add: records_def new_event_def)
  qed
qed

text \<open>An event that is not a scalar said to be written out.\<close>

lemma explicit_reach:
  assumes r: "reach k (es @ e # fs) p0 p" and "i = length (yp_events p0 @ es)" and "ev_kind e \<noteq> SCALAR"
  shows "\<exists>e'. ev_kind e' = ev_kind e \<and> reach k (es @ e' # fs) p0 (set_event i (\<lambda>ev. ev\<lparr>ev_explicit := True\<rparr>) p)"
proof -
  let ?e = "e\<lparr>ev_explicit := True\<rparr>" and ?p = "set_event i (\<lambda>ev. ev\<lparr>ev_explicit := True\<rparr>) p"
  have e: "yp_events ?p = yp_events p0 @ es @ ?e # fs" using reachD(6) [OF r] assms(2) list_update_length [of "yp_events p0 @ es" e fs ?e] by (simp add: set_event_def nth_append)
  have "event_ok (yp_text p) ?e" using assms(3) by (simp add: event_ok_def)
  then have "sound ?p" using e reachD(1,6) [OF r] by (auto simp: sound_def)
  then show ?thesis using r e by (intro exI [of _ ?e]) (simp add: reach_def)
qed

lemma document_ends_reads:
  assumes "reach k (es @ [e]) p0 p" and "ev_kind e = DOCUMENT_END" and "i = length (yp_events p0 @ es)"
    and "left p < n" and "t = BAD \<and> broken (yp_text p0) p' \<or> t \<noteq> BAD \<and> look p' = (t, p') \<and> p' = p"
    and q: "\<And>e t p'. ev_kind e = DOCUMENT_END \<Longrightarrow> reach k (es @ [e]) p0 p' \<Longrightarrow> look p' = (t, p') \<Longrightarrow> t \<noteq> BAD \<Longrightarrow> q t p'"
    and bad: "\<And>p'. broken (yp_text p0) p' \<Longrightarrow> q BAD p'"
  shows "yields (yp_text p0) (document_ends n al i t p') q"
  using assms(1,2,4,5)
proof (induction n arbitrary: e p t p')
  case (Suc n)
  show ?case
  proof (cases "t = DOCUMENT_CLOSE")
    case False
    then show ?thesis using Suc.prems q [OF Suc.prems(2,1)] bad by auto
  next
    case True
    then have l: "look p = (DOCUMENT_CLOSE, p)" "p' = p" using Suc.prems(4) by auto
    have at: "yp_at p + 3 \<le> length (yp_text p0)" using look_marker [OF l(1)] reachD(2) [OF Suc.prems(1)] by simp
    let ?p = "set_event i (\<lambda>ev. ev\<lparr>ev_explicit := True\<rparr>) p"
    obtain e' where e': "ev_kind e' = DOCUMENT_END" "reach k (es @ [e']) p0 ?p"
      using explicit_reach [OF Suc.prems(1) assms(3)] Suc.prems(2) by auto
    have d: "document_ends (Suc n) al i t p' = chain (pass al ((advance 3 ?p)\<lparr>yp_allowed := False\<rparr>)) (\<lambda>_ p.
        case look p of (t, p) \<Rightarrow> document_ends n al i t p)" using True l(2) by simp
    let ?p3 = "(advance 3 ?p)\<lparr>yp_allowed := False\<rparr>"
    have r3: "reach (k + 3) (es @ [e']) p0 ?p3" using advance_reach [OF e'(2), of 3] at by simp
    note d3 = reachD(1,2) [OF r3]
    show ?thesis unfolding d yields_chain
    proof (rule yields_mono [OF pass_yields [OF d3(1), unfolded d3(2)]], goal_cases)
      case (1 x p1)
      have r1: "reach k (es @ [e']) p0 p1" using reach_trans [OF r3 1, of k] by simp
      have "left p1 < left p" using reach_left [OF 1] at reachD(2) [OF Suc.prems(1)] by (simp add: left_def)
      then have n: "left p1 < n" using Suc.prems(3) by simp
      show ?case by (rule look_then [OF r1]) (use Suc.IH [OF r1 e'(1) n] in auto)
    qed
  qed
qed simp

lemma block_bad: "look p = (BAD, p) \<Longrightarrow> 0 < n \<Longrightarrow> block n al indent indentless p = Failed p"
  by (cases n) (simp_all add: block_turn_def Let_def is_node_def)

lemma look_then':
  assumes "reach k es p0 p" and "\<And>t. t \<noteq> BAD \<Longrightarrow> look p = (t, p) \<Longrightarrow> yields (yp_text p0) (f t p) q"
    and "\<And>p'. broken (yp_text p0) p' \<Longrightarrow> look p' = (BAD, p') \<Longrightarrow> yields (yp_text p0) (f BAD p') q"
  shows "yields (yp_text p0) (case look p of (t, p) \<Rightarrow> f t p) q"
proof -
  obtain t p' where l: "look p = (t, p')" by fastforce
  have "t = BAD \<and> broken (yp_text p0) p' \<or> t \<noteq> BAD \<and> p' = p"
    using looked_look [of p] broken_note [OF reachD(1) [OF assms(1)]] reachD(2) [OF assms(1)] by (auto simp: looked_def l)
  then show ?thesis using assms(2,3) look_bad [of p p'] l by auto
qed

text \<open>A document's node: the root is in no collection, so that no name ends it.\<close>

lemma root_then:
  assumes r: "reach k es p0 p" and b: "3 * left p + 3 \<le> n"
    and q: "\<And>body p'. nodes False (height p0 + 1) 1 body \<Longrightarrow> reach (k + 1) (es @ body) p0 p' \<Longrightarrow> q () p'"
  shows "yields (yp_text p0) (chain (block n al (- 1) False p) (\<lambda>_. Done ())) q"
proof -
  have "reads_block n (block n al)" using block_reads by blast
  then have l: "yields (yp_text p0) (block n al (- 1) False p) (block_post (- 1) False p)"
    using reachD(1,2) [OF r] b unfolding reads_block_def by (metis (no_types))
  show ?thesis unfolding yields_chain
  proof (rule yields_mono [OF l], goal_cases)
    case (1 x p')
    then have "grown False (height p0 + 1) 1 1 p p'"
      using reach_height [OF r] by (cases x; cases "fst x") (auto simp: block_post_def Let_def)
    then show ?case using q reach_trans [OF r] by (auto simp: grown_def)
  qed
qed

lemma document_content_then:
  assumes r: "reach k (es @ [s]) p0 p" and i: "i = length (yp_events p0 @ es)" and s: "ev_kind s = DOCUMENT_START"
    and l: "look p = (t, p)" and b: "3 * left p + 3 \<le> n" "0 < n"
    and q: "\<And>s body p'. ev_kind s = DOCUMENT_START \<Longrightarrow> nodes False (height p0 + 1) 1 body \<Longrightarrow> reach (k + 1) (es @ s # body) p0 p' \<Longrightarrow> q () p'"
  shows "yields (yp_text p0) (document_content n al i t p) q"
proof (cases "t = DOCUMENT_OPEN")
  case False
  have "yields (yp_text p0) (chain (block n al (- 1) False p) (\<lambda>_. Done ())) q"
    by (rule root_then [OF r b(1)]) (use q s in simp)
  then show ?thesis using False by (simp add: document_content_def del: yields_chain)
next
  case True
  have at: "yp_at p + 3 \<le> length (yp_text p0)" using look_marker [OF l] True reachD(2) [OF r] by simp
  let ?p = "set_event i (\<lambda>ev. ev\<lparr>ev_explicit := True\<rparr>) p"
  obtain s' where s': "ev_kind s' = DOCUMENT_START" "reach k (es @ [s']) p0 ?p" using explicit_reach [OF r i] s by auto
  let ?p3 = "(advance 3 ?p)\<lparr>yp_allowed := False\<rparr>"
  have r3: "reach (k + 3) (es @ [s']) p0 ?p3" using advance_reach [OF s'(2), of 3] at by simp
  note d3 = reachD(1,2) [OF r3]
  show ?thesis unfolding document_content_def if_P [OF True] yields_chain [of _ "pass _ _"]
  proof (rule yields_mono [OF pass_yields [OF d3(1), unfolded d3(2)]], goal_cases)
    case (1 x p1)
    have r1: "reach (k + 3) (es @ [s']) p0 p1" using reach_trans [OF r3 1, of "k + 3"] by simp
    have n: "3 * left p1 + 3 \<le> n" using reach_left [OF 1] b by (simp add: left_def)
    show ?case
    proof (rule look_then' [OF r1], goal_cases)
      case (1 t')
      show ?case
      proof (cases "t' = DOCUMENT_OPEN \<or> t' = DOCUMENT_CLOSE \<or> t' = END")
        case True
        show ?thesis unfolding if_P [OF True]
          by (rule absent_then [OF r1 reachD(7) [OF r1]])
            (use q [OF s'(1) nodes_one_scalar] reach_mono [where j = "k + 1"] in auto)
      next
        case False
        show ?thesis unfolding if_not_P [OF False]
          by (rule root_then [OF r1 n]) (use q [OF s'(1)] reach_mono [where j = "k + 1"] in auto)
      qed
    next
      case (2 p')
      then show ?case using block_bad [OF 2(2) b(2)] by simp
    qed
  qed
qed

text \<open>A broken parser stays broken.\<close>

lemma emit_broken:
  assumes "broken src p"
  shows "yields src (emit al kind p) (\<lambda>_ p'. broken src p')"
proof -
  have w: "0 < EVENT_SIZE" "EVENT_SIZE \<le> SIZE_MAX" by (simp_all add: EVENT_SIZE_def SIZE_MAX_def)
  show ?thesis
    by (rule reserve_cases [OF w, of "ya_events al" "yp_room p" "length (yp_events p) + 1"])
      (use assms in \<open>auto simp: emit_def insert_event_def broken_def exhausted_def fail_def note_problem_def Let_def\<close>)
qed

lemma documents_reads:
  assumes "sound p0" and "yp_open p0 + yp_depth p0 = 0" and "3 * length (yp_text p0) + 3 \<le> fuel"
  shows "reach k es p0 p \<Longrightarrow> documents_of (2 * NESTING + 1) es \<Longrightarrow> left p < n \<Longrightarrow>
    t = BAD \<and> broken (yp_text p0) p' \<or> t \<noteq> BAD \<and> look p' = (t, p') \<and> p' = p \<Longrightarrow>
    yields (yp_text p0) (documents n fuel al implicit t p') (\<lambda>_ p'. \<exists>es e. documents_of (2 * NESTING + 1) es \<and> ev_kind e = STREAM_END \<and>
      reach 0 (es @ [e]) p0 p')"
proof (induction n arbitrary: k es p implicit t p')
  case (Suc n)
  let ?q = "\<lambda>(_ :: unit) p'. \<exists>es e. documents_of (2 * NESTING + 1) es \<and> ev_kind e = STREAM_END \<and> reach 0 (es @ [e]) p0 p'"
  have h: "height p0 = 2 * NESTING" using assms(2) by (simp add: height_def)
  have r: "reach (yp_at p - yp_at p0) es p0 p" using Suc.prems(1) by (auto simp: reach_def)
  define k where "k = yp_at p - yp_at p0"
  note r = r [folded k_def]
  have kp: "yp_at p \<le> yp_at p0 + k" by (simp add: k_def)
  consider "t = BAD" "broken (yp_text p0) p'" | "t = END" "p' = p" | "t \<noteq> BAD" "t \<noteq> END" "\<not> implicit \<and> t \<noteq> DOCUMENT_OPEN" "p' = p"
    | "t \<noteq> BAD" "t \<noteq> END" "\<not> (\<not> implicit \<and> t \<noteq> DOCUMENT_OPEN)" "p' = p" "look p = (t, p)" using Suc.prems(4) by blast
  then show ?case
  proof cases
    case 1
    then show ?thesis by simp
  next
    case 2
    have "yields (yp_text p0) (chain (emit al STREAM_END p) (\<lambda>_. Done ())) ?q"
      unfolding yields_chain
    proof (rule emit_then [OF r], goal_cases)
      case (2 e p1)
      then show ?case using Suc.prems(2) reach_mono [OF 2(2), of 0] by auto
    qed simp
    then show ?thesis using 2 by simp
  next
    case 3
    then show ?thesis using fail_then [OF r, of _ ?q] by simp
  next
    case 4
    have "yields (yp_text p0) (chain (emit al DOCUMENT_START p) (\<lambda>start p.
        chain (document_content fuel al start t p) (\<lambda>_ p.
        chain (pass al p) (\<lambda>_ p.
          case look p of (t, p) \<Rightarrow>
            chain (emit al DOCUMENT_END p) (\<lambda>e p.
            chain (document_ends fuel al e t p) (\<lambda>t p. documents n fuel al False t p)))))) ?q"
      unfolding yields_chain [of _ "emit _ _ _"]
    proof (rule emit_then [OF r], goal_cases)
      case (2 s p1)
      have i: "length (yp_events p) = length (yp_events p0 @ es)" using reachD(6) [OF r] by simp
      have l1: "look p1 = (t, p1)" using 2(4) 4(1,5) by blast
      have left1: "left p1 = left p" using 2(3) reachD(2) [OF 2(2)] reachD(2) [OF r] by (simp add: left_def)
      have f: "3 * left p1 + 3 \<le> fuel" "0 < fuel" using assms(3) reachD(2) [OF 2(2)] by (auto simp: left_def)
      show ?case unfolding yields_chain [of _ "document_content _ _ _ _ _"]
      proof (rule document_content_then [OF 2(2) i 2(1) l1 f], unfold yields_chain [of _ "pass _ _"], rule pass_then, assumption, goal_cases)
        case (1 s body p2 p3)
        note r3 = 1(4) and s = 1(1) and body = 1(2)
        have "left p3 < left p" using reachD(2,3,7) [OF r3] reachD(2) [OF r] kp by (simp add: left_def)
        then have n0: "0 < n" using Suc.prems(3) by simp
        show ?case
        proof (rule look_then [OF r3], goal_cases)
          case (1 t)
          show ?case unfolding yields_chain [of _ "emit _ _ _"]
          proof (rule emit_then [OF r3], goal_cases)
            case (2 e p4)
            have r4: "reach (k + 1) ((es @ s # body) @ [e]) p0 p4" using 2(2) by simp
            have i4: "length (yp_events p3) = length (yp_events p0 @ es @ s # body)" using reachD(6) [OF r3] by simp
            have "left p4 < fuel" using assms(3) reachD(2) [OF r4] by (simp add: left_def)
            then show ?case unfolding yields_chain
            proof (rule document_ends_reads [OF r4 2(1) i4], goal_cases)
              case 1
              then show ?case using 2(4) \<open>t \<noteq> BAD\<close> \<open>look p3 = (t, p3)\<close> by blast
            next
              case (2 e t p5)
              have d: "documents_of (2 * NESTING + 1) (es @ s # body @ [e])"
                by (rule documents_one [OF Suc.prems(2)]) (use s body h 2(1) in auto)
              have r5: "reach (k + 1) (es @ s # body @ [e]) p0 p5" using 2(2) by simp
              have "left p5 < left p" using reachD(2,3,7) [OF r5] reachD(2) [OF r] kp by (simp add: left_def)
              then have n: "left p5 < n" using Suc.prems(3) by simp
              show ?case by (rule Suc.IH [OF r5 d n]) (use 2(3,4) in simp)
            next
              case (3 p')
              then show ?case using n0 by (cases n) simp_all
            qed
          qed simp
        next
          case (2 p')
          then show ?case unfolding yields_chain [of _ "emit _ _ _"]
            by (intro yields_mono [OF emit_broken [OF 2]]) (use n0 f(2) in \<open>cases fuel; cases n; simp\<close>)
        qed
      qed
    qed simp
    then show ?thesis using 4 by (auto simp del: yields_chain)
  qed
qed simp

subsection \<open>A read\<close>

lemma stream_reads:
  assumes s: "sound p" and "yp_open p + yp_depth p = 0" and "yp_events p = []" and b: "3 * length (yp_text p) + 3 \<le> fuel"
  shows "yields (yp_text p) (stream fuel al p) (\<lambda>_ p'. sound p' \<and> yp_text p' = yp_text p \<and> (\<exists>s es e. ev_kind s = STREAM_START \<and>
    ev_kind e = STREAM_END \<and> documents_of (2 * NESTING + 1) es \<and> yp_events p' = s # es @ [e]))"
proof -
  have r0: "reach 0 [] p p" using s by simp
  show ?thesis unfolding stream_def yields_chain [of _ "emit _ _ _"]
  proof (rule emit_then [OF r0], goal_cases)
    case (2 e p1)
    then have r1: "reach 0 [e] p p1" by simp
    note d1 = reachD(1,2,4,5,6) [OF r1]
    show ?case unfolding yields_chain
    proof (rule yields_mono [OF pass_yields [OF d1(1), unfolded d1(2)]], goal_cases)
      case (1 x p2)
      have "left p2 < fuel" using b reachD(2) [OF 1] d1(2) by (simp add: left_def)
      have docs: "yields (yp_text p) (documents fuel fuel al True t p') (\<lambda>_ p'. sound p' \<and> yp_text p' = yp_text p \<and> (\<exists>s es e. ev_kind s = STREAM_START \<and>
          ev_kind e = STREAM_END \<and> documents_of (2 * NESTING + 1) es \<and> yp_events p' = s # es @ [e]))"
        if "t = BAD \<and> broken (yp_text p1) p' \<or> t \<noteq> BAD \<and> look p' = (t, p') \<and> p' = p2" for t p'
      proof -
        have "yields (yp_text p1) (documents fuel fuel al True t p') (\<lambda>_ p'. \<exists>es e. documents_of (2 * NESTING + 1) es \<and>
            ev_kind e = STREAM_END \<and> reach 0 (es @ [e]) p1 p')"
          by (rule documents_reads [OF d1(1) _ _ 1 documents_none \<open>left p2 < fuel\<close> that]) (use assms(2) b d1 in simp_all)
        then show ?thesis unfolding d1(2)
          by (rule yields_mono) (use 2(1) d1(5) assms(3) d1(2) in \<open>fastforce simp: reach_def\<close>)
      qed
      have r2: "reach 0 [e] p p2" using reach_trans [OF r1 1, of 0] by simp
      show ?case by (rule look_then [OF r2]) (use docs d1(2) in auto)
    qed
  qed simp
qed

lemma printable_le: "printable src i = Some bad \<Longrightarrow> bad \<le> length src"
proof (induction src i rule: printable.induct)
  case (1 src i)
  define j where "j = skip_while (\<lambda>b. 0x20 \<le> b \<and> b < 0x7F) src i"
  have p: "printable src i = (if j \<ge> length src then None
      else if src ! j < 0x80 then
        if (if src ! j < 0x20 then src ! j \<noteq> 0 \<and> src ! j \<noteq> 9 \<and> src ! j \<noteq> 10 \<and> src ! j \<noteq> 13 else src ! j = 0x7F) then Some j
        else printable src (j + 1)
      else case utf8proc_decode (src ! j) (drop (j + 1) src) of (n, c) \<Rightarrow> if \<not> prints_scalar c then Some j else printable src (j + n))"
    by (subst printable.simps) (simp only: Let_def j_def)
  obtain n c where d: "utf8proc_decode (src ! j) (drop (j + 1) src) = (n, c)" by fastforce
  show ?case
  proof (cases "j \<ge> length src")
    case False
    then have "bad = j \<or> printable src (j + 1) = Some bad \<and> src ! j < 0x80 \<or> printable src (j + n) = Some bad \<and> \<not> src ! j < 0x80 \<and> prints_scalar c"
      using "1.prems" p d by (auto split: if_splits)
    then show ?thesis using False "1.IH"(1) [OF j_def False refl] "1.IH"(2) [OF j_def False refl _ d [symmetric]] "1.prems" p d
      by (auto split: if_splits)
  qed (use "1.prems" p in simp)
qed

lemma yaml_read_yields:
  assumes "start \<le> length src"
  shows "yields src (yaml_read al p src start) (\<lambda>_ p'. sound p' \<and> yp_text p' = src \<and> (\<exists>s es e. ev_kind s = STREAM_START \<and>
    ev_kind e = STREAM_END \<and> documents_of (2 * NESTING + 1) es \<and> yp_events p' = s # es @ [e]))"
proof -
  let ?p = "read_start p src start"
  have s: "sound ?p" using assms by (simp add: read_start_def sound_def spans_ok_def)
  have f: "yp_text ?p = src" "yp_open ?p + yp_depth ?p = 0" "yp_events ?p = []" by (simp_all add: read_start_def)
  show ?thesis
  proof (cases "printable src start")
    case None
    then show ?thesis using stream_reads [OF s f(2,3), of "3 * length src + 4" al] f(1) by (simp add: yaml_read_def)
  next
    case (Some bad)
    have "broken src (note_problem ''found a character that is not printable'' (?p\<lparr>yp_at := bad\<rparr>))"
      using printable_le [OF Some] by (simp add: broken_def note_problem_def read_start_def spans_ok_def)
    then show ?thesis using Some by (simp add: yaml_read_def fail_def)
  qed
qed

subsection \<open>Properties\<close>

text \<open>A read of a small text, for the witnesses.\<close>

definition granting :: yaml_allocs where
  "granting = \<lparr>ya_events = (\<lambda>_. True), ya_comments = (\<lambda>_. True), ya_buffer = (\<lambda>_ _. True)\<rparr>"

definition roomy :: yaml_parser where
  "roomy = yaml_zero\<lparr>yp_room := 32, yp_comment_room := 4\<rparr>"

fun wrote :: "unit run \<Rightarrow> (yaml_kind list \<times> (nat \<times> nat) list \<times> string option) option" where
  "wrote (Done _ p) = Some (map ev_kind (yp_events p), yp_comments p, None)"
| "wrote (Failed p) = Some ([], yp_comments p, yp_problem p)"
| "wrote Stuck = None"

lemma read_pair: "wrote (yaml_read granting roomy (asc ''a: b'') 0) =
    Some ([STREAM_START, DOCUMENT_START, MAP_START, SCALAR, SCALAR, MAP_END, DOCUMENT_END, STREAM_END], [], None)"
  by code_simp

lemma read_bad: "wrote (yaml_read granting roomy (asc ''a #x'' @ [0x0A, 0x21]) 0) = Some ([], [(2, 4)], Some ''tags are unsupported'')"
  by code_simp

lemma wrote_done: "wrote r = Some (k # ks, cs, x) \<Longrightarrow> \<exists>p. r = Done () p"
  by (cases r) simp_all

lemma wrote_failed: "wrote r = Some ([], cs, Some x) \<Longrightarrow> \<exists>p. r = Failed p"
  by (cases r) simp_all

text \<open>
  C10: A read of any text, whatever the allocator answers, returns: every loop of the parser ends
  and its recursion never runs out of the fuel of three calls a byte.
\<close>

theorem yaml_read_returns:
  assumes "start \<le> length src"
  shows "(\<exists>p'. yaml_read al p src start = Done () p') \<or> (\<exists>p'. yaml_read al p src start = Failed p')"
  using yaml_read_yields [OF assms, of al p] by (cases "yaml_read al p src start") auto

theorem yaml_read_returns_witness:
  "\<exists>p'. yaml_read granting roomy (asc ''a: b'') 0 = Done () p' \<or> yaml_read granting roomy (asc ''a: b'') 0 = Failed p'"
  using yaml_read_returns [of 0 "asc ''a: b''" granting roomy] by auto

text \<open>
  C8: The events a read succeeds with are a stream: between its two events documents, each of
  one node between its two; every collection opened is closed by its own kind, a mapping holds a
  value for each name, what is inside a flow collection is flow, and no node is higher than two
  levels for each of the \<open>NESTING\<close> collections and one more.
\<close>

theorem yaml_events_nest:
  assumes "yaml_read al p src start = Done u p'" and "start \<le> length src"
  shows "\<exists>s es e. yp_events p' = s # es @ [e] \<and> ev_kind s = STREAM_START \<and> ev_kind e = STREAM_END \<and>
    documents_of (2 * NESTING + 1) es"
  using yaml_read_yields [OF assms(2), of al p] assms(1) by auto

theorem yaml_events_nest_witness:
  "\<exists>p' s es e. yaml_read granting roomy (asc ''a: b'') 0 = Done () p' \<and> yp_events p' = s # es @ [e] \<and>
    documents_of (2 * NESTING + 1) es"
  using yaml_events_nest [of granting roomy "asc ''a: b''" 0 "()"] wrote_done [OF read_pair] by auto





end
