(* ===== verification/Attributes.thy ===== *)
theory Attributes
  imports Alloc Houdini
begin

text \<open>
  elements/attributes.c: attribute blocks, \<open>{#id .class name="value"}\<close>.  A recogniser belongs
  to one text and remembers, in a memo of two words for each position, what it answered; a block
  that is recognised is read into a workspace and laid out as a value.

  A position is a \<open>nat\<close>, a memo word and a length that may be negative an \<open>int\<close>.  A value's
  block is the bytes of its strings, and a chunk of it an offset and a length.  The allocators
  answer for the bytes, or the elements, asked for.
\<close>

subsection \<open>The bytes the grammar tells apart\<close>

definition BYTE_SPACE :: byte where "BYTE_SPACE = 1"
definition BYTE_NEWLINE :: byte where "BYTE_NEWLINE = 2"
definition BYTE_CLOSE :: byte where "BYTE_CLOSE = 4"
definition BYTE_NAME_END :: byte where "BYTE_NAME_END = 8"
definition BYTE_QUOTE :: byte where "BYTE_QUOTE = 16"
definition BYTE_ESCAPE :: byte where "BYTE_ESCAPE = 32"
definition BYTE_REFERENCE :: byte where "BYTE_REFERENCE = 64"
definition BYTE_ASSIGN :: byte where "BYTE_ASSIGN = 128"

definition BYTE_VALUE_END :: byte where
  "BYTE_VALUE_END = BYTE_SPACE OR BYTE_NEWLINE OR BYTE_CLOSE"

lemmas byte_bits = BYTE_SPACE_def BYTE_NEWLINE_def BYTE_CLOSE_def BYTE_NAME_END_def BYTE_QUOTE_def
  BYTE_ESCAPE_def BYTE_REFERENCE_def BYTE_ASSIGN_def BYTE_VALUE_END_def

definition BYTE_CLASS :: "byte \<Rightarrow> byte" where
  "BYTE_CLASS c =
     (if c = 0x20 \<or> c = 0x09 then BYTE_SPACE OR BYTE_NAME_END
      else if c = 0x0A \<or> c = 0x0D then BYTE_NEWLINE OR BYTE_NAME_END
      else if c = 0x7D then BYTE_CLOSE OR BYTE_NAME_END
      else if c = 0x7B then BYTE_NAME_END
      else if c = 0x22 then BYTE_QUOTE OR BYTE_NAME_END
      else if c = 0x27 then BYTE_QUOTE OR BYTE_NAME_END
      else if c = 0x3D then BYTE_ASSIGN OR BYTE_NAME_END
      else if c = 0x5C then BYTE_ESCAPE
      else if c = 0x26 then BYTE_REFERENCE
      else 0)"

definition horizontal :: "byte \<Rightarrow> bool" where
  "horizontal c \<longleftrightarrow> BYTE_CLASS c AND BYTE_SPACE \<noteq> 0"

definition new_line :: "byte \<Rightarrow> bool" where
  "new_line c \<longleftrightarrow> BYTE_CLASS c AND BYTE_NEWLINE \<noteq> 0"

definition escaped :: "byte list \<Rightarrow> nat \<Rightarrow> nat \<Rightarrow> bool" where
  "escaped s n p \<longleftrightarrow> s ! p = 0x5C \<and> p + 1 < n \<and> ispunct (s ! (p + 1))"

definition name_terminator :: "byte \<Rightarrow> bool" where
  "name_terminator c \<longleftrightarrow> BYTE_CLASS c AND BYTE_NAME_END \<noteq> 0"

definition member_boundary :: "byte list \<Rightarrow> nat \<Rightarrow> nat \<Rightarrow> bool" where
  "member_boundary s n p \<longleftrightarrow> p \<ge> n \<or> BYTE_CLASS (s ! p) AND BYTE_VALUE_END \<noteq> 0"

definition quote_mark :: "byte \<Rightarrow> bool" where
  "quote_mark c \<longleftrightarrow> c = 0x22 \<or> c = 0x27"

subsection \<open>The recogniser and its memo\<close>

record suffix =
  sx_end :: int
  sx_assignment_end :: int

record attribute_member =
  am_name :: int
  am_name_length :: int
  am_value :: int
  am_value_length :: int

record attribute_scratch =
  sc_strings :: "strbuf option"
  sc_members :: "attribute_member list"
  sc_capacity :: nat
  sc_work :: nat

record attribute_parser =
  ap_data :: "byte list"
  ap_ends :: "suffix list option"
  ap_scratch :: attribute_scratch
  ap_work :: nat
  ap_oom :: bool
  ap_ran_out :: bool

record attribute_allocs =
  aa_ends :: "nat \<Rightarrow> bool"
  aa_strings :: "nat \<Rightarrow> bool"
  aa_members :: "nat \<Rightarrow> bool"
  aa_block :: "nat \<Rightarrow> bool"

definition INVALID :: int where "INVALID = -1"
definition LINK_NONE :: int where "LINK_NONE = -2"
definition LINK :: "int \<Rightarrow> int" where "LINK previous = -3 - previous"
definition LINKED :: "int \<Rightarrow> int" where "LINKED v = -3 - v"
definition KNOWN :: "int \<Rightarrow> bool" where "KNOWN v \<longleftrightarrow> v > 0 \<or> v = INVALID"

text \<open>The size of a suffix in bytes.\<close>

definition SUFFIX_SIZE :: nat where "SUFFIX_SIZE = 8"

definition memo_ready :: "attribute_allocs \<Rightarrow> attribute_parser \<Rightarrow> attribute_parser option" where
  "memo_ready al p =
     (let n = length (ap_data p)
      in if ap_ends p \<noteq> None then Some p
         else if n + 1 > SIZE_MAX div SUFFIX_SIZE then None
         else if aa_ends al (n + 1) then
           Some (p\<lparr>ap_ends := Some (replicate (n + 1) \<lparr>sx_end = 0, sx_assignment_end = 0\<rparr>)\<rparr>)
         else None)"

definition ends_of :: "attribute_parser \<Rightarrow> suffix list" where
  "ends_of p = (case ap_ends p of Some ends \<Rightarrow> ends | None \<Rightarrow> [])"

definition memo :: "attribute_parser \<Rightarrow> nat \<Rightarrow> int" where
  "memo p at = (if ap_data p ! at = 0x3D then sx_assignment_end (ends_of p ! at) else sx_end (ends_of p ! at))"

definition set_memo :: "nat \<Rightarrow> int \<Rightarrow> attribute_parser \<Rightarrow> attribute_parser" where
  "set_memo at v p =
     p\<lparr>ap_ends := map_option (\<lambda>ends. ends[at :=
        (if ap_data p ! at = 0x3D then (ends ! at)\<lparr>sx_assignment_end := v\<rparr> else (ends ! at)\<lparr>sx_end := v\<rparr>)]) (ap_ends p)\<rparr>"

text \<open>A position joins the chain; the chain is then that position.\<close>

definition push_link :: "int \<Rightarrow> nat \<Rightarrow> attribute_parser \<Rightarrow> attribute_parser" where
  "push_link chain at p = set_memo at (LINK chain) p"

definition add_work :: "nat \<Rightarrow> attribute_parser \<Rightarrow> attribute_parser" where
  "add_work k p = p\<lparr>ap_work := ap_work p + k\<rparr>"

subsection \<open>Runs\<close>

definition scan_name :: "nat \<Rightarrow> nat \<Rightarrow> attribute_parser \<Rightarrow> nat \<times> attribute_parser" where
  "scan_name n from p =
     (let at = skip_while (\<lambda>c. \<not> name_terminator c) (take n (ap_data p)) from
      in (at, add_work (at - from) p))"

text \<open>
  The closer of a quote: where the scan stands then, the bytes it examined, and whether it met
  the end of the text.
\<close>

lemma scan_to_class_ge: "at \<le> scan_to_class classes stops data at"
  by (simp add: scan_to_class_skip skip_while_ge)

definition after_line :: "byte list \<Rightarrow> nat \<Rightarrow> nat" where
  "after_line s at = (if s ! at = 0x0D \<and> at + 1 < length s \<and> s ! (at + 1) = 0x0A then at + 1 else at) + 1"

lemma after_line_bounds: "at < after_line s at" "at < length s \<Longrightarrow> after_line s at \<le> length s"
  by (simp_all add: after_line_def)

function quote_loop :: "byte list \<Rightarrow> byte \<Rightarrow> nat \<Rightarrow> nat \<Rightarrow> nat \<times> nat \<times> bool" where
  "quote_loop s quote at w =
     (let n = length s
      in if at \<ge> n then (n, w, True)
         else
           let run = scan_to_class BYTE_CLASS (BYTE_QUOTE OR BYTE_ESCAPE OR BYTE_NEWLINE) s at; w = w + (run - at)
           in if run \<ge> n then (n, w, True)
              else
                let c = s ! run; w = w + 1
                in if c = quote then (run, w, False)
                   else if escaped s n run then quote_loop s quote (run + 2) w
                   else if new_line c then
                     let after = after_line s run;
                         to = skip_while horizontal s after; w = w + (to - after)
                     in if to < n \<and> new_line (s ! to) then (n, w, False) else quote_loop s quote to w
                   else quote_loop s quote (run + 1) w)"
  by pat_completeness auto
termination
proof (relation "measure (\<lambda>(s, quote, at, w). length s - at)", goal_cases)
  case (2 s quote at w n run)
  have "at \<le> run" unfolding 2(3) by (rule scan_to_class_ge)
  then show ?case using 2(1,2) by simp
next
  case (3 s quote at w n run w1 c w2 after to w3)
  have "at \<le> run" unfolding 3(3) by (rule scan_to_class_ge)
  moreover have "run < after" unfolding 3(11) by (rule after_line_bounds)
  moreover have "after \<le> to" unfolding 3(12) by (rule skip_while_ge)
  ultimately show ?case using 3(1,2) by simp
next
  case (4 s quote at w n run)
  have "at \<le> run" unfolding 4(3) by (rule scan_to_class_ge)
  then show ?case using 4(1,2) by simp
qed simp

declare quote_loop.simps [simp del]

definition quote_close :: "nat \<Rightarrow> attribute_parser \<Rightarrow> nat \<times> attribute_parser" where
  "quote_close open_at p =
     (let (at, w, out) = quote_loop (ap_data p) (ap_data p ! open_at) (open_at + 1) 0
      in (at, (add_work w p)\<lparr>ap_ran_out := ap_ran_out p \<or> out\<rparr>))"

lemma kept_data [simp]:
  "ap_data (add_work k p) = ap_data p"
  "ap_data (set_memo at v p) = ap_data p"
  "ap_data (push_link chain at p) = ap_data p"
  by (simp_all add: add_work_def set_memo_def push_link_def)

text \<open>
  The end of an unquoted value.  Every \<open>=\<close> stepped over whose value is not quote-led opens the
  same value's suffix, so it joins the chain.
\<close>

function unquoted_end :: "attribute_parser \<Rightarrow> int \<Rightarrow> nat \<Rightarrow> nat \<times> attribute_parser \<times> int" where
  "unquoted_end p chain at =
     (let s = ap_data p; n = length s
      in if at \<ge> n then (n, p, chain)
         else
           let run = scan_to_class BYTE_CLASS (BYTE_VALUE_END OR BYTE_ESCAPE OR BYTE_ASSIGN) s at; p = add_work (run - at) p
           in if run \<ge> n then (n, p, chain)
              else
                let c = s ! run; p = add_work 1 p
                in if BYTE_CLASS c AND BYTE_VALUE_END \<noteq> 0 then (run, p, chain)
                   else if escaped s n run then unquoted_end p chain (run + 2)
                   else if c = 0x3D \<and> run + 1 < n \<and> s ! (run + 1) \<noteq> 0x22 \<and> s ! (run + 1) \<noteq> 0x27 \<and>
                     sx_assignment_end (ends_of p ! run) = 0
                   then unquoted_end (push_link chain run p) (int run) (run + 1)
                   else unquoted_end p chain (run + 1))"
  by pat_completeness auto
termination
proof (relation "measure (\<lambda>(p, chain, at). length (ap_data p) - at)", goal_cases)
  case (2 p chain at s n run p1 c p2)
  have "at \<le> run" unfolding 2(4) by (rule scan_to_class_ge)
  then show ?case using 2(1,2,3,5,8) by simp
next
  case (3 p chain at s n run p1 c p2)
  have "at \<le> run" unfolding 3(4) by (rule scan_to_class_ge)
  then show ?case using 3(1,2,3,5,8) by simp
next
  case (4 p chain at s n run p1 c p2)
  have "at \<le> run" unfolding 4(4) by (rule scan_to_class_ge)
  then show ?case using 4(1,2,3,5,8) by simp
qed simp

declare unquoted_end.simps [simp del]

lemma unquoted_end_basic:
  assumes "unquoted_end p chain at = (over, p', chain')"
  shows "ap_data p' = ap_data p \<and> (at \<le> length (ap_data p) \<longrightarrow> at \<le> over \<and> over \<le> length (ap_data p))"
  using assms
proof (induction p chain at rule: unquoted_end.induct)
  case (1 p chain at)
  let ?s = "ap_data p"
  define run where "run = scan_to_class BYTE_CLASS (BYTE_VALUE_END OR BYTE_ESCAPE OR BYTE_ASSIGN) ?s at"
  have ge: "at \<le> run" unfolding run_def by (rule scan_to_class_ge)
  consider "at \<ge> length ?s" | "at < length ?s" "run \<ge> length ?s" | "at < length ?s" "run < length ?s" by linarith
  then show ?case
  proof cases
    case 3
    note IH = 1(1-3) [OF refl refl _ run_def refl _ refl refl, unfolded run_def [symmetric]]
    show ?thesis using 1(4) 3 ge IH
      by (subst (asm) unquoted_end.simps) (auto simp: Let_def run_def [symmetric] escaped_def split: if_splits)
  qed (use 1(4) ge in \<open>auto simp: unquoted_end.simps [of p chain at] run_def [symmetric]\<close>)
qed

subsection \<open>Recognition\<close>

text \<open>The gap before a member: spaces and tabs, and at most one line ending among them.\<close>

definition skip_gap :: "nat \<Rightarrow> attribute_parser \<Rightarrow> nat option \<times> attribute_parser" where
  "skip_gap b p =
     (let s = ap_data p; n = length s; at = skip_while horizontal s b; p = add_work (at - b) p
      in if at < n \<and> new_line (s ! at) then
           let after = after_line s at;
               to = skip_while horizontal s after; p = add_work (to - after) p
           in if to < n \<and> new_line (s ! to) then (None, p) else (Some to, p)
         else (Some at, p))"

text \<open>A turn of the walk answers the container or goes on at a later boundary.\<close>

datatype walk = Answered int | Onward nat

definition value_walk :: "int \<Rightarrow> nat \<Rightarrow> attribute_parser \<Rightarrow> walk \<times> int \<times> attribute_parser" where
  "value_walk chain e p =
     (let s = ap_data p; n = length s
      in if KNOWN (sx_assignment_end (ends_of p ! e)) then (Answered (sx_assignment_end (ends_of p ! e)), chain, p)
         else
           let p = push_link chain e p; chain = int e;
               (b, p) =
                 (if e + 1 < n \<and> quote_mark (s ! (e + 1)) then
                    let (close, p) = quote_close (e + 1) p
                    in if close < n then (close + 1, p\<lparr>ap_ran_out := ap_ran_out p \<or> close + 1 = n\<rparr>) else (n, p)
                  else (n, p))
           in if b = n then let (b, p, chain) = unquoted_end p chain (e + 1) in (Onward b, chain, p)
              else (Onward b, chain, p))"

definition member_walk :: "int \<Rightarrow> nat \<Rightarrow> attribute_parser \<Rightarrow> walk \<times> int \<times> attribute_parser" where
  "member_walk chain b p =
     (let s = ap_data p; n = length s; c = s ! b
      in if c = 0x7D then (Answered (int b + 1), chain, p)
         else if c = 0x3D \<or> c = 0x22 \<or> c = 0x27 \<or> c = 0x7B then (Answered INVALID, chain, p)
         else if c = 0x2D \<and> member_boundary s n (b + 1) then (Onward (b + 1), chain, p)
         else if c = 0x23 \<or> c = 0x2E then
           if b + 1 < n \<and> \<not> name_terminator (s ! (b + 1)) then
             let (e, p) = scan_name n (b + 1) p in (Onward e, chain, p)
           else (Answered INVALID, chain, p)
         else
           let (e, p) = scan_name n (b + 1) p
           in if e \<ge> n \<or> s ! e \<noteq> 0x3D then
                if member_boundary s n e then (Onward e, chain, p) else (Answered INVALID, chain, p)
              else value_walk chain e p)"

lemma ran_out_data [simp]: "ap_data (p\<lparr>ap_ran_out := r\<rparr>) = ap_data p"
  by simp

lemma quote_close_data: "quote_close at p = (close, p') \<Longrightarrow> ap_data p' = ap_data p"
  by (auto simp: quote_close_def split: prod.splits)

lemma quote_loop_bounds:
  "quote_loop s quote at w = (to, w', out) \<Longrightarrow> at \<le> length s \<Longrightarrow> at \<le> to \<and> to \<le> length s"
proof (induction s quote at w rule: quote_loop.induct)
  case (1 s quote at w)
  note outer = 1
  define run where "run = scan_to_class BYTE_CLASS (BYTE_QUOTE OR BYTE_ESCAPE OR BYTE_NEWLINE) s at"
  define upto where "upto = skip_while horizontal s (after_line s run)"
  note IH = 1(1,3) [OF refl _ run_def refl _ refl refl, folded upto_def, unfolded run_def [symmetric]]
    1(2) [OF refl _ run_def refl _ refl refl _ _ _ refl refl refl, folded upto_def, unfolded run_def [symmetric]]
  have run: "at \<le> run" unfolding run_def by (rule scan_to_class_ge)
  consider "at \<ge> length s \<or> run \<ge> length s" | "at < length s" "run < length s" by linarith
  then show ?case
  proof cases
    case 1
    then show ?thesis using outer(4,5) by (subst (asm) quote_loop.simps) (auto simp: Let_def run_def [symmetric] split: if_splits)
  next
    case 2
    have upto: "run < upto" "upto \<le> length s"
      using after_line_bounds [of run s] 2 skip_while_ge [of "after_line s run" horizontal s]
        skip_while_le [of "after_line s run" s horizontal] by (simp_all add: upto_def)
    show ?thesis using outer(4) 2 run upto IH
      by (subst (asm) quote_loop.simps)
        (auto simp: Let_def run_def [symmetric] upto_def [symmetric] escaped_def split: if_splits)
  qed
qed

lemma quote_close_basic:
  "quote_close at p = (close, p') \<Longrightarrow> at < length (ap_data p) \<Longrightarrow>
    ap_data p' = ap_data p \<and> at < close \<and> close \<le> length (ap_data p)"
  using quote_loop_bounds [of "ap_data p" "ap_data p ! at" "at + 1" 0]
  by (auto simp: quote_close_def split: prod.splits)

lemma value_walk_basic:
  assumes "value_walk chain e p = (w, chain', p')" and "e < length (ap_data p)"
  shows "ap_data p' = ap_data p \<and> (\<forall>b. w = Onward b \<longrightarrow> e < b)"
proof -
  have u: "ap_data p2 = ap_data p1 \<and> (e < length (ap_data p1) \<longrightarrow> e < b)"
    if "unquoted_end p1 c (Suc e) = (b, p2, c')" for b c c' p1 p2
    using unquoted_end_basic [OF that] by auto
  have q: "ap_data p2 = ap_data p1 \<and> (Suc e < length (ap_data p1) \<longrightarrow> e < close)"
    if "quote_close (Suc e) p1 = (close, p2)" for close p1 p2
    using quote_close_basic [OF that] quote_close_data [OF that] by auto
  show ?thesis using assms
    by (auto simp: value_walk_def Let_def split: if_splits prod.splits dest!: u q)
qed

lemma skip_gap_basic:
  assumes "skip_gap b p = (g, p')"
  shows "ap_data p' = ap_data p \<and>
    (b < length (ap_data p) \<longrightarrow> horizontal (ap_data p ! b) \<or> new_line (ap_data p ! b) \<longrightarrow> (\<forall>b'. g = Some b' \<longrightarrow> b < b'))"
proof -
  let ?s = "ap_data p" let ?at = "skip_while horizontal (ap_data p) b"
  have "b \<le> ?at" by (rule skip_while_ge)
  moreover have "?at < after_line ?s ?at" by (rule after_line_bounds)
  moreover have "after_line ?s ?at \<le> skip_while horizontal ?s (after_line ?s ?at)" by (rule skip_while_ge)
  moreover have "b < ?at" if "b < length ?s" "horizontal (?s ! b)"
    using that skip_while_ge [of "b + 1" horizontal ?s] by (subst skip_while.simps) simp
  moreover have "?at = b" if "b < length ?s" "\<not> horizontal (?s ! b)"
    using that by (subst skip_while.simps) simp
  ultimately show ?thesis using assms
    by (cases "horizontal (?s ! b)") (auto simp: skip_gap_def Let_def split: if_splits)
qed

lemma member_walk_basic:
  assumes "member_walk chain b p = (w, chain', p')" and "b < length (ap_data p)"
  shows "ap_data p' = ap_data p \<and> (\<forall>b'. w = Onward b' \<longrightarrow> b < b')"
proof -
  have s: "ap_data p1 = ap_data p \<and> b < e \<and> e \<le> length (ap_data p)"
    if "scan_name (length (ap_data p)) (Suc b) p = (e, p1)" for e p1
    using that assms(2) skip_while_ge [of "Suc b" "\<lambda>c. \<not> name_terminator c" "ap_data p"]
      skip_while_le [of "Suc b" "ap_data p" "\<lambda>c. \<not> name_terminator c"]
    by (auto simp: scan_name_def Let_def)
  have v: "ap_data p2 = ap_data p1 \<and> (e < length (ap_data p1) \<longrightarrow> (\<forall>b. w = Onward b \<longrightarrow> e < b))"
    if "value_walk chain e p1 = (w, chain', p2)" for e w p1 p2
    using value_walk_basic [OF that] value_walk_basic(1) [OF that] that
    by (cases "e < length (ap_data p1)") (auto simp: value_walk_def Let_def split: if_splits prod.splits
        dest!: quote_close_data unquoted_end_basic)
  show ?thesis using assms
    by (auto simp: member_walk_def Let_def split: if_splits prod.splits dest!: s v)
qed

text \<open>The walk from a boundary: the answer, the chain of the positions passed, and the recogniser.\<close>

function recognise_loop :: "int \<Rightarrow> nat \<Rightarrow> attribute_parser \<Rightarrow> int \<times> int \<times> attribute_parser" where
  "recognise_loop chain b p =
     (let s = ap_data p; p = add_work 1 p
      in if b \<ge> length s then (INVALID, chain, p)
         else if horizontal (s ! b) \<or> new_line (s ! b) then
           (case skip_gap b p of
              (None, p) \<Rightarrow> (INVALID, chain, p)
            | (Some b, p) \<Rightarrow> recognise_loop chain b p)
         else if KNOWN (sx_end (ends_of p ! b)) then (sx_end (ends_of p ! b), chain, p)
         else
           (case member_walk (int b) b (push_link chain b p) of
              (Answered answer, chain, p) \<Rightarrow> (answer, chain, p)
            | (Onward b, chain, p) \<Rightarrow> recognise_loop chain b p))"
  by pat_completeness auto
termination
proof (relation "measure (\<lambda>(chain, b, p). length (ap_data p) - b)", goal_cases)
  case (2 chain b p s p1 g p2 b')
  show ?case using skip_gap_basic [of b p1 g p2] 2 by auto
next
  case (3 chain b p s p1 w r b' chain' p2)
  show ?case using member_walk_basic [of "int b" b "push_link chain b p1" w chain' p2] 3 by auto
qed simp

declare recognise_loop.simps [simp del]

text \<open>
  The answer is written back along the chain.  Nothing in the code bounds that loop but the
  chain itself: \<open>None\<close> when it does not return.
\<close>

partial_function (option) write_back :: "int \<Rightarrow> int \<Rightarrow> attribute_parser \<Rightarrow> attribute_parser option" where
  "write_back answer chain p =
     (if chain = LINK_NONE then Some p
      else write_back answer (LINKED (memo p (nat chain))) (set_memo (nat chain) answer p))"

declare write_back.simps [code]

definition recognise :: "nat \<Rightarrow> attribute_parser \<Rightarrow> (int \<times> attribute_parser) option" where
  "recognise b p =
     (case recognise_loop LINK_NONE b p of
        (answer, chain, p) \<Rightarrow> map_option (Pair answer) (write_back answer chain p))"

definition attributes_end :: "attribute_allocs \<Rightarrow> attribute_parser \<Rightarrow> int \<Rightarrow> (int \<times> attribute_parser) option" where
  "attributes_end al p start =
     (let p = add_work 1 p
      in if ap_oom p then Some (0, p)
         else if start < 0 \<or> start \<ge> int (length (ap_data p)) \<or> ap_data p ! nat start \<noteq> 0x7B then Some (0, p)
         else
           case memo_ready al p of
             None \<Rightarrow> Some (0, p\<lparr>ap_oom := True\<rparr>)
           | Some p \<Rightarrow>
               map_option (\<lambda>(answer, p). (if answer = INVALID then 0 else answer, p)) (recognise (nat start + 1) p))"

text \<open>The first complete block that ends at \<open>over\<close>.\<close>

function tail_loop :: "attribute_allocs \<Rightarrow> nat \<Rightarrow> nat \<Rightarrow> attribute_parser \<Rightarrow> (int \<times> attribute_parser) option" where
  "tail_loop al over at p =
     (if at \<ge> over then Some (-1, p)
      else
        let p = add_work 1 p
        in if escaped (ap_data p) over at then tail_loop al over (at + 2) p
           else if ap_data p ! at = 0x7B then
             (case attributes_end al p (int at) of
                None \<Rightarrow> None
              | Some (answer, p) \<Rightarrow> if answer = int over then Some (int at, p) else tail_loop al over (at + 1) p)
           else tail_loop al over (at + 1) p)"
  by pat_completeness auto
termination
  by (relation "measure (\<lambda>(al, over, at, p). over - at)") auto

declare tail_loop.simps [simp del]

definition attributes_tail :: "attribute_allocs \<Rightarrow> nat \<Rightarrow> nat \<Rightarrow> attribute_parser \<Rightarrow> (int \<times> attribute_parser) option" where
  "attributes_tail al start over p =
     (if over \<le> start \<or> ap_data p ! (over - 1) \<noteq> 0x7D then Some (-1, p) else tail_loop al over start p)"

subsection \<open>Staging\<close>

text \<open>
  An operation on the workspace that may be refused room answers whether it succeeded beside the
  workspace it leaves; \<open>None\<close> where the growth of the members would not return.
\<close>

definition MEMBER_SIZE :: nat where "MEMBER_SIZE = 16"
definition RECORD_SIZE :: nat where "RECORD_SIZE = 32"
definition CHUNK_SIZE :: nat where "CHUNK_SIZE = 16"

definition strings_of :: "attribute_scratch \<Rightarrow> strbuf" where
  "strings_of w = (case sc_strings w of Some buf \<Rightarrow> buf | None \<Rightarrow> strbuf_empty)"

definition stage :: "attribute_allocs \<Rightarrow> byte list \<Rightarrow> attribute_scratch \<Rightarrow> int \<times> attribute_scratch" where
  "stage al bytes w =
     (let buf = strings_of w; offset = size_of buf;
          buf = strbuf_putc (aa_strings al) (strbuf_put (aa_strings al) buf bytes) 0
      in (if oom buf then -1 else offset, w\<lparr>sc_strings := Some buf\<rparr>))"

definition add_member ::
  "attribute_allocs \<Rightarrow> int \<Rightarrow> int \<Rightarrow> int \<Rightarrow> int \<Rightarrow> attribute_scratch \<Rightarrow> (bool \<times> attribute_scratch) option"
where
  "add_member al name name_length val value_length w =
     (case reserve (aa_members al) (sc_capacity w) (length (sc_members w) + 1) MEMBER_SIZE of
        None \<Rightarrow> None
      | Some None \<Rightarrow> Some (False, w)
      | Some (Some room) \<Rightarrow>
          Some (True, w\<lparr>sc_capacity := room, sc_members := sc_members w @
            [\<lparr>am_name = name, am_name_length = name_length, am_value = val, am_value_length = value_length\<rparr>]\<rparr>))"

definition class_separator :: "byte \<Rightarrow> bool" where
  "class_separator c \<longleftrightarrow> c = 0x20 \<or> c = 0x09 \<or> c = 0x0A \<or> c = 0x0C \<or> c = 0x0D"

definition end_class :: "nat \<Rightarrow> attribute_scratch \<Rightarrow> attribute_scratch" where
  "end_class at w = w\<lparr>sc_strings := Some (strings_of w\<lparr>ptr := (ptr (strings_of w))[at := 0]\<rparr>)\<rparr>"

function class_run_loop ::
  "attribute_allocs \<Rightarrow> nat \<Rightarrow> nat \<Rightarrow> nat \<Rightarrow> nat \<Rightarrow> attribute_scratch \<Rightarrow> (bool \<times> nat \<times> attribute_scratch) option"
where
  "class_run_loop al val len at word w =
     (if at \<ge> len then Some (True, word, w)
      else if class_separator (ptr (strings_of w) ! (val + at)) then
        (case (if at > word then add_member al (-1) 0 (int (val + word)) (int (at - word)) w else Some (True, w)) of
           None \<Rightarrow> None
         | Some (False, w) \<Rightarrow> Some (False, word, w)
         | Some (True, w) \<Rightarrow> class_run_loop al val len (at + 1) (at + 1) (end_class (val + at) w))
      else class_run_loop al val len (at + 1) word w)"
  by pat_completeness auto
termination
  by (relation "measure (\<lambda>(al, val, len, at, word, w). len - at)") auto

declare class_run_loop.simps [simp del]

definition add_class_run :: "attribute_allocs \<Rightarrow> nat \<Rightarrow> nat \<Rightarrow> attribute_scratch \<Rightarrow> (bool \<times> attribute_scratch) option" where
  "add_class_run al val len w =
     (case class_run_loop al val len 0 0 w of
        None \<Rightarrow> None
      | Some (False, word, w) \<Rightarrow> Some (False, w)
      | Some (True, word, w) \<Rightarrow>
          if len = word then Some (True, w)
          else add_member al (-1) 0 (int (val + word)) (int (len - word)) w)"

type_synonym anchor = "int \<times> int"

definition add_record ::
  "attribute_allocs \<Rightarrow> anchor \<Rightarrow> byte list \<Rightarrow> nat \<Rightarrow> nat \<Rightarrow> attribute_scratch \<Rightarrow> (bool \<times> anchor \<times> attribute_scratch) option"
where
  "add_record al anchor name val len w =
     (if name = asc ''id'' then Some (True, (int val, int len), w)
      else if name = asc ''class'' then map_option (\<lambda>(ok, w). (ok, anchor, w)) (add_class_run al val len w)
      else
        let (staged, w) = stage al name w
        in if staged \<ge> 0 then
             map_option (\<lambda>(ok, w). (ok, anchor, w))
               (add_member al staged (int (length name)) (int val) (int len) w)
           else Some (False, anchor, w))"

subsection \<open>Decoding a value\<close>

text \<open>The loops answer where they stopped (one past the closer, or 0), the buffer and the bytes examined.\<close>

function decode_quoted_loop ::
  "attribute_allocs \<Rightarrow> entity_table \<Rightarrow> byte list \<Rightarrow> byte \<Rightarrow> nat \<Rightarrow> nat \<Rightarrow> strbuf \<Rightarrow> nat \<Rightarrow> nat \<times> strbuf \<times> nat"
where
  "decode_quoted_loop al ents s quote finish at buf w =
     (let g = aa_strings al; limit = finish - 1
      in if at \<ge> limit then (0, buf, w)
         else
           let run = scan_to_class BYTE_CLASS (BYTE_QUOTE OR BYTE_ESCAPE OR BYTE_REFERENCE OR BYTE_NEWLINE) (take limit s) at;
               w = w + (run - at); buf = strbuf_put g buf (slice s at run)
           in if run \<ge> limit then (0, buf, w)
              else
                let w = w + 1; c = s ! run
                in if c = quote then (run + 1, buf, w)
                   else if escaped s finish run then
                     decode_quoted_loop al ents s quote finish (run + 2) (strbuf_putc g buf (s ! (run + 1))) w
                   else if c = 0x26 then
                     let (used, buf) = unescape_ent ents g buf (slice s (run + 1) limit)
                     in if used \<noteq> 0 then decode_quoted_loop al ents s quote finish (run + used + 1) buf w
                        else decode_quoted_loop al ents s quote finish (run + 1) (strbuf_putc g buf c) w
                   else if new_line c then
                     let at = (if c = 0x0D \<and> run + 1 < limit \<and> s ! (run + 1) = 0x0A then run + 1 else run) + 1
                     in decode_quoted_loop al ents s quote finish at (strbuf_putc g buf 0x20) w
                   else decode_quoted_loop al ents s quote finish (run + 1) (strbuf_putc g buf c) w)"
  by pat_completeness auto
termination
proof (relation "measure (\<lambda>(al, ents, s, quote, finish, at, buf, w). finish - at)", goal_cases)
  case (2 al ents s quote finish at buf w g limit run)
  have "at \<le> run" unfolding 2(4) by (rule scan_to_class_ge)
  then show ?case using 2(2,3) by auto
next
  case (3 al ents s quote finish at buf w g limit run)
  have "at \<le> run" unfolding 3(4) by (rule scan_to_class_ge)
  then show ?case using 3(2,3) by auto
next
  case (4 al ents s quote finish at buf w g limit run)
  have "at \<le> run" unfolding 4(4) by (rule scan_to_class_ge)
  then show ?case using 4(2,3) by auto
next
  case (5 al ents s quote finish at buf w g limit run)
  have "at \<le> run" unfolding 5(4) by (rule scan_to_class_ge)
  then show ?case using 5(2,3,14) by (auto split: if_splits)
next
  case (6 al ents s quote finish at buf w g limit run)
  have "at \<le> run" unfolding 6(4) by (rule scan_to_class_ge)
  then show ?case using 6(2,3) by auto
qed simp

declare decode_quoted_loop.simps [simp del]

definition decode_quoted ::
  "attribute_allocs \<Rightarrow> entity_table \<Rightarrow> nat \<Rightarrow> nat \<Rightarrow> attribute_parser \<Rightarrow> nat \<times> attribute_parser"
where
  "decode_quoted al ents open_at finish p =
     (let w = ap_scratch p; buf = strings_of w; mark = size_of buf;
          (after, out, work) = decode_quoted_loop al ents (ap_data p) (ap_data p ! open_at) finish (open_at + 1) buf 0;
          out = (if after = 0 then strbuf_truncate out mark else out)
      in (after, add_work work p\<lparr>ap_scratch := w\<lparr>sc_strings := Some out\<rparr>\<rparr>))"

function decode_unquoted_loop ::
  "attribute_allocs \<Rightarrow> byte list \<Rightarrow> nat \<Rightarrow> nat \<Rightarrow> strbuf \<Rightarrow> nat \<Rightarrow> nat \<times> strbuf \<times> nat"
where
  "decode_unquoted_loop al s finish at buf w =
     (let g = aa_strings al; limit = finish - 1
      in if at \<ge> limit then (at, buf, w)
         else
           let run = scan_to_class BYTE_CLASS (BYTE_VALUE_END OR BYTE_ESCAPE) (take limit s) at;
               w = w + (run - at); buf = strbuf_put g buf (slice s at run)
           in if run \<ge> limit \<or> BYTE_CLASS (s ! run) AND BYTE_VALUE_END \<noteq> 0 then (run, buf, w)
              else
                let w = w + 1
                in if escaped s finish run then
                     decode_unquoted_loop al s finish (run + 2) (strbuf_putc g buf (s ! (run + 1))) w
                   else decode_unquoted_loop al s finish (run + 1) (strbuf_putc g buf (s ! run)) w)"
  by pat_completeness auto
termination
proof (relation "measure (\<lambda>(al, s, finish, at, buf, w). finish - at)", goal_cases)
  case (2 al s finish at buf w g limit run)
  have "at \<le> run" unfolding 2(4) by (rule scan_to_class_ge)
  then show ?case using 2(2,3) by auto
next
  case (3 al s finish at buf w g limit run)
  have "at \<le> run" unfolding 3(4) by (rule scan_to_class_ge)
  then show ?case using 3(2,3) by auto
qed simp

declare decode_unquoted_loop.simps [simp del]

definition decode_unquoted :: "attribute_allocs \<Rightarrow> nat \<Rightarrow> nat \<Rightarrow> attribute_parser \<Rightarrow> nat \<times> attribute_parser" where
  "decode_unquoted al at finish p =
     (let w = ap_scratch p;
          (after, out, work) = decode_unquoted_loop al (ap_data p) finish at (strings_of w) 0
      in (after, add_work work p\<lparr>ap_scratch := w\<lparr>sc_strings := Some out\<rparr>\<rparr>))"

subsection \<open>Reading a block\<close>

definition in_scratch ::
  "attribute_parser \<Rightarrow> (bool \<times> anchor \<times> attribute_scratch) option \<Rightarrow> (bool \<times> anchor \<times> attribute_parser) option"
where
  "in_scratch p r = map_option (\<lambda>(ok, anchor, w). (ok, anchor, p\<lparr>ap_scratch := w\<rparr>)) r"

definition keeping :: "anchor \<Rightarrow> (bool \<times> attribute_scratch) option \<Rightarrow> (bool \<times> anchor \<times> attribute_scratch) option" where
  "keeping anchor r = map_option (\<lambda>(ok, w). (ok, anchor, w)) r"

text \<open>One turn of the reader: the member at \<open>at\<close>, and where the next begins.\<close>

definition read_dash :: "attribute_allocs \<Rightarrow> anchor \<Rightarrow> attribute_parser \<Rightarrow> (bool \<times> anchor \<times> attribute_parser) option" where
  "read_dash al anchor p =
     (let (staged, w) = stage al (asc ''unnumbered'') (ap_scratch p)
      in in_scratch p (if staged < 0 then Some (False, anchor, w) else keeping anchor (add_member al (-1) 0 staged 10 w)))"

definition read_marked ::
  "attribute_allocs \<Rightarrow> byte \<Rightarrow> nat \<Rightarrow> nat \<Rightarrow> anchor \<Rightarrow> attribute_parser \<Rightarrow> (bool \<times> anchor \<times> attribute_parser) option"
where
  "read_marked al marker from at anchor p =
     (let (staged, w) = stage al (slice (ap_data p) from at) (ap_scratch p)
      in in_scratch p
           (if staged < 0 then Some (False, anchor, w)
            else if marker = 0x23 then Some (True, (staged, int (at - from)), w)
            else keeping anchor (add_member al (-1) 0 staged (int (at - from)) w)))"

definition read_bare ::
  "attribute_allocs \<Rightarrow> nat \<Rightarrow> nat \<Rightarrow> anchor \<Rightarrow> attribute_parser \<Rightarrow> (bool \<times> anchor \<times> attribute_parser) option"
where
  "read_bare al name at anchor p =
     (let (staged, w) = stage al (asc ''true'') (ap_scratch p)
      in in_scratch p
           (if staged < 0 then Some (False, anchor, w)
            else add_record al anchor (slice (ap_data p) name at) (nat staged) 4 w))"

definition read_assigned ::
  "attribute_allocs \<Rightarrow> entity_table \<Rightarrow> nat \<Rightarrow> nat \<Rightarrow> nat \<Rightarrow> anchor \<Rightarrow> attribute_parser \<Rightarrow>
    (bool \<times> nat \<times> anchor \<times> attribute_parser) option"
where
  "read_assigned al ents finish name e anchor p =
     (let at = e + 1; val = size_of (strings_of (ap_scratch p));
          (after, p) = (if BYTE_CLASS (ap_data p ! at) AND BYTE_QUOTE \<noteq> 0 then decode_quoted al ents at finish p else (0, p));
          (at, p) = (if after \<noteq> 0 then (after, p) else decode_unquoted al at finish p);
          w = ap_scratch p; len = size_of (strings_of w) - val;
          buf = strbuf_putc (aa_strings al) (strings_of w) 0; w = w\<lparr>sc_strings := Some buf\<rparr>
      in map_option (\<lambda>(ok, anchor, p). (ok, at, anchor, p))
           (in_scratch p
              (if oom buf then Some (False, anchor, w)
               else add_record al anchor (slice (ap_data p) name e) (nat val) (nat len) w)))"

definition read_member ::
  "attribute_allocs \<Rightarrow> entity_table \<Rightarrow> nat \<Rightarrow> nat \<Rightarrow> anchor \<Rightarrow> attribute_parser \<Rightarrow>
    (bool \<times> nat \<times> anchor \<times> attribute_parser) option"
where
  "read_member al ents finish at anchor p =
     (let s = ap_data p; p = add_work 1 p; next_at = (\<lambda>at. map_option (\<lambda>(ok, anchor, p). (ok, at, anchor, p)))
      in if BYTE_CLASS (s ! at) AND (BYTE_SPACE OR BYTE_NEWLINE) \<noteq> 0 then Some (True, at + 1, anchor, p)
         else if s ! at = 0x2D \<and> member_boundary s finish (at + 1) then next_at (at + 1) (read_dash al anchor p)
         else if s ! at = 0x23 \<or> s ! at = 0x2E then
           let (e, p) = scan_name finish (at + 1) p in next_at e (read_marked al (s ! at) (at + 1) e anchor p)
         else
           let (e, p) = scan_name finish at p
           in if e \<ge> finish - 1 \<or> s ! e \<noteq> 0x3D then next_at e (read_bare al at e anchor p)
              else read_assigned al ents finish at e anchor p)"

text \<open>The loop of the reader; a member that takes no byte would keep it where it is.\<close>

partial_function (option) read_loop ::
  "attribute_allocs \<Rightarrow> entity_table \<Rightarrow> nat \<Rightarrow> nat \<Rightarrow> anchor \<Rightarrow> attribute_parser \<Rightarrow> (bool \<times> anchor \<times> attribute_parser) option"
where
  "read_loop al ents finish at anchor p =
     (if at < finish - 1 then
        case read_member al ents finish at anchor p of
          None \<Rightarrow> None
        | Some (ok, at, anchor, p) \<Rightarrow> if ok then read_loop al ents finish at anchor p else Some (False, anchor, p)
      else Some (True, anchor, p))"

declare read_loop.simps [code]

definition read_container ::
  "attribute_allocs \<Rightarrow> entity_table \<Rightarrow> nat \<Rightarrow> nat \<Rightarrow> anchor \<Rightarrow> attribute_parser \<Rightarrow> (bool \<times> anchor \<times> attribute_parser) option"
where
  "read_container al ents start finish anchor p =
     (let w = ap_scratch p;
          buf = (case sc_strings w of Some buf \<Rightarrow> buf | None \<Rightarrow> strbuf_init (aa_strings al) 0);
          w = w\<lparr>sc_strings := Some (strbuf_clear buf), sc_members := []\<rparr>
      in read_loop al ents finish (start + 1) anchor (p\<lparr>ap_scratch := w\<rparr>))"

subsection \<open>Laying out\<close>

record chunk =
  ch_at :: int
  ch_len :: int

record attribute_value =
  av_anchor :: "chunk option"
  av_classes :: "chunk list"
  av_records :: "(chunk \<times> chunk) list"
  av_strings :: "byte list"
  av_stored :: bool

definition no_attributes :: attribute_value where
  "no_attributes = \<lparr>av_anchor = None, av_classes = [], av_records = [], av_strings = [], av_stored = False\<rparr>"

definition staged_chunk :: "attribute_member \<Rightarrow> chunk" where
  "staged_chunk m = \<lparr>ch_at = am_value m, ch_len = am_value_length m\<rparr>"

definition name_chunk :: "attribute_member \<Rightarrow> chunk" where
  "name_chunk m = \<lparr>ch_at = am_name m, ch_len = am_name_length m\<rparr>"

text \<open>The records come first, then the classes, each in the order of the members; \<open>None\<close> when refused.\<close>

definition lay_out :: "attribute_allocs \<Rightarrow> anchor \<Rightarrow> attribute_scratch \<Rightarrow> attribute_value option" where
  "lay_out al anchor w =
     (let classes = filter (\<lambda>m. am_name m < 0) (sc_members w);
          records = filter (\<lambda>m. \<not> am_name m < 0) (sc_members w);
          strings = ptr (strings_of w);
          bytes = length records * RECORD_SIZE + length classes * CHUNK_SIZE + length strings
      in if bytes = 0 then Some no_attributes
         else if aa_block al bytes then
           Some \<lparr>av_anchor = (if fst anchor \<ge> 0 then Some \<lparr>ch_at = fst anchor, ch_len = snd anchor\<rparr> else None),
             av_classes = map staged_chunk classes,
             av_records = map (\<lambda>m. (name_chunk m, staged_chunk m)) records,
             av_strings = strings, av_stored = True\<rparr>
         else None)"

definition single_class :: "(nat \<Rightarrow> bool) \<Rightarrow> byte list \<Rightarrow> attribute_value option" where
  "single_class grant bytes =
     (if grant (CHUNK_SIZE + length bytes + 1) then
        Some \<lparr>av_anchor = None, av_classes = [\<lparr>ch_at = 0, ch_len = int (length bytes)\<rparr>], av_records = [],
          av_strings = bytes @ [0], av_stored = True\<rparr>
      else None)"

text \<open>
  A parse answers the value and where the block ends, or leaves both as they were; \<open>None\<close> if it
  does not return.
\<close>

definition attributes_parse ::
  "attribute_allocs \<Rightarrow> entity_table \<Rightarrow> int \<Rightarrow> attribute_parser \<Rightarrow> ((attribute_value \<times> nat) option \<times> attribute_parser) option"
where
  "attributes_parse al ents start p =
     (case attributes_end al p start of
        None \<Rightarrow> None
      | Some (finish, p) \<Rightarrow>
          if finish = 0 then Some (None, p)
          else
            case read_container al ents (nat start) (nat finish) (-1, 0) p of
              None \<Rightarrow> None
            | Some (ok, anchor, p) \<Rightarrow>
                case (if ok then lay_out al anchor (ap_scratch p) else None) of
                  None \<Rightarrow> Some (None, p\<lparr>ap_oom := True\<rparr>)
                | Some v \<Rightarrow> Some (Some (v, nat finish), add_work (nat finish - nat start) p))"

definition parser_free :: "attribute_parser \<Rightarrow> attribute_parser" where
  "parser_free p =
     p\<lparr>ap_scratch := (ap_scratch p)\<lparr>sc_work := sc_work (ap_scratch p) + ap_work p\<rparr>, ap_work := 0, ap_ends := None\<rparr>"

definition fresh_parser :: "byte list \<Rightarrow> attribute_scratch \<Rightarrow> attribute_parser" where
  "fresh_parser s w = \<lparr>ap_data = s, ap_ends = None, ap_scratch = w, ap_work = 0, ap_oom = False, ap_ran_out = False\<rparr>"

definition no_scratch :: attribute_scratch where
  "no_scratch = \<lparr>sc_strings = None, sc_members = [], sc_capacity = 0, sc_work = 0\<rparr>"

text \<open>
  The block at the end of a heading's or a fence's text: the value, where what is before it ends,
  whether room was refused, and the workspace.
\<close>

fun info_end :: "byte list \<Rightarrow> nat \<Rightarrow> nat" where
  "info_end s 0 = 0"
| "info_end s (Suc n) = (if is_space_or_tab (s ! n) then info_end s n else Suc n)"

definition attach_tail ::
  "attribute_allocs \<Rightarrow> entity_table \<Rightarrow> byte list \<Rightarrow> attribute_value \<Rightarrow> attribute_scratch \<Rightarrow>
    (nat \<times> attribute_value \<times> bool \<times> attribute_scratch) option"
where
  "attach_tail al ents s v w =
     (let over = info_end s (length s)
      in case attributes_tail al 0 over (fresh_parser s w) of
           None \<Rightarrow> None
         | Some (start, p) \<Rightarrow>
             case (if start \<ge> 0 then attributes_parse al ents start p else Some (None, p)) of
               None \<Rightarrow> None
             | Some (result, p) \<Rightarrow>
                 let (over, v) = (case result of Some (v, _) \<Rightarrow> (nat start, v) | None \<Rightarrow> (over, v))
                 in Some (over, v, ap_oom p, ap_scratch (parser_free p)))"

end
