(* ===== verification/AttributeMemo.thy ===== *)
theory AttributeMemo
  imports Attributes
begin

text \<open>
  Recognition of attribute blocks is correct.  The reference answers from the text alone, byte by
  byte and with no memo; the recogniser answers the same whatever was asked of it before.
\<close>

subsection \<open>The reference\<close>

definition name_over :: "byte list \<Rightarrow> nat \<Rightarrow> nat" where
  "name_over s at = skip_while (\<lambda>c. \<not> name_terminator c) s at"

text \<open>The closer of a quote: the first of its kind that is not escaped, before any blank line.\<close>

function closer :: "byte list \<Rightarrow> byte \<Rightarrow> nat \<Rightarrow> nat option" where
  "closer s quote at =
     (if at \<ge> length s then None
      else if s ! at = quote then Some at
      else if escaped s (length s) at then closer s quote (at + 2)
      else if new_line (s ! at) then
        let to = skip_while horizontal s (after_line s at)
        in if to < length s \<and> new_line (s ! to) then None else closer s quote to
      else closer s quote (at + 1))"
  by pat_completeness auto
termination
proof (relation "measure (\<lambda>(s, quote, at). length s - at)", goal_cases)
  case (3 s quote at to)
  then show ?case
    using after_line_bounds(1) [of at s] skip_while_ge [of "after_line s at" horizontal s] by simp
qed auto

declare closer.simps [simp del]

function bare_end :: "byte list \<Rightarrow> nat \<Rightarrow> nat" where
  "bare_end s at =
     (if at \<ge> length s then length s
      else if BYTE_CLASS (s ! at) AND BYTE_VALUE_END \<noteq> 0 then at
      else if escaped s (length s) at then bare_end s (at + 2)
      else bare_end s (at + 1))"
  by pat_completeness auto
termination
  by (relation "measure (\<lambda>(s, at). length s - at)") auto

declare bare_end.simps [simp del]

text \<open>
  The end of the value after the \<open>=\<close> at \<open>e\<close>: past the closer of the quote that opens it, unless
  the closer is the last byte of the text, or else the end of an unquoted value.
\<close>

definition quoted_value :: "byte list \<Rightarrow> nat \<Rightarrow> nat option" where
  "quoted_value s e =
     (if e + 1 < length s \<and> quote_mark (s ! (e + 1)) then
        (case closer s (s ! (e + 1)) (e + 2) of
           Some i \<Rightarrow> if i + 1 < length s then Some i else None
         | None \<Rightarrow> None)
      else None)"

definition value_over :: "byte list \<Rightarrow> nat \<Rightarrow> nat" where
  "value_over s e = (case quoted_value s e of Some i \<Rightarrow> i + 1 | None \<Rightarrow> bare_end s (e + 1))"

definition gap_over :: "byte list \<Rightarrow> nat \<Rightarrow> nat option" where
  "gap_over s b =
     (let at = skip_while horizontal s b
      in if at < length s \<and> new_line (s ! at) then
           let to = skip_while horizontal s (after_line s at)
           in if to < length s \<and> new_line (s ! to) then None else Some to
         else Some at)"

datatype move = Closes nat | Fails | Moves nat

definition member_at :: "byte list \<Rightarrow> nat \<Rightarrow> move" where
  "member_at s b =
     (let n = length s; c = s ! b
      in if c = 0x7D then Closes (b + 1)
         else if c = 0x3D \<or> quote_mark c \<or> c = 0x7B then Fails
         else if c = 0x2D \<and> member_boundary s n (b + 1) then Moves (b + 1)
         else if c = 0x23 \<or> c = 0x2E then
           if b + 1 < n \<and> \<not> name_terminator (s ! (b + 1)) then Moves (name_over s (b + 1)) else Fails
         else
           let e = name_over s (b + 1)
           in if e < n \<and> s ! e = 0x3D then Moves (value_over s e)
              else if member_boundary s n e then Moves e else Fails)"

lemma closer_bounds: "closer s quote at = Some i \<Longrightarrow> at \<le> i \<and> i < length s \<and> s ! i = quote"
proof (induction s quote at rule: closer.induct)
  case (1 s quote at)
  define to where "to = skip_while horizontal s (after_line s at)"
  have "at \<le> to"
    using after_line_bounds(1) [of at s] skip_while_ge [of "after_line s at" horizontal s] by (simp add: to_def)
  with 1(4) 1(1) 1(2) [OF _ _ _ _ to_def] 1(3) show ?case
    by (subst (asm) closer.simps) (auto simp: Let_def to_def [symmetric] split: if_splits)
qed

lemma bare_end_bounds: "at \<le> length s \<Longrightarrow> at \<le> bare_end s at \<and> bare_end s at \<le> length s"
proof (induction s at rule: bare_end.induct)
  case (1 s at)
  then show ?case by (subst (1 2) bare_end.simps) (auto simp: escaped_def)
qed

lemma value_over_gt: "e < length s \<Longrightarrow> e < value_over s e"
  using bare_end_bounds [of "e + 1" s]
  by (auto simp: value_over_def quoted_value_def split: option.splits if_splits dest: closer_bounds)

lemma gap_over_gt:
  assumes "gap_over s b = Some b'" and "b < length s" and "horizontal (s ! b) \<or> new_line (s ! b)"
  shows "b < b'"
proof -
  let ?at = "skip_while horizontal s b"
  have "b \<le> ?at" by (rule skip_while_ge)
  moreover have "?at < after_line s ?at" by (rule after_line_bounds)
  moreover have "after_line s ?at \<le> skip_while horizontal s (after_line s ?at)" by (rule skip_while_ge)
  moreover have "b < ?at" if "horizontal (s ! b)"
    using that assms(2) skip_while_ge [of "b + 1" horizontal s] by (subst skip_while.simps) simp
  moreover have "?at = b" if "\<not> horizontal (s ! b)"
    using that by (subst skip_while.simps) simp
  ultimately show ?thesis using assms
    by (cases "horizontal (s ! b)") (auto simp: gap_over_def Let_def split: if_splits)
qed

lemma name_over_bounds: "at \<le> name_over s at" "at \<le> length s \<Longrightarrow> name_over s at \<le> length s"
  by (simp_all add: name_over_def skip_while_ge skip_while_le)

lemma member_at_gt: "member_at s b = Moves b' \<Longrightarrow> b < length s \<Longrightarrow> b < b'"
  using name_over_bounds [of "b + 1" s] value_over_gt [of "name_over s (b + 1)" s]
  by (auto simp: member_at_def Let_def split: if_splits)

text \<open>Where the block that continues at a boundary closes: one past its brace.\<close>

function block_end :: "byte list \<Rightarrow> nat \<Rightarrow> nat option" where
  "block_end s b =
     (if b \<ge> length s then None
      else if horizontal (s ! b) \<or> new_line (s ! b) then
        (case gap_over s b of None \<Rightarrow> None | Some b \<Rightarrow> block_end s b)
      else
        (case member_at s b of Closes e \<Rightarrow> Some e | Fails \<Rightarrow> None | Moves b \<Rightarrow> block_end s b))"
  by pat_completeness auto
termination
  by (relation "measure (\<lambda>(s, b). length s - b)") (auto dest: gap_over_gt member_at_gt intro!: diff_less_mono2)

declare block_end.simps [simp del]

lemma member_at_closes: "member_at s b = Closes e \<Longrightarrow> e = b + 1 \<and> s ! b = 0x7D"
  by (auto simp: member_at_def Let_def split: if_splits)

lemma block_end_bounds: "block_end s b = Some e \<Longrightarrow> b < e \<and> e \<le> length s \<and> s ! (e - 1) = 0x7D"
proof (induction s b rule: block_end.induct)
  case (1 s b)
  have b: "b < length s" using 1(3) by (subst (asm) block_end.simps) (simp split: if_splits)
  show ?case
  proof (cases "horizontal (s ! b) \<or> new_line (s ! b)")
    case True
    then obtain b' where "gap_over s b = Some b'" and "block_end s b' = Some e"
      using 1(3) b by (subst (asm) block_end.simps) (auto split: option.splits)
    then show ?thesis using 1(1) [of b'] gap_over_gt [of s b b'] b True by fastforce
  next
    case False
    then have m: "(case member_at s b of Closes e \<Rightarrow> Some e | Fails \<Rightarrow> None | Moves b \<Rightarrow> block_end s b) = Some e"
      using 1(3) b by (subst (asm) block_end.simps) simp
    show ?thesis
    proof (cases "member_at s b")
      case (Moves b')
      then show ?thesis using 1(2) [of b'] member_at_gt [of s b b'] b False m by fastforce
    qed (use m b member_at_closes [of s b] in auto)
  qed
qed

subsection \<open>The classes of a byte\<close>

lemma horizontal_iff: "horizontal c \<longleftrightarrow> c = 0x20 \<or> c = 0x09"
  by (auto simp: horizontal_def BYTE_CLASS_def byte_bits)

lemma new_line_iff: "new_line c \<longleftrightarrow> c = 0x0A \<or> c = 0x0D"
  by (auto simp: new_line_def BYTE_CLASS_def byte_bits)

lemma name_terminator_iff:
  "name_terminator c \<longleftrightarrow> horizontal c \<or> new_line c \<or> c = 0x7D \<or> c = 0x7B \<or> quote_mark c \<or> c = 0x3D"
  by (auto simp: name_terminator_def horizontal_iff new_line_iff quote_mark_def BYTE_CLASS_def byte_bits)

lemma value_end_iff: "BYTE_CLASS c AND BYTE_VALUE_END \<noteq> 0 \<longleftrightarrow> horizontal c \<or> new_line c \<or> c = 0x7D"
  by (auto simp: horizontal_iff new_line_iff BYTE_CLASS_def byte_bits)

lemma quote_stop_iff:
  "BYTE_CLASS c AND (BYTE_QUOTE OR BYTE_ESCAPE OR BYTE_NEWLINE) = 0 \<longleftrightarrow> \<not> quote_mark c \<and> c \<noteq> 0x5C \<and> \<not> new_line c"
  by (auto simp: new_line_iff quote_mark_def BYTE_CLASS_def byte_bits)

lemma value_stop_iff:
  "BYTE_CLASS c AND (BYTE_VALUE_END OR BYTE_ESCAPE OR BYTE_ASSIGN) = 0 \<longleftrightarrow>
    \<not> horizontal c \<and> \<not> new_line c \<and> c \<noteq> 0x7D \<and> c \<noteq> 0x5C \<and> c \<noteq> 0x3D"
  by (auto simp: horizontal_iff new_line_iff BYTE_CLASS_def byte_bits)

subsection \<open>The scans find what the reference finds\<close>

lemma skip_while_ind:
  assumes "\<And>at. at < length s \<Longrightarrow> p (s ! at) \<Longrightarrow> f at = f (at + 1)"
  shows "f at = f (skip_while p s at)"
  using assms
proof (induction p s at rule: skip_while.induct)
  case (1 p s at)
  then show ?case by (subst skip_while.simps) simp
qed

lemma closer_run:
  assumes "quote_mark quote"
  shows "closer s quote at = closer s quote (scan_to_class BYTE_CLASS (BYTE_QUOTE OR BYTE_ESCAPE OR BYTE_NEWLINE) s at)"
  unfolding scan_to_class_skip quote_stop_iff
  by (rule skip_while_ind, subst closer.simps) (use assms in \<open>auto simp: escaped_def\<close>)

lemma quote_loop_is_closer:
  "quote_mark quote \<Longrightarrow> fst (quote_loop s quote at w) = (case closer s quote at of Some i \<Rightarrow> i | None \<Rightarrow> length s)"
proof (induction s quote at w rule: quote_loop.induct)
  case (1 s quote at w)
  note outer = 1
  define run where "run = scan_to_class BYTE_CLASS (BYTE_QUOTE OR BYTE_ESCAPE OR BYTE_NEWLINE) s at"
  define to where "to = skip_while horizontal s (after_line s run)"
  note IH = 1(1,3) [OF refl _ run_def refl _ refl refl, unfolded run_def [symmetric]]
    1(2) [OF refl _ run_def refl _ refl refl _ _ _ refl refl refl, folded to_def, unfolded run_def [symmetric]]
  have c: "closer s quote at = closer s quote run" unfolding run_def by (rule closer_run [OF outer(4)])
  have e: "closer s quote i = None" if "length s \<le> i" for i using that by (subst closer.simps) simp
  consider "at \<ge> length s \<or> run \<ge> length s" | "at < length s" "run < length s" by linarith
  then show ?case
  proof cases
    case 1
    then show ?thesis unfolding c using e [of at] e [of run] c
      by (subst quote_loop.simps) (auto simp: Let_def run_def [symmetric])
  next
    case 2
    then show ?thesis unfolding c using outer(4) IH
      by (subst quote_loop.simps, subst closer.simps)
        (auto simp: Let_def run_def [symmetric] to_def [symmetric])
  qed
qed

lemma bare_run:
  "bare_end s at = bare_end s (scan_to_class BYTE_CLASS (BYTE_VALUE_END OR BYTE_ESCAPE OR BYTE_ASSIGN) s at)"
  unfolding scan_to_class_skip value_stop_iff
  by (rule skip_while_ind, subst bare_end.simps) (auto simp: escaped_def value_end_iff)

lemma quote_close_is_closer:
  assumes "quote_close at p = (close, p')" and "quote_mark (ap_data p ! at)"
  shows "close = (case closer (ap_data p) (ap_data p ! at) (at + 1) of Some i \<Rightarrow> i | None \<Rightarrow> length (ap_data p))"
  using quote_loop_is_closer [OF assms(2), of "ap_data p" "at + 1" 0] assms(1)
  by (auto simp: quote_close_def split: prod.splits)

subsection \<open>What a memo word may say\<close>

text \<open>
  The name that ends at a position starts after the last byte that ends names.  An \<open>=\<close> is asked
  for its value only after a name that no \<open>#\<close> or \<open>.\<close> starts, so at any other \<open>=\<close> the memo may say
  anything.
\<close>

fun run_start :: "byte list \<Rightarrow> nat \<Rightarrow> nat" where
  "run_start s 0 = 0"
| "run_start s (Suc e) = (if name_terminator (s ! e) then Suc e else run_start s e)"

definition assigns :: "byte list \<Rightarrow> nat \<Rightarrow> bool" where
  "assigns s e \<longleftrightarrow> run_start s e < e \<and> s ! run_start s e \<noteq> 0x23 \<and> s ! run_start s e \<noteq> 0x2E"

lemma run_start_eq:
  assumes "b \<le> e" and "b = 0 \<or> name_terminator (s ! (b - 1))" and "\<And>i. b \<le> i \<Longrightarrow> i < e \<Longrightarrow> \<not> name_terminator (s ! i)"
  shows "run_start s e = b"
  using assms
proof (induction e)
  case (Suc e)
  then show ?case by (cases "b = Suc e") (auto simp: le_Suc_eq)
qed simp

definition word_of :: "nat option \<Rightarrow> int" where
  "word_of r = (case r of Some e \<Rightarrow> int e | None \<Rightarrow> INVALID)"

definition truth :: "byte list \<Rightarrow> nat \<Rightarrow> int" where
  "truth s at = word_of (block_end s (if s ! at = 0x3D then value_over s at else at))"

definition relevant :: "byte list \<Rightarrow> nat \<Rightarrow> bool" where
  "relevant s at \<longleftrightarrow> (s ! at = 0x3D \<longrightarrow> assigns s at)"

lemma word_of_known: "KNOWN (word_of (block_end s b))"
  by (auto simp: word_of_def KNOWN_def split: option.splits dest: block_end_bounds)

text \<open>The words of the memo, where it has them, for a text.\<close>

definition has_memo :: "byte list \<Rightarrow> attribute_parser \<Rightarrow> bool" where
  "has_memo s p \<longleftrightarrow> ap_data p = s \<and>
     (\<exists>ends. ap_ends p = Some ends \<and> length ends = length s + 1 \<and> (\<forall>at < length s. s ! at = 0x3D \<longrightarrow> sx_end (ends ! at) = 0))"

definition settled :: "byte list \<Rightarrow> attribute_parser \<Rightarrow> nat \<Rightarrow> bool" where
  "settled s p at \<longleftrightarrow> memo p at = 0 \<or> KNOWN (memo p at) \<and> memo p at \<le> int (length s) \<and> (relevant s at \<longrightarrow> memo p at = truth s at)"

lemma ends_of_simps [simp]:
  "ends_of (add_work k p) = ends_of p"
  "ends_of (p\<lparr>ap_ran_out := r\<rparr>) = ends_of p"
  "ends_of (p\<lparr>ap_oom := r\<rparr>) = ends_of p"
  "ends_of (p\<lparr>ap_scratch := w\<rparr>) = ends_of p"
  by (simp_all add: ends_of_def add_work_def)

lemma memo_simps [simp]:
  "memo (add_work k p) at = memo p at"
  "memo (p\<lparr>ap_ran_out := r\<rparr>) at = memo p at"
  "memo (p\<lparr>ap_oom := r\<rparr>) at = memo p at"
  "memo (p\<lparr>ap_scratch := w\<rparr>) at = memo p at"
  by (simp_all add: memo_def)

lemma has_memo_simps [simp]:
  "has_memo s (add_work k p) \<longleftrightarrow> has_memo s p"
  "has_memo s (p\<lparr>ap_ran_out := r\<rparr>) \<longleftrightarrow> has_memo s p"
  "has_memo s (p\<lparr>ap_scratch := w\<rparr>) \<longleftrightarrow> has_memo s p"
  by (simp_all add: has_memo_def add_work_def)

lemma has_memo_set [simp]: "has_memo s p \<Longrightarrow> at < length s \<Longrightarrow> has_memo s (set_memo at v p)"
  by (cases "s ! at = 0x3D") (auto simp: has_memo_def set_memo_def nth_list_update)

lemma memo_set:
  "has_memo s p \<Longrightarrow> at < length s \<Longrightarrow> c < length s \<Longrightarrow> memo (set_memo at v p) c = (if c = at then v else memo p c)"
  by (auto simp: has_memo_def set_memo_def memo_def ends_of_def nth_list_update)

lemma settled_set: "has_memo s p \<Longrightarrow> at < length s \<Longrightarrow> c < length s \<Longrightarrow> c \<noteq> at \<Longrightarrow> settled s (set_memo at v p) c = settled s p c"
  by (simp add: settled_def memo_set)

lemma settled_simps [simp]:
  "settled s (add_work k p) = settled s p"
  "settled s (p\<lparr>ap_ran_out := r\<rparr>) = settled s p"
  "settled s (p\<lparr>ap_scratch := w\<rparr>) = settled s p"
  by (simp_all add: settled_def fun_eq_iff)

text \<open>The chain as the list of the positions it runs through, the last pushed first.\<close>

primrec linked :: "attribute_parser \<Rightarrow> int \<Rightarrow> nat list \<Rightarrow> bool" where
  "linked p chain [] \<longleftrightarrow> chain = LINK_NONE"
| "linked p chain (c # cs) \<longleftrightarrow> chain = int c \<and> linked p (LINKED (memo p c)) cs"

lemma linked_simps [simp]:
  "linked (add_work k p) chain cs = linked p chain cs"
  "linked (p\<lparr>ap_ran_out := r\<rparr>) chain cs = linked p chain cs"
  by (induction cs arbitrary: chain) simp_all

lemma linked_set:
  "has_memo s p \<Longrightarrow> at < length s \<Longrightarrow> \<forall>c \<in> set cs. c < length s \<Longrightarrow> at \<notin> set cs \<Longrightarrow>
    linked (set_memo at v p) chain cs = linked p chain cs"
  by (induction cs arbitrary: chain) (simp_all add: memo_set)

text \<open>
  A walk under way: the positions on its chain are behind \<open>lim\<close>, latest first, and every one of
  them has the answer \<open>a\<close>; what the memo says elsewhere is settled.
\<close>

definition walking :: "byte list \<Rightarrow> attribute_parser \<Rightarrow> int \<Rightarrow> nat list \<Rightarrow> nat \<Rightarrow> int \<Rightarrow> bool" where
  "walking s p chain cs lim a \<longleftrightarrow>
     has_memo s p \<and> linked p chain cs \<and> sorted_wrt (>) cs \<and> (\<forall>c \<in> set cs. c < lim \<and> c < length s \<and> (relevant s c \<longrightarrow> truth s c = a)) \<and>
     (\<forall>c < length s. c \<notin> set cs \<longrightarrow> settled s p c)"

lemma walking_simps [simp]:
  "walking s (add_work k p) chain cs lim a \<longleftrightarrow> walking s p chain cs lim a"
  "walking s (p\<lparr>ap_ran_out := r\<rparr>) chain cs lim a \<longleftrightarrow> walking s p chain cs lim a"
  by (simp_all add: walking_def)

lemma walking_later: "walking s p chain cs lim a \<Longrightarrow> lim \<le> lim' \<Longrightarrow> walking s p chain cs lim' a"
  by (fastforce simp: walking_def)

lemma walking_length: "walking s p chain cs lim a \<Longrightarrow> length s \<le> lim' \<Longrightarrow> walking s p chain cs lim' a"
  by (fastforce simp: walking_def)

lemma walking_data: "walking s p chain cs lim a \<Longrightarrow> ap_data p = s"
  by (simp add: walking_def has_memo_def)

lemma walking_push:
  assumes "walking s p chain cs lim a" and "lim \<le> x" and "x < length s" and "relevant s x \<Longrightarrow> truth s x = a"
  shows "walking s (push_link chain x p) (int x) (x # cs) (x + 1) a"
proof -
  have "x \<notin> set cs" using assms(1,2) by (auto simp: walking_def)
  with assms show ?thesis
    by (auto simp: walking_def push_link_def memo_set linked_set settled_set LINK_def LINKED_def)
qed

lemma unquoted_end_walks:
  assumes "unquoted_end p chain at = (over, p', chain')" and "walking s p chain cs lim (word_of (block_end s (bare_end s at)))"
    and "lim \<le> at"
  shows "over = bare_end s at \<and> (\<exists>cs'. walking s p' chain' cs' over (word_of (block_end s over)))"
  using assms
proof (induction p chain at arbitrary: cs lim rule: unquoted_end.induct)
  case (1 p chain at)
  note outer = 1
  have s: "ap_data p = s" by (rule walking_data [OF 1(5)])
  define run where "run = scan_to_class BYTE_CLASS (BYTE_VALUE_END OR BYTE_ESCAPE OR BYTE_ASSIGN) s at"
  note IH = 1(1-3) [OF refl refl _ run_def [folded s] refl _ refl refl, unfolded s, folded run_def]
  have run: "at \<le> run" unfolding run_def by (rule scan_to_class_ge)
  have b: "bare_end s at = bare_end s run" unfolding run_def by (rule bare_run)
  consider "at \<ge> length s \<or> run \<ge> length s" | "at < length s" "run < length s" by linarith
  then show ?case
  proof cases
    case 1
    then have "bare_end s at = length s" unfolding b using b by (metis bare_end.simps)
    moreover have "over = length s \<and> p' = (if at \<ge> length s then p else add_work (run - at) p) \<and> chain' = chain"
      using 1 outer(4) by (subst (asm) unquoted_end.simps) (auto simp: Let_def s run_def [symmetric])
    ultimately show ?thesis using outer(5) walking_length by (metis order_refl walking_simps(1))
  next
    case 2
    define q where "q = add_work 1 (add_work (run - at) p)"
    let ?asks = "s ! run = 0x3D \<and> run + 1 < length s \<and> s ! (run + 1) \<noteq> 0x22 \<and> s ! (run + 1) \<noteq> 0x27 \<and>
      sx_assignment_end (ends_of q ! run) = 0"
    have E: "unquoted_end p chain at =
       (if BYTE_CLASS (s ! run) AND BYTE_VALUE_END \<noteq> 0 then (run, q, chain)
        else if escaped s (length s) run then unquoted_end q chain (run + 2)
        else if ?asks then unquoted_end (push_link chain run q) (int run) (run + 1) else unquoted_end q chain (run + 1))"
      using 2 by (subst unquoted_end.simps) (simp add: Let_def s run_def [symmetric] q_def)
    have B: "bare_end s run = (if BYTE_CLASS (s ! run) AND BYTE_VALUE_END \<noteq> 0 then run
        else if escaped s (length s) run then bare_end s (run + 2) else bare_end s (run + 1))"
      using 2 by (subst bare_end.simps) simp
    have w: "walking s q chain cs run (word_of (block_end s (bare_end s run)))"
      using outer(5,6) run walking_later unfolding b q_def by fastforce
    note IH = IH [folded q_def]
    show ?thesis
    proof (cases "BYTE_CLASS (s ! run) AND BYTE_VALUE_END \<noteq> 0")
      case True
      then show ?thesis using E outer(4) w B b by auto
    next
      case False
      note F = this
      show ?thesis
      proof (cases "escaped s (length s) run")
        case True
        then have "unquoted_end q chain (run + 2) = (over, p', chain')" "bare_end s run = bare_end s (run + 2)"
          using E B F outer(4) by auto
        then show ?thesis using IH(1) [OF _ _ F True, of cs run] w 2 b by auto
      next
        case False
        note F2 = this
        then have B: "bare_end s run = bare_end s (run + 1)" using B F by simp
        show ?thesis
        proof (cases ?asks)
          case True
          then have "truth s run = word_of (block_end s (bare_end s (run + 1)))"
            by (simp add: truth_def value_over_def quoted_value_def quote_mark_def)
          then have "walking s (push_link chain run q) (int run) (run # cs) (run + 1) (word_of (block_end s (bare_end s (run + 1))))"
            using walking_push [OF w order_refl 2(2)] B by simp
          moreover have "unquoted_end (push_link chain run q) (int run) (run + 1) = (over, p', chain')"
            using E F F2 True outer(4) by simp
          ultimately show ?thesis using IH(2) [OF _ _ F F2 True, of "run # cs" "run + 1"] 2 b B by auto
        next
          case False
          then have "unquoted_end q chain (run + 1) = (over, p', chain')" using E F F2 outer(4) by auto
          then show ?thesis using IH(3) [OF _ _ F F2 False, of cs run] w 2 b B by auto
        qed
      qed
    qed
  qed
qed

subsection \<open>A member\<close>

text \<open>
  A boundary follows a byte that ends names, or stands at one; and an \<open>=\<close> at a boundary is not
  one that an assignment asks about.
\<close>

definition boundary :: "byte list \<Rightarrow> nat \<Rightarrow> bool" where
  "boundary s b \<longleftrightarrow> 0 < b \<and>
     (b < length s \<longrightarrow> name_terminator (s ! (b - 1)) \<or> name_terminator (s ! b) \<and> (s ! b = 0x3D \<longrightarrow> \<not> assigns s b))"

definition answers :: "byte list \<Rightarrow> int \<Rightarrow> int \<times> int \<times> attribute_parser \<Rightarrow> bool" where
  "answers s a r \<longleftrightarrow> fst r = a \<and> (\<exists>cs lim. walking s (snd (snd r)) (fst (snd r)) cs lim a)"

definition turns :: "byte list \<Rightarrow> int \<Rightarrow> walk \<times> int \<times> attribute_parser \<Rightarrow> bool" where
  "turns s a r \<longleftrightarrow>
     (case r of
        (Answered v, chain, p) \<Rightarrow> answers s a (v, chain, p)
      | (Onward b, chain, p) \<Rightarrow> a = word_of (block_end s b) \<and> boundary s b \<and> (\<exists>cs. walking s p chain cs b a))"

lemma answersI: "walking s p chain cs lim a \<Longrightarrow> answers s a (a, chain, p)"
  by (auto simp: answers_def)

lemma bare_end_stop: "at \<le> length s \<Longrightarrow> bare_end s at < length s \<Longrightarrow> BYTE_CLASS (s ! bare_end s at) AND BYTE_VALUE_END \<noteq> 0"
proof (induction s at rule: bare_end.induct)
  case (1 s at)
  show ?case
    using 1(3,4) 1(1,2) by (subst (asm) (1) bare_end.simps, subst bare_end.simps) (auto simp: escaped_def split: if_splits)
qed

lemma boundary_bare: "at \<le> length s \<Longrightarrow> 0 < at \<Longrightarrow> boundary s (bare_end s at)"
  using bare_end_stop [of at s] bare_end_bounds [of at s]
  by (auto simp: boundary_def value_end_iff name_terminator_iff horizontal_iff new_line_iff)

lemma boundary_value: "e < length s \<Longrightarrow> boundary s (value_over s e)"
  using boundary_bare [of "e + 1" s]
  by (auto simp: value_over_def quoted_value_def boundary_def name_terminator_iff split: option.splits if_splits
      dest!: closer_bounds)

lemma quote_close_walks:
  "quote_close at p = (close, p') \<Longrightarrow> walking s p' chain cs lim a \<longleftrightarrow> walking s p chain cs lim a"
  by (auto simp: quote_close_def split: prod.splits)

lemma value_walk_turns:
  assumes "walking s p chain cs lim (word_of (block_end s (value_over s e)))" and "lim \<le> e" and "e < length s"
    and "s ! e = 0x3D" and "assigns s e"
  shows "turns s (word_of (block_end s (value_over s e))) (value_walk chain e p)"
proof -
  let ?a = "word_of (block_end s (value_over s e))"
  have s: "ap_data p = s" by (rule walking_data [OF assms(1)])
  have m: "sx_assignment_end (ends_of p ! e) = memo p e" by (simp add: memo_def s assms(4))
  have t: "truth s e = ?a" by (simp add: truth_def assms(4))
  show ?thesis
  proof (cases "KNOWN (memo p e)")
    case True
    have "e \<notin> set cs" using assms(1,2) by (auto simp: walking_def)
    then have "settled s p e" using assms(1,3) by (simp add: walking_def)
    then have "memo p e = ?a" using True assms(5) t by (auto simp: settled_def relevant_def KNOWN_def INVALID_def)
    then show ?thesis using True answersI [OF assms(1)] by (simp add: turns_def value_walk_def Let_def m)
  next
    case False
    let ?p = "push_link chain e p"
    have w: "walking s ?p (int e) (e # cs) (e + 1) ?a" by (rule walking_push [OF assms(1-3)]) (simp add: t)
    have bare: "turns s ?a (let (b, p, chain) = unquoted_end q (int e) (e + 1) in (Onward b, chain, p))"
      if "quoted_value s e = None" and "walking s q (int e) (e # cs) (e + 1) ?a" for q
    proof -
      have o: "value_over s e = bare_end s (e + 1)" using that(1) by (simp add: value_over_def)
      obtain over q' chain' where u: "unquoted_end q (int e) (e + 1) = (over, q', chain')" by (cases "unquoted_end q (int e) (e + 1)")
      from unquoted_end_walks [OF u that(2) [unfolded o]] boundary_value [OF assms(3)]
      show ?thesis unfolding u o by (auto simp: turns_def)
    qed
    show ?thesis
    proof (cases "e + 1 < length s \<and> quote_mark (s ! (e + 1))")
      case True
      obtain close q where q: "quote_close (e + 1) ?p = (close, q)" by (cases "quote_close (e + 1) ?p")
      have c: "close = (case closer s (s ! (e + 1)) (e + 2) of Some i \<Rightarrow> i | None \<Rightarrow> length s)"
        using quote_close_is_closer [OF q] True s by (simp cong: option.case_cong)
      have wq: "walking s q (int e) (e # cs) (e + 1) ?a" using w quote_close_walks [OF q] by simp
      have E: "value_walk chain e p =
          (if close < length s \<and> close + 1 \<noteq> length s
           then (Onward (close + 1), int e, q\<lparr>ap_ran_out := ap_ran_out q\<rparr>)
           else let (b, p, chain) = unquoted_end (q\<lparr>ap_ran_out := ap_ran_out q \<or> close < length s\<rparr>) (int e) (e + 1)
             in (Onward b, chain, p))"
        using True \<open>\<not> KNOWN (memo p e)\<close> q by (auto simp: value_walk_def Let_def m s)
      show ?thesis
      proof (cases "quoted_value s e")
        case None
        then have "\<not> (close < length s \<and> close + 1 \<noteq> length s)"
          using c True closer_bounds [of s "s ! (e + 1)" "e + 2"] by (auto simp: quoted_value_def split: option.splits if_splits)
        then show ?thesis unfolding E using bare [OF None] wq by auto
      next
        case (Some i)
        then have i: "close = i" "i + 1 < length s" "e + 2 \<le> i"
          using c closer_bounds [of s "s ! (e + 1)" "e + 2" i] by (auto simp: quoted_value_def split: option.splits if_splits)
        then have "value_over s e = i + 1" using Some by (simp add: value_over_def)
        then show ?thesis unfolding E using i boundary_value [OF assms(3)] walking_later [OF wq, of "i + 1"]
          by (auto simp: turns_def)
      qed
    next
      case False
      then have "quoted_value s e = None" by (auto simp: quoted_value_def)
      from bare [OF this w] show ?thesis using False \<open>\<not> KNOWN (memo p e)\<close> by (auto simp: value_walk_def Let_def m s)
    qed
  qed
qed

lemma skip_while_between: "at \<le> i \<Longrightarrow> i < skip_while p s at \<Longrightarrow> p (s ! i)"
proof (induction p s at rule: skip_while.induct)
  case (1 p s at)
  show ?case
  proof (cases "at < length s \<and> p (s ! at)")
    case True
    then have "i < skip_while p s (at + 1)" using 1(3) by (subst (asm) skip_while.simps) simp
    then show ?thesis using 1(1) True 1(2) by (cases "i = at") auto
  next
    case False
    then have "skip_while p s at = at" by (subst skip_while.simps) auto
    then show ?thesis using 1(2,3) by simp
  qed
qed

lemma name_over_in: "at \<le> i \<Longrightarrow> i < name_over s at \<Longrightarrow> \<not> name_terminator (s ! i)"
  unfolding name_over_def by (drule (1) skip_while_between)

lemma name_over_stop: "name_over s at < length s \<Longrightarrow> name_terminator (s ! name_over s at)"
  unfolding name_over_def using skip_while_stop by fastforce

lemma run_start_name:
  assumes "boundary s b" and "b < length s" and "\<not> name_terminator (s ! b)"
  shows "run_start s (name_over s (b + 1)) = b"
proof (rule run_start_eq)
  fix i assume "b \<le> i" "i < name_over s (b + 1)"
  then show "\<not> name_terminator (s ! i)" using assms(3) name_over_in [of "b + 1" i s] by (cases "i = b") auto
qed (use assms name_over_bounds(1) [of "b + 1" s] in \<open>auto simp: boundary_def\<close>)

lemma boundary_name:
  assumes "boundary s b" and "b < length s" and "\<not> name_terminator (s ! b)"
    and "s ! b = 0x23 \<or> s ! b = 0x2E \<or> s ! name_over s (b + 1) \<noteq> 0x3D"
  shows "boundary s (name_over s (b + 1))"
  using run_start_name [OF assms(1-3)] name_over_stop [of s "b + 1"] name_over_bounds(1) [of "b + 1" s] assms(4)
  by (auto simp: boundary_def assigns_def)

lemma scan_name_eq: "ap_data p = s \<Longrightarrow> scan_name (length s) at p = (name_over s at, add_work (name_over s at - at) p)"
  by (simp add: scan_name_def name_over_def Let_def)

lemma member_walk_turns:
  assumes "walking s p chain cs (b + 1) (word_of (block_end s b))" and "b < length s" and "boundary s b"
    and "\<not> (horizontal (s ! b) \<or> new_line (s ! b))"
  shows "turns s (word_of (block_end s b)) (member_walk chain b p)"
proof -
  let ?e = "name_over s (b + 1)"
  have s: "ap_data p = s" by (rule walking_data [OF assms(1)])
  have B: "block_end s b = (case member_at s b of Closes e \<Rightarrow> Some e | Fails \<Rightarrow> None | Moves b \<Rightarrow> block_end s b)"
    using assms(2,4) by (subst block_end.simps) simp
  have e: "b + 1 \<le> ?e" "?e \<le> length s" using name_over_bounds [of "b + 1" s] assms(2) by simp_all
  have on: "turns s (word_of (block_end s b)) (Onward b', chain, q)"
    if "member_at s b = Moves b'" "boundary s b'" "b + 1 \<le> b'" "walking s q chain cs (b + 1) (word_of (block_end s b))" for b' q
    using that(1,2) B walking_later [OF that(4,3)] by (auto simp: turns_def)
  have off: "turns s (word_of (block_end s b)) (Answered INVALID, chain, q)"
    if "member_at s b = Fails" "walking s q chain cs (b + 1) (word_of (block_end s b))" for q
    using that B answersI [OF that(2)] by (simp add: turns_def word_of_def)
  consider "name_terminator (s ! b)" | "s ! b = 0x2D" "member_boundary s (length s) (b + 1)"
    | "s ! b = 0x23 \<or> s ! b = 0x2E"
    | "\<not> name_terminator (s ! b)" "\<not> (s ! b = 0x2D \<and> member_boundary s (length s) (b + 1))" "s ! b \<noteq> 0x23" "s ! b \<noteq> 0x2E"
    by blast
  then show ?thesis
  proof cases
    case 1
    show ?thesis
    proof (cases "s ! b = 0x7D")
      case True
      then have "member_at s b = Closes (b + 1)" by (simp add: member_at_def Let_def)
      then have "word_of (block_end s b) = int b + 1" using B by (simp add: word_of_def)
      then show ?thesis using True answersI [OF assms(1)] by (simp add: member_walk_def Let_def s turns_def)
    next
      case False
      then have "s ! b = 0x3D \<or> quote_mark (s ! b) \<or> s ! b = 0x7B"
        using 1 assms(4) by (auto simp: name_terminator_iff)
      then show ?thesis using off [OF _ assms(1)] False
        by (auto simp: member_walk_def member_at_def Let_def s quote_mark_def)
    qed
  next
    case 2
    then have "boundary s (b + 1)"
      by (auto simp: boundary_def member_boundary_def value_end_iff name_terminator_iff horizontal_iff new_line_iff)
    then show ?thesis using on [of "b + 1" p] assms(1) 2 by (simp add: member_walk_def member_at_def Let_def s quote_mark_def)
  next
    case 3
    then have n: "\<not> name_terminator (s ! b)" by (auto simp: name_terminator_iff horizontal_iff new_line_iff quote_mark_def)
    have m: "member_at s b = (if b + 1 < length s \<and> \<not> name_terminator (s ! (b + 1)) then Moves ?e else Fails)"
      using 3 by (auto simp: member_at_def Let_def quote_mark_def)
    have w: "member_walk chain b p =
        (if b + 1 < length s \<and> \<not> name_terminator (s ! (b + 1)) then (Onward ?e, chain, add_work (?e - (b + 1)) p)
         else (Answered INVALID, chain, p))"
      using 3 by (auto simp: member_walk_def Let_def s scan_name_eq)
    show ?thesis unfolding w using on [of ?e] off m e boundary_name [OF assms(3,2) n] 3 assms(1) by auto
  next
    case 4
    then have x: "s ! b \<noteq> 0x7D" "\<not> (s ! b = 0x3D \<or> quote_mark (s ! b) \<or> s ! b = 0x7B)" by (auto simp: name_terminator_iff)
    let ?p = "add_work (?e - (b + 1)) p"
    have m: "member_at s b = (if ?e < length s \<and> s ! ?e = 0x3D then Moves (value_over s ?e)
        else if member_boundary s (length s) ?e then Moves ?e else Fails)"
      using 4 x by (auto simp: member_at_def Let_def)
    have w: "member_walk chain b p =
        (if \<not> (?e < length s \<and> s ! ?e = 0x3D) then
           if member_boundary s (length s) ?e then (Onward ?e, chain, ?p) else (Answered INVALID, chain, ?p)
         else value_walk chain ?e ?p)"
      using 4 x by (auto simp: member_walk_def Let_def s scan_name_eq quote_mark_def)
    show ?thesis
    proof (cases "?e < length s \<and> s ! ?e = 0x3D")
      case True
      have "assigns s ?e" using run_start_name [OF assms(3,2) 4(1)] 4 e by (simp add: assigns_def)
      then show ?thesis using value_walk_turns [of s ?p chain cs "b + 1" ?e] assms(1) e True B m w by simp
    next
      case False
      then show ?thesis unfolding w using on [of ?e ?p] off [of ?p] m e boundary_name [OF assms(3,2) 4(1)] assms(1)
        by (auto simp: boundary_def)
    qed
  qed
qed

subsection \<open>The walk\<close>

lemma skip_gap_over:
  assumes "ap_data p = s"
  shows "\<exists>k. skip_gap b p = (gap_over s b, add_work k p)"
proof -
  have a: "add_work k (add_work j p) = add_work (j + k) p" for j k by (simp add: add_work_def)
  show ?thesis using assms by (auto simp: skip_gap_def gap_over_def Let_def a)
qed

lemma skip_while_last: "at < skip_while p s at \<Longrightarrow> p (s ! (skip_while p s at - 1))"
  using skip_while_between [of at "skip_while p s at - 1" p s] by simp

lemma boundary_gap:
  assumes "gap_over s b = Some b'" and "b < length s" and "horizontal (s ! b) \<or> new_line (s ! b)"
  shows "boundary s b'"
proof -
  let ?at = "skip_while horizontal s b" and ?to = "skip_while horizontal s (after_line s (skip_while horizontal s b))"
  have t: "name_terminator c" if "horizontal c \<or> new_line c" for c using that by (auto simp: name_terminator_iff)
  show ?thesis
  proof (cases "?at < length s \<and> new_line (s ! ?at)")
    case True
    then have b': "b' = ?to" using assms(1) by (auto simp: gap_over_def Let_def split: if_splits)
    have "new_line (s ! (after_line s ?at - 1))" using True by (auto simp: after_line_def new_line_iff)
    moreover have "after_line s ?at \<le> ?to" by (rule skip_while_ge)
    ultimately show ?thesis unfolding b' boundary_def using t skip_while_last [of "after_line s ?at" horizontal s] after_line_bounds(1) [of ?at s]
      by (cases "after_line s ?at = ?to") auto
  next
    case False
    then have b': "b' = ?at" using assms(1) by (auto simp: gap_over_def Let_def split: if_splits)
    moreover have "b < ?at" using gap_over_gt [OF assms] b' by simp
    ultimately show ?thesis using t skip_while_last [of b horizontal s] by (auto simp: boundary_def)
  qed
qed

text \<open>No assignment asks about an \<open>=\<close> that stands at a boundary, and a word that is known there is true.\<close>

lemma boundary_assign: "boundary s b \<Longrightarrow> b < length s \<Longrightarrow> s ! b = 0x3D \<Longrightarrow> \<not> assigns s b"
  using run_start_eq [of b b s] by (auto simp: boundary_def assigns_def)

lemma known_is_truth:
  assumes "has_memo s p" and "b < length s" and "settled s p b" and "KNOWN (sx_end (ends_of p ! b))"
  shows "s ! b \<noteq> 0x3D \<and> sx_end (ends_of p ! b) = truth s b"
proof
  show b: "s ! b \<noteq> 0x3D"
    using assms(1,2,4) by (auto simp: has_memo_def ends_of_def KNOWN_def INVALID_def)
  then have "memo p b = sx_end (ends_of p ! b)" using assms(1) by (simp add: memo_def has_memo_def)
  then show "sx_end (ends_of p ! b) = truth s b"
    using assms(3,4) b by (auto simp: settled_def relevant_def KNOWN_def INVALID_def)
qed

lemma recognise_loop_answers:
  "walking s p chain cs b (word_of (block_end s b)) \<Longrightarrow> boundary s b \<Longrightarrow>
    answers s (word_of (block_end s b)) (recognise_loop chain b p)"
proof (induction chain b p arbitrary: cs rule: recognise_loop.induct)
  case (1 chain b p)
  let ?q = "add_work 1 p" and ?a = "word_of (block_end s b)"
  have s: "ap_data p = s" by (rule walking_data [OF 1(3)])
  consider "length s \<le> b" | "b < length s" "horizontal (s ! b) \<or> new_line (s ! b)"
    | "b < length s" "\<not> (horizontal (s ! b) \<or> new_line (s ! b))" by linarith
  then show ?case
  proof cases
    case A: 1
    then have "?a = INVALID" by (subst block_end.simps) (simp add: word_of_def)
    moreover have "walking s ?q chain cs b ?a" using 1(3) by simp
    ultimately show ?thesis using answersI A by (subst recognise_loop.simps) (simp add: s)
  next
    case 2
    obtain k where g: "skip_gap b ?q = (gap_over s b, add_work k ?q)" using skip_gap_over [of ?q s b] s by auto
    have B: "block_end s b = (case gap_over s b of None \<Rightarrow> None | Some b \<Rightarrow> block_end s b)"
      using 2 by (subst block_end.simps) simp
    have w: "walking s (add_work k ?q) chain cs b ?a" using 1(3) by simp
    show ?thesis
    proof (cases "gap_over s b")
      case None
      then have "?a = INVALID" using B by (simp add: word_of_def)
      then show ?thesis using 2 None g answersI [OF w] by (subst recognise_loop.simps) (simp add: s)
    next
      case (Some b')
      have a: "?a = word_of (block_end s b')" using B Some by simp
      have "walking s (add_work k ?q) chain cs b' (word_of (block_end s b'))"
        using walking_later [OF w, of b'] gap_over_gt [OF Some 2] a by simp
      then have "answers s (word_of (block_end s b')) (recognise_loop chain b' (add_work k ?q))"
        using 1(1) [OF refl refl _ _ g [symmetric] Some] boundary_gap [OF Some 2] 2 s by auto
      then show ?thesis unfolding a using 2 g Some by (subst recognise_loop.simps) (simp add: s)
    qed
  next
    case 3
    have n: "b \<notin> set cs" using 1(3) by (auto simp: walking_def)
    have u: "s ! b = 0x3D \<Longrightarrow> \<not> relevant s b" using boundary_assign [OF 1(4) 3(1)] by (simp add: relevant_def)
    have "settled s p b" "has_memo s p" using 1(3) n 3(1) by (simp_all add: walking_def)
    then have k: "?a = sx_end (ends_of ?q ! b)" if "KNOWN (sx_end (ends_of ?q ! b))"
      using known_is_truth [of s p b] 3(1) that by (auto simp: truth_def)
    show ?thesis
    proof (cases "KNOWN (sx_end (ends_of ?q ! b))")
      case True
      have "walking s ?q chain cs b (sx_end (ends_of ?q ! b))" using 1(3) k [OF True] by simp
      then show ?thesis unfolding k [OF True] using True 3 answersI by (subst recognise_loop.simps) (simp add: s)
    next
      case False
      obtain w chain' p' where m: "member_walk (int b) b (push_link chain b ?q) = (w, chain', p')" by (rule prod_cases3)
      have "walking s (push_link chain b ?q) (int b) (b # cs) (b + 1) ?a"
        using walking_push [of s ?q chain cs b ?a b] 1(3) 3(1) u by (cases "s ! b = 0x3D") (simp_all add: truth_def)
      from member_walk_turns [OF this 3(1) 1(4) 3(2)] have t: "turns s ?a (w, chain', p')" unfolding m .
      have E: "recognise_loop chain b p = (case w of Answered a \<Rightarrow> (a, chain', p') | Onward b \<Rightarrow> recognise_loop chain' b p')"
        using 3 False m by (subst recognise_loop.simps) (simp add: s split: walk.split)
      show ?thesis
      proof (cases w)
        case (Answered a)
        then show ?thesis using t E by (simp add: turns_def)
      next
        case (Onward b')
        then obtain cs' where "?a = word_of (block_end s b')" "boundary s b'" "walking s p' chain' cs' b' ?a"
          using t by (auto simp: turns_def)
        then show ?thesis using 1(2) [OF refl refl _ _ _ m [symmetric] Onward refl] 3 False E Onward s by auto
      qed
    qed
  qed
qed

subsection \<open>Writing back\<close>

lemma write_back_done: "write_back a LINK_NONE p = Some p"
  by (subst write_back.simps) simp

lemma write_back_step: "write_back a (int c) p = write_back a (LINKED (memo p c)) (set_memo c a p)"
  by (subst write_back.simps) (simp add: LINK_NONE_def)

lemma write_back_returns:
  "has_memo s p \<Longrightarrow> linked p chain cs \<Longrightarrow> distinct cs \<Longrightarrow> \<forall>c \<in> set cs. c < length s \<Longrightarrow>
    \<exists>p'. write_back a chain p = Some p' \<and> has_memo s p' \<and>
      (\<forall>c < length s. memo p' c = (if c \<in> set cs then a else memo p c))"
proof (induction cs arbitrary: chain p)
  case Nil
  then show ?case by (simp add: write_back_done)
next
  case (Cons c cs)
  then have l: "linked (set_memo c a p) (LINKED (memo p c)) cs" by (simp add: linked_set)
  from Cons.IH [OF _ l] Cons.prems obtain p' where
    "write_back a (LINKED (memo p c)) (set_memo c a p) = Some p'" "has_memo s p'"
    "\<forall>i < length s. memo p' i = (if i \<in> set cs then a else memo (set_memo c a p) i)"
    by auto
  then show ?case using Cons.prems by (auto simp: write_back_step memo_set)
qed

text \<open>Between two queries the chain is empty: every word is settled.\<close>

definition memo_ok :: "byte list \<Rightarrow> attribute_parser \<Rightarrow> bool" where
  "memo_ok s p \<longleftrightarrow> has_memo s p \<and> (\<forall>c < length s. settled s p c)"

subsection \<open>Recognition leaves the workspace\<close>

definition kept :: "attribute_parser \<Rightarrow> attribute_parser \<Rightarrow> bool" where
  "kept p p' \<longleftrightarrow> ap_scratch p' = ap_scratch p \<and> ap_oom p' = ap_oom p"

lemma kept_simps [simp]:
  "kept p p"
  "kept p (add_work k q) = kept p q" "kept p (push_link chain x q) = kept p q" "kept p (set_memo x v q) = kept p q"
  "kept p (q\<lparr>ap_ran_out := r\<rparr>) = kept p q"
  "kept (add_work k p) q = kept p q" "kept (push_link chain x p) q = kept p q" "kept (set_memo x v p) q = kept p q"
  "kept (p\<lparr>ap_ran_out := r\<rparr>) q = kept p q"
  by (simp_all add: kept_def add_work_def push_link_def set_memo_def)

lemma kept_trans: "kept p q \<Longrightarrow> kept q r \<Longrightarrow> kept p r"
  by (simp add: kept_def)

lemma quote_close_kept: "quote_close at p = (close, p') \<Longrightarrow> kept p p'"
  by (auto simp: quote_close_def split: prod.splits)

lemma unquoted_end_kept: "unquoted_end p chain at = (over, p', chain') \<Longrightarrow> kept p p'"
proof (induction p chain at rule: unquoted_end.induct)
  case (1 p chain at)
  let ?run = "scan_to_class BYTE_CLASS (BYTE_VALUE_END OR BYTE_ESCAPE OR BYTE_ASSIGN) (ap_data p) at"
  note IH = 1(1-3) [OF refl refl _ refl refl _ refl refl]
  show ?case
    using 1(4) IH by (subst (asm) unquoted_end.simps) (auto simp: Let_def split: if_splits)
qed

lemma value_walk_kept: "value_walk chain e p = (w, chain', p') \<Longrightarrow> kept p p'"
  by (auto simp: value_walk_def Let_def split: if_splits prod.splits
      dest!: quote_close_kept unquoted_end_kept intro: kept_trans)

lemma member_walk_kept: "member_walk chain b p = (w, chain', p') \<Longrightarrow> kept p p'"
  by (auto simp: member_walk_def scan_name_def Let_def split: if_splits prod.splits dest!: value_walk_kept)

lemma recognise_loop_kept: "recognise_loop chain b p = (a, chain', p') \<Longrightarrow> kept p p'"
proof (induction chain b p rule: recognise_loop.induct)
  case (1 chain b p)
  obtain k where g: "skip_gap b (add_work 1 p) = (gap_over (ap_data p) b, add_work k (add_work 1 p))"
    using skip_gap_over [of "add_work 1 p" "ap_data p" b] by auto
  show ?case
    using 1(3) g 1(1) [OF refl refl _ _ g [symmetric]] 1(2) [OF refl refl]
    by (subst (asm) recognise_loop.simps)
      (auto simp: Let_def split: if_splits option.splits walk.splits prod.splits dest!: member_walk_kept intro: kept_trans)
qed

lemma write_back_kept: "linked p chain cs \<Longrightarrow> has_memo s p \<Longrightarrow> distinct cs \<Longrightarrow> \<forall>c \<in> set cs. c < length s \<Longrightarrow>
    write_back a chain p = Some p' \<Longrightarrow> kept p p'"
proof (induction cs arbitrary: chain p)
  case (Cons c cs)
  then have "linked (set_memo c a p) (LINKED (memo p c)) cs" by (simp add: linked_set)
  with Cons.IH [of "set_memo c a p" "LINKED (memo p c)"] Cons.prems show ?case by (simp add: write_back_step)
qed (simp add: write_back_done)

lemma write_back_settles:
  assumes "answers s a (a', chain, p)" and "KNOWN a" and "a \<le> int (length s)"
  shows "\<exists>p'. write_back a' chain p = Some p' \<and> memo_ok s p' \<and> kept p p'"
proof -
  obtain cs lim where w: "walking s p chain cs lim a" and a: "a' = a" using assms(1) by (auto simp: answers_def)
  have "sorted_wrt (>) cs \<Longrightarrow> distinct cs" for cs :: "nat list" by (induction cs) auto
  with w have "distinct cs" by (simp add: walking_def)
  with write_back_returns [of s p chain cs a] w obtain p' where
    "write_back a chain p = Some p'" "has_memo s p'" "\<forall>c < length s. memo p' c = (if c \<in> set cs then a else memo p c)"
    by (auto simp: walking_def)
  moreover have "kept p p'" using write_back_kept [OF _ _ \<open>distinct cs\<close> _ calculation(1)] w by (auto simp: walking_def)
  ultimately show ?thesis using w assms(2,3) a by (fastforce simp: memo_ok_def walking_def settled_def)
qed

lemma recognise_answers:
  assumes "memo_ok s p" and "boundary s b"
  shows "\<exists>p'. recognise b p = Some (word_of (block_end s b), p') \<and> memo_ok s p' \<and> kept p p'"
proof -
  have "walking s p LINK_NONE [] b (word_of (block_end s b))" using assms(1) by (simp add: walking_def memo_ok_def)
  from recognise_loop_answers [OF this assms(2)] obtain a chain q where
    r: "recognise_loop LINK_NONE b p = (a, chain, q)" and "answers s (word_of (block_end s b)) (a, chain, q)"
    by (metis prod_cases3)
  moreover have "word_of (block_end s b) \<le> int (length s)"
    by (auto simp: word_of_def INVALID_def split: option.split dest: block_end_bounds)
  ultimately show ?thesis using write_back_settles [of s _ a chain q] word_of_known recognise_loop_kept [OF r]
    by (fastforce simp: recognise_def answers_def intro: kept_trans)
qed

text \<open>What a query answers from the text alone.\<close>

definition answer_at :: "byte list \<Rightarrow> int \<Rightarrow> int" where
  "answer_at s q =
     (if q < 0 \<or> q \<ge> int (length s) \<or> s ! nat q \<noteq> 0x7B then 0
      else case block_end s (nat q + 1) of Some e \<Rightarrow> int e | None \<Rightarrow> 0)"

definition memo_granted :: "attribute_allocs \<Rightarrow> byte list \<Rightarrow> bool" where
  "memo_granted al s \<longleftrightarrow> length s + 1 \<le> SIZE_MAX div SUFFIX_SIZE \<and> aa_ends al (length s + 1)"

definition recogniser_ok :: "byte list \<Rightarrow> attribute_parser \<Rightarrow> bool" where
  "recogniser_ok s p \<longleftrightarrow> ap_data p = s \<and> (ap_ends p = None \<or> memo_ok s p)"

lemma work_simps [simp]:
  "ap_ends (add_work k p) = ap_ends p" "ap_oom (add_work k p) = ap_oom p" "ap_scratch (add_work k p) = ap_scratch p"
  "memo_ok s (add_work k p) = memo_ok s p" "recogniser_ok s (add_work k p) = recogniser_ok s p"
  by (simp_all add: recogniser_ok_def memo_ok_def) (simp_all add: add_work_def)

lemma memo_ready_ok:
  assumes "recogniser_ok s p"
  shows "if memo_granted al s \<or> ap_ends p \<noteq> None then \<exists>p'. memo_ready al p = Some p' \<and> memo_ok s p' \<and> kept p p'
    else memo_ready al p = None"
proof (cases "ap_ends p")
  case None
  then show ?thesis using assms
    by (auto simp: recogniser_ok_def memo_ready_def Let_def memo_granted_def memo_ok_def has_memo_def settled_def memo_def
        ends_of_def kept_def simp del: replicate_Suc)
next
  case (Some ends)
  then show ?thesis using assms by (simp add: memo_ready_def Let_def recogniser_ok_def)
qed

lemma recogniser_data: "recogniser_ok s p \<Longrightarrow> ap_data p = s"
  by (simp add: recogniser_ok_def)

text \<open>A query of a recogniser that never failed, and of one that has.\<close>

lemma attributes_end_answers:
  assumes "recogniser_ok s p" and "\<not> ap_oom p" and "memo_granted al s \<or> ap_ends p \<noteq> None"
  shows "\<exists>p'. attributes_end al p q = Some (answer_at s q, p') \<and> recogniser_ok s p' \<and> kept p p'"
proof (cases "q < 0 \<or> q \<ge> int (length s) \<or> s ! nat q \<noteq> 0x7B")
  case True
  then show ?thesis using assms
    by (auto simp: attributes_end_def Let_def answer_at_def recogniser_data)
next
  case False
  let ?p = "add_work 1 p"
  have "recogniser_ok s ?p" using assms(1) by simp
  with memo_ready_ok [of s ?p al] assms(3) obtain r where r: "memo_ready al ?p = Some r" "memo_ok s r" "kept p r" by auto
  have "boundary s (nat q + 1)" using False by (auto simp: boundary_def name_terminator_iff)
  from recognise_answers [OF r(2) this] obtain p' where
    "recognise (nat q + 1) r = Some (word_of (block_end s (nat q + 1)), p')" "memo_ok s p'" "kept r p'" by blast
  moreover have "ap_data p = s" by (rule recogniser_data [OF assms(1)])
  moreover have "kept p p'" using kept_trans [OF r(3) calculation(3)] .
  moreover have "recogniser_ok s p'" using calculation(2) by (simp add: recogniser_ok_def memo_ok_def has_memo_def)
  ultimately show ?thesis using False assms(2) r(1)
    by (simp add: attributes_end_def Let_def answer_at_def word_of_def INVALID_def split: option.split)
qed

lemma attributes_end_refused:
  assumes "recogniser_ok s p" and "ap_oom p \<or> \<not> (memo_granted al s \<or> ap_ends p \<noteq> None)"
  shows "\<exists>q. attributes_end al p start = Some (0, q) \<and> (ap_oom q \<or> answer_at s start = 0)"
proof (cases "ap_oom p")
  case True
  then show ?thesis by (simp add: attributes_end_def Let_def)
next
  case False
  then have "memo_ready al (add_work 1 p) = None" using memo_ready_ok [of s "add_work 1 p" al] assms by simp
  then show ?thesis using False recogniser_data [OF assms(1)]
    by (auto simp: attributes_end_def Let_def answer_at_def add_work_def)
qed

text \<open>Any sequence of queries of one recogniser.\<close>

fun query_all :: "attribute_allocs \<Rightarrow> int list \<Rightarrow> attribute_parser \<Rightarrow> (int list \<times> attribute_parser) option" where
  "query_all al [] p = Some ([], p)"
| "query_all al (q # qs) p =
     (case attributes_end al p q of
        None \<Rightarrow> None
      | Some (a, p) \<Rightarrow> map_option (\<lambda>(as, p). (a # as, p)) (query_all al qs p))"

lemma query_all_answers:
  assumes "memo_granted al s"
  shows "recogniser_ok s p \<Longrightarrow> \<not> ap_oom p \<Longrightarrow>
    \<exists>p'. query_all al qs p = Some (map (answer_at s) qs, p') \<and> recogniser_ok s p' \<and> kept p p'"
proof (induction qs arbitrary: p)
  case (Cons q qs)
  from attributes_end_answers [OF Cons.prems disjI1 [OF assms], of q] obtain p1 where
    p1: "attributes_end al p q = Some (answer_at s q, p1)" "recogniser_ok s p1" "kept p p1" by blast
  with Cons.IH [of p1] Cons.prems(2) obtain p2 where
    "query_all al qs p1 = Some (map (answer_at s) qs, p2)" "recogniser_ok s p2" "kept p1 p2" by (auto simp: kept_def)
  with p1 show ?case using kept_trans by auto
qed simp

lemma query_all_refused:
  assumes "\<not> memo_granted al s"
  shows "ap_data p = s \<Longrightarrow> ap_ends p = None \<Longrightarrow> \<exists>p'. query_all al qs p = Some (map (\<lambda>q. 0) qs, p')"
proof (induction qs arbitrary: p)
  case (Cons q qs)
  have "\<exists>p1. attributes_end al p q = Some (0, p1) \<and> ap_data p1 = s \<and> ap_ends p1 = None"
    using Cons.prems assms memo_ready_ok [of s "add_work 1 p" al]
    by (auto simp: attributes_end_def Let_def recogniser_ok_def)
  then obtain p1 where "attributes_end al p q = Some (0, p1)" "ap_data p1 = s" "ap_ends p1 = None" by blast
  with Cons.IH [of p1] show ?case by auto
qed simp

lemma fresh_ok: "recogniser_ok s (fresh_parser s w)" "\<not> ap_oom (fresh_parser s w)"
  by (simp_all add: recogniser_ok_def fresh_parser_def)

subsection \<open>Properties\<close>

text \<open>
  C9: Whatever is asked of a recogniser, in any order and however often, every query returns and
  is answered as by the byte-by-byte reference with no memo: the place one past the brace that
  closes the block opened there, or 0.  When the memo cannot be had every answer is 0.
\<close>

theorem attribute_queries_answer:
  "\<exists>p. query_all al qs (fresh_parser s w) =
     Some (map (\<lambda>q. if memo_granted al s then answer_at s q else 0) qs, p)"
proof (cases "memo_granted al s")
  case True
  then show ?thesis using query_all_answers [OF True fresh_ok] by auto
next
  case False
  then show ?thesis using query_all_refused [OF False, of "fresh_parser s w" qs] by (simp add: fresh_parser_def)
qed

end
