(* ===== verification/AttributeText.thy ===== *)
theory AttributeText
  imports AttributeMemo
begin

text \<open>
  What the bytes of an attribute block stand for: the text of a quoted value and of an unquoted
  one, with the decoding loops of the reader appending exactly that text and stopping where
  recognition stopped, and the members a block names, in order.
\<close>

subsection \<open>Inside a block\<close>

text \<open>Where the text goes on after a line ending and the indentation of the next line.\<close>

definition after_indent :: "byte list \<Rightarrow> nat \<Rightarrow> nat" where
  "after_indent s y = skip_while horizontal s (after_line s y)"

lemma after_indent_gt: "y < after_indent s y"
  using after_line_bounds(1) [of y s] skip_while_ge [of "after_line s y" horizontal s] by (simp add: after_indent_def)

lemma after_indent_le:
  assumes "y < i" and "i < length s" and "\<not> horizontal (s ! i)" and "\<not> new_line (s ! i)"
  shows "after_indent s y \<le> i"
proof (rule ccontr)
  have "after_line s y \<le> i"
  proof (cases "s ! (y + 1) = 0x0A \<and> i = y + 1")
    case True
    then show ?thesis using assms(4) by (simp add: new_line_iff)
  next
    case False
    then show ?thesis using assms(1) by (auto simp: after_line_def)
  qed
  moreover assume "\<not> ?thesis"
  ultimately show False using skip_while_between [of "after_line s y" i horizontal s] assms(3) by (simp add: after_indent_def)
qed

text \<open>A line ending inside an indented gap is one that starts the gap.\<close>

lemma newline_in_gap:
  assumes "y < after_indent s x" and "x \<le> y" and "new_line (s ! y)" and "new_line (s ! x)"
  shows "after_indent s y = after_indent s x"
proof -
  have "y < after_line s x"
    using skip_while_between [of "after_line s x" y horizontal s] assms(1,3)
    by (force simp: after_indent_def horizontal_iff new_line_iff)
  then have "y = x \<or> y = x + 1 \<and> s ! x = 0x0D \<and> s ! y = 0x0A"
    using assms(2) by (cases "y = x") (auto simp: after_line_def less_Suc_eq split: if_splits)
  then show ?thesis using \<open>y < after_line s x\<close> by (auto simp: after_indent_def after_line_def split: if_splits)
qed

lemma punct_not_newline: "ispunct c \<Longrightarrow> \<not> new_line c"
  by (auto simp: new_line_iff ispunct_interval)

lemma closer_no_blank:
  "closer s quote at = Some i \<Longrightarrow> quote_mark quote \<Longrightarrow> at \<le> y \<Longrightarrow> y < i \<Longrightarrow> new_line (s ! y) \<Longrightarrow>
    after_indent s y \<le> i \<and> \<not> new_line (s ! after_indent s y)"
proof (induction s quote at rule: closer.induct)
  case (1 s quote at)
  note IH = 1(1-3) and prems = 1(4-)
  have i: "i < length s" "s ! i = quote" using closer_bounds [OF prems(1)] by simp_all
  have q: "\<not> horizontal (s ! i)" "\<not> new_line (s ! i)" using i prems(2) by (auto simp: quote_mark_def horizontal_iff new_line_iff)
  have le: "after_indent s y \<le> i" by (rule after_indent_le [OF prems(4) i(1) q])
  have at: "at < length s" "s ! at \<noteq> quote" using prems(1,3,4) by (auto simp: closer.simps [of s quote at] split: if_splits)
  show ?case
  proof (cases "escaped s (length s) at")
    case True
    then have "closer s quote (at + 2) = Some i" using prems(1) at by (subst (asm) closer.simps) simp
    moreover have "y \<noteq> at" "y \<noteq> at + 1" using True prems(5) punct_not_newline by (auto simp: escaped_def new_line_iff)
    ultimately show ?thesis using IH(1) True at prems by simp
  next
    case False
    note F = this
    show ?thesis
    proof (cases "new_line (s ! at)")
      case True
      then have c: "\<not> (after_indent s at < length s \<and> new_line (s ! after_indent s at))" "closer s quote (after_indent s at) = Some i"
        using prems(1) at F by (auto simp: closer.simps [of s quote at] Let_def after_indent_def split: if_splits)
      show ?thesis
      proof (cases "y < after_indent s at")
        case True
        then have "after_indent s y = after_indent s at" using newline_in_gap prems(3,5) \<open>new_line (s ! at)\<close> by blast
        then show ?thesis using le c(1) i(1) by auto
      next
        case False
        then show ?thesis using IH(2) [OF _ _ F True refl, folded after_indent_def] c at prems by auto
      qed
    next
      case False
      then have "closer s quote (at + 1) = Some i" using prems(1) at F by (subst (asm) closer.simps) simp
      moreover have "y \<noteq> at" using False prems(5) by auto
      ultimately show ?thesis using IH(3) F False at prems by simp
    qed
  qed
qed

lemma bare_end_in: "at \<le> y \<Longrightarrow> y < bare_end s at \<Longrightarrow> \<not> new_line (s ! y)"
proof (induction s at rule: bare_end.induct)
  case (1 s at)
  note IH = 1(1,2) and prems = 1(3,4)
  consider "length s \<le> at" | "at < length s" "BYTE_CLASS (s ! at) AND BYTE_VALUE_END \<noteq> 0"
    | "at < length s" "\<not> BYTE_CLASS (s ! at) AND BYTE_VALUE_END \<noteq> 0" by linarith
  then show ?case
  proof cases
    case 3
    then have n: "\<not> new_line (s ! at)" by (simp add: value_end_iff)
    show ?thesis
    proof (cases "escaped s (length s) at")
      case True
      then have "y < bare_end s (at + 2)" using prems(2) 3 by (subst (asm) bare_end.simps) simp
      then show ?thesis using IH(1) 3 True prems(1) n punct_not_newline
        by (cases "y = at \<or> y = at + 1") (auto simp: escaped_def)
    next
      case False
      then have "y < bare_end s (at + 1)" using prems(2) 3 by (subst (asm) bare_end.simps) simp
      then show ?thesis using IH(2) 3 False prems(1) n by (cases "y = at") auto
    qed
  qed (use prems in \<open>auto simp: bare_end.simps [of s at] split: if_splits\<close>)
qed

lemma name_no_newline: "at \<le> y \<Longrightarrow> y < name_over s at \<Longrightarrow> \<not> new_line (s ! y)"
  using name_over_in [of at y s] by (auto simp: name_terminator_iff)

lemma member_no_blank:
  assumes "member_at s b = Moves b'" and "b < length s" and "\<not> new_line (s ! b)"
    and "b \<le> y" and "y < b'" and "new_line (s ! y)"
  shows "after_indent s y < b' \<and> \<not> new_line (s ! after_indent s y)"
proof -
  let ?e = "name_over s (b + 1)"
  have y: "b + 1 \<le> y" using assms(3,4,6) by (cases "y = b") auto
  then have n: "\<not> y < ?e" using name_no_newline assms(6) by blast
  then have e: "?e < length s" "s ! ?e = 0x3D" and b': "b' = value_over s ?e"
    using assms(1,5) y by (auto simp: member_at_def Let_def split: if_splits)
  have y: "?e + 1 \<le> y" using n e(2) assms(6) by (cases "y = ?e") (auto simp: new_line_iff)
  show ?thesis
  proof (cases "quoted_value s ?e")
    case None
    then show ?thesis using bare_end_in [OF y] assms(5,6) by (simp add: b' value_over_def)
  next
    case (Some i)
    then have c: "closer s (s ! (?e + 1)) (?e + 2) = Some i" "quote_mark (s ! (?e + 1))"
      by (auto simp: quoted_value_def split: if_splits option.splits)
    have "y \<noteq> ?e + 1" "y \<noteq> i" using assms(6) c closer_bounds [OF c(1)] by (auto simp: quote_mark_def new_line_iff)
    then have "?e + 2 \<le> y" "y < i" using y assms(5) Some by (auto simp: b' value_over_def)
    from closer_no_blank [OF c this assms(6)] show ?thesis using Some by (auto simp: b' value_over_def)
  qed
qed

text \<open>A block holds no blank line.\<close>

lemma block_no_blank:
  "block_end s b = Some f \<Longrightarrow> b \<le> y \<Longrightarrow> new_line (s ! y) \<Longrightarrow> after_indent s y < f \<Longrightarrow> \<not> new_line (s ! after_indent s y)"
proof (induction s b rule: block_end.induct)
  case (1 s b)
  have f: "f \<le> length s" using block_end_bounds [OF 1(3)] by simp
  have b: "b < length s" using 1(3) by (subst (asm) block_end.simps) (simp split: if_splits)
  show ?case
  proof (cases "horizontal (s ! b) \<or> new_line (s ! b)")
    case True
    then obtain b' where g: "gap_over s b = Some b'" and e: "block_end s b' = Some f"
      using 1(3) b by (subst (asm) block_end.simps) (auto split: option.splits)
    show ?thesis
    proof (cases "b' \<le> y")
      case True
      then show ?thesis using 1(1) [OF _ _ g e _ 1(5,6)] b \<open>horizontal (s ! b) \<or> new_line (s ! b)\<close> by simp
    next
      case False
      let ?at = "skip_while horizontal s b"
      have "\<not> y < ?at" using skip_while_between [of b y horizontal s] 1(4,5) by (auto simp: new_line_iff horizontal_iff)
      then have at: "new_line (s ! ?at)" "b' = after_indent s ?at" "\<not> (b' < length s \<and> new_line (s ! b'))"
        using g False by (auto simp: gap_over_def Let_def after_indent_def split: if_splits)
      then have "after_indent s y = b'" using newline_in_gap [of y s ?at] False \<open>\<not> y < ?at\<close> 1(5) by simp
      then show ?thesis using at(3) 1(6) f by simp
    qed
  next
    case False
    then have m: "(case member_at s b of Closes e \<Rightarrow> Some e | Fails \<Rightarrow> None | Moves b \<Rightarrow> block_end s b) = Some f"
      using 1(3) b by (subst (asm) block_end.simps) simp
    show ?thesis
    proof (cases "member_at s b")
      case (Closes e)
      then have "f = b + 1" using m member_at_closes by auto
      then show ?thesis using 1(4,6) after_indent_gt [of y s] by simp
    next
      case (Moves b')
      show ?thesis
      proof (cases "b' \<le> y")
        case True
        then show ?thesis using 1(2) [OF _ False Moves _ _ 1(5,6)] b m Moves by simp
      next
        case False
        then show ?thesis using member_no_blank [OF Moves b _ 1(4) _ 1(5)] \<open>\<not> (horizontal (s ! b) \<or> new_line (s ! b))\<close> by simp
      qed
    qed (use m in simp)
  qed
qed

subsection \<open>What a reference takes\<close>

text \<open>The names of the entity table are letters and digits, as those of the generated one are.\<close>

definition plain_names :: "entity_table \<Rightarrow> bool" where
  "plain_names ents \<longleftrightarrow> ents \<noteq> [] \<and> (\<forall>e \<in> set ents. \<forall>c \<in> set (fst e). isalnum c)"

definition plain :: "byte \<Rightarrow> bool" where
  "plain c \<longleftrightarrow> \<not> quote_mark c \<and> c \<noteq> 0x5C \<and> \<not> new_line c"

lemma plain_alnum: "isalnum c \<Longrightarrow> plain c"
  by (auto simp: plain_def quote_mark_def new_line_iff isalnum_iff isdigit_interval isalpha_interval)

lemma plain_digit: "hou_isdigit c \<Longrightarrow> plain c" "hou_isxdigit c \<Longrightarrow> plain c"
  by (auto simp: plain_def quote_mark_def new_line_iff hou_isdigit_def hou_isxdigit_def asc_def word_le_nat_alt)

lemma dec_loop_run: "dec_loop bs cp = (c, n) \<Longrightarrow> \<forall>j < n. plain (bs ! j)"
proof (induction bs cp arbitrary: c n rule: dec_loop.induct)
  case (2 b bs cp)
  then show ?case by (auto simp: nth_Cons plain_digit Let_def split: if_splits prod.splits nat.split)
qed simp

lemma hex_loop_run: "hex_loop bs cp = (c, n) \<Longrightarrow> \<forall>j < n. plain (bs ! j)"
proof (induction bs cp arbitrary: c n rule: hex_loop.induct)
  case (2 b bs cp)
  then show ?case by (auto simp: nth_Cons plain_digit Let_def split: if_splits prod.splits nat.split)
qed simp

lemma numeric_ref_run:
  assumes "numeric_ref src = (c, k, m, i)" and "src ! 0 = 0x23" and "3 \<le> length src" and "i < length src" and "j < i"
  shows "plain (src ! j)"
proof -
  have p: "plain 0x23" "plain 0x78" "plain 0x58" by (simp_all add: plain_def quote_mark_def new_line_iff)
  show ?thesis
  proof (cases "hou_isdigit (src ! 1)")
    case True
    then obtain n where d: "dec_loop (drop 1 src) 0 = (c, n)" "i = 1 + n"
      using assms(1) by (auto simp: numeric_ref_def split: prod.splits)
    show ?thesis
    proof (cases j)
      case (Suc k)
      then show ?thesis using dec_loop_run [OF d(1)] assms(4,5) d(2) by (auto simp: nth_drop)
    qed (use p assms(2) in simp)
  next
    case False
    note F = this
    show ?thesis
    proof (cases "src ! 1 = 0x78 \<or> src ! 1 = 0x58")
      case True
      then obtain n where d: "hex_loop (drop 2 src) 0 = (c, n)" "i = 2 + n"
        using assms(1) F by (auto simp: numeric_ref_def split: prod.splits)
      consider "j = 0" | "j = 1" | k where "j = 2 + k" by (metis One_nat_def Suc_1 Suc_lessI add_diff_inverse_nat gr0I less_2_cases_iff)
      then show ?thesis
      proof cases
        case (3 k)
        then show ?thesis using hex_loop_run [OF d(1)] assms(3-5) d(2) by (auto simp: nth_drop)
      qed (use p assms(2) True in auto)
    next
      case False
      then show ?thesis using assms(1,5) F by (simp add: numeric_ref_def)
    qed
  qed
qed

lemma named_ref_run:
  "named_ref ents src sz i = Some (n, w) \<Longrightarrow> i \<le> sz \<Longrightarrow> n \<le> sz \<and> 0 < n \<and> src ! (n - 1) = 0x3B \<and> S_lookup_entity ents (take (n - 1) src) = Some w"
proof (induction ents src sz i rule: named_ref.induct)
  case (1 ents src sz i)
  then show ?case by (subst (asm) (2) named_ref.simps) (auto split: if_splits)
qed

lemma entity_name_plain:
  assumes "S_lookup_entity ents name = Some w" and "plain_names ents"
  shows "\<forall>c \<in> set name. plain c"
proof -
  have n: "0 < length ents" using assms(2) by (simp add: plain_names_def)
  then have "length ents div 2 \<le> length ents - 1" "length ents - 1 < length ents" by arith+
  with assms(1) obtain k where "k < length ents" "ents ! k = (name, w)"
    using S_lookup_sound [of ents name "length ents div 2" 0 "length ents - 1" w] n
    unfolding S_lookup_entity_def by (metis One_nat_def Suc_pred le0 less_Suc_eq_le)
  then have "(name, w) \<in> set ents" by (metis nth_mem)
  then show ?thesis using assms(2) plain_alnum by (fastforce simp: plain_names_def)
qed

lemma reference_run:
  assumes "reference_image ents src = Some (n, w)" and "plain_names ents"
  shows "0 < n \<and> n \<le> length src \<and> (\<forall>j < n. plain (src ! j))"
proof (cases "length src \<ge> 3 \<and> src ! 0 = 0x23")
  case True
  obtain c k m i where r: "numeric_ref src = (c, k, m, i)" by (metis prod_cases4)
  then have n: "n = i + 1" "i < length src" "src ! i = 0x3B"
    using assms(1) True by (auto simp: reference_image_def split: if_splits)
  have "plain (src ! j)" if "j < n" for j
  proof (cases "j = i")
    case True
    then show ?thesis using n by (simp add: plain_def quote_mark_def new_line_iff)
  next
    case False
    then show ?thesis using numeric_ref_run [OF r] True n that by simp
  qed
  then show ?thesis using n by simp
next
  case False
  let ?sz = "if length src > 32 then 32 else length src"
  have r: "named_ref ents src ?sz 2 = Some (n, w)" using assms(1) unfolding reference_image_def if_not_P [OF False] .
  then have "2 \<le> ?sz" by (subst (asm) named_ref.simps) (simp split: if_splits)
  with named_ref_run [OF r] have n: "n \<le> ?sz" "0 < n" "src ! (n - 1) = 0x3B" "S_lookup_entity ents (take (n - 1) src) = Some w"
    by simp_all
  then have le: "n \<le> length src" by (simp split: if_splits)
  have "plain (src ! j)" if "j < n" for j
  proof (cases "j = n - 1")
    case True
    then show ?thesis using n by (simp add: plain_def quote_mark_def new_line_iff)
  next
    case False
    then have "src ! j \<in> set (take (n - 1) src)" using that le by (auto simp: in_set_conv_nth intro!: exI [of _ j])
    then show ?thesis using entity_name_plain [OF n(4) assms(2)] by blast
  qed
  then show ?thesis using n le by simp
qed

subsection \<open>What is appended to a buffer\<close>

definition appended :: "strbuf \<Rightarrow> byte list \<Rightarrow> strbuf \<Rightarrow> bool" where
  "appended buf bs out \<longleftrightarrow> strbuf_wf out \<and> (oom buf \<longrightarrow> oom out) \<and> (\<not> oom out \<longrightarrow> ptr out = ptr buf @ bs)"

lemma appended_refl: "strbuf_wf buf \<Longrightarrow> appended buf [] buf"
  by (simp add: appended_def)

lemma appended_put: "strbuf_wf buf \<Longrightarrow> appended buf bs (strbuf_put g buf bs)"
  by (simp add: appended_def strbuf_put_wf strbuf_put_oom strbuf_put_content)

lemma appended_putc: "strbuf_wf buf \<Longrightarrow> appended buf [c] (strbuf_putc g buf c)"
  by (simp add: strbuf_putc_is_put appended_put)

lemma appended_trans: "appended a xs b \<Longrightarrow> appended b ys c \<Longrightarrow> appended a (xs @ ys) c"
  by (auto simp: appended_def)

lemma appended_wf: "appended a xs b \<Longrightarrow> strbuf_wf b"
  by (simp add: appended_def)

text \<open>A failed attempt is cut off again.\<close>

lemma appended_truncate:
  assumes "appended buf bs out"
  shows "appended buf [] (strbuf_truncate out (size_of buf))"
  using assms strbuf_truncate_wf [of out "size_of buf"]
  by (auto simp: appended_def strbuf_truncate_def Let_def size_of_def)

subsection \<open>Quoted values\<close>

text \<open>What the bytes after an opening quote stand for, up to its closer.\<close>

function quoted_text :: "entity_table \<Rightarrow> byte \<Rightarrow> byte list \<Rightarrow> byte list" where
  "quoted_text ents quote [] = []"
| "quoted_text ents quote (b # bs) =
     (if b = quote then []
      else if b = 0x5C \<and> bs \<noteq> [] \<and> ispunct (hd bs) then hd bs # quoted_text ents quote (tl bs)
      else if b = 0x26 then
        (case reference_image ents bs of
           None \<Rightarrow> b # quoted_text ents quote bs
         | Some (n, w) \<Rightarrow> w @ quoted_text ents quote (drop n bs))
      else if new_line b then 0x20 # quoted_text ents quote (if b = 0x0D \<and> bs \<noteq> [] \<and> hd bs = 0x0A then tl bs else bs)
      else b # quoted_text ents quote bs)"
  by pat_completeness auto
termination
  by (relation "measure (\<lambda>(ents, quote, bs). length bs)") auto

declare quoted_text.simps(2) [simp del]

lemma quoted_text_plain:
  "\<forall>b \<in> set run. plain b \<and> b \<noteq> 0x26 \<Longrightarrow> quote_mark quote \<Longrightarrow> quoted_text ents quote (run @ bs) = run @ quoted_text ents quote bs"
  by (induction run) (auto simp: quoted_text.simps(2) plain_def quote_mark_def)

lemma quoted_stop_iff:
  "BYTE_CLASS c AND (BYTE_QUOTE OR BYTE_ESCAPE OR BYTE_REFERENCE OR BYTE_NEWLINE) = 0 \<longleftrightarrow> plain c \<and> c \<noteq> 0x26"
  by (auto simp: plain_def new_line_iff quote_mark_def BYTE_CLASS_def byte_bits)

lemma closer_plain_run:
  "quote_mark quote \<Longrightarrow> \<forall>j. at \<le> j \<and> j < to \<longrightarrow> j < length s \<and> plain (s ! j) \<Longrightarrow> at \<le> to \<Longrightarrow> closer s quote at = closer s quote to"
proof (induction "to - at" arbitrary: at)
  case (Suc k)
  then have "at < length s" "plain (s ! at)" by auto
  then have "closer s quote at = closer s quote (at + 1)"
    using Suc(3) by (subst closer.simps) (auto simp: plain_def escaped_def)
  also have "closer s quote (at + 1) = closer s quote to" using Suc(1) [of "at + 1"] Suc(2-) by simp
  finally show ?case .
qed simp

text \<open>The run of plain bytes the reader takes whole, inside the block.\<close>

lemma quoted_run:
  assumes "run = scan_to_class BYTE_CLASS (BYTE_QUOTE OR BYTE_ESCAPE OR BYTE_REFERENCE OR BYTE_NEWLINE) (take limit s) at"
    and "limit \<le> length s" and "at \<le> limit" and "quote_mark quote"
  shows "at \<le> run" and "run \<le> limit" and "closer s quote at = closer s quote run"
    and "quoted_text ents quote (slice s at limit) = slice s at run @ quoted_text ents quote (slice s run limit)"
    and "run < limit \<Longrightarrow> \<not> plain (s ! run) \<or> s ! run = 0x26"
proof -
  let ?p = "\<lambda>c. plain c \<and> c \<noteq> 0x26"
  have r: "run = skip_while ?p (take limit s) at"
    unfolding assms(1) scan_to_class_skip quoted_stop_iff ..
  show le: "at \<le> run" "run \<le> limit"
    using skip_while_ge [of at ?p "take limit s"] skip_while_le [of at "take limit s" ?p] assms(2,3) by (simp_all add: r)
  have p: "?p (s ! j)" if "at \<le> j" "j < run" for j
    using skip_while_between [of at j ?p "take limit s"] that le(2) by (simp add: r)
  show "closer s quote at = closer s quote run"
    using closer_plain_run [OF assms(4), of at run s] p le assms(2) by auto
  have "\<forall>b \<in> set (slice s at run). ?p b"
  proof
    fix b assume "b \<in> set (slice s at run)"
    then obtain j where "j < run - at" "b = s ! (at + j)"
      using le assms(2) by (auto simp: slice_def in_set_conv_nth)
    then show "?p b" using p [of "at + j"] by simp
  qed
  then show "quoted_text ents quote (slice s at limit) = slice s at run @ quoted_text ents quote (slice s run limit)"
    using quoted_text_plain [OF _ assms(4), of "slice s at run"] slice_append [OF le] by metis
  show "\<not> plain (s ! run) \<or> s ! run = 0x26" if "run < limit"
    using skip_while_stop [of ?p "take limit s" at] that assms(2) by (auto simp: r)
qed

lemma slice_head: "a < b \<Longrightarrow> b \<le> length s \<Longrightarrow> slice s a b = s ! a # slice s (a + 1) b"
  by (simp add: slice_def Cons_nth_drop_Suc [symmetric] take_Cons' del: drop_Suc)

lemma drop_slice_plus: "drop n (slice s a b) = slice s (a + n) b"
  by (simp add: slice_def drop_take add.commute)

lemma decode_quoted_turn:
  assumes "at < limit"
    and "run = scan_to_class BYTE_CLASS (BYTE_QUOTE OR BYTE_ESCAPE OR BYTE_REFERENCE OR BYTE_NEWLINE) (take limit s) at"
    and "buf' = strbuf_put (aa_strings al) buf (slice s at run)"
  shows "\<exists>w'. decode_quoted_loop al ents s quote (Suc limit) at buf w =
    (if run \<ge> limit then (0, buf', w')
     else if s ! run = quote then (run + 1, buf', w')
     else if escaped s (Suc limit) run then decode_quoted_loop al ents s quote (Suc limit) (run + 2) (strbuf_putc (aa_strings al) buf' (s ! (run + 1))) w'
     else if s ! run = 0x26 then
       (case reference_image ents (slice s (run + 1) limit) of
          None \<Rightarrow> decode_quoted_loop al ents s quote (Suc limit) (run + 1) (strbuf_putc (aa_strings al) buf' (s ! run)) w'
        | Some (n, img) \<Rightarrow> decode_quoted_loop al ents s quote (Suc limit) (run + n + 1) (strbuf_put (aa_strings al) buf' img) w')
     else if new_line (s ! run) then
       decode_quoted_loop al ents s quote (Suc limit)
         ((if s ! run = 0x0D \<and> run + 1 < limit \<and> s ! (run + 1) = 0x0A then run + 1 else run) + 1)
         (strbuf_putc (aa_strings al) buf' 0x20) w'
     else decode_quoted_loop al ents s quote (Suc limit) (run + 1) (strbuf_putc (aa_strings al) buf' (s ! run)) w')"
proof (cases "run \<ge> limit")
  case True
  then show ?thesis using assms(1)
    by (subst decode_quoted_loop.simps) (simp add: Let_def assms(2) [symmetric] assms(3) [symmetric])
next
  case False
  have r: "unescape_ent ents (aa_strings al) buf' (slice s (run + 1) limit) =
      (case reference_image ents (slice s (run + 1) limit) of
         None \<Rightarrow> (0, buf') | Some (n, img) \<Rightarrow> (n, strbuf_put (aa_strings al) buf' img))"
    by (rule unescape_ent_image)
  have p: "0 < n" if "reference_image ents (slice s (run + 1) limit) = Some (n, img)" for n img
    using reference_image_pos [OF that] .
  note fold = assms(2) [symmetric] assms(3) [symmetric]
  have h: "(limit \<le> at) = False" "(limit \<le> run) = False" using assms(1) False by simp_all
  let ?w = "w + (run - at) + 1"
  have "decode_quoted_loop al ents s quote (Suc limit) at buf w =
    (if s ! run = quote then (run + 1, buf', ?w)
     else if escaped s (Suc limit) run then decode_quoted_loop al ents s quote (Suc limit) (run + 2) (strbuf_putc (aa_strings al) buf' (s ! (run + 1))) ?w
     else if s ! run = 0x26 then
       (case unescape_ent ents (aa_strings al) buf' (slice s (run + 1) limit) of (used, buf) \<Rightarrow>
         if used \<noteq> 0 then decode_quoted_loop al ents s quote (Suc limit) (run + used + 1) buf ?w
         else decode_quoted_loop al ents s quote (Suc limit) (run + 1) (strbuf_putc (aa_strings al) buf (s ! run)) ?w)
     else if new_line (s ! run) then
       decode_quoted_loop al ents s quote (Suc limit)
         ((if s ! run = 0x0D \<and> run + 1 < limit \<and> s ! (run + 1) = 0x0A then run + 1 else run) + 1)
         (strbuf_putc (aa_strings al) buf' 0x20) ?w
     else decode_quoted_loop al ents s quote (Suc limit) (run + 1) (strbuf_putc (aa_strings al) buf' (s ! run)) ?w)"
    unfolding decode_quoted_loop.simps [of al ents s quote "Suc limit" at buf w] Let_def diff_Suc_1 fold
    by (simp only: if_False h)
  then show ?thesis using False p unfolding r
    by (intro exI [of _ ?w]) (cases "reference_image ents (slice s (run + 1) limit)"; fastforce)
qed

text \<open>A closer inside the block is found, and what is before it is what the value stands for.\<close>

lemma closer_turn:
  assumes "closer s quote run = Some i" and "i < limit" and "limit < length s"
  shows "run < limit"
    and "s ! run = quote \<Longrightarrow> i = run"
    and "s ! run \<noteq> quote \<Longrightarrow> run + 1 \<le> i"
    and "s ! run \<noteq> quote \<Longrightarrow> escaped s (Suc limit) run \<Longrightarrow> closer s quote (run + 2) = Some i"
    and "s ! run \<noteq> quote \<Longrightarrow> \<not> escaped s (Suc limit) run \<Longrightarrow> \<not> new_line (s ! run) \<Longrightarrow> closer s quote (run + 1) = Some i"
    and "s ! run \<noteq> quote \<Longrightarrow> new_line (s ! run) \<Longrightarrow> quote_mark quote \<Longrightarrow> closer s quote (after_line s run) = Some i"
proof -
  note b = closer_bounds [OF assms(1)]
  show r: "run < limit" using b assms(2) by simp
  have esc: "escaped s (length s) run = escaped s (Suc limit) run" using r assms(3) by (auto simp: escaped_def)
  have C: "closer s quote run = (if s ! run = quote then Some run else if escaped s (length s) run then closer s quote (run + 2)
      else if new_line (s ! run) then
        if after_indent s run < length s \<and> new_line (s ! after_indent s run) then None else closer s quote (after_indent s run)
      else closer s quote (run + 1))"
    using r assms(3) by (subst closer.simps) (simp add: Let_def after_indent_def)
  show "s ! run = quote \<Longrightarrow> i = run" using C assms(1) by simp
  show "s ! run \<noteq> quote \<Longrightarrow> run + 1 \<le> i" using b by (cases "run = i") auto
  show "s ! run \<noteq> quote \<Longrightarrow> escaped s (Suc limit) run \<Longrightarrow> closer s quote (run + 2) = Some i" using C assms(1) esc by simp
  show "s ! run \<noteq> quote \<Longrightarrow> \<not> escaped s (Suc limit) run \<Longrightarrow> \<not> new_line (s ! run) \<Longrightarrow> closer s quote (run + 1) = Some i"
    using C assms(1) esc by simp
  show "closer s quote (after_line s run) = Some i" if "s ! run \<noteq> quote" "new_line (s ! run)" "quote_mark quote"
  proof -
    have "\<not> escaped s (length s) run" using that(2) by (auto simp: escaped_def new_line_iff)
    then have "closer s quote (after_indent s run) = Some i" using C assms(1) that by (auto split: if_splits)
    moreover have "closer s quote (after_line s run) = closer s quote (after_indent s run)"
      unfolding after_indent_def
    proof (rule closer_plain_run [OF that(3)])
      show "\<forall>j. after_line s run \<le> j \<and> j < skip_while horizontal s (after_line s run) \<longrightarrow> j < length s \<and> plain (s ! j)"
        using skip_while_between [of "after_line s run" _ horizontal s] skip_while_le [of "after_line s run" s horizontal]
          after_line_bounds(2) [of run s] r assms(3)
        by (fastforce simp: plain_def horizontal_iff quote_mark_def new_line_iff)
    qed (rule skip_while_ge)
    ultimately show ?thesis by simp
  qed
qed

text \<open>A reference ends before the closer: it holds no quote.\<close>

lemma closer_reference:
  assumes "reference_image ents (slice s (run + 1) limit) = Some (n, img)" and "plain_names ents" and "quote_mark quote"
    and "run < limit" and "limit < length s"
  shows "closer s quote (run + 1) = closer s quote (run + n + 1)" and "0 < n"
proof -
  note r = reference_run [OF assms(1,2)]
  then show "0 < n" by simp
  have n: "run + n + 1 \<le> limit" using r assms(4,5) length_slice [of limit s "run + 1"] by arith
  have "plain (s ! j)" if "run + 1 \<le> j" "j < run + n + 1" for j
  proof -
    have "plain (slice s (run + 1) limit ! (j - (run + 1)))" using r that by simp
    moreover have "j < limit" using n that by simp
    ultimately show ?thesis using that(1) assms(5) by (simp add: slice_def)
  qed
  then show "closer s quote (run + 1) = closer s quote (run + n + 1)"
    using assms(5) n by (intro closer_plain_run [OF assms(3)]) auto
qed

lemma decode_quoted_finds:
  assumes "quote_mark quote" and "plain_names ents" and "limit < length s" and "i < limit"
  shows "decode_quoted_loop al ents s quote (Suc limit) at buf w = (r, out, w') \<Longrightarrow> strbuf_wf buf \<Longrightarrow> closer s quote at = Some i \<Longrightarrow>
    r = i + 1 \<and> appended buf (quoted_text ents quote (slice s at limit)) out"
proof (induction "limit - at" arbitrary: at buf w rule: less_induct)
  case less
  define run where "run = scan_to_class BYTE_CLASS (BYTE_QUOTE OR BYTE_ESCAPE OR BYTE_REFERENCE OR BYTE_NEWLINE) (take limit s) at"
  let ?g = "aa_strings al" and ?c = "s ! run"
  define buf1 where "buf1 = strbuf_put ?g buf (slice s at run)"
  have at: "at < limit" using closer_bounds [OF less(4)] assms(4) by simp
  note R = quoted_run [OF run_def less_imp_le [OF assms(3)] less_imp_le [OF at] assms(1)]
  have c: "closer s quote run = Some i" using R(3) less(4) by simp
  note C = closer_turn [OF c assms(4,3)]
  have b1: "appended buf (slice s at run) buf1" using less(3) appended_put by (simp add: buf1_def)
  have rest: "slice s run limit = ?c # slice s (run + 1) limit" using slice_head [OF C(1), of s] assms(3) by simp
  note T = R(4) [unfolded rest quoted_text.simps(2)]
  from decode_quoted_turn [OF at run_def buf1_def, of ents quote w] obtain v where
    E: "(r, out, w') = (if ?c = quote then (run + 1, buf1, v)
     else if escaped s (Suc limit) run then decode_quoted_loop al ents s quote (Suc limit) (run + 2) (strbuf_putc ?g buf1 (s ! (run + 1))) v
     else if ?c = 0x26 then
       (case reference_image ents (slice s (run + 1) limit) of
          None \<Rightarrow> decode_quoted_loop al ents s quote (Suc limit) (run + 1) (strbuf_putc ?g buf1 ?c) v
        | Some (n, img) \<Rightarrow> decode_quoted_loop al ents s quote (Suc limit) (run + n + 1) (strbuf_put ?g buf1 img) v)
     else if new_line ?c then
       decode_quoted_loop al ents s quote (Suc limit) ((if ?c = 0x0D \<and> run + 1 < limit \<and> s ! (run + 1) = 0x0A then run + 1 else run) + 1)
         (strbuf_putc ?g buf1 0x20) v
     else decode_quoted_loop al ents s quote (Suc limit) (run + 1) (strbuf_putc ?g buf1 ?c) v)"
    using less(2) C(1) by auto
  have step: "r = i + 1 \<and> appended buf (slice s at run @ bs @ quoted_text ents quote (slice s to limit)) out"
    if "decode_quoted_loop al ents s quote (Suc limit) to buf2 v = (r, out, w')" "closer s quote to = Some i" "run < to" "appended buf1 bs buf2" for to buf2 bs
    using less(1) [OF _ that(1) appended_wf [OF that(4)] that(2)] that(3) R(1) at
      appended_trans [OF b1 appended_trans [OF that(4)]] by simp
  note pc = appended_putc [OF appended_wf [OF b1]] and pp = appended_put [OF appended_wf [OF b1]]
  show ?case
  proof (cases "?c = quote")
    case True
    then show ?thesis using E C(2) b1 by (simp add: T)
  next
    case False
    note q = this
    have r1: "run + 1 < limit" using C(3) [OF q] assms(4) by simp
    then have rest: "slice s (Suc run) limit = s ! Suc run # slice s (Suc (Suc run)) limit"
      using slice_head [of "Suc run" limit s] assms(3) by simp
    show ?thesis
    proof (cases "escaped s (Suc limit) run")
      case True
      then have "?c = 0x5C" "ispunct (s ! (run + 1))" by (auto simp: escaped_def)
      then show ?thesis using step [of "run + 2" _ "[s ! (run + 1)]"] E q True C(4) pc by (simp add: T rest)
    next
      case False
      note e = this
      then have ne: "\<not> (?c = 0x5C \<and> ispunct (s ! (run + 1)))" using r1 by (auto simp: escaped_def)
      show ?thesis
      proof (cases "?c = 0x26")
        case True
        then have n: "closer s quote (run + 1) = Some i" using C(5) [OF q e] by (simp add: new_line_iff)
        show ?thesis
        proof (cases "reference_image ents (slice s (run + 1) limit)")
          case None
          then show ?thesis using step [of "run + 1" _ "[?c]"] E q e True n pc ne by (simp add: T)
        next
          case (Some x)
          obtain m img where x: "x = (m, img)" by (cases x)
          have D: "drop m (slice s (Suc run) limit) = slice s (Suc (run + m)) limit" using drop_slice_plus [of m s "Suc run"] by simp
          from closer_reference [OF Some [unfolded x] assms(2,1) C(1) assms(3)] n
          show ?thesis using step [of "run + m + 1" _ img] E q e True Some x pp D by (simp add: T)
        qed
      next
        case False
        note a = this
        show ?thesis
        proof (cases "new_line ?c")
          case True
          then show ?thesis using step [of "after_line s run" _ "[0x20]"] E q e a C(6) [OF q True assms(1)] pc r1 ne assms(3) after_line_bounds(1) [of run s]
            by (auto simp: T rest after_line_def split: if_splits)
        next
          case False
          then show ?thesis using step [of "run + 1" _ "[?c]"] E q e a C(5) [OF q e False] pc ne by (auto simp: T rest)
        qed
      qed
    qed
  qed
qed

text \<open>Without a closer before the brace that ends the block the attempt fails, and is cut off.\<close>

lemma closer_after_line:
  assumes "quote_mark quote" and "run < length s"
  shows "closer s quote (after_line s run) = closer s quote (after_indent s run)"
  unfolding after_indent_def
proof (rule closer_plain_run [OF assms(1)])
  show "\<forall>j. after_line s run \<le> j \<and> j < skip_while horizontal s (after_line s run) \<longrightarrow> j < length s \<and> plain (s ! j)"
    using skip_while_between [of "after_line s run" _ horizontal s] skip_while_le [of "after_line s run" s horizontal]
      after_line_bounds(2) [OF assms(2)]
    by (fastforce simp: plain_def horizontal_iff quote_mark_def new_line_iff)
qed (rule skip_while_ge)

definition unclosed :: "byte list \<Rightarrow> byte \<Rightarrow> nat \<Rightarrow> nat \<Rightarrow> bool" where
  "unclosed s quote limit at \<longleftrightarrow> (\<forall>i. closer s quote at = Some i \<longrightarrow> limit \<le> i)"

definition unbroken_lines :: "byte list \<Rightarrow> nat \<Rightarrow> nat \<Rightarrow> bool" where
  "unbroken_lines s limit at \<longleftrightarrow>
     (\<forall>y \<ge> at. y < limit \<longrightarrow> new_line (s ! y) \<longrightarrow> after_indent s y \<le> limit \<longrightarrow> \<not> new_line (s ! after_indent s y))"

lemma unclosed_turn:
  assumes "unclosed s quote limit run" and "run < limit" and "limit < length s"
  shows "s ! run \<noteq> quote"
    and "escaped s (Suc limit) run \<Longrightarrow> unclosed s quote limit (run + 2)"
    and "\<not> escaped s (Suc limit) run \<Longrightarrow> \<not> new_line (s ! run) \<Longrightarrow> unclosed s quote limit (run + 1)"
    and "new_line (s ! run) \<Longrightarrow> quote_mark quote \<Longrightarrow> unbroken_lines s limit run \<Longrightarrow> unclosed s quote limit (after_line s run)"
proof -
  have esc: "escaped s (length s) run = escaped s (Suc limit) run" using assms(2,3) by (auto simp: escaped_def)
  have C: "closer s quote run = (if s ! run = quote then Some run else if escaped s (length s) run then closer s quote (run + 2)
      else if new_line (s ! run) then
        if after_indent s run < length s \<and> new_line (s ! after_indent s run) then None else closer s quote (after_indent s run)
      else closer s quote (run + 1))"
    using assms(2,3) by (subst closer.simps) (simp add: Let_def after_indent_def)
  show q: "s ! run \<noteq> quote" using C assms(1,2) by (auto simp: unclosed_def)
  show "escaped s (Suc limit) run \<Longrightarrow> unclosed s quote limit (run + 2)" using C assms(1) q esc by (simp add: unclosed_def)
  show "\<not> escaped s (Suc limit) run \<Longrightarrow> \<not> new_line (s ! run) \<Longrightarrow> unclosed s quote limit (run + 1)"
    using C assms(1) q esc by (simp add: unclosed_def)
  show "unclosed s quote limit (after_line s run)" if "new_line (s ! run)" "quote_mark quote" "unbroken_lines s limit run"
  proof -
    have ne: "\<not> escaped s (length s) run" using that(1) by (auto simp: escaped_def new_line_iff)
    note A = closer_after_line [OF that(2), of run s]
    show ?thesis
    proof (cases "after_indent s run < length s \<and> new_line (s ! after_indent s run)")
      case True
      then have "limit < after_indent s run" using that(1,3) assms(2) by (auto simp: unbroken_lines_def not_le)
      then show ?thesis using A assms(2,3) closer_bounds [of s quote "after_indent s run"] by (fastforce simp: unclosed_def)
    next
      case False
      then have "closer s quote run = closer s quote (after_indent s run)" using C q ne that(1) by auto
      then show ?thesis using A assms by (simp add: unclosed_def)
    qed
  qed
qed

lemma unbroken_lines_later: "unbroken_lines s limit at \<Longrightarrow> at \<le> to \<Longrightarrow> unbroken_lines s limit to"
  by (simp add: unbroken_lines_def)

lemma decode_quoted_fails:
  assumes "quote_mark quote" and "plain_names ents" and "limit < length s" and "s ! limit = 0x7D"
  shows "decode_quoted_loop al ents s quote (Suc limit) at buf w = (r, out, w') \<Longrightarrow> strbuf_wf buf \<Longrightarrow>
    unclosed s quote limit at \<Longrightarrow> unbroken_lines s limit at \<Longrightarrow> r = 0 \<and> (\<exists>bs. appended buf bs out)"
proof (induction "limit - at" arbitrary: at buf w rule: less_induct)
  case less
  show ?case
  proof (cases "at < limit")
    case False
    then show ?thesis using less(2,3) appended_refl by (subst (asm) decode_quoted_loop.simps) auto
  next
    case True
    define run where "run = scan_to_class BYTE_CLASS (BYTE_QUOTE OR BYTE_ESCAPE OR BYTE_REFERENCE OR BYTE_NEWLINE) (take limit s) at"
    let ?g = "aa_strings al" and ?c = "s ! run"
    define buf1 where "buf1 = strbuf_put ?g buf (slice s at run)"
    note R = quoted_run [OF run_def less_imp_le [OF assms(3)] less_imp_le [OF True] assms(1)]
    have u: "unclosed s quote limit run" using R(3) less(4) by (simp add: unclosed_def)
    have b1: "appended buf (slice s at run) buf1" using less(3) appended_put by (simp add: buf1_def)
    have step: "r = 0 \<and> (\<exists>bs. appended buf bs out)"
      if "decode_quoted_loop al ents s quote (Suc limit) to buf2 v = (r, out, w')" "unclosed s quote limit to" "run < to" "appended buf1 bs buf2" for to buf2 bs v
    proof -
      have "limit - to < limit - at" "at \<le> to" using that(3) R(1) True by arith+
      from less(1) [OF this(1) that(1) appended_wf [OF that(4)] that(2) unbroken_lines_later [OF less(5) this(2)]]
      show ?thesis using appended_trans [OF appended_trans [OF b1 that(4)]] by blast
    qed
    note pc = appended_putc [OF appended_wf [OF b1]] and pp = appended_put [OF appended_wf [OF b1]]
    show ?thesis
    proof (cases "run < limit")
      case False
      then show ?thesis using decode_quoted_turn [OF True run_def buf1_def, of ents quote w] less(2) b1 by auto
    next
      case True
      note U = unclosed_turn [OF u True assms(3)]
      from decode_quoted_turn [OF \<open>at < limit\<close> run_def buf1_def, of ents quote w] obtain v where
        E: "(r, out, w') = (if escaped s (Suc limit) run then
           decode_quoted_loop al ents s quote (Suc limit) (run + 2) (strbuf_putc ?g buf1 (s ! (run + 1))) v
         else if ?c = 0x26 then
           (case reference_image ents (slice s (run + 1) limit) of
              None \<Rightarrow> decode_quoted_loop al ents s quote (Suc limit) (run + 1) (strbuf_putc ?g buf1 ?c) v
            | Some (n, img) \<Rightarrow> decode_quoted_loop al ents s quote (Suc limit) (run + n + 1) (strbuf_put ?g buf1 img) v)
         else if new_line ?c then
           decode_quoted_loop al ents s quote (Suc limit) ((if ?c = 0x0D \<and> run + 1 < limit \<and> s ! (run + 1) = 0x0A then run + 1 else run) + 1)
             (strbuf_putc ?g buf1 0x20) v
         else decode_quoted_loop al ents s quote (Suc limit) (run + 1) (strbuf_putc ?g buf1 ?c) v)"
        using less(2) True U(1) by auto
      consider "escaped s (Suc limit) run" | "\<not> escaped s (Suc limit) run" "?c = 0x26"
        | "\<not> escaped s (Suc limit) run" "?c \<noteq> 0x26" "new_line ?c" | "\<not> escaped s (Suc limit) run" "?c \<noteq> 0x26" "\<not> new_line ?c"
        by blast
      then show ?thesis
      proof cases
        case 1
        then show ?thesis using step [OF _ U(2) _ pc] E by simp
      next
        case 2
        then have n: "unclosed s quote limit (run + 1)" using U(3) by (simp add: new_line_iff)
        show ?thesis
        proof (cases "reference_image ents (slice s (run + 1) limit)")
          case None
          then show ?thesis using step [OF _ n _ pc] E 2 by simp
        next
          case (Some x)
          obtain m img where x: "x = (m, img)" by (cases x)
          from closer_reference [OF Some [unfolded x] assms(2,1) True assms(3)] n
          have "unclosed s quote limit (run + m + 1)" by (simp add: unclosed_def)
          then show ?thesis using step [OF _ _ _ pp] E 2 Some x by simp
        qed
      next
        case 3
        have "(if ?c = 0x0D \<and> run + 1 < limit \<and> s ! (run + 1) = 0x0A then run + 1 else run) + 1 = after_line s run"
          using assms(3,4) True by (cases "run + 1 = limit") (auto simp: after_line_def)
        moreover have "unclosed s quote limit (after_line s run)"
          using U(4) 3 assms(1) unbroken_lines_later [OF less(5) R(1)] by simp
        ultimately show ?thesis using step [OF _ _ after_line_bounds(1) pc] E 3 by simp
      next
        case 4
        then show ?thesis using step [OF _ U(3) _ pc] E by simp
      qed
    qed
  qed
qed

subsection \<open>Unquoted values\<close>

lemma unquoted_stop_iff:
  "BYTE_CLASS c AND (BYTE_VALUE_END OR BYTE_ESCAPE) = 0 \<longleftrightarrow> BYTE_CLASS c AND BYTE_VALUE_END = 0 \<and> c \<noteq> 0x5C"
  by (auto simp: BYTE_CLASS_def byte_bits)

lemma unescape_plain_run: "\<forall>b \<in> set run. b \<noteq> 0x5C \<Longrightarrow> unescape_loop (run @ bs) = run @ unescape_loop bs"
  by (induction run) (auto simp: unescape_plain_Cons)

lemma unquoted_run:
  assumes "run = scan_to_class BYTE_CLASS (BYTE_VALUE_END OR BYTE_ESCAPE) (take limit s) at" and "limit \<le> length s" and "at \<le> limit"
  shows "at \<le> run" and "run \<le> limit" and "bare_end s at = bare_end s run" and "\<forall>b \<in> set (slice s at run). b \<noteq> 0x5C"
    and "run < limit \<Longrightarrow> \<not> BYTE_CLASS (s ! run) AND BYTE_VALUE_END \<noteq> 0 \<Longrightarrow> s ! run = 0x5C"
proof -
  let ?p = "\<lambda>c. BYTE_CLASS c AND BYTE_VALUE_END = 0 \<and> c \<noteq> 0x5C"
  have r: "run = skip_while ?p (take limit s) at" unfolding assms(1) scan_to_class_skip unquoted_stop_iff ..
  show le: "at \<le> run" "run \<le> limit"
    using skip_while_ge [of at ?p "take limit s"] skip_while_le [of at "take limit s" ?p] assms(2,3) by (simp_all add: r)
  have p: "?p (s ! j)" if "at \<le> j" "j < run" for j
    using skip_while_between [of at j ?p "take limit s"] that le(2) by (simp add: r)
  have mid: "bare_end s i = bare_end s run" if "at \<le> i" "i \<le> run" for i
    using that(2,1)
  proof (induction rule: inc_induct)
    case (step i)
    have q: "?p (s ! i)" and i: "i < length s" using p [of i] step le assms(2) by simp_all
    have h: "(length s \<le> i) = False" "escaped s (length s) i = False" using q i by (simp_all add: escaped_def)
    have "bare_end s i = bare_end s (Suc i)"
      unfolding bare_end.simps [of s i] using q by (simp only: h if_False Suc_eq_plus1 simp_thms)
    then show ?case using step by simp
  qed simp
  show "bare_end s at = bare_end s run" by (rule mid [OF order_refl le(1)])
  show "\<forall>b \<in> set (slice s at run). b \<noteq> 0x5C"
  proof
    fix b assume "b \<in> set (slice s at run)"
    then obtain j where "j < run - at" "b = s ! (at + j)" using le assms(2) by (auto simp: slice_def in_set_conv_nth)
    then show "b \<noteq> 0x5C" using p [of "at + j"] by simp
  qed
  show "run < limit \<Longrightarrow> \<not> BYTE_CLASS (s ! run) AND BYTE_VALUE_END \<noteq> 0 \<Longrightarrow> s ! run = 0x5C"
    using skip_while_stop [of ?p "take limit s" at] assms(2) by (auto simp: r)
qed

lemma decode_unquoted_value:
  assumes "limit < length s" and "s ! limit = 0x7D"
  shows "decode_unquoted_loop al s (Suc limit) at buf w = (v, out, w') \<Longrightarrow> strbuf_wf buf \<Longrightarrow> at \<le> limit \<Longrightarrow> bare_end s at \<le> limit \<Longrightarrow>
    v = bare_end s at \<and> appended buf (unescape_loop (slice s at v)) out"
proof (induction "limit - at" arbitrary: at buf w rule: less_induct)
  case less
  let ?g = "aa_strings al"
  show ?case
  proof (cases "at < limit")
    case False
    then have "at = limit" using less(4) by simp
    moreover have "bare_end s limit = limit" using assms by (subst bare_end.simps) (simp add: value_end_iff)
    ultimately show ?thesis using less(2,3) appended_refl by (subst (asm) decode_unquoted_loop.simps) auto
  next
    case True
    define run where "run = scan_to_class BYTE_CLASS (BYTE_VALUE_END OR BYTE_ESCAPE) (take limit s) at"
    define buf1 where "buf1 = strbuf_put ?g buf (slice s at run)"
    note R = unquoted_run [OF run_def less_imp_le [OF assms(1)] less(4)]
    have b1: "appended buf (slice s at run) buf1" using less(3) appended_put by (simp add: buf1_def)
    note pc = appended_putc [OF appended_wf [OF b1]]
    have h: "(limit \<le> at) = False" using True by simp
    have E: "(if limit \<le> run \<or> BYTE_CLASS (s ! run) AND BYTE_VALUE_END \<noteq> 0 then (run, buf1, w + (run - at))
       else if escaped s (Suc limit) run then
         decode_unquoted_loop al s (Suc limit) (run + 2) (strbuf_putc ?g buf1 (s ! (run + 1))) (w + (run - at) + 1)
       else decode_unquoted_loop al s (Suc limit) (run + 1) (strbuf_putc ?g buf1 (s ! run)) (w + (run - at) + 1)) = (v, out, w')"
      using less(2)
      unfolding decode_unquoted_loop.simps [of al s "Suc limit" at buf w] Let_def diff_Suc_1 run_def [symmetric] buf1_def [symmetric]
      by (simp only: h if_False)
    have B: "bare_end s run = (if BYTE_CLASS (s ! run) AND BYTE_VALUE_END \<noteq> 0 then run
        else if escaped s (length s) run then bare_end s (run + 2) else bare_end s (run + 1))"
      using R(2) assms(1) by (subst bare_end.simps) simp
    show ?thesis
    proof (cases "run \<ge> limit \<or> BYTE_CLASS (s ! run) AND BYTE_VALUE_END \<noteq> 0")
      case True
      have "BYTE_CLASS (s ! run) AND BYTE_VALUE_END \<noteq> 0" using True R(2) assms(2) by (cases "run = limit") (auto simp: value_end_iff)
      then show ?thesis using E B R(3) b1 unescape_plain_run [OF R(4), of "[]"] True by simp
    next
      case False
      then have run: "run < limit" "\<not> BYTE_CLASS (s ! run) AND BYTE_VALUE_END \<noteq> 0" by simp_all
      have c: "s ! run = 0x5C" using R(5) run by simp
      have esc: "escaped s (length s) run = escaped s (Suc limit) run" using run assms(1) by (auto simp: escaped_def)
      have step: "v = bare_end s to \<and> appended buf (slice s at run @ bs @ unescape_loop (slice s to v)) out"
        if "decode_unquoted_loop al s (Suc limit) to buf2 (w + (run - at) + 1) = (v, out, w')" "bare_end s at = bare_end s to" "run < to" "to \<le> limit" "appended buf1 bs buf2" for to buf2 bs
      proof -
        have "limit - to < limit - at" using that(3) R(1) \<open>at < limit\<close> by arith
        from less(1) [OF this that(1) appended_wf [OF that(5)] that(4)] less(5) that(2)
        show ?thesis using appended_trans [OF b1 appended_trans [OF that(5)]] by auto
      qed
      have S: "slice s at v = slice s at run @ s ! run # slice s (run + 1) v" if "run < v" "v \<le> limit"
        using that R(1) assms(1) slice_head [of run v s] slice_append [of at run v s] by simp
      show ?thesis
      proof (cases "escaped s (Suc limit) run")
        case True
        then have p: "ispunct (s ! (run + 1))" and le: "run + 1 \<le> limit" by (auto simp: escaped_def)
        have e: "bare_end s at = bare_end s (run + 2)" using B R(3) run True esc by simp
        have "run + 2 \<le> bare_end s (run + 2)" using bare_end_bounds [of "run + 2" s] le assms(1) by simp
        then have le: "run + 2 \<le> limit" using e less(5) by simp
        from step [OF _ e _ le pc] E run True
        have v: "v = bare_end s (run + 2)" "appended buf (slice s at run @ [s ! (run + 1)] @ unescape_loop (slice s (run + 2) v)) out"
          by auto
        then have "run + 2 \<le> v" "v \<le> limit" using \<open>run + 2 \<le> bare_end s (run + 2)\<close> e less(5) by simp_all
        then have "slice s at v = slice s at run @ s ! run # s ! (run + 1) # slice s (run + 2) v"
          using S slice_head [of "run + 1" v s] assms(1) by simp
        then show ?thesis using v c p e unescape_plain_run [OF R(4)] by simp
      next
        case False
        have e: "bare_end s at = bare_end s (run + 1)" using B R(3) run False esc by simp
        from step [OF _ e _ _ pc] E run False
        have v: "v = bare_end s (run + 1)" "appended buf (slice s at run @ [s ! run] @ unescape_loop (slice s (run + 1) v)) out"
          by auto
        have le: "run + 1 \<le> v" "v \<le> limit" using bare_end_bounds [of "run + 1" s] v(1) e less(5) run(1) assms(1) by simp_all
        have "unescape_loop (0x5C # slice s (run + 1) v) = 0x5C # unescape_loop (slice s (run + 1) v)"
        proof (cases "run + 1 < v")
          case True
          then have "\<not> ispunct (s ! (run + 1))" using False c le(2) by (auto simp: escaped_def)
          then show ?thesis using slice_head [OF True, of s] le(2) assms(1) by simp
        qed (use le(1) in simp)
        then show ?thesis using v c e S le unescape_plain_run [OF R(4)] by simp
      qed
    qed
  qed
qed

subsection \<open>What a block says\<close>

datatype attribute = Identifier "byte list" | Class "byte list" | Record "byte list" "byte list"

text \<open>The words of a value of \<open>class\<close>.\<close>

function class_words :: "byte list \<Rightarrow> byte list list" where
  "class_words xs =
     (if dropWhile class_separator xs = [] then []
      else takeWhile (\<lambda>c. \<not> class_separator c) (dropWhile class_separator xs) #
        class_words (dropWhile (\<lambda>c. \<not> class_separator c) (dropWhile class_separator xs)))"
  by pat_completeness auto
termination
proof (relation "measure length", goal_cases)
  case (2 xs)
  let ?y = "dropWhile class_separator xs"
  have "\<not> class_separator (hd ?y)" using 2 hd_dropWhile by blast
  then have "length (dropWhile (\<lambda>c. \<not> class_separator c) ?y) < length ?y"
    using 2 by (cases ?y) (simp_all add: less_Suc_eq_le length_dropWhile_le)
  then show ?case using length_dropWhile_le [of class_separator xs] by (auto intro: less_le_trans)
qed simp

declare class_words.simps [simp del]

lemma class_words_Nil [simp]: "class_words [] = []"
  by (subst class_words.simps) simp

lemma class_words_sep: "class_separator c \<Longrightarrow> class_words (c # xs) = class_words xs"
  by (subst (1 2) class_words.simps) simp

lemma class_words_word:
  assumes "\<forall>c \<in> set xs. \<not> class_separator c" and "xs \<noteq> []" and "ys = [] \<or> class_separator (hd ys)"
  shows "class_words (xs @ ys) = xs # class_words ys"
proof -
  have "dropWhile class_separator (xs @ ys) = xs @ ys" using assms(1,2) by (cases xs) simp_all
  moreover have "takeWhile (\<lambda>c. \<not> class_separator c) (xs @ ys) = xs" using takeWhile_append_stop [of xs _ ys] assms(1,3) by auto
  moreover have "dropWhile (\<lambda>c. \<not> class_separator c) (xs @ ys) = ys" using dropWhile_append_stop [of xs _ ys] assms(1,3) by auto
  ultimately show ?thesis using assms(2) by (subst class_words.simps) simp
qed

definition named :: "byte list \<Rightarrow> byte list \<Rightarrow> attribute list" where
  "named name x =
     (if name = asc ''id'' then [Identifier x]
      else if name = asc ''class'' then map Class (class_words x)
      else [Record name x])"

text \<open>The value after the \<open>=\<close> at \<open>e\<close>, in a block whose closing brace is at \<open>limit\<close>.\<close>

definition value_text :: "entity_table \<Rightarrow> byte list \<Rightarrow> nat \<Rightarrow> nat \<Rightarrow> byte list" where
  "value_text ents s limit e =
     (case quoted_value s e of
        Some i \<Rightarrow> quoted_text ents (s ! (e + 1)) (slice s (e + 2) limit)
      | None \<Rightarrow> unescape_loop (slice s (e + 1) (bare_end s (e + 1))))"

definition member_says :: "entity_table \<Rightarrow> byte list \<Rightarrow> nat \<Rightarrow> nat \<Rightarrow> attribute list" where
  "member_says ents s limit b =
     (let e = name_over s (b + 1)
      in if s ! b = 0x2D \<and> member_boundary s (length s) (b + 1) then [Class (asc ''unnumbered'')]
         else if s ! b = 0x23 then [Identifier (slice s (b + 1) e)]
         else if s ! b = 0x2E then [Class (slice s (b + 1) e)]
         else if s ! e = 0x3D then named (slice s b e) (value_text ents s limit e)
         else named (slice s b e) (asc ''true''))"

text \<open>The members from a boundary to the brace at \<open>limit\<close>, in order.\<close>

function block_says :: "entity_table \<Rightarrow> byte list \<Rightarrow> nat \<Rightarrow> nat \<Rightarrow> attribute list" where
  "block_says ents s limit b =
     (if b \<ge> limit \<or> b \<ge> length s then []
      else if horizontal (s ! b) \<or> new_line (s ! b) then block_says ents s limit (b + 1)
      else
        (case member_at s b of
           Moves b' \<Rightarrow> member_says ents s limit b @ block_says ents s limit b'
         | _ \<Rightarrow> []))"
  by pat_completeness auto
termination
  by (relation "measure (\<lambda>(ents, s, limit, b). length s - b)") (auto dest: member_at_gt intro!: diff_less_mono2)

declare block_says.simps [simp del]

definition identifier_of :: "attribute list \<Rightarrow> byte list option" where
  "identifier_of as = foldl (\<lambda>i a. case a of Identifier t \<Rightarrow> Some t | _ \<Rightarrow> i) None as"

definition listed :: "attribute list \<Rightarrow> attribute list" where
  "listed as = filter (\<lambda>a. case a of Identifier t \<Rightarrow> False | _ \<Rightarrow> True) as"

lemma identifier_append: "identifier_of (as @ [Identifier t]) = Some t"
  "identifier_of (as @ [Class c]) = identifier_of as" "identifier_of (as @ [Record n v]) = identifier_of as"
  by (simp_all add: identifier_of_def)

lemma identifier_classes: "identifier_of (as @ map Class cs) = identifier_of as"
proof -
  have "foldl (\<lambda>i a. case a of Identifier t \<Rightarrow> Some t | _ \<Rightarrow> i) i (map Class cs) = i" for i
    by (induction cs) simp_all
  then show ?thesis by (simp add: identifier_of_def)
qed

lemma listed_simps [simp]: "listed [] = []" "listed (as @ bs) = listed as @ listed bs"
  "listed [Identifier t] = []" "listed [Class c] = [Class c]" "listed [Record n v] = [Record n v]"
  "listed (map Class cs) = map Class cs"
  by (simp_all add: listed_def filter_id_conv)

end
