(* ===== verification/AttributeRead.thy ===== *)
theory AttributeRead
  imports AttributeText
begin

text \<open>
  Reading an attribute block that was recognised: the reader passes the members that recognition
  passed, and what it lays out is what the bytes of each member stand for.
\<close>

subsection \<open>What the workspace holds\<close>

text \<open>A string of the workspace: its bytes, a NUL past them, and all of it before \<open>n\<close>.\<close>

definition text_at :: "nat \<Rightarrow> byte list \<Rightarrow> int \<Rightarrow> int \<Rightarrow> byte list \<Rightarrow> bool" where
  "text_at n S a l t \<longleftrightarrow> 0 \<le> a \<and> 0 \<le> l \<and> nat a + nat l < n \<and> n \<le> length S \<and>
     slice S (nat a) (nat a + nat l) = t \<and> S ! (nat a + nat l) = 0"

fun stands :: "nat \<Rightarrow> byte list \<Rightarrow> attribute_member \<Rightarrow> attribute \<Rightarrow> bool" where
  "stands n S m (Identifier t) = False"
| "stands n S m (Class c) = (am_name m < 0 \<and> text_at n S (am_value m) (am_value_length m) c)"
| "stands n S m (Record name v) =
     (0 \<le> am_name m \<and> text_at n S (am_name m) (am_name_length m) name \<and> text_at n S (am_value m) (am_value_length m) v)"

definition anchored :: "nat \<Rightarrow> byte list \<Rightarrow> anchor \<Rightarrow> byte list option \<Rightarrow> bool" where
  "anchored n S anchor i \<longleftrightarrow> (case i of None \<Rightarrow> fst anchor < 0 | Some t \<Rightarrow> text_at n S (fst anchor) (snd anchor) t)"

definition strings_in :: "attribute_scratch \<Rightarrow> byte list \<Rightarrow> bool" where
  "strings_in w S \<longleftrightarrow> (\<exists>buf. sc_strings w = Some buf \<and> strbuf_wf buf \<and> \<not> oom buf \<and> ptr buf = S)"

definition staged :: "nat \<Rightarrow> attribute_scratch \<Rightarrow> byte list \<Rightarrow> anchor \<Rightarrow> attribute list \<Rightarrow> bool" where
  "staged n w S anchor as \<longleftrightarrow> strings_in w S \<and> n \<le> length S \<and>
     list_all2 (stands n S) (sc_members w) (listed as) \<and> anchored n S anchor (identifier_of as)"

definition workspace_ok :: "attribute_scratch \<Rightarrow> bool" where
  "workspace_ok w \<longleftrightarrow> (case sc_strings w of Some buf \<Rightarrow> strbuf_wf buf | None \<Rightarrow> True)"

text \<open>What stands before \<open>n\<close> stands still when the bytes before \<open>n\<close> stay.\<close>

lemma text_at_keeps:
  assumes "text_at n S a l t" and "take n S' = take n S" and "n \<le> m" and "m \<le> length S'"
  shows "text_at m S' a l t"
proof -
  have "nat l \<le> n - nat a" using assms(1) unfolding text_at_def by linarith
  then have "slice S' (nat a) (nat a + nat l) = slice (take n S') (nat a) (nat a + nat l)"
    "slice S (nat a) (nat a + nat l) = slice (take n S) (nat a) (nat a + nat l)"
    "S' ! (nat a + nat l) = take n S' ! (nat a + nat l)" "S ! (nat a + nat l) = take n S ! (nat a + nat l)"
    using assms(1) by (simp_all add: text_at_def slice_def drop_take min_def)
  then show ?thesis using assms by (simp add: text_at_def)
qed

lemma stands_keeps:
  "stands n S mb a \<Longrightarrow> take n S' = take n S \<Longrightarrow> n \<le> m \<Longrightarrow> m \<le> length S' \<Longrightarrow> stands m S' mb a"
  using text_at_keeps by (cases a) auto

lemma anchored_keeps:
  "anchored n S anchor i \<Longrightarrow> take n S' = take n S \<Longrightarrow> n \<le> m \<Longrightarrow> m \<le> length S' \<Longrightarrow> anchored m S' anchor i"
  using text_at_keeps by (auto simp: anchored_def split: option.splits)

lemma staged_keeps:
  assumes "staged n w S anchor as" and "take n S' = take n S" and "n \<le> m" and "m \<le> length S'"
    and "strings_in w' S'" and "sc_members w' = sc_members w"
  shows "staged m w' S' anchor as"
  using assms stands_keeps [OF _ assms(2-4)] anchored_keeps [OF _ assms(2-4)]
  by (auto simp: staged_def elim!: list_all2_mono)

lemma staged_later: "staged n w S anchor as \<Longrightarrow> n \<le> m \<Longrightarrow> m \<le> length S \<Longrightarrow> staged m w S anchor as"
  using staged_keeps [of n w S anchor as S m w] by (simp add: staged_def)

lemma text_at_end: "n \<le> length S \<Longrightarrow> text_at (length (P @ t @ [0])) (P @ t @ [0]) (int (length P)) (int (length t)) t"
  by (simp add: text_at_def slice_def nth_append)

lemma strings_in_ok: "strings_in w S \<Longrightarrow> workspace_ok w \<and> ptr (strings_of w) = S"
  by (auto simp: strings_in_def workspace_ok_def strings_of_def)

lemma stage_strings:
  assumes "strings_in w S" and "stage al bytes w = (st, w')"
  shows "workspace_ok w' \<and> sc_members w' = sc_members w \<and> sc_capacity w' = sc_capacity w \<and>
    (st = -1 \<or> st = int (length S) \<and> strings_in w' (S @ bytes @ [0]))"
proof -
  obtain buf where b: "sc_strings w = Some buf" "strbuf_wf buf" "\<not> oom buf" "ptr buf = S"
    using assms(1) by (auto simp: strings_in_def)
  have "appended buf (bytes @ [0]) (strbuf_putc (aa_strings al) (strbuf_put (aa_strings al) buf bytes) 0)"
    using appended_trans [OF appended_put [OF b(2)] appended_putc [OF strbuf_put_wf [OF b(2)]]] .
  then show ?thesis using assms(2) b
    by (auto simp: stage_def Let_def strings_of_def appended_def workspace_ok_def strings_in_def size_of_def)
qed

lemma add_member_cases:
  obtains "add_member al nm nl v vl w = Some (False, w)"
  | room where "add_member al nm nl v vl w = Some (True, w\<lparr>sc_capacity := room, sc_members := sc_members w @
      [\<lparr>am_name = nm, am_name_length = nl, am_value = v, am_value_length = vl\<rparr>]\<rparr>)"
proof -
  have "0 < MEMBER_SIZE" "MEMBER_SIZE \<le> SIZE_MAX" by (simp_all add: MEMBER_SIZE_def SIZE_MAX_def)
  then show thesis
    by (cases rule: reserve_cases [of MEMBER_SIZE "aa_members al" "sc_capacity w" "length (sc_members w) + 1"])
      (auto simp: add_member_def intro: that)
qed

lemma staged_add:
  assumes "staged n w S anchor as" and "stands n S m a" and "listed [a] = [a]"
  shows "staged n (w\<lparr>sc_capacity := room, sc_members := sc_members w @ [m]\<rparr>) S anchor (as @ [a])"
proof -
  have "identifier_of (as @ [a]) = identifier_of as" using assms(3) by (cases a) (simp_all add: identifier_append)
  then show ?thesis using assms by (auto simp: staged_def strings_in_def list_all2_appendI)
qed

lemma add_member_staged:
  assumes "staged n w S anchor as" and "stands n S \<lparr>am_name = nm, am_name_length = nl, am_value = v, am_value_length = vl\<rparr> a"
    and "listed [a] = [a]"
  shows "\<exists>ok w'. add_member al nm nl v vl w = Some (ok, w') \<and> workspace_ok w' \<and> (ok \<longrightarrow> staged n w' S anchor (as @ [a]))"
proof (cases rule: add_member_cases [of al nm nl v vl w])
  case 1
  then show ?thesis using strings_in_ok assms(1) by (auto simp: staged_def)
next
  case (2 room)
  note s = staged_add [OF assms, of room]
  have "workspace_ok (w\<lparr>sc_capacity := room, sc_members := sc_members w @
      [\<lparr>am_name = nm, am_name_length = nl, am_value = v, am_value_length = vl\<rparr>]\<rparr>)"
    using s strings_in_ok unfolding staged_def by blast
  then show ?thesis using 2 s by blast
qed

subsection \<open>A run of classes\<close>

lemma end_class_strings:
  assumes "strings_in w S" and "at < length S"
  shows "strings_in (end_class at w) (S[at := 0]) \<and> sc_members (end_class at w) = sc_members w"
  using assms shrink_wf by (auto simp: strings_in_def end_class_def strings_of_def)

text \<open>
  The loop over the value \<open>x\<close> of \<open>len\<close> bytes at \<open>val\<close>: the words before \<open>word\<close> are staged, the rest of
  the value is as it was, and there is no separator from \<open>word\<close> to \<open>at\<close>.
\<close>

definition running :: "byte list \<Rightarrow> nat \<Rightarrow> nat \<Rightarrow> attribute_scratch \<Rightarrow> byte list \<Rightarrow> anchor \<Rightarrow> attribute list \<Rightarrow> bool" where
  "running x val word w S anchor as \<longleftrightarrow> staged (val + word) w S anchor as \<and> word \<le> length x \<and>
     drop (val + word) S = drop word x @ [0]"

lemma running_nth:
  assumes "running x val word w S anchor as" and "word \<le> i" and "i < length x"
  shows "val + i < length S \<and> S ! (val + i) = x ! i"
proof -
  have "length S = val + length x + 1"
    using arg_cong [of _ _ length, OF conjunct2 [OF conjunct2 [OF assms(1) [unfolded running_def]]]] assms
    by (auto simp: running_def staged_def)
  moreover have "S ! (val + i) = drop (val + word) S ! (i - word)" using assms(2) calculation assms(3) by simp
  moreover have "i - word < length x - word" using assms(2,3) by arith
  then have "drop (val + word) S ! (i - word) = x ! i" using assms by (simp add: running_def nth_append)
  ultimately show ?thesis using assms(3) by simp
qed

lemma running_word:
  assumes "running x val word w S anchor as" and "word \<le> at" and "at < length x"
    and "v = \<lparr>am_name = -1, am_name_length = 0, am_value = int (val + word), am_value_length = int (at - word)\<rparr>"
    and "w' = (if word < at then w\<lparr>sc_capacity := room, sc_members := sc_members w @ [v]\<rparr> else w)"
    and "as' = (if word < at then as @ [Class (slice x word at)] else as)"
  shows "running x val (at + 1) (end_class (val + at) w') (S[val + at := 0]) anchor as'"
proof -
  note n = running_nth [OF assms(1,2,3)]
  let ?S = "S[val + at := 0]"
  have st: "strings_in w S" "staged (val + word) w S anchor as" "drop (val + word) S = drop word x @ [0]"
    using assms(1) by (simp_all add: running_def staged_def)
  from end_class_strings [OF st(1)] n
  have e: "strings_in (end_class (val + at) w) ?S" "sc_members (end_class (val + at) w) = sc_members w" by auto
  have k: "staged (val + at + 1) (end_class (val + at) w) ?S anchor as"
    using staged_keeps [OF st(2) _ _ _ e] n assms(2) by simp
  have d: "drop (val + at + 1) ?S = drop (at + 1) x @ [0]"
  proof -
    have "drop (val + at + 1) S = drop (at + 1 - word) (drop (val + word) S)" using assms(2) by (simp add: add.commute)
    then show ?thesis using assms(2,3) by (simp add: st(3))
  qed
  show ?thesis
  proof (cases "word < at")
    case True
    have "slice ?S (val + word) (val + at) = take (at - word) (drop (val + word) S)"
      using assms(2) by (simp add: slice_def drop_update_swap)
    also have "\<dots> = slice x word at" using assms(2,3) by (simp add: st(3) slice_def)
    finally have "slice ?S (val + word) (val + at) = slice x word at" .
    then have "text_at (val + at + 1) ?S (int (val + word)) (int (at - word)) (slice x word at)"
      unfolding text_at_def nat_int using n True by simp
    then have "stands (val + at + 1) ?S v (Class (slice x word at))" by (simp add: assms(4))
    note s = staged_add [OF k this, of room]
    have "end_class (val + at) (w\<lparr>sc_capacity := room, sc_members := sc_members w @ [v]\<rparr>) =
        (end_class (val + at) w)\<lparr>sc_capacity := room, sc_members := sc_members (end_class (val + at) w) @ [v]\<rparr>"
      by (cases w) (simp add: end_class_def strings_of_def)
    then show ?thesis using s d True assms(3) by (simp add: running_def assms(5,6))
  next
    case False
    then show ?thesis using k d assms(3) by (simp add: running_def assms(5,6))
  qed
qed

lemma running_ok: "running x val word w S anchor as \<Longrightarrow> workspace_ok w"
  using strings_in_ok by (auto simp: running_def staged_def)

lemma class_run_runs:
  assumes "at \<le> length x"
  shows "running x val word w S anchor as \<Longrightarrow> word \<le> at \<Longrightarrow> (\<forall>c \<in> set (slice x word at). \<not> class_separator c) \<Longrightarrow>
    \<exists>ok word' w'. class_run_loop al val (length x) at word w = Some (ok, word', w') \<and> workspace_ok w' \<and>
      (ok \<longrightarrow> (\<exists>S' cs. running x val word' w' S' anchor (as @ map Class cs) \<and>
         (\<forall>c \<in> set (drop word' x). \<not> class_separator c) \<and>
         class_words (drop word x) = cs @ (if word' < length x then [drop word' x] else [])))"
  using assms
proof (induction "length x - at" arbitrary: at word w S as)
  case 0
  then have at: "at = length x" by simp
  have "slice x word at = drop word x" using at by (simp add: slice_def)
  then have "class_words (drop word x) = (if word < length x then [drop word x] else [])"
    using class_words_word [of "drop word x" "[]"] 0(4) by simp
  moreover have "class_run_loop al val (length x) at word w = Some (True, word, w)"
    using at by (subst class_run_loop.simps) simp
  ultimately show ?case using 0(2,4) running_ok [OF 0(2)] \<open>slice x word at = drop word x\<close>
    by (intro exI [of _ True] exI [of _ word] exI [of _ w] conjI impI exI [of _ S] exI [of _ "[]"]) simp_all
next
  case (Suc k)
  then have at: "at < length x" by simp
  note R = Suc(3) and word = Suc(4) and sep = Suc(5)
  have p: "ptr (strings_of w) ! (val + at) = x ! at"
    using running_nth [OF R word at] strings_in_ok R by (auto simp: running_def staged_def)
  have snoc: "slice x word (at + 1) = slice x word at @ [x ! at]"
    using slice_append [of word at "at + 1" x] word slice_one [OF at] by simp
  have rest: "drop word x = slice x word at @ x ! at # drop (at + 1) x"
    using drop_slice [OF word, of x] Cons_nth_drop_Suc [OF at] by simp
  show ?case
  proof (cases "class_separator (x ! at)")
    case False
    then have "\<forall>c \<in> set (slice x word (at + 1)). \<not> class_separator c" using sep snoc by auto
    then show ?thesis using Suc(1) [of "at + 1" word w S as] Suc(2) R word at p False by (subst class_run_loop.simps) simp
  next
    case True
    let ?v = "\<lparr>am_name = -1, am_name_length = 0, am_value = int (val + word), am_value_length = int (at - word)\<rparr>"
    let ?as = "if word < at then as @ [Class (slice x word at)] else as"
    have W: "class_words (drop word x) = (if word < at then [slice x word at] else []) @ class_words (drop (at + 1) x)"
    proof (cases "word < at")
      case True
      then have "slice x word at \<noteq> []" using at by (simp add: slice_def)
      then show ?thesis using class_words_word [OF sep, of "x ! at # drop (at + 1) x"] \<open>class_separator (x ! at)\<close> True rest
        by (simp add: class_words_sep)
    next
      case False
      then show ?thesis using rest word \<open>class_separator (x ! at)\<close> by (simp add: class_words_sep)
    qed
    have go: ?thesis
      if "w1 = (if word < at then w\<lparr>sc_capacity := room, sc_members := sc_members w @ [?v]\<rparr> else w)"
        and "(if at > word then add_member al (-1) 0 (int (val + word)) (int (at - word)) w else Some (True, w)) = Some (True, w1)" for room w1
    proof -
      have r: "running x val (at + 1) (end_class (val + at) w1) (S[val + at := 0]) anchor ?as"
        by (rule running_word [OF R word at refl that(1) refl])
      have "k = length x - (at + 1)" "\<forall>c \<in> set (slice x (at + 1) (at + 1)). \<not> class_separator c" "at + 1 \<le> length x"
        using Suc(2) at by simp_all
      from Suc(1) [OF this(1) r order_refl this(2,3)] obtain ok word' w' where
        l: "class_run_loop al val (length x) (at + 1) (at + 1) (end_class (val + at) w1) = Some (ok, word', w')" "workspace_ok w'"
        and r: "ok \<longrightarrow> (\<exists>S' cs. running x val word' w' S' anchor (?as @ map Class cs) \<and> (\<forall>c \<in> set (drop word' x). \<not> class_separator c) \<and>
           class_words (drop (at + 1) x) = cs @ (if word' < length x then [drop word' x] else []))"
        by blast
      have "class_run_loop al val (length x) at word w = Some (ok, word', w')"
        using at p True that(2) l(1) by (subst class_run_loop.simps) simp
      moreover have "\<exists>S' cs. running x val word' w' S' anchor (as @ map Class cs) \<and> (\<forall>c \<in> set (drop word' x). \<not> class_separator c) \<and>
           class_words (drop word x) = cs @ (if word' < length x then [drop word' x] else [])" if ok
      proof -
        from r that obtain S' cs where "running x val word' w' S' anchor (?as @ map Class cs)" "\<forall>c \<in> set (drop word' x). \<not> class_separator c"
           "class_words (drop (at + 1) x) = cs @ (if word' < length x then [drop word' x] else [])" by blast
        then show ?thesis unfolding W
          by (intro exI [of _ S'] exI [of _ "(if word < at then [slice x word at] else []) @ cs"]) (cases "word < at"; simp)
      qed
      ultimately show ?thesis using l(2) by blast
    qed
    show ?thesis
    proof (cases "word < at")
      case True
      show ?thesis
      proof (cases rule: add_member_cases [of al "-1" 0 "int (val + word)" "int (at - word)" w])
        case 1
        have "class_run_loop al val (length x) at word w = Some (False, word, w)"
          using at p \<open>class_separator (x ! at)\<close> True 1 by (subst class_run_loop.simps) simp
        then show ?thesis using running_ok [OF R] by blast
      next
        case (2 room)
        show ?thesis by (rule go [of _ room]) (use True 2 in simp_all)
      qed
    qed (rule go, simp_all)
  qed
qed

subsection \<open>Members are staged as what they say\<close>

definition holds :: "attribute_scratch \<Rightarrow> anchor \<Rightarrow> attribute list \<Rightarrow> bool" where
  "holds w anchor as \<longleftrightarrow> (\<exists>S. staged (length S) w S anchor as)"

lemma holdsI: "staged (length S) w S anchor as \<Longrightarrow> holds w anchor as"
  by (auto simp: holds_def)

lemma holds_ok: "holds w anchor as \<Longrightarrow> workspace_ok w"
  using strings_in_ok by (auto simp: holds_def staged_def)

lemma add_member_holds:
  assumes "staged (length S) w S anchor as"
    and "stands (length S) S \<lparr>am_name = nm, am_name_length = nl, am_value = v, am_value_length = vl\<rparr> a"
    and "listed [a] = [a]"
  shows "\<exists>ok w'. add_member al nm nl v vl w = Some (ok, w') \<and> workspace_ok w' \<and> (ok \<longrightarrow> holds w' anchor (as @ [a]))"
  using add_member_staged [OF assms, of al] holdsI by blast

lemma staged_identifier:
  assumes "staged n w S anchor as" and "text_at n S a l t"
  shows "staged n w S (a, l) (as @ [Identifier t])"
  using assms by (simp add: staged_def identifier_append anchored_def)

lemma add_class_run_staged:
  assumes "staged val w S anchor as" and "drop val S = x @ [0]"
  shows "\<exists>ok w'. add_class_run al val (length x) w = Some (ok, w') \<and> workspace_ok w' \<and>
    (ok \<longrightarrow> holds w' anchor (as @ map Class (class_words x)))"
proof -
  have "running x val 0 w S anchor as" using assms by (simp add: running_def)
  moreover have "\<forall>c \<in> set (slice x 0 0). \<not> class_separator c" by simp
  ultimately obtain ok word w1 where l: "class_run_loop al val (length x) 0 0 w = Some (ok, word, w1)"
    and w1: "workspace_ok w1" and r: "ok \<longrightarrow> (\<exists>S' cs. running x val word w1 S' anchor (as @ map Class cs) \<and>
      (\<forall>c \<in> set (drop word x). \<not> class_separator c) \<and> class_words (drop 0 x) = cs @ (if word < length x then [drop word x] else []))"
    using class_run_runs [OF le0 _ le0, of x val w S anchor as al] by blast
  show ?thesis
  proof (cases ok)
    case False
    then show ?thesis using l w1 by (auto simp: add_class_run_def)
  next
    case True
    with r obtain S' cs where R: "running x val word w1 S' anchor (as @ map Class cs)"
      and W: "class_words x = cs @ (if word < length x then [drop word x] else [])" by auto
    have S': "drop (val + word) S' = drop word x @ [0]" "word \<le> length x" "val + word \<le> length S'"
      using R by (simp_all add: running_def staged_def)
    have len: "length S' = val + length x + 1" using arg_cong [of _ _ length, OF S'(1)] S'(2,3) by simp
    have st: "staged (length S') w1 S' anchor (as @ map Class cs)"
      using R len staged_later [of "val + word" w1 S' anchor _ "length S'"] by (simp add: running_def)
    show ?thesis
    proof (cases "word < length x")
      case False
      then have "class_words x = cs" "word = length x" using W S'(2) by simp_all
      then show ?thesis using l True w1 holdsI [OF st] by (auto simp: add_class_run_def)
    next
      case word: True
      have "slice S' (val + word) (val + word + (length x - word)) = drop word x"
        by (simp add: slice_def S'(1))
      moreover have "S' ! (val + word + (length x - word)) = (drop word x @ [0]) ! (length x - word)"
        unfolding S'(1) [symmetric] using len word by simp
      ultimately have "text_at (length S') S' (int (val + word)) (int (length x - word)) (drop word x)"
        unfolding text_at_def nat_int using len word by (simp add: nth_append)
      then have "stands (length S') S' \<lparr>am_name = -1, am_name_length = 0, am_value = int (val + word), am_value_length = int (length x - word)\<rparr>
          (Class (drop word x))" by simp
      from add_member_holds [OF st this listed_simps(4)] obtain ok w' where
        "add_member al (-1) 0 (int (val + word)) (int (length x - word)) w1 = Some (ok, w')" "workspace_ok w'"
        "ok \<longrightarrow> holds w' anchor ((as @ map Class cs) @ [Class (drop word x)])" by blast
      then show ?thesis using l True word W by (auto simp: add_class_run_def simp del: of_nat_diff)
    qed
  qed
qed

lemma add_record_staged:
  assumes "staged (length P) w (P @ x @ [0]) anchor as"
  shows "\<exists>ok anchor' w'. add_record al anchor name (length P) (length x) w = Some (ok, anchor', w') \<and> workspace_ok w' \<and>
    (ok \<longrightarrow> holds w' anchor' (as @ named name x))"
proof -
  let ?S = "P @ x @ [0]"
  have st: "staged (length ?S) w ?S anchor as" using staged_later [OF assms] by simp
  have x: "text_at (length ?S) ?S (int (length P)) (int (length x)) x" by (rule text_at_end [of 0 "[]"]) simp
  consider "name = asc ''id''" | "name = asc ''class''" "name \<noteq> asc ''id''" | "name \<noteq> asc ''class''" "name \<noteq> asc ''id''" by blast
  then show ?thesis
  proof cases
    case 1
    have "holds w (int (length P), int (length x)) (as @ [Identifier x])" by (rule holdsI [OF staged_identifier [OF st x]])
    then show ?thesis using 1 holds_ok by (auto simp: add_record_def named_def)
  next
    case 2
    from add_class_run_staged [OF assms, of x al] obtain ok w' where "add_class_run al (length P) (length x) w = Some (ok, w')"
      "workspace_ok w'" "ok \<longrightarrow> holds w' anchor (as @ map Class (class_words x))" by auto
    then show ?thesis using 2 by (simp add: add_record_def named_def)
  next
    case 3
    obtain num w1 where g: "stage al name w = (num, w1)" by fastforce
    from stage_strings [OF _ g, of ?S] st have k: "workspace_ok w1" "sc_members w1 = sc_members w"
      and r: "num = -1 \<or> num = int (length ?S) \<and> strings_in w1 (?S @ name @ [0])" by (auto simp: staged_def)
    show ?thesis
    proof (cases "num = -1")
      case True
      then show ?thesis using 3 g k by (auto simp: add_record_def)
    next
      case False
      let ?T = "?S @ name @ [0]"
      have num: "num = int (length ?S)" and i: "strings_in w1 ?T" using r False by simp_all
      have t: "staged (length ?T) w1 ?T anchor as" by (rule staged_keeps [OF st _ _ _ i k(2)]) simp_all
      have "text_at (length ?T) ?T (int (length P)) (int (length x)) x" by (rule text_at_keeps [OF x]) simp_all
      moreover have "text_at (length ?T) ?T num (int (length name)) name" unfolding num by (rule text_at_end [of 0 "[]"]) simp
      ultimately have "stands (length ?T) ?T \<lparr>am_name = num, am_name_length = int (length name),
          am_value = int (length P), am_value_length = int (length x)\<rparr> (Record name x)" using num by simp
      from add_member_holds [OF t this listed_simps(5)] obtain ok w' where
        "add_member al num (int (length name)) (int (length P)) (int (length x)) w1 = Some (ok, w')" "workspace_ok w'"
        "ok \<longrightarrow> holds w' anchor (as @ [Record name x])" by blast
      then show ?thesis using 3 g num by (auto simp: add_record_def named_def)
    qed
  qed
qed

subsection \<open>The reader passes what recognition passed\<close>

definition around :: "attribute_parser \<Rightarrow> attribute_parser \<Rightarrow> bool" where
  "around p q \<longleftrightarrow> ap_data q = ap_data p \<and> ap_ends q = ap_ends p \<and> ap_oom q = ap_oom p"

lemma around_simps [simp]: "around p p" "around p (add_work k q) \<longleftrightarrow> around p q" "around (add_work k p) q \<longleftrightarrow> around p q"
  "around p (q\<lparr>ap_scratch := w\<rparr>) \<longleftrightarrow> around p q"
  by (auto simp: around_def add_work_def)

lemma around_trans: "around p q \<Longrightarrow> around q r \<Longrightarrow> around p r"
  by (simp add: around_def)

definition reads :: "attribute_parser \<Rightarrow> attribute list \<Rightarrow> (bool \<times> anchor \<times> attribute_parser) option \<Rightarrow> bool" where
  "reads p as r \<longleftrightarrow> (\<exists>ok anchor q. r = Some (ok, anchor, q) \<and> around p q \<and> workspace_ok (ap_scratch q) \<and>
     (ok \<longrightarrow> holds (ap_scratch q) anchor as))"

lemma reads_in_scratch:
  assumes "r = Some (ok, anchor, w)" and "workspace_ok w" and "ok \<longrightarrow> holds w anchor as"
  shows "reads p as (in_scratch p r)"
  using assms by (auto simp: reads_def in_scratch_def)

lemma reads_from: "around p q \<Longrightarrow> reads q as r \<Longrightarrow> reads p as r"
  unfolding reads_def using around_trans by blast

lemma reads_refused: "workspace_ok w \<Longrightarrow> reads p as (in_scratch p (Some (False, anchor, w)))"
  by (rule reads_in_scratch [OF refl]) simp_all

lemma stage_holds:
  assumes "holds w anchor as" and "stage al bytes w = (num, w1)"
  obtains "num < 0" "workspace_ok w1"
  | P where "num = int (length P)" "workspace_ok w1" "staged (length P) w1 (P @ bytes @ [0]) anchor as"
proof -
  obtain S where st: "staged (length S) w S anchor as" using assms(1) by (auto simp: holds_def)
  then have "strings_in w S" by (simp add: staged_def)
  note k = stage_strings [OF this assms(2)]
  show thesis
  proof (cases "num = -1")
    case False
    then have "strings_in w1 (S @ bytes @ [0])" using k by simp
    from staged_keeps [OF st _ _ _ this] k have "staged (length S) w1 (S @ bytes @ [0]) anchor as" by simp
    then show thesis using that(2) [of S] k False by simp
  qed (use k that(1) in simp)
qed

lemma add_text_class:
  assumes "staged (length P) w (P @ t @ [0]) anchor as" and "a = int (length P)" and "l = int (length t)"
  shows "\<exists>ok w'. add_member al (-1) 0 a l w = Some (ok, w') \<and> workspace_ok w' \<and> (ok \<longrightarrow> holds w' anchor (as @ [Class t]))"
proof -
  let ?S = "P @ t @ [0]"
  have st: "staged (length ?S) w ?S anchor as" using staged_later [OF assms(1)] by simp
  have "text_at (length ?S) ?S a l t" unfolding assms(2,3) by (rule text_at_end [of 0 "[]"]) simp
  then have "stands (length ?S) ?S \<lparr>am_name = -1, am_name_length = 0, am_value = a, am_value_length = l\<rparr> (Class t)" by simp
  from add_member_holds [OF st this listed_simps(4)] show ?thesis .
qed

lemma keeping_add:
  assumes "staged (length P) w (P @ t @ [0]) anchor as" and "a = int (length P)" and "l = int (length t)"
  shows "reads p (as @ [Class t]) (in_scratch p (keeping anchor (add_member al (-1) 0 a l w)))"
  using add_text_class [OF assms, of al] by (auto simp: keeping_def intro: reads_in_scratch)

lemma read_dash_reads:
  assumes "holds (ap_scratch p) anchor as"
  shows "reads p (as @ [Class (asc ''unnumbered'')]) (read_dash al anchor p)"
proof -
  obtain num w1 where g: "stage al (asc ''unnumbered'') (ap_scratch p) = (num, w1)" by fastforce
  show ?thesis
  proof (cases rule: stage_holds [OF assms g])
    case (2 P)
    then show ?thesis using keeping_add [OF 2(3) 2(1), of 10] g by (simp add: read_dash_def)
  qed (use g reads_refused in \<open>simp add: read_dash_def\<close>)
qed

lemma read_marked_reads:
  assumes "holds (ap_scratch p) anchor as" and "at \<le> length (ap_data p)" and "from \<le> at"
  shows "reads p (as @ [if marker = 0x23 then Identifier (slice (ap_data p) from at) else Class (slice (ap_data p) from at)])
    (read_marked al marker from at anchor p)"
proof -
  let ?t = "slice (ap_data p) from at"
  obtain num w1 where g: "stage al ?t (ap_scratch p) = (num, w1)" by fastforce
  have l: "int (at - from) = int (length ?t)" using assms(2,3) by (simp add: slice_def)
  show ?thesis
  proof (cases rule: stage_holds [OF assms(1) g])
    case (2 P)
    let ?S = "P @ ?t @ [0]"
    have "staged (length ?S) w1 ?S anchor as" using staged_later [OF 2(3)] by simp
    moreover have "text_at (length ?S) ?S num (int (at - from)) ?t"
      unfolding 2(1) l by (rule text_at_end [of 0 "[]"]) simp
    ultimately have "holds w1 (num, int (at - from)) (as @ [Identifier ?t])"
      by (intro holdsI [OF staged_identifier])
    then have "reads p (as @ [Identifier ?t]) (in_scratch p (Some (True, (num, int (at - from)), w1)))"
      using 2(2) by (intro reads_in_scratch) auto
    moreover note keeping_add [OF 2(3) 2(1) l, of p al]
    ultimately show ?thesis using g 2(1) by (simp add: read_marked_def del: of_nat_diff)
  qed (use g reads_refused in \<open>simp add: read_marked_def\<close>)
qed

lemma read_bare_reads:
  assumes "holds (ap_scratch p) anchor as"
  shows "reads p (as @ named (slice (ap_data p) name at) (asc ''true'')) (read_bare al name at anchor p)"
proof -
  obtain num w1 where g: "stage al (asc ''true'') (ap_scratch p) = (num, w1)" by fastforce
  have four: "length (asc ''true'') = 4" by simp
  show ?thesis
  proof (cases rule: stage_holds [OF assms g])
    case (2 P)
    from add_record_staged [OF 2(3), of al "slice (ap_data p) name at", unfolded four] obtain ok anchor' w' where
      "add_record al anchor (slice (ap_data p) name at) (length P) 4 w1 = Some (ok, anchor', w')" "workspace_ok w'"
      "ok \<longrightarrow> holds w' anchor' (as @ named (slice (ap_data p) name at) (asc ''true''))" by blast
    from reads_in_scratch [OF this] show ?thesis using g 2(1) by (simp add: read_bare_def)
  qed (use g reads_refused in \<open>simp add: read_bare_def\<close>)
qed

subsection \<open>A member with a value\<close>

text \<open>The reader decodes the value that recognition stepped over.\<close>

definition decode_value ::
  "attribute_allocs \<Rightarrow> entity_table \<Rightarrow> nat \<Rightarrow> nat \<Rightarrow> attribute_parser \<Rightarrow> nat \<times> attribute_parser"
where
  "decode_value al ents finish at p =
     (let (after, p) = (if BYTE_CLASS (ap_data p ! at) AND BYTE_QUOTE \<noteq> 0 then decode_quoted al ents at finish p else (0, p))
      in if after \<noteq> 0 then (after, p) else decode_unquoted al at finish p)"

definition decoded :: "attribute_parser \<Rightarrow> byte list \<Rightarrow> attribute_parser \<Rightarrow> bool" where
  "decoded p t q \<longleftrightarrow> around p q \<and> sc_members (ap_scratch q) = sc_members (ap_scratch p) \<and>
     (\<exists>out. sc_strings (ap_scratch q) = Some out \<and> appended (strings_of (ap_scratch p)) t out)"

lemma quote_bit: "BYTE_CLASS c AND BYTE_QUOTE \<noteq> 0 \<longleftrightarrow> quote_mark c"
  by (auto simp: quote_mark_def BYTE_CLASS_def byte_bits)

lemma decoded_again:
  assumes "decoded p [] q" and "decoded q t r"
  shows "decoded p t r"
  using assms around_trans appended_trans [of "strings_of (ap_scratch p)" "[]" _ t]
  by (fastforce simp: decoded_def strings_of_def)

lemma decode_unquoted_decodes:
  assumes "ap_data p = s" and "strbuf_wf (strings_of (ap_scratch p))" and "limit < length s" and "s ! limit = 0x7D"
    and "at \<le> limit" and "bare_end s at \<le> limit" and "decode_unquoted al at (Suc limit) p = (v, q)"
  shows "v = bare_end s at \<and> decoded p (unescape_loop (slice s at v)) q"
proof -
  obtain v' out w' where l: "decode_unquoted_loop al s (Suc limit) at (strings_of (ap_scratch p)) 0 = (v', out, w')"
    using prod_cases3 by blast
  from decode_unquoted_value [OF assms(3,4) l assms(2,5,6)] show ?thesis
    using assms(1,7) l by (auto simp: decode_unquoted_def decoded_def)
qed

lemma decode_value_decodes:
  assumes "ap_data p = s" and "strbuf_wf (strings_of (ap_scratch p))" and "plain_names ents"
    and "limit < length s" and "s ! limit = 0x7D" and "e < limit" and "value_over s e \<le> limit"
    and "unbroken_lines s limit (e + 2)" and "decode_value al ents (Suc limit) (e + 1) p = (v, q)"
  shows "v = value_over s e \<and> decoded p (value_text ents s limit e) q"
proof (cases "quote_mark (s ! (e + 1))")
  case False
  then have n: "quoted_value s e = None" by (simp add: quoted_value_def)
  have "decode_unquoted al (e + 1) (Suc limit) p = (v, q)" using False assms(1,9) by (simp add: decode_value_def quote_bit)
  from decode_unquoted_decodes [OF assms(1,2,4,5) _ _ this] show ?thesis
    using assms(6,7) n by (auto simp: value_over_def value_text_def)
next
  case True
  let ?b = "strings_of (ap_scratch p)"
  obtain r out w' where l: "decode_quoted_loop al ents s (s ! (e + 1)) (Suc limit) (e + 2) ?b 0 = (r, out, w')"
    using prod_cases3 by blast
  let ?out = "if r = 0 then strbuf_truncate out (size_of ?b) else out"
  obtain q1 where q1: "q1 = (add_work w' p)\<lparr>ap_scratch := (ap_scratch p)\<lparr>sc_strings := Some ?out\<rparr>\<rparr>" by simp
  have d: "decode_quoted al ents (e + 1) (Suc limit) p = (r, q1)"
    using l assms(1) by (simp add: decode_quoted_def q1 Let_def)
  have D: "(if r \<noteq> 0 then (r, q1) else decode_unquoted al (e + 1) (Suc limit) q1) = (v, q)"
    using assms(1,9) True d by (simp add: decode_value_def quote_bit split: if_splits)
  show ?thesis
  proof (cases "quoted_value s e")
    case (Some i)
    then have c: "closer s (s ! (e + 1)) (e + 2) = Some i" by (auto simp: quoted_value_def split: if_splits option.splits)
    have i: "i < limit" using assms(7) Some by (simp add: value_over_def)
    note f = decode_quoted_finds [OF True assms(3,4) i l assms(2) c]
    then have "v = i + 1" "q = q1" using D by simp_all
    then show ?thesis using f Some by (simp add: decoded_def q1 value_over_def value_text_def)
  next
    case None
    have "unclosed s (s ! (e + 1)) limit (e + 2)"
      using None True assms(4,6) by (auto simp: unclosed_def quoted_value_def split: if_splits option.splits)
    note f = decode_quoted_fails [OF True assms(3-5) l assms(2) this assms(8)]
    then obtain bs where bs: "appended ?b bs out" and r: "r = 0" by blast
    have q1d: "decoded p [] q1" using appended_truncate [OF bs] r by (simp add: decoded_def q1)
    have u: "decode_unquoted al (e + 1) (Suc limit) q1 = (v, q)" using D r by simp
    have "ap_data q1 = s" "strbuf_wf (strings_of (ap_scratch q1))"
      using q1d assms(1) appended_wf by (auto simp: decoded_def around_def strings_of_def)
    from decode_unquoted_decodes [OF this assms(4,5) _ _ u] assms(6,7) None
    have "v = bare_end s (e + 1)" "decoded q1 (unescape_loop (slice s (e + 1) v)) q" by (auto simp: value_over_def)
    then show ?thesis using decoded_again [OF q1d] None by (simp add: value_over_def value_text_def)
  qed
qed

lemma read_assigned_reads:
  assumes "ap_data p = s" and "holds (ap_scratch p) anchor as" and "plain_names ents"
    and "limit < length s" and "s ! limit = 0x7D" and "e < limit" and "value_over s e \<le> limit"
    and "unbroken_lines s limit (e + 2)"
  shows "\<exists>r. read_assigned al ents (Suc limit) name e anchor p = map_option (\<lambda>(ok, anchor, p). (ok, value_over s e, anchor, p)) r \<and>
    reads p (as @ named (slice s name e) (value_text ents s limit e)) r"
proof -
  let ?t = "value_text ents s limit e" and ?nm = "slice s name e"
  obtain S where st: "staged (length S) (ap_scratch p) S anchor as" using assms(2) by (auto simp: holds_def)
  then obtain buf where b: "sc_strings (ap_scratch p) = Some buf" "strbuf_wf buf" "\<not> oom buf" "ptr buf = S"
    by (auto simp: staged_def strings_in_def)
  then have so: "strings_of (ap_scratch p) = buf" by (simp add: strings_of_def)
  obtain v q where D: "decode_value al ents (Suc limit) (e + 1) p = (v, q)" by fastforce
  have "strbuf_wf (strings_of (ap_scratch p))" using so b by simp
  from decode_value_decodes [OF assms(1) this assms(3-8) D]
  obtain out where v: "v = value_over s e" and q: "around p q" "sc_members (ap_scratch q) = sc_members (ap_scratch p)"
    and out: "sc_strings (ap_scratch q) = Some out" "appended buf ?t out" by (auto simp: decoded_def so)
  let ?buf = "strbuf_putc (aa_strings al) out 0" and ?val = "size_of buf" and ?len = "size_of out - size_of buf"
  let ?w = "(ap_scratch q)\<lparr>sc_strings := Some ?buf\<rparr>"
  let ?r = "in_scratch q (if oom ?buf then Some (False, anchor, ?w) else add_record al anchor ?nm (nat ?val) (nat ?len) ?w)"
  have E: "read_assigned al ents (Suc limit) name e anchor p = map_option (\<lambda>(ok, anchor, p). (ok, v, anchor, p)) ?r"
  proof -
    obtain r q1 where d1: "(if BYTE_CLASS (ap_data p ! (e + 1)) AND BYTE_QUOTE \<noteq> 0 then decode_quoted al ents (e + 1) (Suc limit) p
        else (0, p)) = (r, q1)" by fastforce
    have d2: "(if r \<noteq> 0 then (r, q1) else decode_unquoted al (e + 1) (Suc limit) q1) = (v, q)"
      using D unfolding decode_value_def d1 Let_def case_prod_conv .
    have "ap_data q = s" "strings_of (ap_scratch q) = out" using q(1) out(1) assms(1) by (simp_all add: around_def strings_of_def)
    then show ?thesis unfolding read_assigned_def Let_def d1 case_prod_conv d2 so by simp
  qed
  have a: "appended buf (?t @ [0]) ?buf" using appended_trans [OF out(2) appended_putc [OF appended_wf [OF out(2)]]] .
  have "reads q (as @ named ?nm ?t) ?r"
  proof (cases "oom ?buf")
    case True
    then show ?thesis using reads_refused [of ?w] a by (simp add: workspace_ok_def appended_def)
  next
    case False
    then have "\<not> oom out" using appended_putc [OF appended_wf [OF out(2)], of 0 "aa_strings al"] by (auto simp: appended_def)
    then have n: "nat ?val = length S" "nat ?len = length ?t" using out(2) b(4) by (simp_all add: appended_def size_of_def)
    have "strings_in ?w (S @ ?t @ [0])" using a False b(4) by (simp add: strings_in_def appended_def)
    from staged_keeps [OF st _ _ _ this] q(2) have "staged (length S) ?w (S @ ?t @ [0]) anchor as" by simp
    from add_record_staged [OF this, of al ?nm] obtain ok anchor' w' where
      "add_record al anchor ?nm (length S) (length ?t) ?w = Some (ok, anchor', w')" "workspace_ok w'"
      "ok \<longrightarrow> holds w' anchor' (as @ named ?nm ?t)" by blast
    from reads_in_scratch [OF this] show ?thesis using False n by simp
  qed
  from reads_from [OF q(1) this] show ?thesis using E unfolding v by blast
qed

subsection \<open>The loop\<close>

lemma block_end_space:
  assumes "block_end s b = Some f" and "horizontal (s ! b) \<or> new_line (s ! b)"
  shows "block_end s (b + 1) = Some f"
proof -
  have b: "b < length s" using assms(1) by (subst (asm) block_end.simps) (simp split: if_splits)
  obtain b' where g: "gap_over s b = Some b'" and e: "block_end s b' = Some f"
    using assms b by (subst (asm) block_end.simps) (auto split: option.splits)
  have b': "b' < length s" using e by (subst (asm) block_end.simps) (simp split: if_splits)
  show ?thesis
  proof (cases "b' = b + 1")
    case False
    let ?skip = "skip_while horizontal s"
    have gap: "block_end s (b + 1) = Some f" if "gap_over s (b + 1) = Some b'" "b + 1 < length s" "horizontal (s ! (b + 1)) \<or> new_line (s ! (b + 1))"
      using that e by (subst block_end.simps) simp
    show ?thesis
    proof (cases "horizontal (s ! b)")
      case True
      then have k: "?skip b = ?skip (b + 1)" using b by (subst skip_while.simps) simp
      then have "gap_over s (b + 1) = Some b'" using g by (simp add: gap_over_def)
      moreover have "b + 1 < length s \<and> (horizontal (s ! (b + 1)) \<or> new_line (s ! (b + 1)))"
      proof (rule ccontr)
        assume "\<not> ?thesis"
        then have "?skip (b + 1) = b + 1" by (subst skip_while.simps) auto
        then show False using \<open>\<not> (b + 1 < length s \<and> (horizontal (s ! (b + 1)) \<or> new_line (s ! (b + 1))))\<close> g k False
          by (auto simp: gap_over_def Let_def)
      qed
      ultimately show ?thesis using gap by blast
    next
      case h: False
      then have n: "new_line (s ! b)" "?skip b = b" using assms(2) by (auto simp: skip_while.simps [of horizontal s b])
      then have t: "b' = ?skip (after_line s b)" "\<not> new_line (s ! b')" using g b b' by (auto simp: gap_over_def Let_def split: if_splits)
      show ?thesis
      proof (cases "after_line s b = b + 1")
        case True
        then have "?skip (b + 1) = b'" using t by simp
        moreover have "b + 1 < length s \<and> horizontal (s ! (b + 1))"
          using False t True by (metis skip_while.simps)
        ultimately show ?thesis using gap t(2) by (simp add: gap_over_def Let_def)
      next
        case False
        then have c: "b + 1 < length s" "s ! (b + 1) = 0x0A" "after_line s b = b + 2" by (auto simp: after_line_def split: if_splits)
        then have "?skip (b + 1) = b + 1" by (subst skip_while.simps) (simp add: horizontal_iff)
        moreover have "after_line s (b + 1) = b + 2" using c by (simp add: after_line_def)
        ultimately show ?thesis using gap t c by (simp add: gap_over_def Let_def new_line_iff)
      qed
    qed
  qed (use e in simp)
qed

lemma skip_while_take: "skip_while p s at < n \<Longrightarrow> skip_while p (take n s) at = skip_while p s at"
proof (induction p s at rule: skip_while.induct)
  case (1 p s at)
  then show ?case using skip_while_ge [of at p s]
    by (cases "at < length s \<and> p (s ! at)") (auto simp: skip_while.simps [of p _ at])
qed

text \<open>A name ends inside the block, where the reader looks no further.\<close>

lemma scan_name_in:
  assumes "ap_data p = s" and "limit < length s" and "s ! limit = 0x7D" and "b \<le> limit"
  shows "scan_name (Suc limit) b p = (name_over s b, add_work (name_over s b - b) p)" and "name_over s b \<le> limit"
proof -
  show le: "name_over s b \<le> limit"
  proof (rule ccontr)
    assume "\<not> ?thesis"
    then have "\<not> name_terminator (s ! limit)" using name_over_in [of b limit s] assms(4) by simp
    then show False using assms(3) by (simp add: name_terminator_iff)
  qed
  then have "skip_while (\<lambda>c. \<not> name_terminator c) (take (Suc limit) s) b = name_over s b"
    unfolding name_over_def by (intro skip_while_take) simp
  then show "scan_name (Suc limit) b p = (name_over s b, add_work (name_over s b - b) p)" using assms(1) by (simp add: scan_name_def Let_def)
qed

lemma block_unbroken:
  assumes "block_end s b = Some (Suc limit)" and "b \<le> at"
  shows "unbroken_lines s limit at"
  using block_no_blank [OF assms(1)] assms(2) by (auto simp: unbroken_lines_def)

lemma block_within:
  assumes "block_end s b = Some (Suc limit)"
  shows "limit < length s" and "s ! limit = 0x7D" and "b \<le> limit"
  using block_end_bounds [OF assms] by simp_all

lemma space_bit: "BYTE_CLASS c AND (BYTE_SPACE OR BYTE_NEWLINE) \<noteq> 0 \<longleftrightarrow> horizontal c \<or> new_line c"
  by (auto simp: horizontal_iff new_line_iff BYTE_CLASS_def byte_bits)

text \<open>The value that a member's name is given lies inside the block.\<close>

lemma block_member:
  assumes "block_end s b = Some (Suc limit)" and "b < limit" and "\<not> (horizontal (s ! b) \<or> new_line (s ! b))"
  obtains b' where "member_at s b = Moves b'" and "block_end s b' = Some (Suc limit)" and "b' \<le> limit"
proof -
  have "b < length s" using block_within(1) [OF assms(1)] assms(2) by simp
  then have m: "(case member_at s b of Closes e \<Rightarrow> Some e | Fails \<Rightarrow> None | Moves b \<Rightarrow> block_end s b) = Some (Suc limit)"
    using assms(1,3) by (subst (asm) block_end.simps) simp
  show thesis
  proof (cases "member_at s b")
    case (Closes e)
    then show thesis using m member_at_closes assms(2) by auto
  next
    case (Moves b')
    then show thesis using m that block_within(3) by simp
  qed (use m in simp)
qed

lemma read_member_reads:
  assumes "ap_data p = s" and "holds (ap_scratch p) anchor as" and "plain_names ents"
    and "block_end s b = Some (Suc limit)" and "b < limit" and "\<not> (horizontal (s ! b) \<or> new_line (s ! b))"
    and "member_at s b = Moves b'" and "b' \<le> limit"
  shows "\<exists>r. read_member al ents (Suc limit) b anchor p = map_option (\<lambda>(ok, anchor, p). (ok, b', anchor, p)) r \<and>
    reads p (as @ member_says ents s limit b) r"
proof -
  let ?q = "add_work 1 p" and ?e = "name_over s (b + 1)"
  note in_block = block_within(1,2) [OF assms(4)]
  have data: "ap_data ?q = s" using assms(1) by (simp add: add_work_def)
  have bnd: "member_boundary s (Suc limit) (b + 1) = member_boundary s (length s) (b + 1)"
    using assms(5) in_block by (auto simp: member_boundary_def)
  have not: "s ! b \<noteq> 0x7D" "s ! b \<noteq> 0x3D" "\<not> quote_mark (s ! b)" "s ! b \<noteq> 0x7B"
    using assms(7) by (auto simp: member_at_def Let_def split: if_splits)
  consider (dash) "s ! b = 0x2D" "member_boundary s (length s) (b + 1)"
    | (marked) "s ! b = 0x23 \<or> s ! b = 0x2E"
    | (plain) "\<not> (s ! b = 0x2D \<and> member_boundary s (length s) (b + 1))" "s ! b \<noteq> 0x23" "s ! b \<noteq> 0x2E" by blast
  then show ?thesis
  proof cases
    case dash
    then have "b' = b + 1" using assms(7) not by (simp add: member_at_def Let_def)
    moreover have "reads p (as @ [Class (asc ''unnumbered'')]) (read_dash al anchor ?q)"
      using reads_from [OF _ read_dash_reads, of p ?q] assms(2) by simp
    ultimately show ?thesis using dash data bnd assms(6)
      by (auto simp: read_member_def Let_def space_bit member_says_def)
  next
    case marked
    note n = scan_name_in [OF data in_block, of "b + 1"]
    have b': "b' = ?e" using marked assms(7) not by (auto simp: member_at_def Let_def split: if_splits)
    let ?r = "add_work (?e - (b + 1)) ?q"
    have "reads ?r (as @ [if s ! b = 0x23 then Identifier (slice s (b + 1) ?e) else Class (slice s (b + 1) ?e)])
        (read_marked al (s ! b) (b + 1) ?e anchor ?r)"
    proof -
      have rd: "ap_data ?r = s" using data by (simp add: add_work_def)
      show ?thesis using read_marked_reads [of ?r anchor as ?e "b + 1" "s ! b" al, unfolded rd] assms(2,5) n(2) in_block
          name_over_bounds(1) [of "b + 1" s] by simp
    qed
    then have "reads p (as @ member_says ents s limit b) (read_marked al (s ! b) (b + 1) ?e anchor ?r)"
      using reads_from [of p ?r] marked by (auto simp: member_says_def Let_def)
    then show ?thesis using marked data bnd assms(5,6) n(1) b'
      by (auto simp: read_member_def Let_def space_bit)
  next
    case plain
    have nt: "\<not> name_terminator (s ! b)" using assms(6) not by (simp add: name_terminator_iff)
    have e: "name_over s b = ?e" using nt in_block assms(5) by (simp add: name_over_def skip_while.simps [of _ s b])
    note n = scan_name_in [OF data in_block, of b]
    let ?r = "add_work (?e - b) ?q"
    have r: "scan_name (Suc limit) b ?q = (?e, ?r)" and le: "?e \<le> limit" using n assms(5) e by simp_all
    have rd: "ap_data ?r = s" using data by (simp add: add_work_def)
    show ?thesis
    proof (cases "s ! ?e = 0x3D")
      case True
      then have lt: "?e < limit" using le in_block by (cases "?e = limit") auto
      then have b': "b' = value_over s ?e" using plain assms(7) not in_block True by (auto simp: member_at_def Let_def split: if_splits)
      have "holds (ap_scratch ?r) anchor as" using assms(2) by simp
      from read_assigned_reads [OF rd this assms(3) in_block lt _ block_unbroken [OF assms(4)], of al b] assms(8) b'
        name_over_bounds(1) [of "b + 1" s]
      obtain x where x: "read_assigned al ents (Suc limit) b ?e anchor ?r = map_option (\<lambda>(ok, anchor, p). (ok, b', anchor, p)) x"
        "reads ?r (as @ named (slice s b ?e) (value_text ents s limit ?e)) x" by auto
      have "reads p (as @ member_says ents s limit b) x"
        using reads_from [OF _ x(2), of p] plain True by (auto simp: member_says_def Let_def)
      moreover have "read_member al ents (Suc limit) b anchor p = read_assigned al ents (Suc limit) b ?e anchor ?r"
        using plain data bnd assms(6) r lt True by (auto simp: read_member_def Let_def space_bit)
      ultimately show ?thesis using x(1) by (intro exI [of _ x]) (simp only: simp_thms)
    next
      case False
      then have b': "b' = ?e" using plain assms(7) not by (auto simp: member_at_def Let_def split: if_splits)
      have "reads ?r (as @ named (slice s b ?e) (asc ''true'')) (read_bare al b ?e anchor ?r)"
        using read_bare_reads [of ?r anchor as b ?e al] assms(2) rd by simp
      then have "reads p (as @ member_says ents s limit b) (read_bare al b ?e anchor ?r)"
        using reads_from [of p ?r] plain False by (auto simp: member_says_def Let_def)
      then show ?thesis using plain data bnd assms(6) r False b' by (auto simp: read_member_def Let_def space_bit)
    qed
  qed
qed

lemma read_loop_reads:
  assumes "plain_names ents" and "limit < length s"
  shows "block_end s b = Some (Suc limit) \<Longrightarrow> ap_data p = s \<Longrightarrow> holds (ap_scratch p) anchor as \<Longrightarrow>
    reads p (as @ block_says ents s limit b) (read_loop al ents (Suc limit) b anchor p)"
proof (induction "limit - b" arbitrary: b anchor p as rule: less_induct)
  case less
  have L: "read_loop al ents (Suc limit) b anchor p =
     (if b < limit then
        case read_member al ents (Suc limit) b anchor p of
          None \<Rightarrow> None
        | Some (ok, at, anchor, p) \<Rightarrow> if ok then read_loop al ents (Suc limit) at anchor p else Some (False, anchor, p)
      else Some (True, anchor, p))" by (subst read_loop.simps) simp
  show ?case
  proof (cases "b < limit")
    case False
    then have "block_says ents s limit b = []" by (subst block_says.simps) simp
    then show ?thesis using L False less(4) holds_ok by (auto simp: reads_def)
  next
    case True
    show ?thesis
    proof (cases "horizontal (s ! b) \<or> new_line (s ! b)")
      case sp: True
      let ?q = "add_work 1 p"
      have "read_member al ents (Suc limit) b anchor p = Some (True, b + 1, anchor, ?q)"
        using sp less(3) by (simp add: read_member_def Let_def space_bit add_work_def)
      moreover have "reads ?q (as @ block_says ents s limit (b + 1)) (read_loop al ents (Suc limit) (b + 1) anchor ?q)"
        using less(1) [OF _ block_end_space [OF less(2) sp], of ?q anchor as] True less(3,4) by (simp add: add_work_def)
      moreover have "block_says ents s limit b = block_says ents s limit (b + 1)"
        using True sp assms(2) by (subst block_says.simps) simp
      ultimately show ?thesis using L True reads_from [of p ?q] by simp
    next
      case sp: False
      from block_member [OF less(2) True sp] obtain b' where
        m: "member_at s b = Moves b'" "block_end s b' = Some (Suc limit)" "b' \<le> limit" .
      from read_member_reads [OF less(3,4) assms(1) less(2) True sp m(1,3)] obtain x where
        x: "read_member al ents (Suc limit) b anchor p = map_option (\<lambda>(ok, anchor, p). (ok, b', anchor, p)) x"
        "reads p (as @ member_says ents s limit b) x" by blast
      then obtain ok anchor' q where q: "x = Some (ok, anchor', q)" "around p q" "workspace_ok (ap_scratch q)"
        "ok \<longrightarrow> holds (ap_scratch q) anchor' (as @ member_says ents s limit b)" by (auto simp: reads_def)
      have gt: "b < b'" using member_at_gt [OF m(1)] True assms(2) by simp
      have "block_says ents s limit b = member_says ents s limit b @ block_says ents s limit b'"
        using True sp assms(2) m(1) by (subst block_says.simps) simp
      then have "ok \<Longrightarrow> reads q (as @ block_says ents s limit b) (read_loop al ents (Suc limit) b' anchor' q)"
        using less(1) [OF _ m(2), of q anchor' "as @ member_says ents s limit b"] q gt True less(3) by (simp add: around_def)
      then show ?thesis using L True x(1) q reads_from [OF q(2)] by (cases ok) (auto simp: reads_def)
    qed
  qed
qed

subsection \<open>What is laid out\<close>

definition classes_of :: "attribute list \<Rightarrow> byte list list" where
  "classes_of as = concat (map (\<lambda>a. case a of Class c \<Rightarrow> [c] | _ \<Rightarrow> []) as)"

definition records_of :: "attribute list \<Rightarrow> (byte list \<times> byte list) list" where
  "records_of as = concat (map (\<lambda>a. case a of Record n v \<Rightarrow> [(n, v)] | _ \<Rightarrow> []) as)"

text \<open>The text of a chunk, and that a NUL stands past it, inside the strings.\<close>

definition chunk_text :: "byte list \<Rightarrow> chunk \<Rightarrow> byte list" where
  "chunk_text S c = slice S (nat (ch_at c)) (nat (ch_at c) + nat (ch_len c))"

definition in_place :: "byte list \<Rightarrow> chunk \<Rightarrow> bool" where
  "in_place S c \<longleftrightarrow> text_at (length S) S (ch_at c) (ch_len c) (chunk_text S c)"

definition chunks_of :: "attribute_value \<Rightarrow> chunk list" where
  "chunks_of v = (case av_anchor v of Some c \<Rightarrow> [c] | None \<Rightarrow> []) @ av_classes v @ map fst (av_records v) @ map snd (av_records v)"

definition laid_out :: "attribute_value \<Rightarrow> attribute list \<Rightarrow> bool" where
  "laid_out v as \<longleftrightarrow>
     map_option (chunk_text (av_strings v)) (av_anchor v) = identifier_of as \<and>
     map (chunk_text (av_strings v)) (av_classes v) = classes_of as \<and>
     map (\<lambda>(n, t). (chunk_text (av_strings v) n, chunk_text (av_strings v) t)) (av_records v) = records_of as \<and>
     (\<forall>c \<in> set (chunks_of v). in_place (av_strings v) c)"

lemma text_at_chunk: "text_at (length S) S a l t \<Longrightarrow> chunk_text S \<lparr>ch_at = a, ch_len = l\<rparr> = t \<and> in_place S \<lparr>ch_at = a, ch_len = l\<rparr>"
  by (simp add: chunk_text_def in_place_def text_at_def)

lemma listed_of: "classes_of (listed as) = classes_of as" "records_of (listed as) = records_of as"
  by (induction as) (auto simp: classes_of_def records_of_def listed_def split: attribute.splits)

lemma members_laid_out:
  assumes "list_all2 (stands (length S) S) ms bs"
  shows "map (chunk_text S) (map staged_chunk (filter (\<lambda>m. am_name m < 0) ms)) = classes_of bs \<and>
    map (\<lambda>m. (chunk_text S (name_chunk m), chunk_text S (staged_chunk m))) (filter (\<lambda>m. \<not> am_name m < 0) ms) = records_of bs \<and>
    (\<forall>m \<in> set ms. in_place S (staged_chunk m) \<and> (\<not> am_name m < 0 \<longrightarrow> in_place S (name_chunk m)))"
  using assms
proof (induction rule: list_all2_induct)
  case (Cons m ms a bs)
  then show ?case using text_at_chunk
    by (cases a) (auto simp: classes_of_def records_of_def staged_chunk_def name_chunk_def)
qed (simp add: classes_of_def records_of_def)

lemma lay_out_laid:
  assumes "holds w anchor as" and "lay_out al anchor w = Some v"
  shows "laid_out v as"
proof -
  obtain S where st: "staged (length S) w S anchor as" using assms(1) by (auto simp: holds_def)
  then have so: "ptr (strings_of w) = S" and a: "anchored (length S) S anchor (identifier_of as)"
    using strings_in_ok by (auto simp: staged_def)
  have m: "list_all2 (stands (length S) S) (sc_members w) (listed as)" using st by (simp add: staged_def)
  show ?thesis
  proof (cases "S = [] \<and> sc_members w = []")
    case True
    then have "listed as = []" "v = no_attributes" using m assms(2) so by (simp_all add: lay_out_def)
    moreover have "identifier_of as = None" using a True by (auto simp: anchored_def text_at_def split: option.splits)
    ultimately show ?thesis using listed_of [of as]
      by (simp add: laid_out_def no_attributes_def chunks_of_def classes_of_def records_of_def)
  next
    case False
    let ?classes = "filter (\<lambda>m. am_name m < 0) (sc_members w)" and ?records = "filter (\<lambda>m. \<not> am_name m < 0) (sc_members w)"
    let ?bytes = "length ?records * RECORD_SIZE + length ?classes * CHUNK_SIZE + length S"
    have "?classes = [] \<and> ?records = [] \<longleftrightarrow> sc_members w = []" by (auto simp: filter_empty_conv)
    then have "?bytes \<noteq> 0" using False by (auto simp: RECORD_SIZE_def CHUNK_SIZE_def)
    then have "v = \<lparr>av_anchor = (if fst anchor \<ge> 0 then Some \<lparr>ch_at = fst anchor, ch_len = snd anchor\<rparr> else None),
        av_classes = map staged_chunk ?classes, av_records = map (\<lambda>m. (name_chunk m, staged_chunk m)) ?records,
        av_strings = S, av_stored = True\<rparr>"
      using assms(2) unfolding lay_out_def Let_def so by (cases "aa_block al ?bytes"; simp only: if_True if_False option.inject option.distinct)
    then have v: "av_anchor v = (if fst anchor \<ge> 0 then Some \<lparr>ch_at = fst anchor, ch_len = snd anchor\<rparr> else None)"
      "av_classes v = map staged_chunk ?classes" "av_records v = map (\<lambda>m. (name_chunk m, staged_chunk m)) ?records" "av_strings v = S"
      by simp_all
    note l = members_laid_out [OF m, unfolded listed_of]
    have "map_option (chunk_text S) (av_anchor v) = identifier_of as \<and> (\<forall>c. av_anchor v = Some c \<longrightarrow> in_place S c)"
      using a text_at_chunk [of S] by (auto simp: v(1) anchored_def text_at_def split: option.splits)
    then show ?thesis using l by (auto simp: laid_out_def chunks_of_def v(2-) comp_def split: option.splits)
  qed
qed

lemma read_container_reads:
  assumes "ap_data p = s" and "workspace_ok (ap_scratch p)" and "plain_names ents" and "block_end s (start + 1) = Some finish"
  shows "reads p (block_says ents s (finish - 1) (start + 1)) (read_container al ents start finish (-1, 0) p)"
proof -
  let ?b = "case sc_strings (ap_scratch p) of Some buf \<Rightarrow> buf | None \<Rightarrow> strbuf_init (aa_strings al) 0"
  let ?w = "(ap_scratch p)\<lparr>sc_strings := Some (strbuf_clear ?b), sc_members := []\<rparr>"
  obtain limit where limit: "finish = Suc limit" using block_end_bounds [OF assms(4)] by (cases finish) auto
  have "strbuf_wf (strbuf_clear ?b)"
    using assms(2) strbuf_clear_wf strbuf_init_wf by (auto simp: workspace_ok_def split: option.splits)
  then have "staged (length []) ?w [] (-1, 0) []"
    by (simp add: staged_def strings_in_def strbuf_clear_def anchored_def identifier_of_def)
  from holdsI [OF this] have "holds (ap_scratch (p\<lparr>ap_scratch := ?w\<rparr>)) (-1, 0) []" by simp
  from read_loop_reads [OF assms(3) _ assms(4) [unfolded limit] _ this] assms(1) block_within(1) [OF assms(4) [unfolded limit]]
  have "reads (p\<lparr>ap_scratch := ?w\<rparr>) (block_says ents s limit (start + 1)) (read_loop al ents (Suc limit) (start + 1) (-1, 0) (p\<lparr>ap_scratch := ?w\<rparr>))"
    by simp
  from reads_from [OF _ this] show ?thesis by (simp add: read_container_def Let_def limit)
qed

subsection \<open>Properties\<close>

text \<open>
  C4: A parse of the block opened at a brace returns, whatever allocations are refused.  It
  answers a value only for a block that recognition accepts, with the end that recognition finds,
  and the identifier, the classes and the records laid out are those the members of the block name
  in order, each a string of the value's storage closed by a NUL; without a value there was no
  block or an allocation was refused.
\<close>

theorem attributes_parse_reads:
  assumes "recogniser_ok s p" and "workspace_ok (ap_scratch p)" and "plain_names ents"
  shows "\<exists>r q. attributes_parse al ents start p = Some (r, q) \<and>
    (case r of None \<Rightarrow> ap_oom q \<or> answer_at s start = 0
     | Some (v, finish) \<Rightarrow> int finish = answer_at s start \<and> laid_out v (block_says ents s (finish - 1) (nat start + 1)))"
proof (cases "ap_oom p \<or> \<not> (memo_granted al s \<or> ap_ends p \<noteq> None)")
  case True
  from attributes_end_refused [OF assms(1) this] obtain q where
    "attributes_end al p start = Some (0, q)" "ap_oom q \<or> answer_at s start = 0" by blast
  then show ?thesis by (simp add: attributes_parse_def)
next
  case False
  with attributes_end_answers [OF assms(1)] obtain q where
    q: "attributes_end al p start = Some (answer_at s start, q)" "recogniser_ok s q" "kept p q" by blast
  show ?thesis
  proof (cases "answer_at s start = 0")
    case True
    then show ?thesis using q(1) by (simp add: attributes_parse_def)
  next
    case False
    then obtain finish where f: "block_end s (nat start + 1) = Some finish" "answer_at s start = int finish"
      by (auto simp: answer_at_def split: if_splits option.splits)
    have "ap_data q = s" "workspace_ok (ap_scratch q)" using q(2,3) assms(2) recogniser_data by (auto simp: kept_def)
    from read_container_reads [OF this assms(3) f(1), of al] obtain ok anchor q' where
      r: "read_container al ents (nat start) finish (-1, 0) q = Some (ok, anchor, q')"
      "ok \<longrightarrow> holds (ap_scratch q') anchor (block_says ents s (finish - 1) (nat start + 1))"
      by (auto simp: reads_def)
    have E: "attributes_parse al ents start p = (case (if ok then lay_out al anchor (ap_scratch q') else None) of
        None \<Rightarrow> Some (None, q'\<lparr>ap_oom := True\<rparr>)
      | Some v \<Rightarrow> Some (Some (v, finish), add_work (finish - nat start) q'))"
      using q(1) False f(2) r(1) by (simp add: attributes_parse_def split: option.split)
    show ?thesis
    proof (cases "if ok then lay_out al anchor (ap_scratch q') else None")
      case (Some v)
      then have "ok" "lay_out al anchor (ap_scratch q') = Some v" by (simp_all split: if_splits)
      then have "laid_out v (block_says ents s (finish - 1) (nat start + 1))" using r(2) lay_out_laid by blast
      then show ?thesis using E Some f(2) by simp
    qed (use E in simp)
  qed
qed

theorem attributes_parse_reads_witness:
  "\<exists>r q. attributes_parse \<lparr>aa_ends = \<lambda>n. True, aa_strings = \<lambda>n. True, aa_members = \<lambda>n. True, aa_block = \<lambda>n. n < 999\<rparr>
      [(asc ''amp'', [0x26])] 2 (fresh_parser (asc ''# {#top .a k=v}'') no_scratch) = Some (r, q) \<and>
    (case r of None \<Rightarrow> ap_oom q \<or> answer_at (asc ''# {#top .a k=v}'') 2 = 0
     | Some (v, finish) \<Rightarrow> int finish = answer_at (asc ''# {#top .a k=v}'') 2 \<and>
         laid_out v (block_says [(asc ''amp'', [0x26])] (asc ''# {#top .a k=v}'') (finish - 1) (nat 2 + 1)))"
proof (rule attributes_parse_reads)
  show "recogniser_ok (asc ''# {#top .a k=v}'') (fresh_parser (asc ''# {#top .a k=v}'') no_scratch)" by (rule fresh_ok)
  show "workspace_ok (ap_scratch (fresh_parser (asc ''# {#top .a k=v}'') no_scratch))"
    by (simp add: workspace_ok_def fresh_parser_def no_scratch_def)
  show "plain_names [(asc ''amp'', [0x26])]" by (simp add: plain_names_def) code_simp
qed

end
