(* ===== verification/Delimiters.thy ===== *)
theory Delimiters
  imports Utf8 Alloc
begin

text \<open>
  core/delimiter.h and the delimiter half of core/inlines.c: how a run of marker bytes is classified
  against its neighbours, the stack of delimiters, and the pairing of openers and closers into inline
  nodes.  The doubly linked stack is a list, oldest entry first; where the code walks it with
  pointers, the model holds the entries below the pointer, nearest first, and those from it on.
  The nodes of the owner are a list of siblings, and an entry borrows its Text by a name.  The
  classes of a scalar, the bytes that flanking looks through, the containment of a kind, the answers
  of the allocator and an element's own constructor are arguments.
\<close>

subsection \<open>Rules\<close>

datatype delimiter_kind = DELIMITER_MARKER | DELIMITER_BOUNDARY | DELIMITER_FIELD | DELIMITER_CITATION_TOKEN
  | DELIMITER_AFFIX_BOUNDARY

datatype delimiter_body = DELIMITER_INLINE_BODY | DELIMITER_WORD_BODY

datatype delimiter_rule = RULE_NONE | RULE_EMPHASIS | RULE_UNDERSCORE | RULE_MARK | RULE_INSERTION
  | RULE_SUPERSCRIPT | RULE_SUBSCRIPT | RULE_STRIKETHROUGH | RULE_FORMULA_DOLLAR_INLINE
  | RULE_FORMULA_DOLLAR_DISPLAY | RULE_FORMULA_LATEX_INLINE | RULE_FORMULA_LATEX_DISPLAY
  | RULE_DIRECTIVE_LABEL | RULE_COMMENT

datatype inline_kind = NODE_NONE | NODE_EMPHASIS | NODE_STRONG | NODE_MARK | NODE_INSERTION | NODE_SUPERSCRIPT
  | NODE_SUBSCRIPT | NODE_STRIKETHROUGH

record delimiter_rule_spec =
  minimum_width :: nat
  maximum_width :: nat
  run_limit :: nat
  rule_of_three :: bool
  punctuation_bound :: bool
  body :: delimiter_body
  single_kind :: inline_kind
  double_kind :: inline_kind
  exact_run :: bool

definition empty_spec :: delimiter_rule_spec where
  "empty_spec = \<lparr>minimum_width = 0, maximum_width = 0, run_limit = 0, rule_of_three = False, punctuation_bound = False,
     body = DELIMITER_INLINE_BODY, single_kind = NODE_NONE, double_kind = NODE_NONE, exact_run = False\<rparr>"

text \<open>What each element declares of its rule.\<close>

definition EMPHASIS_spec :: delimiter_rule_spec where
  "EMPHASIS_spec = empty_spec\<lparr>minimum_width := 1, maximum_width := 2, rule_of_three := True,
     single_kind := NODE_EMPHASIS, double_kind := NODE_STRONG\<rparr>"

definition UNDERSCORE_spec :: delimiter_rule_spec where
  "UNDERSCORE_spec = empty_spec\<lparr>minimum_width := 1, maximum_width := 2, rule_of_three := True,
     punctuation_bound := True, single_kind := NODE_EMPHASIS, double_kind := NODE_STRONG\<rparr>"

definition MARK_spec :: delimiter_rule_spec where
  "MARK_spec = empty_spec\<lparr>minimum_width := 2, maximum_width := 2, double_kind := NODE_MARK\<rparr>"

definition INSERTION_spec :: delimiter_rule_spec where
  "INSERTION_spec = empty_spec\<lparr>minimum_width := 2, maximum_width := 2, double_kind := NODE_INSERTION\<rparr>"

definition SUPERSCRIPT_spec :: delimiter_rule_spec where
  "SUPERSCRIPT_spec = empty_spec\<lparr>minimum_width := 1, maximum_width := 1, run_limit := 1,
     body := DELIMITER_WORD_BODY, single_kind := NODE_SUPERSCRIPT\<rparr>"

definition SUBSCRIPT_spec :: delimiter_rule_spec where
  "SUBSCRIPT_spec = empty_spec\<lparr>minimum_width := 1, maximum_width := 1, run_limit := 1,
     body := DELIMITER_WORD_BODY, single_kind := NODE_SUBSCRIPT\<rparr>"

definition STRIKETHROUGH_spec :: delimiter_rule_spec where
  "STRIKETHROUGH_spec = empty_spec\<lparr>minimum_width := 2, maximum_width := 2,
     double_kind := NODE_STRIKETHROUGH, exact_run := True\<rparr>"

definition element_spec :: "delimiter_rule \<Rightarrow> delimiter_rule_spec option" where
  "element_spec rule =
     (case rule of RULE_EMPHASIS \<Rightarrow> Some EMPHASIS_spec | RULE_UNDERSCORE \<Rightarrow> Some UNDERSCORE_spec
      | RULE_MARK \<Rightarrow> Some MARK_spec | RULE_INSERTION \<Rightarrow> Some INSERTION_spec
      | RULE_SUPERSCRIPT \<Rightarrow> Some SUPERSCRIPT_spec | RULE_SUBSCRIPT \<Rightarrow> Some SUBSCRIPT_spec
      | RULE_STRIKETHROUGH \<Rightarrow> Some STRIKETHROUGH_spec | _ \<Rightarrow> None)"

text \<open>
  What the scan and the pairing read of a sealed dialect: which rules have an owner, the bytes that
  flanking looks through, and the classes of a scalar.
\<close>

record dialect =
  owned :: "delimiter_rule \<Rightarrow> bool"
  skip_chars :: "byte \<Rightarrow> bool"
  scalar_classes :: "nat \<Rightarrow> byte"

definition delimiter_spec :: "dialect \<Rightarrow> delimiter_rule \<Rightarrow> delimiter_rule_spec" where
  "delimiter_spec d rule =
     (case (if owned d rule then element_spec rule else None) of Some spec \<Rightarrow> spec | None \<Rightarrow> empty_spec)"

subsection \<open>State\<close>

record delimiter =
  dl_node :: nat
  dl_builds :: bool
  dl_position :: nat
  dl_kind :: delimiter_kind
  dl_length :: nat
  dl_rule :: delimiter_rule
  dl_can_open :: bool
  dl_can_close :: bool

text \<open>
  A node of the owner: a Text that entries may borrow, with its name, its place and the length of
  its literal; an inline the pairing made; or any other inline.
\<close>

datatype inline_node =
    Run (run_name: nat) (node_start: int) (node_end: int) (run_length: int)
  | Made inline_kind (node_start: int) (node_end: int) "inline_node list"
  | Other (node_start: int) (node_end: int)

record delimiter_run =
  dr_start :: nat
  dr_end :: nat
  dr_rule :: delimiter_rule
  dr_can_open :: bool
  dr_can_close :: bool

record inline_state =
  is_input :: "byte list"
  is_pos :: nat
  is_stack :: "delimiter list"
  is_cached :: "delimiter_run option"
  is_openers :: "delimiter_rule \<Rightarrow> int"
  is_closers :: "delimiter_rule \<Rightarrow> int"
  is_asked :: "delimiter_rule \<Rightarrow> bool"
  is_token :: int
  is_undecided :: int
  is_error :: bool
  is_siblings :: "inline_node list"
  is_names :: nat
  is_pushes :: nat
  is_made :: nat
  is_work :: nat

definition saw_end :: "inline_state \<Rightarrow> inline_state" where
  "saw_end st = (if is_token st < is_undecided st then st\<lparr>is_undecided := is_token st\<rparr> else st)"

definition work :: "nat \<Rightarrow> inline_state \<Rightarrow> inline_state" where
  "work k st = st\<lparr>is_work := is_work st + k\<rparr>"

subsection \<open>Classification\<close>

text \<open>Where the run of \<open>c\<close> ends.\<close>

function run_end :: "delimiter_rule_spec \<Rightarrow> byte list \<Rightarrow> byte \<Rightarrow> nat \<Rightarrow> nat \<Rightarrow> nat" where
  "run_end spec input c start e =
     (if e < length input \<and> input ! e = c \<and> (run_limit spec = 0 \<or> e - start < run_limit spec)
      then run_end spec input c start (e + 1) else e)"
  by pat_completeness auto
termination
  by (relation "measure (\<lambda>(spec, input, c, start, e). length input - e)") auto

declare run_end.simps [simp del]

definition continuation_byte :: "byte \<Rightarrow> bool" where
  "continuation_byte b \<longleftrightarrow> drop_bit 6 b = 2"

text \<open>Back over skipped bytes and then over the continuation bytes of the character before them.\<close>

fun before_from :: "dialect \<Rightarrow> byte list \<Rightarrow> nat \<Rightarrow> nat" where
  "before_from d input 0 = 0"
| "before_from d input (Suc at) =
     (if continuation_byte (input ! Suc at) \<or>
        skip_chars d (input ! Suc at) \<and> \<not> continuation_byte (input ! (Suc at + 1))
      then before_from d input at else Suc at)"

definition decode_at :: "byte list \<Rightarrow> nat \<Rightarrow> nat \<Rightarrow> nat" where
  "decode_at input from to = snd (utf8proc_decode (input ! from) (slice input (from + 1) to))"

definition before_char :: "dialect \<Rightarrow> byte list \<Rightarrow> nat \<Rightarrow> nat" where
  "before_char d input start =
     (if start > 0 then
        let c = decode_at input (before_from d input (start - 1)) start
        in if c < 0x80 \<and> skip_chars d (of_nat c) then 10 else c
      else 10)"

definition after_from :: "dialect \<Rightarrow> byte list \<Rightarrow> nat \<Rightarrow> nat" where
  "after_from d input e = skip_while (skip_chars d) input e"

definition has_class :: "dialect \<Rightarrow> nat \<Rightarrow> byte \<Rightarrow> bool" where
  "has_class d c cls \<longleftrightarrow> scalar_classes d c AND cls \<noteq> 0"

definition flanks :: "dialect \<Rightarrow> delimiter_rule_spec \<Rightarrow> nat \<Rightarrow> nat \<Rightarrow> bool \<times> bool" where
  "flanks d spec before after =
     (let space_before = has_class d before UNICODE_WHITESPACE; space_after = has_class d after UNICODE_WHITESPACE;
          punct_before = has_class d before UNICODE_PUNCTUATION_OR_SYMBOL;
          punct_after = has_class d after UNICODE_PUNCTUATION_OR_SYMBOL;
          left = (\<not> space_after \<and> (\<not> punct_after \<or> space_before \<or> punct_before));
          right = (\<not> space_before \<and> (\<not> punct_before \<or> space_after \<or> punct_after))
      in if punctuation_bound spec then (left \<and> (\<not> right \<or> punct_before), right \<and> (\<not> left \<or> punct_after))
         else (left, right))"

definition scan_delimiter :: "dialect \<Rightarrow> nat \<Rightarrow> delimiter_rule \<Rightarrow> inline_state \<Rightarrow> delimiter_run \<times> inline_state" where
  "scan_delimiter d start rule st =
     (case (case is_cached st of
              Some run \<Rightarrow> if dr_start run = start \<and> dr_rule run = rule then Some run else None
            | None \<Rightarrow> None) of
        Some run \<Rightarrow> (run, st)
      | None \<Rightarrow>
          let input = is_input st; spec = delimiter_spec d rule;
              e = run_end spec input (input ! start) start start;
              run = \<lparr>dr_start = start, dr_end = e, dr_rule = rule, dr_can_open = False, dr_can_close = False\<rparr>;
              st = work (e - start) st;
              st = (if e = length input then saw_end st else st)
          in if body spec = DELIMITER_WORD_BODY then
               let run = run\<lparr>dr_can_open := True, dr_can_close := True\<rparr> in (run, st\<lparr>is_cached := Some run\<rparr>)
             else if e - start < minimum_width spec \<or> exact_run spec \<and> e - start \<noteq> minimum_width spec then
               (run, st\<lparr>is_cached := Some run\<rparr>)
             else
               let at = after_from d input e;
                   (after, st) = (if at < length input then (decode_at input at (length input), st) else (10, saw_end st));
                   (opens, closes) = flanks d spec (before_char d input start) after;
                   run = run\<lparr>dr_can_open := opens, dr_can_close := closes\<rparr>
               in (run, st\<lparr>is_cached := Some run\<rparr>))"

definition delimiter_needs_stack :: "inline_state \<Rightarrow> delimiter_run \<Rightarrow> bool" where
  "delimiter_needs_stack st run \<longleftrightarrow> dr_can_open run \<or> dr_can_close run \<and> is_openers st (dr_rule run) > 0"

subsection \<open>The stack\<close>

definition count_entry :: "int \<Rightarrow> delimiter \<Rightarrow> inline_state \<Rightarrow> inline_state" where
  "count_entry k e st =
     (let st = (if dl_can_open e then st\<lparr>is_openers := (is_openers st)(dl_rule e := is_openers st (dl_rule e) + k)\<rparr> else st)
      in if dl_can_close e then st\<lparr>is_closers := (is_closers st)(dl_rule e := is_closers st (dl_rule e) + k)\<rparr> else st)"

text \<open>What a removal does beside unlinking the entry.\<close>

definition remove_delimiter :: "delimiter \<Rightarrow> inline_state \<Rightarrow> inline_state" where
  "remove_delimiter e st = count_entry (-1) e st"

definition fresh_entry :: "delimiter_kind \<Rightarrow> nat \<Rightarrow> delimiter" where
  "fresh_entry kind position = \<lparr>dl_node = 0, dl_builds = False, dl_position = position, dl_kind = kind, dl_length = 0,
     dl_rule = RULE_NONE, dl_can_open = False, dl_can_close = False\<rparr>"

text \<open>An entry is taken from the pool or from the allocator, which may refuse it.\<close>

definition push_delimiter_entry :: "(nat \<Rightarrow> bool) \<Rightarrow> delimiter \<Rightarrow> inline_state \<Rightarrow> bool \<times> inline_state" where
  "push_delimiter_entry grant entry st =
     (let st = st\<lparr>is_pushes := is_pushes st + 1\<rparr>
      in if grant (is_pushes st) then (True, st\<lparr>is_stack := is_stack st @ [entry]\<rparr>) else (False, st\<lparr>is_error := True\<rparr>))"

definition push_boundary :: "(nat \<Rightarrow> bool) \<Rightarrow> nat \<Rightarrow> inline_state \<Rightarrow> inline_state" where
  "push_boundary grant position st =
     (if is_stack st \<noteq> [] \<and> dl_kind (last (is_stack st)) = DELIMITER_BOUNDARY
      then st\<lparr>is_stack := butlast (is_stack st) @ [(last (is_stack st))\<lparr>dl_position := position\<rparr>]\<rparr>
      else snd (push_delimiter_entry grant (fresh_entry DELIMITER_BOUNDARY position) st))"

text \<open>The Text of a marker run; \<open>place\<close> is the source extent of a range of the content.\<close>

definition make_str :: "(nat \<Rightarrow> bool) \<Rightarrow> (nat \<Rightarrow> nat \<Rightarrow> int \<times> int) \<Rightarrow> nat \<Rightarrow> nat \<Rightarrow> inline_state \<Rightarrow>
    inline_node option \<times> inline_state" where
  "make_str alloc place from to st =
     (let st = st\<lparr>is_made := is_made st + 1\<rparr>
      in if alloc (is_made st) then
           (Some (Run (is_names st) (fst (place from to)) (snd (place from to)) (int to - int from)),
            st\<lparr>is_names := is_names st + 1\<rparr>)
         else (None, st\<lparr>is_error := True\<rparr>))"

definition push_delimiter ::
  "(nat \<Rightarrow> bool) \<Rightarrow> bool \<Rightarrow> delimiter_rule \<Rightarrow> bool \<Rightarrow> bool \<Rightarrow> inline_node option \<Rightarrow> inline_state \<Rightarrow> inline_state"
where
  "push_delimiter grant builds rule opens closes text_node st =
     (case text_node of
        None \<Rightarrow> st\<lparr>is_error := True\<rparr>
      | Some node \<Rightarrow>
          if rule = RULE_NONE then st
          else
            let entry = (fresh_entry DELIMITER_MARKER (is_pos st))\<lparr>dl_node := run_name node, dl_builds := builds,
                  dl_length := nat (run_length node), dl_rule := rule, dl_can_open := opens, dl_can_close := closes\<rparr>;
                (pushed, st) = push_delimiter_entry grant entry st
            in if pushed then count_entry 1 entry st else st)"

text \<open>
  A matcher consumes the run at the cursor: as an entry of the stack, as plain Text when the rule
  takes a run whole, or not at all.  What it makes is appended to the siblings, as the token loop
  does with the node a matcher answers.
\<close>

definition handle_delim ::
  "(nat \<Rightarrow> bool) \<Rightarrow> (nat \<Rightarrow> bool) \<Rightarrow> (nat \<Rightarrow> nat \<Rightarrow> int \<times> int) \<Rightarrow> delimiter_run \<Rightarrow> inline_state \<Rightarrow>
    inline_node option \<times> inline_state"
where
  "handle_delim grant alloc place run st =
     (let (node, st) = make_str alloc place (dr_start run) (dr_end run) (st\<lparr>is_pos := dr_end run\<rparr>)
      in (node, case node of
                  None \<Rightarrow> st
                | Some _ \<Rightarrow> push_delimiter grant False (dr_rule run) (dr_can_open run) (dr_can_close run) node st))"

definition match_delimiter ::
  "dialect \<Rightarrow> (nat \<Rightarrow> bool) \<Rightarrow> (nat \<Rightarrow> bool) \<Rightarrow> (nat \<Rightarrow> nat \<Rightarrow> int \<times> int) \<Rightarrow> delimiter_rule \<Rightarrow> inline_state \<Rightarrow>
    inline_node option \<times> inline_state"
where
  "match_delimiter d grant alloc place rule st =
     (let (run, st) = scan_delimiter d (is_pos st) rule st
      in if \<not> delimiter_needs_stack st run then
           if \<not> exact_run (delimiter_spec d rule) then (None, st)
           else make_str alloc place (dr_start run) (dr_end run) (st\<lparr>is_pos := dr_end run\<rparr>)
         else handle_delim grant alloc place run st)"

definition scaffold_append :: "inline_node option \<Rightarrow> inline_state \<Rightarrow> inline_state" where
  "scaffold_append node st = (case node of None \<Rightarrow> st | Some n \<Rightarrow> st\<lparr>is_siblings := is_siblings st @ [n]\<rparr>)"

definition has_unmatched_opener :: "delimiter_rule \<Rightarrow> inline_state \<Rightarrow> bool \<times> inline_state" where
  "has_unmatched_opener rule st =
     (if rule = RULE_NONE then (False, st)
      else (is_openers st rule > is_closers st rule, st\<lparr>is_asked := (is_asked st)(rule := True)\<rparr>))"

subsection \<open>Reduction\<close>

definition named_run :: "inline_node list \<Rightarrow> nat \<Rightarrow> inline_node option" where
  "named_run nodes name = find (\<lambda>n. case n of Run m s e l \<Rightarrow> m = name | _ \<Rightarrow> False) nodes"

definition place_of :: "inline_node list \<Rightarrow> nat \<Rightarrow> int" where
  "place_of nodes name = (case named_run nodes name of Some n \<Rightarrow> node_start n | None \<Rightarrow> 0)"

definition literal_length :: "inline_node list \<Rightarrow> nat \<Rightarrow> int" where
  "literal_length nodes name = (case named_run nodes name of Some n \<Rightarrow> run_length n | None \<Rightarrow> 0)"

definition undecide :: "int \<Rightarrow> inline_state \<Rightarrow> inline_state" where
  "undecide start st = (if start < is_undecided st then st\<lparr>is_undecided := start\<rparr> else st)"

text \<open>The entries of a completed range, nearest first: the last boundary stays, the others go.\<close>

fun reduce_delimiter_range :: "delimiter list \<Rightarrow> bool \<Rightarrow> inline_state \<Rightarrow> delimiter list \<times> inline_state" where
  "reduce_delimiter_range [] boundary st = ([], st)"
| "reduce_delimiter_range (e # es) boundary st =
     (let st = work 1 st
      in if dl_kind e = DELIMITER_BOUNDARY \<and> \<not> boundary then
           (let (kept, st) = reduce_delimiter_range es True st in (e # kept, st))
         else
           let st = (if dl_kind e = DELIMITER_MARKER \<and> dl_can_open e \<and> is_asked st (dl_rule e)
                     then undecide (place_of (is_siblings st) (dl_node e)) st else st)
           in reduce_delimiter_range es boundary (remove_delimiter e st))"

subsection \<open>Pairing\<close>

definition pairs_with :: "delimiter_rule_spec \<Rightarrow> delimiter \<Rightarrow> delimiter \<Rightarrow> bool" where
  "pairs_with spec opener closer \<longleftrightarrow> dl_can_open opener \<and> dl_rule opener = dl_rule closer \<and>
     (\<not> rule_of_three spec \<or> \<not> (dl_can_open closer \<or> dl_can_close opener) \<or> dl_length closer mod 3 = 0 \<or>
      (dl_length opener + dl_length closer) mod 3 \<noteq> 0)"

text \<open>
  The opener nearest below the closer, among the entries at or past \<open>bottom\<close>: the entries between,
  the opener, and those below it; and the entries looked at.
\<close>

fun find_opener ::
  "delimiter_rule_spec \<Rightarrow> delimiter \<Rightarrow> nat \<Rightarrow> delimiter list \<Rightarrow> (delimiter list \<times> delimiter \<times> delimiter list) option \<times> nat"
where
  "find_opener spec closer bottom [] = (None, 0)"
| "find_opener spec closer bottom (opener # lower) =
     (if dl_position opener < bottom then (None, 0)
      else if pairs_with spec opener closer then (Some ([], opener, lower), 1)
      else
        case find_opener spec closer bottom lower of
          (None, k) \<Rightarrow> (None, k + 1)
        | (Some (inside, found, lower), k) \<Rightarrow> (Some (opener # inside, found, lower), k + 1))"

text \<open>The siblings up to a named run, the run, and those past it.\<close>

fun split_run :: "nat \<Rightarrow> inline_node list \<Rightarrow> (inline_node list \<times> inline_node \<times> inline_node list) option" where
  "split_run name [] = None"
| "split_run name (n # nodes) =
     (if (case n of Run m s e l \<Rightarrow> m = name | _ \<Rightarrow> False) then Some ([], n, nodes)
      else map_option (\<lambda>(before, found, past). (n # before, found, past)) (split_run name nodes))"

text \<open>
  The nodes between the two runs become the content of the new inline, which takes the opener's
  trailing bytes and the closer's leading ones; a run with no bytes left is released.
\<close>

definition splice_runs :: "inline_kind \<Rightarrow> nat \<Rightarrow> nat \<Rightarrow> nat \<Rightarrow> inline_node list \<Rightarrow> inline_node list" where
  "splice_runs kind used opener closer nodes =
     (case split_run opener nodes of
        None \<Rightarrow> nodes
      | Some (before, o_run, past) \<Rightarrow>
          (case split_run closer past of
             None \<Rightarrow> nodes
           | Some (inner, c_run, after) \<Rightarrow>
               let o_left = run_length o_run - int used; c_left = run_length c_run - int used
               in before @
                  (if o_left = 0 then []
                   else [Run opener (node_start o_run) (if o_left > 0 then node_start o_run + o_left else node_end o_run) o_left]) @
                  [Made kind (node_start o_run + o_left) (node_end c_run - c_left) inner] @
                  (if c_left = 0 then []
                   else [Run closer (if c_left > 0 then node_end c_run - c_left else node_start c_run) (node_end c_run) c_left]) @
                  after))"

definition inner_nodes :: "nat \<Rightarrow> nat \<Rightarrow> inline_node list \<Rightarrow> inline_node list" where
  "inner_nodes opener closer nodes =
     (case split_run opener nodes of
        None \<Rightarrow> []
      | Some (before, o_run, past) \<Rightarrow> (case split_run closer past of None \<Rightarrow> [] | Some (inner, c_run, after) \<Rightarrow> inner))"

text \<open>What becomes of the two entries, and whether the walk goes on past the closer.\<close>

record inserted =
  opener_stays :: bool
  closer_stays :: bool
  moves_on :: bool

definition S_insert_delimited_inline ::
  "dialect \<Rightarrow> (inline_kind \<Rightarrow> bool) \<Rightarrow> (nat \<Rightarrow> bool) \<Rightarrow> delimiter \<Rightarrow> delimiter \<Rightarrow> nat \<Rightarrow> inline_kind \<Rightarrow> inline_state \<Rightarrow>
    inserted \<times> inline_state"
where
  "S_insert_delimited_inline d admits alloc opener closer used kind st =
     (let o_left = literal_length (is_siblings st) (dl_node opener) - int used;
          c_left = literal_length (is_siblings st) (dl_node closer) - int used;
          width = int (minimum_width (delimiter_spec d (dl_rule closer)))
      in if \<not> admits kind then
           (\<lparr>opener_stays = False, closer_stays = False, moves_on = True\<rparr>, remove_delimiter closer (remove_delimiter opener st))
         else
           let st = st\<lparr>is_made := is_made st + 1\<rparr>
           in if \<not> alloc (is_made st) then
                (\<lparr>opener_stays = True, closer_stays = True, moves_on = True\<rparr>, st\<lparr>is_error := True\<rparr>)
              else
                let st = work (length (inner_nodes (dl_node opener) (dl_node closer) (is_siblings st))) st;
                    st = st\<lparr>is_siblings := splice_runs kind used (dl_node opener) (dl_node closer) (is_siblings st)\<rparr>;
                    o_stays = (o_left \<noteq> 0 \<and> \<not> o_left < width); c_stays = (c_left \<noteq> 0 \<and> \<not> c_left < width);
                    st = (if o_stays then st else remove_delimiter opener st);
                    st = (if c_stays then st else remove_delimiter closer st)
                in (\<lparr>opener_stays = o_stays, closer_stays = c_stays, moves_on = \<not> c_stays\<rparr>, st))"

text \<open>
  The walk: \<open>below\<close> are the entries before the closer, nearest first, and \<open>ahead\<close> those from it on.
  \<open>bottoms\<close> is the place below which a search for a length, modulo three, and a rule has failed.
  An element's constructor, \<open>build\<close>, edits the siblings.
\<close>

record pairing =
  pe_dialect :: dialect
  pe_admits :: "inline_kind \<Rightarrow> bool"
  pe_alloc :: "nat \<Rightarrow> bool"
  pe_build :: "delimiter \<Rightarrow> delimiter \<Rightarrow> inline_node list \<Rightarrow> inline_node list"

definition used_width :: "delimiter_rule_spec \<Rightarrow> int \<Rightarrow> int \<Rightarrow> nat" where
  "used_width spec o_length c_length =
     (if o_length < int (maximum_width spec) \<or> c_length < int (maximum_width spec) then minimum_width spec
      else maximum_width spec)"

definition made_kind :: "delimiter_rule_spec \<Rightarrow> nat \<Rightarrow> inline_kind" where
  "made_kind spec used = (if used = 2 then double_kind spec else single_kind spec)"

definition search_bottom :: "delimiter_rule_spec \<Rightarrow> nat \<Rightarrow> nat \<Rightarrow> nat \<Rightarrow> nat" where
  "search_bottom spec bottom word_bottom affix_bottom =
     (let bottom = (if bottom < affix_bottom then affix_bottom else bottom)
      in if body spec = DELIMITER_WORD_BODY \<and> bottom < word_bottom then word_bottom else bottom)"

record pair_state =
  ps_bottoms :: "nat \<Rightarrow> delimiter_rule \<Rightarrow> nat"
  ps_word :: nat
  ps_affix :: nat
  ps_below :: "delimiter list"
  ps_ahead :: "delimiter list"
  ps_state :: inline_state

text \<open>A closer that found its opener: \<open>inside\<close> are the entries between them, \<open>lower\<close> those below.\<close>

definition pair_found ::
  "pairing \<Rightarrow> delimiter \<Rightarrow> delimiter list \<Rightarrow> delimiter list \<Rightarrow> delimiter \<Rightarrow> delimiter list \<Rightarrow> pair_state \<Rightarrow> pair_state"
where
  "pair_found pe closer later inside opener lower ps =
     (let spec = delimiter_spec (pe_dialect pe) (dl_rule closer);
          (kept, st) = reduce_delimiter_range inside False (ps_state ps)
      in if minimum_width spec \<noteq> 0 then
           let used = used_width spec (literal_length (is_siblings st) (dl_node opener))
                 (literal_length (is_siblings st) (dl_node closer));
               (ins, st) = S_insert_delimited_inline (pe_dialect pe) (pe_admits pe) (pe_alloc pe) opener closer
                 used (made_kind spec used) st;
               below = kept @ (if opener_stays ins then [opener] else []) @ lower
           in if \<not> closer_stays ins then ps\<lparr>ps_below := below, ps_ahead := later, ps_state := st\<rparr>
              else if moves_on ins then ps\<lparr>ps_below := closer # below, ps_ahead := later, ps_state := st\<rparr>
              else ps\<lparr>ps_below := below, ps_ahead := closer # later, ps_state := st\<rparr>
         else if dl_builds closer then
           let st = st\<lparr>is_siblings := pe_build pe opener closer (is_siblings st)\<rparr>;
               st = remove_delimiter closer (remove_delimiter opener st)
           in ps\<lparr>ps_below := kept @ lower, ps_ahead := later, ps_state := st\<rparr>
         else ps\<lparr>ps_below := closer # kept @ opener # lower, ps_ahead := later, ps_state := st\<rparr>)"

text \<open>A closer that found none bounds the later searches of its kind.\<close>

definition pair_missed :: "delimiter \<Rightarrow> delimiter list \<Rightarrow> pair_state \<Rightarrow> pair_state" where
  "pair_missed closer later ps =
     (let ps = ps\<lparr>ps_ahead := later, ps_bottoms := (\<lambda>l r. if l = dl_length closer mod 3 \<and> r = dl_rule closer
            then dl_position closer else ps_bottoms ps l r)\<rparr>
      in if dl_can_open closer then ps\<lparr>ps_below := closer # ps_below ps\<rparr>
         else ps\<lparr>ps_state := remove_delimiter closer (ps_state ps)\<rparr>)"

definition pass_boundary :: "delimiter \<Rightarrow> pair_state \<Rightarrow> pair_state" where
  "pass_boundary e ps =
     (if dl_kind e = DELIMITER_BOUNDARY then ps\<lparr>ps_word := dl_position e\<rparr>
      else if dl_kind e = DELIMITER_AFFIX_BOUNDARY then ps\<lparr>ps_affix := dl_position e\<rparr>
      else ps)"

definition pair_turn :: "pairing \<Rightarrow> delimiter \<Rightarrow> delimiter list \<Rightarrow> pair_state \<Rightarrow> pair_state" where
  "pair_turn pe closer later ps =
     (let ps = pass_boundary closer ps; spec = delimiter_spec (pe_dialect pe) (dl_rule closer)
      in if dl_can_close closer then
           let (found, k) = find_opener spec closer
                 (search_bottom spec (ps_bottoms ps (dl_length closer mod 3) (dl_rule closer)) (ps_word ps) (ps_affix ps))
                 (ps_below ps);
               ps = ps\<lparr>ps_state := work k (ps_state ps)\<rparr>
           in case found of
                Some (inside, opener, lower) \<Rightarrow> pair_found pe closer later inside opener lower ps
              | None \<Rightarrow> pair_missed closer later ps
         else ps\<lparr>ps_below := closer # ps_below ps, ps_ahead := later\<rparr>)"

partial_function (option) pair_loop :: "pairing \<Rightarrow> pair_state \<Rightarrow> pair_state option" where
  "pair_loop pe ps =
     (case ps_ahead ps of [] \<Rightarrow> Some ps | closer # later \<Rightarrow> pair_loop pe (pair_turn pe closer later ps))"

declare pair_loop.simps [code]

definition pairing_of :: "nat \<Rightarrow> delimiter list \<Rightarrow> delimiter list \<Rightarrow> inline_state \<Rightarrow> pair_state" where
  "pairing_of stack_bottom below ahead st = \<lparr>ps_bottoms = \<lambda>l r. stack_bottom, ps_word = stack_bottom, ps_affix = stack_bottom,
     ps_below = below, ps_ahead = ahead, ps_state = st\<rparr>"

text \<open>
  The entries of the range are those before \<open>after\<close> down to the first before \<open>stack_bottom\<close>; what
  is left of them is reduced to its last boundary.
\<close>

fun settle_range :: "delimiter list \<Rightarrow> inline_state \<Rightarrow> inline_state" where
  "settle_range [] st = st"
| "settle_range (e # es) st =
     settle_range es (if dl_kind e = DELIMITER_MARKER \<and> dl_can_open e
       then undecide (place_of (is_siblings st) (dl_node e)) st else st)"

definition S_process_delimiters :: "pairing \<Rightarrow> nat \<Rightarrow> nat \<Rightarrow> bool \<Rightarrow> inline_state \<Rightarrow> inline_state option" where
  "S_process_delimiters pe stack_bottom after settle st =
     (let below = rev (take after (is_stack st)); rest = drop after (is_stack st);
          range = takeWhile (\<lambda>e. dl_position e \<ge> stack_bottom) below;
          lower = dropWhile (\<lambda>e. dl_position e \<ge> stack_bottom) below
      in case pair_loop pe (pairing_of stack_bottom lower (rev range) st) of
           None \<Rightarrow> None
         | Some ps \<Rightarrow>
             let left = take (length (ps_below ps) - length lower) (ps_below ps);
                 st = (if settle then settle_range left (ps_state ps) else ps_state ps);
                 (kept, st) = reduce_delimiter_range left False st
             in Some (st\<lparr>is_stack := rev lower @ rev kept @ rest\<rparr>))"

definition process_delimiters :: "pairing \<Rightarrow> nat \<Rightarrow> nat \<Rightarrow> inline_state \<Rightarrow> inline_state option" where
  "process_delimiters pe stack_bottom after st = S_process_delimiters pe stack_bottom after False st"

end
