(* ===== verification/Pairing.thy ===== *)
theory Pairing
  imports Delimiters "HOL-Library.Sublist" "HOL-Library.Multiset"
begin

text \<open>
  The pairing of delimiters: it ends, it keeps every source byte in its place, it leaves of its range
  at most one boundary, and the counts of the stack stay those of its entries.
\<close>

subsection \<open>Names and places\<close>

definition run_names :: "inline_node list \<Rightarrow> nat list" where
  "run_names nodes = concat (map (\<lambda>n. case n of Run m s e l \<Rightarrow> [m] | _ \<Rightarrow> []) nodes)"

lemma run_names_simps [simp]:
  "run_names [] = []" "run_names (Run m s e l # nodes) = m # run_names nodes"
  "run_names (Made k s e c # nodes) = run_names nodes" "run_names (Other s e # nodes) = run_names nodes"
  "run_names (xs @ ys) = run_names xs @ run_names ys"
  by (simp_all add: run_names_def)

lemma run_names_split:
  "run_names nodes = xs @ m # ys \<Longrightarrow> \<exists>A s e l B. nodes = A @ Run m s e l # B \<and> run_names A = xs \<and> run_names B = ys"
proof (induction nodes arbitrary: xs)
  case (Cons n nodes)
  show ?case
  proof (cases n)
    case (Run m' s e l)
    show ?thesis
    proof (cases xs)
      case Nil
      then show ?thesis using Cons.prems Run by (intro exI [of _ "[]"]) auto
    next
      case (Cons x xs')
      then obtain A s' e' l' B where "nodes = A @ Run m s' e' l' # B" "run_names A = xs'" "run_names B = ys"
        using Cons.prems Run Cons.IH [of xs'] by auto
      then show ?thesis using Cons.prems Run Cons by (intro exI [of _ "n # A"]) auto
    qed
  next
    case (Made k s e c)
    then obtain A s' e' l' B where "nodes = A @ Run m s' e' l' # B" "run_names A = xs" "run_names B = ys"
      using Cons.prems Cons.IH [of xs] by auto
    then show ?thesis using Made by (intro exI [of _ "n # A"]) auto
  next
    case (Other s e)
    then obtain A s' e' l' B where "nodes = A @ Run m s' e' l' # B" "run_names A = xs" "run_names B = ys"
      using Cons.prems Cons.IH [of xs] by auto
    then show ?thesis using Other by (intro exI [of _ "n # A"]) auto
  qed
qed simp

lemma split_run_found: "m \<notin> set (run_names A) \<Longrightarrow> split_run m (A @ Run m s e l # B) = Some (A, Run m s e l, B)"
proof (induction A)
  case (Cons n A)
  then show ?case by (cases n) auto
qed simp

lemma named_run_found: "m \<notin> set (run_names A) \<Longrightarrow> named_run (A @ Run m s e l # B) m = Some (Run m s e l)"
proof (induction A)
  case (Cons n A)
  then show ?case by (cases n) (auto simp: named_run_def)
qed (simp add: named_run_def)

lemma literal_length_found: "m \<notin> set (run_names A) \<Longrightarrow> literal_length (A @ Run m s e l # B) m = l"
  by (simp add: literal_length_def named_run_found)

text \<open>The length of the literal a name has, among distinct names, wherever its node is.\<close>

lemma literal_length_in:
  assumes "Run m s e l \<in> set nodes" and "distinct (run_names nodes)"
  shows "literal_length nodes m = l"
proof -
  obtain A B where n: "nodes = A @ Run m s e l # B" using assms(1) by (meson split_list)
  then have "m \<notin> set (run_names A)" using assms(2) by auto
  then show ?thesis using literal_length_found n by simp
qed

text \<open>The source bytes that nodes cover, in their order: an inline its markers around its content.\<close>

definition kind_width :: "inline_kind \<Rightarrow> int" where
  "kind_width k = (case k of NODE_EMPHASIS \<Rightarrow> 1 | NODE_SUPERSCRIPT \<Rightarrow> 1 | NODE_SUBSCRIPT \<Rightarrow> 1 | NODE_NONE \<Rightarrow> 0 | _ \<Rightarrow> 2)"

fun cover :: "inline_node \<Rightarrow> int list" where
  "cover (Run m s e l) = [s..e - 1]"
| "cover (Other s e) = [s..e - 1]"
| "cover (Made k s e nodes) =
     [s..s + kind_width k - 1] @ concat (map cover nodes) @ [e - kind_width k..e - 1]"

definition covers :: "inline_node list \<Rightarrow> int list" where
  "covers nodes = concat (map cover nodes)"

lemma covers_simps [simp]: "covers [] = []" "covers (n # nodes) = cover n @ covers nodes" "covers (xs @ ys) = covers xs @ covers ys"
  by (simp_all add: covers_def)

lemma cover_made: "cover (Made k s e nodes) = [s..s + kind_width k - 1] @ covers nodes @ [e - kind_width k..e - 1]"
  by (simp add: covers_def)

definition verbatim :: "inline_node \<Rightarrow> bool" where
  "verbatim n \<longleftrightarrow> (case n of Run m s e l \<Rightarrow> l = e - s \<and> 0 < l | _ \<Rightarrow> True)"

definition unread :: "inline_node list \<Rightarrow> nat" where
  "unread nodes = sum_list (map (\<lambda>n. case n of Run m s e l \<Rightarrow> nat l | _ \<Rightarrow> 0) nodes)"

lemma unread_simps [simp]:
  "unread [] = 0" "unread (Run m s e l # nodes) = nat l + unread nodes" "unread (Made k s e c # nodes) = unread nodes"
  "unread (Other s e # nodes) = unread nodes" "unread (xs @ ys) = unread xs + unread ys"
  by (simp_all add: unread_def)

subsection \<open>One insertion\<close>

definition left_of :: "nat \<Rightarrow> int \<Rightarrow> int \<Rightarrow> int \<Rightarrow> inline_node list" where
  "left_of m s e l = (if l = 0 then [] else [Run m s e l])"

lemma splice_runs_eq:
  assumes "distinct (run_names (A @ Run o' so eo lo # B @ Run c sc ec lc # C))"
    and "verbatim (Run o' so eo lo)" and "verbatim (Run c sc ec lc)" and "int used \<le> lo" and "int used \<le> lc"
  shows "splice_runs k used o' c (A @ Run o' so eo lo # B @ Run c sc ec lc # C) =
    A @ left_of o' so (eo - int used) (lo - int used) @ [Made k (eo - int used) (sc + int used) B] @
      left_of c (sc + int used) ec (lc - int used) @ C"
proof -
  have "split_run o' (A @ Run o' so eo lo # B @ Run c sc ec lc # C) = Some (A, Run o' so eo lo, B @ Run c sc ec lc # C)"
    by (rule split_run_found) (use assms(1) in auto)
  moreover have "split_run c (B @ Run c sc ec lc # C) = Some (B, Run c sc ec lc, C)"
    by (rule split_run_found) (use assms(1) in auto)
  moreover have "lo = eo - so" "lc = ec - sc" using assms(2,3) by (simp_all add: verbatim_def)
  ultimately show ?thesis using assms(4,5) by (simp add: splice_runs_def left_of_def Let_def)
qed

lemma cover_left: "0 \<le> l \<Longrightarrow> l = e - s \<Longrightarrow> covers (left_of m s e l) = [s..e - 1]"
  by (simp add: left_of_def)

lemma splice_covers:
  assumes "verbatim (Run o' so eo lo)" and "verbatim (Run c sc ec lc)" and "int used \<le> lo" and "int used \<le> lc"
    and "kind_width k = int used" and "0 < used"
  shows "covers (left_of o' so (eo - int used) (lo - int used) @ [Made k (eo - int used) (sc + int used) B] @
      left_of c (sc + int used) ec (lc - int used)) = covers (Run o' so eo lo # B @ [Run c sc ec lc])"
proof -
  have l: "lo = eo - so" "lc = ec - sc" using assms(1,2) by (simp_all add: verbatim_def)
  have "[so..eo - 1] = [so..eo - int used - 1] @ [eo - int used..eo - 1]"
    by (rule upto_split1) (use assms(3,6) l in simp_all)
  moreover have "[sc..ec - 1] = [sc..sc + int used - 1] @ [sc + int used..ec - 1]"
    using upto_split2 [of sc "sc + int used - 1" "ec - 1"] assms(4,6) l by simp
  ultimately show ?thesis using assms(3,4,5) l by (simp add: cover_left cover_made del: cover.simps(3))
qed

subsection \<open>The entries stand on their nodes\<close>

abbreviation marker :: "delimiter \<Rightarrow> bool" where
  "marker e \<equiv> dl_kind e = DELIMITER_MARKER"

definition marks :: "delimiter list \<Rightarrow> nat list" where
  "marks es = map dl_node (filter marker es)"

lemma marks_simps [simp]:
  "marks [] = []" "marks (e # es) = (if marker e then dl_node e # marks es else marks es)"
  "marks (xs @ ys) = marks xs @ marks ys"
  by (simp_all add: marks_def)

definition needed :: "dialect \<Rightarrow> delimiter \<Rightarrow> int" where
  "needed d e = int (max 1 (minimum_width (delimiter_spec d (dl_rule e))))"

definition entry_ok :: "dialect \<Rightarrow> inline_node list \<Rightarrow> delimiter \<Rightarrow> bool" where
  "entry_ok d nodes e \<longleftrightarrow> (dl_can_open e \<or> dl_can_close e \<longrightarrow> marker e) \<and>
     (marker e \<longrightarrow> needed d e \<le> literal_length nodes (dl_node e))"

definition standing :: "dialect \<Rightarrow> inline_node list \<Rightarrow> delimiter list \<Rightarrow> bool" where
  "standing d nodes es \<longleftrightarrow> distinct (run_names nodes) \<and> (\<forall>n \<in> set nodes. verbatim n) \<and>
     subseq (marks es) (run_names nodes) \<and> (\<forall>e \<in> set es. entry_ok d nodes e)"

lemma subseq_subset: "subseq xs ys \<Longrightarrow> set xs \<subseteq> set ys"
  by (auto dest: list_emb_set)

lemma standing_fewer: "standing d nodes es \<Longrightarrow> subseq es' es \<Longrightarrow> standing d nodes es'"
  unfolding standing_def marks_def
  by (meson subseq_subset subset_iff subseq_map subseq_filter_left subseq_order.order_trans subseq_filter)

lemma subseq_around: "subseq (xs @ m # ys) zs \<Longrightarrow> \<exists>as bs. zs = as @ m # bs \<and> subseq xs as \<and> subseq ys bs"
proof -
  assume "subseq (xs @ m # ys) zs"
  then obtain as cs where z: "zs = as @ cs" "subseq xs as" "subseq (m # ys) cs" by (blast dest: list_emb_appendD)
  then obtain us bs where "cs = us @ m # bs" "subseq ys bs" by (blast dest: list_emb_ConsD)
  then show ?thesis using z by (intro exI [of _ "as @ us"] exI [of _ bs]) auto
qed

lemma standing_split:
  assumes "standing d nodes (L @ o' # M @ c # R)" and "marker o'" and "marker c"
  obtains A so eo lo B sc ec lc C where
    "nodes = A @ Run (dl_node o') so eo lo # B @ Run (dl_node c) sc ec lc # C"
    and "subseq (marks L) (run_names A)" and "subseq (marks R) (run_names C)"
proof -
  have "subseq (marks L @ dl_node o' # marks M @ dl_node c # marks R) (run_names nodes)"
    using assms by (simp add: standing_def)
  from subseq_around [OF this] obtain as bs where
    1: "run_names nodes = as @ dl_node o' # bs" "subseq (marks L) as" "subseq (marks M @ dl_node c # marks R) bs" by blast
  from subseq_around [OF 1(3)] obtain bs1 bs2 where
    2: "bs = bs1 @ dl_node c # bs2" "subseq (marks R) bs2" by blast
  from run_names_split [OF 1(1)] obtain A so eo lo N where
    3: "nodes = A @ Run (dl_node o') so eo lo # N" "run_names A = as" "run_names N = bs" by blast
  from run_names_split [of N bs1 "dl_node c" bs2] 2(1) 3(3) obtain B sc ec lc C where
    "N = B @ Run (dl_node c) sc ec lc # C" "run_names C = bs2" by blast
  then show thesis using that 1(2) 2(2) 3 by blast
qed

text \<open>What an insertion leaves standing.\<close>

lemma standing_splice:
  assumes "standing d (A @ Run o' so eo lo # B @ Run c sc ec lc # C) (L @ oe # M @ ce # R)"
    and "dl_node oe = o'" and "dl_node ce = c" and "marker oe" and "marker ce"
    and "subseq (marks L) (run_names A)" and "subseq (marks R) (run_names C)"
    and "int used \<le> lo" and "int used \<le> lc" and "\<forall>e \<in> set K. \<not> marker e \<and> \<not> dl_can_open e \<and> \<not> dl_can_close e"
    and "o_stays \<longleftrightarrow> lo - int used \<noteq> 0 \<and> needed d oe \<le> lo - int used"
    and "c_stays \<longleftrightarrow> lc - int used \<noteq> 0 \<and> needed d ce \<le> lc - int used"
  shows "standing d (A @ left_of o' so (eo - int used) (lo - int used) @ [Made k (eo - int used) (sc + int used) B] @
      left_of c (sc + int used) ec (lc - int used) @ C)
    (L @ (if o_stays then [oe] else []) @ K @ (if c_stays then [ce] else []) @ R)"
    (is "standing d ?nodes ?es")
proof -
  let ?old = "A @ Run o' so eo lo # B @ Run c sc ec lc # C"
  have D: "distinct (run_names ?old)" and V: "\<forall>n \<in> set ?old. verbatim n" and E: "\<forall>e \<in> set (L @ oe # M @ ce # R). entry_ok d ?old e"
    using assms(1) by (simp_all add: standing_def)
  have names: "run_names (left_of m s e l) = (if l = 0 then [] else [m])" for m s e l by (simp add: left_of_def)
  have l: "lo = eo - so" "lc = ec - sc" using V by (auto simp: verbatim_def)
  have distinct: "distinct (run_names ?nodes)" using D by (auto simp: names)
  have verb: "\<forall>n \<in> set ?nodes. verbatim n" using V assms(8,9) l by (auto simp: left_of_def verbatim_def)
  have noK: "marks K = []" using assms(10) by (auto simp: marks_def filter_empty_conv)
  have sub: "subseq (marks ?es) (run_names ?nodes)"
    using assms(2-7,11,12) noK by (auto simp: names intro!: list_emb_append_mono)
  have same: "literal_length ?nodes m = literal_length ?old m" if "m \<in> set (run_names A) \<union> set (run_names C)" for m
  proof -
    from that obtain s e l where n: "Run m s e l \<in> set A \<union> set C"
      by (auto simp: run_names_def split: inline_node.splits)
    then have "Run m s e l \<in> set ?nodes" "Run m s e l \<in> set ?old" by auto
    then show ?thesis using literal_length_in [OF _ distinct] literal_length_in [OF _ D] by simp
  qed
  have "entry_ok d ?nodes e" if e: "e \<in> set ?es" for e
  proof -
    consider (sides) "e \<in> set L \<union> set R" | (o) "e = oe" "o_stays" | (c) "e = ce" "c_stays" | (kept) "e \<in> set K"
      using e by (auto split: if_splits)
    then show ?thesis
    proof cases
      case sides
      then have "entry_ok d ?old e" using E by auto
      moreover have "marker e \<Longrightarrow> dl_node e \<in> set (run_names A) \<union> set (run_names C)"
        using sides subseq_subset [OF assms(6)] subseq_subset [OF assms(7)] by (auto simp: marks_def)
      ultimately show ?thesis using same unfolding entry_ok_def by metis
    next
      case o
      then have "Run o' so (eo - int used) (lo - int used) \<in> set ?nodes" using assms(11) by (simp add: left_of_def)
      then have "literal_length ?nodes o' = lo - int used" using distinct by (rule literal_length_in)
      then show ?thesis using o assms(2,4,11) by (simp add: entry_ok_def)
    next
      case c
      then have "Run c (sc + int used) ec (lc - int used) \<in> set ?nodes" using assms(12) by (simp add: left_of_def)
      then have "literal_length ?nodes c = lc - int used" using distinct by (rule literal_length_in)
      then show ?thesis using c assms(3,5,12) by (simp add: entry_ok_def)
    next
      case kept
      then show ?thesis using assms(10) by (simp add: entry_ok_def)
    qed
  qed
  then show ?thesis using distinct verb sub by (simp add: standing_def)
qed

subsection \<open>The counts of the stack\<close>

definition counted :: "inline_state \<Rightarrow> delimiter multiset \<Rightarrow> bool" where
  "counted st M \<longleftrightarrow> (\<forall>r. is_openers st r = int (size {#e \<in># M. dl_can_open e \<and> dl_rule e = r#}) \<and>
     is_closers st r = int (size {#e \<in># M. dl_can_close e \<and> dl_rule e = r#}))"

lemma state_simps [simp]:
  "is_siblings (work k st) = is_siblings st" "is_siblings (undecide s st) = is_siblings st"
  "is_siblings (count_entry n e st) = is_siblings st" "is_siblings (remove_delimiter e st) = is_siblings st"
  "counted (work k st) M = counted st M" "counted (undecide s st) M = counted st M"
  "counted (st\<lparr>is_siblings := ns\<rparr>) M = counted st M" "counted (st\<lparr>is_error := b\<rparr>) M = counted st M"
  "counted (st\<lparr>is_made := j\<rparr>) M = counted st M" "counted (st\<lparr>is_stack := es\<rparr>) M = counted st M"
  by (simp_all add: work_def undecide_def count_entry_def remove_delimiter_def counted_def Let_def)

lemma counted_stack: "counted st (mset es) \<longleftrightarrow>
    (\<forall>r. is_openers st r = int (length (filter (\<lambda>e. dl_can_open e \<and> dl_rule e = r) es)) \<and>
      is_closers st r = int (length (filter (\<lambda>e. dl_can_close e \<and> dl_rule e = r) es)))"
proof -
  have "size (filter_mset P (mset es)) = length (filter P es)" for P :: "delimiter \<Rightarrow> bool" by (metis mset_filter size_mset)
  then show ?thesis by (simp add: counted_def)
qed

text \<open>What no step of a pairing changes: the bytes covered, no new name, the cursor.\<close>

definition preserves :: "inline_state \<Rightarrow> inline_state \<Rightarrow> bool" where
  "preserves st st' \<longleftrightarrow> covers (is_siblings st') = covers (is_siblings st) \<and>
     set (run_names (is_siblings st')) \<subseteq> set (run_names (is_siblings st)) \<and>
     is_names st' = is_names st \<and> is_pos st' = is_pos st \<and> is_input st' = is_input st \<and> is_cached st' = is_cached st \<and>
     (is_error st \<longrightarrow> is_error st')"

lemma preserves_refl [simp]: "preserves st st"
  by (simp add: preserves_def)

lemma preserves_trans: "preserves a b \<Longrightarrow> preserves b c \<Longrightarrow> preserves a c"
  unfolding preserves_def by auto

lemma preserves_simps [simp]:
  "preserves a (work k st) = preserves a st" "preserves a (undecide s st) = preserves a st"
  "preserves a (remove_delimiter e st) = preserves a st"
  "preserves a st \<Longrightarrow> preserves a (st\<lparr>is_error := True\<rparr>)" "preserves a (st\<lparr>is_made := j\<rparr>) = preserves a st"
  "preserves a (st\<lparr>is_stack := es\<rparr>) = preserves a st" "preserves (work k a) st = preserves a st"
  by (auto simp: preserves_def work_def undecide_def count_entry_def remove_delimiter_def Let_def)

lemma preserves_if: "preserves a st \<Longrightarrow> preserves a (if b then st else remove_delimiter e st)"
  by simp

lemma preserves_siblings:
  "covers nodes = covers (is_siblings st) \<Longrightarrow> set (run_names nodes) \<subseteq> set (run_names (is_siblings st)) \<Longrightarrow>
    preserves st (st\<lparr>is_siblings := nodes\<rparr>)"
  by (simp add: preserves_def)

lemma counted_remove: "counted st (add_mset e M) \<Longrightarrow> counted (remove_delimiter e st) M"
  by (auto simp: counted_def remove_delimiter_def count_entry_def Let_def)

lemma counted_push: "counted st M \<Longrightarrow> counted (count_entry 1 e st) (add_mset e M)"
  by (auto simp: counted_def count_entry_def Let_def)

lemma reduce_range_keeps:
  "reduce_delimiter_range es boundary st = (kept, st') \<Longrightarrow> counted st (M + mset es) \<Longrightarrow>
    counted st' (M + mset kept) \<and> preserves st st' \<and> is_siblings st' = is_siblings st \<and> subseq kept es \<and>
    (\<forall>e \<in> set kept. dl_kind e = DELIMITER_BOUNDARY) \<and> length kept \<le> (if boundary then 0 else 1)"
proof (induction es boundary st arbitrary: kept st' M rule: reduce_delimiter_range.induct)
  case (2 e es boundary st)
  show ?case
  proof (cases "dl_kind e = DELIMITER_BOUNDARY \<and> \<not> boundary")
    case True
    obtain k s where r: "reduce_delimiter_range es True (work 1 st) = (k, s)" by fastforce
    have "counted (work 1 st) (add_mset e M + mset es)" using 2(4) by simp
    from 2(1) [OF refl True r this] show ?thesis using 2(3) True r by auto
  next
    case False
    let ?s = "work 1 st"
    let ?t = "if dl_kind e = DELIMITER_MARKER \<and> dl_can_open e \<and> is_asked ?s (dl_rule e)
      then undecide (place_of (is_siblings ?s) (dl_node e)) ?s else ?s"
    have r: "reduce_delimiter_range es boundary (remove_delimiter e ?t) = (kept, st')"
      using 2(3) False by (auto simp: Let_def split: if_splits)
    have "counted ?t (add_mset e (M + mset es))" using 2(4) by simp
    from counted_remove [OF this] have "counted (remove_delimiter e ?t) (M + mset es)" .
    note IH = 2(2) [OF refl False refl r this]
    have "preserves st (remove_delimiter e ?t)" by simp
    then have "preserves st st'" using IH preserves_trans by blast
    then show ?thesis using IH by auto
  qed
qed simp

subsection \<open>One pair\<close>

lemma spec_cases:
  "delimiter_spec d r \<in> {empty_spec, EMPHASIS_spec, UNDERSCORE_spec, MARK_spec, INSERTION_spec, SUPERSCRIPT_spec, SUBSCRIPT_spec,
     STRIKETHROUGH_spec}"
  by (cases r) (simp_all add: delimiter_spec_def element_spec_def)

lemmas spec_defs = empty_spec_def EMPHASIS_spec_def UNDERSCORE_spec_def MARK_spec_def INSERTION_spec_def SUPERSCRIPT_spec_def
  SUBSCRIPT_spec_def STRIKETHROUGH_spec_def

lemma spec_widths:
  assumes "spec = delimiter_spec d r" and "minimum_width spec \<noteq> 0"
  shows "minimum_width spec \<le> maximum_width spec"
    and "kind_width (made_kind spec (minimum_width spec)) = int (minimum_width spec)"
    and "kind_width (made_kind spec (maximum_width spec)) = int (maximum_width spec)"
  using spec_cases [of d r] assms by (auto simp: spec_defs made_kind_def kind_width_def)

lemma used_width_fits:
  assumes "spec = delimiter_spec d r" and "minimum_width spec \<noteq> 0" and "int (minimum_width spec) \<le> lo" and "int (minimum_width spec) \<le> lc"
    and "used = used_width spec lo lc"
  shows "0 < used" and "int used \<le> lo" and "int used \<le> lc" and "kind_width (made_kind spec used) = int used"
  using spec_widths [OF assms(1,2)] assms(2-5) by (auto simp: used_width_def)

definition stay :: "bool \<Rightarrow> delimiter \<Rightarrow> delimiter list" where
  "stay b e = (if b then [e] else [])"

lemma counted_stay: "counted st (add_mset e M) \<Longrightarrow> counted (if b then st else remove_delimiter e st) (mset (stay b e) + M)"
  using counted_remove by (simp add: stay_def)

lemma insert_stands:
  assumes "standing d (is_siblings st) (L @ oe # M @ ce # R)" and "marker oe" and "marker ce" and "dl_rule oe = dl_rule ce"
    and "spec = delimiter_spec d (dl_rule ce)" and "minimum_width spec \<noteq> 0"
    and "used = used_width spec (literal_length (is_siblings st) (dl_node oe)) (literal_length (is_siblings st) (dl_node ce))"
    and "\<forall>e \<in> set K. \<not> marker e \<and> \<not> dl_can_open e \<and> \<not> dl_can_close e" and "subseq K M"
    and "counted st (add_mset oe (add_mset ce N))"
    and "S_insert_delimited_inline d admits alloc oe ce used (made_kind spec used) st = (ins, st')"
  shows "standing d (is_siblings st') (L @ stay (opener_stays ins) oe @ K @ stay (closer_stays ins) ce @ R) \<and>
    preserves st st' \<and>
    counted st' (mset (stay (opener_stays ins) oe) + mset (stay (closer_stays ins) ce) + N) \<and>
    unread (is_siblings st') \<le> unread (is_siblings st) \<and>
    (\<not> moves_on ins \<longrightarrow> unread (is_siblings st') < unread (is_siblings st)) \<and> (closer_stays ins \<or> moves_on ins)"
proof -
  have es: "subseq (L @ K @ R) (L @ oe # M @ ce # R)" "subseq (L @ oe # K @ ce # R) (L @ oe # M @ ce # R)"
    using assms(9) by (auto intro!: list_emb_append_mono)
  have "counted (remove_delimiter oe st) (add_mset ce N)" using counted_remove [OF assms(10)] .
  from counted_remove [OF this] have c2: "counted (remove_delimiter ce (remove_delimiter oe st)) N" .
  show ?thesis
  proof (cases "admits (made_kind spec used) \<and> alloc (is_made st + 1)")
    case False
    then show ?thesis using assms(1,10,11) standing_fewer [OF assms(1) es(1)] standing_fewer [OF assms(1) es(2)] c2
      by (auto simp: S_insert_delimited_inline_def Let_def stay_def split: if_splits)
  next
    case True
    from standing_split [OF assms(1-3)] obtain A so eo lo B sc ec lc C where
      nodes: "is_siblings st = A @ Run (dl_node oe) so eo lo # B @ Run (dl_node ce) sc ec lc # C" (is "_ = ?nodes")
      and sub: "subseq (marks L) (run_names A)" "subseq (marks R) (run_names C)" .
    have D: "distinct (run_names ?nodes)" and V: "verbatim (Run (dl_node oe) so eo lo)" "verbatim (Run (dl_node ce) sc ec lc)"
      using assms(1) nodes by (simp_all add: standing_def)
    have ll: "literal_length ?nodes (dl_node oe) = lo" "literal_length ?nodes (dl_node ce) = lc"
      using literal_length_in [OF _ D, of _ so eo] literal_length_in [OF _ D, of _ sc ec] by simp_all
    have "entry_ok d ?nodes oe" "entry_ok d ?nodes ce" using assms(1) nodes by (simp_all add: standing_def)
    then have fit: "int (minimum_width spec) \<le> lo" "int (minimum_width spec) \<le> lc"
      using assms(2-6) ll by (simp_all add: entry_ok_def needed_def)
    have used: "used = used_width spec lo lc" using assms(7) nodes ll by simp
    note U = used_width_fits [OF assms(5,6) fit used]
    have need: "needed d oe = int (minimum_width spec)" "needed d ce = int (minimum_width spec)"
      using assms(4,5,6) by (simp_all add: needed_def)
    let ?kind = "made_kind spec used"
    have sp: "splice_runs ?kind used (dl_node oe) (dl_node ce) ?nodes = A @ left_of (dl_node oe) so (eo - int used) (lo - int used) @
        [Made ?kind (eo - int used) (sc + int used) B] @ left_of (dl_node ce) (sc + int used) ec (lc - int used) @ C"
      by (rule splice_runs_eq [OF D V U(2,3)])
    let ?o = "lo - int used \<noteq> 0 \<and> needed d oe \<le> lo - int used" and ?c = "lc - int used \<noteq> 0 \<and> needed d ce \<le> lc - int used"
    let ?s0 = "work (length (inner_nodes (dl_node oe) (dl_node ce) ?nodes)) (st\<lparr>is_made := is_made st + 1\<rparr>)"
    let ?s1 = "?s0\<lparr>is_siblings := splice_runs ?kind used (dl_node oe) (dl_node ce) ?nodes\<rparr>"
    let ?s2 = "if ?o then ?s1 else remove_delimiter oe ?s1"
    have "S_insert_delimited_inline d admits alloc oe ce used ?kind st =
        (\<lparr>opener_stays = ?o, closer_stays = ?c, moves_on = \<not> ?c\<rparr>, if ?c then ?s2 else remove_delimiter ce ?s2)"
      using True nodes ll need assms(5) by (auto simp: S_insert_delimited_inline_def Let_def not_less)
    then have ins: "ins = \<lparr>opener_stays = ?o, closer_stays = ?c, moves_on = \<not> ?c\<rparr>"
      and st2: "st' = (if ?c then ?s2 else remove_delimiter ce ?s2)" using assms(11) by simp_all
    then have r: "opener_stays ins \<longleftrightarrow> ?o" "closer_stays ins \<longleftrightarrow> ?c" "moves_on ins \<longleftrightarrow> \<not> ?c"
      and st': "is_siblings st' = splice_runs ?kind used (dl_node oe) (dl_node ce) ?nodes" by simp_all
    have "counted ?s1 (add_mset oe (add_mset ce N))" using assms(10) by simp
    from counted_stay [OF this, of ?o] have "counted ?s2 (add_mset ce (mset (stay ?o oe) + N))"
      unfolding union_mset_add_mset_right .
    from counted_stay [OF this, of ?c] have ct: "counted st' (mset (stay ?o oe) + mset (stay ?c ce) + N)"
      unfolding st2 by (simp only: ac_simps)
    have S: "standing d (is_siblings st') (L @ (if ?o then [oe] else []) @ K @ (if ?c then [ce] else []) @ R)"
      unfolding st' sp using standing_splice [OF assms(1) [unfolded nodes] refl refl assms(2,3) sub U(2,3) assms(8) refl refl, of ?kind] .
    have cov: "covers (is_siblings st') = covers ?nodes"
      using splice_covers [OF V U(2,3,4,1), of B] unfolding st' sp by simp
    have "set (run_names (splice_runs ?kind used (dl_node oe) (dl_node ce) ?nodes)) \<subseteq> set (run_names ?nodes)"
      unfolding sp by (auto simp: left_of_def)
    then have "preserves ?s0 ?s1" using cov st' nodes by (intro preserves_siblings) simp_all
    then have "preserves st ?s1" using preserves_trans [of st ?s0 ?s1] by simp
    then have pres: "preserves st st'" unfolding st2 by (intro preserves_if)
    have un: "unread (is_siblings st') < unread ?nodes"
    proof -
      have "unread (left_of m s e l) = nat l" for m s e l by (simp add: left_of_def)
      then have "unread (is_siblings st') + 2 * used \<le> unread ?nodes" using U(1-3) unfolding st' sp by simp
      then show ?thesis using U(1) by simp
    qed
    show ?thesis using S pres un ct r by (auto simp: stay_def nodes)
  qed
qed

subsection \<open>An element's own constructor\<close>

text \<open>
  What a constructor may do with a pair: leave the nodes, or put in the place of the two runs and of
  what stands between them nodes that no entry borrows and that cover the same bytes.
\<close>

definition builds_ok :: "pairing \<Rightarrow> bool" where
  "builds_ok pe \<longleftrightarrow> (\<forall>opener closer A so eo lo B sc ec lc C.
     let seg = Run (dl_node opener) so eo lo # B @ [Run (dl_node closer) sc ec lc]
     in pe_build pe opener closer (A @ seg @ C) = A @ seg @ C \<or>
       (\<exists>made. pe_build pe opener closer (A @ seg @ C) = A @ made @ C \<and> run_names made = [] \<and> covers made = covers seg))"

lemma no_names: "run_names made = [] \<Longrightarrow> unread made = 0 \<and> (\<forall>n \<in> set made. verbatim n)"
proof (induction made)
  case (Cons n made)
  then show ?case by (cases n) (auto simp: verbatim_def)
qed simp

lemma standing_replace:
  assumes "standing d (A @ seg @ C) (L @ K @ R)" and "run_names made = []" and "\<forall>e \<in> set K. \<not> marker e"
    and "subseq (marks L) (run_names A)" and "subseq (marks R) (run_names C)"
  shows "standing d (A @ made @ C) (L @ K @ R)"
proof -
  have D: "distinct (run_names (A @ seg @ C))" using assms(1) by (simp add: standing_def)
  then have D': "distinct (run_names (A @ made @ C))" using assms(2) by auto
  have same: "literal_length (A @ made @ C) m = literal_length (A @ seg @ C) m" if "m \<in> set (run_names A) \<union> set (run_names C)" for m
  proof -
    from that obtain s e l where "Run m s e l \<in> set A \<union> set C" by (auto simp: run_names_def split: inline_node.splits)
    then show ?thesis using literal_length_in [OF _ D, of m s e l] literal_length_in [OF _ D', of m s e l] by auto
  qed
  have "entry_ok d (A @ made @ C) e" if e: "e \<in> set (L @ K @ R)" for e
  proof -
    have ok: "entry_ok d (A @ seg @ C) e" using assms(1) e by (simp add: standing_def)
    have "marker e \<Longrightarrow> dl_node e \<in> set (run_names A) \<union> set (run_names C)"
      using e assms(3) subseq_subset [OF assms(4)] subseq_subset [OF assms(5)] by (auto simp: marks_def)
    then show ?thesis using ok same unfolding entry_ok_def by metis
  qed
  moreover have "marks K = []" using assms(3) by (auto simp: marks_def filter_empty_conv)
  then have "subseq (marks (L @ K @ R)) (run_names (A @ made @ C))"
    using assms(2,4,5) by (auto intro!: list_emb_append_mono)
  ultimately show ?thesis using D' assms(1) no_names [OF assms(2)] by (auto simp: standing_def)
qed

lemma build_stands:
  assumes "builds_ok pe" and "standing d nodes (L @ oe # M @ ce # R)" and "marker oe" and "marker ce"
    and "subseq K M" and "\<forall>e \<in> set K. \<not> marker e" and "nodes' = pe_build pe oe ce nodes"
  shows "standing d nodes' (L @ K @ R) \<and> covers nodes' = covers nodes \<and> unread nodes' \<le> unread nodes \<and>
    set (run_names nodes') \<subseteq> set (run_names nodes)"
proof -
  have "subseq (L @ K @ R) (L @ oe # M @ ce # R)" using assms(5) by (auto intro!: list_emb_append_mono)
  from standing_fewer [OF assms(2) this] have less: "standing d nodes (L @ K @ R)" .
  from standing_split [OF assms(2-4)] obtain A so eo lo B sc ec lc C where
    n: "nodes = A @ Run (dl_node oe) so eo lo # B @ Run (dl_node ce) sc ec lc # C"
    and sub: "subseq (marks L) (run_names A)" "subseq (marks R) (run_names C)" .
  let ?seg = "Run (dl_node oe) so eo lo # B @ [Run (dl_node ce) sc ec lc]"
  have seg: "nodes = A @ ?seg @ C" using n by simp
  from assms(1) have "nodes' = nodes \<or> (\<exists>made. nodes' = A @ made @ C \<and> run_names made = [] \<and> covers made = covers ?seg)"
    unfolding assms(7) seg builds_ok_def Let_def by blast
  then show ?thesis
  proof (elim disjE exE conjE)
    fix made assume m: "nodes' = A @ made @ C" "run_names made = []" "covers made = covers ?seg"
    have "standing d (A @ ?seg @ C) (L @ K @ R)" using less seg by simp
    from standing_replace [OF this m(2) assms(6) sub] have "standing d nodes' (L @ K @ R)" using m(1) by simp
    moreover have "covers nodes' = covers nodes" unfolding m(1) seg covers_simps(3) m(3) ..
    moreover have "unread nodes' \<le> unread nodes" using no_names [OF m(2)] unfolding m(1) seg by simp
    moreover have "set (run_names nodes') \<subseteq> set (run_names nodes)" using m(2) unfolding m(1) seg by auto
    ultimately show ?thesis by blast
  qed (use less in simp)
qed

subsection \<open>One turn\<close>

lemma find_opener_found:
  "find_opener spec closer bottom es = (Some (inside, opener, lower), k) \<Longrightarrow>
    es = inside @ opener # lower \<and> pairs_with spec opener closer \<and> (\<forall>e \<in> set inside \<union> {opener}. bottom \<le> dl_position e)"
proof (induction es arbitrary: inside k)
  case (Cons e es)
  show ?case
  proof (cases "dl_position e < bottom \<or> pairs_with spec e closer")
    case True
    then show ?thesis using Cons.prems by (auto split: if_splits)
  next
    case False
    obtain found j where f: "find_opener spec closer bottom es = (found, j)" by fastforce
    then show ?thesis using Cons False by (cases found) auto
  qed
qed simp

definition floor_ok :: "nat \<Rightarrow> delimiter list \<Rightarrow> bool" where
  "floor_ok bottom lower \<longleftrightarrow> lower = [] \<or> dl_position (hd lower) < bottom"

lemma above_floor:
  assumes "fresh @ lower = inside @ opener # beneath" and "floor_ok bottom lower"
    and "\<forall>e \<in> set inside \<union> {opener}. bottom \<le> dl_position e"
  obtains fresh' where "fresh = inside @ opener # fresh'" and "beneath = fresh' @ lower"
proof -
  from assms(1) consider us where "fresh = inside @ us" "us @ lower = opener # beneath"
    | us where "fresh @ us = inside" "lower = us @ opener # beneath"
    by (auto simp: append_eq_append_conv2)
  then show thesis
  proof cases
    case 1
    then show thesis using that assms(2,3) by (cases us) (auto simp: floor_ok_def)
  next
    case 2
    then show thesis using assms(2,3) by (cases us) (auto simp: floor_ok_def)
  qed
qed

definition entries_of :: "pair_state \<Rightarrow> delimiter list \<Rightarrow> delimiter list" where
  "entries_of ps rest = rev (ps_below ps) @ ps_ahead ps @ rest"

definition pairing_inv :: "pairing \<Rightarrow> nat \<Rightarrow> delimiter list \<Rightarrow> delimiter list \<Rightarrow> pair_state \<Rightarrow> bool" where
  "pairing_inv pe bottom lower rest ps \<longleftrightarrow>
     (\<exists>fresh. ps_below ps = fresh @ lower \<and> (\<forall>e \<in> set fresh \<union> set (ps_ahead ps). bottom \<le> dl_position e)) \<and>
     (\<forall>l r. bottom \<le> ps_bottoms ps l r) \<and>
     standing (pe_dialect pe) (is_siblings (ps_state ps)) (entries_of ps rest) \<and>
     counted (ps_state ps) (mset (entries_of ps rest))"

definition pair_measure :: "pair_state \<Rightarrow> nat" where
  "pair_measure ps = unread (is_siblings (ps_state ps)) + length (ps_ahead ps)"

lemma search_bottom_ge: "bottom \<le> b \<Longrightarrow> bottom \<le> search_bottom spec b w a"
  by (auto simp: search_bottom_def Let_def)

lemma subseq_rev_short: "subseq kept inside \<Longrightarrow> length kept \<le> 1 \<Longrightarrow> subseq (rev kept) (rev inside)"
  by (cases kept) (auto simp: subseq_singleton_left dest: subseq_subset)

text \<open>What a closer that found its opener leaves.\<close>

lemma pair_found_inv:
  assumes "pairing_inv pe bottom lower rest ps" and "floor_ok bottom lower" and "builds_ok pe"
    and "ps_ahead ps = closer # later" and "ps_below ps = inside @ opener # beneath" and "dl_can_close closer"
    and "pairs_with spec opener closer" and "\<forall>e \<in> set inside \<union> {opener}. bottom \<le> dl_position e"
    and "ps' = pair_found pe closer later inside opener beneath ps"
  shows "pairing_inv pe bottom lower rest ps' \<and> preserves (ps_state ps) (ps_state ps') \<and>
    pair_measure ps' < pair_measure ps"
proof -
  let ?d = "pe_dialect pe" and ?st = "ps_state ps"
  let ?R = "later @ rest" and ?L = "rev beneath"
  obtain fresh where fr: "ps_below ps = fresh @ lower" "\<forall>e \<in> set fresh \<union> set (ps_ahead ps). bottom \<le> dl_position e"
    and bt: "\<forall>l r. bottom \<le> ps_bottoms ps l r" and S: "standing ?d (is_siblings ?st) (entries_of ps rest)"
    and C: "counted ?st (mset (entries_of ps rest))" using assms(1) by (auto simp: pairing_inv_def)
  from above_floor [OF _ assms(2), of fresh inside opener beneath] fr(1) assms(5,8) obtain fresh' where
    fr': "fresh = inside @ opener # fresh'" "beneath = fresh' @ lower" by metis
  have es: "entries_of ps rest = ?L @ opener # rev inside @ closer # ?R" using assms(4,5) by (simp add: entries_of_def)
  have mk: "marker opener" "marker closer" "dl_rule opener = dl_rule closer"
    using S assms(6,7) unfolding es standing_def by (simp_all add: entry_ok_def pairs_with_def)
  obtain kept st where r: "reduce_delimiter_range inside False ?st = (kept, st)" by fastforce
  let ?N = "mset ?L + mset ?R"
  have "counted ?st (add_mset opener (add_mset closer ?N) + mset inside)" using C unfolding es by (simp add: ac_simps)
  from reduce_range_keeps [OF r this] have k: "counted st (add_mset opener (add_mset closer ?N) + mset kept)" "preserves ?st st" "is_siblings st = is_siblings ?st"
    "subseq kept inside" "\<forall>e \<in> set kept. dl_kind e = DELIMITER_BOUNDARY" "length kept \<le> 1" by simp_all
  have sub: "subseq (rev kept) (rev inside)" using subseq_rev_short [OF k(4,6)] .
  have sk: "set kept \<subseteq> set inside" using subseq_subset [OF k(4)] .
  have bk: "\<forall>e \<in> set (rev kept). \<not> marker e \<and> \<not> dl_can_open e \<and> \<not> dl_can_close e"
  proof
    fix e assume "e \<in> set (rev kept)"
    then have "\<not> marker e" "entry_ok ?d (is_siblings ?st) e" using k(5) sk S unfolding es standing_def by auto
    then show "\<not> marker e \<and> \<not> dl_can_open e \<and> \<not> dl_can_close e" by (simp add: entry_ok_def)
  qed
  have pos: "\<forall>e \<in> set kept \<union> {opener, closer} \<union> set fresh' \<union> set later. bottom \<le> dl_position e"
    using fr(2) fr' sk assms(4,8) by auto
  have S': "standing ?d (is_siblings st) (?L @ opener # rev inside @ closer # ?R)" using S k(3) es by simp
  let ?spec = "delimiter_spec ?d (dl_rule closer)"
  let ?used = "used_width ?spec (literal_length (is_siblings st) (dl_node opener)) (literal_length (is_siblings st) (dl_node closer))"
  consider (insert) "minimum_width ?spec \<noteq> 0" | (build) "minimum_width ?spec = 0" "dl_builds closer"
    | (none) "minimum_width ?spec = 0" "\<not> dl_builds closer" by blast
  then show ?thesis
  proof cases
    case insert
    obtain ins st2 where i: "S_insert_delimited_inline ?d (pe_admits pe) (pe_alloc pe) opener closer ?used (made_kind ?spec ?used) st = (ins, st2)"
      by fastforce
    have "counted st (add_mset opener (add_mset closer (?N + mset kept)))" using k(1) by (simp add: ac_simps)
    from insert_stands [OF S' mk(1,2,3) refl insert refl bk sub this i] have I:
      "standing ?d (is_siblings st2) (?L @ stay (opener_stays ins) opener @ rev kept @ stay (closer_stays ins) closer @ ?R)"
      "preserves st st2"
      "counted st2 (mset (stay (opener_stays ins) opener) + mset (stay (closer_stays ins) closer) + (?N + mset kept))"
      "unread (is_siblings st2) \<le> unread (is_siblings st)"
      "\<not> moves_on ins \<Longrightarrow> unread (is_siblings st2) < unread (is_siblings st)" "closer_stays ins \<or> moves_on ins" by simp_all
    let ?below = "kept @ stay (opener_stays ins) opener @ beneath"
    have ps': "ps' = (if \<not> closer_stays ins then ps\<lparr>ps_below := ?below, ps_ahead := later, ps_state := st2\<rparr>
        else if moves_on ins then ps\<lparr>ps_below := closer # ?below, ps_ahead := later, ps_state := st2\<rparr>
        else ps\<lparr>ps_below := ?below, ps_ahead := closer # later, ps_state := st2\<rparr>)"
      unfolding assms(9) pair_found_def Let_def r case_prod_conv i stay_def using insert by simp
    have en: "entries_of ps' rest = ?L @ stay (opener_stays ins) opener @ rev kept @ stay (closer_stays ins) closer @ ?R"
      unfolding ps' entries_of_def stay_def by simp
    have "\<exists>fresh. ps_below ps' = fresh @ lower \<and> (\<forall>e \<in> set fresh \<union> set (ps_ahead ps'). bottom \<le> dl_position e)"
      using pos fr'(2) unfolding ps' stay_def
      by (intro exI [of _ "(if closer_stays ins \<and> moves_on ins then [closer] else []) @ kept @ stay (opener_stays ins) opener @ fresh'"])
        (auto simp: stay_def)
    moreover have "ps_state ps' = st2" "ps_bottoms ps' = ps_bottoms ps" unfolding ps' by simp_all
    moreover have "pair_measure ps' < pair_measure ps"
      using I(4,5,6) k(3) assms(4) unfolding ps' pair_measure_def by auto
    moreover have "counted st2 (mset (entries_of ps' rest))" using I(3) unfolding en by (simp add: ac_simps)
    ultimately show ?thesis using I(1,2) en bt preserves_trans [OF k(2)] unfolding pairing_inv_def by simp
  next
    case build
    let ?nodes = "pe_build pe opener closer (is_siblings st)"
    from build_stands [OF assms(3) S' mk(1,2) sub _ refl] bk have B: "standing ?d ?nodes (?L @ rev kept @ ?R)"
      "covers ?nodes = covers (is_siblings st)" "unread ?nodes \<le> unread (is_siblings st)"
      "set (run_names ?nodes) \<subseteq> set (run_names (is_siblings st))" by simp_all
    have pres: "preserves ?st (st\<lparr>is_siblings := ?nodes\<rparr>)" using preserves_trans [OF k(2) preserves_siblings [OF B(2,4)]] .
    let ?st2 = "remove_delimiter closer (remove_delimiter opener (st\<lparr>is_siblings := ?nodes\<rparr>))"
    have ps': "ps' = ps\<lparr>ps_below := kept @ beneath, ps_ahead := later, ps_state := ?st2\<rparr>"
      unfolding assms(9) pair_found_def Let_def r case_prod_conv using build by simp
    have "counted (st\<lparr>is_siblings := ?nodes\<rparr>) (add_mset opener (add_mset closer (?N + mset kept)))" using k(1) by (simp add: ac_simps)
    from counted_remove [OF counted_remove [OF this]] have "counted ?st2 (?N + mset kept)" .
    moreover have "\<exists>fresh. ps_below ps' = fresh @ lower \<and> (\<forall>e \<in> set fresh \<union> set (ps_ahead ps'). bottom \<le> dl_position e)"
      using pos fr'(2) unfolding ps' by (intro exI [of _ "kept @ fresh'"]) auto
    ultimately show ?thesis using B pres k(3) bt assms(4) unfolding pairing_inv_def ps' pair_measure_def
      by (simp add: entries_of_def ac_simps)
  next
    case none
    have ps': "ps' = ps\<lparr>ps_below := closer # kept @ opener # beneath, ps_ahead := later, ps_state := st\<rparr>"
      unfolding assms(9) pair_found_def Let_def r case_prod_conv using none by simp
    have "subseq (?L @ opener # rev kept @ closer # ?R) (?L @ opener # rev inside @ closer # ?R)"
      using sub by (auto intro!: list_emb_append_mono)
    from standing_fewer [OF S' this] have "standing ?d (is_siblings st) (?L @ opener # rev kept @ closer # ?R)" .
    moreover have "\<exists>fresh. ps_below ps' = fresh @ lower \<and> (\<forall>e \<in> set fresh \<union> set (ps_ahead ps'). bottom \<le> dl_position e)"
      using pos fr'(2) unfolding ps' by (intro exI [of _ "closer # kept @ opener # fresh'"]) auto
    ultimately show ?thesis using k(1,2,3) bt assms(4) unfolding pairing_inv_def ps' pair_measure_def
      by (simp add: entries_of_def ac_simps)
  qed
qed

lemma pair_turn_inv:
  assumes "pairing_inv pe bottom lower rest ps" and "floor_ok bottom lower" and "builds_ok pe" and "ps_ahead ps = closer # later"
    and "ps' = pair_turn pe closer later ps"
  shows "pairing_inv pe bottom lower rest ps' \<and> preserves (ps_state ps) (ps_state ps') \<and>
    pair_measure ps' < pair_measure ps"
proof -
  let ?p = "pass_boundary closer ps"
  have p: "ps_below ?p = ps_below ps" "ps_ahead ?p = ps_ahead ps" "ps_state ?p = ps_state ps" "ps_bottoms ?p = ps_bottoms ps"
    by (simp_all add: pass_boundary_def)
  then have inv: "pairing_inv pe bottom lower rest ?p" using assms(1) by (simp add: pairing_inv_def entries_of_def)
  obtain fresh where fr: "ps_below ps = fresh @ lower" "\<forall>e \<in> set fresh \<union> set (ps_ahead ps). bottom \<le> dl_position e"
    and bt: "\<forall>l r. bottom \<le> ps_bottoms ps l r" and S: "standing (pe_dialect pe) (is_siblings (ps_state ps)) (entries_of ps rest)"
    and C: "counted (ps_state ps) (mset (entries_of ps rest))" using assms(1) by (auto simp: pairing_inv_def)
  have cb: "bottom \<le> dl_position closer" using fr(2) assms(4) by simp
  show ?thesis
  proof (cases "dl_can_close closer")
    case False
    then have ps': "ps' = ?p\<lparr>ps_below := closer # ps_below ps, ps_ahead := later\<rparr>" using assms(5) p by (simp add: pair_turn_def Let_def)
    have "entries_of ps' rest = entries_of ps rest" using assms(4) unfolding ps' by (simp add: entries_of_def)
    moreover have "\<exists>fresh. ps_below ps' = fresh @ lower \<and> (\<forall>e \<in> set fresh \<union> set (ps_ahead ps'). bottom \<le> dl_position e)"
      using fr cb assms(4) unfolding ps' by (intro exI [of _ "closer # fresh"]) simp
    ultimately show ?thesis using S C bt p assms(4) unfolding pairing_inv_def by (simp add: ps' pair_measure_def)
  next
    case True
    let ?spec = "delimiter_spec (pe_dialect pe) (dl_rule closer)"
    let ?sb = "search_bottom ?spec (ps_bottoms ?p (dl_length closer mod 3) (dl_rule closer)) (ps_word ?p) (ps_affix ?p)"
    obtain found k where f: "find_opener ?spec closer ?sb (ps_below ?p) = (found, k)" by fastforce
    let ?q = "?p\<lparr>ps_state := work k (ps_state ps)\<rparr>"
    have q: "pairing_inv pe bottom lower rest ?q" using inv p by (simp add: pairing_inv_def entries_of_def)
    have ps': "ps' = (case found of Some (inside, opener, lower) \<Rightarrow> pair_found pe closer later inside opener lower ?q
        | None \<Rightarrow> pair_missed closer later ?q)"
      unfolding assms(5) pair_turn_def Let_def f using True p by (simp split: option.split)
    have low: "bottom \<le> ?sb" using bt p search_bottom_ge by simp
    show ?thesis
    proof (cases found)
      case (Some x)
      obtain inside opener beneath where x: "x = (inside, opener, beneath)" by (cases x)
      from find_opener_found [OF f [unfolded Some x]] have o: "ps_below ps = inside @ opener # beneath" "pairs_with ?spec opener closer"
        "\<forall>e \<in> set inside \<union> {opener}. bottom \<le> dl_position e" using low p order.trans by auto
      have ps'': "ps' = pair_found pe closer later inside opener beneath ?q" using ps' Some x by simp
      have "ps_ahead ?q = closer # later" "ps_below ?q = inside @ opener # beneath" using p o(1) assms(4) by simp_all
      from pair_found_inv [OF q assms(2,3) this True o(2,3) ps''] show ?thesis using p by (simp add: pair_measure_def)
    next
      case None
      then have ps'': "ps' = pair_missed closer later ?q" using ps' by simp
      have b': "\<forall>l r. bottom \<le> ps_bottoms ps' l r" using bt cb p unfolding ps'' by (simp add: pair_missed_def Let_def)
      show ?thesis
      proof (cases "dl_can_open closer")
        case True
        then have e: "ps_below ps' = closer # ps_below ps" "ps_ahead ps' = later" "ps_state ps' = work k (ps_state ps)"
          using p unfolding ps'' by (simp_all add: pair_missed_def Let_def)
        then have "entries_of ps' rest = entries_of ps rest" using assms(4) by (simp add: entries_of_def)
        moreover have "\<exists>fresh. ps_below ps' = fresh @ lower \<and> (\<forall>e \<in> set fresh \<union> set (ps_ahead ps'). bottom \<le> dl_position e)"
          using fr cb assms(4) e by (intro exI [of _ "closer # fresh"]) simp
        ultimately show ?thesis using S C b' e assms(4) unfolding pairing_inv_def by (simp add: pair_measure_def)
      next
        case False
        then have e: "ps_below ps' = ps_below ps" "ps_ahead ps' = later" "ps_state ps' = remove_delimiter closer (work k (ps_state ps))"
          using p unfolding ps'' by (simp_all add: pair_missed_def Let_def)
        have "subseq (entries_of ps' rest) (entries_of ps rest)" using e assms(4) by (auto simp: entries_of_def intro!: list_emb_append_mono)
        from standing_fewer [OF S this] have "standing (pe_dialect pe) (is_siblings (ps_state ps')) (entries_of ps' rest)" using e by simp
        moreover have "counted (work k (ps_state ps)) (add_mset closer (mset (entries_of ps' rest)))"
          using C e assms(4) by (simp add: entries_of_def ac_simps)
        from counted_remove [OF this] have "counted (ps_state ps') (mset (entries_of ps' rest))" using e by simp
        ultimately show ?thesis using fr b' e assms(4) unfolding pairing_inv_def by (simp add: pair_measure_def)
      qed
    qed
  qed
qed

subsection \<open>The walk and the range\<close>

lemma pair_loop_ends:
  "pairing_inv pe bottom lower rest ps \<Longrightarrow> floor_ok bottom lower \<Longrightarrow> builds_ok pe \<Longrightarrow>
    \<exists>ps'. pair_loop pe ps = Some ps' \<and> pairing_inv pe bottom lower rest ps' \<and> ps_ahead ps' = [] \<and>
      preserves (ps_state ps) (ps_state ps')"
proof (induction "pair_measure ps" arbitrary: ps rule: less_induct)
  case less
  show ?case
  proof (cases "ps_ahead ps")
    case Nil
    then have "pair_loop pe ps = Some ps" by (subst pair_loop.simps) simp
    then show ?thesis using less(2) Nil by simp
  next
    case (Cons closer later)
    from pair_turn_inv [OF less(2-4) Cons refl] have t: "pairing_inv pe bottom lower rest (pair_turn pe closer later ps)"
      "preserves (ps_state ps) (ps_state (pair_turn pe closer later ps))"
      "pair_measure (pair_turn pe closer later ps) < pair_measure ps" by simp_all
    from less(1) [OF t(3,1) less(3,4)] obtain ps' where "pair_loop pe (pair_turn pe closer later ps) = Some ps'"
      "pairing_inv pe bottom lower rest ps'" "ps_ahead ps' = []"
      "preserves (ps_state (pair_turn pe closer later ps)) (ps_state ps')" by blast
    moreover have "pair_loop pe ps = pair_loop pe (pair_turn pe closer later ps)" using Cons by (subst pair_loop.simps) simp
    ultimately show ?thesis using preserves_trans [OF t(2)] by auto
  qed
qed

definition delimiters_ok :: "dialect \<Rightarrow> inline_state \<Rightarrow> bool" where
  "delimiters_ok d st \<longleftrightarrow> standing d (is_siblings st) (is_stack st) \<and> counted st (mset (is_stack st))"

definition below_range :: "nat \<Rightarrow> nat \<Rightarrow> delimiter list \<Rightarrow> delimiter list" where
  "below_range bottom after es = rev (dropWhile (\<lambda>e. dl_position e \<ge> bottom) (rev (take after es)))"

lemma settle_range_keeps: "is_siblings (settle_range es st) = is_siblings st \<and> counted (settle_range es st) M = counted st M \<and>
    preserves a (settle_range es st) = preserves a st"
  by (induction es arbitrary: st) simp_all

lemma process_start:
  assumes "delimiters_ok (pe_dialect pe) st"
    and "lower = dropWhile (\<lambda>e. dl_position e \<ge> bottom) (rev (take after (is_stack st)))"
    and "reach = takeWhile (\<lambda>e. dl_position e \<ge> bottom) (rev (take after (is_stack st)))"
  shows "floor_ok bottom lower" and "\<forall>e \<in> set reach. bottom \<le> dl_position e" and "reach @ lower = rev (take after (is_stack st))"
    and "pairing_inv pe bottom lower (drop after (is_stack st)) (pairing_of bottom lower (rev reach) st)"
proof -
  have "lower \<noteq> [] \<Longrightarrow> \<not> dl_position (hd lower) \<ge> bottom" unfolding assms(2) by (rule hd_dropWhile)
  then show "floor_ok bottom lower" unfolding floor_ok_def not_le by blast
  show r: "\<forall>e \<in> set reach. bottom \<le> dl_position e" unfolding assms(3) by (meson set_takeWhileD)
  show a: "reach @ lower = rev (take after (is_stack st))" unfolding assms(2,3) by (rule takeWhile_dropWhile_id)
  then have "rev lower @ rev reach = take after (is_stack st)" by (metis rev_append rev_rev_ident)
  then have "entries_of (pairing_of bottom lower (rev reach) st) (drop after (is_stack st)) = is_stack st"
    by (metis append.assoc append_take_drop_id entries_of_def pairing_of_def pair_state.select_convs(4,5))
  then show "pairing_inv pe bottom lower (drop after (is_stack st)) (pairing_of bottom lower (rev reach) st)"
    using assms(1) r unfolding pairing_inv_def delimiters_ok_def by (simp add: pairing_of_def)
qed

lemma process_ok:
  assumes "delimiters_ok (pe_dialect pe) st" and "builds_ok pe"
  shows "\<exists>st' kept. S_process_delimiters pe bottom after settle st = Some st' \<and> delimiters_ok (pe_dialect pe) st' \<and> preserves st st' \<and>
    is_stack st' = below_range bottom after (is_stack st) @ kept @ drop after (is_stack st) \<and> length kept \<le> 1 \<and>
    (\<forall>e \<in> set kept. dl_kind e = DELIMITER_BOUNDARY)"
proof -
  let ?d = "pe_dialect pe" and ?es = "is_stack st"
  let ?below = "rev (take after ?es)" and ?rest = "drop after ?es"
  let ?range = "takeWhile (\<lambda>e. dl_position e \<ge> bottom) ?below" and ?lower = "dropWhile (\<lambda>e. dl_position e \<ge> bottom) ?below"
  let ?ps = "pairing_of bottom ?lower (rev ?range) st"
  note start = process_start [OF assms(1) refl refl, of bottom after]
  from pair_loop_ends [OF start(4,1) assms(2)] obtain ps where loop: "pair_loop pe ?ps = Some ps"
    and inv: "pairing_inv pe bottom ?lower ?rest ps" and none: "ps_ahead ps = []" and pres: "preserves st (ps_state ps)"
    by (auto simp: pairing_of_def)
  then obtain left where left: "ps_below ps = left @ ?lower" by (auto simp: pairing_inv_def)
  then have en': "entries_of ps ?rest = rev ?lower @ rev left @ ?rest" using none by (simp add: entries_of_def)
  have S: "standing ?d (is_siblings (ps_state ps)) (rev ?lower @ rev left @ ?rest)"
    and C: "counted (ps_state ps) (mset (rev ?lower @ rev left @ ?rest))" using inv unfolding pairing_inv_def en' by simp_all
  let ?st1 = "if settle then settle_range left (ps_state ps) else ps_state ps"
  obtain kept st2 where r: "reduce_delimiter_range left False ?st1 = (kept, st2)" by fastforce
  have C1: "counted ?st1 (mset (rev ?lower @ ?rest) + mset left)" using C settle_range_keeps by (simp add: ac_simps)
  note k = reduce_range_keeps [OF r C1]
  let ?st' = "st2\<lparr>is_stack := rev ?lower @ rev kept @ ?rest\<rparr>"
  have "S_process_delimiters pe bottom after settle st = Some ?st'"
  proof -
    have "take (length (left @ ?lower) - length ?lower) (left @ ?lower) = left" by simp
    then show ?thesis unfolding S_process_delimiters_def Let_def loop option.case left by (simp only: r case_prod_conv)
  qed
  moreover have "preserves st st2" using preserves_trans [of st ?st1 st2] k pres settle_range_keeps by simp
  then have "preserves st ?st'" by simp
  moreover have "subseq (rev kept) (rev left)" by (rule subseq_rev_short) (use k in simp_all)
  then have "subseq (rev ?lower @ rev kept @ ?rest) (rev ?lower @ rev left @ ?rest)" by (auto intro!: list_emb_append_mono)
  from standing_fewer [OF S this] have "delimiters_ok ?d ?st'" using k settle_range_keeps by (simp add: delimiters_ok_def ac_simps)
  ultimately show ?thesis using k by (intro exI [of _ ?st'] exI [of _ "rev kept"]) (simp add: below_range_def)
qed

end
