(* ===== verification/Flanking.thy ===== *)
theory Flanking
  imports Delimiters
begin

text \<open>
  The classification of a marker run over a text of scalars: the walk over bytes finds the nearest
  scalar on either side that flanking does not look through.
\<close>

subsection \<open>Bytes of a scalar\<close>

definition text_of :: "nat list \<Rightarrow> byte list" where
  "text_of us = concat (map encode_char us)"

lemma text_of_simps [simp]: "text_of [] = []" "text_of (u # us) = encode_char u @ text_of us" "text_of (us @ vs) = text_of us @ text_of vs"
  by (simp_all add: text_of_def)

definition scalars :: "nat list \<Rightarrow> bool" where
  "scalars us \<longleftrightarrow> (\<forall>u \<in> set us. u < 0x110000)"

definition skipped :: "dialect \<Rightarrow> nat \<Rightarrow> bool" where
  "skipped d u \<longleftrightarrow> u < 0x80 \<and> skip_chars d (of_nat u)"

definition ascii_skips :: "dialect \<Rightarrow> bool" where
  "ascii_skips d \<longleftrightarrow> (\<forall>b. skip_chars d b \<longrightarrow> b < 0x80)"

lemma continuation_iff: "continuation_byte b \<longleftrightarrow> 0x80 \<le> unat b \<and> unat b < 0xC0"
proof -
  have d: "unat (drop_bit 6 b) = unat b div 64" by (simp only: unat_drop_bit_eq) (simp add: drop_bit_eq_div)
  have "continuation_byte b \<longleftrightarrow> unat (drop_bit 6 b) = unat (2 :: byte)" unfolding continuation_byte_def word_unat_eq_iff ..
  also have "\<dots> \<longleftrightarrow> unat b div 64 = 2" unfolding d by simp
  finally show ?thesis by auto
qed

lemma ascii_byte: "u < 0x80 \<Longrightarrow> encode_char u = [of_nat u]"
  by (simp add: encode_char_def encode_scalar_def scalar_width_def)

lemma encode_char_bytes:
  assumes "u < 0x110000"
  obtains b bs where "encode_char u = b # bs" and "\<not> continuation_byte b" and "\<forall>x \<in> set bs. continuation_byte x"
    and "0x80 \<le> u \<Longrightarrow> 0xC0 \<le> unat b"
proof -
  have c: "continuation_byte (of_nat (0x80 + n mod 64))" for n :: nat
  proof -
    have "n mod 64 < 64" by simp
    then have "unat (of_nat (0x80 + n mod 64) :: byte) = 0x80 + n mod 64" by (intro unat_of_nat_byte) linarith
    then show ?thesis using \<open>n mod 64 < 64\<close> by (simp add: continuation_iff del: of_nat_add)
  qed
  note enc = encode_char_scalar [OF assms] encode_scalar_def scalar_width_def drop_bit_eq_div and_3F
  consider "u < 0x80" | "0x80 \<le> u" "u < 0x800" | "0x800 \<le> u" "u < 0x10000" | "0x10000 \<le> u" by linarith
  then show thesis
  proof cases
    case 1
    then have "unat (of_nat u :: byte) = u" by (intro unat_of_nat_byte) simp
    then show thesis using that [of "of_nat u" "[]"] 1 by (simp add: ascii_byte continuation_iff)
  next
    case 2
    have "unat (of_nat (0xC0 + u div 64) :: byte) = 0xC0 + u div 64"
      by (rule unat_of_nat_byte) (use encode_bounds(1) [OF 2(2)] in simp)
    then show thesis using 2 c [of u] by (intro that) (simp add: enc, simp_all add: continuation_iff)
  next
    case 3
    have "unat (of_nat (0xE0 + u div 4096) :: byte) = 0xE0 + u div 4096"
      by (rule unat_of_nat_byte) (use encode_bounds(2) [OF 3(2)] in simp)
    then show thesis using 3 c [of u] c [of "u div 64"] by (intro that) (simp add: enc, simp_all add: continuation_iff)
  next
    case 4
    have "unat (of_nat (0xF0 + u div 262144) :: byte) = 0xF0 + u div 262144"
      by (rule unat_of_nat_byte) (use encode_bounds(3) [OF assms] in simp)
    then show thesis using 4 assms c [of u] c [of "u div 64"] c [of "u div 4096"] by (intro that) (simp add: enc, simp_all add: continuation_iff)
  qed
qed

subsection \<open>The character before\<close>

lemma before_from_walks:
  assumes "\<forall>j. q < j \<and> j \<le> p \<longrightarrow> continuation_byte (input ! j) \<or> skip_chars d (input ! j) \<and> \<not> continuation_byte (input ! (j + 1))"
    and "q \<le> p" and "q = 0 \<or> \<not> (continuation_byte (input ! q) \<or> skip_chars d (input ! q))"
  shows "before_from d input p = q"
  using assms
proof (induction p)
  case (Suc p)
  show ?case
  proof (cases "q = Suc p")
    case True
    then show ?thesis using Suc(4) by simp
  next
    case False
    then have "before_from d input (Suc p) = before_from d input p" using Suc(2,3) by simp
    then show ?thesis using Suc False by simp
  qed
qed simp

lemma skip_bytes: "\<forall>z \<in> set zs. skipped d z \<Longrightarrow> text_of zs = map of_nat zs \<and> (\<forall>b \<in> set (text_of zs). skip_chars d b)"
  by (induction zs) (auto simp: skipped_def ascii_byte)

text \<open>Every scalar below 0x80 is one byte, no part of another.\<close>

lemma ascii_no_continuation: "b < 0x80 \<Longrightarrow> \<not> continuation_byte b"
  by (simp add: continuation_iff word_less_nat_alt)

lemma before_walk:
  assumes "input = text_of ws @ (b # bs) @ text_of zs @ c # rest" and "\<forall>x \<in> set bs. continuation_byte x"
    and "\<forall>z \<in> set zs. skipped d z" and "ascii_skips d" and "c < 0x80"
    and "ws = [] \<and> bs = [] \<or> \<not> (continuation_byte b \<or> skip_chars d b)"
  shows "before_from d input (length (text_of ws) + length bs + length (text_of zs)) = length (text_of ws)"
proof (rule before_from_walks)
  let ?q = "length (text_of ws)" and ?t = "bs @ text_of zs @ c # rest"
  have at: "input ! (?q + 1 + i) = ?t ! i" for i unfolding assms(1) by (simp add: nth_append)
  note sk = skip_bytes [OF assms(3)]
  show "\<forall>j. ?q < j \<and> j \<le> ?q + length bs + length (text_of zs) \<longrightarrow>
      continuation_byte (input ! j) \<or> skip_chars d (input ! j) \<and> \<not> continuation_byte (input ! (j + 1))"
  proof (intro allI impI)
    fix j assume j: "?q < j \<and> j \<le> ?q + length bs + length (text_of zs)"
    define i where "i = j - ?q - 1"
    then have ji: "j = ?q + 1 + i" "i < length bs + length (text_of zs)" using j by (simp, arith)
    show "continuation_byte (input ! j) \<or> skip_chars d (input ! j) \<and> \<not> continuation_byte (input ! (j + 1))"
    proof (cases "i < length bs")
      case True
      then show ?thesis using assms(2) unfolding ji(1) at by (simp add: nth_append)
    next
      case False
      let ?k = "i - length bs"
      have k: "?k < length (text_of zs)" using ji(2) False by simp
      have a: "input ! j = text_of zs ! ?k" using False k unfolding ji(1) at by (simp add: nth_append)
      have "j + 1 = ?q + 1 + (i + 1)" using ji(1) by simp
      then have b: "input ! (j + 1) = (text_of zs @ c # rest) ! (?k + 1)"
        using at [of "i + 1"] False by (simp add: nth_append Suc_diff_le)
      have "input ! (j + 1) < 0x80"
      proof (cases "?k + 1 < length (text_of zs)")
        case True
        then have "skip_chars d (input ! (j + 1))" using b sk by (simp add: nth_append)
        then show ?thesis using assms(4) by (simp add: ascii_skips_def)
      next
        case False
        then have "?k + 1 = length (text_of zs)" using k by simp
        then show ?thesis using b assms(5) by (simp add: nth_append)
      qed
      then show ?thesis using a sk k ascii_no_continuation by simp
    qed
  qed
  have "input ! ?q = b" unfolding assms(1) by (simp add: nth_append)
  then show "?q = 0 \<or> \<not> (continuation_byte (input ! ?q) \<or> skip_chars d (input ! ?q))" using assms(6) by auto
qed simp

lemma decode_at_scalar:
  assumes "input = xs @ encode_char u @ ys" and "u < 0x110000" and "length (xs @ encode_char u) \<le> to" and "to \<le> length input"
  shows "decode_at input (length xs) to = u"
proof -
  obtain b bs where e: "encode_char u = b # bs" using encode_char_bytes [OF assms(2)] by metis
  have b: "input ! length xs = b" unfolding assms(1) e by simp
  have len: "length xs + 1 + length bs \<le> to" using assms(3) e by simp
  have "slice input (length xs + 1) to = take (to - (length xs + 1)) (bs @ ys)" unfolding slice_def assms(1) e by simp
  then have "slice input (length xs + 1) to = bs @ take (to - (length xs + 1) - length bs) ys" using len by simp
  then have "encode_scalar u (scalar_width u) @ take (to - (length xs + 1) - length bs) ys = b # slice input (length xs + 1) to"
    using e encode_char_scalar [OF assms(2)] by simp
  from decode_encode_scalar [OF assms(2) this] show ?thesis unfolding decode_at_def b by simp
qed

definition nearest :: "dialect \<Rightarrow> nat list \<Rightarrow> nat" where
  "nearest d us = (case dropWhile (skipped d) us of [] \<Rightarrow> 10 | u # _ \<Rightarrow> u)"

lemma skipped_ascii: "u < 0x80 \<Longrightarrow> skip_chars d (of_nat u) \<longleftrightarrow> skipped d u"
  by (simp add: skipped_def)

lemma last_unskipped:
  obtains "\<forall>u \<in> set us. skipped d u" "nearest d (rev us) = 10"
  | ws u zs where "us = ws @ u # zs" "\<forall>z \<in> set zs. skipped d z" "\<not> skipped d u" "nearest d (rev us) = u"
proof (cases "dropWhile (skipped d) (rev us)")
  case Nil
  then have "\<forall>u \<in> set us. skipped d u" by (simp add: dropWhile_eq_Nil_conv)
  moreover have "nearest d (rev us) = 10" unfolding nearest_def Nil by simp
  ultimately show thesis using that(1) by blast
next
  case (Cons u vs)
  have "rev us = takeWhile (skipped d) (rev us) @ u # vs" using Cons takeWhile_dropWhile_id by metis
  then have "us = rev vs @ u # rev (takeWhile (skipped d) (rev us))" by (metis append.assoc append_Cons append_Nil rev_append rev_rev_ident rev_singleton_conv rev.simps(2))
  moreover have "\<forall>z \<in> set (rev (takeWhile (skipped d) (rev us))). skipped d z" by (auto dest: set_takeWhileD)
  moreover have "\<not> skipped d u" using hd_dropWhile [of "skipped d" "rev us"] Cons by simp
  moreover have "nearest d (rev us) = u" using Cons by (simp add: nearest_def)
  ultimately show thesis using that(2) by blast
qed

lemma before_char_nearest:
  assumes "input = text_of us @ c # rest" and "scalars us" and "ascii_skips d" and "c < 0x80"
  shows "before_char d input (length (text_of us)) = nearest d (rev us)"
proof (cases "us = []")
  case True
  then show ?thesis by (simp add: before_char_def nearest_def)
next
  case False
  let ?start = "length (text_of us)"
  have s: "?start > 0" using False assms(2) encode_char_bytes by (cases us) (auto simp: scalars_def elim: encode_char_bytes)
  show ?thesis
  proof (cases rule: last_unskipped [of us d])
    case 1
    obtain z zs where us: "us = z # zs" using False by (cases us) auto
    then have z: "z < 0x80" "skipped d z" "\<forall>z \<in> set zs. skipped d z" using 1(1) by (auto simp: skipped_def)
    have "input = text_of [] @ (of_nat z # []) @ text_of zs @ c # rest" using assms(1) us z(1) by (simp add: ascii_byte)
    from before_walk [OF this _ z(3) assms(3,4)] have "before_from d input (?start - 1) = 0" using us z(1) by (simp add: ascii_byte)
    moreover have "decode_at input 0 ?start = z"
      using decode_at_scalar [of input "[]" z "text_of zs @ c # rest" ?start] assms(1) us z(1) by (simp add: ascii_byte)
    ultimately show ?thesis using s z(1,2) 1(2) by (simp add: before_char_def Let_def skipped_ascii)
  next
    case (2 ws u zs)
    have u: "u < 0x110000" using assms(2) 2(1) by (simp add: scalars_def)
    from encode_char_bytes [OF u] obtain b bs where e: "encode_char u = b # bs" "\<not> continuation_byte b" "\<forall>x \<in> set bs. continuation_byte x"
      and hi: "0x80 \<le> u \<Longrightarrow> 0xC0 \<le> unat b" by metis
    have "\<not> skip_chars d b"
    proof
      assume sk: "skip_chars d b"
      then have "unat b < 0x80" using assms(3) by (auto simp: ascii_skips_def word_less_nat_alt)
      then have "u < 0x80" using hi by linarith
      then have "b = of_nat u" using e(1) by (simp add: ascii_byte)
      then show False using sk 2(3) \<open>u < 0x80\<close> by (simp add: skipped_def)
    qed
    moreover have i: "input = text_of ws @ (b # bs) @ text_of zs @ c # rest" using assms(1) 2(1) e(1) by simp
    ultimately have "before_from d input (length (text_of ws) + length bs + length (text_of zs)) = length (text_of ws)"
      using before_walk [OF i e(3) 2(2) assms(3,4)] e(2) by blast
    moreover have "?start - 1 = length (text_of ws) + length bs + length (text_of zs)" using 2(1) e(1) by simp
    moreover have "decode_at input (length (text_of ws)) ?start = u"
      by (rule decode_at_scalar [OF _ u]) (use assms(1) 2(1) in auto)
    ultimately show ?thesis using s 2(3,4) by (auto simp: before_char_def Let_def skipped_ascii)
  qed
qed

subsection \<open>The character after, and the run\<close>

lemma after_nearest:
  assumes "input = xs @ text_of vs" and "scalars vs" and "ascii_skips d"
  shows "(if after_from d input (length xs) < length input then decode_at input (after_from d input (length xs)) (length input) else 10) =
    nearest d vs"
proof -
  let ?zs = "takeWhile (skipped d) vs" and ?us = "dropWhile (skipped d) vs"
  have vs: "text_of vs = text_of ?zs @ text_of ?us" by (metis takeWhile_dropWhile_id text_of_simps(3))
  have sk: "\<forall>b \<in> set (text_of ?zs). skip_chars d b" using skip_bytes [of ?zs d] by (auto dest: set_takeWhileD)
  show ?thesis
  proof (cases ?us)
    case Nil
    have "skip_while (skip_chars d) input (length xs) = length xs + length (text_of ?zs)"
      by (rule skip_while_run [of _ _ _ "[]"]) (use assms(1) vs Nil sk in simp_all)
    then show ?thesis using assms(1) vs unfolding nearest_def Nil by (simp add: after_from_def Nil)
  next
    case (Cons u us)
    have "u \<in> set vs" using Cons by (metis list.set_intros(1) set_dropWhileD)
    then have u: "u < 0x110000" using assms(2) by (simp add: scalars_def)
    have ns: "\<not> skipped d u" using hd_dropWhile [of "skipped d" vs] Cons by simp
    from encode_char_bytes [OF u] obtain b bs where e: "encode_char u = b # bs" and hi: "0x80 \<le> u \<Longrightarrow> 0xC0 \<le> unat b" by metis
    have nb: "\<not> skip_chars d b"
    proof
      assume sk: "skip_chars d b"
      then have "unat b < 0x80" using assms(3) by (auto simp: ascii_skips_def word_less_nat_alt)
      then have "u < 0x80" using hi by linarith
      then have "b = of_nat u" using e by (simp add: ascii_byte)
      then show False using sk ns \<open>u < 0x80\<close> by (simp add: skipped_def)
    qed
    have i: "input = (xs @ text_of ?zs) @ encode_char u @ text_of us" using assms(1) vs unfolding Cons by simp
    have "skip_while (skip_chars d) input (length xs) = length xs + length (text_of ?zs)"
      by (rule skip_while_run [of _ _ _ "encode_char u @ text_of us"]) (use i sk nb e in simp_all)
    then have a: "after_from d input (length xs) = length (xs @ text_of ?zs)" by (simp add: after_from_def)
    have "decode_at input (length (xs @ text_of ?zs)) (length input) = u"
      by (rule decode_at_scalar [OF i u]) (simp_all add: i)
    moreover have "length (xs @ text_of ?zs) < length input" using e unfolding i by simp
    ultimately show ?thesis unfolding a nearest_def Cons by simp
  qed
qed

definition whole_run :: "delimiter_rule_spec \<Rightarrow> byte \<Rightarrow> nat \<Rightarrow> nat list \<Rightarrow> bool" where
  "whole_run spec c k vs \<longleftrightarrow> 0 < k \<and> (run_limit spec = 0 \<or> k \<le> run_limit spec) \<and>
     (run_limit spec \<noteq> 0 \<and> k = run_limit spec \<or> vs = [] \<or> hd vs \<noteq> unat c)"

lemma run_end_whole:
  assumes "input = xs @ replicate k c @ text_of vs" and "whole_run spec c k vs" and "c < 0x80" and "scalars vs"
  shows "i \<le> k \<Longrightarrow> run_end spec input c (length xs) (length xs + i) = length xs + k"
proof (induction "k - i" arbitrary: i)
  case 0
  have "\<not> (length xs + k < length input \<and> input ! (length xs + k) = c \<and> (run_limit spec = 0 \<or> k < run_limit spec))"
  proof
    assume a: "length xs + k < length input \<and> input ! (length xs + k) = c \<and> (run_limit spec = 0 \<or> k < run_limit spec)"
    then obtain v vs' where vs: "vs = v # vs'" "v \<noteq> unat c" using assms(1,2) by (cases vs) (auto simp: whole_run_def)
    from vs(1) assms(4) have "v < 0x110000" by (simp add: scalars_def)
    from encode_char_bytes [OF this] obtain b bs where e: "encode_char v = b # bs" and hi: "0x80 \<le> v \<Longrightarrow> 0xC0 \<le> unat b" by metis
    have "b = c" using a e unfolding assms(1) vs(1) by (simp add: nth_append)
    then have "v < 0x80" using hi assms(3) by (force simp: word_less_nat_alt)
    then have "b = of_nat v" using e by (simp add: ascii_byte)
    then show False using \<open>b = c\<close> vs(2) \<open>v < 0x80\<close> by (simp add: unat_of_nat_byte)
  qed
  then show ?case using 0 by (subst run_end.simps) auto
next
  case (Suc n)
  then have "i < k" by simp
  then have "length xs + i < length input \<and> input ! (length xs + i) = c \<and> (run_limit spec = 0 \<or> i < run_limit spec)"
    using assms(1,2) by (auto simp: nth_append whole_run_def)
  then have "run_end spec input c (length xs) (length xs + i) = run_end spec input c (length xs) (length xs + (i + 1))"
    by (subst run_end.simps) simp
  then show ?case using Suc(1) [of "i + 1"] Suc(2) \<open>i < k\<close> by simp
qed

subsection \<open>Properties\<close>

definition run_flanks :: "dialect \<Rightarrow> delimiter_rule \<Rightarrow> nat \<Rightarrow> nat \<Rightarrow> nat \<Rightarrow> bool \<times> bool" where
  "run_flanks d rule k before after =
     (let spec = delimiter_spec d rule
      in if body spec = DELIMITER_WORD_BODY then (True, True)
         else if k < minimum_width spec \<or> exact_run spec \<and> k \<noteq> minimum_width spec then (False, False)
         else flanks d spec before after)"

definition uncached :: "inline_state \<Rightarrow> inline_state" where
  "uncached st = st\<lparr>is_cached := None\<rparr>"

definition cache_true :: "dialect \<Rightarrow> inline_state \<Rightarrow> bool" where
  "cache_true d st \<longleftrightarrow>
     (\<forall>run. is_cached st = Some run \<longrightarrow> fst (scan_delimiter d (dr_start run) (dr_rule run) (uncached st)) = run)"

lemma scan_uncached: "cache_true d st \<Longrightarrow> fst (scan_delimiter d start rule st) = fst (scan_delimiter d start rule (uncached st))"
proof (cases "\<exists>run. is_cached st = Some run \<and> dr_start run = start \<and> dr_rule run = rule")
  case True
  moreover assume "cache_true d st"
  ultimately show ?thesis by (auto simp: cache_true_def scan_delimiter_def [of d start rule st])
next
  case False
  then have n: "(case is_cached st of None \<Rightarrow> None | Some c \<Rightarrow> if dr_start c = start \<and> dr_rule c = rule then Some c else None) = None"
    by (auto split: option.split)
  have s: "is_input (uncached st) = is_input st" "is_cached (uncached st) = None" by (simp_all add: uncached_def)
  show ?thesis unfolding scan_delimiter_def n s option.case Let_def by (simp split: prod.split)
qed

lemma scan_without_cache:
  assumes "is_cached st = None"
  shows "fst (scan_delimiter d start rule st) =
    (let input = is_input st; spec = delimiter_spec d rule; e = run_end spec input (input ! start) start start; at = after_from d input e;
         f = (if body spec = DELIMITER_WORD_BODY then (True, True)
              else if e - start < minimum_width spec \<or> exact_run spec \<and> e - start \<noteq> minimum_width spec then (False, False)
              else flanks d spec (before_char d input start) (if at < length input then decode_at input at (length input) else 10))
     in \<lparr>dr_start = start, dr_end = e, dr_rule = rule, dr_can_open = fst f, dr_can_close = snd f\<rparr>)"
  unfolding scan_delimiter_def assms option.case Let_def by (simp split: prod.split)


definition sample_dialect :: dialect where
  "sample_dialect = \<lparr>owned = \<lambda>r. True, skip_chars = \<lambda>b. b = 0x7E, scalar_classes = \<lambda>u. if u = 10 \<or> u = 32 then 1 else 0\<rparr>"

definition sample_state :: "byte list \<Rightarrow> inline_state" where
  "sample_state input = \<lparr>is_input = input, is_pos = 0, is_stack = [], is_cached = None, is_openers = \<lambda>r. 0, is_closers = \<lambda>r. 0,
     is_asked = \<lambda>r. False, is_token = 0, is_undecided = 2 ^ 31 - 1, is_error = False, is_siblings = [], is_names = 0,
     is_pushes = 0, is_made = 0, is_work = 0\<rparr>"


end
