(* ===== verification/PairingMemo.thy ===== *)
theory PairingMemo
  imports Pairing Flanking
begin

text \<open>
  The bounds that failed searches leave (\<open>openers_bottom\<close> of \<open>S_process_delimiters\<close>) against a
  pairing that forgets them: the two agree where the closers of one rule and of one length, modulo
  three, agree on whether they open.
\<close>

subsection \<open>A pairing that forgets\<close>

definition forget :: "nat \<Rightarrow> pair_state \<Rightarrow> pair_state" where
  "forget bottom ps = ps\<lparr>ps_bottoms := \<lambda>l r. bottom\<rparr>"

partial_function (option) exhaustive_loop :: "pairing \<Rightarrow> nat \<Rightarrow> pair_state \<Rightarrow> pair_state option" where
  "exhaustive_loop pe bottom ps =
     (case ps_ahead ps of
        [] \<Rightarrow> Some ps
      | closer # later \<Rightarrow> exhaustive_loop pe bottom (pair_turn pe closer later (forget bottom ps)))"

declare exhaustive_loop.simps [code]

definition process_exhaustively :: "pairing \<Rightarrow> nat \<Rightarrow> nat \<Rightarrow> bool \<Rightarrow> inline_state \<Rightarrow> inline_state option" where
  "process_exhaustively pe stack_bottom after settle st =
     (let below = rev (take after (is_stack st)); rest = drop after (is_stack st);
          range = takeWhile (\<lambda>e. dl_position e \<ge> stack_bottom) below;
          lower = dropWhile (\<lambda>e. dl_position e \<ge> stack_bottom) below
      in case exhaustive_loop pe stack_bottom (pairing_of stack_bottom lower (rev range) st) of
           None \<Rightarrow> None
         | Some ps \<Rightarrow>
             let left = take (length (ps_below ps) - length lower) (ps_below ps);
                 st = (if settle then settle_range left (ps_state ps) else ps_state ps);
                 (kept, st) = reduce_delimiter_range left False st
             in Some (st\<lparr>is_stack := rev lower @ rev kept @ rest\<rparr>))"

subsection \<open>The count of work decides nothing\<close>

definition worked :: "nat \<Rightarrow> inline_state \<Rightarrow> inline_state" where
  "worked w st = st\<lparr>is_work := w\<rparr>"

lemma worked_simps [simp]:
  "is_siblings (worked w st) = is_siblings st" "is_asked (worked w st) = is_asked st" "is_made (worked w st) = is_made st"
  "is_stack (worked w st) = is_stack st" "worked v (worked w st) = worked v st"
  "undecide s (worked w st) = worked w (undecide s st)" "remove_delimiter e (worked w st) = worked w (remove_delimiter e st)"
  "worked v (work k st) = worked v st" "work k (worked w st) = worked (w + k) st"
  "undecide s (work k st) = work k (undecide s st)" "remove_delimiter e (work k st) = work k (remove_delimiter e st)"
  "is_asked (work k st) = is_asked st" "is_made (work k st) = is_made st"
  "(worked w st)\<lparr>is_made := j\<rparr> = worked w (st\<lparr>is_made := j\<rparr>)" "(worked w st)\<lparr>is_error := b\<rparr> = worked w (st\<lparr>is_error := b\<rparr>)"
  "(worked w st)\<lparr>is_siblings := ns\<rparr> = worked w (st\<lparr>is_siblings := ns\<rparr>)"
  "(work k st)\<lparr>is_siblings := ns\<rparr> = work k (st\<lparr>is_siblings := ns\<rparr>)"
  by (simp_all add: worked_def undecide_def remove_delimiter_def count_entry_def work_def Let_def)

lemma worked_self: "worked (is_work st) st = st"
  by (simp add: worked_def)

lemma reduce_worked:
  "\<exists>v. reduce_delimiter_range es boundary (worked w st) =
     (fst (reduce_delimiter_range es boundary st), worked v (snd (reduce_delimiter_range es boundary st)))"
proof (induction es boundary st arbitrary: w rule: reduce_delimiter_range.induct)
  case (1 boundary st)
  then show ?case by auto
next
  case (2 e es boundary st)
  show ?case
  proof (cases "dl_kind e = DELIMITER_BOUNDARY \<and> \<not> boundary")
    case True
    have "work 1 (worked w st) = worked (w + 1) (work 1 st)" by (simp add: worked_def work_def)
    with 2(1) [OF refl True, of "w + 1"] show ?thesis using True by (auto simp: Let_def split: prod.split)
  next
    case False
    let ?t = "\<lambda>s. if dl_kind e = DELIMITER_MARKER \<and> dl_can_open e \<and> is_asked s (dl_rule e)
      then undecide (place_of (is_siblings s) (dl_node e)) s else s"
    have "work 1 (worked w st) = worked (w + 1) (work 1 st)" by (simp add: worked_def work_def)
    then have "remove_delimiter e (?t (work 1 (worked w st))) = worked (w + 1) (remove_delimiter e (?t (work 1 st)))" by simp
    with 2(2) [OF refl False refl, of "w + 1"] show ?thesis using False by (simp only: reduce_delimiter_range.simps Let_def if_False)
  qed
qed

lemma insert_worked:
  "\<exists>v. S_insert_delimited_inline d admits alloc oe ce used kind (worked w st) =
     (fst (S_insert_delimited_inline d admits alloc oe ce used kind st),
      worked v (snd (S_insert_delimited_inline d admits alloc oe ce used kind st)))"
  by (cases "admits kind"; cases "alloc (is_made st + 1)") (auto simp: S_insert_delimited_inline_def Let_def)

text \<open>Two walks that differ in their bounds and their counts of work only.\<close>

definition twin :: "(nat \<Rightarrow> delimiter_rule \<Rightarrow> nat) \<Rightarrow> nat \<Rightarrow> pair_state \<Rightarrow> pair_state" where
  "twin b w ps = ps\<lparr>ps_bottoms := b, ps_state := worked w (ps_state ps)\<rparr>"

lemma twin_simps [simp]:
  "ps_below (twin b w ps) = ps_below ps" "ps_ahead (twin b w ps) = ps_ahead ps" "ps_word (twin b w ps) = ps_word ps"
  "ps_affix (twin b w ps) = ps_affix ps" "ps_bottoms (twin b w ps) = b" "ps_state (twin b w ps) = worked w (ps_state ps)"
  "pass_boundary e (twin b w ps) = twin b w (pass_boundary e ps)" "twin b w (twin b' w' ps) = twin b w ps"
  by (simp_all add: twin_def pass_boundary_def)

lemma missed_twin: "\<exists>b'. pair_missed closer later (twin b w ps) = twin b' w (pair_missed closer later ps)"
  by (rule exI [of _ "\<lambda>l r. if l = dl_length closer mod 3 \<and> r = dl_rule closer then dl_position closer else b l r"])
    (cases "dl_can_open closer"; simp add: pair_missed_def Let_def twin_def cong: if_cong)

lemma pair_found_twin:
  "\<exists>v. pair_found pe closer later inside opener lower (twin b w ps) = twin b v (pair_found pe closer later inside opener lower ps)"
proof -
  obtain kept st where r: "reduce_delimiter_range inside False (ps_state ps) = (kept, st)" by fastforce
  from reduce_worked [of inside False w "ps_state ps"] obtain x where
    r': "reduce_delimiter_range inside False (worked w (ps_state ps)) = (kept, worked x st)" unfolding r by auto
  let ?spec = "delimiter_spec (pe_dialect pe) (dl_rule closer)"
  let ?used = "used_width ?spec (literal_length (is_siblings st) (dl_node opener)) (literal_length (is_siblings st) (dl_node closer))"
  obtain ins st2 where i: "S_insert_delimited_inline (pe_dialect pe) (pe_admits pe) (pe_alloc pe) opener closer ?used
      (made_kind ?spec ?used) st = (ins, st2)" by fastforce
  from insert_worked [of "pe_dialect pe" "pe_admits pe" "pe_alloc pe" opener closer ?used "made_kind ?spec ?used" x st] obtain y where
    i': "S_insert_delimited_inline (pe_dialect pe) (pe_admits pe) (pe_alloc pe) opener closer ?used
      (made_kind ?spec ?used) (worked x st) = (ins, worked y st2)" unfolding i by auto
  consider "minimum_width ?spec \<noteq> 0" | "minimum_width ?spec = 0" by blast
  then show ?thesis
  proof cases
    case 1
    then show ?thesis using i i' by (auto simp: pair_found_def Let_def r r' twin_def intro!: exI [of _ y])
  next
    case 2
    then show ?thesis using 2 by (auto simp: pair_found_def Let_def r r' twin_def intro!: exI [of _ x])
  qed
qed

subsection \<open>A search past the bound finds nothing new\<close>

abbreviation falling :: "delimiter list \<Rightarrow> bool" where
  "falling es \<equiv> sorted_wrt (\<lambda>a b. dl_position b \<le> dl_position a) es"

lemma find_opener_none:
  "fst (find_opener spec closer bottom es) = None \<Longrightarrow> falling es \<Longrightarrow> o' \<in> set es \<Longrightarrow> bottom \<le> dl_position o' \<Longrightarrow>
    \<not> pairs_with spec o' closer"
proof (induction es)
  case (Cons e es)
  have "bottom \<le> dl_position e" using Cons.prems by auto
  then show ?case using Cons by (auto split: if_splits option.splits prod.splits)
qed simp

lemma find_opener_barren:
  "\<forall>o' \<in> set es. bottom \<le> dl_position o' \<longrightarrow> \<not> pairs_with spec o' closer \<Longrightarrow> fst (find_opener spec closer bottom es) = None"
  by (induction es) (auto split: option.splits prod.splits)

lemma find_opener_lower:
  assumes "low \<le> high"
  shows "falling es \<Longrightarrow> \<forall>o' \<in> set es. low \<le> dl_position o' \<and> dl_position o' < high \<longrightarrow> \<not> pairs_with spec o' closer \<Longrightarrow>
    fst (find_opener spec closer low es) = fst (find_opener spec closer high es)"
proof (induction es)
  case (Cons e es)
  show ?case
  proof (cases "dl_position e < high")
    case True
    then have "fst (find_opener spec closer high (e # es)) = None" by simp
    moreover have "fst (find_opener spec closer low (e # es)) = None"
      by (rule find_opener_barren) (use Cons.prems True in fastforce)
    ultimately show ?thesis by simp
  next
    case False
    then have "fst (find_opener spec closer low es) = fst (find_opener spec closer high es)" using Cons by simp
    then show ?thesis using False assms by (auto split: option.splits prod.splits)
  qed
qed simp

text \<open>
  The closers of a rule of three agree: of two with one length modulo three, either both may open or
  neither may.
\<close>

definition closers_agree :: "dialect \<Rightarrow> delimiter list \<Rightarrow> bool" where
  "closers_agree d es \<longleftrightarrow> (\<forall>c \<in> set es. \<forall>c' \<in> set es. dl_can_close c \<and> dl_can_close c' \<and> dl_rule c = dl_rule c' \<and>
     rule_of_three (delimiter_spec d (dl_rule c)) \<and> dl_length c mod 3 = dl_length c' mod 3 \<longrightarrow> (dl_can_open c \<longleftrightarrow> dl_can_open c'))"

lemma closers_agreeD:
  assumes "closers_agree d es" and "c \<in> set es" and "c' \<in> set es" and "dl_can_close c" and "dl_can_close c'"
    and "dl_rule c = dl_rule c'" and "dl_length c mod 3 = dl_length c' mod 3" and "rule_of_three (delimiter_spec d (dl_rule c))"
  shows "dl_can_open c \<longleftrightarrow> dl_can_open c'"
  using assms unfolding closers_agree_def by blast

lemma pairs_with_agree:
  assumes "pairs_with (delimiter_spec d (dl_rule c')) o' c'" and "dl_rule c = dl_rule c'" and "dl_length c mod 3 = dl_length c' mod 3"
    and "rule_of_three (delimiter_spec d (dl_rule c)) \<longrightarrow> (dl_can_open c \<longleftrightarrow> dl_can_open c')"
  shows "pairs_with (delimiter_spec d (dl_rule c)) o' c"
proof -
  have "(dl_length o' + dl_length c) mod 3 = (dl_length o' + dl_length c') mod 3" using assms(3) by (metis mod_add_right_eq)
  then show ?thesis using assms by (auto simp: pairs_with_def)
qed

text \<open>
  What the bounds say: an opener below one pairs with no closer ahead of that length and rule, or
  lies below a boundary that the closer may not cross.
\<close>

definition bounds_true :: "pairing \<Rightarrow> nat \<Rightarrow> pair_state \<Rightarrow> bool" where
  "bounds_true pe bottom ps \<longleftrightarrow>
     (\<forall>o' \<in> set (ps_below ps). \<forall>c \<in> set (ps_ahead ps). let spec = delimiter_spec (pe_dialect pe) (dl_rule c) in
        dl_can_close c \<longrightarrow> dl_position o' < ps_bottoms ps (dl_length c mod 3) (dl_rule c) \<longrightarrow> pairs_with spec o' c \<longrightarrow>
        dl_position o' < search_bottom spec bottom (ps_word ps) (ps_affix ps))"

definition bounds_behind :: "nat \<Rightarrow> pair_state \<Rightarrow> bool" where
  "bounds_behind bottom ps \<longleftrightarrow> falling (rev (ps_ahead ps) @ ps_below ps) \<and>
     (\<forall>e \<in> set (ps_ahead ps). ps_word ps \<le> dl_position e \<and> ps_affix ps \<le> dl_position e \<and>
        (\<forall>l r. ps_bottoms ps l r \<le> dl_position e)) \<and>
     bottom \<le> ps_word ps \<and> bottom \<le> ps_affix ps \<and> (\<forall>l r. bottom \<le> ps_bottoms ps l r)"

lemma search_bottom_mono:
  "b \<le> b' \<Longrightarrow> w \<le> w' \<Longrightarrow> a \<le> a' \<Longrightarrow> search_bottom spec b w a \<le> search_bottom spec b' w' a'"
  by (auto simp: search_bottom_def Let_def)

lemma search_bottom_less: "x < search_bottom spec b w a \<Longrightarrow> x < b \<or> x < search_bottom spec b' w a"
  by (auto simp: search_bottom_def Let_def split: if_splits)

text \<open>Fewer entries, further on: what is true of the bounds stays true.\<close>

lemma bounds_fewer:
  assumes "bounds_true pe bottom ps" and "set below \<subseteq> set (ps_below ps)" and "set ahead \<subseteq> set (ps_ahead ps)"
    and "ps' = ps\<lparr>ps_below := below, ps_ahead := ahead, ps_state := st\<rparr>"
  shows "bounds_true pe bottom ps'"
  using assms unfolding bounds_true_def by fastforce

lemma bounds_passed:
  assumes "bounds_true pe bottom ps" and "bounds_behind bottom ps" and "closer \<in> set (ps_ahead ps)" and "set below \<subseteq> set (ps_below ps)"
    and "set ahead \<subseteq> set (ps_ahead ps)" and "ps' = ps\<lparr>ps_below := closer # below, ps_ahead := ahead, ps_state := st\<rparr>"
  shows "bounds_true pe bottom ps'"
proof -
  have "\<not> dl_position closer < ps_bottoms ps l r" for l r using assms(2,3) by (simp add: bounds_behind_def not_less)
  then show ?thesis using assms(1,4-6) unfolding bounds_true_def by fastforce
qed

subsection \<open>One turn of each\<close>

lemma subseq_past: "subseq xs ys \<Longrightarrow> subseq (zs @ xs) (zs @ ys)" "subseq xs ys \<Longrightarrow> subseq (zs @ xs) (zs @ e # ys)"
  "subseq xs ys \<Longrightarrow> subseq (zs @ e # xs) (zs @ e # ys)"
  by (auto intro!: list_emb_append_mono)

lemma falling_fewer: "subseq xs ys \<Longrightarrow> falling ys \<Longrightarrow> falling xs"
proof (induction rule: list_emb.induct)
  case (list_emb_Cons2 x y xs ys)
  then show ?case using subseq_subset by auto
qed auto

definition later_step :: "delimiter \<Rightarrow> delimiter list \<Rightarrow> delimiter list \<Rightarrow> pair_state \<Rightarrow> pair_state \<Rightarrow> bool" where
  "later_step closer later old ps ps' \<longleftrightarrow> (\<exists>below st. subseq below old \<and>
     (ps' = ps\<lparr>ps_below := below, ps_ahead := later, ps_state := st\<rparr> \<or>
      ps' = ps\<lparr>ps_below := closer # below, ps_ahead := later, ps_state := st\<rparr> \<or>
      ps' = ps\<lparr>ps_below := below, ps_ahead := closer # later, ps_state := st\<rparr>))"

lemma reduce_subseq: "subseq (fst (reduce_delimiter_range es boundary st)) es"
  by (induction es boundary st rule: reduce_delimiter_range.induct) (auto simp: Let_def split: prod.split)

lemma pair_found_later: "later_step closer later (inside @ opener # lower) ps (pair_found pe closer later inside opener lower ps)"
proof -
  obtain kept st where r: "reduce_delimiter_range inside False (ps_state ps) = (kept, st)" by fastforce
  then have k: "subseq kept inside" using reduce_subseq [of inside False "ps_state ps"] by simp
  have s: "subseq (kept @ stay b opener @ lower) (inside @ opener # lower)" "subseq (kept @ lower) (inside @ opener # lower)"
    "subseq (kept @ opener # lower) (inside @ opener # lower)" for b
    using k by (auto simp: stay_def intro!: list_emb_append_mono)
  let ?spec = "delimiter_spec (pe_dialect pe) (dl_rule closer)"
  let ?used = "used_width ?spec (literal_length (is_siblings st) (dl_node opener)) (literal_length (is_siblings st) (dl_node closer))"
  obtain ins st2 where i: "S_insert_delimited_inline (pe_dialect pe) (pe_admits pe) (pe_alloc pe) opener closer ?used
      (made_kind ?spec ?used) st = (ins, st2)" by fastforce
  show ?thesis
  proof (cases "minimum_width ?spec = 0")
    case True
    show ?thesis
    proof (cases "dl_builds closer")
      case builds: True
      show ?thesis using True builds unfolding later_step_def pair_found_def Let_def r case_prod_conv
        by (intro exI [of _ "kept @ lower"] exI conjI s(2)) auto
    next
      case no: False
      show ?thesis using True no unfolding later_step_def pair_found_def Let_def r case_prod_conv
        by (intro exI [of _ "kept @ opener # lower"] exI [of _ st] conjI s(3)) simp
    qed
  next
    case False
    let ?below = "kept @ stay (opener_stays ins) opener @ lower"
    have "pair_found pe closer later inside opener lower ps =
      (if \<not> closer_stays ins then ps\<lparr>ps_below := ?below, ps_ahead := later, ps_state := st2\<rparr>
       else if moves_on ins then ps\<lparr>ps_below := closer # ?below, ps_ahead := later, ps_state := st2\<rparr>
       else ps\<lparr>ps_below := ?below, ps_ahead := closer # later, ps_state := st2\<rparr>)"
      unfolding pair_found_def Let_def r case_prod_conv i stay_def using False by simp
    then show ?thesis using s(1) [of "opener_stays ins"] unfolding later_step_def by (intro exI [of _ ?below] exI [of _ st2]) auto
  qed
qed

lemma later_step_bounds:
  assumes "later_step closer later (ps_below ps) ps ps'" and "ps_ahead ps = closer # later"
    and "bounds_true pe bottom ps" and "bounds_behind bottom ps"
  shows "bounds_true pe bottom ps' \<and> bounds_behind bottom ps' \<and> set (ps_ahead ps') \<subseteq> set (ps_ahead ps)"
proof -
  obtain below st where b: "subseq below (ps_below ps)" and ps': "ps' = ps\<lparr>ps_below := below, ps_ahead := later, ps_state := st\<rparr> \<or>
      ps' = ps\<lparr>ps_below := closer # below, ps_ahead := later, ps_state := st\<rparr> \<or>
      ps' = ps\<lparr>ps_below := below, ps_ahead := closer # later, ps_state := st\<rparr>" using assms(1) by (auto simp: later_step_def)
  note sub = subseq_subset [OF b]
  have "bounds_true pe bottom ps'" using ps'
  proof (elim disjE)
    assume "ps' = ps\<lparr>ps_below := closer # below, ps_ahead := later, ps_state := st\<rparr>"
    then show ?thesis by (intro bounds_passed [OF assms(3,4) _ sub]) (use assms(2) in auto)
  next
    assume "ps' = ps\<lparr>ps_below := below, ps_ahead := later, ps_state := st\<rparr>"
    then show ?thesis by (rule bounds_fewer [OF assms(3) sub _, rotated]) (simp add: assms(2) subset_insertI)
  next
    assume "ps' = ps\<lparr>ps_below := below, ps_ahead := closer # later, ps_state := st\<rparr>"
    then show ?thesis by (rule bounds_fewer [OF assms(3) sub _, rotated]) (simp add: assms(2) subset_insertI)
  qed
  moreover have a: "set (ps_ahead ps') \<subseteq> set (ps_ahead ps)" using ps' assms(2) by auto
  have "subseq (rev (ps_ahead ps') @ ps_below ps') (rev (ps_ahead ps) @ ps_below ps)"
    using ps' b assms(2) by (elim disjE) (simp_all add: subseq_past)
  then have "falling (rev (ps_ahead ps') @ ps_below ps')" using falling_fewer assms(4) by (auto simp: bounds_behind_def)
  then have "bounds_behind bottom ps'" using assms(4) a ps' unfolding bounds_behind_def by auto
  ultimately show ?thesis using a by blast
qed

lemma pass_boundary_bounds:
  assumes "ps_ahead ps = closer # later" and "bounds_true pe bottom ps" and "bounds_behind bottom ps"
  shows "bounds_true pe bottom (pass_boundary closer ps) \<and> bounds_behind bottom (pass_boundary closer ps)"
proof -
  let ?p = "pass_boundary closer ps"
  have f: "ps_below ?p = ps_below ps" "ps_ahead ?p = ps_ahead ps" "ps_bottoms ?p = ps_bottoms ps" by (simp_all add: pass_boundary_def)
  have c: "ps_word ps \<le> dl_position closer" "ps_affix ps \<le> dl_position closer" using assms(1,3) by (simp_all add: bounds_behind_def)
  have up: "ps_word ps \<le> ps_word ?p" "ps_affix ps \<le> ps_affix ?p" using c by (simp_all add: pass_boundary_def)
  have "\<forall>e \<in> set (ps_ahead ps). dl_position closer \<le> dl_position e"
    using assms(1,3) by (auto simp: bounds_behind_def sorted_wrt_append)
  then have "\<forall>e \<in> set (ps_ahead ps). ps_word ?p \<le> dl_position e \<and> ps_affix ?p \<le> dl_position e"
    using assms(3) by (auto simp: bounds_behind_def pass_boundary_def)
  then have "bounds_behind bottom ?p" using assms(3) f up unfolding bounds_behind_def by auto
  moreover have "bounds_true pe bottom ?p" unfolding bounds_true_def f Let_def
  proof (intro ballI impI)
    fix o' c :: delimiter
    assume o: "o' \<in> set (ps_below ps)" "c \<in> set (ps_ahead ps)" "dl_can_close c"
      "dl_position o' < ps_bottoms ps (dl_length c mod 3) (dl_rule c)" "pairs_with (delimiter_spec (pe_dialect pe) (dl_rule c)) o' c"
    then have "dl_position o' < search_bottom (delimiter_spec (pe_dialect pe) (dl_rule c)) bottom (ps_word ps) (ps_affix ps)"
      using assms(2) by (simp add: bounds_true_def Let_def)
    then show "dl_position o' < search_bottom (delimiter_spec (pe_dialect pe) (dl_rule c)) bottom (ps_word ?p) (ps_affix ?p)"
      using search_bottom_mono [OF order_refl up] by (rule less_le_trans)
  qed
  ultimately show ?thesis by blast
qed

text \<open>A miss: the bound it leaves is true of the closers ahead that agree with it.\<close>

lemma pair_missed_bounds:
  assumes "ps_ahead ps = closer # later" and "bounds_true pe bottom ps" and "bounds_behind bottom ps"
    and "closers_agree (pe_dialect pe) (ps_ahead ps)" and "dl_can_close closer" and "spec = delimiter_spec (pe_dialect pe) (dl_rule closer)"
    and "fst (find_opener spec closer (search_bottom spec (ps_bottoms ps (dl_length closer mod 3) (dl_rule closer)) (ps_word ps) (ps_affix ps))
      (ps_below ps)) = None"
  shows "bounds_true pe bottom (pair_missed closer later ps) \<and> bounds_behind bottom (pair_missed closer later ps) \<and>
    set (ps_ahead (pair_missed closer later ps)) \<subseteq> set (ps_ahead ps)"
proof -
  let ?ps = "pair_missed closer later ps" and ?d = "pe_dialect pe"
  have f: "ps_ahead ?ps = later" "ps_word ?ps = ps_word ps" "ps_affix ?ps = ps_affix ps"
    "ps_below ?ps = (if dl_can_open closer then closer # ps_below ps else ps_below ps)"
    "ps_bottoms ?ps = (\<lambda>l r. if l = dl_length closer mod 3 \<and> r = dl_rule closer then dl_position closer else ps_bottoms ps l r)"
    by (simp_all add: pair_missed_def Let_def)
  have fall: "falling (rev later @ closer # ps_below ps)" using assms(1,3) by (simp add: bounds_behind_def)
  then have far: "\<forall>e \<in> set later. dl_position closer \<le> dl_position e" by (simp add: sorted_wrt_append)
  have "subseq (rev (ps_ahead ?ps) @ ps_below ?ps) (rev later @ closer # ps_below ps)" using f by (auto intro!: list_emb_append_mono)
  then have "falling (rev (ps_ahead ?ps) @ ps_below ?ps)" using falling_fewer fall by blast
  moreover have "\<forall>l r. bottom \<le> ps_bottoms ps l r" "bottom \<le> ps_word ps" "bottom \<le> ps_affix ps" "ps_word ps \<le> dl_position closer"
    using assms(1,3) by (simp_all add: bounds_behind_def)
  ultimately have "bounds_behind bottom ?ps" using assms(1,3) far f unfolding bounds_behind_def by auto
  moreover have "bounds_true pe bottom ?ps" unfolding bounds_true_def Let_def f(1-3)
  proof (intro ballI impI)
    fix o' c :: delimiter
    let ?spec = "delimiter_spec ?d (dl_rule c)"
    assume o: "o' \<in> set (ps_below ?ps)" "c \<in> set later" "dl_can_close c"
      "dl_position o' < ps_bottoms ?ps (dl_length c mod 3) (dl_rule c)" "pairs_with ?spec o' c"
    have behind: "ps_bottoms ps l r \<le> dl_position closer" for l r using assms(1,3) by (simp add: bounds_behind_def)
    have old: "dl_position o' < search_bottom ?spec bottom (ps_word ps) (ps_affix ps)"
      if "o' \<in> set (ps_below ps)" "dl_position o' < ps_bottoms ps (dl_length c mod 3) (dl_rule c)"
      using assms(1,2) that o(2,3,5) by (simp add: bounds_true_def Let_def)
    have below: "o' \<in> set (ps_below ps)" 
    proof (rule ccontr)
      assume "o' \<notin> set (ps_below ps)"
      then have "o' = closer" using o(1) f(4) by (auto split: if_splits)
      moreover have "ps_bottoms ?ps (dl_length c mod 3) (dl_rule c) \<le> dl_position closer" using behind f(5) by simp
      ultimately show False using o(4) by simp
    qed
    show "dl_position o' < search_bottom ?spec bottom (ps_word ps) (ps_affix ps)"
    proof (cases "dl_length c mod 3 = dl_length closer mod 3 \<and> dl_rule c = dl_rule closer")
      case False
      then show ?thesis using old [OF below] o(4) f(5) by (auto split: if_splits)
    next
      case True
      then have same: "dl_rule closer = dl_rule c" "dl_length closer mod 3 = dl_length c mod 3" by simp_all
      have agree: "dl_can_open closer \<longleftrightarrow> dl_can_open c" if "rule_of_three (delimiter_spec ?d (dl_rule closer))"
        by (rule closers_agreeD [OF assms(4) _ _ assms(5) o(3) same that]) (simp_all add: assms(1) o(2))
      have "pairs_with spec o' closer" unfolding assms(6) by (intro pairs_with_agree [OF o(5) same] impI agree)
      moreover have "falling (ps_below ps)" using fall by (simp add: sorted_wrt_append)
      ultimately have "dl_position o' < search_bottom spec (ps_bottoms ps (dl_length closer mod 3) (dl_rule closer)) (ps_word ps) (ps_affix ps)"
        using find_opener_none [OF assms(7) _ below] not_less by blast
      then have "dl_position o' < ps_bottoms ps (dl_length c mod 3) (dl_rule c) \<or>
          dl_position o' < search_bottom ?spec bottom (ps_word ps) (ps_affix ps)"
        using search_bottom_less True assms(6) by metis
      then show ?thesis using old [OF below] by blast
    qed
  qed
  ultimately show ?thesis using f(1) assms(1) by auto
qed

lemma turn_twin:
  assumes "ps_ahead ps = closer # later" and "bounds_true pe bottom ps" and "bounds_behind bottom ps"
    and "closers_agree (pe_dialect pe) (ps_ahead ps)"
  shows "(\<exists>b' w'. pair_turn pe closer later (forget bottom (twin b w ps)) = twin b' w' (pair_turn pe closer later ps)) \<and>
    bounds_true pe bottom (pair_turn pe closer later ps) \<and> bounds_behind bottom (pair_turn pe closer later ps) \<and>
    set (ps_ahead (pair_turn pe closer later ps)) \<subseteq> set (ps_ahead ps)"
proof -
  let ?p = "pass_boundary closer ps" and ?spec = "delimiter_spec (pe_dialect pe) (dl_rule closer)"
  let ?f = "\<lambda>l r. bottom"
  have forget: "forget bottom (twin b w ps) = twin ?f w ps" by (simp add: forget_def twin_def)
  have p: "ps_below ?p = ps_below ps" "ps_ahead ?p = ps_ahead ps" "ps_state ?p = ps_state ps" by (simp_all add: pass_boundary_def)
  from pass_boundary_bounds [OF assms(1-3)] have P: "bounds_true pe bottom ?p" "bounds_behind bottom ?p" by simp_all
  show ?thesis
  proof (cases "dl_can_close closer")
    case False
    have t: "pair_turn pe closer later x = (pass_boundary closer x)\<lparr>ps_below := closer # ps_below (pass_boundary closer x), ps_ahead := later\<rparr>" for x
      using False by (simp add: pair_turn_def Let_def)
    have "later_step closer later (ps_below ?p) ?p (pair_turn pe closer later ps)"
      unfolding later_step_def t by (intro exI [of _ "ps_below ?p"] exI [of _ "ps_state ?p"]) simp
    moreover have "pair_turn pe closer later (twin ?f w ps) = twin ?f w (pair_turn pe closer later ps)"
      unfolding t twin_simps by (simp add: twin_def)
    ultimately show ?thesis using later_step_bounds [OF _ _ P, of closer later] p assms(1) unfolding forget by auto
  next
    case True
    let ?low = "search_bottom ?spec bottom (ps_word ?p) (ps_affix ?p)"
    let ?high = "search_bottom ?spec (ps_bottoms ?p (dl_length closer mod 3) (dl_rule closer)) (ps_word ?p) (ps_affix ?p)"
    have "falling (ps_below ?p)" using P(2) by (simp add: bounds_behind_def sorted_wrt_append)
    moreover have "?low \<le> ?high" using P(2) by (intro search_bottom_mono) (simp_all add: bounds_behind_def)
    moreover have "\<forall>o' \<in> set (ps_below ?p). ?low \<le> dl_position o' \<and> dl_position o' < ?high \<longrightarrow> \<not> pairs_with ?spec o' closer"
    proof (intro ballI impI notI)
      fix o' assume o: "o' \<in> set (ps_below ?p)" "?low \<le> dl_position o' \<and> dl_position o' < ?high" "pairs_with ?spec o' closer"
      then have "dl_position o' < ps_bottoms ?p (dl_length closer mod 3) (dl_rule closer)"
        using search_bottom_less [of "dl_position o'" ?spec _ "ps_word ?p" "ps_affix ?p" bottom] by fastforce
      then have "dl_position o' < ?low" using P(1) o(1,3) True p(2) assms(1) by (simp add: bounds_true_def Let_def)
      then show False using o(2) by simp
    qed
    ultimately have same: "fst (find_opener ?spec closer ?low (ps_below ?p)) = fst (find_opener ?spec closer ?high (ps_below ?p))"
      by (intro find_opener_lower) simp_all
    obtain found k where h: "find_opener ?spec closer ?high (ps_below ?p) = (found, k)" by fastforce
    with same obtain k' where l: "find_opener ?spec closer ?low (ps_below ?p) = (found, k')"
      by (cases "find_opener ?spec closer ?low (ps_below ?p)") simp
    let ?q = "?p\<lparr>ps_state := work k (ps_state ps)\<rparr>"
    have q: "bounds_true pe bottom ?q" "bounds_behind bottom ?q" "ps_below ?q = ps_below ps" "ps_ahead ?q = closer # later"
      using P p assms(1) unfolding bounds_true_def bounds_behind_def by simp_all
    have tq: "twin ?f (w + k') ?q = (twin ?f w ?p)\<lparr>ps_state := work k' (worked w (ps_state ps))\<rparr>"
      using p(3) by (simp add: twin_def)
    have tp: "pair_turn pe closer later ps = (case found of Some (inside, opener, lower) \<Rightarrow> pair_found pe closer later inside opener lower ?q
        | None \<Rightarrow> pair_missed closer later ?q)"
      unfolding pair_turn_def Let_def h using True p(3) by (simp split: option.split)
    have tt: "pair_turn pe closer later (twin ?f w ps) = (case found of
          Some (inside, opener, lower) \<Rightarrow> pair_found pe closer later inside opener lower (twin ?f (w + k') ?q)
        | None \<Rightarrow> pair_missed closer later (twin ?f (w + k') ?q))"
      unfolding tq pair_turn_def Let_def twin_simps l using True p(3) by (simp split: option.split)
    show ?thesis
    proof (cases found)
      case None
      have "fst (find_opener ?spec closer (search_bottom ?spec (ps_bottoms ?q (dl_length closer mod 3) (dl_rule closer)) (ps_word ?q) (ps_affix ?q))
          (ps_below ?q)) = None" using h None by simp
      from pair_missed_bounds [OF q(4,1,2) _ True refl this] have "bounds_true pe bottom (pair_missed closer later ?q) \<and>
          bounds_behind bottom (pair_missed closer later ?q) \<and> set (ps_ahead (pair_missed closer later ?q)) \<subseteq> set (ps_ahead ?q)"
        using assms(1,4) q(4) by simp
      moreover have "\<exists>b'. pair_missed closer later (twin ?f (w + k') ?q) = twin b' (w + k') (pair_missed closer later ?q)"
        by (rule missed_twin)
      ultimately show ?thesis using q(4) assms(1) unfolding forget tp tt None by auto
    next
      case (Some x)
      obtain inside opener lower where x: "x = (inside, opener, lower)" by (cases x)
      have e: "ps_below ?q = inside @ opener # lower" using find_opener_found [OF h [unfolded Some x]] p(1) q(3) by simp
      from later_step_bounds [OF pair_found_later [of closer later inside opener lower ?q pe, folded e] q(4,1,2)]
        pair_found_twin [of pe closer later inside opener lower ?f "w + k'" ?q]
      show ?thesis using q(4) assms(1) unfolding forget tp tt Some x by auto
    qed
  qed
qed

subsection \<open>The two pairings\<close>

lemma loop_twin:
  "pairing_inv pe bottom lower rest ps \<Longrightarrow> floor_ok bottom lower \<Longrightarrow> builds_ok pe \<Longrightarrow> bounds_true pe bottom ps \<Longrightarrow>
    bounds_behind bottom ps \<Longrightarrow> closers_agree (pe_dialect pe) (ps_ahead ps) \<Longrightarrow>
    \<exists>ps' b' w'. pair_loop pe ps = Some ps' \<and> exhaustive_loop pe bottom (twin b w ps) = Some (twin b' w' ps')"
proof (induction "pair_measure ps" arbitrary: ps b w rule: less_induct)
  case less
  show ?case
  proof (cases "ps_ahead ps")
    case Nil
    then have "pair_loop pe ps = Some ps" "exhaustive_loop pe bottom (twin b w ps) = Some (twin b w ps)"
      by (subst pair_loop.simps exhaustive_loop.simps, simp)+
    then show ?thesis by blast
  next
    case (Cons closer later)
    let ?next = "pair_turn pe closer later ps"
    from pair_turn_inv [OF less(2-4) Cons refl] have t: "pairing_inv pe bottom lower rest ?next" "pair_measure ?next < pair_measure ps"
      by simp_all
    from turn_twin [OF Cons less(5-7), of b w] obtain b' w' where e: "pair_turn pe closer later (forget bottom (twin b w ps)) = twin b' w' ?next"
      and B: "bounds_true pe bottom ?next" "bounds_behind bottom ?next" "set (ps_ahead ?next) \<subseteq> set (ps_ahead ps)" by blast
    have "closers_agree (pe_dialect pe) (ps_ahead ?next)" using less(7) B(3) unfolding closers_agree_def by blast
    from less(1) [OF t(2,1) less(3,4) B(1,2) this, of b' w'] obtain ps' b'' w'' where
      "pair_loop pe ?next = Some ps'" "exhaustive_loop pe bottom (twin b' w' ?next) = Some (twin b'' w'' ps')" by blast
    moreover have "pair_loop pe ps = pair_loop pe ?next" using Cons by (subst pair_loop.simps) simp
    moreover have "exhaustive_loop pe bottom (twin b w ps) = exhaustive_loop pe bottom (twin b' w' ?next)"
      using Cons e by (subst exhaustive_loop.simps) simp
    ultimately show ?thesis by auto
  qed
qed

lemma settle_worked: "settle_range es (worked w st) = worked w (settle_range es st)"
  by (induction es arbitrary: st) simp_all

lemma start_bounds:
  assumes "falling (reach @ lower)" and "\<forall>e \<in> set reach. bottom \<le> dl_position e"
  shows "bounds_true pe bottom (pairing_of bottom lower (rev reach) st)" and "bounds_behind bottom (pairing_of bottom lower (rev reach) st)"
  using assms by (auto simp: bounds_true_def bounds_behind_def pairing_of_def search_bottom_def Let_def)

lemma falling_stack: "sorted (map dl_position es) \<Longrightarrow> falling (rev (take after es))"
  by (simp add: sorted_wrt_rev sorted_wrt_map sorted_wrt_take)

text \<open>
  C7: The bounds kept by the pairing of delimiters (\<open>openers_bottom\<close> of \<open>S_process_delimiters\<close>,
  \<open>core/inlines.c\<close>) decide nothing but how much is looked at, where the closers agree: a pairing that
  searches the whole range for every closer ends too and leaves the same siblings, stack and counts.
\<close>

theorem pairing_memo_exact:
  assumes "delimiters_ok (pe_dialect pe) st" and "builds_ok pe" and "sorted (map dl_position (is_stack st))"
    and "closers_agree (pe_dialect pe) (is_stack st)"
  shows "\<exists>st' k. S_process_delimiters pe stack_bottom after settle st = Some st' \<and>
    process_exhaustively pe stack_bottom after settle st = Some (st'\<lparr>is_work := k\<rparr>)"
proof -
  let ?lower = "dropWhile (\<lambda>e. dl_position e \<ge> stack_bottom) (rev (take after (is_stack st)))"
  let ?range = "takeWhile (\<lambda>e. dl_position e \<ge> stack_bottom) (rev (take after (is_stack st)))"
  let ?ps = "pairing_of stack_bottom ?lower (rev ?range) st"
  note start = process_start [OF assms(1) refl refl, of stack_bottom after]
  have "falling (?range @ ?lower)" unfolding start(3) using falling_stack [OF assms(3)] .
  note bounds = start_bounds [OF this start(2)]
  have "set ?range \<subseteq> set (is_stack st)" by (auto dest!: set_takeWhileD in_set_takeD)
  then have "closers_agree (pe_dialect pe) (ps_ahead ?ps)" using assms(4) unfolding closers_agree_def by (simp add: pairing_of_def) blast
  from loop_twin [OF start(4,1) assms(2) bounds this, of "ps_bottoms ?ps" "is_work st"] obtain ps b w where
    l: "pair_loop pe ?ps = Some ps" "exhaustive_loop pe stack_bottom (twin (ps_bottoms ?ps) (is_work st) ?ps) = Some (twin b w ps)" by blast
  have "twin (ps_bottoms ?ps) (is_work st) ?ps = ?ps" by (simp add: twin_def pairing_of_def worked_def)
  note l2 = l(2) [unfolded this]
  let ?left = "take (length (ps_below ps) - length ?lower) (ps_below ps)"
  let ?st1 = "if settle then settle_range ?left (ps_state ps) else ps_state ps"
  have s1: "(if settle then settle_range ?left (worked w (ps_state ps)) else worked w (ps_state ps)) = worked w ?st1" by (simp add: settle_worked)
  obtain kept st2 where r: "reduce_delimiter_range ?left False ?st1 = (kept, st2)" by fastforce
  from reduce_worked [of ?left False w ?st1] r obtain v where r2: "reduce_delimiter_range ?left False (worked w ?st1) = (kept, worked v st2)" by auto
  have "S_process_delimiters pe stack_bottom after settle st = Some (st2\<lparr>is_stack := rev ?lower @ rev kept @ drop after (is_stack st)\<rparr>)"
    unfolding S_process_delimiters_def Let_def l(1) option.case r case_prod_conv by (rule refl)
  moreover have "process_exhaustively pe stack_bottom after settle st =
      Some ((worked v st2)\<lparr>is_stack := rev ?lower @ rev kept @ drop after (is_stack st)\<rparr>)"
    unfolding process_exhaustively_def Let_def l2 option.case twin_simps s1 r2 case_prod_conv by (rule refl)
  ultimately show ?thesis unfolding worked_def by (intro exI [of _ "st2\<lparr>is_stack := rev ?lower @ rev kept @ drop after (is_stack st)\<rparr>"] exI [of _ v]) simp
qed

text \<open>A stack in order, with a pair inside a pair: \<open>*a _b_*\<close>.\<close>

definition sample_pairing :: pairing where
  "sample_pairing = \<lparr>pe_dialect = sample_dialect, pe_admits = (\<lambda>k. True), pe_alloc = (\<lambda>n. True), pe_build = (\<lambda>opener closer nodes. nodes)\<rparr>"

definition run_entry :: "nat \<Rightarrow> nat \<Rightarrow> nat \<Rightarrow> delimiter_rule \<Rightarrow> bool \<Rightarrow> bool \<Rightarrow> delimiter" where
  "run_entry name position width rule opens closes = (fresh_entry DELIMITER_MARKER position)\<lparr>dl_node := name, dl_length := width,
     dl_rule := rule, dl_can_open := opens, dl_can_close := closes\<rparr>"

definition with_entries :: "delimiter list \<Rightarrow> inline_node list \<Rightarrow> inline_state" where
  "with_entries es nodes = (sample_state [])\<lparr>is_stack := es, is_siblings := nodes,
     is_openers := (\<lambda>r. int (length (filter (\<lambda>e. dl_can_open e \<and> dl_rule e = r) es))),
     is_closers := (\<lambda>r. int (length (filter (\<lambda>e. dl_can_close e \<and> dl_rule e = r) es)))\<rparr>"

lemma sample_builds: "builds_ok sample_pairing"
  by (simp add: builds_ok_def sample_pairing_def Let_def)

lemma with_entries_stack: "is_stack (with_entries es nodes) = es"
  by (simp add: with_entries_def)

lemma with_entries_counted: "counted (with_entries es nodes) (mset es)"
  by (simp add: counted_stack with_entries_def)

definition nested :: inline_state where
  "nested = with_entries
     [run_entry 0 1 1 RULE_EMPHASIS True False, run_entry 1 4 1 RULE_UNDERSCORE True False,
      run_entry 2 6 1 RULE_UNDERSCORE False True, run_entry 3 7 1 RULE_EMPHASIS False True]
     [Run 0 0 1 1, Other 1 3, Run 1 3 4 1, Other 4 5, Run 2 5 6 1, Run 3 6 7 1]"

lemma nested_ok: "delimiters_ok (pe_dialect sample_pairing) nested"
proof -
  have "standing sample_dialect (is_siblings nested) (is_stack nested)"
    by (simp add: standing_def nested_def with_entries_def run_entry_def fresh_entry_def verbatim_def entry_ok_def needed_def
        literal_length_def named_run_def delimiter_spec_def element_spec_def spec_defs sample_dialect_def)
  moreover have "counted nested (mset (is_stack nested))"
    unfolding nested_def with_entries_stack by (rule with_entries_counted)
  ultimately show ?thesis by (simp add: delimiters_ok_def sample_pairing_def)
qed

theorem pairing_memo_exact_witness:
  "\<exists>st' k. S_process_delimiters sample_pairing 0 4 True nested = Some st' \<and>
    process_exhaustively sample_pairing 0 4 True nested = Some (st'\<lparr>is_work := k\<rparr>)"
  by (rule pairing_memo_exact [OF nested_ok sample_builds])
    (simp_all add: nested_def with_entries_def run_entry_def fresh_entry_def closers_agree_def)

text \<open>
  Where they do not agree the bounds decide: in \<open>**a _b*c_ d*\<close> the third run, which both opens and
  closes, finds no opener because of the rule of three, and so bounds the search of the last run, which
  only closes and would pair with the first.
\<close>

definition crossing :: inline_state where
  "crossing = with_entries
     [run_entry 0 2 2 RULE_EMPHASIS True False, run_entry 1 5 1 RULE_UNDERSCORE True False,
      run_entry 2 7 1 RULE_EMPHASIS True True, run_entry 3 9 1 RULE_UNDERSCORE False True,
      run_entry 4 12 1 RULE_EMPHASIS False True]
     [Run 0 0 2 2, Other 2 4, Run 1 4 5 1, Other 5 6, Run 2 6 7 1, Other 7 8, Run 3 8 9 1, Other 9 11, Run 4 11 12 1]"

lemma bound_blind_to_opening:
  "map_option is_siblings (S_process_delimiters sample_pairing 0 5 True crossing) =
     Some [Run 0 0 2 2, Other 2 4, Made NODE_EMPHASIS 4 9 [Other 5 6, Run 2 6 7 1, Other 7 8], Other 9 11, Run 4 11 12 1]"
  "map_option is_siblings (process_exhaustively sample_pairing 0 5 True crossing) =
     Some [Run 0 0 1 1, Made NODE_EMPHASIS 1 12 [Other 2 4, Made NODE_EMPHASIS 4 9 [Other 5 6, Run 2 6 7 1, Other 7 8], Other 9 11]]"
  by code_simp+

end
