(* ===== verification/InlineTokens.thy ===== *)
theory InlineTokens
  imports PairingMemo
begin

text \<open>
  The tokens of an inline run: the scan of a marker run, and what any sequence of tokens and
  pairings keeps of the stack and of the tree.
\<close>

subsection \<open>The run that is scanned\<close>

lemma run_end_bounds: "e \<le> length input \<Longrightarrow> e \<le> run_end spec input c s e \<and> run_end spec input c s e \<le> length input"
proof (induction spec input c s e rule: run_end.induct)
  case (1 spec input c s e)
  then show ?case by (cases "e < length input \<and> input ! e = c \<and> (run_limit spec = 0 \<or> e - s < run_limit spec)")
      (auto simp: run_end.simps [of spec input c s e])
qed

lemma run_end_first: "s < length input \<Longrightarrow> s < run_end spec input (input ! s) s s"
  using run_end_bounds [of "s + 1" input spec "input ! s" s] by (subst run_end.simps) auto

definition run_fits :: "dialect \<Rightarrow> byte list \<Rightarrow> delimiter_run \<Rightarrow> bool" where
  "run_fits d input run \<longleftrightarrow> dr_start run < dr_end run \<and> dr_end run \<le> length input \<and>
     (dr_can_open run \<or> dr_can_close run \<longrightarrow> minimum_width (delimiter_spec d (dr_rule run)) \<le> dr_end run - dr_start run)"

definition cached_ok :: "dialect \<Rightarrow> inline_state \<Rightarrow> bool" where
  "cached_ok d st \<longleftrightarrow> (\<forall>run. is_cached st = Some run \<longrightarrow> run_fits d (is_input st) run)"

text \<open>The parts of the state a scan leaves.\<close>

definition scanned :: "inline_state \<Rightarrow> inline_state \<Rightarrow> bool" where
  "scanned st st' \<longleftrightarrow> is_input st' = is_input st \<and> is_pos st' = is_pos st \<and> is_stack st' = is_stack st \<and>
     is_openers st' = is_openers st \<and> is_closers st' = is_closers st \<and> is_siblings st' = is_siblings st \<and>
     is_names st' = is_names st \<and> is_error st' = is_error st"

lemma scanned_simps [simp]: "scanned st st" "scanned st (work k st') = scanned st st'" "scanned st (saw_end st') = scanned st st'"
  "scanned st (st'\<lparr>is_cached := c\<rparr>) = scanned st st'"
  by (simp_all add: scanned_def work_def saw_end_def)

lemma input_simps [simp]: "is_input (work k st) = is_input st" "is_input (saw_end st) = is_input st"
  by (simp_all add: work_def saw_end_def)

lemma word_body_width: "body (delimiter_spec d r) = DELIMITER_WORD_BODY \<Longrightarrow> minimum_width (delimiter_spec d r) = 1"
  using spec_cases [of d r] by (auto simp: spec_defs)

lemma scan_delimiter_fits:
  assumes "scan_delimiter d start rule st = (run, st')" and "start < length (is_input st)" and "cached_ok d st"
  shows "run_fits d (is_input st) run \<and> dr_start run = start \<and> dr_rule run = rule \<and> cached_ok d st' \<and> scanned st st'"
proof (cases "\<exists>c. is_cached st = Some c \<and> dr_start c = start \<and> dr_rule c = rule")
  case True
  then have "is_cached st = Some run" "st' = st" "dr_start run = start" "dr_rule run = rule"
    using assms(1) by (auto simp: scan_delimiter_def)
  then show ?thesis using assms(3) by (simp add: cached_ok_def)
next
  case False
  let ?spec = "delimiter_spec d rule" and ?e = "run_end (delimiter_spec d rule) (is_input st) (is_input st ! start) start start"
  have e: "start < ?e" "?e \<le> length (is_input st)"
    using run_end_first [OF assms(2)] run_end_bounds [of start "is_input st"] assms(2) by auto
  have "(case is_cached st of Some c \<Rightarrow> if dr_start c = start \<and> dr_rule c = rule then Some c else None | None \<Rightarrow> None) = None"
    using False by (auto split: option.split)
  note S = assms(1) [unfolded scan_delimiter_def this option.case Let_def]
  show ?thesis
  proof (cases "body ?spec = DELIMITER_WORD_BODY")
    case True
    then have "run = \<lparr>dr_start = start, dr_end = ?e, dr_rule = rule, dr_can_open = True, dr_can_close = True\<rparr>"
      "scanned st st'" "is_input st' = is_input st" "is_cached st' = Some run" using S by auto
    then show ?thesis using e word_body_width [OF True] by (auto simp: run_fits_def cached_ok_def)
  next
    case word: False
    show ?thesis
    proof (cases "?e - start < minimum_width ?spec \<or> exact_run ?spec \<and> ?e - start \<noteq> minimum_width ?spec")
      case True
      then have "run = \<lparr>dr_start = start, dr_end = ?e, dr_rule = rule, dr_can_open = False, dr_can_close = False\<rparr>"
        "scanned st st'" "is_input st' = is_input st" "is_cached st' = Some run" using S word by auto
      then show ?thesis using e by (auto simp: run_fits_def cached_ok_def)
    next
      case False
      then have "\<exists>opens closes. run = \<lparr>dr_start = start, dr_end = ?e, dr_rule = rule, dr_can_open = opens, dr_can_close = closes\<rparr>"
        "scanned st st'" "is_input st' = is_input st" "is_cached st' = Some run"
        using S word by (auto split: prod.splits if_splits)
      then show ?thesis using e False by (auto simp: run_fits_def cached_ok_def)
    qed
  qed
qed

subsection \<open>Any sequence of tokens\<close>

text \<open>A content whose bytes are the source's own, byte for byte.\<close>

definition own_place :: "nat \<Rightarrow> nat \<Rightarrow> int \<times> int" where
  "own_place from to = (int from, int to)"

inductive inline_step :: "pairing \<Rightarrow> (nat \<Rightarrow> bool) \<Rightarrow> inline_state \<Rightarrow> inline_state \<Rightarrow> bool"
  for pe :: pairing and grant :: "nat \<Rightarrow> bool" where
  token: "is_pos st < e \<Longrightarrow> e \<le> length (is_input st) \<Longrightarrow>
    inline_step pe grant st (scaffold_append (Some (Other (int (is_pos st)) (int e))) (st\<lparr>is_pos := e\<rparr>))"
| boundary: "inline_step pe grant st (push_boundary grant position st)"
| entry: "kind \<noteq> DELIMITER_MARKER \<Longrightarrow>
    inline_step pe grant st (snd (push_delimiter_entry grant (fresh_entry kind position) st))"
| run: "is_pos st < length (is_input st) \<Longrightarrow>
    match_delimiter (pe_dialect pe) grant (pe_alloc pe) own_place rule st = (node, st') \<Longrightarrow>
    inline_step pe grant st (scaffold_append node st')"
| own_marker: "is_pos st < e \<Longrightarrow> e \<le> length (is_input st) \<Longrightarrow>
    minimum_width (delimiter_spec (pe_dialect pe) rule) \<le> e - is_pos st \<Longrightarrow>
    make_str (pe_alloc pe) own_place (is_pos st) e (st\<lparr>is_pos := e\<rparr>) = (node, st') \<Longrightarrow>
    inline_step pe grant st (scaffold_append node (push_delimiter grant builds rule opens closes node st'))"
| pairs: "S_process_delimiters pe bottom after settle st = Some st' \<Longrightarrow> inline_step pe grant st st'"

inductive inline_reached :: "pairing \<Rightarrow> (nat \<Rightarrow> bool) \<Rightarrow> byte list \<Rightarrow> inline_state \<Rightarrow> bool"
  for pe :: pairing and grant :: "nat \<Rightarrow> bool" and input :: "byte list" where
  start: "is_input st = input \<Longrightarrow> is_pos st = 0 \<Longrightarrow> is_stack st = [] \<Longrightarrow> is_cached st = None \<Longrightarrow> is_siblings st = [] \<Longrightarrow>
    is_openers st = (\<lambda>r. 0) \<Longrightarrow> is_closers st = (\<lambda>r. 0) \<Longrightarrow> inline_reached pe grant input st"
| step: "inline_reached pe grant input st \<Longrightarrow> inline_step pe grant st st' \<Longrightarrow> inline_reached pe grant input st'"

definition inline_ok :: "dialect \<Rightarrow> byte list \<Rightarrow> inline_state \<Rightarrow> bool" where
  "inline_ok d input st \<longleftrightarrow> is_input st = input \<and> is_pos st \<le> length input \<and> delimiters_ok d st \<and> cached_ok d st \<and>
     (\<forall>m \<in> set (run_names (is_siblings st)). m < is_names st) \<and>
     (is_error st \<or> covers (is_siblings st) = [0..int (is_pos st) - 1])"

lemma standing_entry:
  assumes "standing d nodes es" and "\<not> marker e" and "\<not> dl_can_open e" and "\<not> dl_can_close e"
  shows "standing d nodes (es @ [e])"
  using assms by (auto simp: standing_def entry_ok_def)

lemma literal_length_append:
  assumes "distinct (run_names (nodes @ extra))" and "m \<in> set (run_names nodes)"
  shows "literal_length (nodes @ extra) m = literal_length nodes m"
proof -
  from assms(2) obtain s e l where "Run m s e l \<in> set nodes" by (auto simp: run_names_def split: inline_node.splits)
  then show ?thesis using literal_length_in [OF _ assms(1), of m s e l] literal_length_in [of m s e l nodes] assms(1) by simp
qed

lemma standing_append:
  assumes "standing d nodes es" and "distinct (run_names (nodes @ extra))" and "\<forall>n \<in> set extra. verbatim n"
  shows "standing d (nodes @ extra) es"
proof -
  have "entry_ok d (nodes @ extra) e" if "e \<in> set es" for e
  proof -
    have "entry_ok d nodes e" using assms(1) that by (simp add: standing_def)
    moreover have "marker e \<Longrightarrow> dl_node e \<in> set (run_names nodes)"
      using assms(1) that subseq_subset [of "marks es" "run_names nodes"] by (auto simp: standing_def marks_def)
    ultimately show ?thesis using literal_length_append [OF assms(2)] by (auto simp: entry_ok_def)
  qed
  then show ?thesis using assms by (auto simp: standing_def intro: subseq_order.order_trans)
qed

lemma standing_push:
  assumes "standing d nodes es" and "m \<notin> set (run_names nodes)" and "marker e" and "dl_node e = m" and "needed d e \<le> l"
    and "l = b - a"
  shows "standing d (nodes @ [Run m a b l]) (es @ [e])"
proof -
  have D: "distinct (run_names (nodes @ [Run m a b l]))" using assms(1,2) by (simp add: standing_def)
  have "0 < l" using assms(5) by (simp add: needed_def)
  then have S: "standing d (nodes @ [Run m a b l]) es" by (intro standing_append [OF assms(1) D]) (simp add: verbatim_def assms(6))
  have "literal_length (nodes @ [Run m a b l]) m = l" by (rule literal_length_in [of m a b, OF _ D]) simp
  then have "entry_ok d (nodes @ [Run m a b l]) e" using assms(3-5) by (simp add: entry_ok_def)
  moreover have "subseq (marks es @ [m]) (run_names nodes @ [m])" using assms(1) by (auto simp: standing_def intro!: list_emb_append_mono)
  ultimately show ?thesis using S assms(3,4) by (auto simp: standing_def)
qed

lemma push_entry_ok:
  assumes "inline_ok d input st" and "\<not> marker e" and "\<not> dl_can_open e" and "\<not> dl_can_close e"
  shows "inline_ok d input (snd (push_delimiter_entry grant e st))"
  using assms standing_entry [OF _ assms(2-4)]
  by (auto simp: inline_ok_def push_delimiter_entry_def Let_def delimiters_ok_def cached_ok_def counted_def)

lemma push_boundary_ok:
  assumes "inline_ok d input st"
  shows "inline_ok d input (push_boundary grant position st)"
proof (cases "is_stack st \<noteq> [] \<and> dl_kind (last (is_stack st)) = DELIMITER_BOUNDARY")
  case False
  then have "push_boundary grant position st = snd (push_delimiter_entry grant (fresh_entry DELIMITER_BOUNDARY position) st)"
    unfolding push_boundary_def by (rule if_not_P)
  then show ?thesis using push_entry_ok [OF assms, of "fresh_entry DELIMITER_BOUNDARY position" grant] by (simp add: fresh_entry_def)
next
  case True
  then obtain es b where es: "is_stack st = es @ [b]" "\<not> marker b" by (cases "is_stack st" rule: rev_cases) auto
  have S: "standing d (is_siblings st) (es @ [b])" and C: "counted st (mset (es @ [b]))"
    using assms es by (simp_all add: inline_ok_def delimiters_ok_def)
  then have b: "\<not> dl_can_open b" "\<not> dl_can_close b" using es(2) by (simp_all add: standing_def entry_ok_def)
  let ?b = "b\<lparr>dl_position := position\<rparr>"
  have "standing d (is_siblings st) es" by (rule standing_fewer [OF S], rule subseq_rev_drop_many) simp
  then have "standing d (is_siblings st) (es @ [?b])" using standing_entry [of d _ es ?b] es(2) b by simp
  moreover have "counted st (mset (es @ [?b]))" using C b by (simp add: counted_def)
  moreover have "push_boundary grant position st = st\<lparr>is_stack := es @ [?b]\<rparr>" using True es(1) by (simp add: push_boundary_def)
  ultimately show ?thesis using assms by (auto simp: inline_ok_def delimiters_ok_def cached_ok_def)
qed

lemma covers_next:
  assumes "covers nodes = [0..int a - 1]" and "a \<le> b"
  shows "covers (nodes @ [Run m (int a) (int b) l]) = [0..int b - 1]" and "covers (nodes @ [Other (int a) (int b)]) = [0..int b - 1]"
proof -
  have "[0..int b - 1] = [0..int a - 1] @ [int a..int b - 1]" using assms(2) by (cases "a = b") (simp_all add: upto_split1)
  then show "covers (nodes @ [Run m (int a) (int b) l]) = [0..int b - 1]" "covers (nodes @ [Other (int a) (int b)]) = [0..int b - 1]"
    using assms(1) by simp_all
qed

lemma token_ok:
  assumes "inline_ok d input st" and "is_pos st < e" and "e \<le> length (is_input st)"
  shows "inline_ok d input (scaffold_append (Some (Other (int (is_pos st)) (int e))) (st\<lparr>is_pos := e\<rparr>))"
proof -
  have "standing d (is_siblings st @ [Other (int (is_pos st)) (int e)]) (is_stack st)"
    using assms(1) by (intro standing_append) (auto simp: inline_ok_def delimiters_ok_def standing_def verbatim_def)
  then show ?thesis using assms covers_next(2) [of "is_siblings st" "is_pos st" e]
    by (auto simp: inline_ok_def delimiters_ok_def scaffold_append_def cached_ok_def counted_def)
qed

lemma inline_ok_refused: "inline_ok d input st \<Longrightarrow> inline_ok d input (st\<lparr>is_pushes := j, is_error := True\<rparr>)"
  by (auto simp: inline_ok_def delimiters_ok_def cached_ok_def counted_def)

text \<open>A run becomes a Text, and an entry when it may be pushed.\<close>

lemma marker_ok:
  assumes "inline_ok d input st" and "is_pos st < e" and "e \<le> length (is_input st)"
    and "make_str alloc own_place (is_pos st) e (st\<lparr>is_pos := e\<rparr>) = (node, st1)"
    and "st2 = st1 \<or> minimum_width (delimiter_spec d rule) \<le> e - is_pos st \<and> st2 = push_delimiter grant builds rule opens closes node st1"
  shows "inline_ok d input (scaffold_append node st2)"
proof (cases node)
  case None
  then have "st1 = st\<lparr>is_pos := e, is_made := is_made st + 1, is_error := True\<rparr>"
    using assms(4) by (auto simp: make_str_def Let_def split: if_splits)
  then show ?thesis using None assms(1,3,5)
    by (auto simp: scaffold_append_def push_delimiter_def inline_ok_def delimiters_ok_def cached_ok_def counted_def)
next
  case (Some n)
  let ?m = "is_names st" and ?l = "int e - int (is_pos st)"
  let ?run = "Run ?m (int (is_pos st)) (int e) ?l"
  have n: "n = ?run" and st1: "st1 = st\<lparr>is_pos := e, is_made := is_made st + 1, is_names := ?m + 1\<rparr>"
    using assms(4) Some by (auto simp: make_str_def Let_def own_place_def split: if_splits)
  have fresh: "?m \<notin> set (run_names (is_siblings st))" using assms(1) by (auto simp: inline_ok_def)
  have S: "standing d (is_siblings st) (is_stack st)" and C: "counted st (mset (is_stack st))"
    using assms(1) by (simp_all add: inline_ok_def delimiters_ok_def)
  have "standing d (is_siblings st @ [?run]) (is_stack st)"
    using S fresh assms(2) by (intro standing_append [OF S]) (auto simp: standing_def verbatim_def)
  moreover have names: "\<forall>m \<in> set (run_names (is_siblings st @ [?run])). m < ?m + 1" using assms(1) by (auto simp: inline_ok_def)
  moreover note cov = covers_next(1) [of "is_siblings st" "is_pos st" e ?m ?l]
  ultimately have plain: "inline_ok d input (scaffold_append node st1)" using assms(1-3) C unfolding Some n st1
    by (auto simp: scaffold_append_def inline_ok_def delimiters_ok_def cached_ok_def counted_def)
  show ?thesis
  proof (cases "st2 = st1 \<or> rule = RULE_NONE \<or> \<not> grant (is_pushes st + 1)")
    case True
    have "push_delimiter grant builds rule opens closes node st1 =
        (if rule = RULE_NONE then st1 else st1\<lparr>is_pushes := is_pushes st + 1, is_error := True\<rparr>)" if "\<not> grant (is_pushes st + 1) \<or> rule = RULE_NONE"
      using that unfolding Some push_delimiter_def push_delimiter_entry_def Let_def option.case by (simp add: st1)
    with True assms(5) consider "st2 = st1" | "st2 = st1\<lparr>is_pushes := is_pushes st + 1, is_error := True\<rparr>"
      by (cases "rule = RULE_NONE") auto
    then show ?thesis
    proof cases
      case 2
      then have "scaffold_append node st2 = (scaffold_append node st1)\<lparr>is_pushes := is_pushes st + 1, is_error := True\<rparr>"
        using Some by (simp add: scaffold_append_def)
      then show ?thesis using inline_ok_refused [OF plain] by simp
    qed (use plain in simp)
  next
    case False
    define e' where "e' = (fresh_entry DELIMITER_MARKER e)\<lparr>dl_node := ?m, dl_builds := builds, dl_length := nat ?l,
      dl_rule := rule, dl_can_open := opens, dl_can_close := closes\<rparr>"
    have st2: "st2 = count_entry 1 e' (st1\<lparr>is_pushes := is_pushes st + 1, is_stack := is_stack st @ [e']\<rparr>)"
      using assms(5) False unfolding Some n by (simp add: push_delimiter_def push_delimiter_entry_def Let_def st1 e'_def)
    have "needed d e' \<le> ?l" using assms(2,5) False by (auto simp: needed_def e'_def fresh_entry_def)
    then have "standing d (is_siblings st @ [?run]) (is_stack st @ [e'])"
      by (intro standing_push [OF S fresh]) (simp_all add: e'_def fresh_entry_def)
    moreover have "counted (st1\<lparr>is_pushes := is_pushes st + 1, is_stack := is_stack st @ [e']\<rparr>) (mset (is_stack st))"
      using C by (simp add: counted_def st1)
    from counted_push [OF this, of e'] have "counted st2 (mset (is_stack st @ [e']))" unfolding st2 by simp
    moreover have f: "is_input st2 = is_input st" "is_pos st2 = e" "is_cached st2 = is_cached st" "is_names st2 = ?m + 1"
      "is_error st2 = is_error st" "is_siblings st2 = is_siblings st" "is_stack st2 = is_stack st @ [e']"
      unfolding st2 st1 by (simp_all add: count_entry_def Let_def)
    ultimately show ?thesis using assms(1-3) names cov unfolding Some n
      by (auto simp: scaffold_append_def inline_ok_def delimiters_ok_def cached_ok_def counted_def)
  qed
qed

lemma inline_step_ok:
  assumes "inline_step pe grant st st'" and "builds_ok pe" and "inline_ok (pe_dialect pe) input st"
  shows "inline_ok (pe_dialect pe) input st'"
  using assms(1,3)
proof (induction rule: inline_step.induct)
  case (token st e)
  then show ?case using token_ok by blast
next
  case (boundary st position)
  then show ?case by (rule push_boundary_ok)
next
  case (entry kind st position)
  then show ?case by (intro push_entry_ok) (simp_all add: fresh_entry_def)
next
  case (run st rule node st')
  let ?d = "pe_dialect pe"
  obtain dr st1 where s: "scan_delimiter ?d (is_pos st) rule st = (dr, st1)" by fastforce
  have "cached_ok ?d st" using run(3) by (simp add: inline_ok_def)
  from scan_delimiter_fits [OF s run(1) this] have f: "run_fits ?d (is_input st) dr" "dr_start dr = is_pos st" "dr_rule dr = rule"
    "cached_ok ?d st1" "scanned st st1" by simp_all
  have ok: "inline_ok ?d input st1" using run(3) f(4,5)
    by (auto simp: inline_ok_def scanned_def delimiters_ok_def counted_def)
  have p: "is_pos st1 = is_pos st" "is_input st1 = is_input st" using f(5) by (simp_all add: scanned_def)
  have b: "is_pos st1 < dr_end dr" "dr_end dr \<le> length (is_input st1)" using f(1,2) p by (simp_all add: run_fits_def)
  obtain n2 st2 where m: "make_str (pe_alloc pe) own_place (dr_start dr) (dr_end dr) (st1\<lparr>is_pos := dr_end dr\<rparr>) = (n2, st2)" by fastforce
  then have m': "make_str (pe_alloc pe) own_place (is_pos st1) (dr_end dr) (st1\<lparr>is_pos := dr_end dr\<rparr>) = (n2, st2)" using f(2) p by simp
  show ?case
  proof (cases "delimiter_needs_stack st1 dr")
    case False
    then consider "node = None" "st' = st1" | "node = n2" "st' = st2"
      using run(2) s m by (auto simp: match_delimiter_def split: if_splits)
    then show ?thesis
    proof cases
      case 1
      then show ?thesis using ok by (simp add: scaffold_append_def)
    next
      case 2
      then show ?thesis using marker_ok [OF ok b m'] by blast
    qed
  next
    case True
    then have w: "minimum_width (delimiter_spec ?d rule) \<le> dr_end dr - is_pos st1"
      using f(1-3) p by (auto simp: run_fits_def delimiter_needs_stack_def)
    have h: "node = n2" "st' = (case n2 of None \<Rightarrow> st2 | Some _ \<Rightarrow>
        push_delimiter grant False (dr_rule dr) (dr_can_open dr) (dr_can_close dr) n2 st2)"
      using run(2) s m True by (auto simp: match_delimiter_def handle_delim_def)
    show ?thesis unfolding h
      by (rule marker_ok [OF ok b m', of _ rule grant False "dr_can_open dr" "dr_can_close dr"]) (use w f(3) in \<open>auto split: option.split\<close>)
  qed
next
  case (own_marker st e rule node st' builds opens closes)
  then show ?case using marker_ok [OF own_marker(5,1,2,4)] by blast
next
  case (pairs bottom after settle st st')
  have "delimiters_ok (pe_dialect pe) st" using pairs(2) by (simp add: inline_ok_def)
  from process_ok [OF this assms(2), of bottom after settle] pairs(1)
  have "delimiters_ok (pe_dialect pe) st'" "preserves st st'" by auto
  then show ?case using pairs(2) by (auto simp: inline_ok_def preserves_def cached_ok_def)
qed

lemma inline_reached_ok:
  assumes "inline_reached pe grant input st" and "builds_ok pe"
  shows "inline_ok (pe_dialect pe) input st"
  using assms(1)
proof (induction rule: inline_reached.induct)
  case (start st)
  then show ?case by (simp add: inline_ok_def delimiters_ok_def standing_def counted_def cached_ok_def)
next
  case (step st st')
  then show ?case using inline_step_ok assms(2) by blast
qed

subsection \<open>What holds of every state\<close>


text \<open>
  C12: The counts of openers and closers that a token asks before it pushes (\<open>delimiter_needs_stack\<close>,
  \<open>has_unmatched_opener\<close>) are those of the entries on the stack, and each marker's entry stands on a
  Text of its own among the nodes, in the order of the stack, no shorter than the rule's least width.
\<close>

theorem delimiter_counts_exact:
  assumes "inline_reached pe grant input st" and "builds_ok pe"
  shows "(\<forall>r. is_openers st r = int (length (filter (\<lambda>e. dl_can_open e \<and> dl_rule e = r) (is_stack st))) \<and>
      is_closers st r = int (length (filter (\<lambda>e. dl_can_close e \<and> dl_rule e = r) (is_stack st)))) \<and>
    subseq (map dl_node (filter (\<lambda>e. dl_kind e = DELIMITER_MARKER) (is_stack st))) (run_names (is_siblings st)) \<and>
    distinct (run_names (is_siblings st)) \<and>
    (\<forall>e \<in> set (is_stack st). dl_kind e = DELIMITER_MARKER \<longrightarrow>
      int (max 1 (minimum_width (delimiter_spec (pe_dialect pe) (dl_rule e)))) \<le> literal_length (is_siblings st) (dl_node e))"
proof -
  have ok: "delimiters_ok (pe_dialect pe) st" using inline_reached_ok [OF assms] by (simp add: inline_ok_def)
  then have S: "standing (pe_dialect pe) (is_siblings st) (is_stack st)" and C: "counted st (mset (is_stack st))"
    by (simp_all add: delimiters_ok_def)
  show ?thesis using S C unfolding standing_def marks_def entry_ok_def needed_def counted_stack by blast
qed

text \<open>
  C2: A pairing asked of any state that tokens can reach returns: it keeps the cursor, the bytes the
  nodes cover and the entries outside its range, and leaves of the range at most one entry, its last
  boundary, so that no opener or closer of the range is looked at again.
\<close>

theorem pairing_returns:
  assumes "inline_reached pe grant input st" and "builds_ok pe"
  shows "\<exists>st' kept. S_process_delimiters pe stack_bottom after settle st = Some st' \<and>
    covers (is_siblings st') = covers (is_siblings st) \<and> is_pos st' = is_pos st \<and>
    is_stack st' = below_range stack_bottom after (is_stack st) @ kept @ drop after (is_stack st) \<and> length kept \<le> 1 \<and>
    (\<forall>e \<in> set kept. dl_kind e = DELIMITER_BOUNDARY)"
proof -
  have "delimiters_ok (pe_dialect pe) st" using inline_reached_ok [OF assms] by (simp add: inline_ok_def)
  from process_ok [OF this assms(2), of stack_bottom after settle] show ?thesis unfolding preserves_def by blast
qed

text \<open>A run, a byte, a run and their pairing: \<open>*a*\<close>.\<close>

definition take_run :: "delimiter_rule \<Rightarrow> inline_state \<Rightarrow> inline_state" where
  "take_run rule st =
     (let (node, st) = match_delimiter (pe_dialect sample_pairing) (\<lambda>n. True) (pe_alloc sample_pairing) own_place rule st
      in scaffold_append node st)"

definition take_byte :: "inline_state \<Rightarrow> inline_state" where
  "take_byte st = scaffold_append (Some (Other (int (is_pos st)) (int (is_pos st + 1)))) (st\<lparr>is_pos := is_pos st + 1\<rparr>)"

definition starred :: inline_state where
  "starred = take_run RULE_EMPHASIS (take_byte (take_run RULE_EMPHASIS (sample_state [0x2A, 0x61, 0x2A])))"

definition emphasised :: inline_state where
  "emphasised = (case S_process_delimiters sample_pairing 0 2 True starred of Some st \<Rightarrow> st | None \<Rightarrow> starred)"

lemma starred_reached: "inline_reached sample_pairing (\<lambda>n. True) [0x2A, 0x61, 0x2A] starred"
proof -
  let ?reached = "inline_reached sample_pairing (\<lambda>n. True) [0x2A, 0x61, 0x2A]" and ?s0 = "sample_state [0x2A, 0x61, 0x2A]"
  have run: "?reached (take_run rule st)" if "?reached st" "is_pos st < length (is_input st)" for rule st
  proof -
    obtain node st' where m: "match_delimiter (pe_dialect sample_pairing) (\<lambda>n. True) (pe_alloc sample_pairing) own_place rule st = (node, st')"
      by fastforce
    show ?thesis using inline_reached.step [OF that(1) inline_step.run [OF that(2) m]] by (simp add: take_run_def m)
  qed
  have byte: "?reached (take_byte st)" if "?reached st" "is_pos st < length (is_input st)" for st
    unfolding take_byte_def by (rule inline_reached.step [OF that(1) inline_step.token]) (use that(2) in auto)
  have "?reached ?s0" by (rule inline_reached.start) (simp_all add: sample_state_def)
  moreover have "is_pos ?s0 < length (is_input ?s0)" by code_simp
  ultimately have 1: "?reached (take_run RULE_EMPHASIS ?s0)" by (rule run)
  have "is_pos (take_run RULE_EMPHASIS ?s0) < length (is_input (take_run RULE_EMPHASIS ?s0))" by code_simp
  with 1 have 2: "?reached (take_byte (take_run RULE_EMPHASIS ?s0))" by (rule byte)
  have "is_pos (take_byte (take_run RULE_EMPHASIS ?s0)) < length (is_input (take_byte (take_run RULE_EMPHASIS ?s0)))" by code_simp
  with 2 show ?thesis unfolding starred_def by (rule run)
qed

lemma emphasised_reached: "inline_reached sample_pairing (\<lambda>n. True) [0x2A, 0x61, 0x2A] emphasised"
proof (cases "S_process_delimiters sample_pairing 0 2 True starred")
  case None
  then show ?thesis using starred_reached by (simp add: emphasised_def)
next
  case (Some st)
  then show ?thesis using inline_reached.step [OF starred_reached inline_step.pairs [OF Some]] by (simp add: emphasised_def)
qed

lemma emphasised_shape: "is_siblings emphasised = [Made NODE_EMPHASIS 0 3 [Other 1 2]] \<and> \<not> is_error emphasised" "is_pos emphasised = 3"
  by code_simp+


theorem delimiter_counts_exact_witness:
  "length (is_stack starred) = 2 \<and>
    is_openers starred RULE_EMPHASIS = int (length (filter (\<lambda>e. dl_can_open e \<and> dl_rule e = RULE_EMPHASIS) (is_stack starred)))"
proof -
  have "length (is_stack starred) = 2" by code_simp
  then show ?thesis using delimiter_counts_exact [OF starred_reached sample_builds] by simp
qed

theorem pairing_returns_witness:
  "length (is_stack starred) = 2 \<and> (\<exists>st' kept. S_process_delimiters sample_pairing 0 2 True starred = Some st' \<and>
    covers (is_siblings st') = covers (is_siblings starred) \<and> is_pos st' = is_pos starred \<and>
    is_stack st' = below_range 0 2 (is_stack starred) @ kept @ drop 2 (is_stack starred) \<and> length kept \<le> 1 \<and>
    (\<forall>e \<in> set kept. dl_kind e = DELIMITER_BOUNDARY))"
proof -
  have "length (is_stack starred) = 2" by code_simp
  then show ?thesis using pairing_returns [OF starred_reached sample_builds] by blast
qed

end
