(* ===== verification/Spec2Isabelle.thy ===== *)
theory Spec2Isabelle
  imports Houdini Frame TextLocate KeyIndex KeyTree AdapterCalls YamlTree AttributeRead InlineTokens
begin

text \<open>
  markdown-core, the C parser under src/packages/markdown-core: a Markdown engine (core/ and
  elements/), and a language server over it (lsp/).  This development models the parts of it
  that decide text and keep data by themselves, each translated from its source function by
  function, and proves what makes each of them correct.

  \<^bold>\<open>How the parts interact.\<close>  Everything reads bytes through the byte classes, and characters
  through the UTF-8 decoder.  Everything writes text through the growable buffer: the character
  references, the JSON writer, the YAML scalars, the attribute values.  A definition a parse
  declares is kept by its key, in the key index or the key tree.  The properties of a document are
  read by the YAML parser, the attributes of a node by the attribute recogniser.  The inline parser
  pushes each run of marker bytes on a stack of delimiters and pairs them into nodes.  The language
  server reads a framed message, parses it as JSON, serves it as a call on its documents and
  writes the answer as JSON; a position of the protocol is looked up in a line.

  \<^bold>\<open>The theories\<close>, in the order of their imports:
  \<^item> \<open>Prelude\<close>: bytes, cursors over lists, codecs, and the interface of what appends pieces
    (\<open>locale sink\<close>).
  \<^item> \<open>Alloc\<close> (core/alloc.h): how much room a growing array takes, and that the loop returns.
  \<^item> \<open>Ctype\<close> (core/markdown_core_ctype): the class table, the predicates, the unrolled scan.
  \<^item> \<open>Utf8\<close> (core/utf8): decoding, widths and encoding; decoding undoes encoding, and on any bytes
    stays within them.
  \<^item> \<open>Strbuf\<close> (core/buffer): the growable buffer with its size limit.  Its invariant is kept by every
    operation, and what a refused growth loses is a tail of the pieces.
  \<^item> \<open>Decimal\<close>, \<open>Houdini\<close> (core/houdini): numerals; character references, the binary search over the
    entity table and the unescape loop, which writes the image of the text.
  \<^item> \<open>Json\<close>, \<open>JsonRead\<close>, \<open>JsonWrite\<close>, \<open>JsonRound\<close> (lsp/json): the reader into a flat tree, the grammar it
    accepts, the accessors, the writer, and that what is written reads back.
  \<^item> \<open>Frame\<close> (lsp/frame.c): messages in a stream of bytes.
  \<^item> \<open>TextLocate\<close> (lsp/text.c): where a protocol position stands.
  \<^item> \<open>Probing\<close>: tables with open addressing, as a locale over the key, the stored hash and its home
    slot; \<open>KeyIndex\<close> (core/map.c) and \<open>Server\<close> interpret it on their own tables.
  \<^item> \<open>KeyIndex\<close>, \<open>KeyOrder\<close>, \<open>KeyTree\<close> (core/map.c, core/map.h): the hashed index, which refines a map;
    the order of keyed entries, which is the byte order; the counted B+ tree, which refines a sorted
    list of entries.
  \<^item> \<open>Server\<close> (lsp/server.c): the lifecycle and the documents, which refine a map from addresses to
    sessions; the parse session is a record of the operations the server calls.
  \<^item> \<open>Adapter\<close>, \<open>AdapterServe\<close>, \<open>AdapterCalls\<close> (lsp/adapter.c): from the bytes of a message to the call
    it makes and the answer it gets; the composition of the JSON reader, the server and the writer.
  \<^item> \<open>Yaml\<close>, \<open>YamlRead\<close>, \<open>YamlTree\<close> (elements/yaml.c): the parser of the properties language; what each
    operation keeps of the parser's state; the grammar of the events.
  \<^item> \<open>Attributes\<close>, \<open>AttributeMemo\<close>, \<open>AttributeText\<close>, \<open>AttributeRead\<close> (elements/attributes.c): attribute
    blocks; that recognition with its memo answers as the reference without one; what the bytes of a
    block stand for; that a parse lays out exactly that.
  \<^item> \<open>Delimiters\<close> (core/delimiter.h, the delimiters of core/inlines.c and the rules that
    elements/emphasis.c and its like declare): classification, the stack, the pairing.  \<open>Flanking\<close>: a
    run opens and closes as the nearest scalars flank it.  \<open>Pairing\<close>: the pairing ends and keeps each
    source byte in its place.  \<open>PairingMemo\<close>: the bounds of failed searches against a pairing without
    them, and a text on which they differ.  \<open>InlineTokens\<close>: what every sequence of tokens and pairings
    keeps, as an invariant of a step relation.

  \<^bold>\<open>Conventions.\<close>  A struct is a record under the source's names, with a prefix where a field would
  clash; an array is a list and its capacity a number.  A length or a position is a \<open>nat\<close> where the
  code never lets it be negative and an \<open>int\<close> where it does; \<open>size_t\<close> and \<open>bufsize_t\<close> limits are
  written out where the code tests them, and bytes, hashes and heads of keys are words.  A failure is
  a value: \<open>None\<close>, a status, or the sticky flag of the source.  An allocator is a function from the
  size asked for to whether it is granted, one for each kind of storage, so that a property about
  every allocator covers every pattern of refusals that depends on the sizes.

  \<^bold>\<open>Loops and fuel.\<close>  A loop is a \<open>fun\<close> or \<open>function\<close> with a measure where the code's own bound is
  visible, and a \<open>partial_function (option)\<close> where it is not (the growth of an array, the probing of a
  table, the write-back of the attribute memo), with a lemma that it returns.  The recursion of the
  JSON reader is bounded by the code's depth of 512.  The recursion of the YAML parser has fuel, three
  for each byte of the text and four more: each level of the recursion either consumes a byte or goes
  one step along a chain of three procedures, and \<open>yaml_read_returns\<close> shows that it is never used up.

  The walk that pairs delimiters may look at a closer again; \<open>pairing_returns\<close> shows that it ends,
  because each turn either moves on or takes bytes from two runs.

  \<^bold>\<open>Parameters.\<close>  The entity table and the Unicode class tables are generated files, and the parse
  session belongs to a part not modelled; each is an argument of the definitions that use it.  So are,
  for the delimiters, which kinds an owner admits, and an element's own constructor
  (\<open>insert_inline_from_delim\<close>), which \<open>builds_ok\<close> lets put nodes of the same bytes in a pair's place.

  \<^bold>\<open>Not modelled\<close>, and why: the block parser (core/blocks.c), the inline parser but for its delimiters
  (core/inlines.c: the token loop, the placement of nodes, the settle points), the node
  tree (core/node.c), the elements' hooks over them (elements/), and the documents and sessions
  published from them (elements/ast.c, elements/session.c), which are one mutable graph shared
  through callbacks; completion (elements/context.c, elements/parts.c), which walks that graph; the
  roster, the zippers and the slabs, which carve storage out of blocks; the copying ahead of an array's growth, which changes
  no contents; the generated scanners and tables; the programs' reading of options and of standard input;
  the wire form and the bindings.  Of the modelled files: label normalisation in core/utf8.c, which
  rests on generated case tables; \<open>json_equal\<close>; the release functions, which only free; and, of the
  attributes, the sharing of a value between nodes and the completion of a block left open.
\<close>

end
